(* ===== verification/Prelude.thy ===== *)
theory Prelude
  imports Main "HOL-Library.Word" "HOL-Library.Sublist"
begin

text \<open>
  Shared vocabulary of the development.

  \<^item> Go's \<^verbatim>\<open>error\<close> results: a sum type with \<^verbatim>\<open>fmt.Errorf("...: %w", err)\<close> as
    \<open>Wrap\<close>, the sentinel errors of package \<^verbatim>\<open>io\<close> as constructors, and the early
    return on a non-nil error as \<open>rbind\<close>. \<open>Divergence\<close> is the applier's
    \<^verbatim>\<open>*DivergenceError\<close>: relation, change kind and reason.
  \<^item> Machine integers and byte strings: \<^verbatim>\<open>byte\<close>, \<^verbatim>\<open>uint32\<close>, \<^verbatim>\<open>uint64\<close> as words,
    Go strings as lists of 8-bit characters, and the fixed-width little- and big-endian
    encodings of package \<^verbatim>\<open>encoding/binary\<close>.
  \<^item> List facts that several components need, and the collections of simplification rules
    (\<open>res_simps\<close>, \<open>wire_simps\<close>) the component proofs run on.
\<close>

named_theorems res_simps
named_theorems wire_simps

type_synonym byte = "8 word"

section \<open>Results\<close>

datatype error =
    Err string
  | Wrap string error
  | IoEOF
  | IoUnexpectedEOF
  | IoShortWrite
  | Divergence string byte string

type_synonym 'a res = "error + 'a"

fun rbind :: "'a res \<Rightarrow> ('a \<Rightarrow> 'b res) \<Rightarrow> 'b res" where
  "rbind (Inl e) f = Inl e"
| "rbind (Inr x) f = f x"

fun rwrap :: "string \<Rightarrow> 'a res \<Rightarrow> 'a res" where
  "rwrap s (Inl e) = Inl (Wrap s e)"
| "rwrap s (Inr x) = Inr x"

fun is_ok :: "'a res \<Rightarrow> bool" where
  "is_ok (Inl e) = False"
| "is_ok (Inr x) = True"

lemma rbind_eq_Inr [res_simps]: "rbind r f = Inr y \<longleftrightarrow> (\<exists>x. r = Inr x \<and> f x = Inr y)"
  by (cases r) auto

lemma rwrap_eq_Inr [res_simps]: "rwrap s r = Inr y \<longleftrightarrow> r = Inr y"
  by (cases r) auto

lemma if_Inl_eq_Inr [res_simps]: "(if b then Inl e else r) = Inr y \<longleftrightarrow> \<not> b \<and> r = Inr y"
  by auto

lemma is_ok_iff: "is_ok r \<longleftrightarrow> (\<exists>x. r = Inr x)"
  by (cases r) auto

lemma rbind_assoc: "rbind (rbind r f) g = rbind r (\<lambda>x. rbind (f x) g)"
  by (cases r) auto

section \<open>Bytes and machine integers\<close>

type_synonym bytes = "byte list"
type_synonym u32 = "32 word"
type_synonym u64 = "64 word"

lemma unat_byte_bound [simp]: "unat (b :: byte) < 256"
  by (rule order.strict_trans2 [OF unsigned_less]) simp

lemma unat_u32_less [simp]: "unat (w :: u32) < 2 ^ 32"
  by (rule order.strict_trans2 [OF unsigned_less]) simp

lemma unat_u64_less [simp]: "unat (w :: u64) < 2 ^ 64"
  by (rule order.strict_trans2 [OF unsigned_less]) simp

definition bytes_of_string :: "string \<Rightarrow> bytes" where
  "bytes_of_string s = map (\<lambda>c. word_of_nat (of_char c)) s"

definition string_of_bytes :: "bytes \<Rightarrow> string" where
  "string_of_bytes bs = map (\<lambda>b. char_of (unat b)) bs"

lemma length_bytes_of_string [simp]: "length (bytes_of_string s) = length s"
  by (simp add: bytes_of_string_def)

lemma length_string_of_bytes [simp]: "length (string_of_bytes bs) = length bs"
  by (simp add: string_of_bytes_def)

lemma string_of_bytes_of_string [simp]: "string_of_bytes (bytes_of_string s) = s"
proof -
  have "char_of (unat (word_of_nat (of_char c) :: byte)) = c" for c
    by (simp add: unat_of_nat)
  then show ?thesis
    by (simp add: bytes_of_string_def string_of_bytes_def comp_def map_idI)
qed

lemma bytes_of_string_of_bytes [simp]: "bytes_of_string (string_of_bytes bs) = bs"
proof -
  have "word_of_nat (of_char (char_of (unat (b :: byte)) :: char)) = b" for b
  proof -
    have "unat b < 256" using unat_byte_bound [of b] by simp
    then show ?thesis by simp
  qed
  then show ?thesis
    by (simp add: bytes_of_string_def string_of_bytes_def comp_def map_idI)
qed

subsection \<open>Fixed-width encodings\<close>

text \<open>\<open>le_bytes k n\<close>: the low \<open>k\<close> bytes of \<open>n\<close>, least significant first.\<close>

fun le_bytes :: "nat \<Rightarrow> nat \<Rightarrow> bytes" where
  "le_bytes 0 n = []"
| "le_bytes (Suc k) n = word_of_nat (n mod 256) # le_bytes k (n div 256)"

fun le_nat :: "bytes \<Rightarrow> nat" where
  "le_nat [] = 0"
| "le_nat (b # bs) = unat b + 256 * le_nat bs"

lemma length_le_bytes [simp]: "length (le_bytes k n) = k"
  by (induction k arbitrary: n) auto

lemma le_nat_le_bytes [simp]: "le_nat (le_bytes k n) = n mod 256 ^ k"
proof (induction k arbitrary: n)
  case (Suc k)
  have "unat (word_of_nat (n mod 256) :: byte) = n mod 256"
    by (simp add: unat_of_nat)
  then show ?case
    by (simp add: Suc mod_mult2_eq)
qed auto

lemma le_nat_bound: "le_nat bs < 256 ^ length bs"
proof (induction bs)
  case (Cons b bs)
  have "unat b < 256" using unat_byte_bound [of b] by simp
  moreover have "256 * le_nat bs + 256 \<le> 256 * 256 ^ length bs"
    using Cons by (metis Suc_leI mult_Suc_right mult_le_mono2 add.commute)
  ultimately have "unat b + 256 * le_nat bs < 256 * 256 ^ length bs" by linarith
  then show ?case by simp
qed auto

lemma le_bytes_le_nat [simp]: "le_bytes (length bs) (le_nat bs) = bs"
proof (induction bs)
  case (Cons b bs)
  have "unat b < 256" using unat_byte_bound [of b] by simp
  then show ?case using Cons by simp
qed auto

definition le32 :: "u32 \<Rightarrow> bytes" where
  "le32 w = le_bytes 4 (unat w)"

definition le64 :: "u64 \<Rightarrow> bytes" where
  "le64 w = le_bytes 8 (unat w)"

definition be64 :: "u64 \<Rightarrow> bytes" where
  "be64 w = rev (le_bytes 8 (unat w))"

definition le32_of :: "bytes \<Rightarrow> u32" where
  "le32_of bs = word_of_nat (le_nat bs)"

definition le64_of :: "bytes \<Rightarrow> u64" where
  "le64_of bs = word_of_nat (le_nat bs)"

definition be64_of :: "bytes \<Rightarrow> u64" where
  "be64_of bs = word_of_nat (le_nat (rev bs))"

lemma length_le32 [simp]: "length (le32 w) = 4"
  by (simp add: le32_def)

lemma length_le64 [simp]: "length (le64 w) = 8"
  by (simp add: le64_def)

lemma length_be64 [simp]: "length (be64 w) = 8"
  by (simp add: be64_def)

lemma le32_of_le32 [simp]: "le32_of (le32 w) = w"
proof -
  have "unat w < 256 ^ 4" using unat_u32_less [of w] by simp
  then show ?thesis by (simp add: le32_def le32_of_def)
qed

lemma le64_of_le64 [simp]: "le64_of (le64 w) = w"
proof -
  have "unat w < 256 ^ 8" using unat_u64_less [of w] by simp
  then show ?thesis by (simp add: le64_def le64_of_def)
qed

lemma be64_of_be64 [simp]: "be64_of (be64 w) = w"
proof -
  have "unat w < 256 ^ 8" using unat_u64_less [of w] by simp
  then show ?thesis by (simp add: be64_def be64_of_def)
qed

lemma le32_le32_of [simp]:
  assumes "length bs = 4"
  shows "le32 (le32_of bs) = bs"
proof -
  have "le_nat bs < 2 ^ 32" using le_nat_bound [of bs] assms by simp
  then have "unat (le32_of bs) = le_nat bs" by (simp add: le32_of_def unat_of_nat)
  then show ?thesis using le_bytes_le_nat [of bs] assms by (simp add: le32_def)
qed

lemma le64_le64_of [simp]:
  assumes "length bs = 8"
  shows "le64 (le64_of bs) = bs"
proof -
  have "le_nat bs < 2 ^ 64" using le_nat_bound [of bs] assms by simp
  then have "unat (le64_of bs) = le_nat bs" by (simp add: le64_of_def unat_of_nat)
  then show ?thesis using le_bytes_le_nat [of bs] assms by (simp add: le64_def)
qed

text \<open>\<open>u32_of_len\<close> is Go's conversion \<^verbatim>\<open>uint32(len(x))\<close>; it is exact below \<open>2 ^ 32\<close>.\<close>

definition max_u32 :: nat where
  "max_u32 = 2 ^ 32 - 1"

definition u32_of_len :: "nat \<Rightarrow> u32" where
  "u32_of_len n = word_of_nat n"

lemma unat_u32_of_len [simp]: "n \<le> max_u32 \<Longrightarrow> unat (u32_of_len n) = n"
  by (simp add: u32_of_len_def unat_of_nat max_u32_def)

lemma u32_of_len_unat [simp]: "u32_of_len (unat w) = w"
  by (simp add: u32_of_len_def)

lemma unat_u32_bound [simp]: "unat (w :: u32) \<le> max_u32"
  using unat_u32_less [of w] by (simp add: max_u32_def)

lemma not_max_u32_less_unat [simp]: "\<not> max_u32 < unat (w :: u32)"
  by (simp add: not_less)

section \<open>Lists\<close>

lemma take_length_append [simp]: "length xs = n \<Longrightarrow> take n (xs @ ys) = xs"
  by simp

lemma length_concat_map_ge:
  "(\<And>x. x \<in> set xs \<Longrightarrow> m \<le> length (f x)) \<Longrightarrow> length xs * m \<le> length (concat (map f xs))"
  by (induction xs) (auto simp: add_mono)

end
