(* ===== verification/Model.thy ===== *)
theory Model
  imports Prelude
begin

text \<open>
  The CDC data model, \<^verbatim>\<open>internal/cdc/model.go\<close>: relations, tuple data, changes and
  transactions. A Go slice that may be nil where the code tells nil from empty (the data of a
  datum) and a Go pointer that may be nil (\<^verbatim>\<open>*Tuple\<close>, \<^verbatim>\<open>*TransactionSpill\<close>) are options. The
  kinds stay raw bytes, because the code compares them against the constants and has a default
  branch for every other byte. A \<^verbatim>\<open>time.Time\<close> is its Unix second (the bits of the
  \<^verbatim>\<open>int64\<close>) and its nanosecond; every commit time of the program is in UTC. A spill keeps
  the bytes of its temporary file (\<open>None\<close> once it is closed).
\<close>

type_synonym LSN = u64

record Column =
  col_Name :: string
  col_Type :: u32
  col_Flags :: byte

record Relation =
  rel_OID :: u32
  rel_Namespace :: string
  rel_Name :: string
  rel_ReplicaIdentity :: byte
  rel_Columns :: "Column list"

abbreviation (input) DatumNull :: byte where "DatumNull \<equiv> 0"
abbreviation (input) DatumText :: byte where "DatumText \<equiv> 1"
abbreviation (input) DatumBinary :: byte where "DatumBinary \<equiv> 2"
abbreviation (input) DatumUnchangedToast :: byte where "DatumUnchangedToast \<equiv> 3"

record TupleDatum =
  dat_Kind :: byte
  dat_Data :: "bytes option"

type_synonym Tuple = "TupleDatum list"

abbreviation (input) ChangeInsert :: byte where "ChangeInsert \<equiv> 1"
abbreviation (input) ChangeUpdate :: byte where "ChangeUpdate \<equiv> 2"
abbreviation (input) ChangeDelete :: byte where "ChangeDelete \<equiv> 3"
abbreviation (input) ChangeTruncate :: byte where "ChangeTruncate \<equiv> 4"

record Change =
  ch_RelationOID :: u32
  ch_Kind :: byte
  ch_Old :: "Tuple option"
  ch_New :: "Tuple option"
  ch_TruncateCascade :: bool
  ch_TruncateRestartIdentity :: bool

record GoTime =
  t_Unix :: u64
  t_Nanosecond :: u32

record TransactionSpill =
  sp_file :: "bytes option"
  sp_changeCount :: u32
  sp_changeBytes :: nat
  sp_version :: byte

record Transaction =
  tx_CommitLSN :: LSN
  tx_EndLSN :: LSN
  tx_CommitTime :: GoTime
  tx_Relations :: "Relation list"
  tx_Changes :: "Change list"
  tx_Spill :: "TransactionSpill option"

definition ChangeCount :: "Transaction \<Rightarrow> u32" where
  "ChangeCount tx = (case tx_Spill tx of
     Some spill \<Rightarrow> sp_changeCount spill
   | None \<Rightarrow> u32_of_len (length (tx_Changes tx)))"

definition IsSpilled :: "Transaction \<Rightarrow> bool" where
  "IsSpilled tx \<longleftrightarrow> tx_Spill tx \<noteq> None"

definition CleanupSpill :: "Transaction \<Rightarrow> Transaction" where
  "CleanupSpill tx = tx\<lparr>tx_Spill := None\<rparr>"

text \<open>The length of a datum's value: nil counts as empty, as \<^verbatim>\<open>len\<close> does.\<close>

definition dat_bytes :: "TupleDatum \<Rightarrow> bytes" where
  "dat_bytes d = (case dat_Data d of None \<Rightarrow> [] | Some b \<Rightarrow> b)"

text \<open>A \<^verbatim>\<open>time.Time\<close> never has a nanosecond of a second or more.\<close>

definition valid_time :: "GoTime \<Rightarrow> bool" where
  "valid_time t \<longleftrightarrow> unat (t_Nanosecond t) < 1000000000"

end
