(* ===== verification/Codec.thy ===== *)
theory Codec
  imports Model
begin

text \<open>
  The transaction payload format, \<^verbatim>\<open>internal/cdc/codec.go\<close>: the size computation, the
  appending encoder, the writing encoder and the decoder over a byte slice, each function by
  the name it has in the source. The first section is the specification the encoders and the
  decoders are held to: the \<open>wire_\<close> functions say which bytes a value has on disk.

  Sizes are \<open>nat\<close>: a \<^verbatim>\<open>uint64\<close> sum of lengths of values that fit in memory does not wrap.
\<close>

section \<open>The wire format\<close>

definition payloadMagic :: bytes where
  "payloadMagic = bytes_of_string ''PGMC''"

definition payloadVersion :: byte where
  "payloadVersion = 2"

definition wire_bytes :: "bytes \<Rightarrow> bytes" where
  "wire_bytes v = le32 (u32_of_len (length v)) @ v"

definition wire_datum :: "TupleDatum \<Rightarrow> bytes" where
  "wire_datum d = dat_Kind d #
     (if dat_Kind d = DatumText \<or> dat_Kind d = DatumBinary then wire_bytes (dat_bytes d) else [])"

definition wire_list :: "('a \<Rightarrow> bytes) \<Rightarrow> 'a list \<Rightarrow> bytes" where
  "wire_list w xs = le32 (u32_of_len (length xs)) @ concat (map w xs)"

fun wire_tuple :: "Tuple option \<Rightarrow> bytes" where
  "wire_tuple None = [0]"
| "wire_tuple (Some t) = 1 # wire_list wire_datum t"

definition wire_column :: "Column \<Rightarrow> bytes" where
  "wire_column c = le32 (col_Type c) @ col_Flags c # wire_bytes (bytes_of_string (col_Name c))"

definition wire_relation :: "Relation \<Rightarrow> bytes" where
  "wire_relation r = le32 (rel_OID r) @ rel_ReplicaIdentity r #
     wire_bytes (bytes_of_string (rel_Namespace r)) @ wire_bytes (bytes_of_string (rel_Name r)) @
     wire_list wire_column (rel_Columns r)"

definition truncate_options :: "Change \<Rightarrow> byte" where
  "truncate_options c = (if ch_TruncateCascade c then 1 else 0) +
     (if ch_TruncateRestartIdentity c then 2 else 0)"

definition wire_change :: "byte \<Rightarrow> Change \<Rightarrow> bytes" where
  "wire_change version c = le32 (ch_RelationOID c) @ ch_Kind c #
     (if version \<ge> 2 \<and> ch_Kind c = ChangeTruncate then [truncate_options c] else []) @
     wire_tuple (ch_Old c) @ wire_tuple (ch_New c)"

definition wire_header :: "byte \<Rightarrow> Transaction \<Rightarrow> bytes" where
  "wire_header version tx = payloadMagic @ version # le64 (tx_CommitLSN tx) @ le64 (tx_EndLSN tx) @
     le64 (t_Unix (tx_CommitTime tx)) @ le32 (t_Nanosecond (tx_CommitTime tx)) @
     wire_list wire_relation (tx_Relations tx)"

definition wire_transaction :: "byte \<Rightarrow> Transaction \<Rightarrow> bytes" where
  "wire_transaction version tx = wire_header version tx @ wire_list (wire_change version) (tx_Changes tx)"

section \<open>Encoded sizes\<close>

definition maxPayloadSize :: nat where
  "maxPayloadSize = 2 ^ 32 - 1"

definition too_large :: "'a list \<Rightarrow> bool" where
  "too_large xs \<longleftrightarrow> length xs > max_u32"

text \<open>The loops that sum the sizes of a slice's elements, in slice order.\<close>

fun sum_sizes :: "string \<Rightarrow> ('a \<Rightarrow> nat res) \<Rightarrow> 'a list \<Rightarrow> nat \<Rightarrow> nat res" where
  "sum_sizes msg sz [] acc = Inr acc"
| "sum_sizes msg sz (x # xs) acc =
     rbind (rwrap msg (sz x)) (\<lambda>n. sum_sizes msg sz xs (acc + n))"

definition encodedDatumSize :: "TupleDatum \<Rightarrow> nat res" where
  "encodedDatumSize d =
     (if dat_Kind d = DatumNull \<or> dat_Kind d = DatumUnchangedToast then
        (if dat_bytes d \<noteq> [] then Inl (Err ''kind must not contain data'') else Inr 1)
      else if dat_Kind d = DatumText \<or> dat_Kind d = DatumBinary then
        (if too_large (dat_bytes d) then Inl (Err ''value too large'')
         else Inr (1 + 4 + length (dat_bytes d)))
      else Inl (Err ''invalid kind''))"

fun encodedTupleSize :: "Tuple option \<Rightarrow> nat res" where
  "encodedTupleSize None = Inr 1"
| "encodedTupleSize (Some t) =
     (if too_large t then Inl (Err ''too many tuple datums'')
      else sum_sizes ''datum'' encodedDatumSize t (1 + 4))"

definition valid_kind :: "byte \<Rightarrow> bool" where
  "valid_kind k \<longleftrightarrow> k = ChangeInsert \<or> k = ChangeUpdate \<or> k = ChangeDelete \<or> k = ChangeTruncate"

definition encodedChangeSize :: "Change \<Rightarrow> nat res" where
  "encodedChangeSize c =
     (if \<not> valid_kind (ch_Kind c) then Inl (Err ''invalid kind'')
      else if ch_Kind c \<noteq> ChangeTruncate \<and> (ch_TruncateCascade c \<or> ch_TruncateRestartIdentity c)
      then Inl (Err ''truncate options on non-truncate change'')
      else let size = 4 + 1 + (if ch_Kind c = ChangeTruncate then 1 else 0) in
        rbind (rwrap ''old tuple'' (encodedTupleSize (ch_Old c))) (\<lambda>oldSize.
        rbind (rwrap ''new tuple'' (encodedTupleSize (ch_New c))) (\<lambda>newSize.
        Inr (size + oldSize + newSize))))"

definition encodedColumnSize :: "Column \<Rightarrow> nat res" where
  "encodedColumnSize c =
     (if too_large (col_Name c) then Inl (Err ''name too large'')
      else Inr (4 + 1 + 4 + length (col_Name c)))"

definition encodedRelationSize :: "Relation \<Rightarrow> nat res" where
  "encodedRelationSize r =
     (if too_large (rel_Namespace r) \<or> too_large (rel_Name r)
      then Inl (Err ''relation name too large'')
      else if too_large (rel_Columns r) then Inl (Err ''too many columns'')
      else sum_sizes ''column'' encodedColumnSize (rel_Columns r)
             (4 + 1 + 4 + length (rel_Namespace r) + 4 + length (rel_Name r) + 4))"

definition transactionPayloadSize :: "Transaction \<Rightarrow> nat res" where
  "transactionPayloadSize tx =
     (if too_large (tx_Relations tx)
      then Inl (Err ''cdc: transaction relation collection too large'')
      else if IsSpilled tx \<and> tx_Changes tx \<noteq> []
      then Inl (Err ''cdc: transaction has both resident and spilled changes'')
      else rbind (sum_sizes ''cdc: relation'' encodedRelationSize (tx_Relations tx)
                    (4 + 1 + 8 + 8 + 8 + 4 + 4 + 4)) (\<lambda>size.
        case tx_Spill tx of
          Some spill \<Rightarrow> Inr (size + sp_changeBytes spill)
        | None \<Rightarrow>
            if too_large (tx_Changes tx)
            then Inl (Err ''cdc: transaction change collection too large'')
            else sum_sizes ''cdc: change'' encodedChangeSize (tx_Changes tx) size))"

section \<open>The appending encoder\<close>

definition appendBytes :: "bytes \<Rightarrow> bytes \<Rightarrow> bytes res" where
  "appendBytes dst value =
     (if too_large value then Inl (Err ''value too large'')
      else Inr (dst @ le32 (u32_of_len (length value)) @ value))"

text \<open>The loops that append a slice's elements, each error wrapped with the element's place.\<close>

fun append_each :: "string \<Rightarrow> (bytes \<Rightarrow> 'a \<Rightarrow> bytes res) \<Rightarrow> bytes \<Rightarrow> 'a list \<Rightarrow> bytes res" where
  "append_each msg f dst [] = Inr dst"
| "append_each msg f dst (x # xs) = rbind (rwrap msg (f dst x)) (\<lambda>dst. append_each msg f dst xs)"

definition appendDatum :: "bytes \<Rightarrow> TupleDatum \<Rightarrow> bytes res" where
  "appendDatum dst d =
     (if dat_Kind d = DatumNull \<or> dat_Kind d = DatumUnchangedToast then
        (if dat_bytes d \<noteq> [] then Inl (Err ''kind must not contain data'')
         else Inr (dst @ [dat_Kind d]))
      else if dat_Kind d = DatumText \<or> dat_Kind d = DatumBinary then
        appendBytes (dst @ [dat_Kind d]) (dat_bytes d)
      else Inl (Err ''invalid kind''))"

fun appendTuple :: "bytes \<Rightarrow> Tuple option \<Rightarrow> bytes res" where
  "appendTuple dst None = Inr (dst @ [0])"
| "appendTuple dst (Some t) =
     (if too_large t then Inl (Err ''too many tuple datums'')
      else append_each ''datum'' appendDatum ((dst @ [1]) @ le32 (u32_of_len (length t))) t)"

definition appendChange :: "bytes \<Rightarrow> Change \<Rightarrow> bytes res" where
  "appendChange dst c =
     (if \<not> valid_kind (ch_Kind c) then Inl (Err ''invalid kind'')
      else if ch_Kind c \<noteq> ChangeTruncate \<and> (ch_TruncateCascade c \<or> ch_TruncateRestartIdentity c)
      then Inl (Err ''truncate options on non-truncate change'')
      else let dst = (dst @ le32 (ch_RelationOID c)) @ [ch_Kind c];
               dst = (if ch_Kind c = ChangeTruncate then dst @ [truncate_options c] else dst) in
        rbind (rwrap ''old tuple'' (appendTuple dst (ch_Old c))) (\<lambda>dst.
        rwrap ''new tuple'' (appendTuple dst (ch_New c))))"

definition appendColumn :: "bytes \<Rightarrow> Column \<Rightarrow> bytes res" where
  "appendColumn dst c =
     appendBytes ((dst @ le32 (col_Type c)) @ [col_Flags c]) (bytes_of_string (col_Name c))"

definition appendRelation :: "bytes \<Rightarrow> Relation \<Rightarrow> bytes res" where
  "appendRelation dst r =
     (if too_large (rel_Columns r) then Inl (Err ''too many columns'')
      else rbind (rwrap ''namespace'' (appendBytes ((dst @ le32 (rel_OID r)) @ [rel_ReplicaIdentity r])
                   (bytes_of_string (rel_Namespace r)))) (\<lambda>dst.
           rbind (rwrap ''name'' (appendBytes dst (bytes_of_string (rel_Name r)))) (\<lambda>dst.
           append_each ''column name'' appendColumn (dst @ le32 (u32_of_len (length (rel_Columns r)))) (rel_Columns r))))"

definition appendTransactionPrefix :: "bytes \<Rightarrow> Transaction \<Rightarrow> u32 \<Rightarrow> bytes res" where
  "appendTransactionPrefix dst tx changeCount =
     (if too_large (tx_Relations tx)
      then Inl (Err ''cdc: transaction relation collection too large'')
      else
        let dst = dst @ payloadMagic;
            dst = dst @ [payloadVersion];
            dst = dst @ le64 (tx_CommitLSN tx);
            dst = dst @ le64 (tx_EndLSN tx);
            dst = dst @ le64 (t_Unix (tx_CommitTime tx));
            dst = dst @ le32 (t_Nanosecond (tx_CommitTime tx));
            dst = dst @ le32 (u32_of_len (length (tx_Relations tx)))
        in rbind (append_each ''cdc: relation'' appendRelation dst (tx_Relations tx))
             (\<lambda>dst. Inr (dst @ le32 changeCount)))"

definition AppendTransaction :: "bytes \<Rightarrow> Transaction \<Rightarrow> bytes res" where
  "AppendTransaction dst tx =
     (if IsSpilled tx then Inl (Err ''cdc: spilled transaction requires WriteTransaction'')
      else if too_large (tx_Relations tx) \<or> too_large (tx_Changes tx)
      then Inl (Err ''cdc: transaction collection too large'')
      else rbind (transactionPayloadSize tx) (\<lambda>size.
        if size > maxPayloadSize then Inl (Err ''cdc: payload exceeds limit'')
        else let start = length dst in
          rbind (appendTransactionPrefix dst tx (u32_of_len (length (tx_Changes tx)))) (\<lambda>dst.
          rbind (append_each ''cdc: change'' appendChange dst (tx_Changes tx)) (\<lambda>dst.
          if length dst - start \<noteq> size then Inl (Err ''cdc: transaction encoded size mismatch'')
          else Inr dst))))"

definition MarshalTransaction :: "Transaction \<Rightarrow> bytes res" where
  "MarshalTransaction tx = AppendTransaction [] tx"

section \<open>What the encoders accept\<close>

definition ok_datum :: "TupleDatum \<Rightarrow> bool" where
  "ok_datum d \<longleftrightarrow>
     (if dat_Kind d = DatumNull \<or> dat_Kind d = DatumUnchangedToast then dat_bytes d = []
      else (dat_Kind d = DatumText \<or> dat_Kind d = DatumBinary) \<and> \<not> too_large (dat_bytes d))"

fun ok_tuple :: "Tuple option \<Rightarrow> bool" where
  "ok_tuple None = True"
| "ok_tuple (Some t) \<longleftrightarrow> \<not> too_large t \<and> list_all ok_datum t"

definition ok_change :: "Change \<Rightarrow> bool" where
  "ok_change c \<longleftrightarrow> valid_kind (ch_Kind c) \<and>
     (ch_Kind c \<noteq> ChangeTruncate \<longrightarrow> \<not> ch_TruncateCascade c \<and> \<not> ch_TruncateRestartIdentity c) \<and>
     ok_tuple (ch_Old c) \<and> ok_tuple (ch_New c)"

definition ok_column :: "Column \<Rightarrow> bool" where
  "ok_column c \<longleftrightarrow> \<not> too_large (col_Name c)"

definition ok_relation :: "Relation \<Rightarrow> bool" where
  "ok_relation r \<longleftrightarrow> \<not> too_large (rel_Namespace r) \<and> \<not> too_large (rel_Name r) \<and>
     \<not> too_large (rel_Columns r) \<and> list_all ok_column (rel_Columns r)"

definition ok_transaction :: "Transaction \<Rightarrow> bool" where
  "ok_transaction tx \<longleftrightarrow> \<not> too_large (tx_Relations tx) \<and> list_all ok_relation (tx_Relations tx) \<and>
     \<not> too_large (tx_Changes tx) \<and> list_all ok_change (tx_Changes tx)"

text \<open>
  The contract between an encoder of items and the format: the size function and the appending
  function succeed on the same values, and agree with the wire bytes. Lists inherit it.
\<close>

locale item_encoder =
  fixes wire :: "'a \<Rightarrow> bytes"
    and ok :: "'a \<Rightarrow> bool"
    and sz :: "'a \<Rightarrow> nat res"
    and app :: "bytes \<Rightarrow> 'a \<Rightarrow> bytes res"
  assumes sz_wire: "sz x = Inr n \<longleftrightarrow> ok x \<and> n = length (wire x)"
    and app_wire: "app dst x = Inr out \<longleftrightarrow> ok x \<and> out = dst @ wire x"
begin

lemma append_each_wire:
  "append_each msg app dst xs = Inr out \<longleftrightarrow> list_all ok xs \<and> out = dst @ concat (map wire xs)"
  by (induction xs arbitrary: dst) (auto simp: app_wire res_simps)

lemma sum_sizes_wire:
  "sum_sizes msg sz xs acc = Inr n \<longleftrightarrow> list_all ok xs \<and> n = acc + length (concat (map wire xs))"
proof (induction xs arbitrary: acc)
  case (Cons x xs)
  then show ?case by (simp add: res_simps sz_wire add.assoc conj_assoc)
qed auto

end

lemma length_wire_bytes [simp]: "length (wire_bytes v) = 4 + length v"
  by (simp add: wire_bytes_def)

lemma length_wire_datum:
  "length (wire_datum d) =
     (if dat_Kind d = DatumText \<or> dat_Kind d = DatumBinary then 5 + length (dat_bytes d) else 1)"
  by (simp add: wire_datum_def)

lemma too_large_bytes_of_string [simp]: "too_large (bytes_of_string s) = too_large s"
  by (simp add: too_large_def)

lemma too_large_string_of_bytes [simp]: "too_large (string_of_bytes bs) = too_large bs"
  by (simp add: too_large_def)

lemma appendBytes_wire:
  "appendBytes dst v = Inr out \<longleftrightarrow> \<not> too_large v \<and> out = dst @ wire_bytes v"
  by (auto simp: appendBytes_def wire_bytes_def)

interpretation datum_enc: item_encoder wire_datum ok_datum encodedDatumSize appendDatum
proof unfold_locales
  fix d :: TupleDatum and n dst out
  show "encodedDatumSize d = Inr n \<longleftrightarrow> ok_datum d \<and> n = length (wire_datum d)"
    by (auto simp: encodedDatumSize_def ok_datum_def length_wire_datum)
  show "appendDatum dst d = Inr out \<longleftrightarrow> ok_datum d \<and> out = dst @ wire_datum d"
    by (auto simp: appendDatum_def ok_datum_def wire_datum_def appendBytes_wire res_simps)
qed

lemma encodedTupleSize_wire:
  "encodedTupleSize t = Inr n \<longleftrightarrow> ok_tuple t \<and> n = length (wire_tuple t)"
  by (cases t) (auto simp: datum_enc.sum_sizes_wire wire_list_def res_simps)

lemma appendTuple_wire: "appendTuple dst t = Inr out \<longleftrightarrow> ok_tuple t \<and> out = dst @ wire_tuple t"
  by (cases t) (auto simp: datum_enc.append_each_wire wire_list_def res_simps)

lemma two_le_payloadVersion [simp]: "2 \<le> payloadVersion"
  by (simp add: payloadVersion_def)

interpretation change_enc: item_encoder "wire_change payloadVersion" ok_change encodedChangeSize appendChange
proof unfold_locales
  fix c :: Change and n dst out
  show "encodedChangeSize c = Inr n \<longleftrightarrow> ok_change c \<and> n = length (wire_change payloadVersion c)"
    by (auto simp: encodedChangeSize_def ok_change_def wire_change_def encodedTupleSize_wire Let_def
        res_simps)
  show "appendChange dst c = Inr out \<longleftrightarrow> ok_change c \<and> out = dst @ wire_change payloadVersion c"
    by (auto simp: appendChange_def ok_change_def wire_change_def appendTuple_wire Let_def res_simps)
qed

interpretation column_enc: item_encoder wire_column ok_column encodedColumnSize appendColumn
proof unfold_locales
  fix c :: Column and n dst out
  show "encodedColumnSize c = Inr n \<longleftrightarrow> ok_column c \<and> n = length (wire_column c)"
    by (auto simp: encodedColumnSize_def ok_column_def wire_column_def)
  show "appendColumn dst c = Inr out \<longleftrightarrow> ok_column c \<and> out = dst @ wire_column c"
    by (auto simp: appendColumn_def ok_column_def wire_column_def appendBytes_wire)
qed

interpretation relation_enc: item_encoder wire_relation ok_relation encodedRelationSize appendRelation
proof unfold_locales
  fix r :: Relation and n dst out
  show "encodedRelationSize r = Inr n \<longleftrightarrow> ok_relation r \<and> n = length (wire_relation r)"
    by (auto simp: encodedRelationSize_def ok_relation_def wire_relation_def wire_list_def
        column_enc.sum_sizes_wire)
  show "appendRelation dst r = Inr out \<longleftrightarrow> ok_relation r \<and> out = dst @ wire_relation r"
    by (auto simp: appendRelation_def ok_relation_def wire_relation_def wire_list_def appendBytes_wire
        column_enc.append_each_wire res_simps)
qed

section \<open>The transaction encoder agrees with the format\<close>

lemma length_payloadMagic [simp]: "length payloadMagic = 4"
  by (simp add: payloadMagic_def)

lemma length_wire_list [simp]: "length (wire_list w xs) = 4 + length (concat (map w xs))"
  by (simp add: wire_list_def)

lemma length_wire_header:
  "length (wire_header v tx) = 37 + length (concat (map wire_relation (tx_Relations tx)))"
  by (simp add: wire_header_def)

lemma transactionPayloadSize_resident:
  assumes "tx_Spill tx = None"
  shows "transactionPayloadSize tx = Inr n \<longleftrightarrow>
           ok_transaction tx \<and> n = length (wire_transaction payloadVersion tx)"
  using assms
  by (auto simp: transactionPayloadSize_def IsSpilled_def ok_transaction_def wire_transaction_def
      length_wire_header relation_enc.sum_sizes_wire change_enc.sum_sizes_wire res_simps)

lemma transactionPayloadSize_spilled:
  assumes "tx_Spill tx = Some spill"
  shows "transactionPayloadSize tx = Inr n \<longleftrightarrow>
           tx_Changes tx = [] \<and> \<not> too_large (tx_Relations tx) \<and> list_all ok_relation (tx_Relations tx) \<and>
           n = length (wire_header payloadVersion tx) + 4 + sp_changeBytes spill"
  using assms
  by (auto simp: transactionPayloadSize_def IsSpilled_def length_wire_header
      relation_enc.sum_sizes_wire res_simps)

lemma appendTransactionPrefix_wire:
  "appendTransactionPrefix dst tx n = Inr out \<longleftrightarrow>
     \<not> too_large (tx_Relations tx) \<and> list_all ok_relation (tx_Relations tx) \<and>
     out = dst @ wire_header payloadVersion tx @ le32 n"
  by (auto simp: appendTransactionPrefix_def Let_def relation_enc.append_each_wire wire_header_def
      wire_list_def res_simps)

lemma AppendTransaction_wire:
  "AppendTransaction dst tx = Inr out \<longleftrightarrow>
     tx_Spill tx = None \<and> ok_transaction tx \<and>
     length (wire_transaction payloadVersion tx) \<le> maxPayloadSize \<and>
     out = dst @ wire_transaction payloadVersion tx"
proof (cases "tx_Spill tx")
  case None
  then show ?thesis
    by (auto simp: AppendTransaction_def IsSpilled_def transactionPayloadSize_resident
        appendTransactionPrefix_wire change_enc.append_each_wire Let_def ok_transaction_def
        wire_transaction_def wire_list_def res_simps)
qed (simp add: AppendTransaction_def IsSpilled_def)

end
