(* ===== verification/CodecDecode.thy ===== *)
theory CodecDecode
  imports Codec
begin

unbundle bit_operations_syntax

text \<open>
  The decoder of \<^verbatim>\<open>internal/cdc/codec.go\<close> over a byte slice (type \<^verbatim>\<open>decoder\<close>), as functions
  from the bytes left to a value and the bytes left after it, and its agreement with the wire
  format in both directions: it reads back what the encoder wrote, and whatever it accepts is
  the wire image of the value it returns, so no two payloads of one version decode alike.
\<close>

section \<open>The decoder\<close>

type_synonym 'a decoder = "bytes \<Rightarrow> ('a \<times> bytes) res"

definition pbind :: "'a decoder \<Rightarrow> ('a \<Rightarrow> 'b decoder) \<Rightarrow> 'b decoder" where
  "pbind p f data = rbind (p data) (\<lambda>(x, rest). f x rest)"

definition pret :: "'a \<Rightarrow> 'a decoder" where
  "pret x data = Inr (x, data)"

definition pfail :: "string \<Rightarrow> 'a decoder" where
  "pfail msg data = Inl (Err msg)"

definition pwrap :: "string \<Rightarrow> 'a decoder \<Rightarrow> 'a decoder" where
  "pwrap msg p data = rwrap msg (p data)"

definition d_take :: "nat \<Rightarrow> bytes decoder" where
  "d_take n data = (if n > length data then Inl (Err ''cdc: truncated payload'')
     else Inr (take n data, drop n data))"

definition d_u8 :: "byte decoder" where
  "d_u8 = pbind (d_take 1) (\<lambda>v. pret (hd v))"

definition d_u32 :: "u32 decoder" where
  "d_u32 = pbind (d_take 4) (\<lambda>v. pret (le32_of v))"

definition d_u64 :: "u64 decoder" where
  "d_u64 = pbind (d_take 8) (\<lambda>v. pret (le64_of v))"

definition d_count :: "nat \<Rightarrow> nat decoder" where
  "d_count minItemBytes = pbind d_u32 (\<lambda>v data.
     if minItemBytes > 0 \<and> unat v > length data div minItemBytes
     then Inl (Err ''collection count exceeds payload'') else Inr (unat v, data))"

definition d_bytes :: "bytes decoder" where
  "d_bytes = pbind d_u32 (\<lambda>size. d_take (unat size))"

fun d_each :: "nat \<Rightarrow> 'a decoder \<Rightarrow> 'a list decoder" where
  "d_each 0 p = pret []"
| "d_each (Suc n) p = pbind p (\<lambda>x. pbind (d_each n p) (\<lambda>xs. pret (x # xs)))"

definition d_datum :: "TupleDatum decoder" where
  "d_datum = pbind d_u8 (\<lambda>kind.
     if kind = DatumNull \<or> kind = DatumUnchangedToast then pret \<lparr>dat_Kind = kind, dat_Data = None\<rparr>
     else if kind = DatumText \<or> kind = DatumBinary then
       pbind d_bytes (\<lambda>value. pret \<lparr>dat_Kind = kind, dat_Data = Some value\<rparr>)
     else pfail ''datum: invalid kind'')"

definition d_tuple :: "Tuple option decoder" where
  "d_tuple = pbind d_u8 (\<lambda>present.
     if present = 0 then pret None
     else if present \<noteq> 1 then pfail ''invalid tuple presence''
     else pbind (d_count 1) (\<lambda>count. pbind (d_each count d_datum) (\<lambda>t. pret (Some t))))"

definition d_column :: "Column decoder" where
  "d_column = pbind d_u32 (\<lambda>type. pbind d_u8 (\<lambda>flags. pbind d_bytes (\<lambda>value.
     pret \<lparr>col_Name = string_of_bytes value, col_Type = type, col_Flags = flags\<rparr>)))"

definition d_relation :: "Relation decoder" where
  "d_relation = pbind d_u32 (\<lambda>oid. pbind d_u8 (\<lambda>identity. pbind d_bytes (\<lambda>namespace.
     pbind d_bytes (\<lambda>name. pbind (d_count 9) (\<lambda>count. pbind (d_each count d_column) (\<lambda>columns.
     pret \<lparr>rel_OID = oid, rel_Namespace = string_of_bytes namespace, rel_Name = string_of_bytes name,
       rel_ReplicaIdentity = identity, rel_Columns = columns\<rparr>))))))"

definition d_truncate_options :: "byte \<Rightarrow> byte \<Rightarrow> (bool \<times> bool) decoder" where
  "d_truncate_options version kind =
     (if version \<ge> 2 \<and> kind = ChangeTruncate then pbind d_u8 (\<lambda>options.
        if options AND NOT 3 \<noteq> 0 then pfail ''invalid truncate options''
        else pret (options AND 1 \<noteq> 0, options AND 2 \<noteq> 0))
      else pret (False, False))"

definition d_change :: "byte \<Rightarrow> Change decoder" where
  "d_change version = pbind d_u32 (\<lambda>oid. pbind d_u8 (\<lambda>kind.
     if \<not> valid_kind kind then pfail ''invalid kind''
     else pbind (d_truncate_options version kind) (\<lambda>(cascade, restart).
       pbind (pwrap ''old tuple'' d_tuple) (\<lambda>old. pbind (pwrap ''new tuple'' d_tuple) (\<lambda>new.
       pret \<lparr>ch_RelationOID = oid, ch_Kind = kind, ch_Old = old, ch_New = new,
         ch_TruncateCascade = cascade, ch_TruncateRestartIdentity = restart\<rparr>)))))"

definition d_magic :: "unit decoder" where
  "d_magic data = (case d_take 4 data of
     Inr (magic, rest) \<Rightarrow> if magic = payloadMagic then Inr ((), rest)
       else Inl (Err ''cdc: invalid payload magic'')
   | Inl e \<Rightarrow> Inl (Err ''cdc: invalid payload magic''))"

definition UnmarshalTransaction :: "bytes \<Rightarrow> Transaction res" where
  "UnmarshalTransaction data =
     (if length data > maxPayloadSize then Inl (Err ''cdc: payload exceeds limit'')
      else rbind (pbind d_magic (\<lambda>_. pbind d_u8 (\<lambda>version.
        if version \<noteq> 1 \<and> version \<noteq> payloadVersion then pfail ''cdc: unsupported payload version''
        else pbind d_u64 (\<lambda>commit. pbind d_u64 (\<lambda>end.
          pbind d_u64 (\<lambda>seconds. pbind d_u32 (\<lambda>nanos.
          if unat nanos \<ge> 1000000000 then pfail ''cdc: invalid commit timestamp''
          else pbind (pwrap ''cdc: relations'' (d_count 17)) (\<lambda>relationCount.
            pbind (d_each relationCount (pwrap ''cdc: relation'' d_relation)) (\<lambda>relations.
            pbind (pwrap ''cdc: changes'' (d_count 7)) (\<lambda>changeCount.
            pbind (d_each changeCount (pwrap ''cdc: change'' (d_change version))) (\<lambda>changes.
            pret \<lparr>tx_CommitLSN = commit, tx_EndLSN = end,
              tx_CommitTime = \<lparr>t_Unix = seconds, t_Nanosecond = nanos\<rparr>,
              tx_Relations = relations, tx_Changes = changes, tx_Spill = None\<rparr>)))))))))) data)
      (\<lambda>(tx, rest). if rest \<noteq> [] then Inl (Err ''cdc: trailing payload bytes'') else Inr tx))"

section \<open>What decoding an encoded value yields\<close>

text \<open>The encoders do not tell a nil value from an empty one; the decoder makes the choice the
  tuple kinds call for. Payload version 1 has no TRUNCATE options.\<close>

definition canon_datum :: "TupleDatum \<Rightarrow> TupleDatum" where
  "canon_datum d = d\<lparr>dat_Data :=
     (if dat_Kind d = DatumText \<or> dat_Kind d = DatumBinary then Some (dat_bytes d) else None)\<rparr>"

definition canon_tuple :: "Tuple option \<Rightarrow> Tuple option" where
  "canon_tuple = map_option (map canon_datum)"

definition canon_change :: "byte \<Rightarrow> Change \<Rightarrow> Change" where
  "canon_change version c = c\<lparr>ch_Old := canon_tuple (ch_Old c), ch_New := canon_tuple (ch_New c),
     ch_TruncateCascade := (version \<ge> 2 \<and> ch_TruncateCascade c),
     ch_TruncateRestartIdentity := (version \<ge> 2 \<and> ch_TruncateRestartIdentity c)\<rparr>"

definition canon_transaction :: "byte \<Rightarrow> Transaction \<Rightarrow> Transaction" where
  "canon_transaction version tx =
     tx\<lparr>tx_Changes := map (canon_change version) (tx_Changes tx), tx_Spill := None\<rparr>"

section \<open>Decoding against the format\<close>

lemma pbind_eq_Inr [res_simps]:
  "pbind p f data = Inr (y, rest) \<longleftrightarrow> (\<exists>x r. p data = Inr (x, r) \<and> f x r = Inr (y, rest))"
  by (auto simp: pbind_def rbind_eq_Inr)

lemma pret_eq_Inr [res_simps]: "pret x data = Inr (y, rest) \<longleftrightarrow> x = y \<and> data = rest"
  by (auto simp: pret_def)

lemma pfail_eq_Inr [res_simps]: "pfail msg data = Inr y \<longleftrightarrow> False"
  by (simp add: pfail_def)

lemma pwrap_eq_Inr [res_simps]: "pwrap msg p data = Inr y \<longleftrightarrow> p data = Inr y"
  by (simp add: pwrap_def rwrap_eq_Inr)

lemma d_take_eq_Inr: "d_take n data = Inr (v, rest) \<longleftrightarrow> data = v @ rest \<and> length v = n"
  by (auto simp: d_take_def)

lemma d_u8_eq_Inr: "d_u8 data = Inr (v, rest) \<longleftrightarrow> data = v # rest"
  by (auto simp: d_u8_def d_take_eq_Inr length_Suc_conv res_simps)

lemma d_u32_eq_Inr: "d_u32 data = Inr (v, rest) \<longleftrightarrow> data = le32 v @ rest"
  by (auto simp: d_u32_def d_take_eq_Inr res_simps)

lemma d_u64_eq_Inr: "d_u64 data = Inr (v, rest) \<longleftrightarrow> data = le64 v @ rest"
  by (auto simp: d_u64_def d_take_eq_Inr res_simps)

lemma d_bytes_eq_Inr:
  "d_bytes data = Inr (v, rest) \<longleftrightarrow> \<not> too_large v \<and> data = wire_bytes v @ rest"
proof
  assume "d_bytes data = Inr (v, rest)"
  then show "\<not> too_large v \<and> data = wire_bytes v @ rest"
    by (auto simp: d_bytes_def d_u32_eq_Inr d_take_eq_Inr wire_bytes_def too_large_def res_simps
        dest: sym)
qed (auto simp: d_bytes_def d_u32_eq_Inr d_take_eq_Inr wire_bytes_def too_large_def res_simps)

lemma d_count_eq_Inr:
  "d_count m data = Inr (n, rest) \<longleftrightarrow>
     n \<le> max_u32 \<and> data = le32 (u32_of_len n) @ rest \<and> (m > 0 \<longrightarrow> n \<le> length rest div m)"
  by (auto simp: d_count_def d_u32_eq_Inr res_simps)

lemmas decoder_simps = res_simps d_u8_eq_Inr d_u32_eq_Inr d_u64_eq_Inr d_bytes_eq_Inr d_count_eq_Inr

text \<open>The same facts as execution rules, for running a decoder on bytes of a known shape.\<close>

lemma pbind_run [wire_simps]: "p data = Inr (x, r) \<Longrightarrow> pbind p f data = f x r"
  by (simp add: pbind_def)

lemma pwrap_run [wire_simps]: "p data = Inr (x, r) \<Longrightarrow> pwrap msg p data = Inr (x, r)"
  by (simp add: pwrap_def)

lemma pret_run [wire_simps]: "pret x data = Inr (x, data)"
  by (simp add: pret_def)

lemma d_u8_run [wire_simps]: "d_u8 (b # rest) = Inr (b, rest)"
  by (simp add: d_u8_eq_Inr)

lemma d_u32_run [wire_simps]: "d_u32 (le32 v @ rest) = Inr (v, rest)"
  by (simp add: d_u32_eq_Inr)

lemma d_u64_run [wire_simps]: "d_u64 (le64 v @ rest) = Inr (v, rest)"
  by (simp add: d_u64_eq_Inr)

lemma d_bytes_run [wire_simps]: "\<not> too_large v \<Longrightarrow> d_bytes (wire_bytes v @ rest) = Inr (v, rest)"
  by (simp add: d_bytes_eq_Inr)

text \<open>
  The contract between a decoder of items and the format, in both directions: encoded items
  are read back up to \<open>canon\<close>, and an accepted item is the image of the value returned. The
  minimum item size is what the count checks rely on.
\<close>

locale item_decoder =
  fixes wire :: "'a \<Rightarrow> bytes"
    and ok :: "'a \<Rightarrow> bool"
    and canon :: "'a \<Rightarrow> 'a"
    and dec :: "'a decoder"
    and m :: nat
  assumes dec_wire: "ok x \<Longrightarrow> dec (wire x @ rest) = Inr (canon x, rest)"
    and dec_inv: "dec data = Inr (y, rest) \<Longrightarrow> ok y \<and> canon y = y \<and> data = wire y @ rest"
    and wire_min: "ok x \<Longrightarrow> m \<le> length (wire x)"
    and min_pos: "0 < m"
begin

lemma canon_wire: "ok x \<Longrightarrow> ok (canon x) \<and> canon (canon x) = canon x \<and> wire (canon x) = wire x"
  using dec_inv [OF dec_wire [of x "[]"]] by simp

lemma canon_all:
  assumes "list_all ok xs"
  shows "list_all ok (map canon xs)" "map canon (map canon xs) = map canon xs"
    "concat (map wire (map canon xs)) = concat (map wire xs)"
  using assms canon_wire by (induction xs) auto

lemma each_wire: "list_all ok xs \<Longrightarrow>
    d_each (length xs) dec (concat (map wire xs) @ rest) = Inr (map canon xs, rest)"
  by (induction xs) (auto simp: dec_wire res_simps)

lemma each_inv: "d_each n dec data = Inr (ys, rest) \<Longrightarrow>
    list_all ok ys \<and> map canon ys = ys \<and> length ys = n \<and> data = concat (map wire ys) @ rest"
proof (induction n arbitrary: data ys)
  case (Suc n)
  then obtain y ys' r where "ys = y # ys'" "dec data = Inr (y, r)" "d_each n dec r = Inr (ys', rest)"
    by (auto simp: res_simps)
  with Suc.IH [of r ys'] dec_inv [of data y r] show ?case by simp
qed (simp add: res_simps)

lemma count_fits:
  assumes "list_all ok xs"
  shows "length xs \<le> length (concat (map wire xs) @ rest) div m"
proof -
  have "length xs * m \<le> length (concat (map wire xs))"
    using assms by (intro length_concat_map_ge) (auto simp: list_all_iff wire_min)
  then show ?thesis
    using min_pos by (simp add: less_eq_div_iff_mult_less_eq del: length_concat)
qed

lemma count_run:
  "list_all ok xs \<Longrightarrow> \<not> too_large xs \<Longrightarrow>
     d_count m (wire_list wire xs @ rest) = Inr (length xs, concat (map wire xs) @ rest)"
  using count_fits [of xs rest] by (simp add: d_count_eq_Inr wire_list_def too_large_def)

lemma counted_inv:
  assumes "d_count m data = Inr (n, r)" "d_each n dec r = Inr (ys, rest)"
  shows "list_all ok ys \<and> \<not> too_large ys \<and> map canon ys = ys \<and> data = wire_list wire ys @ rest"
  using each_inv [OF assms(2)] assms(1) by (auto simp: d_count_eq_Inr wire_list_def too_large_def)

lemma each_wrap: "d_each n (pwrap e dec) data = Inr (ys, rest) \<longleftrightarrow> d_each n dec data = Inr (ys, rest)"
  by (induction n arbitrary: data ys rest) (auto simp: res_simps)

lemmas runs = dec_wire each_wire count_run

end

lemma mask3_cases:
  fixes o' :: byte
  assumes "o' AND - 4 = 0"
  shows "o' = 0 \<or> o' = 1 \<or> o' = 2 \<or> o' = 3"
proof -
  have "o' AND NOT 3 = 0" using assms by simp
  then have "o' = o' AND 3"
    by (metis and.right_neutral bit.conj_disj_distrib bit.disj_cancel_right bit.disj_zero_right
        bit.conj_one_right)
  also have "\<dots> = take_bit 2 o'"
    by (simp add: take_bit_eq_mask mask_eq_exp_minus_1)
  finally have "unat o' = take_bit 2 (unat o')"
    by (metis unsigned_take_bit_eq)
  then have "unat o' < 2 ^ 2"
    by (metis take_bit_nat_less_exp)
  then have "unat o' \<in> {0, 1, 2, 3}" by auto
  then show ?thesis
    by (auto dest!: arg_cong [where f = "word_of_nat :: nat \<Rightarrow> byte"])
qed

interpretation datum_dec: item_decoder wire_datum ok_datum canon_datum d_datum 1
proof unfold_locales
  fix d y :: TupleDatum and data rest
  show "ok_datum d \<Longrightarrow> d_datum (wire_datum d @ rest) = Inr (canon_datum d, rest)"
    by (auto simp: d_datum_def ok_datum_def wire_datum_def canon_datum_def wire_simps split: if_splits)
  show "d_datum data = Inr (y, rest) \<Longrightarrow> ok_datum y \<and> canon_datum y = y \<and> data = wire_datum y @ rest"
    by (auto simp: d_datum_def decoder_simps ok_datum_def canon_datum_def wire_datum_def dat_bytes_def
        split: if_splits)
  show "ok_datum d \<Longrightarrow> 1 \<le> length (wire_datum d)"
    by (simp add: length_wire_datum)
qed simp

interpretation column_dec: item_decoder wire_column ok_column "\<lambda>c. c" d_column 9
proof unfold_locales
  fix c y :: Column and data rest
  show "ok_column c \<Longrightarrow> d_column (wire_column c @ rest) = Inr (c, rest)"
    by (simp add: d_column_def ok_column_def wire_column_def wire_simps)
  show "d_column data = Inr (y, rest) \<Longrightarrow> ok_column y \<and> y = y \<and> data = wire_column y @ rest"
    by (auto simp: d_column_def decoder_simps ok_column_def wire_column_def)
  show "ok_column c \<Longrightarrow> 9 \<le> length (wire_column c)"
    by (simp add: wire_column_def)
qed simp

interpretation relation_dec: item_decoder wire_relation ok_relation "\<lambda>r. r" d_relation 17
proof unfold_locales
  fix r y :: Relation and data rest
  show "ok_relation r \<Longrightarrow> d_relation (wire_relation r @ rest) = Inr (r, rest)"
    by (simp add: d_relation_def ok_relation_def wire_relation_def wire_simps column_dec.runs)
  show "d_relation data = Inr (y, rest) \<Longrightarrow> ok_relation y \<and> y = y \<and> data = wire_relation y @ rest"
    by (auto simp: d_relation_def res_simps d_u8_eq_Inr d_u32_eq_Inr d_bytes_eq_Inr ok_relation_def
        wire_relation_def dest: column_dec.counted_inv)
  show "ok_relation r \<Longrightarrow> 17 \<le> length (wire_relation r)"
    by (simp add: wire_relation_def)
qed simp

lemma d_tuple_run: "ok_tuple t \<Longrightarrow> d_tuple (wire_tuple t @ rest) = Inr (canon_tuple t, rest)"
  by (cases t) (simp_all add: d_tuple_def canon_tuple_def wire_simps datum_dec.runs del: One_nat_def)

lemma d_tuple_inv:
  "d_tuple data = Inr (t, rest) \<Longrightarrow> ok_tuple t \<and> canon_tuple t = t \<and> data = wire_tuple t @ rest"
  by (auto simp: d_tuple_def canon_tuple_def res_simps d_u8_eq_Inr simp del: One_nat_def
      split: if_splits dest: datum_dec.counted_inv)

lemma truncate_options_bits [simp]:
  "truncate_options c AND - 4 = 0"
  "truncate_options c AND 1 \<noteq> 0 \<longleftrightarrow> ch_TruncateCascade c"
  "truncate_options c AND 2 \<noteq> 0 \<longleftrightarrow> ch_TruncateRestartIdentity c"
  by (simp_all add: truncate_options_def)

lemma d_truncate_options_inv:
  assumes "d_truncate_options version kind data = Inr ((cascade, restart), rest)"
  shows "data = (if version \<ge> 2 \<and> kind = ChangeTruncate
           then [(if cascade then 1 else 0) + (if restart then 2 else 0)] else []) @ rest \<and>
         (\<not> (version \<ge> 2 \<and> kind = ChangeTruncate) \<longrightarrow> \<not> cascade \<and> \<not> restart)"
proof (cases "version \<ge> 2 \<and> kind = ChangeTruncate")
  case True
  then obtain options where o': "data = options # rest" "options AND - 4 = 0"
      "cascade = (options AND 1 \<noteq> 0)" "restart = (options AND 2 \<noteq> 0)"
    using assms by (auto simp: d_truncate_options_def res_simps d_u8_eq_Inr split: if_splits)
  with True mask3_cases [OF o'(2)] show ?thesis by auto
next
  case False
  then show ?thesis using assms by (auto simp: d_truncate_options_def res_simps split: if_splits)
qed

lemma d_change_inv:
  assumes "d_change version data = Inr (y, rest)"
  shows "ok_change y \<and> canon_change version y = y \<and> data = wire_change version y @ rest"
proof -
  obtain oid kind cascade restart r1 r2 r3 old new where *:
      "valid_kind kind" "data = le32 oid @ kind # r1"
      "d_truncate_options version kind r1 = Inr ((cascade, restart), r2)"
      "d_tuple r2 = Inr (old, r3)" "d_tuple r3 = Inr (new, rest)"
      "y = \<lparr>ch_RelationOID = oid, ch_Kind = kind, ch_Old = old, ch_New = new,
             ch_TruncateCascade = cascade, ch_TruncateRestartIdentity = restart\<rparr>"
    using assms
    by (auto simp: d_change_def res_simps d_u8_eq_Inr d_u32_eq_Inr split: if_splits prod.splits)
  from d_truncate_options_inv [OF *(3)] d_tuple_inv [OF *(4)] d_tuple_inv [OF *(5)] *(1,2,6)
  show ?thesis
    by (auto simp: ok_change_def canon_change_def wire_change_def truncate_options_def)
qed

interpretation change_dec:
  item_decoder "wire_change version" ok_change "canon_change version" "d_change version" 7
  for version :: byte
proof unfold_locales
  fix c y :: Change and data rest
  show "ok_change c \<Longrightarrow> d_change version (wire_change version c @ rest) = Inr (canon_change version c, rest)"
    by (auto simp: d_change_def d_truncate_options_def ok_change_def wire_change_def canon_change_def
        wire_simps d_tuple_run)
  show "d_change version data = Inr (y, rest) \<Longrightarrow>
      ok_change y \<and> canon_change version y = y \<and> data = wire_change version y @ rest"
    by (rule d_change_inv)
  show "ok_change c \<Longrightarrow> 7 \<le> length (wire_change version c)"
    by (cases "ch_Old c"; cases "ch_New c") (auto simp: wire_change_def)
qed simp

section \<open>Whole payloads\<close>

lemma d_magic_run: "d_magic (payloadMagic @ rest) = Inr ((), rest)"
  by (simp add: d_magic_def d_take_def)

lemma d_magic_inv: "d_magic data = Inr (u, rest) \<Longrightarrow> data = payloadMagic @ rest"
  by (auto simp: d_magic_def d_take_eq_Inr split: sum.splits if_splits)

lemma d_each_wrap_run:
  "d_each n p data = Inr (xs, rest) \<Longrightarrow> d_each n (pwrap e p) data = Inr (xs, rest)"
  by (induction n arbitrary: data xs rest) (auto simp: res_simps)

lemma d_each_wrap_inv:
  "d_each n (pwrap e p) data = Inr (xs, rest) \<Longrightarrow> d_each n p data = Inr (xs, rest)"
  by (induction n arbitrary: data xs rest) (auto simp: res_simps)

lemma Unmarshal_wire:
  assumes "version = 1 \<or> version = payloadVersion" "ok_transaction tx" "valid_time (tx_CommitTime tx)"
    and "length (wire_transaction version tx) \<le> maxPayloadSize"
  shows "UnmarshalTransaction (wire_transaction version tx) = Inr (canon_transaction version tx)"
proof -
  have rels: "d_each (length (tx_Relations tx)) (pwrap ''cdc: relation'' d_relation)
      (concat (map wire_relation (tx_Relations tx)) @ rest) = Inr (tx_Relations tx, rest)" for rest
    using assms(2) relation_dec.each_wire [of "tx_Relations tx" rest]
    by (intro d_each_wrap_run) (simp add: ok_transaction_def)
  have chs: "d_each (length (tx_Changes tx)) (pwrap ''cdc: change'' (d_change version))
      (concat (map (wire_change version) (tx_Changes tx)) @ []) =
      Inr (map (canon_change version) (tx_Changes tx), [])"
    using assms(2) change_dec.each_wire [of "tx_Changes tx" version "[]"]
    by (intro d_each_wrap_run) (simp add: ok_transaction_def)
  have cnt: "d_count 7 (wire_list (wire_change version) (tx_Changes tx)) =
      Inr (length (tx_Changes tx), concat (map (wire_change version) (tx_Changes tx)))"
    using assms(2) change_dec.count_run [of "tx_Changes tx" version "[]"]
    by (simp add: ok_transaction_def)
  have rel_ok: "list_all ok_relation (tx_Relations tx)" "\<not> too_large (tx_Relations tx)"
    using assms(2) by (simp_all add: ok_transaction_def)
  show ?thesis
    using assms(1,3,4) rels chs cnt
      relation_dec.count_run [OF rel_ok, of "wire_list (wire_change version) (tx_Changes tx)"]
    by (auto simp: UnmarshalTransaction_def wire_transaction_def wire_header_def d_magic_run wire_simps
        valid_time_def canon_transaction_def)
qed

lemma Unmarshal_inv:
  assumes "UnmarshalTransaction data = Inr tx"
  shows "\<exists>version. (version = 1 \<or> version = payloadVersion) \<and> data ! 4 = version \<and>
    length data \<le> maxPayloadSize \<and> ok_transaction tx \<and> valid_time (tx_CommitTime tx) \<and>
    canon_transaction version tx = tx \<and> data = wire_transaction version tx"
proof -
  obtain version commit "end" seconds nanos nr relations nc changes r1 r2 r3 r4 r5 r6 where *:
    "length data \<le> maxPayloadSize"
    "data = payloadMagic @ version # le64 commit @ le64 end @ le64 seconds @ le32 nanos @ r1"
    "version = 1 \<or> version = payloadVersion" "unat nanos < 1000000000"
    "d_count 17 r1 = Inr (nr, r2)" "d_each nr d_relation r2 = Inr (relations, r3)"
    "d_count 7 r3 = Inr (nc, r4)" "d_each nc (d_change version) r4 = Inr (changes, [])"
    "tx = \<lparr>tx_CommitLSN = commit, tx_EndLSN = end,
       tx_CommitTime = \<lparr>t_Unix = seconds, t_Nanosecond = nanos\<rparr>,
       tx_Relations = relations, tx_Changes = changes, tx_Spill = None\<rparr>"
    using assms
    by (auto simp: UnmarshalTransaction_def res_simps d_u8_eq_Inr d_u32_eq_Inr d_u64_eq_Inr not_le not_less
        split: if_splits dest!: d_magic_inv d_each_wrap_inv)
  have "data ! 4 = version"
    using *(2) by (simp add: nth_append)
  with * relation_dec.counted_inv [OF *(5,6)] change_dec.counted_inv [OF *(7,8)]
  show ?thesis
    by (intro exI [of _ version])
      (auto simp: ok_transaction_def valid_time_def canon_transaction_def wire_transaction_def wire_header_def)
qed


section \<open>Round trips\<close>

text \<open>A transaction of every change kind the format tells apart, for the witnesses.\<close>

definition example_relation :: Relation where
  "example_relation = \<lparr>rel_OID = 16384, rel_Namespace = ''public'', rel_Name = ''t'',
     rel_ReplicaIdentity = 100,
     rel_Columns = [\<lparr>col_Name = ''id'', col_Type = 23, col_Flags = 1\<rparr>]\<rparr>"

definition example_insert :: Change where
  "example_insert = \<lparr>ch_RelationOID = 16384, ch_Kind = ChangeInsert, ch_Old = None,
     ch_New = Some [\<lparr>dat_Kind = DatumText, dat_Data = Some [49]\<rparr>, \<lparr>dat_Kind = DatumNull, dat_Data = None\<rparr>],
     ch_TruncateCascade = False, ch_TruncateRestartIdentity = False\<rparr>"

definition example_truncate :: Change where
  "example_truncate = \<lparr>ch_RelationOID = 16384, ch_Kind = ChangeTruncate, ch_Old = None, ch_New = None,
     ch_TruncateCascade = True, ch_TruncateRestartIdentity = False\<rparr>"

definition example_tx :: Transaction where
  "example_tx = \<lparr>tx_CommitLSN = 256, tx_EndLSN = 300,
     tx_CommitTime = \<lparr>t_Unix = 1700000000, t_Nanosecond = 5\<rparr>, tx_Relations = [example_relation],
     tx_Changes = [example_insert, example_truncate], tx_Spill = None\<rparr>"

lemma example_ok: "ok_transaction example_tx" "valid_time (tx_CommitTime example_tx)"
    "length (wire_transaction payloadVersion example_tx) \<le> maxPayloadSize" "tx_Spill example_tx = None"
    "canon_transaction payloadVersion example_tx = example_tx"
  by (simp_all add: example_tx_def example_relation_def example_insert_def example_truncate_def ok_transaction_def
      ok_relation_def ok_column_def ok_change_def ok_datum_def valid_kind_def valid_time_def too_large_def
      max_u32_def maxPayloadSize_def wire_transaction_def length_wire_header wire_relation_def wire_column_def
      wire_change_def wire_datum_def wire_bytes_def dat_bytes_def payloadVersion_def wire_list_def
      canon_transaction_def canon_change_def canon_tuple_def canon_datum_def)

lemma example_marshal: "MarshalTransaction example_tx = Inr (wire_transaction payloadVersion example_tx)"
  using example_ok by (simp add: MarshalTransaction_def AppendTransaction_wire)

text \<open>C3: Decoding what \<^verbatim>\<open>MarshalTransaction\<close> produced gives the transaction back, up to the choice
  between nil and empty tuple data that the format does not store.\<close>

theorem marshal_unmarshal:
  assumes "MarshalTransaction tx = Inr data" "valid_time (tx_CommitTime tx)"
  shows "UnmarshalTransaction data = Inr (canon_transaction payloadVersion tx)"
  using assms Unmarshal_wire [of payloadVersion tx]
  by (auto simp: MarshalTransaction_def AppendTransaction_wire)

theorem marshal_unmarshal_witness:
  "MarshalTransaction example_tx = Inr (wire_transaction payloadVersion example_tx) \<and>
   UnmarshalTransaction (wire_transaction payloadVersion example_tx) = Inr example_tx"
  using marshal_unmarshal [OF example_marshal example_ok(2)] example_marshal example_ok(5) by simp

text \<open>C4: The decoder accepts only canonical payloads: every byte string of the current version it
  accepts is exactly the encoding of the transaction it returns, so nothing is ignored, guessed
  or read past.\<close>

theorem unmarshal_marshal:
  assumes "UnmarshalTransaction data = Inr tx" "data ! 4 = payloadVersion"
  shows "MarshalTransaction tx = Inr data"
proof -
  from Unmarshal_inv [OF assms(1)] assms(2) have
    "length data \<le> maxPayloadSize" "ok_transaction tx" "data = wire_transaction payloadVersion tx"
    "canon_transaction payloadVersion tx = tx"
    by auto
  moreover have "tx_Spill tx = None"
    using calculation(4) by (metis (no_types) Transaction.select_convs(6) Transaction.surjective
        Transaction.update_convs(6) canon_transaction_def)
  ultimately show ?thesis by (auto simp: MarshalTransaction_def AppendTransaction_wire)
qed

theorem unmarshal_marshal_witness:
  "UnmarshalTransaction (wire_transaction payloadVersion example_tx) = Inr example_tx \<and>
   MarshalTransaction example_tx = Inr (wire_transaction payloadVersion example_tx)"
proof -
  have run: "UnmarshalTransaction (wire_transaction payloadVersion example_tx) = Inr example_tx"
    using Unmarshal_wire [of payloadVersion example_tx] example_ok by simp
  have "wire_transaction payloadVersion example_tx ! 4 = payloadVersion"
    by (simp add: wire_transaction_def wire_header_def nth_append)
  from unmarshal_marshal [OF run this] run show ?thesis by simp
qed

end
