(* ===== verification/Frames.thy ===== *)
theory Frames
  imports CodecDecode
begin

unbundle bit_operations_syntax

text \<open>
  The frames of a CDC segment file (\<^verbatim>\<open>internal/cdc/segment.go\<close>): eight header bytes (the
  payload's length and its CRC-32C, both little-endian) and the payload. This theory holds the
  checksum, the validation of one frame (\<^verbatim>\<open>scanTransactionMetadata\<close>) and of a whole segment
  (\<^verbatim>\<open>scanSegmentWithProgress\<close>, as recovery and pruning call it: with no visitor), and the
  facts recovery rests on: which content a scan accepts, and where it stops.

  File contents are byte lists. The scan's errors are values; \<^verbatim>\<open>open\<close>, \<^verbatim>\<open>stat\<close>, \<^verbatim>\<open>truncate\<close>
  and \<^verbatim>\<open>fsync\<close> are taken to succeed, and the size the caller expects is the size found.
\<close>

section \<open>CRC-32C\<close>

text \<open>\<^verbatim>\<open>hash/crc32\<close> with the Castagnoli polynomial, reflected, one bit at a time.\<close>

definition crc_bit :: "u32 \<Rightarrow> u32" where
  "crc_bit c = (if c AND 1 = 1 then drop_bit 1 c XOR 0x82F63B78 else drop_bit 1 c)"

definition crc_byte :: "u32 \<Rightarrow> byte \<Rightarrow> u32" where
  "crc_byte c b = (crc_bit ^^ 8) (c XOR ucast b)"

definition crc_update :: "u32 \<Rightarrow> bytes \<Rightarrow> u32" where
  "crc_update c bs = NOT (foldl crc_byte (NOT c) bs)"

definition crc32c :: "bytes \<Rightarrow> u32" where
  "crc32c bs = crc_update 0 bs"

text \<open>A checksum fed in pieces is the checksum of the concatenation.\<close>

lemma crc_update_append: "crc_update (crc_update c bs) bs' = crc_update c (bs @ bs')"
  by (simp add: crc_update_def)

section \<open>Frames\<close>

definition frameHeaderSize :: nat where
  "frameHeaderSize = 8"

definition frame_header :: "bytes \<Rightarrow> bytes" where
  "frame_header payload = le32 (u32_of_len (length payload)) @ le32 (crc32c payload)"

definition frame :: "bytes \<Rightarrow> bytes" where
  "frame payload = frame_header payload @ payload"

text \<open>\<^verbatim>\<open>scanTransactionMetadata\<close>: the two LSNs and the bytes behind the frame.\<close>

definition scanTransactionMetadata :: "bytes \<Rightarrow> u32 \<Rightarrow> u32 \<Rightarrow> ((LSN \<times> LSN) \<times> bytes) res" where
  "scanTransactionMetadata rest len expected =
     (if unat len < 21 then Inl (Err ''frame payload is shorter than transaction metadata'')
      else if length rest < unat len then Inl (Wrap ''short frame payload''
        (if rest = [] then IoEOF else IoUnexpectedEOF))
      else let payload = take (unat len) rest in
        if crc32c payload \<noteq> expected then Inl (Err ''checksum mismatch'')
        else if take 4 payload \<noteq> payloadMagic then Inl (Err ''invalid payload magic'')
        else if payload ! 4 \<noteq> 1 \<and> payload ! 4 \<noteq> payloadVersion
        then Inl (Err ''unsupported payload version'')
        else Inr ((le64_of (take 8 (drop 5 payload)), le64_of (take 8 (drop 13 payload))),
                  drop (unat len) rest))"

section \<open>Scanning a segment\<close>

record scanResult =
  sr_firstCommitLSN :: LSN
  sr_firstEndLSN :: LSN
  sr_lastCommitLSN :: LSN
  sr_lastEndLSN :: LSN
  sr_size :: nat
  sr_truncated :: nat
  sr_frames :: nat

definition scan_start :: "LSN \<Rightarrow> LSN \<Rightarrow> scanResult" where
  "scan_start previousCommit previousEnd = \<lparr>sr_firstCommitLSN = 0, sr_firstEndLSN = 0,
     sr_lastCommitLSN = previousCommit, sr_lastEndLSN = previousEnd,
     sr_size = 0, sr_truncated = 0, sr_frames = 0\<rparr>"

definition scan_accept :: "LSN \<times> LSN \<Rightarrow> nat \<Rightarrow> scanResult \<Rightarrow> scanResult" where
  "scan_accept m n r = r\<lparr>
     sr_firstCommitLSN := (if sr_frames r = 0 then fst m else sr_firstCommitLSN r),
     sr_firstEndLSN := (if sr_frames r = 0 then snd m else sr_firstEndLSN r),
     sr_lastCommitLSN := fst m, sr_lastEndLSN := snd m,
     sr_size := sr_size r + frameHeaderSize + n, sr_frames := sr_frames r + 1\<rparr>"

text \<open>The order check of one transaction against what the scan has accepted.\<close>

definition scan_order :: "LSN \<times> LSN \<Rightarrow> scanResult \<Rightarrow> error option" where
  "scan_order m r =
     (if fst m \<le> sr_lastCommitLSN r \<or> snd m < fst m then Some (Err ''non-monotonic commit LSN'')
      else if snd m \<le> sr_lastEndLSN r then Some (Err ''non-monotonic end LSN'')
      else None)"

text \<open>One turn of the loop: the end of the file, an invalid frame, or the next position.\<close>

datatype scan_step = ScanEnd | ScanInvalid error | ScanNext scanResult bytes

definition scan_frame :: "bytes \<Rightarrow> scanResult \<Rightarrow> scan_step" where
  "scan_frame rest r =
     (if rest = [] then ScanEnd
      else if length rest < frameHeaderSize
      then ScanInvalid (Wrap ''short frame header'' IoUnexpectedEOF)
      else let len = le32_of (take 4 rest); expected = le32_of (take 4 (drop 4 rest)) in
        if unat len > maxPayloadSize then ScanInvalid (Err ''frame length exceeds limit'')
        else case scanTransactionMetadata (drop frameHeaderSize rest) len expected of
          Inl e \<Rightarrow> ScanInvalid e
        | Inr (m, rest') \<Rightarrow> (case scan_order m r of
            Some e \<Rightarrow> ScanInvalid e
          | None \<Rightarrow> ScanNext (scan_accept m (unat len) r) rest'))"

lemma scan_frame_shorter: "scan_frame rest r = ScanNext r' rest' \<Longrightarrow> length rest' < length rest"
  by (auto simp: scan_frame_def scanTransactionMetadata_def frameHeaderSize_def Let_def
      split: if_splits sum.splits option.splits)

function scan_loop :: "bytes \<Rightarrow> scanResult \<Rightarrow> scanResult \<times> error option" where
  "scan_loop rest r = (case scan_frame rest r of
     ScanEnd \<Rightarrow> (r, None)
   | ScanInvalid e \<Rightarrow> (r, Some e)
   | ScanNext r' rest' \<Rightarrow> scan_loop rest' r')"
  by auto
termination by (relation "measure (\<lambda>(rest, r). length rest)") (auto simp: scan_frame_shorter)

declare scan_loop.simps [simp del]

text \<open>The result, and the content the file is left with.\<close>

definition scanSegment :: "bytes \<Rightarrow> bool \<Rightarrow> LSN \<Rightarrow> LSN \<Rightarrow> (scanResult \<times> bytes) res" where
  "scanSegment content repairTail previousCommit previousEnd =
     (case scan_loop content (scan_start previousCommit previousEnd) of
        (r, None) \<Rightarrow> Inr (r, content)
      | (r, Some invalid) \<Rightarrow>
          if \<not> repairTail then Inl (Wrap ''cdc: corrupt finalized segment'' invalid)
          else Inr (r\<lparr>sr_truncated := length content - sr_size r\<rparr>, take (sr_size r) content))"

section \<open>Valid segments\<close>

text \<open>A payload a scan accepts, with the LSNs it reads there.\<close>

definition payload_lsns :: "bytes \<Rightarrow> LSN \<times> LSN" where
  "payload_lsns p = (le64_of (take 8 (drop 5 p)), le64_of (take 8 (drop 13 p)))"

definition payload_ok :: "bytes \<Rightarrow> bool" where
  "payload_ok p \<longleftrightarrow> 21 \<le> length p \<and> length p \<le> maxPayloadSize \<and> take 4 p = payloadMagic \<and>
     (p ! 4 = 1 \<or> p ! 4 = payloadVersion)"

text \<open>LSN pairs in commit order after \<open>(c, e)\<close>.\<close>

fun chain :: "LSN \<Rightarrow> LSN \<Rightarrow> (LSN \<times> LSN) list \<Rightarrow> bool" where
  "chain c e [] \<longleftrightarrow> True"
| "chain c e ((c', e') # ms) \<longleftrightarrow> c < c' \<and> c' \<le> e' \<and> e < e' \<and> chain c' e' ms"

definition last_lsns :: "LSN \<times> LSN \<Rightarrow> (LSN \<times> LSN) list \<Rightarrow> LSN \<times> LSN" where
  "last_lsns m ms = (if ms = [] then m else last ms)"

lemma last_lsns_simps [simp]:
  "last_lsns m [] = m" "last_lsns m (x # xs) = last_lsns x xs"
  by (auto simp: last_lsns_def)

lemma last_lsns_append [simp]: "last_lsns m (xs @ ys) = last_lsns (last_lsns m xs) ys"
  by (induction xs arbitrary: m) auto

lemma chain_append:
  "chain c e (xs @ ys) \<longleftrightarrow> chain c e xs \<and> (case last_lsns (c, e) xs of (c', e') \<Rightarrow> chain c' e' ys)"
  by (induction xs arbitrary: c e) auto

definition segment_ok :: "LSN \<times> LSN \<Rightarrow> bytes list \<Rightarrow> bool" where
  "segment_ok m ps \<longleftrightarrow> list_all payload_ok ps \<and> chain (fst m) (snd m) (map payload_lsns ps)"

lemma segment_ok_Nil [simp]: "segment_ok m []"
  by (simp add: segment_ok_def)

lemma segment_ok_append:
  "segment_ok m (ps @ qs) \<longleftrightarrow> segment_ok m ps \<and> segment_ok (last_lsns m (map payload_lsns ps)) qs"
  by (cases m) (auto simp: segment_ok_def chain_append split: prod.splits)

fun scan_accepts :: "bytes list \<Rightarrow> scanResult \<Rightarrow> scanResult" where
  "scan_accepts [] r = r"
| "scan_accepts (p # ps) r = scan_accepts ps (scan_accept (payload_lsns p) (length p) r)"

definition sr_last :: "scanResult \<Rightarrow> LSN \<times> LSN" where
  "sr_last r = (sr_lastCommitLSN r, sr_lastEndLSN r)"

definition segment_bytes :: "bytes list \<Rightarrow> bytes" where
  "segment_bytes ps = concat (map frame ps)"

lemma segment_bytes_simps [simp]:
  "segment_bytes [] = []" "segment_bytes (p # ps) = frame p @ segment_bytes ps"
  "segment_bytes (ps @ qs) = segment_bytes ps @ segment_bytes qs"
  by (simp_all add: segment_bytes_def)

lemma length_frame: "length (frame p) = frameHeaderSize + length p"
  by (simp add: frame_def frame_header_def frameHeaderSize_def)

lemma sr_last_accept [simp]: "sr_last (scan_accept m n r) = m"
  by (simp add: sr_last_def scan_accept_def)

lemma sr_last_accepts: "sr_last (scan_accepts ps r) = last_lsns (sr_last r) (map payload_lsns ps)"
  by (induction ps arbitrary: r) auto

lemma sr_size_accepts: "sr_size (scan_accepts ps r) = sr_size r + length (segment_bytes ps)"
  by (induction ps arbitrary: r) (auto simp: scan_accept_def length_frame)

lemma sr_truncated_accepts [simp]: "sr_truncated (scan_accepts ps r) = sr_truncated r"
  by (induction ps arbitrary: r) (auto simp: scan_accept_def)

lemma sr_frames_accepts: "sr_frames (scan_accepts ps r) = sr_frames r + length ps"
  by (induction ps arbitrary: r) (auto simp: scan_accept_def)

lemma scan_accepts_append: "scan_accepts (ps @ qs) r = scan_accepts qs (scan_accepts ps r)"
  by (induction ps arbitrary: r) auto

section \<open>What a scan accepts\<close>

lemma scan_frame_frame:
  assumes "payload_ok p"
  shows "scan_frame (frame p @ rest) r = (case scan_order (payload_lsns p) r of
    Some e \<Rightarrow> ScanInvalid e | None \<Rightarrow> ScanNext (scan_accept (payload_lsns p) (length p) r) rest)"
proof -
  have len: "length p \<le> max_u32" "length p \<le> maxPayloadSize" "21 \<le> length p"
    using assms by (auto simp: payload_ok_def maxPayloadSize_def max_u32_def)
  let ?f = "frame p @ rest"
  have split: "take 4 ?f = le32 (u32_of_len (length p))" "take 4 (drop 4 ?f) = le32 (crc32c p)"
      "drop 8 ?f = p @ rest"
    by (simp_all add: frame_def frame_header_def)
  have "scanTransactionMetadata (p @ rest) (u32_of_len (length p)) (crc32c p) =
      Inr (payload_lsns p, rest)"
    using assms len by (auto simp: scanTransactionMetadata_def payload_ok_def payload_lsns_def Let_def)
  with split len show ?thesis
    by (auto simp: scan_frame_def frameHeaderSize_def frame_def frame_header_def Let_def not_less
        split: option.split)
qed

lemma scan_frame_inv:
  assumes "scan_frame rest r = ScanNext r' rest'"
  shows "\<exists>p. payload_ok p \<and> rest = frame p @ rest' \<and> scan_order (payload_lsns p) r = None \<and>
    r' = scan_accept (payload_lsns p) (length p) r"
proof -
  define len where "len = le32_of (take 4 rest)"
  define p where "p = take (unat len) (drop 8 rest)"
  from assms have *: "8 \<le> length rest" "unat len \<le> maxPayloadSize"
      "scanTransactionMetadata (drop 8 rest) len (le32_of (take 4 (drop 4 rest))) = Inr (payload_lsns p, rest')"
      "scan_order (payload_lsns p) r = None" "r' = scan_accept (payload_lsns p) (unat len) r"
    by (auto simp: scan_frame_def len_def p_def frameHeaderSize_def payload_lsns_def Let_def not_less
        scanTransactionMetadata_def split: if_splits sum.splits option.splits)
  from *(3) have m: "21 \<le> unat len" "unat len \<le> length (drop 8 rest)"
      "crc32c p = le32_of (take 4 (drop 4 rest))" "take 4 p = payloadMagic"
      "p ! 4 = 1 \<or> p ! 4 = payloadVersion" "rest' = drop (unat len) (drop 8 rest)"
    by (auto simp: scanTransactionMetadata_def p_def Let_def not_less split: if_splits)
  have lp: "length p = unat len" using m(2) by (simp add: p_def)
  have "take 4 rest = le32 len" "take 4 (drop 4 rest) = le32 (crc32c p)"
    using *(1) m(3) by (simp_all add: len_def)
  moreover have "rest = take 4 rest @ take 4 (drop 4 rest) @ drop 8 rest"
    by (metis add_numeral_left append_take_drop_id drop_drop numeral_plus_numeral semiring_norm(2) semiring_norm(6))
  moreover have "drop 8 rest = p @ rest'"
    using m(6) by (simp add: p_def del: drop_drop)
  ultimately have "rest = frame p @ rest'"
    using lp by (simp add: frame_def frame_header_def)
  moreover have "payload_ok p"
    using m lp *(2) by (auto simp: payload_ok_def)
  ultimately show ?thesis
    using * lp by auto
qed

lemma scan_order_iff:
  "scan_order m r = None \<longleftrightarrow> chain (sr_lastCommitLSN r) (sr_lastEndLSN r) [m]"
  by (cases m) (auto simp: scan_order_def not_le not_less)


lemma scan_loop_frames:
  assumes "segment_ok (sr_last r) ps"
  shows "scan_loop (segment_bytes ps @ rest) r = scan_loop rest (scan_accepts ps r)"
  using assms
proof (induction ps arbitrary: r)
  case (Cons p ps)
  then have "payload_ok p" "scan_order (payload_lsns p) r = None"
    by (auto simp: segment_ok_def scan_order_iff sr_last_def split: prod.splits)
      (cases "payload_lsns p"; simp)+
  moreover have "segment_ok (payload_lsns p) ps"
    using Cons.prems by (cases "payload_lsns p") (auto simp: segment_ok_def)
  ultimately show ?case
    using Cons.IH [of "scan_accept (payload_lsns p) (length p) r"]
    by (simp add: scan_loop.simps [of "frame p @ _"] scan_frame_frame)
qed simp

lemma scan_loop_inv:
  "scan_loop rest r = (r', e) \<Longrightarrow> \<exists>ps tail. rest = segment_bytes ps @ tail \<and> segment_ok (sr_last r) ps \<and>
     r' = scan_accepts ps r \<and> scan_loop tail r' = (r', e) \<and> (e = None \<longrightarrow> tail = [])"
proof (induction rest r rule: scan_loop.induct)
  case (1 rest r)
  show ?case
  proof (cases "scan_frame rest r")
    case ScanEnd
    then have "rest = []"
      by (auto simp: scan_frame_def Let_def split: if_splits sum.splits option.splits)
    with 1 ScanEnd show ?thesis
      by (intro exI [of _ "[]"] exI [of _ "[]"]) (simp add: scan_loop.simps)
  next
    case (ScanInvalid e')
    with 1 show ?thesis
      by (intro exI [of _ "[]"] exI [of _ rest]) (auto simp: scan_loop.simps)
  next
    case (ScanNext r1 rest1)
    then obtain p where p: "payload_ok p" "rest = frame p @ rest1" "scan_order (payload_lsns p) r = None"
        "r1 = scan_accept (payload_lsns p) (length p) r"
      using scan_frame_inv by blast
    have "scan_loop rest1 r1 = (r', e)"
      using 1(2) ScanNext by (simp add: scan_loop.simps)
    then obtain ps tail where *: "rest1 = segment_bytes ps @ tail" "segment_ok (sr_last r1) ps"
        "r' = scan_accepts ps r1" "scan_loop tail r' = (r', e)" "e = None \<longrightarrow> tail = []"
      using 1(1) [OF ScanNext] by blast
    have "segment_ok (sr_last r) (p # ps)"
      using p *(2) by (cases "payload_lsns p") (auto simp: segment_ok_def scan_order_iff sr_last_def scan_accept_def)
    with p * show ?thesis
      by (intro exI [of _ "p # ps"] exI [of _ tail]) simp
  qed
qed

lemma scan_loop_nil [simp]: "scan_loop [] r = (r, None)"
  by (simp add: scan_loop.simps scan_frame_def)

lemma frame_not_Nil [simp]: "frame p \<noteq> []"
  using length_frame [of p] by (auto simp: frameHeaderSize_def)

text \<open>A torn frame: some of its bytes, but not all of them.\<close>

lemma scan_loop_torn:
  assumes "length p \<le> maxPayloadSize" "k < length (frame p)" "0 < k"
  shows "\<exists>e. scan_loop (take k (frame p)) r = (r, Some e)"
proof -
  have "\<exists>e. scan_frame (take k (frame p)) r = ScanInvalid e"
  proof (cases "k < 8")
    case True
    with assms show ?thesis
      by (auto simp: scan_frame_def frameHeaderSize_def length_frame)
  next
    case False
    let ?t = "take k (frame p)"
    have "take 4 ?t = le32 (u32_of_len (length p))"
      using False by (simp add: frame_def frame_header_def)
    moreover have "drop 8 ?t = take (k - 8) p" "length p \<le> max_u32"
      using False assms by (simp_all add: frame_def frame_header_def maxPayloadSize_def max_u32_def)
    ultimately show ?thesis
      using False assms
      by (auto simp: scan_frame_def frameHeaderSize_def length_frame scanTransactionMetadata_def Let_def)
  qed
  then show ?thesis by (auto simp: scan_loop.simps)
qed

text \<open>The placeholder header of a frame still being streamed.\<close>

lemma scan_loop_placeholder: "\<exists>e. scan_loop (replicate frameHeaderSize 0 @ rest) r = (r, Some e)"
proof -
  have "le32_of (take 4 (replicate 8 0 @ rest)) = 0"
    by (simp add: le32_of_def numeral_eq_Suc)
  then have "\<exists>e. scan_frame (replicate 8 0 @ rest) r = ScanInvalid e"
    by (simp add: scan_frame_def scanTransactionMetadata_def frameHeaderSize_def)
  then show ?thesis by (auto simp: scan_loop.simps frameHeaderSize_def)
qed

lemma scan_start_simps [simp]: "sr_last (scan_start c e) = (c, e)" "sr_size (scan_start c e) = 0"
    "sr_frames (scan_start c e) = 0"
  by (simp_all add: sr_last_def scan_start_def)

text \<open>
  A scan with repair of arbitrary content keeps a valid prefix; what it leaves needs no repair.
\<close>

lemma scanSegment_repaired:
  assumes "scanSegment content True c e = Inr (r, content')"
  shows "\<exists>ps tail. content = segment_bytes ps @ tail \<and> content' = segment_bytes ps \<and>
    segment_ok (c, e) ps \<and> sr_last r = last_lsns (c, e) (map payload_lsns ps) \<and>
    sr_truncated r = length tail \<and> sr_size r = length content'"
proof -
  obtain r1 inv where r1: "scan_loop content (scan_start c e) = (r1, inv)"
    by force
  then obtain ps tail where *: "content = segment_bytes ps @ tail" "segment_ok (c, e) ps"
      "r1 = scan_accepts ps (scan_start c e)" "inv = None \<longrightarrow> tail = []"
    using scan_loop_inv [OF r1] by auto
  have "sr_size r1 = length (segment_bytes ps)" "sr_last r1 = last_lsns (c, e) (map payload_lsns ps)"
      "sr_truncated r1 = 0"
    using * by (simp_all add: sr_size_accepts sr_last_accepts, simp add: scan_start_def)
  moreover have "sr_last (r1\<lparr>sr_truncated := n\<rparr>) = sr_last r1" for n
    by (simp add: sr_last_def)
  ultimately show ?thesis
    using assms r1 *
    by (intro exI [of _ ps] exI [of _ tail]) (auto simp: scanSegment_def split: option.splits)
qed

lemma scanSegment_valid:
  assumes "segment_ok (c, e) ps"
  shows "scanSegment (segment_bytes ps) repair c e =
    Inr (scan_accepts ps (scan_start c e), segment_bytes ps)"
  using scan_loop_frames [of "scan_start c e" ps "[]"] assms by (simp add: scanSegment_def)


text \<open>A crash keeps at least the synced frames: they survive, whatever bytes follow them.\<close>

lemma scanSegment_prefix:
  assumes "segment_ok (c, e) ps"
  shows "\<exists>more junk r. rest = segment_bytes more @ junk \<and> segment_ok (c, e) (ps @ more) \<and>
    scanSegment (segment_bytes ps @ rest) True c e = Inr (r, segment_bytes (ps @ more)) \<and>
    sr_last r = last_lsns (c, e) (map payload_lsns (ps @ more)) \<and> sr_truncated r = length junk"
proof -
  let ?r0 = "scan_accepts ps (scan_start c e)"
  obtain r1 inv where r1: "scan_loop rest ?r0 = (r1, inv)"
    by force
  then obtain more junk where *: "rest = segment_bytes more @ junk" "segment_ok (sr_last ?r0) more"
      "r1 = scan_accepts (ps @ more) (scan_start c e)" "inv = None \<longrightarrow> junk = []"
    using scan_loop_inv [OF r1] by (auto simp: scan_accepts_append)
  have ok: "segment_ok (c, e) (ps @ more)"
    using assms *(2) by (simp add: segment_ok_append sr_last_accepts)
  have "sr_size r1 = length (segment_bytes (ps @ more))" "sr_truncated r1 = 0"
      "sr_last r1 = last_lsns (c, e) (map payload_lsns (ps @ more))"
    unfolding *(3) sr_size_accepts sr_last_accepts by (simp_all, simp add: scan_start_def)
  moreover have "sr_last (r1\<lparr>sr_truncated := n\<rparr>) = sr_last r1" for n
    by (simp add: sr_last_def)
  moreover have "scan_loop (segment_bytes ps @ rest) (scan_start c e) = (r1, inv)"
    using assms r1 by (simp add: scan_loop_frames)
  ultimately show ?thesis
    using * ok
    by (intro exI [of _ more] exI [of _ junk]) (cases inv; auto simp: scanSegment_def)
qed

text \<open>How many whole frames the first \<open>k\<close> bytes hold.\<close>

fun whole_frames :: "nat \<Rightarrow> bytes list \<Rightarrow> bytes list" where
  "whole_frames k [] = []"
| "whole_frames k (p # ps) =
     (if length (frame p) \<le> k then p # whole_frames (k - length (frame p)) ps else [])"

lemma whole_frames_cut:
  "\<exists>j p. take k (segment_bytes ps) = segment_bytes (whole_frames k ps) @ take j (frame p) \<and>
     j < length (frame p) \<and> (p \<in> set ps \<or> j = 0)"
proof (induction ps arbitrary: k)
  case (Cons p ps)
  show ?case
  proof (cases "length (frame p) \<le> k")
    case True
    with Cons [of "k - length (frame p)"] show ?thesis by auto
  next
    case False
    then show ?thesis by (intro exI [of _ k] exI [of _ p]) simp
  qed
qed (auto intro!: exI [of _ 0] simp: length_frame frameHeaderSize_def)

lemma segment_ok_whole_frames: "segment_ok m ps \<Longrightarrow> segment_ok m (whole_frames k ps)"
proof -
  have "\<exists>qs. ps = whole_frames k ps @ qs"
    by (induction k ps rule: whole_frames.induct) auto
  then show "segment_ok m ps \<Longrightarrow> segment_ok m (whole_frames k ps)"
    using segment_ok_append by metis
qed

lemma scanSegment_torn:
  assumes "segment_ok (c, e) ps"
  shows "\<exists>r. scanSegment (take k (segment_bytes ps)) True c e = Inr (r, segment_bytes (whole_frames k ps)) \<and>
    sr_last r = last_lsns (c, e) (map payload_lsns (whole_frames k ps))"
proof -
  let ?ps = "whole_frames k ps"
  let ?r = "scan_accepts ?ps (scan_start c e)"
  obtain j p where cut: "take k (segment_bytes ps) = segment_bytes ?ps @ take j (frame p)"
      "j < length (frame p)" "p \<in> set ps \<or> j = 0"
    using whole_frames_cut by blast
  have ok: "segment_ok (c, e) ?ps"
    using assms by (rule segment_ok_whole_frames)
  have "j = 0 \<or> length p \<le> maxPayloadSize"
    using cut(3) assms by (auto simp: segment_ok_def list_all_iff payload_ok_def)
  then have "\<exists>inv. scan_loop (take j (frame p)) ?r = (?r, inv) \<and> (inv = None \<longrightarrow> j = 0)"
    using scan_loop_torn [of p j ?r] cut(2) by (cases "j = 0") auto
  then obtain inv where "scan_loop (take k (segment_bytes ps)) (scan_start c e) = (?r, inv)"
      "inv = None \<longrightarrow> j = 0"
    unfolding cut(1) using ok by (auto simp: scan_loop_frames)
  moreover have "sr_last (?r\<lparr>sr_truncated := n\<rparr>) = sr_last ?r" for n
    by (simp add: sr_last_def)
  moreover have "sr_last ?r = last_lsns (c, e) (map payload_lsns ?ps)" "sr_size ?r = length (segment_bytes ?ps)"
    by (simp_all add: sr_last_accepts sr_size_accepts)
  ultimately show ?thesis
    using cut(1) by (cases inv) (auto simp: scanSegment_def)
qed

end
