(* ===== verification/SegmentDir.thy ===== *)
theory SegmentDir
  imports Frames "HOL-Library.Product_Lexorder" "HOL-Library.AList" "HOL-Library.Multiset" "HOL-Library.Sublist"
begin

text \<open>
  The segment directory of \<^verbatim>\<open>internal/cdc/segment.go\<close>: file names, the directory listing, the
  catalog of finalized segments, and recovery (\<^verbatim>\<open>recoverDirectoryWithConfig\<close>).

  A directory is an association list from base names to files; a file is its bytes and how many
  of them an \<^verbatim>\<open>fsync\<close> has covered. Paths are base names. The parallel validation of the finalized
  segments is the sequential map it is equivalent to (the scans share no state), and progress
  reporting is left out.
\<close>

section \<open>Files\<close>

record SegFile =
  f_bytes :: bytes
  f_synced :: nat

type_synonym Disk = "(string \<times> SegFile) list"

definition file_content :: "Disk \<Rightarrow> string \<Rightarrow> bytes" where
  "file_content d path = (case map_of d path of None \<Rightarrow> [] | Some f \<Rightarrow> f_bytes f)"

section \<open>Segment names\<close>

definition hex_digit :: "nat \<Rightarrow> char" where
  "hex_digit n = char_of (if n < 10 then 48 + n else 87 + n)"

text \<open>\<^verbatim>\<open>%016x\<close> at \<open>k = 16\<close>.\<close>

fun hex_digits :: "nat \<Rightarrow> nat \<Rightarrow> string" where
  "hex_digits 0 n = []"
| "hex_digits (Suc k) n = hex_digits k (n div 16) @ [hex_digit (n mod 16)]"

definition hex_value :: "char \<Rightarrow> nat option" where
  "hex_value c = (let v = of_char c :: nat in
     if 48 \<le> v \<and> v \<le> 57 then Some (v - 48)
     else if 97 \<le> v \<and> v \<le> 102 then Some (v - 87)
     else if 65 \<le> v \<and> v \<le> 70 then Some (v - 55) else None)"

text \<open>\<^verbatim>\<open>strconv.ParseUint(s, 16, 64)\<close> on sixteen characters, where it cannot overflow.\<close>

fun parse_hex :: "nat \<Rightarrow> string \<Rightarrow> nat option" where
  "parse_hex acc [] = Some acc"
| "parse_hex acc (c # cs) = (case hex_value c of None \<Rightarrow> None | Some v \<Rightarrow> parse_hex (acc * 16 + v) cs)"

definition has_suffix :: "string \<Rightarrow> string \<Rightarrow> bool" where
  "has_suffix s sfx \<longleftrightarrow> length sfx \<le> length s \<and> drop (length s - length sfx) s = sfx"

definition trim_suffix :: "string \<Rightarrow> string \<Rightarrow> string" where
  "trim_suffix s sfx = (if has_suffix s sfx then take (length s - length sfx) s else s)"

definition parseSegmentName :: "string \<Rightarrow> (LSN \<times> bool) option" where
  "parseSegmentName name =
     (let partial = has_suffix name ''.seg.partial'';
          sfx = (if partial then ''.seg.partial'' else ''.seg'') in
      if \<not> has_suffix name sfx then None
      else let base = trim_suffix name sfx in
        if length base \<noteq> 16 then None
        else case parse_hex 0 base of None \<Rightarrow> None | Some v \<Rightarrow> Some (word_of_nat v, partial))"

definition segment_name :: "LSN \<Rightarrow> string" where
  "segment_name start = hex_digits 16 (unat start) @ ''.seg''"

definition partial_name :: "LSN \<Rightarrow> string" where
  "partial_name start = hex_digits 16 (unat start) @ ''.seg.partial''"

lemma length_hex_digits [simp]: "length (hex_digits k n) = k"
  by (induction k arbitrary: n) auto

lemma hex_value_digit [simp]: "n < 16 \<Longrightarrow> hex_value (hex_digit n) = Some n"
  by (auto simp: hex_value_def hex_digit_def Let_def)

lemma parse_hex_snoc:
  "parse_hex acc (cs @ [c]) = (case parse_hex acc cs of None \<Rightarrow> None
     | Some v \<Rightarrow> (case hex_value c of None \<Rightarrow> None | Some h \<Rightarrow> Some (v * 16 + h)))"
  by (induction cs arbitrary: acc) (auto split: option.splits)

lemma parse_hex_digits: "parse_hex 0 (hex_digits k n) = Some (n mod 16 ^ k)"
  by (induction k arbitrary: n) (auto simp: parse_hex_snoc mod_mult2_eq mult.commute)

lemma has_suffix_append [simp]: "has_suffix (s @ sfx) sfx"
  by (simp add: has_suffix_def)

lemma trim_suffix_append [simp]: "trim_suffix (s @ sfx) sfx = s"
  by (simp add: trim_suffix_def)

lemma has_suffix_last: "has_suffix s sfx \<Longrightarrow> sfx \<noteq> [] \<Longrightarrow> last s = last sfx"
  unfolding has_suffix_def by (metis append_take_drop_id last_appendR)

lemma parse_partial_name: "parseSegmentName (partial_name start) = Some (start, True)"
proof -
  have "unat start < 16 ^ 16" using unat_u64_less [of start] by simp
  then show ?thesis by (simp add: parseSegmentName_def partial_name_def parse_hex_digits)
qed

lemma parse_segment_name: "parseSegmentName (segment_name start) = Some (start, False)"
proof -
  have "unat start < 16 ^ 16" using unat_u64_less [of start] by simp
  moreover have "\<not> has_suffix (hex_digits 16 n @ ''.seg'') ''.seg.partial''" for n
    by (auto dest: has_suffix_last)
  ultimately show ?thesis by (simp add: parseSegmentName_def segment_name_def parse_hex_digits)
qed

lemma trim_partial_name: "trim_suffix (partial_name start) ''.partial'' = segment_name start"
  using trim_suffix_append [of "segment_name start" "''.partial''"]
  by (simp add: partial_name_def segment_name_def)

section \<open>The listing\<close>

record segmentFile =
  sg_path :: string
  sg_start :: LSN
  sg_partial :: bool

text \<open>
  \<^verbatim>\<open>sort.Slice\<close> orders by the start and puts a finalized segment before a partial one. The
  directories the code makes have no two files of one rank.
\<close>

definition segment_rank :: "segmentFile \<Rightarrow> LSN \<times> bool" where
  "segment_rank s = (sg_start s, sg_partial s)"

definition segment_of :: "string \<times> SegFile \<Rightarrow> segmentFile option" where
  "segment_of e = map_option (\<lambda>(start, partial).
     \<lparr>sg_path = fst e, sg_start = start, sg_partial = partial\<rparr>) (parseSegmentName (fst e))"

definition listSegments :: "Disk \<Rightarrow> segmentFile list" where
  "listSegments d = sort_key segment_rank (List.map_filter segment_of d)"

section \<open>The catalog of finalized segments\<close>

record SegmentRange =
  sr_Path :: string
  sr_StartCommit :: LSN
  sr_LastCommit :: LSN
  sr_LastEnd :: LSN
  sr_ValidatedSize :: nat

type_synonym SegmentCatalog = "SegmentRange list"

definition addFinalized :: "SegmentRange \<Rightarrow> SegmentCatalog \<Rightarrow> SegmentCatalog res" where
  "addFinalized segment c =
     (if c \<noteq> [] \<and> (sr_StartCommit segment \<le> sr_StartCommit (last c) \<or>
          sr_LastCommit segment \<le> sr_LastCommit (last c) \<or> sr_LastEnd segment \<le> sr_LastEnd (last c))
      then Inl (Err ''cdc: finalized segment does not follow'') else Inr (c @ [segment]))"

definition removeFinalized :: "string list \<Rightarrow> SegmentCatalog \<Rightarrow> SegmentCatalog" where
  "removeFinalized paths c = filter (\<lambda>s. \<not> List.member paths (sr_Path s)) c"

text \<open>\<open>replaceFinalized\<close> is the loop; \<open>previous\<close> is the entry before the position.\<close>

fun replaceFinalized :: "SegmentRange \<Rightarrow> SegmentRange option \<Rightarrow> SegmentCatalog \<Rightarrow> SegmentCatalog res" where
  "replaceFinalized r previous [] = Inl (Err ''cdc: refreshed segment is absent from catalog'')"
| "replaceFinalized r previous (s # c) =
     (if sr_Path s \<noteq> sr_Path r
      then rbind (replaceFinalized r (Some s) c) (\<lambda>c. Inr (s # c))
      else if sr_StartCommit r \<noteq> sr_StartCommit s
      then Inl (Err ''cdc: cataloged segment changed start LSN'')
      else if (case previous of None \<Rightarrow> False
             | Some p \<Rightarrow> sr_LastCommit r \<le> sr_LastCommit p \<or> sr_LastEnd r \<le> sr_LastEnd p)
      then Inl (Err ''cdc: refreshed segment no longer follows'')
      else if (case c of [] \<Rightarrow> False
             | n # _ \<Rightarrow> sr_LastCommit r \<ge> sr_LastCommit n \<or> sr_LastEnd r \<ge> sr_LastEnd n)
      then Inl (Err ''cdc: refreshed segment no longer precedes'')
      else Inr (r # c))"

text \<open>The order the operations keep: bounds strictly increase along the catalog.\<close>

definition range_less :: "SegmentRange \<Rightarrow> SegmentRange \<Rightarrow> bool" where
  "range_less s t \<longleftrightarrow> sr_StartCommit s < sr_StartCommit t \<and> sr_LastCommit s < sr_LastCommit t \<and>
     sr_LastEnd s < sr_LastEnd t"

definition catalog_ok :: "SegmentCatalog \<Rightarrow> bool" where
  "catalog_ok c \<longleftrightarrow> sorted_wrt range_less c"

lemma range_less_trans: "range_less r s \<Longrightarrow> range_less s t \<Longrightarrow> range_less r t"
  by (auto simp: range_less_def)

lemma catalog_ok_snoc: "catalog_ok (c @ [s]) \<longleftrightarrow> catalog_ok c \<and> (c \<noteq> [] \<longrightarrow> range_less (last c) s)"
  by (cases c rule: rev_cases)
    (auto simp: catalog_ok_def sorted_wrt_append dest: range_less_trans)

lemma addFinalized_ok:
  assumes "catalog_ok c"
  shows "addFinalized s c = Inr c' \<longleftrightarrow> c' = c @ [s] \<and> catalog_ok (c @ [s])"
  using assms by (auto simp: addFinalized_def catalog_ok_snoc range_less_def not_le)

lemma removeFinalized_ok: "catalog_ok c \<Longrightarrow> catalog_ok (removeFinalized paths c)"
  by (simp add: catalog_ok_def removeFinalized_def sorted_wrt_filter)

lemma replaceFinalized_ok:
  assumes "replaceFinalized r previous c = Inr c'" "catalog_ok c"
    and "case previous of None \<Rightarrow> True | Some p \<Rightarrow> list_all (range_less p) c"
  shows "catalog_ok c' \<and> map sr_Path c' = map sr_Path c \<and> map sr_StartCommit c' = map sr_StartCommit c \<and>
    (case previous of None \<Rightarrow> True | Some p \<Rightarrow> list_all (range_less p) c')"
  using assms
proof (induction r previous c arbitrary: c' rule: replaceFinalized.induct)
  case (2 r previous s c)
  show ?case
  proof (cases "sr_Path s = sr_Path r")
    case False
    with 2(2) obtain c1 where c1: "replaceFinalized r (Some s) c = Inr c1" "c' = s # c1"
      by (auto simp: res_simps)
    have "catalog_ok c1 \<and> map sr_Path c1 = map sr_Path c \<and> map sr_StartCommit c1 = map sr_StartCommit c \<and>
        list_all (range_less s) c1"
      using 2(1) [OF False c1(1)] 2(3) by (auto simp: catalog_ok_def list_all_iff)
    with c1 2(4) show ?thesis
      by (auto simp: catalog_ok_def list_all_iff dest: range_less_trans split: option.splits)
  next
    case True
    with 2(2) have c': "c' = r # c" and start: "sr_StartCommit r = sr_StartCommit s"
      and follows: "\<And>p. previous = Some p \<Longrightarrow> sr_LastCommit p < sr_LastCommit r \<and> sr_LastEnd p < sr_LastEnd r"
      and precedes: "\<And>n c1. c = n # c1 \<Longrightarrow> sr_LastCommit r < sr_LastCommit n \<and> sr_LastEnd r < sr_LastEnd n"
      by (auto simp: not_le res_simps split: if_splits option.splits list.splits)
    have "list_all (range_less r) c"
    proof (cases c)
      case (Cons n c1)
      with precedes 2(3) start have "range_less r n" by (auto simp: range_less_def catalog_ok_def)
      with Cons 2(3) show ?thesis
        by (auto simp: catalog_ok_def list_all_iff dest: range_less_trans)
    qed simp
    with c' True start 2(3,4) follows show ?thesis
      by (auto simp: catalog_ok_def list_all_iff range_less_def split: option.splits)
  qed
qed simp


section \<open>Recovery\<close>

record Recovery =
  rc_LastCommitLSN :: LSN
  rc_DurableLSN :: LSN
  rc_PartialPath :: string
  rc_TruncatedBytes :: nat

fun check_tail :: "bool \<Rightarrow> segmentFile list \<Rightarrow> unit res" where
  "check_tail seen [] = Inr ()"
| "check_tail seen (s # ss) =
     (if \<not> sg_partial s then
        if seen then Inl (Err ''cdc: finalized segment follows partial tail'') else check_tail seen ss
      else if seen then Inl (Err ''cdc: multiple partial segments'') else check_tail True ss)"

text \<open>Each finalized segment is scanned on its own; the order across segments is checked after.\<close>

fun recover_finalized ::
  "Disk \<Rightarrow> segmentFile list \<Rightarrow> LSN \<times> LSN \<Rightarrow> ((LSN \<times> LSN) \<times> SegmentRange list) res" where
  "recover_finalized d [] m = Inr (m, [])"
| "recover_finalized d (s # ss) m =
     rbind (scanSegment (file_content d (sg_path s)) False 0 0) (\<lambda>(scan, _).
       if sr_frames scan \<noteq> 0 \<and> sr_firstCommitLSN scan \<le> fst m
       then Inl (Err ''cdc: corrupt finalized segment: non-monotonic commit LSN'')
       else if sr_frames scan \<noteq> 0 \<and> sr_firstEndLSN scan \<le> snd m
       then Inl (Err ''cdc: corrupt finalized segment: non-monotonic end LSN'')
       else let m = (if sr_frames scan \<noteq> 0 then (sr_lastCommitLSN scan, sr_lastEndLSN scan) else m) in
         rbind (recover_finalized d ss m) (\<lambda>(m', ranges).
           Inr (m', \<lparr>sr_Path = sg_path s, sr_StartCommit = sg_start s, sr_LastCommit = fst m,
             sr_LastEnd = snd m, sr_ValidatedSize = sr_size scan\<rparr> # ranges)))"

definition recoverDirectory :: "Disk \<Rightarrow> (Recovery \<times> SegmentRange list \<times> Disk) res" where
  "recoverDirectory d = (let segments = listSegments d in
     rbind (check_tail False segments) (\<lambda>_.
     rbind (recover_finalized d (takeWhile (\<lambda>s. \<not> sg_partial s) segments) (0, 0)) (\<lambda>(m, finalized).
     case dropWhile (\<lambda>s. \<not> sg_partial s) segments of
       [] \<Rightarrow> Inr (\<lparr>rc_LastCommitLSN = fst m, rc_DurableLSN = snd m, rc_PartialPath = [],
               rc_TruncatedBytes = 0\<rparr>, finalized, d)
     | partial # _ \<Rightarrow>
         rbind (scanSegment (file_content d (sg_path partial)) True (fst m) (snd m)) (\<lambda>(scan, content).
         Inr (\<lparr>rc_LastCommitLSN = sr_lastCommitLSN scan, rc_DurableLSN = sr_lastEndLSN scan,
                rc_PartialPath = sg_path partial, rc_TruncatedBytes = sr_truncated scan\<rparr>,
              finalized,
              AList.update (sg_path partial) \<lparr>f_bytes = content, f_synced = length content\<rparr> d)))))"

section \<open>Recovery of a directory of valid segments\<close>

text \<open>A finalized segment as the specification sees it: its start LSN and its payloads.\<close>

type_synonym Segment = "LSN \<times> bytes list"

definition finalized_file :: "Segment \<Rightarrow> segmentFile" where
  "finalized_file s = \<lparr>sg_path = segment_name (fst s), sg_start = fst s, sg_partial = False\<rparr>"

definition partial_file :: "LSN \<Rightarrow> segmentFile" where
  "partial_file start = \<lparr>sg_path = partial_name start, sg_start = start, sg_partial = True\<rparr>"

lemma finalized_file_simps [simp]:
  "sg_path (finalized_file s) = segment_name (fst s)" "sg_start (finalized_file s) = fst s"
  "\<not> sg_partial (finalized_file s)"
  by (simp_all add: finalized_file_def)

definition seg_payloads :: "Segment list \<Rightarrow> bytes list" where
  "seg_payloads segs = concat (map snd segs)"

fun ranges_from :: "LSN \<times> LSN \<Rightarrow> Segment list \<Rightarrow> SegmentRange list" where
  "ranges_from m [] = []"
| "ranges_from m (s # segs) = (let m' = last_lsns m (map payload_lsns (snd s)) in
     \<lparr>sr_Path = segment_name (fst s), sr_StartCommit = fst s, sr_LastCommit = fst m',
       sr_LastEnd = snd m', sr_ValidatedSize = length (segment_bytes (snd s))\<rparr> # ranges_from m' segs)"

text \<open>The directory holds these finalized segments and, at most, one tail with this content.\<close>

definition dir_holds :: "Disk \<Rightarrow> Segment list \<Rightarrow> (LSN \<times> bytes) option \<Rightarrow> bool" where
  "dir_holds d segs tail \<longleftrightarrow>
     listSegments d = map finalized_file segs @ (case tail of None \<Rightarrow> [] | Some t \<Rightarrow> [partial_file (fst t)]) \<and>
     (\<forall>s\<in>set segs. file_content d (segment_name (fst s)) = segment_bytes (snd s)) \<and>
     (case tail of None \<Rightarrow> True | Some t \<Rightarrow> file_content d (partial_name (fst t)) = snd t)"

lemma chain_weaken: "chain c e ms \<Longrightarrow> c' \<le> c \<Longrightarrow> e' \<le> e \<Longrightarrow> chain c' e' ms"
  by (cases ms) (auto split: prod.splits)

lemma segment_ok_start: "segment_ok m ps \<Longrightarrow> segment_ok (0, 0) ps"
  by (auto simp: segment_ok_def intro: chain_weaken)

lemma scan_accepts_first:
  "sr_frames r \<noteq> 0 \<Longrightarrow> sr_firstCommitLSN (scan_accepts ps r) = sr_firstCommitLSN r \<and>
     sr_firstEndLSN (scan_accepts ps r) = sr_firstEndLSN r"
  by (induction ps arbitrary: r) (auto simp: scan_accept_def)

lemma recover_finalized_valid:
  assumes "\<forall>s\<in>set segs. file_content d (segment_name (fst s)) = segment_bytes (snd s)"
    and "segment_ok m (seg_payloads segs)"
  shows "recover_finalized d (map finalized_file segs) m =
    Inr (last_lsns m (map payload_lsns (seg_payloads segs)), ranges_from m segs)"
  using assms
proof (induction segs arbitrary: m)
  case (Cons s segs)
  obtain start ps where s: "s = (start, ps)" by force
  let ?r = "scan_accepts ps (scan_start 0 0)"
  let ?m = "last_lsns m (map payload_lsns ps)"
  have ok: "segment_ok m ps" "segment_ok ?m (seg_payloads segs)"
    using Cons.prems(2) s by (simp_all add: seg_payloads_def segment_ok_append)
  then have scan: "scanSegment (segment_bytes ps) False 0 0 = Inr (?r, segment_bytes ps)"
    by (intro scanSegment_valid segment_ok_start)
  have IH: "recover_finalized d (map finalized_file segs) ?m =
      Inr (last_lsns ?m (map payload_lsns (seg_payloads segs)), ranges_from ?m segs)"
    using Cons.IH [OF _ ok(2)] Cons.prems(1) by simp
  have size: "sr_size ?r = length (segment_bytes ps)" "sr_frames ?r = length ps"
    by (simp_all add: sr_size_accepts sr_frames_accepts)
  have "file_content d (segment_name start) = segment_bytes ps"
    using Cons.prems(1) s by simp
  moreover have "(sr_lastCommitLSN ?r, sr_lastEndLSN ?r) = ?m" if "ps \<noteq> []"
    using that sr_last_accepts [of ps "scan_start 0 0"] by (simp add: sr_last_def last_lsns_def)
  moreover have "fst m < sr_firstCommitLSN ?r \<and> snd m < sr_firstEndLSN ?r" if "ps \<noteq> []"
    using that ok(1)
    by (cases ps) (auto simp: scan_accepts_first scan_accept_def segment_ok_def split: prod.splits,
      (cases "payload_lsns (hd ps)"; simp)+)
  ultimately show ?case
    using s scan IH size
    by (cases "ps = []") (simp_all add: seg_payloads_def Let_def not_le)
qed (simp add: seg_payloads_def)

lemma check_tail_finalized: "check_tail False (map finalized_file segs @ ss) = check_tail False ss"
  by (induction segs) (auto simp: finalized_file_def)

lemma check_tail_partial: "check_tail False [partial_file start] = Inr ()"
  by (simp add: partial_file_def)

lemma split_finalized:
  "takeWhile (\<lambda>s. \<not> sg_partial s) (map finalized_file segs @ [partial_file start]) = map finalized_file segs"
  "dropWhile (\<lambda>s. \<not> sg_partial s) (map finalized_file segs @ [partial_file start]) = [partial_file start]"
  "takeWhile (\<lambda>s. \<not> sg_partial s) (map finalized_file segs) = map finalized_file segs"
  "dropWhile (\<lambda>s. \<not> sg_partial s) (map finalized_file segs) = []"
  by (induction segs) (auto simp: finalized_file_def partial_file_def)

lemma recoverDirectory_closed:
  assumes "dir_holds d segs None" "segment_ok (0, 0) (seg_payloads segs)"
  shows "recoverDirectory d = Inr
    (\<lparr>rc_LastCommitLSN = fst (last_lsns (0, 0) (map payload_lsns (seg_payloads segs))),
      rc_DurableLSN = snd (last_lsns (0, 0) (map payload_lsns (seg_payloads segs))),
      rc_PartialPath = [], rc_TruncatedBytes = 0\<rparr>, ranges_from (0, 0) segs, d)"
  using assms recover_finalized_valid [of segs d "(0, 0)"] check_tail_finalized [of segs "[]"]
  by (simp add: recoverDirectory_def dir_holds_def split_finalized)

lemma recoverDirectory_tail:
  assumes "dir_holds d segs (Some (start, content))" "segment_ok (0, 0) (seg_payloads segs)"
    and "scanSegment content True (fst m) (snd m) = Inr (scan, content')"
    and "m = last_lsns (0, 0) (map payload_lsns (seg_payloads segs))"
  shows "recoverDirectory d = Inr
    (\<lparr>rc_LastCommitLSN = sr_lastCommitLSN scan, rc_DurableLSN = sr_lastEndLSN scan,
      rc_PartialPath = partial_name start, rc_TruncatedBytes = sr_truncated scan\<rparr>,
     ranges_from (0, 0) segs,
     AList.update (partial_name start) \<lparr>f_bytes = content', f_synced = length content'\<rparr> d)"
  using assms recover_finalized_valid [of segs d "(0, 0)"]
  by (simp add: recoverDirectory_def dir_holds_def split_finalized check_tail_finalized
      check_tail_partial, simp add: partial_file_def)

end
