(* ===== verification/CodecStream.thy ===== *)
theory CodecStream
  imports CodecDecode
begin

text \<open>
  The streaming side of the payload format: the writing encoder (\<^verbatim>\<open>writeChangeTo\<close>,
  \<^verbatim>\<open>WriteTransaction\<close>) of \<^verbatim>\<open>codec.go\<close>, the reader-based decoder of
  \<^verbatim>\<open>codec_stream.go\<close>, and the temporary files of \<^verbatim>\<open>spill.go\<close> that hold the encoded
  changes of a large transaction.

  An \<^verbatim>\<open>io.Reader\<close> is the bytes it still delivers and, when it is a
  \<^verbatim>\<open>remainingEncodedReader\<close>, what its \<^verbatim>\<open>Remaining\<close> reports. An \<^verbatim>\<open>io.Writer\<close> is the bytes
  written so far; a write that fails part-way is modelled where a file is repaired after it
  (theory \<open>Segment\<close>).
\<close>

section \<open>The writing encoder\<close>

fun write_datums :: "bytes \<Rightarrow> TupleDatum list \<Rightarrow> bytes res" where
  "write_datums w [] = Inr w"
| "write_datums w (d # ds) =
     (let w = w @ [dat_Kind d] in
      if dat_Kind d = DatumNull \<or> dat_Kind d = DatumUnchangedToast then write_datums w ds
      else if dat_Kind d = DatumText \<or> dat_Kind d = DatumBinary then
        write_datums ((w @ le32 (u32_of_len (length (dat_bytes d)))) @ dat_bytes d) ds
      else Inl (Err ''datum: invalid kind''))"

fun writeTupleTo :: "bytes \<Rightarrow> Tuple option \<Rightarrow> bytes res" where
  "writeTupleTo w None = Inr (w @ [0])"
| "writeTupleTo w (Some t) = write_datums (w @ [1] @ le32 (u32_of_len (length t))) t"

definition writeChangeTo :: "bytes \<Rightarrow> Change \<Rightarrow> (bytes \<times> nat) res" where
  "writeChangeTo w c = rbind (encodedChangeSize c) (\<lambda>size.
     let w = w @ le32 (ch_RelationOID c) @ [ch_Kind c];
         w = (if ch_Kind c = ChangeTruncate then w @ [truncate_options c] else w) in
     rbind (rwrap ''old tuple'' (writeTupleTo w (ch_Old c))) (\<lambda>w.
     rbind (rwrap ''new tuple'' (writeTupleTo w (ch_New c))) (\<lambda>w. Inr (w, size))))"

fun write_changes :: "bytes \<Rightarrow> Change list \<Rightarrow> bytes res" where
  "write_changes w [] = Inr w"
| "write_changes w (c # cs) =
     rbind (rwrap ''cdc: change'' (writeChangeTo w c)) (\<lambda>(w, _). write_changes w cs)"

text \<open>\<^verbatim>\<open>spill.reader\<close>: a section reader over the first \<^verbatim>\<open>changeBytes\<close> bytes of the file.\<close>

definition spill_reader :: "TransactionSpill \<Rightarrow> (bytes \<times> nat \<times> u32) res" where
  "spill_reader s = (case sp_file s of
     None \<Rightarrow> Inl (Err ''cdc: read closed transaction spill'')
   | Some file \<Rightarrow> Inr (take (sp_changeBytes s) file, sp_changeBytes s, sp_changeCount s))"

text \<open>\<^verbatim>\<open>io.CopyN\<close>: exactly \<open>n\<close> bytes, or \<^verbatim>\<open>io.EOF\<close> when the reader ends before.\<close>

definition io_CopyN :: "bytes \<Rightarrow> bytes \<Rightarrow> nat \<Rightarrow> bytes res" where
  "io_CopyN w src n = (if length src < n then Inl IoEOF else Inr (w @ take n src))"

definition WriteTransaction :: "bytes \<Rightarrow> Transaction \<Rightarrow> (bytes \<times> nat) res" where
  "WriteTransaction w tx = rbind (transactionPayloadSize tx) (\<lambda>size.
     if size > maxPayloadSize then Inl (Err ''cdc: payload exceeds limit'')
     else rbind (appendTransactionPrefix [] tx (ChangeCount tx)) (\<lambda>prefix.
       let w = w @ prefix in
       case tx_Spill tx of
         Some spill \<Rightarrow> rbind (spill_reader spill) (\<lambda>(src, changeBytes, _).
           rbind (rwrap ''cdc: stream transaction spill'' (io_CopyN w src changeBytes)) (\<lambda>w.
           Inr (w, size)))
       | None \<Rightarrow> rbind (write_changes w (tx_Changes tx)) (\<lambda>w. Inr (w, size))))"

section \<open>Readers\<close>

record Reader =
  rd_data :: bytes
  rd_remaining :: "nat option"

definition rd_advance :: "nat \<Rightarrow> Reader \<Rightarrow> Reader" where
  "rd_advance n r = \<lparr>rd_data = drop n (rd_data r),
     rd_remaining = map_option (\<lambda>m. m - n) (rd_remaining r)\<rparr>"

definition rd_available :: "Reader \<Rightarrow> nat" where
  "rd_available r = (case rd_remaining r of
     None \<Rightarrow> length (rd_data r) | Some m \<Rightarrow> min m (length (rd_data r)))"

text \<open>\<^verbatim>\<open>io.ReadFull\<close>: \<^verbatim>\<open>io.EOF\<close> only when no byte was read.\<close>

definition io_ReadFull :: "nat \<Rightarrow> Reader \<Rightarrow> (bytes \<times> Reader) res" where
  "io_ReadFull n r =
     (if n \<le> rd_available r then Inr (take n (rd_data r), rd_advance n r)
      else if rd_available r = 0 then Inl IoEOF else Inl IoUnexpectedEOF)"

type_synonym 'a rdecoder = "Reader \<Rightarrow> ('a \<times> Reader) res"

definition rdbind :: "'a rdecoder \<Rightarrow> ('a \<Rightarrow> 'b rdecoder) \<Rightarrow> 'b rdecoder" where
  "rdbind p f r = rbind (p r) (\<lambda>(x, r). f x r)"

definition rdret :: "'a \<Rightarrow> 'a rdecoder" where
  "rdret x r = Inr (x, r)"

definition rdfail :: "string \<Rightarrow> 'a rdecoder" where
  "rdfail msg r = Inl (Err msg)"

definition rdwrap :: "string \<Rightarrow> 'a rdecoder \<Rightarrow> 'a rdecoder" where
  "rdwrap msg p r = rwrap msg (p r)"

definition readN :: "nat \<Rightarrow> bytes rdecoder" where
  "readN n r = (case rd_remaining r of
     Some m \<Rightarrow> if n > m then Inl IoUnexpectedEOF else io_ReadFull n r
   | None \<Rightarrow> io_ReadFull n r)"

definition readByte :: "byte rdecoder" where
  "readByte = rdbind (io_ReadFull 1) (\<lambda>v. rdret (hd v))"

definition readUint32 :: "u32 rdecoder" where
  "readUint32 = rdbind (io_ReadFull 4) (\<lambda>v. rdret (le32_of v))"

definition readUint64 :: "u64 rdecoder" where
  "readUint64 = rdbind (io_ReadFull 8) (\<lambda>v. rdret (le64_of v))"

definition readLengthBytes :: "bytes rdecoder" where
  "readLengthBytes = rdbind readUint32 (\<lambda>n. readN (unat n))"

definition validateEncodedCount :: "nat \<Rightarrow> nat \<Rightarrow> nat \<Rightarrow> unit rdecoder" where
  "validateEncodedCount count minimumItemBytes reserve r = (case rd_remaining r of
     None \<Rightarrow> Inr ((), r)
   | Some remaining \<Rightarrow>
       if remaining < reserve then Inl IoUnexpectedEOF
       else if minimumItemBytes \<noteq> 0 \<and> count > (remaining - reserve) div minimumItemBytes
       then Inl (Err ''cdc: encoded count exceeds remaining bytes'') else Inr ((), r))"

definition readCount :: "nat \<Rightarrow> nat \<Rightarrow> nat rdecoder" where
  "readCount minimumItemBytes reserve = rdbind readUint32 (\<lambda>count.
     rdbind (validateEncodedCount (unat count) minimumItemBytes reserve) (\<lambda>_. rdret (unat count)))"

fun rd_each :: "nat \<Rightarrow> 'a rdecoder \<Rightarrow> 'a list rdecoder" where
  "rd_each 0 p = rdret []"
| "rd_each (Suc n) p = rdbind p (\<lambda>x. rdbind (rd_each n p) (\<lambda>xs. rdret (x # xs)))"

section \<open>The reader-based decoder\<close>

definition decodeDatumReader :: "TupleDatum rdecoder" where
  "decodeDatumReader = rdbind readByte (\<lambda>kind.
     if kind = DatumNull \<or> kind = DatumUnchangedToast then rdret \<lparr>dat_Kind = kind, dat_Data = None\<rparr>
     else if kind = DatumText \<or> kind = DatumBinary then
       rdbind readLengthBytes (\<lambda>value. rdret \<lparr>dat_Kind = kind, dat_Data = Some value\<rparr>)
     else rdfail ''datum: invalid kind'')"

definition decodeTupleReader :: "Tuple option rdecoder" where
  "decodeTupleReader = rdbind readByte (\<lambda>present.
     if present = 0 then rdret None
     else if present \<noteq> 1 then rdfail ''invalid tuple presence''
     else rdbind (readCount 1 0) (\<lambda>count. rdbind (rd_each count decodeDatumReader) (\<lambda>t. rdret (Some t))))"

definition decodeColumnReader :: "Column rdecoder" where
  "decodeColumnReader = rdbind readUint32 (\<lambda>type. rdbind readByte (\<lambda>flags. rdbind readLengthBytes (\<lambda>value.
     rdret \<lparr>col_Name = string_of_bytes value, col_Type = type, col_Flags = flags\<rparr>)))"

definition decodeRelationReader :: "Relation rdecoder" where
  "decodeRelationReader = rdbind readUint32 (\<lambda>oid. rdbind readByte (\<lambda>identity.
     rdbind readLengthBytes (\<lambda>namespace. rdbind readLengthBytes (\<lambda>name.
     rdbind (readCount 9 0) (\<lambda>count. rdbind (rd_each count decodeColumnReader) (\<lambda>columns.
     rdret \<lparr>rel_OID = oid, rel_Namespace = string_of_bytes namespace, rel_Name = string_of_bytes name,
       rel_ReplicaIdentity = identity, rel_Columns = columns\<rparr>))))))"

definition decodeOptionsReader :: "byte \<Rightarrow> byte \<Rightarrow> (bool \<times> bool) rdecoder" where
  "decodeOptionsReader version kind =
     (if version \<ge> 2 \<and> kind = ChangeTruncate then rdbind readByte (\<lambda>options.
        if options AND NOT 3 \<noteq> 0 then rdfail ''invalid truncate options''
        else rdret (options AND 1 \<noteq> 0, options AND 2 \<noteq> 0))
      else rdret (False, False))"

definition decodeChangeReader :: "byte \<Rightarrow> Change rdecoder" where
  "decodeChangeReader version = rdbind readUint32 (\<lambda>oid. rdbind readByte (\<lambda>kind.
     if \<not> valid_kind kind then rdfail ''invalid kind''
     else rdbind (decodeOptionsReader version kind) (\<lambda>(cascade, restart).
       rdbind (rdwrap ''old tuple'' decodeTupleReader) (\<lambda>old.
       rdbind (rdwrap ''new tuple'' decodeTupleReader) (\<lambda>new.
       rdret \<lparr>ch_RelationOID = oid, ch_Kind = kind, ch_Old = old, ch_New = new,
         ch_TruncateCascade = cascade, ch_TruncateRestartIdentity = restart\<rparr>)))))"

record transactionPrefix =
  pf_transaction :: Transaction
  pf_version :: byte
  pf_changes :: u32

definition readMagic :: "unit rdecoder" where
  "readMagic r = (case readN 4 r of
     Inr (magic, r) \<Rightarrow> if magic = payloadMagic then Inr ((), r)
       else Inl (Err ''cdc: invalid payload magic'')
   | Inl e \<Rightarrow> Inl (Err ''cdc: invalid payload magic''))"

definition readNanos :: "u32 rdecoder" where
  "readNanos r = (case readUint32 r of
     Inr (nanos, r) \<Rightarrow> if unat nanos \<ge> 1000000000 then Inl (Err ''cdc: invalid commit timestamp'')
       else Inr (nanos, r)
   | Inl e \<Rightarrow> Inl (Err ''cdc: invalid commit timestamp''))"

definition decodeTransactionPrefix :: "transactionPrefix rdecoder" where
  "decodeTransactionPrefix = rdbind readMagic (\<lambda>_. rdbind readByte (\<lambda>version.
     if version \<noteq> 1 \<and> version \<noteq> payloadVersion then rdfail ''cdc: unsupported payload version''
     else rdbind readUint64 (\<lambda>commit. rdbind readUint64 (\<lambda>end. rdbind readUint64 (\<lambda>seconds.
       rdbind readNanos (\<lambda>nanos. rdbind (readCount 17 4) (\<lambda>relationCount.
       rdbind (rd_each relationCount (rdwrap ''cdc: relation'' decodeRelationReader)) (\<lambda>relations.
       rdbind (readCount 7 0) (\<lambda>changes.
       rdret \<lparr>pf_transaction = \<lparr>tx_CommitLSN = commit, tx_EndLSN = end,
           tx_CommitTime = \<lparr>t_Unix = seconds, t_Nanosecond = nanos\<rparr>,
           tx_Relations = relations, tx_Changes = [], tx_Spill = None\<rparr>,
         pf_version = version, pf_changes = u32_of_len changes\<rparr>)))))))))"

section \<open>Spills\<close>

definition newTransactionSpill :: TransactionSpill where
  "newTransactionSpill = \<lparr>sp_file = Some [], sp_changeCount = 0, sp_changeBytes = 0,
     sp_version = payloadVersion\<rparr>"

text \<open>The limit check subtracts in \<^verbatim>\<open>uint64\<close>, where it wraps.\<close>

definition spill_over_limit :: "nat \<Rightarrow> nat \<Rightarrow> bool" where
  "spill_over_limit changeBytes changeSize \<longleftrightarrow>
     (word_of_nat changeBytes :: u64) > word_of_nat max_u32 - word_of_nat changeSize"

definition spill_appendChange :: "TransactionSpill \<Rightarrow> Change \<Rightarrow> TransactionSpill res" where
  "spill_appendChange s c = (case sp_file s of
     None \<Rightarrow> Inl (Err ''cdc: append to closed transaction spill'')
   | Some file \<Rightarrow> rbind (encodedChangeSize c) (\<lambda>changeSize.
       if spill_over_limit (sp_changeBytes s) changeSize
       then Inl (Err ''cdc: spilled changes exceed uint32 payload limit'')
       else rbind (rwrap ''cdc: write transaction spill'' (writeChangeTo file c)) (\<lambda>(file, written).
         Inr (s\<lparr>sp_file := Some file, sp_changeBytes := sp_changeBytes s + written,
           sp_changeCount := sp_changeCount s + 1\<rparr>))))"

definition spill_close :: "TransactionSpill \<Rightarrow> TransactionSpill" where
  "spill_close s = s\<lparr>sp_file := None\<rparr>"

text \<open>
  \<^verbatim>\<open>forEachChange\<close>: the limited reader is not a \<^verbatim>\<open>remainingEncodedReader\<close>, so the count
  checks are off. The model returns the changes visited.
\<close>

definition spill_forEachChange :: "TransactionSpill \<Rightarrow> Change list res" where
  "spill_forEachChange s = rbind (spill_reader s) (\<lambda>(src, changeBytes, changeCount).
     rbind (rd_each (unat changeCount)
              (rdwrap ''cdc: decode spilled change'' (decodeChangeReader (sp_version s)))
              \<lparr>rd_data = take changeBytes src, rd_remaining = None\<rparr>) (\<lambda>(changes, r).
     if changeBytes - (length (take changeBytes src) - length (rd_data r)) \<noteq> 0
     then Inl (Err ''cdc: spilled changes have trailing bytes'') else Inr changes))"

definition materializeChanges :: "Transaction \<Rightarrow> Transaction res" where
  "materializeChanges tx = (case tx_Spill tx of
     None \<Rightarrow> Inr tx
   | Some spill \<Rightarrow> rbind (spill_forEachChange spill) (\<lambda>changes.
       Inr ((CleanupSpill tx)\<lparr>tx_Changes := changes\<rparr>)))"

section \<open>The writing encoder against the format\<close>

lemma write_datums_wire:
  "list_all ok_datum ds \<Longrightarrow> write_datums w ds = Inr (w @ concat (map wire_datum ds))"
  by (induction ds arbitrary: w)
    (auto simp: ok_datum_def wire_datum_def wire_bytes_def Let_def split: if_splits)

lemma writeTupleTo_wire: "ok_tuple t \<Longrightarrow> writeTupleTo w t = Inr (w @ wire_tuple t)"
  by (cases t) (auto simp: write_datums_wire wire_list_def)

lemma writeChangeTo_wire:
  "writeChangeTo w c = Inr (out, n) \<longleftrightarrow>
     ok_change c \<and> out = w @ wire_change payloadVersion c \<and> n = length (wire_change payloadVersion c)"
proof -
  have "ok_change c \<Longrightarrow>
    writeChangeTo w c = Inr (w @ wire_change payloadVersion c, length (wire_change payloadVersion c))"
    using change_enc.sz_wire [of c "length (wire_change payloadVersion c)"]
    by (auto simp: writeChangeTo_def wire_change_def ok_change_def writeTupleTo_wire Let_def)
  moreover have "writeChangeTo w c = Inr (out, n) \<Longrightarrow> ok_change c"
    by (auto simp: writeChangeTo_def change_enc.sz_wire res_simps)
  ultimately show ?thesis by auto
qed

lemma write_changes_wire:
  "write_changes w cs = Inr out \<longleftrightarrow>
     list_all ok_change cs \<and> out = w @ concat (map (wire_change payloadVersion) cs)"
  by (induction cs arbitrary: w) (auto simp: res_simps writeChangeTo_wire)

lemma WriteTransaction_resident:
  assumes "tx_Spill tx = None"
  shows "WriteTransaction w tx = Inr (out, n) \<longleftrightarrow>
    ok_transaction tx \<and> n = length (wire_transaction payloadVersion tx) \<and> n \<le> maxPayloadSize \<and>
    out = w @ wire_transaction payloadVersion tx"
  using assms
  by (auto simp: WriteTransaction_def transactionPayloadSize_resident appendTransactionPrefix_wire
      write_changes_wire ChangeCount_def ok_transaction_def wire_transaction_def wire_list_def Let_def
      res_simps)

section \<open>Readers against the format\<close>

text \<open>\<open>room n rem\<close>: a bounded reader reports at least \<open>n\<close> bytes; \<open>shrink n rem\<close>: what it reports
  after delivering \<open>n\<close>.\<close>

fun room :: "nat \<Rightarrow> nat option \<Rightarrow> bool" where
  "room n None = True"
| "room n (Some m) \<longleftrightarrow> n \<le> m"

definition shrink :: "nat \<Rightarrow> nat option \<Rightarrow> nat option" where
  "shrink n = map_option (\<lambda>m. m - n)"

lemma shrink_shrink [simp]: "shrink b (shrink a rem) = shrink (a + b) rem"
  by (cases rem) (auto simp: shrink_def)

lemma room_shrink [simp]: "room a rem \<Longrightarrow> room b (shrink a rem) \<longleftrightarrow> room (a + b) rem"
  by (cases rem) (auto simp: shrink_def)

lemma room_add: "room (a + b) rem \<Longrightarrow> room a rem \<and> room b (shrink a rem)"
  by (cases rem) (auto simp: shrink_def)

lemma room_le: "room b rem \<Longrightarrow> a \<le> b \<Longrightarrow> room a rem"
  by (cases rem) auto

lemma room_0 [simp]: "room 0 rem"
  by (cases rem) auto

lemma shrink_0 [simp]: "shrink 0 rem = rem"
  by (cases rem) (auto simp: shrink_def)

lemma rdbind_eq_Inr [res_simps]:
  "rdbind p f r = Inr (y, r') \<longleftrightarrow> (\<exists>x s. p r = Inr (x, s) \<and> f x s = Inr (y, r'))"
  by (auto simp: rdbind_def rbind_eq_Inr)

lemma rdret_eq_Inr [res_simps]: "rdret x r = Inr (y, r') \<longleftrightarrow> x = y \<and> r = r'"
  by (auto simp: rdret_def)

lemma rdfail_eq_Inr [res_simps]: "rdfail msg r = Inr y \<longleftrightarrow> False"
  by (simp add: rdfail_def)

lemma rdwrap_eq_Inr [res_simps]: "rdwrap msg p r = Inr y \<longleftrightarrow> p r = Inr y"
  by (simp add: rdwrap_def rwrap_eq_Inr)

lemma rdbind_run [wire_simps]: "p r = Inr (x, s) \<Longrightarrow> rdbind p f r = f x s"
  by (simp add: rdbind_def)

lemma rdwrap_run [wire_simps]: "p r = Inr (x, s) \<Longrightarrow> rdwrap msg p r = Inr (x, s)"
  by (simp add: rdwrap_def)

lemma rdret_run [wire_simps]: "rdret x r = Inr (x, r)"
  by (simp add: rdret_def)

text \<open>\<open>reads n r v r'\<close>: reading \<open>v\<close> of length \<open>n\<close> takes the reader from \<open>r\<close> to \<open>r'\<close>.\<close>

definition reads :: "bytes \<Rightarrow> Reader \<Rightarrow> Reader \<Rightarrow> bool" where
  "reads v r r' \<longleftrightarrow> rd_data r = v @ rd_data r' \<and> room (length v) (rd_remaining r) \<and>
     rd_remaining r' = shrink (length v) (rd_remaining r)"

lemma reads_append: "reads (v @ w) r r' \<longleftrightarrow> (\<exists>s. reads v r s \<and> reads w s r')"
proof
  assume "reads (v @ w) r r'"
  then show "\<exists>s. reads v r s \<and> reads w s r'"
    by (intro exI [of _ "\<lparr>rd_data = w @ rd_data r', rd_remaining = shrink (length v) (rd_remaining r)\<rparr>"])
      (auto simp: reads_def dest: room_add)
qed (auto simp: reads_def)

lemma reads_Cons: "reads (b # w) r r' \<longleftrightarrow> (\<exists>s. reads [b] r s \<and> reads w s r')"
  using reads_append [of "[b]" w] by simp

lemma reads_ConsI [intro]: "reads [b] r s \<Longrightarrow> reads w s r' \<Longrightarrow> reads (b # w) r r'"
  using reads_Cons by blast

lemma reads_appendI [intro]: "reads v r s \<Longrightarrow> reads w s r' \<Longrightarrow> reads (v @ w) r r'"
  by (auto simp: reads_append)

lemma reads_nil [simp]: "reads [] r r' \<longleftrightarrow> r' = r"
  by (cases r; cases r') (auto simp: reads_def)

lemma reads_unique: "reads v r r' \<Longrightarrow> reads v r r'' \<Longrightarrow> r' = r''"
  by (cases r'; cases r'') (auto simp: reads_def)

lemma io_ReadFull_iff: "io_ReadFull n r = Inr (v, r') \<longleftrightarrow> length v = n \<and> reads v r r'"
proof -
  have "n \<le> rd_available r \<longleftrightarrow> n \<le> length (rd_data r) \<and> room n (rd_remaining r)"
    by (cases "rd_remaining r") (auto simp: rd_available_def)
  then show ?thesis
    by (cases r') (auto simp: io_ReadFull_def rd_advance_def reads_def shrink_def)
qed

lemma readN_iff: "readN n r = Inr (v, r') \<longleftrightarrow> length v = n \<and> reads v r r'"
  by (cases "rd_remaining r") (auto simp: readN_def io_ReadFull_iff reads_def)

lemma readByte_iff: "readByte r = Inr (v, r') \<longleftrightarrow> reads [v] r r'"
  by (auto simp: readByte_def io_ReadFull_iff length_Suc_conv res_simps)

lemma readUint32_iff: "readUint32 r = Inr (v, r') \<longleftrightarrow> reads (le32 v) r r'"
  by (auto simp: readUint32_def io_ReadFull_iff res_simps intro!: exI [of _ "le32 v"])

lemma readUint64_iff: "readUint64 r = Inr (v, r') \<longleftrightarrow> reads (le64 v) r r'"
  by (auto simp: readUint64_def io_ReadFull_iff res_simps intro!: exI [of _ "le64 v"])

lemma readLengthBytes_iff:
  "readLengthBytes r = Inr (v, r') \<longleftrightarrow> \<not> too_large v \<and> reads (wire_bytes v) r r'"
proof -
  have "(\<exists>n s. reads (le32 n) r s \<and> length v = unat n \<and> reads v s r') \<longleftrightarrow>
      length v \<le> max_u32 \<and> (\<exists>s. reads (le32 (u32_of_len (length v))) r s \<and> reads v s r')"
    by (metis u32_of_len_unat unat_u32_bound unat_u32_of_len)
  then show ?thesis
    by (auto simp: readLengthBytes_def readUint32_iff readN_iff res_simps wire_bytes_def too_large_def
        reads_append not_less)
qed

definition count_ok :: "nat \<Rightarrow> nat \<Rightarrow> nat \<Rightarrow> Reader \<Rightarrow> bool" where
  "count_ok n m reserve r \<longleftrightarrow> (case rd_remaining r of None \<Rightarrow> True
     | Some k \<Rightarrow> reserve \<le> k \<and> (m \<noteq> 0 \<longrightarrow> n \<le> (k - reserve) div m))"

lemma validateEncodedCount_iff:
  "validateEncodedCount n m reserve r = Inr (u, r') \<longleftrightarrow> r' = r \<and> count_ok n m reserve r"
  by (auto simp: validateEncodedCount_def count_ok_def split: option.splits)

lemma readCount_iff:
  "readCount m reserve r = Inr (n, r') \<longleftrightarrow>
     n \<le> max_u32 \<and> reads (le32 (u32_of_len n)) r r' \<and> count_ok n m reserve r'"
proof -
  have "readCount m reserve r = Inr (n, r') \<longleftrightarrow>
      (\<exists>c. n = unat c \<and> reads (le32 c) r r' \<and> count_ok n m reserve r')"
    by (auto simp: readCount_def readUint32_iff validateEncodedCount_iff res_simps)
  also have "\<dots> \<longleftrightarrow> n \<le> max_u32 \<and> reads (le32 (u32_of_len n)) r r' \<and> count_ok n m reserve r'"
    by (metis u32_of_len_unat unat_u32_bound unat_u32_of_len)
  finally show ?thesis .
qed

text \<open>
  The contract of a reader-based item decoder. Where the byte-slice decoder takes the bytes
  left, this one takes a reader; both accept exactly the wire images.
\<close>

locale item_reader =
  fixes wire :: "'a \<Rightarrow> bytes"
    and ok :: "'a \<Rightarrow> bool"
    and canon :: "'a \<Rightarrow> 'a"
    and rdec :: "'a rdecoder"
    and m :: nat
  assumes rdec_iff: "rdec r = Inr (y, r') \<longleftrightarrow> ok y \<and> canon y = y \<and> reads (wire y) r r'"
    and rwire_min: "ok x \<Longrightarrow> m \<le> length (wire x)"
    and rmin_pos: "0 < m"
begin

lemma rd_each_iff:
  "rd_each n rdec r = Inr (ys, r') \<longleftrightarrow>
     length ys = n \<and> list_all ok ys \<and> map canon ys = ys \<and> reads (concat (map wire ys)) r r'"
proof (induction n arbitrary: r ys)
  case (Suc n)
  show ?case
  proof (cases ys)
    case (Cons y ys')
    then show ?thesis by (auto simp: res_simps rdec_iff Suc.IH reads_append)
  qed (simp add: res_simps)
qed (auto simp: res_simps)

lemma rd_each_wrap: "rd_each n (rdwrap e rdec) r = Inr y \<longleftrightarrow> rd_each n rdec r = Inr y"
proof (induction n arbitrary: r y)
  case (Suc n)
  then show ?case by (cases y) (simp add: res_simps)
qed simp

lemma items_fit:
  assumes "reads (concat (map wire ys) @ rest) r r'" "list_all ok ys" "reserve \<le> length rest"
  shows "count_ok (length ys) m reserve r"
proof -
  have "length ys * m \<le> length (concat (map wire ys))"
    using assms(2) by (intro length_concat_map_ge) (auto simp: list_all_iff rwire_min)
  moreover have "length (concat (map wire ys)) + length rest \<le> k" if "rd_remaining r = Some k" for k
    using assms(1) that by (simp add: reads_def del: length_concat)
  ultimately show ?thesis
    using assms(3) rmin_pos
    by (fastforce simp: count_ok_def less_eq_div_iff_mult_less_eq simp del: length_concat split: option.splits)
qed

lemma counted_iff:
  "(\<exists>n s. readCount m 0 r = Inr (n, s) \<and> rd_each n rdec s = Inr (ys, r')) \<longleftrightarrow>
     list_all ok ys \<and> \<not> too_large ys \<and> map canon ys = ys \<and> reads (wire_list wire ys) r r'"
    (is "?L \<longleftrightarrow> ?R")
proof
  assume ?L
  then show ?R
    by (auto simp: readCount_iff rd_each_iff wire_list_def reads_append too_large_def)
next
  assume ?R
  then obtain s where "reads (le32 (u32_of_len (length ys))) r s" "reads (concat (map wire ys)) s r'"
    by (auto simp: wire_list_def reads_append)
  with \<open>?R\<close> items_fit [of ys "[]" s r' 0] show ?L
    by (intro exI [of _ "length ys"] exI [of _ s]) (auto simp: readCount_iff rd_each_iff too_large_def)
qed

end

lemma decodeDatumReader_iff:
  "decodeDatumReader r = Inr (y, r') \<longleftrightarrow> ok_datum y \<and> canon_datum y = y \<and> reads (wire_datum y) r r'"
proof
  assume "decodeDatumReader r = Inr (y, r')"
  then show "ok_datum y \<and> canon_datum y = y \<and> reads (wire_datum y) r r'"
    by (auto simp: decodeDatumReader_def readByte_iff readLengthBytes_iff res_simps ok_datum_def
        canon_datum_def wire_datum_def dat_bytes_def split: if_splits)
next
  assume R: "ok_datum y \<and> canon_datum y = y \<and> reads (wire_datum y) r r'"
  obtain k v where y: "y = \<lparr>dat_Kind = k, dat_Data = v\<rparr>" by (cases y) auto
  show "decodeDatumReader r = Inr (y, r')"
  proof (cases "k = DatumText \<or> k = DatumBinary")
    case True
    with R y obtain b s where "v = Some b" "\<not> too_large b" "reads [k] r s" "reads (wire_bytes b) s r'"
      by (cases v) (auto simp: ok_datum_def canon_datum_def wire_datum_def dat_bytes_def
          reads_Cons [of _ "wire_bytes _"])
    with True y show ?thesis
      by (auto simp: decodeDatumReader_def readByte_iff [symmetric] readLengthBytes_iff wire_simps)
  next
    case False
    with R y have "v = None" "k = DatumNull \<or> k = DatumUnchangedToast" "readByte r = Inr (k, r')"
      by (auto simp: ok_datum_def canon_datum_def wire_datum_def readByte_iff split: if_splits)
    with y show ?thesis by (auto simp: decodeDatumReader_def wire_simps)
  qed
qed

interpretation datum_rd: item_reader wire_datum ok_datum canon_datum decodeDatumReader 1
  by unfold_locales (rule decodeDatumReader_iff, rule datum_dec.wire_min, simp_all)

lemma decodeTupleReader_iff:
  "decodeTupleReader r = Inr (t, r') \<longleftrightarrow> ok_tuple t \<and> canon_tuple t = t \<and> reads (wire_tuple t) r r'"
proof -
  have "decodeTupleReader r = Inr (t, r') \<longleftrightarrow> (\<exists>p s. reads [p] r s \<and>
     (p = 0 \<and> t = None \<and> s = r' \<or> p = 1 \<and> (\<exists>t'. t = Some t' \<and>
        (\<exists>n s'. readCount 1 0 s = Inr (n, s') \<and> rd_each n decodeDatumReader s' = Inr (t', r')))))"
    by (fastforce simp: decodeTupleReader_def readByte_iff res_simps simp del: One_nat_def split: if_splits)
  then show ?thesis
    unfolding datum_rd.counted_iff
    by (cases t) (auto simp: canon_tuple_def reads_Cons [of _ "wire_list _ _"])
qed

lemmas read_iffs = readByte_iff readUint32_iff readUint64_iff readLengthBytes_iff readN_iff

lemma decodeColumnReader_iff:
  "decodeColumnReader r = Inr (y, r') \<longleftrightarrow> ok_column y \<and> reads (wire_column y) r r'"
proof
  assume "decodeColumnReader r = Inr (y, r')"
  then obtain s1 s2 where "ok_column y" "reads (le32 (col_Type y)) r s1" "reads [col_Flags y] s1 s2"
      "reads (wire_bytes (bytes_of_string (col_Name y))) s2 r'"
    by (auto simp: decodeColumnReader_def read_iffs res_simps ok_column_def)
  then show "ok_column y \<and> reads (wire_column y) r r'"
    unfolding wire_column_def reads_append by blast
next
  assume "ok_column y \<and> reads (wire_column y) r r'"
  then obtain s1 s2 where "readUint32 r = Inr (col_Type y, s1)" "readByte s1 = Inr (col_Flags y, s2)"
      "readLengthBytes s2 = Inr (bytes_of_string (col_Name y), r')"
    by (auto simp: read_iffs ok_column_def wire_column_def reads_append reads_Cons [of _ "wire_bytes _"])
  then show "decodeColumnReader r = Inr (y, r')"
    by (simp add: decodeColumnReader_def wire_simps)
qed

interpretation column_rd: item_reader wire_column ok_column "\<lambda>c. c" decodeColumnReader 9
  by unfold_locales (simp add: decodeColumnReader_iff, rule column_dec.wire_min, simp_all)

lemma decodeRelationReader_iff:
  "decodeRelationReader r = Inr (y, r') \<longleftrightarrow> ok_relation y \<and> reads (wire_relation y) r r'"
proof
  assume "decodeRelationReader r = Inr (y, r')"
  then obtain oid identity ns name cols s1 s2 s3 s4 where *:
      "reads (le32 oid) r s1" "reads [identity] s1 s2" "\<not> too_large ns" "reads (wire_bytes ns) s2 s3"
      "\<not> too_large name" "reads (wire_bytes name) s3 s4"
      "\<exists>n s. readCount 9 0 s4 = Inr (n, s) \<and> rd_each n decodeColumnReader s = Inr (cols, r')"
      "y = \<lparr>rel_OID = oid, rel_Namespace = string_of_bytes ns, rel_Name = string_of_bytes name,
            rel_ReplicaIdentity = identity, rel_Columns = cols\<rparr>"
    by (auto simp: decodeRelationReader_def read_iffs res_simps)
  from *(7) have "list_all ok_column cols" "\<not> too_large cols" "reads (wire_list wire_column cols) s4 r'"
    by (auto simp: column_rd.counted_iff)
  with * show "ok_relation y \<and> reads (wire_relation y) r r'"
    unfolding wire_relation_def reads_append by (auto simp: ok_relation_def)
next
  assume R: "ok_relation y \<and> reads (wire_relation y) r r'"
  then obtain s1 s2 s3 s4 where *: "readUint32 r = Inr (rel_OID y, s1)"
      "readByte s1 = Inr (rel_ReplicaIdentity y, s2)"
      "readLengthBytes s2 = Inr (bytes_of_string (rel_Namespace y), s3)"
      "readLengthBytes s3 = Inr (bytes_of_string (rel_Name y), s4)"
      "reads (wire_list wire_column (rel_Columns y)) s4 r'"
    by (auto simp: read_iffs ok_relation_def wire_relation_def reads_append reads_Cons [of _ "wire_bytes _ @ _"])
  from *(5) R obtain n s where "readCount 9 0 s4 = Inr (n, s)"
      "rd_each n decodeColumnReader s = Inr (rel_Columns y, r')"
    using column_rd.counted_iff [of s4 "rel_Columns y" r'] by (auto simp: ok_relation_def)
  with * show "decodeRelationReader r = Inr (y, r')"
    by (simp add: decodeRelationReader_def wire_simps)
qed

interpretation relation_rd: item_reader wire_relation ok_relation "\<lambda>r. r" decodeRelationReader 17
  by unfold_locales (simp add: decodeRelationReader_iff, rule relation_dec.wire_min, simp_all)

lemma decodeOptionsReader_iff:
  "decodeOptionsReader version kind r = Inr ((cascade, restart), r') \<longleftrightarrow>
     (if version \<ge> 2 \<and> kind = ChangeTruncate
      then reads [(if cascade then 1 else 0) + (if restart then 2 else 0)] r r'
      else \<not> cascade \<and> \<not> restart \<and> r' = r)"
proof (cases "version \<ge> 2 \<and> kind = ChangeTruncate")
  case True
  have "decodeOptionsReader version kind r = Inr ((cascade, restart), r') \<longleftrightarrow>
      (\<exists>b. reads [b] r r' \<and> b AND - 4 = 0 \<and> cascade = (b AND 1 \<noteq> 0) \<and> restart = (b AND 2 \<noteq> 0))"
    using True by (auto simp: decodeOptionsReader_def read_iffs res_simps)
  also have "\<dots> \<longleftrightarrow> reads [(if cascade then 1 else 0) + (if restart then 2 else 0)] r r'"
  proof
    assume "\<exists>b. reads [b] r r' \<and> b AND - 4 = 0 \<and> cascade = (b AND 1 \<noteq> 0) \<and> restart = (b AND 2 \<noteq> 0)"
    then obtain b where "reads [b] r r'" "b AND - 4 = 0" "cascade = (b AND 1 \<noteq> 0)"
        "restart = (b AND 2 \<noteq> 0)" by blast
    with mask3_cases [of b] show "reads [(if cascade then 1 else 0) + (if restart then 2 else 0)] r r'"
      by auto
  next
    assume "reads [(if cascade then 1 else 0) + (if restart then 2 else 0)] r r'"
    then show "\<exists>b. reads [b] r r' \<and> b AND - 4 = 0 \<and> cascade = (b AND 1 \<noteq> 0) \<and> restart = (b AND 2 \<noteq> 0)"
      by (intro exI [of _ "(if cascade then 1 else 0) + (if restart then 2 else 0)"])
        (cases cascade; cases restart; simp)
  qed
  finally show ?thesis using True by simp
qed (auto simp: decodeOptionsReader_def res_simps)

lemma decodeChangeReader_iff:
  "decodeChangeReader version r = Inr (c, r') \<longleftrightarrow>
     ok_change c \<and> canon_change version c = c \<and> reads (wire_change version c) r r'"
proof
  assume "decodeChangeReader version r = Inr (c, r')"
  then obtain oid kind cascade restart old new s1 s2 s3 s4 where *:
      "reads (le32 oid) r s1" "reads [kind] s1 s2" "valid_kind kind"
      "decodeOptionsReader version kind s2 = Inr ((cascade, restart), s3)"
      "decodeTupleReader s3 = Inr (old, s4)" "decodeTupleReader s4 = Inr (new, r')"
      "c = \<lparr>ch_RelationOID = oid, ch_Kind = kind, ch_Old = old, ch_New = new,
             ch_TruncateCascade = cascade, ch_TruncateRestartIdentity = restart\<rparr>"
    by (auto simp: decodeChangeReader_def read_iffs res_simps split: if_splits)
  have "reads (if version \<ge> 2 \<and> kind = ChangeTruncate then [truncate_options c] else []) s2 s3"
    using *(4,7) by (cases "version \<ge> 2 \<and> kind = ChangeTruncate")
      (auto simp: decodeOptionsReader_iff truncate_options_def)
  moreover have "reads (wire_tuple old) s3 s4" "reads (wire_tuple new) s4 r'"
    using *(5,6) by (simp_all add: decodeTupleReader_iff)
  moreover have "wire_change version c = le32 oid @ [kind] @
      (if version \<ge> 2 \<and> kind = ChangeTruncate then [truncate_options c] else []) @ wire_tuple old @ wire_tuple new"
    using *(7) by (simp add: wire_change_def)
  ultimately have "reads (wire_change version c) r r'"
    using *(1,2) by (simp only:) (intro reads_appendI; assumption)
  with * show "ok_change c \<and> canon_change version c = c \<and> reads (wire_change version c) r r'"
    by (auto simp: ok_change_def canon_change_def decodeOptionsReader_iff decodeTupleReader_iff
        split: if_splits)
next
  assume R: "ok_change c \<and> canon_change version c = c \<and> reads (wire_change version c) r r'"
  let ?opts = "if version \<ge> 2 \<and> ch_Kind c = ChangeTruncate then [truncate_options c] else []"
  from R obtain s1 s2 s3 s4 where "readUint32 r = Inr (ch_RelationOID c, s1)"
      "readByte s1 = Inr (ch_Kind c, s2)" and opts: "reads ?opts s2 s3"
      and "reads (wire_tuple (ch_Old c)) s3 s4" "reads (wire_tuple (ch_New c)) s4 r'"
    by (auto simp: read_iffs wire_change_def reads_append
        reads_Cons [of "ch_Kind c" "(if _ then _ else _) @ _"])
  moreover have "decodeOptionsReader version (ch_Kind c) s2 =
      Inr ((ch_TruncateCascade c, ch_TruncateRestartIdentity c), s3)"
    using opts R
    by (cases c) (auto simp: decodeOptionsReader_iff truncate_options_def ok_change_def canon_change_def
        split: if_splits)
  moreover have "decodeTupleReader s3 = Inr (ch_Old c, s4)" "decodeTupleReader s4 = Inr (ch_New c, r')"
    using R calculation by (cases c; simp add: decodeTupleReader_iff ok_change_def canon_change_def)+
  ultimately show "decodeChangeReader version r = Inr (c, r')"
    using R by (simp add: decodeChangeReader_def ok_change_def wire_simps)
qed

interpretation change_rd:
  item_reader "wire_change version" ok_change "canon_change version" "decodeChangeReader version" 7
  for version :: byte
  by unfold_locales (rule decodeChangeReader_iff, rule change_dec.wire_min, simp_all)


section \<open>The transaction prefix\<close>

lemma readMagic_iff: "readMagic r = Inr (u, r') \<longleftrightarrow> reads payloadMagic r r'"
proof -
  have "readMagic r = Inr (u, r') \<longleftrightarrow> readN 4 r = Inr (payloadMagic, r')"
    by (auto simp: readMagic_def split: sum.splits if_splits)
  then show ?thesis by (simp add: readN_iff)
qed

lemma readNanos_iff: "readNanos r = Inr (n, r') \<longleftrightarrow> unat n < 1000000000 \<and> reads (le32 n) r r'"
proof -
  have "readNanos r = Inr (n, r') \<longleftrightarrow> unat n < 1000000000 \<and> readUint32 r = Inr (n, r')"
    by (auto simp: readNanos_def split: sum.splits if_splits)
  then show ?thesis by (simp add: readUint32_iff)
qed

lemma relations_run:
  assumes "reads (wire_list wire_relation rels @ rest) r r'" "list_all ok_relation rels"
    and "\<not> too_large rels" "4 \<le> length rest"
  shows "\<exists>s s'. readCount 17 4 r = Inr (length rels, s) \<and>
    rd_each (length rels) (rdwrap e decodeRelationReader) s = Inr (rels, s') \<and> reads rest s' r'"
proof -
  obtain s s' where "reads (le32 (u32_of_len (length rels))) r s"
      "reads (concat (map wire_relation rels)) s s'" "reads rest s' r'"
    using assms(1) by (auto simp: wire_list_def reads_append)
  moreover have "count_ok (length rels) 17 4 s"
    using calculation assms relation_rd.items_fit [of rels rest s r' 4] by blast
  ultimately show ?thesis
    using assms by (auto simp: readCount_iff relation_rd.rd_each_wrap relation_rd.rd_each_iff too_large_def)
qed

lemma decodeTransactionPrefix_run:
  assumes "reads (wire_header version tx @ le32 n) r r'" "version = 1 \<or> version = payloadVersion"
    and "list_all ok_relation (tx_Relations tx)" "\<not> too_large (tx_Relations tx)"
    and "valid_time (tx_CommitTime tx)" "count_ok (unat n) 7 0 r'"
  shows "decodeTransactionPrefix r = Inr (\<lparr>pf_transaction = tx\<lparr>tx_Changes := [], tx_Spill := None\<rparr>,
    pf_version = version, pf_changes = n\<rparr>, r')"
proof -
  have "reads (payloadMagic @ [version] @ le64 (tx_CommitLSN tx) @ le64 (tx_EndLSN tx) @
      le64 (t_Unix (tx_CommitTime tx)) @ le32 (t_Nanosecond (tx_CommitTime tx)) @
      wire_list wire_relation (tx_Relations tx) @ le32 n) r r'"
    using assms(1) by (simp add: wire_header_def)
  then obtain s1 s2 s3 s4 s5 s6 where *: "reads payloadMagic r s1" "reads [version] s1 s2"
      "reads (le64 (tx_CommitLSN tx)) s2 s3" "reads (le64 (tx_EndLSN tx)) s3 s4"
      "reads (le64 (t_Unix (tx_CommitTime tx))) s4 s5"
      "reads (le32 (t_Nanosecond (tx_CommitTime tx))) s5 s6"
      "reads (wire_list wire_relation (tx_Relations tx) @ le32 n) s6 r'"
    unfolding reads_append [of payloadMagic] reads_append [of "[version]"] reads_append [of "le64 _"]
      reads_append [of "le32 (t_Nanosecond _)"] by blast
  obtain s7 s8 where rels: "readCount 17 4 s6 = Inr (length (tx_Relations tx), s7)"
      "rd_each (length (tx_Relations tx)) (rdwrap ''cdc: relation'' decodeRelationReader) s7 =
         Inr (tx_Relations tx, s8)" "reads (le32 n) s8 r'"
    using relations_run [OF *(7) assms(3,4), of "''cdc: relation''"] by auto
  have "readCount 7 0 s8 = Inr (unat n, r')"
    using rels(3) assms(6) by (simp add: readCount_iff unat_u32_bound)
  moreover have "readMagic r = Inr ((), s1)" "readByte s1 = Inr (version, s2)"
      "readUint64 s2 = Inr (tx_CommitLSN tx, s3)" "readUint64 s3 = Inr (tx_EndLSN tx, s4)"
      "readUint64 s4 = Inr (t_Unix (tx_CommitTime tx), s5)"
      "readNanos s5 = Inr (t_Nanosecond (tx_CommitTime tx), s6)"
    using * assms(5) by (simp_all add: readMagic_iff readNanos_iff read_iffs valid_time_def)
  ultimately show ?thesis
    using rels(1,2) assms(2)
    by (cases "tx_CommitTime tx") (auto simp: decodeTransactionPrefix_def wire_simps)
qed

lemma decodeTransactionPrefix_inv:
  assumes "decodeTransactionPrefix r = Inr (p, r')"
  shows "(pf_version p = 1 \<or> pf_version p = payloadVersion) \<and> valid_time (tx_CommitTime (pf_transaction p)) \<and>
    list_all ok_relation (tx_Relations (pf_transaction p)) \<and> \<not> too_large (tx_Relations (pf_transaction p)) \<and>
    tx_Changes (pf_transaction p) = [] \<and> tx_Spill (pf_transaction p) = None \<and>
    reads (wire_header (pf_version p) (pf_transaction p) @ le32 (pf_changes p)) r r' \<and>
    count_ok (unat (pf_changes p)) 7 0 r'"
proof -
  obtain version commit "end" seconds nanos nr relations nc s1 s2 s3 s4 s5 s6 s7 s8 where *:
    "reads payloadMagic r s1" "reads [version] s1 s2" "version = 1 \<or> version = payloadVersion"
    "reads (le64 commit) s2 s3" "reads (le64 end) s3 s4" "reads (le64 seconds) s4 s5"
    "unat nanos < 1000000000" "reads (le32 nanos) s5 s6"
    "readCount 17 4 s6 = Inr (nr, s7)" "rd_each nr decodeRelationReader s7 = Inr (relations, s8)"
    "readCount 7 0 s8 = Inr (nc, r')"
    "p = \<lparr>pf_transaction = \<lparr>tx_CommitLSN = commit, tx_EndLSN = end,
           tx_CommitTime = \<lparr>t_Unix = seconds, t_Nanosecond = nanos\<rparr>,
           tx_Relations = relations, tx_Changes = [], tx_Spill = None\<rparr>,
         pf_version = version, pf_changes = u32_of_len nc\<rparr>"
    using assms
    by (auto simp: decodeTransactionPrefix_def res_simps readMagic_iff readNanos_iff read_iffs
        relation_rd.rd_each_wrap split: if_splits)
  from *(9,10) have rels: "reads (wire_list wire_relation relations) s6 s8" "list_all ok_relation relations"
      "\<not> too_large relations"
    by (auto simp: readCount_iff relation_rd.rd_each_iff wire_list_def too_large_def)
  from *(11) have "reads (le32 (u32_of_len nc)) s8 r'" "count_ok nc 7 0 r'" "nc \<le> max_u32"
    by (auto simp: readCount_iff)
  moreover have "wire_header (pf_version p) (pf_transaction p) @ le32 (pf_changes p) =
      payloadMagic @ [version] @ le64 commit @ le64 end @ le64 seconds @ le32 nanos @
      wire_list wire_relation relations @ le32 (u32_of_len nc)"
    using *(12) by (simp add: wire_header_def)
  moreover have "reads (payloadMagic @ [version] @ le64 commit @ le64 end @ le64 seconds @ le32 nanos @
      wire_list wire_relation relations @ le32 (u32_of_len nc)) r r'"
    by (intro reads_appendI) (fact * rels calculation)+
  ultimately show ?thesis
    using * rels by (auto simp: valid_time_def)
qed

section \<open>Spilled and resident transactions\<close>

text \<open>The representation: the file holds the encoded changes, and the counters count them.\<close>

definition spill_repr :: "TransactionSpill \<Rightarrow> Change list \<Rightarrow> bool" where
  "spill_repr s cs \<longleftrightarrow> sp_file s = Some (concat (map (wire_change payloadVersion) cs)) \<and>
     sp_changeBytes s = length (concat (map (wire_change payloadVersion) cs)) \<and>
     sp_changeBytes s \<le> max_u32 \<and> unat (sp_changeCount s) = length cs \<and>
     sp_version s = payloadVersion \<and> list_all ok_change cs"

lemma spill_repr_new: "spill_repr newTransactionSpill []"
  by (simp add: spill_repr_def newTransactionSpill_def)

lemma spill_over_limit_iff:
  assumes "b \<le> max_u32" "n \<le> max_u32"
  shows "spill_over_limit b n \<longleftrightarrow> b + n > max_u32"
proof -
  have "unat (word_of_nat max_u32 - word_of_nat n :: u64) = max_u32 - n"
    using assms by (subst unat_sub) (auto simp: word_le_nat_alt unat_of_nat max_u32_def)
  then show ?thesis
    using assms by (auto simp: spill_over_limit_def word_less_nat_alt unat_of_nat max_u32_def)
qed

lemma spill_repr_count: "spill_repr s cs \<Longrightarrow> 7 * length cs \<le> max_u32"
  using length_concat_map_ge [of cs 7 "wire_change payloadVersion"] change_dec.wire_min
  by (fastforce simp: spill_repr_def list_all_iff mult.commute)


lemma spill_append_repr:
  assumes "spill_repr s cs" "spill_appendChange s c = Inr s'" "length (wire_change payloadVersion c) \<le> max_u32"
  shows "spill_repr s' (cs @ [c])"
proof -
  have c: "ok_change c" "encodedChangeSize c = Inr (length (wire_change payloadVersion c))"
    using assms(1,2) by (auto simp: spill_repr_def spill_appendChange_def change_enc.sz_wire res_simps)
  have s': "s' = s\<lparr>sp_file := Some (concat (map (wire_change payloadVersion) (cs @ [c]))),
      sp_changeBytes := sp_changeBytes s + length (wire_change payloadVersion c),
      sp_changeCount := sp_changeCount s + 1\<rparr>"
    and limit: "\<not> spill_over_limit (sp_changeBytes s) (length (wire_change payloadVersion c))"
    using assms(1,2) c by (auto simp: spill_repr_def spill_appendChange_def writeChangeTo_wire res_simps
        simp del: length_concat)
  have "sp_changeBytes s + length (wire_change payloadVersion c) \<le> max_u32"
    using limit assms(1,3) by (simp add: spill_over_limit_iff spill_repr_def)
  moreover have "unat (sp_changeCount s + 1) = length cs + 1"
    using spill_repr_count [OF assms(1)] assms(1)
    by (subst unat_add_lem [THEN iffD1]) (auto simp: spill_repr_def max_u32_def)
  ultimately show ?thesis
    using assms(1) c s' by (simp add: spill_repr_def)
qed

fun spill_appendChanges :: "TransactionSpill \<Rightarrow> Change list \<Rightarrow> TransactionSpill res" where
  "spill_appendChanges s [] = Inr s"
| "spill_appendChanges s (c # cs) = rbind (spill_appendChange s c) (\<lambda>s. spill_appendChanges s cs)"

lemma spill_appendChanges_repr:
  assumes "spill_repr s cs" "spill_appendChanges s cs' = Inr s'"
    and "list_all (\<lambda>c. length (wire_change payloadVersion c) \<le> max_u32) cs'"
  shows "spill_repr s' (cs @ cs')"
  using assms
proof (induction cs' arbitrary: s cs)
  case (Cons c cs')
  then obtain s1 where s1: "spill_appendChange s c = Inr s1" "spill_appendChanges s1 cs' = Inr s'"
    by (auto simp: res_simps)
  then have "spill_repr s1 (cs @ [c])"
    using Cons.prems by (intro spill_append_repr) auto
  with Cons.IH [of s1 "cs @ [c]"] s1 Cons.prems show ?case by simp
qed simp

lemma spill_forEachChange_repr:
  assumes "spill_repr s cs"
  shows "spill_forEachChange s = Inr (map (canon_change payloadVersion) cs)"
proof -
  let ?r = "\<lparr>rd_data = concat (map (wire_change payloadVersion) cs), rd_remaining = None\<rparr>"
  let ?cs = "map (canon_change payloadVersion) cs"
  have "list_all ok_change cs"
    using assms by (simp add: spill_repr_def)
  note canon = change_dec.canon_all [OF this, of payloadVersion]
  have "reads (concat (map (wire_change payloadVersion) ?cs)) ?r \<lparr>rd_data = [], rd_remaining = None\<rparr>"
    unfolding canon(3) by (simp add: reads_def shrink_def)
  with canon have "rd_each (length cs) (rdwrap e (decodeChangeReader payloadVersion)) ?r =
      Inr (?cs, \<lparr>rd_data = [], rd_remaining = None\<rparr>)" for e
    unfolding change_rd.rd_each_wrap change_rd.rd_each_iff by simp
  with assms show ?thesis
    by (simp add: spill_repr_def spill_forEachChange_def spill_reader_def del: length_concat)
qed

lemma WriteTransaction_spilled:
  assumes "tx_Spill tx = None" "tx_Changes tx = cs" "spill_repr s cs"
  shows "WriteTransaction w (tx\<lparr>tx_Changes := [], tx_Spill := Some s\<rparr>) = Inr r \<longleftrightarrow>
    WriteTransaction w tx = Inr r"
proof -
  let ?sp = "tx\<lparr>tx_Changes := [], tx_Spill := Some s\<rparr>"
  have wire: "wire_header payloadVersion ?sp = wire_header payloadVersion tx"
    by (simp add: wire_header_def)
  have cc: "ChangeCount ?sp = u32_of_len (length cs)" "ChangeCount tx = u32_of_len (length cs)"
    using assms by (auto simp: ChangeCount_def spill_repr_def dest: sym)
  have "7 * length cs \<le> max_u32" "list_all ok_change cs"
    using spill_repr_count [OF assms(3)] assms(3) by (simp_all add: spill_repr_def)
  with assms show ?thesis
    by (cases r) (auto simp: WriteTransaction_def transactionPayloadSize_resident
        transactionPayloadSize_spilled appendTransactionPrefix_wire write_changes_wire cc wire
        ok_transaction_def wire_transaction_def wire_list_def too_large_def Let_def
        spill_reader_def io_CopyN_def spill_repr_def res_simps simp del: length_concat)
qed


definition example_spill :: TransactionSpill where
  "example_spill = (let file = wire_change payloadVersion example_insert @ wire_change payloadVersion example_truncate in
     \<lparr>sp_file = Some file, sp_changeCount = 2, sp_changeBytes = length file, sp_version = payloadVersion\<rparr>)"

lemma example_sizes: "encodedChangeSize example_insert = Inr 18" "encodedChangeSize example_truncate = Inr 8"
  by (simp_all add: encodedChangeSize_def example_insert_def example_truncate_def valid_kind_def too_large_def
      encodedDatumSize_def dat_bytes_def max_u32_def)

lemma example_spilled: "spill_appendChanges newTransactionSpill (tx_Changes example_tx) = Inr example_spill"
proof -
  have "ok_change example_insert" "ok_change example_truncate"
    and sizes: "length (wire_change payloadVersion example_insert) = 18"
      "length (wire_change payloadVersion example_truncate) = 8"
    using example_sizes by (simp_all add: change_enc.sz_wire)
  then have w: "writeChangeTo f example_insert = Inr (f @ wire_change payloadVersion example_insert, 18)"
      "writeChangeTo f example_truncate = Inr (f @ wire_change payloadVersion example_truncate, 8)" for f
    by (simp_all add: writeChangeTo_wire)
  have "tx_Changes example_tx = [example_insert, example_truncate]"
    by (simp add: example_tx_def)
  then show ?thesis
    using example_sizes sizes
    by (simp add: spill_appendChange_def newTransactionSpill_def w spill_over_limit_iff max_u32_def
        example_spill_def Let_def)
qed

lemma spilled_repr:
  assumes "spill_appendChanges newTransactionSpill cs = Inr s"
    and "\<forall>c\<in>set cs. \<forall>n. encodedChangeSize c = Inr n \<longrightarrow> n \<le> max_u32"
  shows "spill_repr s cs"
proof -
  have "spill_appendChanges t cs = Inr s \<Longrightarrow> list_all ok_change cs" for t
    by (induction cs arbitrary: t)
      (auto simp: spill_appendChange_def change_enc.sz_wire res_simps split: option.splits)
  with assms have "list_all (\<lambda>c. length (wire_change payloadVersion c) \<le> max_u32) cs"
    by (auto simp: list_all_iff change_enc.sz_wire)
  from spill_appendChanges_repr [OF spill_repr_new assms(1) this] show ?thesis by simp
qed

text \<open>C5: A transaction spilled to disk while it was decoded is written to a segment exactly as if
  its changes had been resident: same bytes, same size, same acceptance.\<close>

theorem spilled_write_is_resident_write:
  assumes "spill_appendChanges newTransactionSpill (tx_Changes tx) = Inr s" "tx_Spill tx = None"
    and "\<forall>c\<in>set (tx_Changes tx). \<forall>n. encodedChangeSize c = Inr n \<longrightarrow> n \<le> max_u32"
  shows "WriteTransaction w (tx\<lparr>tx_Changes := [], tx_Spill := Some s\<rparr>) = Inr r \<longleftrightarrow>
    WriteTransaction w tx = Inr r"
  by (rule WriteTransaction_spilled [OF assms(2) refl spilled_repr [OF assms(1,3)]])

theorem spilled_write_is_resident_write_witness:
  "WriteTransaction [] (example_tx\<lparr>tx_Changes := [], tx_Spill := Some example_spill\<rparr>) =
     Inr (wire_transaction payloadVersion example_tx, length (wire_transaction payloadVersion example_tx))"
proof -
  have "\<forall>c\<in>set (tx_Changes example_tx). \<forall>n. encodedChangeSize c = Inr n \<longrightarrow> n \<le> max_u32"
    using example_sizes by (auto simp: example_tx_def max_u32_def)
  from spilled_write_is_resident_write [OF example_spilled example_ok(4) this] show ?thesis
    using example_ok by (simp add: WriteTransaction_resident)
qed

text \<open>C6: Reading a spill back gives the changes that were appended, in order, and frees the spill.\<close>

theorem materialize_spilled:
  assumes "spill_appendChanges newTransactionSpill cs = Inr s" "tx_Spill tx = Some s"
    and "\<forall>c\<in>set cs. \<forall>n. encodedChangeSize c = Inr n \<longrightarrow> n \<le> max_u32"
  shows "materializeChanges tx =
    Inr (tx\<lparr>tx_Changes := map (canon_change payloadVersion) cs, tx_Spill := None\<rparr>)"
  using spill_forEachChange_repr [OF spilled_repr [OF assms(1,3)]] assms(2)
  by (simp add: materializeChanges_def CleanupSpill_def)

theorem materialize_spilled_witness:
  "materializeChanges (example_tx\<lparr>tx_Changes := [], tx_Spill := Some example_spill\<rparr>) = Inr example_tx"
proof -
  have "\<forall>c\<in>set (tx_Changes example_tx). \<forall>n. encodedChangeSize c = Inr n \<longrightarrow> n \<le> max_u32"
    using example_sizes by (auto simp: example_tx_def max_u32_def)
  from materialize_spilled [OF example_spilled _ this, of "example_tx\<lparr>tx_Changes := [], tx_Spill := Some example_spill\<rparr>"]
  show ?thesis
    using example_ok(5) by (simp add: canon_transaction_def example_tx_def)
qed

text \<open>The limit check of \<^verbatim>\<open>appendChange\<close> is right for changes the format can hold, and lets a
  change of more than \<^verbatim>\<open>uint32\<close> bytes through, because the subtraction wraps.\<close>

lemma spill_limit_wraps: "\<not> spill_over_limit 0 (2 ^ 32)" "max_u32 < 2 ^ 32"
  by (simp_all add: spill_over_limit_def max_u32_def)

end
