(* ===== verification/SegmentWriter.thy ===== *)
theory SegmentWriter
  imports SegmentDir CodecStream
begin

text \<open>
  The append-only segment writer of \<^verbatim>\<open>internal/cdc/segment.go\<close>: \<^verbatim>\<open>AppendFrame\<close> with its resident
  and streamed frames and the roll-back of a failed one, group sync, rotation and close.

  Every operating-system call that can fail takes its outcome from a \<open>Faults\<close> record: a write
  that fails says how many bytes it wrote before. The \<^verbatim>\<open>Truncate\<close> that rolls a frame back may
  fail, an error the code ignores. \<^verbatim>\<open>Seek\<close> to a position of an open regular file has no error to
  report, so between operations the file offset is the writer's \<^verbatim>\<open>size\<close>. The mutex makes the operations atomic. \<^verbatim>\<open>w.file\<close> is whether the tail is
  open, and the tail's bytes are in the directory under the writer's partial path.
\<close>

section \<open>The writer's state\<close>

record Faults =
  flt_create :: bool
  flt_dirSync :: bool
  flt_header :: "nat option"
  flt_payload :: "nat option"
  flt_final :: "nat option"
  flt_truncate :: bool
  flt_fileSync :: bool
  flt_close :: bool
  flt_rename :: bool
  flt_reopen :: bool
  flt_rotateSync :: bool

definition no_faults :: Faults where
  "no_faults = \<lparr>flt_create = False, flt_dirSync = False, flt_header = None, flt_payload = None,
     flt_final = None, flt_truncate = False, flt_fileSync = False, flt_close = False, flt_rename = False, flt_reopen = False,
     flt_rotateSync = False\<rparr>"

record Writer =
  wr_disk :: Disk
  wr_rotationBytes :: nat
  wr_catalog :: SegmentCatalog
  wr_file :: bool
  wr_partialPath :: string
  wr_size :: nat
  wr_lastCommitLSN :: LSN
  wr_lastEndLSN :: LSN
  wr_pendingEndLSN :: LSN
  wr_durableEndLSN :: LSN
  wr_closed :: bool

section \<open>File operations\<close>

definition file_get :: "Disk \<Rightarrow> string \<Rightarrow> SegFile" where
  "file_get d path = (case map_of d path of None \<Rightarrow> \<lparr>f_bytes = [], f_synced = 0\<rparr> | Some f \<Rightarrow> f)"

text \<open>A write at a position; the bytes from there on are no longer covered by a sync.\<close>

definition write_at :: "nat \<Rightarrow> bytes \<Rightarrow> Disk \<Rightarrow> string \<Rightarrow> Disk" where
  "write_at pos bs d path = (let f = file_get d path in
     AList.update path \<lparr>f_bytes = take pos (f_bytes f) @ bs @ drop (pos + length bs) (f_bytes f),
       f_synced = min (f_synced f) pos\<rparr> d)"

definition truncate_at :: "nat \<Rightarrow> Disk \<Rightarrow> string \<Rightarrow> Disk" where
  "truncate_at pos d path = (let f = file_get d path in
     AList.update path \<lparr>f_bytes = take pos (f_bytes f), f_synced = min (f_synced f) pos\<rparr> d)"

definition sync_file :: "Disk \<Rightarrow> string \<Rightarrow> Disk" where
  "sync_file d path = (let f = file_get d path in
     AList.update path (f\<lparr>f_synced := length (f_bytes f)\<rparr>) d)"

definition rename_file :: "string \<Rightarrow> string \<Rightarrow> Disk \<Rightarrow> Disk" where
  "rename_file old new d = AList.update new (file_get d old) (AList.delete old d)"

text \<open>\<^verbatim>\<open>writeFull\<close>: all the bytes, or some of them and an error.\<close>

definition writeFull :: "nat option \<Rightarrow> nat \<Rightarrow> bytes \<Rightarrow> Disk \<Rightarrow> string \<Rightarrow> Disk \<times> bool" where
  "writeFull fault pos bs d path = (case fault of
     None \<Rightarrow> (write_at pos bs d path, True)
   | Some k \<Rightarrow> (write_at pos (take k bs) d path, False))"

section \<open>Operations\<close>

definition rollbackFrame :: "Faults \<Rightarrow> nat \<Rightarrow> Disk \<Rightarrow> string \<Rightarrow> Disk" where
  "rollbackFrame flt frameStart d path = (if flt_truncate flt then d else truncate_at frameStart d path)"

definition appendResidentFrame :: "Faults \<Rightarrow> Writer \<Rightarrow> Transaction \<Rightarrow> nat res \<times> Disk" where
  "appendResidentFrame flt w tx = (let d = wr_disk w; path = wr_partialPath w; start = wr_size w in
     case AppendTransaction [] tx of
       Inl e \<Rightarrow> (Inl e, d)
     | Inr payload \<Rightarrow>
         (case writeFull (flt_header flt) start (frame_header payload) d path of
            (d, False) \<Rightarrow> (Inl (Err ''cdc: write frame header''), rollbackFrame flt start d path)
          | (d, True) \<Rightarrow>
              (case writeFull (flt_payload flt) (start + frameHeaderSize) payload d path of
                 (d, False) \<Rightarrow> (Inl (Err ''cdc: write frame payload''), rollbackFrame flt start d path)
               | (d, True) \<Rightarrow> (Inr (frameHeaderSize + length payload), d))))"

text \<open>
  A streamed frame: a zero header, the payload as \<^verbatim>\<open>WriteTransaction\<close> produces it (the checksum
  sees the same bytes), then the real header over the zero one. When the encoder fails
  part-way, what it wrote is rolled back with the header. The spill is closed at the end.
\<close>

definition appendStreamedFrame ::
  "Faults \<Rightarrow> Writer \<Rightarrow> Transaction \<Rightarrow> nat \<Rightarrow> nat res \<times> Transaction \<times> Disk" where
  "appendStreamedFrame flt w tx payloadSize =
    (let d = wr_disk w; path = wr_partialPath w; start = wr_size w in
     case writeFull (flt_header flt) start (replicate frameHeaderSize 0) d path of
       (d, False) \<Rightarrow> (Inl (Err ''cdc: write placeholder frame header''), tx, rollbackFrame flt start d path)
     | (d, True) \<Rightarrow> (case WriteTransaction [] tx of
         Inl e \<Rightarrow> (Inl (Wrap ''cdc: stream frame payload'' e), tx, rollbackFrame flt start d path)
       | Inr (payload, payloadBytes) \<Rightarrow>
           (case writeFull (flt_payload flt) (start + frameHeaderSize) payload d path of
              (d, False) \<Rightarrow> (Inl (Err ''cdc: stream frame payload''), tx, rollbackFrame flt start d path)
            | (d, True) \<Rightarrow>
                if payloadBytes \<noteq> payloadSize
                then (Inl (Err ''cdc: streamed payload size changed''), tx, rollbackFrame flt start d path)
                else (case writeFull (flt_final flt) start
                        (le32 (u32_of_len payloadSize) @ le32 (crc_update 0 payload)) d path of
                   (d, False) \<Rightarrow> (Inl (Err ''cdc: finalize streamed frame header''), tx,
                                 rollbackFrame flt start d path)
                 | (d, True) \<Rightarrow> (Inr (frameHeaderSize + payloadSize), CleanupSpill tx, d)))))"

definition openSegment :: "Faults \<Rightarrow> Writer \<Rightarrow> LSN \<Rightarrow> unit res \<times> Writer" where
  "openSegment flt w start = (let path = partial_name start; w = w\<lparr>wr_partialPath := path\<rparr> in
     if flt_create flt \<or> map_of (wr_disk w) path \<noteq> None then (Inl (Err ''cdc: create segment''), w)
     else if flt_dirSync flt
     then (Inl (Err ''cdc: fsync new segment directory entry''),
           w\<lparr>wr_file := False, wr_partialPath := [], wr_size := 0\<rparr>)
     else (Inr (), w\<lparr>wr_disk := AList.update path \<lparr>f_bytes = [], f_synced = 0\<rparr> (wr_disk w),
             wr_file := True, wr_size := 0\<rparr>))"

definition syncLocked :: "Faults \<Rightarrow> Writer \<Rightarrow> unit res \<times> Writer" where
  "syncLocked flt w =
     (if \<not> wr_file w \<or> wr_pendingEndLSN w = wr_durableEndLSN w then (Inr (), w)
      else if flt_fileSync flt then (Inl (Err ''cdc: fsync segment''), w)
      else (Inr (), w\<lparr>wr_disk := sync_file (wr_disk w) (wr_partialPath w),
                      wr_durableEndLSN := wr_pendingEndLSN w\<rparr>))"

definition Sync :: "Faults \<Rightarrow> Writer \<Rightarrow> LSN res \<times> Writer" where
  "Sync flt w =
     (if wr_closed w then (Inl (Err ''cdc: sync closed segment writer''), w)
      else case syncLocked flt w of
        (Inl e, w) \<Rightarrow> (Inl e, w) | (Inr _, w) \<Rightarrow> (Inr (wr_durableEndLSN w), w))"

definition segmentStart :: "string \<Rightarrow> LSN" where
  "segmentStart path = (case parseSegmentName path of None \<Rightarrow> 0 | Some (start, _) \<Rightarrow> start)"

definition rotateLocked :: "Faults \<Rightarrow> Writer \<Rightarrow> unit res \<times> Writer" where
  "rotateLocked flt w =
     (if \<not> wr_file w then (Inr (), w)
      else let finalPath = trim_suffix (wr_partialPath w) ''.partial'';
               finalized = \<lparr>sr_Path = finalPath, sr_StartCommit = segmentStart (wr_partialPath w),
                 sr_LastCommit = wr_lastCommitLSN w, sr_LastEnd = wr_lastEndLSN w,
                 sr_ValidatedSize = wr_size w\<rparr> in
        case syncLocked flt w of
          (Inl e, w) \<Rightarrow> (Inl e, w)
        | (Inr _, w) \<Rightarrow>
            if flt_close flt then (Inl (Err ''cdc: close segment before rotation''), w)
            else if flt_rename flt
            then (Inl (Err ''cdc: finalize segment''), w\<lparr>wr_file := \<not> flt_reopen flt\<rparr>)
            else let w = w\<lparr>wr_disk := rename_file (wr_partialPath w) finalPath (wr_disk w),
                     wr_file := False, wr_partialPath := [], wr_size := 0\<rparr> in
              if flt_rotateSync flt then (Inl (Err ''cdc: fsync segment directory''), w)
              else case addFinalized finalized (wr_catalog w) of
                Inl e \<Rightarrow> (Inl e, w)
              | Inr c \<Rightarrow> (Inr (), w\<lparr>wr_catalog := c\<rparr>))"

definition Rotate :: "Faults \<Rightarrow> Writer \<Rightarrow> unit res \<times> Writer" where
  "Rotate flt w =
     (if wr_closed w then (Inl (Err ''cdc: rotate closed segment writer''), w) else rotateLocked flt w)"

definition Close :: "Faults \<Rightarrow> Writer \<Rightarrow> unit res \<times> Writer" where
  "Close flt w =
     (if wr_closed w then (Inr (), w)
      else case syncLocked flt (w\<lparr>wr_closed := True\<rparr>) of (syncErr, w) \<Rightarrow>
        (if wr_file w \<and> flt_close flt \<and> is_ok syncErr then Inl (Err ''cdc: close segment'') else syncErr,
         w\<lparr>wr_file := False\<rparr>))"

definition streamPayloadBytes :: nat where
  "streamPayloadBytes = 16 * 2 ^ 20"

text \<open>The frame, once the checks have passed and the tail is open.\<close>

definition appendFrameOpen :: "Faults \<Rightarrow> Writer \<Rightarrow> Transaction \<Rightarrow> nat \<Rightarrow> nat res \<times> Transaction \<times> Writer" where
  "appendFrameOpen flt w tx payloadSize =
     (case (if tx_Spill tx \<noteq> None \<or> payloadSize > streamPayloadBytes
            then appendStreamedFrame flt w tx payloadSize
            else case appendResidentFrame flt w tx of (r, d) \<Rightarrow> (r, tx, d)) of
        (Inl e, tx, d) \<Rightarrow> (Inl e, tx, w\<lparr>wr_disk := d\<rparr>)
      | (Inr frameBytes, tx, d) \<Rightarrow>
          let w = w\<lparr>wr_disk := d, wr_size := wr_size w + frameBytes, wr_lastCommitLSN := tx_CommitLSN tx,
                    wr_lastEndLSN := tx_EndLSN tx, wr_pendingEndLSN := tx_EndLSN tx\<rparr> in
          if wr_size w \<ge> wr_rotationBytes w
          then (case rotateLocked flt w of
            (Inl e, w) \<Rightarrow> (Inl e, tx, w) | (Inr _, w) \<Rightarrow> (Inr frameBytes, tx, w))
          else (Inr frameBytes, tx, w))"

definition AppendFrame :: "Faults \<Rightarrow> Writer \<Rightarrow> Transaction option \<Rightarrow> nat res \<times> Transaction option \<times> Writer" where
  "AppendFrame flt w txp =
     (if wr_closed w then (Inl (Err ''cdc: append to closed segment writer''), txp, w)
      else case txp of None \<Rightarrow> (Inl (Err ''cdc: append nil transaction''), txp, w)
      | Some tx \<Rightarrow>
        if tx_CommitLSN tx = 0 \<or> tx_EndLSN tx < tx_CommitLSN tx
        then (Inl (Err ''cdc: invalid transaction LSNs''), txp, w)
        else if tx_CommitLSN tx \<le> wr_lastCommitLSN w
        then (Inl (Err ''cdc: commit LSN does not follow''), txp, w)
        else if tx_EndLSN tx \<le> wr_lastEndLSN w
        then (Inl (Err ''cdc: end LSN does not follow''), txp, w)
        else case transactionPayloadSize tx of
          Inl e \<Rightarrow> (Inl e, txp, w)
        | Inr payloadSize \<Rightarrow>
            if payloadSize > maxPayloadSize then (Inl (Err ''cdc: payload exceeds limit''), txp, w)
            else case (if wr_file w then (Inr (), w) else openSegment flt w (tx_CommitLSN tx)) of
              (Inl e, w) \<Rightarrow> (Inl e, txp, w)
            | (Inr _, w) \<Rightarrow> (case appendFrameOpen flt w tx payloadSize of (r, tx, w) \<Rightarrow> (r, Some tx, w)))"

definition recovered_writer :: "int \<Rightarrow> Recovery \<Rightarrow> SegmentCatalog \<Rightarrow> Disk \<Rightarrow> Writer" where
  "recovered_writer rotationBytes recovery finalized d = (let path = rc_PartialPath recovery in
     \<lparr>wr_disk = d, wr_rotationBytes = (if rotationBytes = 0 then 2 ^ 30 else nat rotationBytes),
      wr_catalog = finalized, wr_file = (path \<noteq> []), wr_partialPath = path,
      wr_size = (if path = [] then 0 else length (file_content d path)),
      wr_lastCommitLSN = rc_LastCommitLSN recovery, wr_lastEndLSN = rc_DurableLSN recovery,
      wr_pendingEndLSN = rc_DurableLSN recovery, wr_durableEndLSN = rc_DurableLSN recovery,
      wr_closed = False\<rparr>)"

definition OpenWriter :: "int \<Rightarrow> int \<Rightarrow> Disk \<Rightarrow> (Writer \<times> Recovery) res" where
  "OpenWriter rotationBytes recoveryWorkers d =
     (if rotationBytes < 0 then Inl (Err ''cdc: rotation threshold must not be negative'')
      else if recoveryWorkers < 0 \<or> recoveryWorkers > 4
      then Inl (Err ''cdc: recovery workers must be between 0 and 4'')
      else rbind (recoverDirectory d) (\<lambda>(recovery, finalized, d).
        Inr (recovered_writer rotationBytes recovery finalized d, recovery)))"

text \<open>
  The failures after which the writer can go on: the roll-back of a frame succeeds, and a tail whose
  rename failed can be opened again.
\<close>

definition safe_faults :: "Faults \<Rightarrow> bool" where
  "safe_faults flt \<longleftrightarrow> \<not> (flt_rename flt \<and> flt_reopen flt) \<and> \<not> flt_truncate flt"

section \<open>Payloads the writer appends\<close>

lemma take_8_wire_header:
  assumes "p = wire_header payloadVersion tx @ rest"
  shows "21 \<le> length p" "take 4 p = payloadMagic" "p ! 4 = payloadVersion"
    "payload_lsns p = (tx_CommitLSN tx, tx_EndLSN tx)"
proof -
  have p: "p = payloadMagic @ [payloadVersion] @ le64 (tx_CommitLSN tx) @ le64 (tx_EndLSN tx) @
      le64 (t_Unix (tx_CommitTime tx)) @ le32 (t_Nanosecond (tx_CommitTime tx)) @
      wire_list wire_relation (tx_Relations tx) @ rest"
    using assms by (simp add: wire_header_def)
  show "21 \<le> length p" "take 4 p = payloadMagic" "p ! 4 = payloadVersion"
    unfolding p by (simp_all add: nth_append)
  show "payload_lsns p = (tx_CommitLSN tx, tx_EndLSN tx)"
    unfolding p by (simp add: payload_lsns_def)
qed

lemma WriteTransaction_payload:
  assumes "WriteTransaction [] tx = Inr (p, n)"
  shows "payload_ok p \<and> payload_lsns p = (tx_CommitLSN tx, tx_EndLSN tx) \<and> n = length p \<and>
    transactionPayloadSize tx = Inr n"
proof -
  from assms obtain size where size: "transactionPayloadSize tx = Inr size" "size \<le> maxPayloadSize" "n = size"
    by (auto simp: WriteTransaction_def Let_def res_simps split: option.splits if_splits)
  have "\<exists>rest. p = wire_header payloadVersion tx @ rest \<and> length p = size"
  proof (cases "tx_Spill tx")
    case None
    with assms size show ?thesis
      by (auto simp: WriteTransaction_resident transactionPayloadSize_resident wire_transaction_def)
  next
    case (Some spill)
    with assms size show ?thesis
      by (auto simp: WriteTransaction_def Let_def res_simps appendTransactionPrefix_wire spill_reader_def
          io_CopyN_def transactionPayloadSize_spilled split: if_splits option.splits)
  qed
  then show ?thesis
    using take_8_wire_header size by (auto simp: payload_ok_def)
qed

lemma resident_payload:
  assumes "AppendTransaction [] tx = Inr p"
  shows "WriteTransaction [] tx = Inr (p, length p)"
  using assms by (auto simp: AppendTransaction_wire WriteTransaction_resident)

section \<open>One frame, written or rolled back\<close>

lemma tail_write_simps:
  assumes "map_of d path = Some \<lparr>f_bytes = bs, f_synced = k\<rparr>"
  shows "write_at pos x d path = AList.update path
      \<lparr>f_bytes = take pos bs @ x @ drop (pos + length x) bs, f_synced = min k pos\<rparr> d"
    and "truncate_at pos d path = AList.update path \<lparr>f_bytes = take pos bs, f_synced = min k pos\<rparr> d"
    and "sync_file d path = AList.update path \<lparr>f_bytes = bs, f_synced = length bs\<rparr> d"
    and "file_content d path = bs"
  using assms by (simp_all add: write_at_def truncate_at_def sync_file_def file_get_def file_content_def Let_def)

lemma map_of_update_same: "map_of (AList.update k v d) k = Some v"
  by (simp add: update_conv')

lemmas tail_simps = tail_write_simps [OF map_of_update_same] map_of_update_same

lemma appendResidentFrame_outcome:
  assumes "map_of (wr_disk w) (wr_partialPath w) = Some \<lparr>f_bytes = bs, f_synced = k\<rparr>"
    and "wr_size w = length bs" "k \<le> length bs"
    and "\<not> flt_truncate flt" "appendResidentFrame flt w tx = (r, d')"
  shows "case r of Inl _ \<Rightarrow> d' = wr_disk w
    | Inr m \<Rightarrow> \<exists>p. WriteTransaction [] tx = Inr (p, length p) \<and> m = frameHeaderSize + length p \<and>
        d' = AList.update (wr_partialPath w) \<lparr>f_bytes = bs @ frame p, f_synced = k\<rparr> (wr_disk w)"
  using assms
  by (auto simp: appendResidentFrame_def Let_def writeFull_def rollbackFrame_def tail_write_simps tail_simps
      min_absorb1 update_triv frame_def frame_header_def frameHeaderSize_def resident_payload
      split: sum.splits option.splits)

text \<open>The tail after writes at its end: its bytes with what was written.\<close>

definition tail_disk :: "Disk \<Rightarrow> string \<Rightarrow> nat \<Rightarrow> bytes \<Rightarrow> Disk" where
  "tail_disk d path k bs = AList.update path \<lparr>f_bytes = bs, f_synced = k\<rparr> d"

lemma tail_disk_same: "map_of d path = Some \<lparr>f_bytes = bs, f_synced = k\<rparr> \<Longrightarrow> tail_disk d path k bs = d"
  by (simp add: tail_disk_def update_triv)

lemma writeFull_tail:
  assumes "k \<le> length bs"
  shows "writeFull None (length bs) x (tail_disk d path k (bs @ y)) path =
      (tail_disk d path k (bs @ x @ drop (length x) y), True)"
    and "writeFull (Some i) (length bs) x (tail_disk d path k (bs @ y)) path =
      (tail_disk d path k (bs @ take i x @ drop (length (take i x)) y), False)"
  using assms by (simp_all add: writeFull_def tail_disk_def tail_simps min_absorb1)

lemma rollbackFrame_tail:
  assumes "k \<le> length bs" "\<not> flt_truncate flt"
  shows "rollbackFrame flt (length bs) (tail_disk d path k (bs @ y)) path = tail_disk d path k bs"
  using assms by (simp add: rollbackFrame_def tail_disk_def tail_simps min_absorb1)

lemma writeFull_tail_end:
  assumes "k \<le> length bs" "length h = n"
  shows "writeFull None (length bs + n) x (tail_disk d path k (bs @ h)) path =
      (tail_disk d path k (bs @ h @ x), True)"
    and "writeFull (Some i) (length bs + n) x (tail_disk d path k (bs @ h)) path =
      (tail_disk d path k (bs @ h @ take i x), False)"
  using writeFull_tail [where bs = "bs @ h" and y = "[]"] assms by simp_all

lemma appendStreamedFrame_run:
  assumes "wr_disk w = tail_disk d path k bs" "wr_partialPath w = path" "wr_size w = length bs" "k \<le> length bs"
    and flt: "\<not> flt_truncate flt"
  shows "appendStreamedFrame flt w tx n =
    (case (flt_header flt, WriteTransaction [] tx) of
       (Some _, _) \<Rightarrow> (Inl (Err ''cdc: write placeholder frame header''), tx, wr_disk w)
     | (None, Inl e) \<Rightarrow> (Inl (Wrap ''cdc: stream frame payload'' e), tx, wr_disk w)
     | (None, Inr (p, m)) \<Rightarrow>
         if flt_payload flt \<noteq> None then (Inl (Err ''cdc: stream frame payload''), tx, wr_disk w)
         else if m \<noteq> n then (Inl (Err ''cdc: streamed payload size changed''), tx, wr_disk w)
         else if flt_final flt \<noteq> None then (Inl (Err ''cdc: finalize streamed frame header''), tx, wr_disk w)
         else (Inr (frameHeaderSize + n), CleanupSpill tx,
               tail_disk d path k (bs @ le32 (u32_of_len n) @ le32 (crc32c p) @ p)))"
proof -
  let ?zero = "replicate frameHeaderSize (0 :: byte)"
  note tail = writeFull_tail [OF assms(4), where y = "[]", simplified append_Nil2 drop_Nil]
    rollbackFrame_tail [OF assms(4) flt] rollbackFrame_tail [OF assms(4) flt, where y = "[]", simplified append_Nil2]
    writeFull_tail_end [OF assms(4) length_replicate]
  have final: "writeFull f (length bs) (le32 a @ le32 b) (tail_disk d path k (bs @ ?zero @ p)) path =
      (tail_disk d path k (bs @ (case f of None \<Rightarrow> le32 a @ le32 b @ p
         | Some i \<Rightarrow> take i (le32 a @ le32 b) @ drop (length (take i (le32 a @ le32 b))) (?zero @ p))), f = None)"
    for f a b p
    using assms(4) by (cases f) (simp_all add: writeFull_tail frameHeaderSize_def)
  show ?thesis
  proof (cases "WriteTransaction [] tx")
    case (Inl e)
    then show ?thesis
      by (cases "flt_header flt") (simp_all add: appendStreamedFrame_def Let_def assms(1-3) tail)
  next
    case (Inr pm)
    obtain p m where [simp]: "pm = (p, m)" by force
    show ?thesis
      using Inr
      by (cases "flt_header flt"; cases "flt_payload flt"; cases "flt_final flt")
        (simp_all add: appendStreamedFrame_def Let_def assms(1-3) tail final crc32c_def)
  qed
qed


lemma written_size:
  assumes "transactionPayloadSize tx = Inr n" "WriteTransaction [] tx = Inr pm"
  shows "\<exists>p. pm = (p, length p) \<and> n = length p"
  using WriteTransaction_payload [of tx] assms by (cases pm) auto

lemma appendStreamedFrame_outcome:
  assumes "map_of (wr_disk w) (wr_partialPath w) = Some \<lparr>f_bytes = bs, f_synced = k\<rparr>"
    and "wr_size w = length bs" "k \<le> length bs" "transactionPayloadSize tx = Inr n"
    and run: "appendStreamedFrame flt w tx n = (r, tx', d')" and flt: "\<not> flt_truncate flt"
  shows "case r of Inl _ \<Rightarrow> d' = wr_disk w
    | Inr m \<Rightarrow> \<exists>p. WriteTransaction [] tx = Inr (p, length p) \<and> m = frameHeaderSize + length p \<and>
        d' = AList.update (wr_partialPath w) \<lparr>f_bytes = bs @ frame p, f_synced = k\<rparr> (wr_disk w)"
proof -
  have "wr_disk w = tail_disk (wr_disk w) (wr_partialPath w) k bs"
    using assms(1) by (simp add: tail_disk_same)
  note run = appendStreamedFrame_run [OF this refl assms(2,3) flt, of tx n, unfolded run]
  show ?thesis
  proof (cases "WriteTransaction [] tx")
    case (Inl e)
    with run show ?thesis by (cases "flt_header flt") simp_all
  next
    case (Inr pm)
    then obtain p where p: "pm = (p, length p)" "n = length p"
      using written_size [OF assms(4)] by blast
    show ?thesis
    proof (cases "flt_header flt = None \<and> flt_payload flt = None \<and> flt_final flt = None")
      case True
      with run Inr p have "r = Inr (frameHeaderSize + length p)"
          "d' = AList.update (wr_partialPath w) \<lparr>f_bytes = bs @ frame p, f_synced = k\<rparr> (wr_disk w)"
        by (simp_all add: tail_disk_def frame_def frame_header_def)
      with Inr p show ?thesis by simp
    next
      case False
with run Inr p show ?thesis
        by (cases "flt_header flt"; cases "flt_payload flt"; cases "flt_final flt") simp_all
    qed
  qed
qed

section \<open>The directory through the writer's changes\<close>

definition name_segment :: "string \<Rightarrow> segmentFile option" where
  "name_segment name = map_option (\<lambda>(start, partial).
     \<lparr>sg_path = name, sg_start = start, sg_partial = partial\<rparr>) (parseSegmentName name)"

definition dir_lists :: "Disk \<Rightarrow> segmentFile list \<Rightarrow> bool" where
  "dir_lists d files \<longleftrightarrow> distinct (map fst d) \<and>
     {s. \<exists>n\<in>fst ` set d. name_segment n = Some s} = set files \<and>
     sorted_wrt (<) (map segment_rank files)"

lemma name_segment_path: "name_segment n = Some s \<Longrightarrow> sg_path s = n"
  by (auto simp: name_segment_def)

lemma name_segment_partial [simp]: "name_segment (partial_name start) = Some (partial_file start)"
  by (simp add: name_segment_def parse_partial_name partial_file_def)

lemma name_segment_finalized: "name_segment (segment_name start) = Some (finalized_file (start, ps))"
  by (simp add: name_segment_def parse_segment_name finalized_file_def)

lemma segment_of_name: "segment_of e = name_segment (fst e)"
  by (simp add: segment_of_def name_segment_def)

lemma segment_of_path: "s \<in> set (List.map_filter segment_of d) \<Longrightarrow> sg_path s \<in> fst ` set d"
  by (induction d) (auto simp: segment_of_name map_filter_simps split: option.splits dest: name_segment_path)

lemma distinct_map_filter_segments:
  "distinct (map fst d) \<Longrightarrow> distinct (List.map_filter segment_of d)"
proof (induction d)
  case (Cons e d)
  have "s \<notin> set (List.map_filter segment_of d)" if "segment_of e = Some s" for s
    using that Cons.prems segment_of_path [of s d] by (auto simp: segment_of_name dest: name_segment_path)
  with Cons show ?case by (auto simp: map_filter_simps split: option.split)
qed (simp add: map_filter_simps)

lemma sorted_rank_inj:
  "sorted_wrt (<) (map segment_rank files) \<Longrightarrow> distinct files \<and> inj_on segment_rank (set files) \<and>
     sorted (map segment_rank files)"
  by (metis distinct_map strict_sorted_iff)

lemma dir_lists_listSegments: "dir_lists d files \<Longrightarrow> listSegments d = files"
proof -
  assume d: "dir_lists d files"
  have "set (List.map_filter segment_of d) = {s. \<exists>n\<in>fst ` set d. name_segment n = Some s}"
    by (force simp: map_filter_def segment_of_name)
  with d have set: "set (List.map_filter segment_of d) = set files" by (simp add: dir_lists_def)
  have "distinct (List.map_filter segment_of d)" "distinct files" "inj_on segment_rank (set files)"
      "sorted (map segment_rank files)"
    using d distinct_map_filter_segments sorted_rank_inj by (auto simp: dir_lists_def)
  with set show "listSegments d = files"
    unfolding listSegments_def
    by (intro sort_key_inj_key_eq set_eq_iff_mset_eq_distinct [THEN iffD1]) simp_all
qed

lemma dir_lists_update: "dir_lists d files \<Longrightarrow> path \<in> fst ` set d \<Longrightarrow> dir_lists (AList.update path f d) files"
proof -
  assume "dir_lists d files" "path \<in> fst ` set d"
  moreover then have "fst ` set (AList.update path f d) = fst ` set d"
    by (simp add: update_keys flip: set_map)
  ultimately show ?thesis by (simp add: dir_lists_def distinct_update)
qed

lemma dir_lists_new:
  assumes "dir_lists d files" "name_segment path = Some s" "\<forall>t\<in>set files. segment_rank t < segment_rank s"
  shows "dir_lists (AList.update path f d) (files @ [s])"
proof -
  have "fst ` set (AList.update path f d) = insert path (fst ` set d)"
    by (auto simp add: update_keys simp flip: set_map)
  with assms show ?thesis
    by (auto simp: dir_lists_def distinct_update sorted_wrt_append)
qed

end
