(* ===== verification/SegmentDurability.thy ===== *)
theory SegmentDurability
  imports SegmentWriter
begin

text \<open>
  What the segment writer promises: every operation keeps the directory a sequence of valid
  segments that hold exactly the accepted transactions, a failed append leaves no trace, and
  whatever a \<^verbatim>\<open>Sync\<close> has reported durable is recovered after a crash.

  The specification's view of a writer is the finalized segments \<open>segs\<close> and the open \<open>tail\<close>: its
  start, the payloads an \<^verbatim>\<open>fsync\<close> has covered and the later ones.
\<close>

type_synonym Tail = "(LSN \<times> bytes list \<times> bytes list) option"

fun tail_payloads :: "Tail \<Rightarrow> bytes list" where
  "tail_payloads None = []"
| "tail_payloads (Some (start, dur, undur)) = dur @ undur"

fun tail_durable :: "Tail \<Rightarrow> bytes list" where
  "tail_durable None = []"
| "tail_durable (Some (start, dur, undur)) = dur"

fun tail_files :: "Tail \<Rightarrow> segmentFile list" where
  "tail_files None = []"
| "tail_files (Some (start, dur, undur)) = [partial_file start]"

definition writer_log :: "Segment list \<Rightarrow> Tail \<Rightarrow> bytes list" where
  "writer_log segs tail = seg_payloads segs @ tail_payloads tail"

definition durable_log :: "Segment list \<Rightarrow> Tail \<Rightarrow> bytes list" where
  "durable_log segs tail = seg_payloads segs @ tail_durable tail"

definition log_lsns :: "bytes list \<Rightarrow> LSN \<times> LSN" where
  "log_lsns ps = last_lsns (0, 0) (map payload_lsns ps)"

definition seg_stored :: "Disk \<Rightarrow> Segment \<Rightarrow> bool" where
  "seg_stored d s \<longleftrightarrow> map_of d (segment_name (fst s)) =
     Some \<lparr>f_bytes = segment_bytes (snd s), f_synced = length (segment_bytes (snd s))\<rparr>"

fun tail_stored :: "Writer \<Rightarrow> Tail \<Rightarrow> bool" where
  "tail_stored w None \<longleftrightarrow> \<not> wr_file w"
| "tail_stored w (Some (start, dur, undur)) \<longleftrightarrow> wr_file w \<and> wr_partialPath w = partial_name start \<and>
     wr_size w = length (segment_bytes (dur @ undur)) \<and>
     (dur @ undur \<noteq> [] \<longrightarrow> start \<le> fst (payload_lsns (hd (dur @ undur)))) \<and>
     (\<exists>k. map_of (wr_disk w) (partial_name start) =
            Some \<lparr>f_bytes = segment_bytes (dur @ undur), f_synced = k\<rparr> \<and>
          length (segment_bytes dur) \<le> k \<and> k \<le> length (segment_bytes (dur @ undur)))"

definition writer_inv :: "Writer \<Rightarrow> Segment list \<Rightarrow> Tail \<Rightarrow> bool" where
  "writer_inv w segs tail \<longleftrightarrow>
     dir_lists (wr_disk w) (map finalized_file segs @ tail_files tail) \<and>
     (\<forall>s\<in>set segs. snd s \<noteq> [] \<and> fst s \<le> fst (log_lsns (seg_payloads segs)) \<and> seg_stored (wr_disk w) s) \<and>
     (\<forall>s\<in>set segs. \<forall>t\<in>set (tail_files tail). fst s < sg_start t) \<and>
     tail_stored w tail \<and>
     segment_ok (0, 0) (writer_log segs tail) \<and>
     (wr_lastCommitLSN w, wr_lastEndLSN w) = log_lsns (writer_log segs tail) \<and>
     wr_pendingEndLSN w = wr_lastEndLSN w \<and>
     wr_durableEndLSN w = snd (log_lsns (durable_log segs tail)) \<and>
     subseq (wr_catalog w) (ranges_from (0, 0) segs)"

lemma log_lsns_snoc [simp]: "log_lsns (ps @ [p]) = payload_lsns p"
  by (simp add: log_lsns_def)

section \<open>The end LSN identifies the durable prefix\<close>

lemma chain_last_ge:
  "chain c e ms \<Longrightarrow> c \<le> fst (last_lsns (c, e) ms) \<and> e \<le> snd (last_lsns (c, e) ms) \<and>
     (ms \<noteq> [] \<longrightarrow> c < fst (last_lsns (c, e) ms) \<and> e < snd (last_lsns (c, e) ms))"
proof (induction ms arbitrary: c e)
  case (Cons m ms)
  obtain c' e' where m: "m = (c', e')" by force
  with Cons.prems have "chain c' e' ms" "c < c'" "e < e'" by auto
  with Cons.IH [of c' e'] m show ?case by auto
qed simp

lemma segment_ok_advances:
  assumes "segment_ok m ps" "ps \<noteq> []"
  shows "fst m < fst (last_lsns m (map payload_lsns ps)) \<and> snd m < snd (last_lsns m (map payload_lsns ps))"
  using chain_last_ge [of "fst m" "snd m" "map payload_lsns ps"] assms by (simp add: segment_ok_def)

lemma segment_ok_last_ge:
  assumes "segment_ok (0, 0) (ps @ qs)"
  shows "snd (log_lsns ps) \<le> snd (log_lsns (ps @ qs))" "fst (log_lsns ps) \<le> fst (log_lsns (ps @ qs))"
    and "qs \<noteq> [] \<Longrightarrow> snd (log_lsns ps) < snd (log_lsns (ps @ qs))"
proof -
  obtain c e where ce: "log_lsns ps = (c, e)" by force
  with assms have "chain c e (map payload_lsns qs)"
    by (simp add: segment_ok_append) (simp add: log_lsns_def segment_ok_def)
  from chain_last_ge [OF this] ce
  show "snd (log_lsns ps) \<le> snd (log_lsns (ps @ qs))" "fst (log_lsns ps) \<le> fst (log_lsns (ps @ qs))"
    and "qs \<noteq> [] \<Longrightarrow> snd (log_lsns ps) < snd (log_lsns (ps @ qs))"
    by (simp_all add: log_lsns_def)
qed

lemma segment_ok_snoc:
  "segment_ok (0, 0) (ps @ [p]) \<longleftrightarrow> segment_ok (0, 0) ps \<and> payload_ok p \<and>
     (case (log_lsns ps, payload_lsns p) of ((c, e), (c', e')) \<Rightarrow> c < c' \<and> c' \<le> e' \<and> e < e')"
  by (simp add: segment_ok_append log_lsns_def)
    (auto simp: segment_ok_def split: prod.splits)

lemma segment_ok_hd_le:
  assumes "segment_ok m ps" "ps \<noteq> []"
  shows "fst (payload_lsns (hd ps)) \<le> fst (last_lsns m (map payload_lsns ps))"
proof (cases ps)
  case (Cons p qs)
  then have "segment_ok (payload_lsns p) qs"
    using assms(1) segment_ok_append [of m "[p]" qs] by simp
  then have "fst (payload_lsns p) \<le> fst (last_lsns (payload_lsns p) (map payload_lsns qs))"
    using chain_last_ge [of "fst (payload_lsns p)" "snd (payload_lsns p)" "map payload_lsns qs"]
    by (simp add: segment_ok_def)
  with Cons show ?thesis by simp
qed (use assms in simp)

section \<open>The catalog\<close>

lemma ranges_from_append:
  "ranges_from m (segs @ segs') =
     ranges_from m segs @ ranges_from (last_lsns m (map payload_lsns (seg_payloads segs))) segs'"
  by (induction segs arbitrary: m) (auto simp: seg_payloads_def Let_def)

lemma ranges_after:
  assumes "segment_ok m (seg_payloads segs)" "list_all (\<lambda>s. snd s \<noteq> []) segs" "r \<in> set (ranges_from m segs)"
  shows "fst m < sr_LastCommit r \<and> snd m < sr_LastEnd r"
  using assms
proof (induction segs arbitrary: m)
  case (Cons s segs)
  let ?m = "last_lsns m (map payload_lsns (snd s))"
  have ok: "segment_ok m (snd s)" "segment_ok ?m (seg_payloads segs)"
    using Cons.prems(1) by (simp_all add: seg_payloads_def segment_ok_append)
  have up: "fst m < fst ?m \<and> snd m < snd ?m"
    using segment_ok_advances [OF ok(1)] Cons.prems(2) by simp
  from Cons.prems(3) consider "r \<in> set (ranges_from ?m segs)" | "sr_LastCommit r = fst ?m" "sr_LastEnd r = snd ?m"
    by (auto simp: Let_def)
  then show ?case
  proof cases
    case 1
    with Cons.IH [OF ok(2)] Cons.prems(2) up show ?thesis by fastforce
  qed (use up in simp)
qed simp


lemma ranges_from_starts: "map sr_StartCommit (ranges_from m segs) = map fst segs"
  by (induction segs arbitrary: m) (auto simp: Let_def)

lemma ranges_catalog_ok:
  assumes "sorted_wrt (<) (map fst segs)" "segment_ok m (seg_payloads segs)"
    and "list_all (\<lambda>s. snd s \<noteq> []) segs"
  shows "catalog_ok (ranges_from m segs)"
  using assms
proof (induction segs arbitrary: m)
  case (Cons s segs)
  let ?m = "last_lsns m (map payload_lsns (snd s))"
  have ok: "segment_ok ?m (seg_payloads segs)"
    using Cons.prems(2) by (simp add: seg_payloads_def segment_ok_append)
  have "sr_StartCommit r \<in> fst ` set segs" if "r \<in> set (ranges_from ?m segs)" for r
    using that ranges_from_starts [of ?m segs] by (metis imageI list.set_map)
  moreover have "\<forall>t\<in>set segs. fst s < fst t" "list_all (\<lambda>s. snd s \<noteq> []) segs"
    using Cons.prems by auto
  ultimately have "\<forall>r\<in>set (ranges_from ?m segs). fst s < sr_StartCommit r \<and>
      fst ?m < sr_LastCommit r \<and> snd ?m < sr_LastEnd r"
    using ranges_after [OF ok] by fastforce
  moreover have "catalog_ok (ranges_from ?m segs)"
    using Cons.IH [OF _ ok] Cons.prems by simp
  ultimately show ?case
    by (simp add: catalog_ok_def Let_def range_less_def)
qed (simp add: catalog_ok_def)

lemma catalog_ok_subseq: "subseq c c' \<Longrightarrow> catalog_ok c' \<Longrightarrow> catalog_ok c"
proof (induction rule: list_emb.induct)
  case (list_emb_Cons2 s t c c')
  then have "set c \<subseteq> set c'" by (auto elim: list_emb_set)
  with list_emb_Cons2 show ?case by (auto simp: catalog_ok_def)
qed (auto simp: catalog_ok_def)

section \<open>Names in the directory\<close>

lemma segment_not_partial [simp]: "segment_name a \<noteq> partial_name b" "partial_name b \<noteq> segment_name a"
  using parse_segment_name [of a] parse_partial_name [of b] by (metis option.inject prod.inject)+

lemma segment_name_inj [simp]: "segment_name a = segment_name b \<longleftrightarrow> a = b"
  using parse_segment_name by (metis option.inject prod.inject)

lemma partial_name_inj [simp]: "partial_name a = partial_name b \<longleftrightarrow> a = b"
  using parse_partial_name by (metis option.inject prod.inject)

lemma partial_name_not_Nil [simp]: "partial_name a \<noteq> []"
  by (simp add: partial_name_def)

lemma seg_stored_update [simp]: "seg_stored (AList.update (partial_name a) f d) s \<longleftrightarrow> seg_stored d s"
  by (simp add: seg_stored_def update_conv')

lemma map_of_in_names: "map_of d path = Some f \<Longrightarrow> path \<in> fst ` set d"
  by (force dest: map_of_SomeD)

lemma starts_sorted:
  assumes "dir_lists d (map finalized_file segs @ files)"
  shows "sorted_wrt (<) (map fst segs)"
proof -
  have "segment_rank (finalized_file s) < segment_rank (finalized_file t) \<longleftrightarrow> fst s < fst t" for s t
    by (simp add: segment_rank_def less_prod_def)
  with assms show ?thesis
    by (simp add: dir_lists_def sorted_wrt_append sorted_wrt_map comp_def)
qed

section \<open>Each operation keeps the invariant\<close>

lemma writer_inv_durable_eq:
  assumes "writer_inv w segs tail" "wr_pendingEndLSN w = wr_durableEndLSN w"
  shows "tail_durable tail = tail_payloads tail"
proof (rule ccontr)
  assume ne: "tail_durable tail \<noteq> tail_payloads tail"
  then obtain start dur undur where tail: "tail = Some (start, dur, undur)" "undur \<noteq> []"
    by (cases tail) auto
  with assms have "segment_ok (0, 0) (durable_log segs tail @ undur)"
    by (simp add: writer_inv_def writer_log_def durable_log_def)
  from segment_ok_last_ge(3) [OF this tail(2)] assms tail show False
    by (auto simp: writer_inv_def writer_log_def durable_log_def prod_eq_iff)
qed

lemma syncLocked_inv:
  assumes "writer_inv w segs tail" "syncLocked flt w = (r, w')"
  shows "\<exists>tail'. writer_inv w' segs tail' \<and> tail_payloads tail' = tail_payloads tail \<and>
    tail_files tail' = tail_files tail \<and>
    (case r of Inr _ \<Rightarrow> tail_durable tail' = tail_payloads tail' \<and> wr_durableEndLSN w' = wr_pendingEndLSN w'
     | Inl _ \<Rightarrow> w' = w \<and> tail' = tail)"
proof (cases "wr_file w \<and> wr_pendingEndLSN w \<noteq> wr_durableEndLSN w \<and> \<not> flt_fileSync flt")
  case False
  have "wr_pendingEndLSN w = wr_durableEndLSN w" if "\<not> wr_file w"
    using that assms(1)
    by (cases tail) (auto simp: writer_inv_def durable_log_def writer_log_def prod_eq_iff)
  with False assms writer_inv_durable_eq [OF assms(1)] show ?thesis
    by (intro exI [of _ tail]) (auto simp: syncLocked_def split: if_splits)
next
  case True
  then obtain start dur undur where tail: "tail = Some (start, dur, undur)"
    using assms(1) by (cases tail) (auto simp: writer_inv_def)
  from assms(1) tail obtain k where k: "map_of (wr_disk w) (partial_name start) =
      Some \<lparr>f_bytes = segment_bytes (dur @ undur), f_synced = k\<rparr>" "wr_partialPath w = partial_name start"
    by (auto simp: writer_inv_def)
  have w': "r = Inr ()" "w' = w\<lparr>wr_disk := AList.update (partial_name start)
      \<lparr>f_bytes = segment_bytes (dur @ undur), f_synced = length (segment_bytes (dur @ undur))\<rparr> (wr_disk w),
      wr_durableEndLSN := wr_pendingEndLSN w\<rparr>"
    using assms(2) True k by (auto simp: syncLocked_def tail_write_simps)
  have "wr_pendingEndLSN w = snd (log_lsns (writer_log segs tail))"
    using assms(1) by (auto simp: writer_inv_def prod_eq_iff)
  with assms(1) tail k show ?thesis
    unfolding w'
    by (intro exI [of _ "Some (start, dur @ undur, [])"])
      (auto simp: writer_inv_def writer_log_def durable_log_def map_of_update_same
        intro: dir_lists_update map_of_in_names)
qed


lemma openSegment_inv:
  assumes "writer_inv w segs None" "wr_lastCommitLSN w < start" "openSegment flt w start = (r, w')"
  shows "writer_inv w' segs (case r of Inl _ \<Rightarrow> None | Inr _ \<Rightarrow> Some (start, [], []))"
    and "wr_closed w' = wr_closed w" "wr_lastCommitLSN w' = wr_lastCommitLSN w"
      "wr_lastEndLSN w' = wr_lastEndLSN w"
proof -
  have "\<forall>s\<in>set segs. fst s < start"
    using assms(1,2) by (force simp: writer_inv_def writer_log_def prod_eq_iff)
  moreover then have "dir_lists (AList.update (partial_name start) f (wr_disk w))
      (map finalized_file segs @ [partial_file start])" for f
    using assms(1) by (intro dir_lists_new)
      (auto simp: writer_inv_def segment_rank_def less_prod_def partial_file_def finalized_file_def)
  ultimately show "writer_inv w' segs (case r of Inl _ \<Rightarrow> None | Inr _ \<Rightarrow> Some (start, [], []))"
    using assms(1,3)
    by (auto simp: openSegment_def Let_def writer_inv_def writer_log_def durable_log_def update_conv'
        partial_file_def split: if_splits)
  show "wr_closed w' = wr_closed w" "wr_lastCommitLSN w' = wr_lastCommitLSN w"
      "wr_lastEndLSN w' = wr_lastEndLSN w"
    using assms(3) by (auto simp: openSegment_def Let_def split: if_splits)
qed

lemma partial_image_remove:
  assumes "\<And>n. g n = Some t \<Longrightarrow> n = p" "g p = Some t"
  shows "{s. \<exists>n\<in>S - {p}. g n = Some s} = {s. \<exists>n\<in>S. g n = Some s} - {t}"
proof (intro set_eqI)
  fix s
  have "(\<exists>n\<in>S - {p}. g n = Some s) \<longleftrightarrow> (\<exists>n\<in>S. g n = Some s) \<and> s \<noteq> t"
    using assms by (metis DiffE DiffI insertI1 option.inject singletonD)
  then show "s \<in> {s. \<exists>n\<in>S - {p}. g n = Some s} \<longleftrightarrow> s \<in> {s. \<exists>n\<in>S. g n = Some s} - {t}"
    by simp
qed

lemma dir_lists_rename:
  assumes "dir_lists d (map finalized_file segs @ [partial_file start])" "\<forall>s\<in>set segs. fst s < start"
  shows "dir_lists (rename_file (partial_name start) (segment_name start) d)
    (map finalized_file (segs @ [(start, ps)]))"
proof -
  let ?d = "AList.delete (partial_name start) d"
  have names: "fst ` set ?d = fst ` set d - {partial_name start}"
    using delete_keys [of "partial_name start" d] by (metis set_map set_removeAll)
  have fin: "{s. \<exists>n\<in>fst ` set d. name_segment n = Some s} = insert (partial_file start) (set (map finalized_file segs))"
    using assms(1) by (auto simp: dir_lists_def)
  have not_fin: "partial_file start \<notin> set (map finalized_file segs)"
    by (auto simp: partial_file_def finalized_file_def)
  have uniq: "n = partial_name start" if "name_segment n = Some (partial_file start)" for n
    using name_segment_path [OF that] by (simp add: partial_file_def)
  have "{s. \<exists>n\<in>fst ` set ?d. name_segment n = Some s} = set (map finalized_file segs)"
    unfolding names partial_image_remove [where g = name_segment, OF uniq name_segment_partial, simplified] fin using not_fin by simp
  then have "dir_lists ?d (map finalized_file segs)"
    using assms(1) by (simp add: dir_lists_def distinct_delete sorted_wrt_append)
  then have "dir_lists (AList.update (segment_name start) f ?d)
      (map finalized_file segs @ [finalized_file (start, ps)])" for f
    using assms(2) name_segment_finalized by (intro dir_lists_new)
      (auto simp: segment_rank_def less_prod_def finalized_file_def)
  then show ?thesis by (simp add: rename_file_def)
qed

lemma rotate_catalog:
  assumes "writer_inv w segs tail" "tail = Some (start, dur, undur)" "dur @ undur \<noteq> []"
    and "finalized = \<lparr>sr_Path = segment_name start, sr_StartCommit = start, sr_LastCommit = wr_lastCommitLSN w,
      sr_LastEnd = wr_lastEndLSN w, sr_ValidatedSize = wr_size w\<rparr>"
  shows "ranges_from (0, 0) (segs @ [(start, dur @ undur)]) = ranges_from (0, 0) segs @ [finalized]"
    and "addFinalized finalized (wr_catalog w) = Inr (wr_catalog w @ [finalized])"
proof -
  let ?segs = "segs @ [(start, dur @ undur)]"
  have log: "seg_payloads ?segs = writer_log segs tail"
    using assms(2) by (simp add: seg_payloads_def writer_log_def)
  have lsns: "(wr_lastCommitLSN w, wr_lastEndLSN w) = log_lsns (writer_log segs tail)"
    "segment_ok (0, 0) (seg_payloads ?segs)"
    using assms(1) log by (auto simp: writer_inv_def)
  show ranges: "ranges_from (0, 0) ?segs = ranges_from (0, 0) segs @ [finalized]"
    using assms(1,2,4) lsns(1) by (auto simp: ranges_from_append writer_inv_def log_lsns_def writer_log_def
        Let_def prod_eq_iff)
  have "sorted_wrt (<) (map fst ?segs)"
    using assms(1,2) by (auto simp: writer_inv_def sorted_wrt_append partial_file_def dest: starts_sorted)
  then have "catalog_ok (ranges_from (0, 0) segs @ [finalized])"
    unfolding ranges [symmetric] using lsns(2) assms(1,3)
    by (intro ranges_catalog_ok) (auto simp: list_all_iff writer_inv_def)
  moreover have "subseq (wr_catalog w @ [finalized]) (ranges_from (0, 0) segs @ [finalized])"
    using assms(1) by (intro list_emb_append_mono) (simp_all add: writer_inv_def)
  ultimately have "catalog_ok (wr_catalog w @ [finalized])"
    by (rule catalog_ok_subseq [rotated])
  then show "addFinalized finalized (wr_catalog w) = Inr (wr_catalog w @ [finalized])"
    using addFinalized_ok by (auto simp: catalog_ok_snoc)
qed


lemma syncLocked_frame:
  assumes "syncLocked flt w = (r, w')"
  shows "wr_file w' = wr_file w" "wr_partialPath w' = wr_partialPath w" "wr_size w' = wr_size w"
    "wr_lastCommitLSN w' = wr_lastCommitLSN w" "wr_lastEndLSN w' = wr_lastEndLSN w"
    "wr_catalog w' = wr_catalog w" "wr_closed w' = wr_closed w" "wr_pendingEndLSN w' = wr_pendingEndLSN w"
    "wr_rotationBytes w' = wr_rotationBytes w"
  using assms by (auto simp: syncLocked_def split: if_splits)

lemma rename_inv:
  assumes "writer_inv w segs tail" "tail = Some (start, ps, [])" "ps \<noteq> []" "subseq c (ranges_from (0, 0) (segs @ [(start, ps)]))"
  shows "writer_inv (w\<lparr>wr_disk := rename_file (wr_partialPath w) (segment_name start) (wr_disk w),
      wr_file := False, wr_partialPath := [], wr_size := 0, wr_catalog := c\<rparr>) (segs @ [(start, ps)]) None"
proof -
  have path: "wr_partialPath w = partial_name start"
    and stored: "map_of (wr_disk w) (partial_name start) =
      Some \<lparr>f_bytes = segment_bytes ps, f_synced = length (segment_bytes ps)\<rparr>"
    using assms(1,2) by (auto simp: writer_inv_def)
  have files: "dir_lists (rename_file (partial_name start) (segment_name start) (wr_disk w))
      (map finalized_file (segs @ [(start, ps)]))"
    using assms(1,2) by (intro dir_lists_rename) (auto simp: writer_inv_def partial_file_def)
  have old: "seg_stored (rename_file (partial_name start) (segment_name start) (wr_disk w)) s"
    if "s \<in> set segs" for s
    using that assms(1,2)
    by (fastforce simp: writer_inv_def seg_stored_def rename_file_def update_conv' delete_conv' partial_file_def)
  have new: "seg_stored (rename_file (partial_name start) (segment_name start) (wr_disk w)) (start, ps)"
    using stored by (simp add: seg_stored_def rename_file_def update_conv' file_get_def)
  have log: "writer_log (segs @ [(start, ps)]) None = writer_log segs tail"
    "durable_log (segs @ [(start, ps)]) None = durable_log segs tail"
    using assms(2) by (simp_all add: writer_log_def durable_log_def seg_payloads_def)
  have "segment_ok (0, 0) (seg_payloads segs @ ps)" "(wr_lastCommitLSN w, wr_lastEndLSN w) = log_lsns (seg_payloads segs @ ps)"
    using assms(1,2) by (simp_all add: writer_inv_def writer_log_def)
  then have "fst (payload_lsns (hd ps)) \<le> wr_lastCommitLSN w"
    using segment_ok_hd_le [of "log_lsns (seg_payloads segs)" ps] assms(3)
    by (simp add: segment_ok_append log_lsns_def prod_eq_iff)
  then have "start \<le> wr_lastCommitLSN w"
    using assms(1-3) by (auto simp: writer_inv_def)
  moreover have "seg_payloads (segs @ [(start, ps)]) = writer_log segs tail"
    using assms(2) by (simp add: writer_log_def seg_payloads_def)
  moreover have "\<forall>s\<in>set segs. fst s \<le> fst (log_lsns (seg_payloads segs @ ps))"
    using segment_ok_last_ge(2) [of "seg_payloads segs" ps] assms(1,2)
    by (fastforce simp: writer_inv_def writer_log_def)
  ultimately show ?thesis
    using assms(1-4) path files old new
    unfolding writer_inv_def log by (auto simp: partial_file_def writer_log_def prod_eq_iff)
qed

lemma rotateLocked_inv:
  assumes "writer_inv w segs tail" "tail = Some (start, dur, undur)" "dur @ undur \<noteq> []"
    and "safe_faults flt" "rotateLocked flt w = (r, w')"
  shows "\<exists>segs' tail'. writer_inv w' segs' tail' \<and> writer_log segs' tail' = writer_log segs tail \<and>
    (\<forall>n. r = Inr n \<longrightarrow> segs' = segs @ [(start, dur @ undur)] \<and> tail' = None)"
proof -
  have opened: "wr_file w" "wr_partialPath w = partial_name start"
    using assms(1,2) by (simp_all add: writer_inv_def)
  obtain sr w1 where sync: "syncLocked flt w = (sr, w1)" by force
  obtain tail1 where tail1: "writer_inv w1 segs tail1" "tail_payloads tail1 = tail_payloads tail"
      "tail_files tail1 = tail_files tail"
      "case sr of Inr _ \<Rightarrow> tail_durable tail1 = tail_payloads tail1 \<and> wr_durableEndLSN w1 = wr_pendingEndLSN w1
       | Inl _ \<Rightarrow> w1 = w \<and> tail1 = tail"
    using syncLocked_inv [OF assms(1) sync] by blast
  have log1: "writer_log segs tail1 = writer_log segs tail"
    using tail1(2) by (simp add: writer_log_def)
  note run = assms(5) [unfolded rotateLocked_def Let_def sync]
  note frame = syncLocked_frame [OF sync]
  show ?thesis
  proof (cases "sr")
    case (Inl e)
    with run opened tail1 log1 show ?thesis by auto
  next
    case (Inr u)
    then have dur: "tail_durable tail1 = tail_payloads tail1" using tail1(4) by simp
    then have t1: "tail1 = Some (start, dur @ undur, [])"
      using tail1(2,3) assms(2) by (cases tail1) (auto simp: partial_file_def)
    show ?thesis
    proof (cases "flt_close flt \<or> flt_rename flt")
      case True
      have "w1\<lparr>wr_file := True\<rparr> = w1" using opened frame by simp
      with True run opened Inr assms(4) tail1(1) log1 show ?thesis by (auto simp: safe_faults_def split: if_splits)
    next
      case False
      let ?fin = "\<lparr>sr_Path = segment_name start, sr_StartCommit = start, sr_LastCommit = wr_lastCommitLSN w,
        sr_LastEnd = wr_lastEndLSN w, sr_ValidatedSize = wr_size w\<rparr>"
      have start: "segmentStart (partial_name start) = start"
        by (simp add: segmentStart_def parse_partial_name)
      note cat = rotate_catalog [OF assms(1,2,3), of ?fin, simplified]
      let ?w = "w1\<lparr>wr_disk := rename_file (wr_partialPath w1) (segment_name start) (wr_disk w1),
        wr_file := False, wr_partialPath := [], wr_size := 0\<rparr>"
      have sub: "subseq (wr_catalog w1) (ranges_from (0, 0) segs)"
        using tail1(1) by (simp add: writer_inv_def)
      have inv: "writer_inv (?w\<lparr>wr_catalog := c\<rparr>) (segs @ [(start, dur @ undur)]) None"
        if "c = wr_catalog w1 \<or> c = wr_catalog w1 @ [?fin]" for c
        using that sub assms(3) cat(1)
        by (intro rename_inv [OF tail1(1) t1, of c]) (auto intro: list_emb_append_mono
          subseq_order.trans [OF _ list_emb_append_mono [of _ _ _ "[]"], of _ _ _ "[?fin]", simplified])
      have "r = Inl (Err ''cdc: fsync segment directory'') \<and> w' = ?w\<lparr>wr_catalog := wr_catalog w1\<rparr> \<or>
          r = Inr () \<and> w' = ?w\<lparr>wr_catalog := wr_catalog w1 @ [?fin]\<rparr>"
        using run opened Inr False frame cat(2) start
        by (auto simp: trim_partial_name split: if_splits)
      moreover have "writer_log (segs @ [(start, dur @ undur)]) None = writer_log segs tail"
        using assms(2) by (simp add: writer_log_def seg_payloads_def)
      ultimately show ?thesis using inv by blast
    qed
  qed
qed


text \<open>What an append may do to the log: nothing, and then it failed, or add the transaction's payload.\<close>

definition append_outcome :: "Transaction \<Rightarrow> nat res \<Rightarrow> bytes list \<Rightarrow> bytes list \<Rightarrow> bool" where
  "append_outcome tx r log log' \<longleftrightarrow> log' = log \<and> \<not> is_ok r \<or>
     (\<exists>p. WriteTransaction [] tx = Inr (p, length p) \<and> log' = log @ [p] \<and>
          (\<forall>m. r = Inr m \<longrightarrow> m = frameHeaderSize + length p))"

lemma tail_grows:
  assumes "writer_inv w segs (Some (start, dur, undur))" "WriteTransaction [] tx = Inr (p, length p)"
    and "wr_lastCommitLSN w < tx_CommitLSN tx" "tx_CommitLSN tx \<le> tx_EndLSN tx" "wr_lastEndLSN w < tx_EndLSN tx"
    and "start \<le> tx_CommitLSN tx"
    and "map_of (wr_disk w) (partial_name start) = Some \<lparr>f_bytes = segment_bytes (dur @ undur), f_synced = k\<rparr>"
    and "length (segment_bytes dur) \<le> k" "k \<le> length (segment_bytes (dur @ undur))"
  shows "writer_inv (w\<lparr>wr_disk := AList.update (partial_name start)
      \<lparr>f_bytes = segment_bytes (dur @ undur) @ frame p, f_synced = k\<rparr> (wr_disk w),
      wr_size := wr_size w + (frameHeaderSize + length p), wr_lastCommitLSN := tx_CommitLSN tx,
      wr_lastEndLSN := tx_EndLSN tx, wr_pendingEndLSN := tx_EndLSN tx\<rparr>)
    segs (Some (start, dur, undur @ [p]))"
proof -
  have p: "payload_ok p" "payload_lsns p = (tx_CommitLSN tx, tx_EndLSN tx)"
    using WriteTransaction_payload [OF assms(2)] by auto
  let ?log = "writer_log segs (Some (start, dur, undur))"
  have log: "writer_log segs (Some (start, dur, undur @ [p])) = ?log @ [p]"
    "durable_log segs (Some (start, dur, undur @ [p])) = durable_log segs (Some (start, dur, undur))"
    by (simp_all add: writer_log_def durable_log_def)
  have lsns: "log_lsns ?log = (wr_lastCommitLSN w, wr_lastEndLSN w)" "segment_ok (0, 0) ?log"
    using assms(1) by (simp_all add: writer_inv_def)
  then have ok: "segment_ok (0, 0) (?log @ [p])"
    using assms(3-5) p by (simp add: segment_ok_snoc)
  have files: "dir_lists (AList.update (partial_name start) f (wr_disk w))
      (map finalized_file segs @ tail_files (Some (start, dur, undur)))" for f
    using assms(1,7) by (intro dir_lists_update) (auto simp: writer_inv_def intro: map_of_in_names)
  moreover have "start \<le> fst (payload_lsns (hd (dur @ undur @ [p])))"
    using assms(1,6) p(2) by (cases "dur = []"; cases "undur = []") (auto simp: writer_inv_def hd_append)
  ultimately show ?thesis
    using assms p ok lsns files
    unfolding writer_inv_def log by (auto simp: map_of_update_same length_frame)
qed

lemma appendFrameOpen_inv:
  assumes inv: "writer_inv w segs (Some (start, dur, undur))"
    and order: "wr_lastCommitLSN w < tx_CommitLSN tx" "tx_CommitLSN tx \<le> tx_EndLSN tx" "wr_lastEndLSN w < tx_EndLSN tx"
      "start \<le> tx_CommitLSN tx"
    and "transactionPayloadSize tx = Inr n" "safe_faults flt"
    and run: "appendFrameOpen flt w tx n = (r, tx', w')"
  shows "\<exists>segs' tail'. writer_inv w' segs' tail' \<and>
    append_outcome tx r (writer_log segs (Some (start, dur, undur))) (writer_log segs' tail')"
proof -
  let ?tail = "Some (start, dur, undur)"
  from inv obtain k where k: "map_of (wr_disk w) (partial_name start) =
      Some \<lparr>f_bytes = segment_bytes (dur @ undur), f_synced = k\<rparr>" "length (segment_bytes dur) \<le> k"
      "k \<le> length (segment_bytes (dur @ undur))" "wr_partialPath w = partial_name start"
      "wr_size w = length (segment_bytes (dur @ undur))"
    by (auto simp: writer_inv_def)
  obtain r1 tx1 d1 where written: "(if tx_Spill tx \<noteq> None \<or> n > streamPayloadBytes
      then appendStreamedFrame flt w tx n
      else case appendResidentFrame flt w tx of (r, d) \<Rightarrow> (r, tx, d)) = (r1, tx1, d1)"
    by (metis surj_pair)
  have trunc: "\<not> flt_truncate flt" using assms(7) by (simp add: safe_faults_def)
  have out: "case r1 of Inl _ \<Rightarrow> d1 = wr_disk w
    | Inr m \<Rightarrow> \<exists>p. WriteTransaction [] tx = Inr (p, length p) \<and> m = frameHeaderSize + length p \<and>
        d1 = AList.update (partial_name start) \<lparr>f_bytes = segment_bytes (dur @ undur) @ frame p, f_synced = k\<rparr> (wr_disk w)"
  proof (cases "tx_Spill tx \<noteq> None \<or> n > streamPayloadBytes")
    case True
    with written have "appendStreamedFrame flt w tx n = (r1, tx1, d1)" by simp
    from appendStreamedFrame_outcome [OF _ _ _ _ this, unfolded k(4), OF k(1,5,3) assms(6) trunc]
    show ?thesis .
  next
    case False
    with written have "appendResidentFrame flt w tx = (r1, d1)" by (auto split: prod.splits)
    from appendResidentFrame_outcome [OF _ _ _ trunc this, unfolded k(4), OF k(1,5,3)] show ?thesis .
  qed
  note run = run [unfolded appendFrameOpen_def written]
  have "tx_CommitLSN tx1 = tx_CommitLSN tx" "tx_EndLSN tx1 = tx_EndLSN tx"
    using written
    by (auto simp: appendStreamedFrame_def CleanupSpill_def Let_def writeFull_def
        split: if_splits prod.splits sum.splits option.splits bool.splits)
  show ?thesis
  proof (cases r1)
    case (Inl e)
    with run out inv show ?thesis
      by (intro exI [of _ segs] exI [of _ ?tail]) (auto simp: append_outcome_def)
  next
    case (Inr m)
    with out obtain p where p: "WriteTransaction [] tx = Inr (p, length p)" "m = frameHeaderSize + length p"
        "d1 = AList.update (partial_name start) \<lparr>f_bytes = segment_bytes (dur @ undur) @ frame p, f_synced = k\<rparr> (wr_disk w)"
      by auto
    let ?w = "w\<lparr>wr_disk := d1, wr_size := wr_size w + m, wr_lastCommitLSN := tx_CommitLSN tx,
      wr_lastEndLSN := tx_EndLSN tx, wr_pendingEndLSN := tx_EndLSN tx\<rparr>"
    let ?tail' = "Some (start, dur, undur @ [p])"
    have inv': "writer_inv ?w segs ?tail'"
      unfolding p(2,3) using tail_grows [OF inv p(1) order k(1-3)] by simp
    have log: "writer_log segs ?tail' = writer_log segs ?tail @ [p]"
      by (simp add: writer_log_def)
    show ?thesis
    proof (cases "wr_size ?w \<ge> wr_rotationBytes w")
      case False
      with run Inr \<open>tx_CommitLSN tx1 = _\<close> \<open>tx_EndLSN tx1 = _\<close> have "r = Inr m" "w' = ?w"
        by (auto simp: Let_def)
      with inv' p log show ?thesis
        by (intro exI [of _ segs] exI [of _ ?tail']) (auto simp: append_outcome_def)
    next
      case True
      obtain rr w2 where rot: "rotateLocked flt ?w = (rr, w2)" by force
      from rotateLocked_inv [OF inv' refl _ assms(7) rot] obtain segs2 tail2 where
        rot': "writer_inv w2 segs2 tail2" "writer_log segs2 tail2 = writer_log segs ?tail @ [p]"
        unfolding log by auto
      have "w' = w2" "r = (case rr of Inl e \<Rightarrow> Inl e | Inr _ \<Rightarrow> Inr m)"
        using run Inr True rot \<open>tx_CommitLSN tx1 = _\<close> \<open>tx_EndLSN tx1 = _\<close>
        by (auto simp: Let_def split: sum.splits)
      with rot' p show ?thesis
        by (intro exI [of _ segs2] exI [of _ tail2]) (auto simp: append_outcome_def split: sum.splits)
    qed
  qed
qed


lemma AppendFrame_inv:
  assumes inv: "writer_inv w segs tail" and opened: "\<not> wr_closed w"
    and retry: "\<And>start. tail = Some (start, [], []) \<Longrightarrow> start \<le> tx_CommitLSN tx"
    and flt: "safe_faults flt"
    and run: "AppendFrame flt w (Some tx) = (r, tx', w')"
  shows "\<exists>segs' tail'. writer_inv w' segs' tail' \<and>
    append_outcome tx r (writer_log segs tail) (writer_log segs' tail')"
proof (cases "w' = w \<and> \<not> is_ok r")
  case True
  with inv show ?thesis by (auto simp: append_outcome_def)
next
  case False
  with run opened obtain n where n: "transactionPayloadSize tx = Inr n"
    and order: "wr_lastCommitLSN w < tx_CommitLSN tx" "tx_CommitLSN tx \<le> tx_EndLSN tx" "wr_lastEndLSN w < tx_EndLSN tx"
    and run': "(case (if wr_file w then (Inr (), w) else openSegment flt w (tx_CommitLSN tx)) of
        (Inl e, w) \<Rightarrow> (Inl e, Some tx, w)
      | (Inr _, w) \<Rightarrow> (case appendFrameOpen flt w tx n of (r, tx, w) \<Rightarrow> (r, Some tx, w))) = (r, tx', w')"
    by (cases "transactionPayloadSize tx")
      (auto simp: AppendFrame_def not_le not_less is_ok_iff split: if_splits)
  show ?thesis
  proof (cases tail)
    case (Some t)
    obtain start dur undur where t: "t = (start, dur, undur)" by (cases t)
    have "start \<le> tx_CommitLSN tx"
    proof (cases "dur @ undur = []")
      case False
      have "fst (payload_lsns (hd (dur @ undur))) \<le> wr_lastCommitLSN w"
        using inv False segment_ok_hd_le [of "log_lsns (seg_payloads segs)" "dur @ undur"]
        unfolding Some t by (auto simp: writer_inv_def writer_log_def segment_ok_append log_lsns_def prod_eq_iff)
      then show ?thesis
        using inv False order(1) unfolding Some t by (auto simp: writer_inv_def)
    qed (use retry Some t in simp)
    moreover obtain tx1 where "appendFrameOpen flt w tx n = (r, tx1, w')"
      using run' inv Some t by (auto simp: writer_inv_def split: prod.splits)
    ultimately show ?thesis
      using appendFrameOpen_inv [OF inv [unfolded Some t] order _ n flt] Some t by blast
  next
    case None
    then have "\<not> wr_file w" using inv by (simp add: writer_inv_def)
    obtain ro w1 where o: "openSegment flt w (tx_CommitLSN tx) = (ro, w1)" by force
    note w1 = openSegment_inv [OF inv [unfolded None] order(1) o]
    show ?thesis
    proof (cases ro)
      case (Inl e)
      with run' o \<open>\<not> wr_file w\<close> w1 None show ?thesis
        by (intro exI [of _ segs] exI [of _ None]) (auto simp: append_outcome_def)
    next
      case (Inr u)
      with run' o \<open>\<not> wr_file w\<close> obtain tx1 where a: "appendFrameOpen flt w1 tx n = (r, tx1, w')"
        by (auto split: prod.splits)
      have i: "writer_inv w1 segs (Some (tx_CommitLSN tx, [], []))" using w1(1) Inr by simp
      have "writer_log segs (Some (tx_CommitLSN tx, [], [])) = writer_log segs tail"
        by (simp add: writer_log_def None)
      with appendFrameOpen_inv [OF i _ order(2) _ _ n flt a] order w1 show ?thesis by simp
    qed
  qed
qed

lemma Sync_inv:
  assumes "writer_inv w segs tail" "\<not> wr_closed w" "Sync flt w = (r, w')"
  shows "\<exists>tail'. writer_inv w' segs tail' \<and> writer_log segs tail' = writer_log segs tail \<and> \<not> wr_closed w' \<and>
    (\<forall>lsn. r = Inr lsn \<longrightarrow> durable_log segs tail' = writer_log segs tail \<and> lsn = wr_durableEndLSN w')"
proof -
  obtain sr w1 where sync: "syncLocked flt w = (sr, w1)" by force
  from syncLocked_inv [OF assms(1) sync] obtain tail1 where t: "writer_inv w1 segs tail1"
      "tail_payloads tail1 = tail_payloads tail"
      "\<And>u. sr = Inr u \<Longrightarrow> tail_durable tail1 = tail_payloads tail1"
    by (cases sr) auto
  have "w' = w1" "r = (case sr of Inl e \<Rightarrow> Inl e | Inr _ \<Rightarrow> Inr (wr_durableEndLSN w1))"
    using assms(2,3) sync by (auto simp: Sync_def split: sum.splits)
  with t assms(2) syncLocked_frame(7) [OF sync] show ?thesis
    by (intro exI [of _ tail1]) (auto simp: writer_log_def durable_log_def split: sum.splits)
qed


section \<open>Crash and recovery\<close>

text \<open>
  A crash keeps the directory and every synced byte; what is left is on disk. \<open>crash_any\<close> puts arbitrary bytes after the
  synced part of a tail; \<open>crash_torn\<close> cuts it anywhere behind the synced part.
\<close>

definition crash_any :: "Disk \<Rightarrow> Disk \<Rightarrow> bool" where
  "crash_any d d' \<longleftrightarrow> list_all2 (\<lambda>(path, f) (path', f'). path' = path \<and>
     f_synced f' = length (f_bytes f') \<and> prefix (take (f_synced f) (f_bytes f)) (f_bytes f') \<and>
     (has_suffix path ''.partial'' \<or> f_bytes f' = take (f_synced f) (f_bytes f))) d d'"

definition crash_torn :: "Disk \<Rightarrow> Disk \<Rightarrow> bool" where
  "crash_torn d d' \<longleftrightarrow> list_all2 (\<lambda>(path, f) (path', f'). path' = path \<and>
     f_synced f' = length (f_bytes f') \<and> f_synced f \<le> length (f_bytes f') \<and> prefix (f_bytes f') (f_bytes f) \<and>
     (has_suffix path ''.partial'' \<or> f_bytes f' = take (f_synced f) (f_bytes f))) d d'"

lemma crash_torn_any: "crash_torn d d' \<Longrightarrow> crash_any d d'"
  unfolding crash_torn_def crash_any_def
  by (erule list_all2_mono) (auto intro: prefix_length_prefix take_is_prefix)

lemma crash_any_names: "crash_any d d' \<Longrightarrow> map fst d' = map fst d"
  unfolding crash_any_def by (induction rule: list_all2_induct) auto

lemma crash_map_of:
  assumes "list_all2 (\<lambda>(path, f) (path', f'). path' = path \<and> P path f f') d d'" "map_of d path = Some f"
  shows "\<exists>f'. map_of d' path = Some f' \<and> P path f f'"
  using assms by (induction rule: list_all2_induct) (auto split: if_splits)

lemma segment_name_not_partial_suffix [simp]: "\<not> has_suffix (segment_name a) ''.partial''"
  using has_suffix_last [of "segment_name a" "''.partial''"] by (auto simp: segment_name_def)

lemma crash_finalized:
  assumes "crash_any d d'" "seg_stored d s"
  shows "file_content d' (segment_name (fst s)) = segment_bytes (snd s)" "seg_stored d' s"
proof -
  obtain f' where "map_of d' (segment_name (fst s)) = Some f'" "f_bytes f' = segment_bytes (snd s)"
      "f_synced f' = length (f_bytes f')"
    using crash_map_of [OF assms(1) [unfolded crash_any_def] assms(2) [unfolded seg_stored_def]] by auto
  then show "file_content d' (segment_name (fst s)) = segment_bytes (snd s)" "seg_stored d' s"
    by (cases f', simp_all add: file_content_def seg_stored_def)
qed

lemma crash_dir_lists: "crash_any d d' \<Longrightarrow> dir_lists d files \<Longrightarrow> dir_lists d' files"
  using crash_any_names [of d d'] by (simp add: dir_lists_def flip: set_map)

lemma crash_closed:
  assumes "writer_inv w segs None" "crash_any (wr_disk w) d'"
  shows "recoverDirectory d' = Inr (\<lparr>rc_LastCommitLSN = fst (log_lsns (seg_payloads segs)),
    rc_DurableLSN = snd (log_lsns (seg_payloads segs)), rc_PartialPath = [], rc_TruncatedBytes = 0\<rparr>,
    ranges_from (0, 0) segs, d')"
proof -
  have "dir_lists d' (map finalized_file segs)"
    using assms by (auto simp: writer_inv_def intro: crash_dir_lists)
  moreover have "\<forall>s\<in>set segs. file_content d' (segment_name (fst s)) = segment_bytes (snd s)"
    using assms by (auto simp: writer_inv_def intro: crash_finalized)
  ultimately have "dir_holds d' segs None"
    by (simp add: dir_holds_def dir_lists_listSegments)
  then show ?thesis
    using recoverDirectory_closed assms(1) by (simp add: writer_inv_def writer_log_def log_lsns_def)
qed

lemma crash_tail:
  assumes inv: "writer_inv w segs (Some (start, dur, undur))" and crash: "crash_any (wr_disk w) d'"
  shows "\<exists>more junk. file_content d' (partial_name start) = segment_bytes (dur @ more) @ junk \<and>
    segment_ok (0, 0) (seg_payloads segs @ dur @ more) \<and>
    recoverDirectory d' = Inr (\<lparr>rc_LastCommitLSN = fst (log_lsns (seg_payloads segs @ dur @ more)),
      rc_DurableLSN = snd (log_lsns (seg_payloads segs @ dur @ more)),
      rc_PartialPath = partial_name start, rc_TruncatedBytes = length junk\<rparr>, ranges_from (0, 0) segs,
      AList.update (partial_name start) \<lparr>f_bytes = segment_bytes (dur @ more),
        f_synced = length (segment_bytes (dur @ more))\<rparr> d')"
proof -
  let ?m = "log_lsns (seg_payloads segs)"
  obtain k where k: "map_of (wr_disk w) (partial_name start) = Some \<lparr>f_bytes = segment_bytes (dur @ undur), f_synced = k\<rparr>"
      "length (segment_bytes dur) \<le> k"
    using inv by (auto simp: writer_inv_def)
  obtain f' where f': "map_of d' (partial_name start) = Some f'"
      "prefix (take k (segment_bytes (dur @ undur))) (f_bytes f')"
    using crash_map_of [OF crash [unfolded crash_any_def] k(1)] by auto
  have "prefix (segment_bytes dur) (take k (segment_bytes (dur @ undur)))"
    using k(2) by simp
  then obtain rest where rest: "f_bytes f' = segment_bytes dur @ rest"
    using f'(2) by (meson prefix_def prefix_order.trans)
  have ok: "segment_ok (0, 0) (seg_payloads segs @ dur @ undur)"
    using inv by (simp add: writer_inv_def writer_log_def)
  then have "segment_ok (fst ?m, snd ?m) dur"
    by (simp add: segment_ok_append log_lsns_def)
  from scanSegment_prefix [OF this, of rest] obtain more junk r where m: "rest = segment_bytes more @ junk"
      "segment_ok ?m (dur @ more)"
      "scanSegment (segment_bytes dur @ rest) True (fst ?m) (snd ?m) = Inr (r, segment_bytes (dur @ more))"
      "sr_last r = last_lsns ?m (map payload_lsns (dur @ more))" "sr_truncated r = length junk"
    by auto
  have "dir_lists d' (map finalized_file segs @ [partial_file start])"
    using inv crash by (auto simp: writer_inv_def intro: crash_dir_lists)
  moreover have "\<forall>s\<in>set segs. file_content d' (segment_name (fst s)) = segment_bytes (snd s)"
    using inv crash by (auto simp: writer_inv_def intro: crash_finalized)
  moreover have content: "file_content d' (partial_name start) = segment_bytes dur @ rest"
    using f' rest by (simp add: file_content_def)
  ultimately have holds: "dir_holds d' segs (Some (start, segment_bytes dur @ rest))"
    by (simp add: dir_holds_def dir_lists_listSegments)
  have segs_ok: "segment_ok (0, 0) (seg_payloads segs)"
    using ok by (simp add: segment_ok_append)
  have "sr_last r = log_lsns (seg_payloads segs @ dur @ more)"
    using m(4) by (simp add: log_lsns_def)
  then have lsns: "sr_lastCommitLSN r = fst (log_lsns (seg_payloads segs @ dur @ more))"
      "sr_lastEndLSN r = snd (log_lsns (seg_payloads segs @ dur @ more))"
    by (metis fst_conv sr_last_def, metis snd_conv sr_last_def)
  show ?thesis
  proof (intro exI conjI)
    show "file_content d' (partial_name start) = segment_bytes (dur @ more) @ junk"
      using content m(1) by simp
    show "segment_ok (0, 0) (seg_payloads segs @ dur @ more)"
      using segs_ok m(2) by (simp add: segment_ok_append log_lsns_def)
    show "recoverDirectory d' = Inr (\<lparr>rc_LastCommitLSN = fst (log_lsns (seg_payloads segs @ dur @ more)),
      rc_DurableLSN = snd (log_lsns (seg_payloads segs @ dur @ more)),
      rc_PartialPath = partial_name start, rc_TruncatedBytes = length junk\<rparr>, ranges_from (0, 0) segs,
      AList.update (partial_name start) \<lparr>f_bytes = segment_bytes (dur @ more),
        f_synced = length (segment_bytes (dur @ more))\<rparr> d')"
      using recoverDirectory_tail [OF holds segs_ok m(3)] lsns m(5) by (simp add: log_lsns_def)
  qed
qed


lemma frame_inject:
  assumes "frame p @ a = frame q @ b" "payload_ok p" "payload_ok q"
  shows "p = q"
proof -
  have "length p \<le> max_u32" "length q \<le> max_u32"
    using assms(2,3) by (simp_all add: payload_ok_def maxPayloadSize_def max_u32_def)
  moreover have "le32_of (take 4 (frame p @ a)) = u32_of_len (length p)"
      "le32_of (take 4 (frame q @ b)) = u32_of_len (length q)"
    by (simp_all add: frame_def frame_header_def)
  ultimately have "length p = length q"
    using assms(1) by (metis unat_u32_of_len)
  with assms(1) show ?thesis
    by (simp add: frame_def frame_header_def)
qed

lemma frames_prefix:
  assumes "list_all payload_ok ps" "list_all payload_ok qs" "prefix (segment_bytes ps) (segment_bytes qs)"
  shows "prefix ps qs"
  using assms
proof (induction ps arbitrary: qs)
  case (Cons p ps)
  obtain rest where rest: "segment_bytes qs = frame p @ segment_bytes ps @ rest"
    using Cons.prems(3) by (auto simp: prefix_def)
  then obtain q qs' where qs: "qs = q # qs'"
    by (cases qs) auto
  with rest Cons.prems have "q = p"
    using frame_inject [of q "segment_bytes qs'" p] by simp
  with qs rest Cons show ?case by (auto simp: prefix_def)
qed simp

lemma reopen_inv:
  assumes inv: "writer_inv w segs tail" and crash: "crash_torn (wr_disk w) d'"
    and cfg: "0 \<le> rotationBytes" "0 \<le> workers" "workers \<le> 4"
  shows "\<exists>w' rec tail'. OpenWriter rotationBytes workers d' = Inr (w', rec) \<and> writer_inv w' segs tail' \<and>
    \<not> wr_closed w' \<and> prefix (durable_log segs tail) (writer_log segs tail') \<and>
    prefix (writer_log segs tail') (writer_log segs tail) \<and> durable_log segs tail' = writer_log segs tail'"
proof -
  have any: "crash_any (wr_disk w) d'" using crash by (rule crash_torn_any)
  have stored: "\<forall>s\<in>set segs. seg_stored d' s"
    using inv any by (auto simp: writer_inv_def intro: crash_finalized)
  have files: "dir_lists d' (map finalized_file segs @ tail_files tail)"
    using inv any by (auto simp: writer_inv_def intro: crash_dir_lists)
  show ?thesis
  proof (cases tail)
    case None
    let ?rec = "\<lparr>rc_LastCommitLSN = fst (log_lsns (seg_payloads segs)),
      rc_DurableLSN = snd (log_lsns (seg_payloads segs)), rc_PartialPath = [], rc_TruncatedBytes = 0\<rparr>"
    let ?w = "recovered_writer rotationBytes ?rec (ranges_from (0, 0) segs) d'"
    have "OpenWriter rotationBytes workers d' = Inr (?w, ?rec)"
      using cfg crash_closed [OF inv [unfolded None] any] by (simp add: OpenWriter_def)
    moreover have "writer_inv ?w segs None"
      using inv stored files None
      by (simp add: recovered_writer_def Let_def writer_inv_def writer_log_def durable_log_def)
    ultimately show ?thesis
      using None by (intro exI [of _ ?w] exI [of _ ?rec] exI [of _ None])
        (simp add: writer_log_def durable_log_def recovered_writer_def Let_def)
  next
    case (Some t)
    obtain start dur undur where t: "t = (start, dur, undur)" by (cases t)
    from crash_tail [OF inv [unfolded Some t] any] obtain more junk where
      content: "file_content d' (partial_name start) = segment_bytes (dur @ more) @ junk"
      and ok: "segment_ok (0, 0) (seg_payloads segs @ dur @ more)"
      and rec: "recoverDirectory d' = Inr (\<lparr>rc_LastCommitLSN = fst (log_lsns (seg_payloads segs @ dur @ more)),
      rc_DurableLSN = snd (log_lsns (seg_payloads segs @ dur @ more)),
      rc_PartialPath = partial_name start, rc_TruncatedBytes = length junk\<rparr>, ranges_from (0, 0) segs,
      AList.update (partial_name start) \<lparr>f_bytes = segment_bytes (dur @ more),
        f_synced = length (segment_bytes (dur @ more))\<rparr> d')"
      by blast
    obtain k where k: "map_of (wr_disk w) (partial_name start) = Some \<lparr>f_bytes = segment_bytes (dur @ undur), f_synced = k\<rparr>"
        "dur @ undur \<noteq> [] \<longrightarrow> start \<le> fst (payload_lsns (hd (dur @ undur)))"
        "segment_ok (0, 0) (seg_payloads segs @ dur @ undur)"
      using inv unfolding Some t by (auto simp: writer_inv_def writer_log_def)
    from crash_map_of [OF crash [unfolded crash_torn_def] k(1)] have
      "prefix (file_content d' (partial_name start)) (segment_bytes (dur @ undur))"
      by (auto simp: file_content_def)
    then have "prefix (segment_bytes more) (segment_bytes undur)"
      unfolding content by (auto simp: prefix_def)
    then have more: "prefix more undur"
      using k(3) ok by (intro frames_prefix) (auto simp: segment_ok_def)
    then have hd: "dur @ more \<noteq> [] \<longrightarrow> start \<le> fst (payload_lsns (hd (dur @ more)))"
      using k(2) by (cases dur; cases more) (auto simp: prefix_def)
    let ?rec = "\<lparr>rc_LastCommitLSN = fst (log_lsns (seg_payloads segs @ dur @ more)),
      rc_DurableLSN = snd (log_lsns (seg_payloads segs @ dur @ more)),
      rc_PartialPath = partial_name start, rc_TruncatedBytes = length junk\<rparr>"
    let ?d = "AList.update (partial_name start) \<lparr>f_bytes = segment_bytes (dur @ more),
        f_synced = length (segment_bytes (dur @ more))\<rparr> d'"
    let ?w = "recovered_writer rotationBytes ?rec (ranges_from (0, 0) segs) ?d"
    let ?tail = "Some (start, dur @ more, [])"
    have run: "OpenWriter rotationBytes workers d' = Inr (?w, ?rec)"
      using cfg rec by (simp add: OpenWriter_def)
    have "partial_name start \<in> fst ` set d'"
      using crash_map_of [OF crash [unfolded crash_torn_def] k(1)] by (auto intro: map_of_in_names)
    then have "dir_lists ?d (map finalized_file segs @ [partial_file start])"
      using files unfolding Some t by (intro dir_lists_update) simp_all
    then have "writer_inv ?w segs ?tail"
      using inv stored ok hd unfolding Some t
      by (auto simp: recovered_writer_def Let_def writer_inv_def writer_log_def durable_log_def
          map_of_update_same file_content_def)
    moreover have "prefix (writer_log segs ?tail) (writer_log segs tail)"
        "prefix (durable_log segs tail) (writer_log segs ?tail)"
        "durable_log segs ?tail = writer_log segs ?tail" "\<not> wr_closed ?w"
      using more unfolding Some t by (simp_all add: writer_log_def durable_log_def recovered_writer_def Let_def)
    ultimately show ?thesis
      using run by blast
  qed
qed


section \<open>What is stored\<close>

text \<open>The payloads of a segment file, split by the lengths in the frame headers.\<close>

function frames_of :: "bytes \<Rightarrow> bytes list" where
  "frames_of bs = (let n = unat (le32_of (take 4 bs)) in
     if length bs < frameHeaderSize + n \<or> bs = [] then []
     else take n (drop frameHeaderSize bs) # frames_of (drop (frameHeaderSize + n) bs))"
  by auto
termination
  by (relation "measure length") (auto simp: frameHeaderSize_def)

declare frames_of.simps [simp del]

definition stored :: "Disk \<Rightarrow> bytes list" where
  "stored d = concat (map (\<lambda>s. frames_of (file_content d (sg_path s))) (listSegments d))"

lemma frames_of_segment:
  assumes "list_all payload_ok ps"
  shows "frames_of (segment_bytes ps) = ps"
  using assms
proof (induction ps)
  case (Cons p ps)
  then have "length p \<le> max_u32" by (simp add: payload_ok_def maxPayloadSize_def max_u32_def)
  moreover have "take 4 (frame p @ segment_bytes ps) = le32 (u32_of_len (length p))"
    by (simp add: frame_def frame_header_def)
  moreover have "drop 8 (frame p @ segment_bytes ps) = p @ segment_bytes ps"
    by (simp add: frame_def frame_header_def)
  ultimately show ?case
    using Cons
    by (subst frames_of.simps)
      (simp add: Let_def frameHeaderSize_def length_frame drop_drop [symmetric] add.commute del: drop_drop)
qed (simp add: frames_of.simps)

lemma stored_log:
  assumes "writer_inv w segs tail"
  shows "stored (wr_disk w) = writer_log segs tail"
proof -
  have ok: "list_all payload_ok (writer_log segs tail)"
    using assms by (simp add: writer_inv_def segment_ok_def)
  have "listSegments (wr_disk w) = map finalized_file segs @ tail_files tail"
    using assms by (auto simp: writer_inv_def intro: dir_lists_listSegments)
  moreover have "frames_of (file_content (wr_disk w) (segment_name (fst s))) = snd s" if "s \<in> set segs" for s
  proof -
    have "list_all payload_ok (snd s)"
      using ok that by (fastforce simp: list_all_iff writer_log_def seg_payloads_def)
    with assms that show ?thesis
      by (auto simp: writer_inv_def seg_stored_def file_content_def frames_of_segment)
  qed
  then have "map (\<lambda>s. frames_of (file_content (wr_disk w) (segment_name (fst s)))) segs = map snd segs"
    by simp
  moreover have "concat (map (\<lambda>s. frames_of (file_content (wr_disk w) (sg_path s))) (tail_files tail)) = tail_payloads tail"
    using assms ok
    by (cases tail) (auto simp: writer_inv_def file_content_def writer_log_def partial_file_def
        frames_of_segment simp flip: segment_bytes_simps)
  ultimately show ?thesis
    by (simp add: stored_def writer_log_def seg_payloads_def comp_def cong: map_cong)
qed

section \<open>Reachable writers\<close>

text \<open>
  A fresh directory, then appends, syncs and crashes in any order, with any failures. Two limits:
  transactions come in commit order also when a failed append is retried, and a rename and the
  reopening of the tail after it do not both fail (the writer is left without its tail then).
\<close>

definition retry_order :: "Writer \<Rightarrow> Transaction \<Rightarrow> bool" where
  "retry_order w tx \<longleftrightarrow> wr_file w \<and> wr_size w = 0 \<longrightarrow> segmentStart (wr_partialPath w) \<le> tx_CommitLSN tx"

inductive writer_reach :: "Writer \<Rightarrow> bool" where
  reach_open: "OpenWriter rotationBytes workers [] = Inr (w, rec) \<Longrightarrow> writer_reach w"
| reach_append: "writer_reach w \<Longrightarrow> retry_order w tx \<Longrightarrow> safe_faults flt \<Longrightarrow>
    AppendFrame flt w (Some tx) = (r, tx', w') \<Longrightarrow> writer_reach w'"
| reach_sync: "writer_reach w \<Longrightarrow> Sync flt w = (r, w') \<Longrightarrow> writer_reach w'"
| reach_crash: "writer_reach w \<Longrightarrow> crash_torn (wr_disk w) d \<Longrightarrow>
    OpenWriter rotationBytes workers d = Inr (w', rec) \<Longrightarrow> writer_reach w'"

lemma rotateLocked_closed: "rotateLocked flt w = (r, w') \<Longrightarrow> wr_closed w' = wr_closed w"
  by (auto simp: rotateLocked_def Let_def split: if_splits prod.splits sum.splits dest: syncLocked_frame(7))

lemma appendFrameOpen_closed: "appendFrameOpen flt w tx n = (r, tx', w') \<Longrightarrow> wr_closed w' = wr_closed w"
  unfolding appendFrameOpen_def Let_def
  by (split prod.splits, split sum.splits)+ (auto split: if_splits prod.splits sum.splits dest: rotateLocked_closed)

lemma openSegment_closed: "openSegment flt w start = (r, w') \<Longrightarrow> wr_closed w' = wr_closed w"
  by (auto simp: openSegment_def Let_def split: if_splits)

lemma AppendFrame_closed:
  assumes "AppendFrame flt w (Some tx) = (r, tx', w')"
  shows "wr_closed w' = wr_closed w"
proof (cases "transactionPayloadSize tx")
  case (Inr n)
  with assms show ?thesis
    by (auto simp: AppendFrame_def split: if_splits prod.splits sum.splits
        dest: openSegment_closed appendFrameOpen_closed)
qed (use assms in \<open>auto simp: AppendFrame_def split: if_splits\<close>)


lemma Sync_closed: "Sync flt w = (r, w') \<Longrightarrow> wr_closed w' = wr_closed w"
  by (auto simp: Sync_def split: if_splits prod.splits sum.splits dest: syncLocked_frame(7))

lemma OpenWriter_config:
  "OpenWriter rotationBytes workers d = Inr r \<Longrightarrow> 0 \<le> rotationBytes \<and> 0 \<le> workers \<and> workers \<le> 4"
  by (auto simp: OpenWriter_def split: if_splits)

lemma retry_order_tail:
  assumes "writer_inv w segs (Some (start, [], []))" "retry_order w tx"
  shows "start \<le> tx_CommitLSN tx"
  using assms by (auto simp: writer_inv_def retry_order_def segmentStart_def parse_partial_name)

lemma recover_empty: "OpenWriter rotationBytes workers [] = Inr (w, rec) \<Longrightarrow> writer_inv w [] None \<and> \<not> wr_closed w"
  by (auto simp: OpenWriter_def recoverDirectory_def listSegments_def map_filter_simps Let_def
      recovered_writer_def writer_inv_def dir_lists_def writer_log_def durable_log_def seg_payloads_def
      log_lsns_def split: if_splits)

lemma reach_inv: "writer_reach w \<Longrightarrow> (\<exists>segs tail. writer_inv w segs tail) \<and> \<not> wr_closed w"
proof (induction rule: writer_reach.induct)
  case (reach_open rotationBytes workers w rec)
  then show ?case using recover_empty by blast
next
  case (reach_append w tx flt r tx' w')
  then obtain segs tail where inv: "writer_inv w segs tail" "\<not> wr_closed w" by blast
  from AppendFrame_inv [OF inv _ reach_append(3,4)] retry_order_tail [OF _ reach_append(2)] inv(1)
  obtain segs' tail' where "writer_inv w' segs' tail'" by blast
  with AppendFrame_closed [OF reach_append(4)] inv(2) show ?case by blast
next
  case (reach_sync w flt r w')
  then show ?case using Sync_inv by blast
next
  case (reach_crash w d rotationBytes workers w' rec)
  then obtain segs tail where "writer_inv w segs tail" by blast
  from reopen_inv [OF this reach_crash(2)] OpenWriter_config [OF reach_crash(3)] reach_crash(3)
  show ?case by fastforce
qed

section \<open>The contract, over the stored payloads\<close>

lemma durable_payload_iff:
  assumes "segment_ok (0, 0) (ps @ qs)" "p \<in> set (ps @ qs)"
  shows "snd (payload_lsns p) \<le> snd (log_lsns ps) \<Longrightarrow> p \<in> set ps"
proof (rule ccontr)
  assume le: "snd (payload_lsns p) \<le> snd (log_lsns ps)" and "p \<notin> set ps"
  with assms(2) obtain qs1 qs2 where qs: "qs = qs1 @ p # qs2" by (auto dest: split_list)
  with assms(1) have "segment_ok (0, 0) (ps @ (qs1 @ [p]))"
    using segment_ok_append [of "(0, 0)" "ps @ qs1 @ [p]" qs2] by simp
  from segment_ok_last_ge(3) [OF this] le show False
    by (simp flip: append_assoc)
qed

text \<open>What a crash and the following recovery leave of a writer's log.\<close>

lemma reopen_durable:
  assumes inv: "writer_inv w segs tail" and "crash_torn (wr_disk w) d" "0 \<le> rotationBytes" "0 \<le> workers" "workers \<le> 4"
  shows "\<exists>w' rec. OpenWriter rotationBytes workers d = Inr (w', rec) \<and>
    prefix (stored (wr_disk w')) (stored (wr_disk w)) \<and>
    wr_durableEndLSN w \<le> wr_durableEndLSN w' \<and>
    wr_durableEndLSN w' = snd (log_lsns (stored (wr_disk w'))) \<and>
    (\<forall>p\<in>set (stored (wr_disk w)). snd (payload_lsns p) \<le> wr_durableEndLSN w \<longrightarrow> p \<in> set (stored (wr_disk w')))"
proof -
  from reopen_inv [OF inv assms(2-5)] obtain w' rec tail' where w':
      "OpenWriter rotationBytes workers d = Inr (w', rec)" "writer_inv w' segs tail'"
      "prefix (durable_log segs tail) (writer_log segs tail')" "prefix (writer_log segs tail') (writer_log segs tail)"
      "durable_log segs tail' = writer_log segs tail'" by blast
  obtain more where more: "writer_log segs tail' = durable_log segs tail @ more"
    using w'(3) by (auto simp: prefix_def)
  obtain rest where rest: "writer_log segs tail = durable_log segs tail @ rest"
    using w'(3,4) by (auto simp: prefix_def)
  have ok: "segment_ok (0, 0) (durable_log segs tail @ more)" "segment_ok (0, 0) (durable_log segs tail @ rest)"
    using inv w'(2) more rest by (simp_all add: writer_inv_def)
  have dur: "wr_durableEndLSN w = snd (log_lsns (durable_log segs tail))"
      "wr_durableEndLSN w' = snd (log_lsns (writer_log segs tail'))"
    using inv w'(2,5) by (simp_all add: writer_inv_def)
  have "\<forall>p\<in>set (writer_log segs tail). snd (payload_lsns p) \<le> wr_durableEndLSN w \<longrightarrow> p \<in> set (writer_log segs tail')"
    using durable_payload_iff [OF ok(2)] dur(1) more rest by auto
  moreover have "wr_durableEndLSN w \<le> wr_durableEndLSN w'"
    using segment_ok_last_ge(1) [OF ok(1)] dur more by simp
  ultimately show ?thesis
    using w'(1,4) dur(2) stored_log [OF inv] stored_log [OF w'(2)] by auto
qed

section \<open>A concrete run, for the witnesses\<close>

definition example_payload :: bytes where
  "example_payload = wire_transaction payloadVersion example_tx"

definition fresh_writer :: Writer where
  "fresh_writer = recovered_writer 0
     \<lparr>rc_LastCommitLSN = 0, rc_DurableLSN = 0, rc_PartialPath = [], rc_TruncatedBytes = 0\<rparr> [] []"

definition example_writer :: Writer where
  "example_writer = fresh_writer\<lparr>
     wr_disk := [(partial_name 256, \<lparr>f_bytes = frame example_payload, f_synced = 0\<rparr>)],
     wr_file := True, wr_partialPath := partial_name 256, wr_size := frameHeaderSize + length example_payload,
     wr_lastCommitLSN := 256, wr_lastEndLSN := 300, wr_pendingEndLSN := 300\<rparr>"

lemma example_length: "length example_payload < 200"
  by (simp add: example_payload_def example_tx_def example_relation_def example_insert_def example_truncate_def
      wire_transaction_def length_wire_header wire_relation_def wire_column_def wire_change_def
      wire_datum_def wire_bytes_def dat_bytes_def payloadVersion_def wire_list_def)

lemma example_payload_ok: "payload_ok example_payload" "payload_lsns example_payload = (256, 300)"
proof -
  have "WriteTransaction [] example_tx = Inr (example_payload, length example_payload)"
    using example_ok by (simp add: example_payload_def WriteTransaction_resident)
  from WriteTransaction_payload [OF this] show "payload_ok example_payload" "payload_lsns example_payload = (256, 300)"
    by (simp_all add: example_tx_def)
qed

lemma fresh_open: "OpenWriter 0 0 [] = Inr (fresh_writer,
    \<lparr>rc_LastCommitLSN = 0, rc_DurableLSN = 0, rc_PartialPath = [], rc_TruncatedBytes = 0\<rparr>)"
  by (simp add: OpenWriter_def recoverDirectory_def listSegments_def map_filter_simps fresh_writer_def)

lemma fresh_reach: "writer_reach fresh_writer"
  by (rule reach_open [OF fresh_open])

lemma example_append:
  "AppendFrame no_faults fresh_writer (Some example_tx) =
    (Inr (frameHeaderSize + length example_payload), Some example_tx, example_writer)"
proof -
  have run: "AppendTransaction [] example_tx = Inr example_payload"
      "transactionPayloadSize example_tx = Inr (length example_payload)"
    using example_ok by (simp_all add: AppendTransaction_wire transactionPayloadSize_resident example_payload_def)
  have tx: "tx_CommitLSN example_tx = 256" "tx_EndLSN example_tx = 300" "tx_Spill example_tx = None"
    by (simp_all add: example_tx_def)
  have small: "length example_payload \<le> maxPayloadSize" "\<not> streamPayloadBytes < length example_payload"
      "\<not> 2 ^ 30 \<le> frameHeaderSize + length example_payload"
    using example_length by (simp_all add: maxPayloadSize_def streamPayloadBytes_def frameHeaderSize_def)
  have "length (frame_header example_payload) = 8"
    by (simp add: frame_header_def)
  then show ?thesis
    using run tx small
    by (simp add: AppendFrame_def fresh_writer_def recovered_writer_def Let_def no_faults_def openSegment_def
        appendFrameOpen_def appendResidentFrame_def writeFull_def write_at_def file_get_def example_writer_def
        frame_def frameHeaderSize_def not_le)
qed

lemma retry_order_fresh: "retry_order fresh_writer example_tx"
  by (simp add: retry_order_def fresh_writer_def recovered_writer_def Let_def)

lemma no_faults_reopen: "safe_faults no_faults"
  by (simp add: no_faults_def safe_faults_def)

lemma example_reach: "writer_reach example_writer"
  by (rule reach_append [OF fresh_reach retry_order_fresh no_faults_reopen example_append])

section \<open>The properties\<close>



text \<open>C2: \<^verbatim>\<open>AppendFrame\<close>, whichever of its system calls fail, except that the \<^verbatim>\<open>Truncate\<close> that
  rolls a frame back succeeds and that a tail whose rename failed can be opened again (\<open>safe_faults\<close>;
  without them bytes of the failed frame stay behind, or the writer loses its tail), and at every
  rotation: a failed append leaves the stored transactions unchanged or (when only the rotation after it
  failed) stores the transaction, a successful one stores exactly the transaction's payload
  behind the others and returns the frame's size; nothing stored is ever altered.\<close>

theorem append_frame_contract:
  assumes "writer_reach w" "retry_order w tx" "safe_faults flt"
    and "AppendFrame flt w (Some tx) = (r, tx', w')"
  shows "append_outcome tx r (stored (wr_disk w)) (stored (wr_disk w'))"
proof -
  obtain segs tail where inv: "writer_inv w segs tail" "\<not> wr_closed w"
    using reach_inv [OF assms(1)] by blast
  from AppendFrame_inv [OF inv _ assms(3,4)] retry_order_tail [OF _ assms(2)] inv(1)
  obtain segs' tail' where "writer_inv w' segs' tail'"
      "append_outcome tx r (writer_log segs tail) (writer_log segs' tail')" by blast
  with stored_log inv show ?thesis by simp
qed

theorem append_frame_contract_witness:
  "append_outcome example_tx (Inr (frameHeaderSize + length example_payload))
    (stored (wr_disk fresh_writer)) (stored (wr_disk example_writer))"
  by (rule append_frame_contract [OF fresh_reach retry_order_fresh no_faults_reopen example_append])

text \<open>A successful \<^verbatim>\<open>Sync\<close> leaves the stored transactions as they are and reports exactly the
  end LSN of the last one stored: the position handed to PostgreSQL is never ahead of the file.\<close>

theorem sync_reports_stored:
  assumes "writer_reach w" "Sync flt w = (Inr lsn, w')"
  shows "stored (wr_disk w') = stored (wr_disk w) \<and> lsn = wr_durableEndLSN w' \<and>
    lsn = snd (log_lsns (stored (wr_disk w)))"
proof -
  obtain segs tail where inv: "writer_inv w segs tail" "\<not> wr_closed w"
    using reach_inv [OF assms(1)] by blast
  from Sync_inv [OF inv assms(2)] obtain tail' where t: "writer_inv w' segs tail'"
      "writer_log segs tail' = writer_log segs tail" "durable_log segs tail' = writer_log segs tail"
      "lsn = wr_durableEndLSN w'" by blast
  from t(1,3) have "wr_durableEndLSN w' = snd (log_lsns (writer_log segs tail))"
    by (simp add: writer_inv_def)
  with t stored_log inv show ?thesis by simp
qed

theorem sync_reports_stored_witness:
  "\<exists>w'. Sync no_faults example_writer = (Inr 300, w') \<and> stored (wr_disk w') = stored (wr_disk example_writer)"
proof -
  obtain w' where w': "Sync no_faults example_writer = (Inr 300, w')"
    by (simp add: Sync_def syncLocked_def example_writer_def fresh_writer_def recovered_writer_def Let_def no_faults_def)
  from sync_reports_stored [OF example_reach this] w' show ?thesis by blast
qed

text \<open>C7: A tail torn at any byte is recovered to exactly its whole frames.\<close>

theorem torn_tail_recovered:
  assumes "segment_ok (c, e) ps"
  shows "\<exists>r. scanSegment (take k (segment_bytes ps)) True c e = Inr (r, segment_bytes (whole_frames k ps)) \<and>
    sr_last r = last_lsns (c, e) (map payload_lsns (whole_frames k ps))"
  using assms by (rule scanSegment_torn)

theorem torn_tail_recovered_witness:
  "\<exists>r. scanSegment (take 30 (segment_bytes [example_payload])) True 0 0 =
     Inr (r, segment_bytes (whole_frames 30 [example_payload]))"
proof -
  have "segment_ok (0, 0) [example_payload]"
    using example_payload_ok by (simp add: segment_ok_def)
  from torn_tail_recovered [OF this, of 30] show ?thesis by blast
qed

text \<open>C8: Recovery repairs any tail whatever its bytes are, and repairs it once: what it leaves is a
  valid segment that a second recovery, or the stricter scan of a finalized segment, accepts
  unchanged with the same last LSNs and nothing truncated.\<close>

theorem recovery_idempotent:
  assumes "scanSegment content True c e = Inr (r, content')"
  shows "prefix content' content \<and> sr_truncated r = length content - length content' \<and>
    (\<exists>r'. scanSegment content' repair c e = Inr (r', content') \<and> sr_last r' = sr_last r \<and> sr_truncated r' = 0)"
proof -
  from scanSegment_repaired [OF assms] obtain ps tail where *: "content = segment_bytes ps @ tail"
      "content' = segment_bytes ps" "segment_ok (c, e) ps"
      "sr_last r = last_lsns (c, e) (map payload_lsns ps)" "sr_truncated r = length tail" by blast
  with scanSegment_valid [OF *(3), of repair] show ?thesis
    by (auto simp: sr_last_accepts) (simp add: scan_start_def)
qed

theorem recovery_idempotent_witness:
  "scanSegment [1, 2, 3] True 7 9 = Inr ((scan_start 7 9)\<lparr>sr_truncated := 3\<rparr>, []) \<and>
   prefix [] [1, 2, 3 :: byte]"
proof -
  have run: "scanSegment [1, 2, 3] True 7 9 = Inr ((scan_start 7 9)\<lparr>sr_truncated := 3\<rparr>, [])"
    by (simp add: scanSegment_def scan_loop.simps scan_frame_def frameHeaderSize_def)
  from recovery_idempotent [OF run, of True] run show ?thesis by simp
qed

end
