(* ===== verification/SegmentReader.thy ===== *)
theory SegmentReader
  imports SegmentDurability
begin

text \<open>
  The segment reader, \<^verbatim>\<open>internal/cdc/reader.go\<close>: frame by frame through the listed segments, with
  small payloads decoded in memory and large ones streamed into a spill, the order check, the
  durability gate, and \<^verbatim>\<open>Refresh\<close>; and \<^verbatim>\<open>NormalizeEndPosition\<close> of \<^verbatim>\<open>end_position.go\<close>.

  Every operation takes the directory as it is when the operation runs. The reader's open file
  is the entry of its segment list it is reading and the offset; a descriptor survives the
  rename that finalizes its file. The spill directory and its cleaning are left out.
\<close>

section \<open>Large payloads\<close>

text \<open>
  \<^verbatim>\<open>readLargeTransaction\<close>: the changes are checked one by one and their bytes teed into the
  spill; the checksum covers the payload.
\<close>

definition readLargeTransaction :: "bytes \<Rightarrow> nat \<Rightarrow> u32 \<Rightarrow> Transaction res" where
  "readLargeTransaction rest len expected =
     rbind (decodeTransactionPrefix \<lparr>rd_data = take len rest, rd_remaining = Some len\<rparr>) (\<lambda>(prefix, r).
     rbind (rd_each (unat (pf_changes prefix)) (rdwrap ''change'' (decodeChangeReader (pf_version prefix))) r)
       (\<lambda>(_, r').
        if rd_remaining r' \<noteq> Some 0
        then Inl (if rd_data r' = [] then IoEOF else Err ''transaction has trailing bytes'')
        else if crc32c (take len rest) \<noteq> expected then Inl (Err ''checksum mismatch'')
        else Inr ((pf_transaction prefix)\<lparr>tx_Spill := Some
          \<lparr>sp_file = Some (take (length (rd_data r) - length (rd_data r')) (rd_data r)),
           sp_changeCount = pf_changes prefix,
           sp_changeBytes = (case rd_remaining r of None \<Rightarrow> 0 | Some n \<Rightarrow> n),
           sp_version = pf_version prefix\<rparr>\<rparr>)))"

text \<open>The spilled form of a transaction.\<close>

definition spilled_form :: "byte \<Rightarrow> Transaction \<Rightarrow> Transaction" where
  "spilled_form version tx = (let file = concat (map (wire_change version) (tx_Changes tx)) in
     tx\<lparr>tx_Changes := [], tx_Spill := Some
       \<lparr>sp_file = Some file, sp_changeCount = u32_of_len (length (tx_Changes tx)),
        sp_changeBytes = length file, sp_version = version\<rparr>\<rparr>)"

lemma count_ok_changes:
  assumes "list_all ok_change cs" "reads (concat (map (wire_change v) cs)) r r'"
  shows "count_ok (length cs) 7 0 r"
  using change_rd.items_fit [of v cs "[]" r r' 0] assms by simp

lemma readLargeTransaction_inv:
  assumes "readLargeTransaction (p @ rest) (length p) expected = Inr tx'" "length p \<le> maxPayloadSize"
  shows "\<exists>tx. UnmarshalTransaction p = Inr tx \<and> crc32c p = expected \<and> tx' = spilled_form (p ! 4) tx"
proof -
  let ?r0 = "\<lparr>rd_data = p, rd_remaining = Some (length p)\<rparr>"
  from assms(1) obtain pf r cs r' where *: "decodeTransactionPrefix ?r0 = Inr (pf, r)"
      "rd_each (unat (pf_changes pf)) (decodeChangeReader (pf_version pf)) r = Inr (cs, r')"
      "rd_remaining r' = Some 0" "crc32c p = expected"
      "tx' = (pf_transaction pf)\<lparr>tx_Spill := Some
          \<lparr>sp_file = Some (take (length (rd_data r) - length (rd_data r')) (rd_data r)),
           sp_changeCount = pf_changes pf, sp_changeBytes = (case rd_remaining r of None \<Rightarrow> 0 | Some n \<Rightarrow> n),
           sp_version = pf_version pf\<rparr>\<rparr>"
    by (auto simp: readLargeTransaction_def res_simps change_rd.rd_each_wrap split: if_splits)
  define v where "v = pf_version pf"
  define tx where "tx = (pf_transaction pf)\<lparr>tx_Changes := cs\<rparr>"
  note pf = decodeTransactionPrefix_inv [OF *(1)]
  from *(2) have cs: "length cs = unat (pf_changes pf)" "list_all ok_change cs"
      "map (canon_change v) cs = cs" "reads (concat (map (wire_change v) cs)) r r'"
    by (simp_all add: change_rd.rd_each_iff v_def)
  have hdr: "reads (wire_header v (pf_transaction pf) @ le32 (pf_changes pf)) ?r0 r"
    using pf by (simp add: v_def)
  have r': "rd_data r' = []"
    using hdr cs(4) *(3) by (auto simp: reads_def shrink_def)
  have data: "p = wire_header v (pf_transaction pf) @ le32 (pf_changes pf) @ concat (map (wire_change v) cs)"
      "rd_data r = concat (map (wire_change v) cs)" "rd_remaining r = Some (length (concat (map (wire_change v) cs)))"
    using hdr cs(4) r' by (simp_all add: reads_def shrink_def)
  have wire: "p = wire_transaction v tx"
    using data(1) cs(1) by (simp add: wire_transaction_def wire_list_def tx_def wire_header_def)
  have ok: "ok_transaction tx" "valid_time (tx_CommitTime tx)" "v = 1 \<or> v = payloadVersion" "tx_Spill tx = None"
    using pf cs(1,2) by (auto simp: tx_def ok_transaction_def too_large_def v_def)
  have canon: "canon_transaction v tx = tx"
    using cs(3) ok(4) by (simp add: canon_transaction_def tx_def)
  have "UnmarshalTransaction p = Inr tx"
    using Unmarshal_wire [OF ok(3,1,2)] assms(2) wire canon by simp
  moreover have "p ! 4 = v"
    using data(1) by (simp add: wire_header_def nth_append)
  moreover have "tx' = spilled_form v tx"
    using *(5) data r' cs(1) pf by (simp add: spilled_form_def tx_def v_def Let_def)
  ultimately show ?thesis using *(4) by blast
qed

lemma readLargeTransaction_run:
  assumes "UnmarshalTransaction p = Inr tx" "crc32c p = expected"
  shows "readLargeTransaction (p @ rest) (length p) expected = Inr (spilled_form (p ! 4) tx)"
proof -
  from Unmarshal_inv [OF assms(1)] obtain v where v: "v = 1 \<or> v = payloadVersion" "p ! 4 = v"
      "ok_transaction tx" "valid_time (tx_CommitTime tx)" "canon_transaction v tx = tx" "p = wire_transaction v tx"
    by blast
  let ?cs = "concat (map (wire_change v) (tx_Changes tx))"
  let ?n = "u32_of_len (length (tx_Changes tx))"
  let ?r = "\<lparr>rd_data = ?cs, rd_remaining = Some (length ?cs)\<rparr>" and ?r' = "\<lparr>rd_data = [], rd_remaining = Some 0\<rparr>"
  have hdr: "reads (wire_header v tx @ le32 ?n) \<lparr>rd_data = p, rd_remaining = Some (length p)\<rparr> ?r"
    using v(6) by (simp add: reads_def shrink_def wire_transaction_def wire_list_def)
  have cs: "reads ?cs ?r ?r'"
    by (simp add: reads_def shrink_def)
  have okc: "list_all ok_change (tx_Changes tx)" "list_all ok_relation (tx_Relations tx)"
      "\<not> too_large (tx_Relations tx)" "unat ?n = length (tx_Changes tx)"
    using v(3) by (auto simp: ok_transaction_def too_large_def)
  have spill: "tx_Spill tx = None" "map (canon_change v) (tx_Changes tx) = tx_Changes tx"
    using v(5) by (metis (no_types) Transaction.select_convs(6) Transaction.surjective
        Transaction.update_convs(6) canon_transaction_def)
      (use v(5) in \<open>cases tx; simp add: canon_transaction_def\<close>)
  have prefix: "decodeTransactionPrefix \<lparr>rd_data = p, rd_remaining = Some (length p)\<rparr> =
      Inr (\<lparr>pf_transaction = tx\<lparr>tx_Changes := [], tx_Spill := None\<rparr>, pf_version = v, pf_changes = ?n\<rparr>, ?r)"
    using count_ok_changes [OF okc(1) cs] okc v by (intro decodeTransactionPrefix_run hdr) simp_all
  have "rd_each (length (tx_Changes tx)) (rdwrap e (decodeChangeReader v)) ?r = Inr (tx_Changes tx, ?r')" for e
    using cs okc spill(2) by (simp add: change_rd.rd_each_wrap change_rd.rd_each_iff)
  with prefix okc(4) assms(2) v(2) spill(1) show ?thesis
    by (simp add: readLargeTransaction_def spilled_form_def Let_def)
qed

lemma materialize_spilled_form:
  assumes "UnmarshalTransaction p = Inr tx"
  shows "materializeChanges (spilled_form (p ! 4) tx) = Inr tx"
proof -
  from Unmarshal_inv [OF assms] obtain v where v: "p ! 4 = v" "ok_transaction tx" "canon_transaction v tx = tx"
    by blast
  let ?cs = "concat (map (wire_change v) (tx_Changes tx))"
  have okc: "list_all ok_change (tx_Changes tx)" "length (tx_Changes tx) \<le> max_u32"
    using v(2) by (auto simp: ok_transaction_def too_large_def)
  have canon: "map (canon_change v) (tx_Changes tx) = tx_Changes tx" "tx_Spill tx = None"
    using v(3) by (cases tx; simp add: canon_transaction_def)+
  have "reads ?cs \<lparr>rd_data = ?cs, rd_remaining = None\<rparr> \<lparr>rd_data = [], rd_remaining = None\<rparr>"
    by (simp add: reads_def shrink_def)
  then have "rd_each (length (tx_Changes tx)) (rdwrap e (decodeChangeReader v)) \<lparr>rd_data = ?cs, rd_remaining = None\<rparr> =
      Inr (tx_Changes tx, \<lparr>rd_data = [], rd_remaining = None\<rparr>)" for e
    using okc canon by (simp add: change_rd.rd_each_wrap change_rd.rd_each_iff)
  with v(1) okc canon show ?thesis
    by (simp add: materializeChanges_def spilled_form_def Let_def spill_forEachChange_def spill_reader_def
        CleanupSpill_def del: length_concat)
qed


section \<open>The reader's state\<close>

record SegReader =
  rdr_segments :: "segmentFile list"
  rdr_index :: nat
  rdr_file :: "nat option"
  rdr_after :: LSN
  rdr_durableEndLSN :: LSN
  rdr_previousCommit :: LSN
  rdr_previousEnd :: LSN
  rdr_pending :: "Transaction option"
  rdr_closed :: bool

definition NewReader :: "Disk \<Rightarrow> LSN \<Rightarrow> LSN \<Rightarrow> SegReader" where
  "NewReader d after durable = \<lparr>rdr_segments = listSegments d, rdr_index = 0, rdr_file = None,
     rdr_after = after, rdr_durableEndLSN = durable, rdr_previousCommit = 0, rdr_previousEnd = 0,
     rdr_pending = None, rdr_closed = False\<rparr>"

text \<open>What the open descriptor reads: the listed file, or the name it was finalized to.\<close>

definition fd_content :: "Disk \<Rightarrow> segmentFile \<Rightarrow> bytes" where
  "fd_content d s = (case map_of d (sg_path s) of Some f \<Rightarrow> f_bytes f
     | None \<Rightarrow> file_content d (trim_suffix (sg_path s) ''.partial''))"

text \<open>\<^verbatim>\<open>errors.Is(err, io.EOF) || errors.Is(err, io.ErrUnexpectedEOF)\<close>\<close>

fun is_eof :: "error \<Rightarrow> bool" where
  "is_eof IoEOF = True"
| "is_eof IoUnexpectedEOF = True"
| "is_eof (Wrap msg e) = is_eof e"
| "is_eof _ = False"

definition validateOrder :: "Transaction \<Rightarrow> LSN \<Rightarrow> LSN \<Rightarrow> unit res" where
  "validateOrder tx previousCommit previousEnd =
     (if tx_CommitLSN tx \<le> previousCommit \<or> tx_EndLSN tx < tx_CommitLSN tx
      then Inl (Err ''cdc: non-monotonic commit LSN'')
      else if tx_EndLSN tx \<le> previousEnd then Inl (Err ''cdc: non-monotonic end LSN'')
      else Inr ())"

text \<open>
  \<^verbatim>\<open>readTransaction\<close> on the bytes behind the offset: \<^verbatim>\<open>io.EOF\<close> when there is no whole frame yet
  (the offset is rewound to the frame's start), an error, or the transaction and the frame's
  size.
\<close>

definition read_payload :: "bytes \<Rightarrow> bool \<Rightarrow> nat \<Rightarrow> u32 \<Rightarrow> Transaction res" where
  "read_payload rest partial len expected =
     (if len > streamPayloadBytes then
        (case readLargeTransaction rest len expected of
           Inl e \<Rightarrow> Inl (if partial \<and> is_eof e then IoEOF else Wrap ''cdc: stream transaction'' e)
         | Inr tx \<Rightarrow> Inr tx)
      else if length rest < len then
        Inl (if partial then IoEOF
             else Wrap ''cdc: read frame payload'' (if rest = [] then IoEOF else IoUnexpectedEOF))
      else if crc32c (take len rest) \<noteq> expected then Inl (Err ''cdc: checksum mismatch'')
      else rwrap ''cdc: decode transaction'' (UnmarshalTransaction (take len rest)))"

definition readTransaction :: "bytes \<Rightarrow> bool \<Rightarrow> LSN \<Rightarrow> LSN \<Rightarrow> (Transaction \<times> nat) res" where
  "readTransaction rest partial previousCommit previousEnd =
     (if rest = [] then Inl IoEOF
      else if length rest < frameHeaderSize
      then Inl (if partial then IoEOF else Wrap ''cdc: read frame header'' IoUnexpectedEOF)
      else let len = unat (le32_of (take 4 rest)); expected = le32_of (take 4 (drop 4 rest)) in
        if partial \<and> len = 0 then Inl IoEOF
        else if len > maxPayloadSize then Inl (Err ''cdc: frame length exceeds limit'')
        else rbind (read_payload (drop frameHeaderSize rest) partial len expected) (\<lambda>tx.
          rbind (validateOrder tx previousCommit previousEnd) (\<lambda>_.
          Inr (tx, frameHeaderSize + len))))"

lemma is_eof_wrapped: "rwrap msg r \<noteq> Inl IoEOF"
  by (cases r) auto

lemma readTransaction_progress:
  assumes "readTransaction rest partial c e = Inr (tx, n)"
  shows "frameHeaderSize \<le> n \<and> rest \<noteq> [] \<and> tx_CommitLSN tx > c \<and> tx_EndLSN tx > e"
  using assms
  by (auto simp: readTransaction_def validateOrder_def Let_def res_simps split: if_splits)

section \<open>Next\<close>

text \<open>\<open>resume_index\<close>: where to go on when the listed file has been pruned: the first segment
  from its start on.\<close>

definition resume_index :: "LSN \<Rightarrow> segmentFile list \<Rightarrow> nat" where
  "resume_index start segments = length (takeWhile (\<lambda>s. sg_start s < start) segments)"

text \<open>One turn of the loop of \<^verbatim>\<open>Next\<close>: a result, or another turn in a new state.\<close>

definition next_turn :: "Disk \<Rightarrow> SegReader \<Rightarrow> Transaction res option \<times> SegReader" where
  "next_turn d r =
     (if rdr_index r \<ge> length (rdr_segments r)
      then (Some (Inl (if rdr_file r = None then IoEOF else Err ''panic: index out of range'')), r)
      else let s = rdr_segments r ! rdr_index r in
        if rdr_file r = None \<and> map_of d (sg_path s) = None then
          let updated = listSegments d in
          (None, r\<lparr>rdr_segments := updated, rdr_index := resume_index (sg_start s) updated\<rparr>)
        else let off = (case rdr_file r of None \<Rightarrow> 0 | Some off \<Rightarrow> off); r = r\<lparr>rdr_file := Some off\<rparr> in
          case readTransaction (drop off (fd_content d s)) (sg_partial s) (rdr_previousCommit r) (rdr_previousEnd r) of
            Inl IoEOF \<Rightarrow>
              if sg_partial s then (Some (Inl IoEOF), r)
              else (None, r\<lparr>rdr_file := None, rdr_index := rdr_index r + 1\<rparr>)
          | Inl e \<Rightarrow> (Some (Inl e), r)
          | Inr (tx, n) \<Rightarrow>
              let r = r\<lparr>rdr_file := Some (off + n), rdr_previousCommit := tx_CommitLSN tx,
                        rdr_previousEnd := tx_EndLSN tx\<rparr> in
              if tx_CommitLSN tx \<le> rdr_after r then (None, r)
              else if tx_EndLSN tx > rdr_durableEndLSN r
              then (Some (Inl IoEOF), r\<lparr>rdr_pending := Some tx\<rparr>)
              else (Some (Inr tx), r))"

text \<open>How many listed segments from the index on are gone, how many are left, and how many bytes
  of the open one: each turn lowers this.\<close>

definition missing :: "Disk \<Rightarrow> SegReader \<Rightarrow> nat" where
  "missing d r = length (filter (\<lambda>s. map_of d (sg_path s) = None) (drop (rdr_index r) (rdr_segments r)))"

definition bytes_left :: "Disk \<Rightarrow> SegReader \<Rightarrow> nat" where
  "bytes_left d r = length (fd_content d (rdr_segments r ! rdr_index r)) - (case rdr_file r of None \<Rightarrow> 0 | Some off \<Rightarrow> off)"

lemma listSegments_present: "s \<in> set (listSegments d) \<Longrightarrow> map_of d (sg_path s) \<noteq> None"
  using segment_of_path [of s d] by (auto simp: listSegments_def map_of_eq_None_iff)

lemma next_turn_decreases:
  assumes "next_turn d r = (None, r')"
  shows "missing d r' < missing d r \<or> missing d r' \<le> missing d r \<and>
    (length (rdr_segments r') - rdr_index r' < length (rdr_segments r) - rdr_index r \<or>
     length (rdr_segments r') - rdr_index r' = length (rdr_segments r) - rdr_index r \<and>
     bytes_left d r' < bytes_left d r)"
proof -
  let ?s = "rdr_segments r ! rdr_index r"
  have i: "rdr_index r < length (rdr_segments r)"
    using assms by (auto simp: next_turn_def split: if_splits)
  then have drop: "drop (rdr_index r) (rdr_segments r) = ?s # drop (Suc (rdr_index r)) (rdr_segments r)"
    by (simp add: Cons_nth_drop_Suc)
  show ?thesis
  proof (cases "rdr_file r = None \<and> map_of d (sg_path ?s) = None")
    case True
    then have "rdr_segments r' = listSegments d"
      using assms i by (auto simp: next_turn_def Let_def)
    moreover have "\<forall>t\<in>set (listSegments d). map_of d (sg_path t) \<noteq> None"
      by (blast dest: listSegments_present)
    ultimately have "missing d r' = 0"
      by (auto simp: missing_def filter_empty_conv dest!: in_set_dropD)
    moreover have "missing d r > 0" using True drop by (simp add: missing_def)
    ultimately show ?thesis by simp
  next
    case False
    let ?off = "case rdr_file r of None \<Rightarrow> 0 | Some off \<Rightarrow> off"
    note run = assms [unfolded next_turn_def Let_def]
    show ?thesis
    proof (cases "readTransaction (drop ?off (fd_content d ?s)) (sg_partial ?s) (rdr_previousCommit r) (rdr_previousEnd r)")
      case (Inl e)
      with run i False have "r' = r\<lparr>rdr_file := None, rdr_index := rdr_index r + 1\<rparr>"
        by (cases e) (auto split: if_splits)
      then show ?thesis using i drop by (auto simp: missing_def)
    next
      case (Inr x)
      obtain tx n where x: "x = (tx, n)" by force
      with Inr have n: "0 < n" "?off < length (fd_content d ?s)"
        by (auto simp: frameHeaderSize_def dest!: readTransaction_progress)
      from run i False Inr x have "rdr_segments r' = rdr_segments r" "rdr_index r' = rdr_index r"
          "rdr_file r' = Some (?off + n)"
        by (auto split: if_splits)
      with n show ?thesis by (auto simp: missing_def bytes_left_def)
    qed
  qed
qed

function next_loop :: "Disk \<Rightarrow> SegReader \<Rightarrow> Transaction res \<times> SegReader" where
  "next_loop d r = (case next_turn d r of (Some result, r) \<Rightarrow> (result, r) | (None, r) \<Rightarrow> next_loop d r)"
  by auto
termination
  by (relation "measures [\<lambda>(d, r). missing d r, \<lambda>(d, r). length (rdr_segments r) - rdr_index r,
      \<lambda>(d, r). bytes_left d r]")
    (auto dest!: sym [of "(None, _)"] next_turn_decreases)

declare next_loop.simps [simp del]

definition Next :: "Disk \<Rightarrow> SegReader \<Rightarrow> Transaction res \<times> SegReader" where
  "Next d r =
     (if rdr_closed r then (Inl (Err ''cdc: read from closed segment reader''), r)
      else case rdr_pending r of
        Some tx \<Rightarrow>
          if tx_EndLSN tx > rdr_durableEndLSN r then (Inl IoEOF, r)
          else (Inr tx, r\<lparr>rdr_pending := None\<rparr>)
      | None \<Rightarrow> next_loop d r)"

definition AdvanceDurableEndLSN :: "LSN \<Rightarrow> SegReader \<Rightarrow> unit res \<times> SegReader" where
  "AdvanceDurableEndLSN durable r =
     (if durable < rdr_durableEndLSN r then (Inl (Err ''cdc: durable EndLSN cannot move backward''), r)
      else (Inr (), r\<lparr>rdr_durableEndLSN := durable\<rparr>))"

text \<open>The index of the first element that satisfies the test, or the length.\<close>

definition find_index :: "('a \<Rightarrow> bool) \<Rightarrow> 'a list \<Rightarrow> nat" where
  "find_index test xs = length (takeWhile (\<lambda>x. \<not> test x) xs)"

definition Refresh :: "Disk \<Rightarrow> LSN \<Rightarrow> SegReader \<Rightarrow> unit res \<times> SegReader" where
  "Refresh d durable r = (case AdvanceDurableEndLSN durable r of
     (Inl e, r) \<Rightarrow> (Inl e, r)
   | (Inr _, r) \<Rightarrow> let updated = listSegments d in
       if rdr_file r \<noteq> None \<and> rdr_index r < length (rdr_segments r) then
         let current = rdr_segments r ! rdr_index r;
             i = find_index (\<lambda>s. sg_start s = sg_start current) updated in
         (Inr (), if i < length updated then r\<lparr>rdr_segments := updated, rdr_index := i\<rparr> else r)
       else if rdr_file r = None \<and> rdr_index r \<ge> length (rdr_segments r) then
         let next = (if rdr_segments r = [] then 0
               else let l = last (rdr_segments r) in
                 find_index (\<lambda>s. sg_start s > sg_start l \<or>
                   sg_start s = sg_start l \<and> sg_partial l \<and> sg_partial s) updated) in
         (Inr (), r\<lparr>rdr_segments := updated, rdr_index := next\<rparr>)
       else (Inr (), r\<lparr>rdr_segments := updated\<rparr>))"

definition CloseReader :: "SegReader \<Rightarrow> SegReader" where
  "CloseReader r = (if rdr_closed r then r else r\<lparr>rdr_closed := True, rdr_pending := None, rdr_file := None\<rparr>)"

text \<open>
  \<^verbatim>\<open>ReadTransactionsAfter\<close>: \<^verbatim>\<open>Next\<close> until \<^verbatim>\<open>io.EOF\<close>. The fuel is one more than the bytes in the
  listed segments; every transaction takes at least a header.
\<close>

definition read_fuel :: "Disk \<Rightarrow> nat" where
  "read_fuel d = Suc (sum_list (map (\<lambda>s. length (file_content d (sg_path s))) (listSegments d)))"

fun read_all :: "nat \<Rightarrow> Disk \<Rightarrow> SegReader \<Rightarrow> Transaction list res" where
  "read_all 0 d r = Inl (Err ''out of fuel'')"
| "read_all (Suc fuel) d r = (case Next d r of
     (Inl IoEOF, _) \<Rightarrow> Inr []
   | (Inl e, _) \<Rightarrow> Inl e
   | (Inr tx, r) \<Rightarrow> rbind (materializeChanges tx) (\<lambda>tx. rbind (read_all fuel d r) (\<lambda>txs. Inr (tx # txs))))"

definition ReadTransactionsAfter :: "Disk \<Rightarrow> LSN \<Rightarrow> LSN \<Rightarrow> Transaction list res" where
  "ReadTransactionsAfter d after durable =
     read_all (read_fuel d) d (NewReader d after durable)"

text \<open>\<^verbatim>\<open>NormalizeEndPosition\<close>: the newest durable boundary at or before the request.\<close>

record EndPositionResolution =
  ep_Requested :: LSN
  ep_Boundary :: LSN
  ep_Exact :: bool

fun normalize_loop :: "nat \<Rightarrow> Disk \<Rightarrow> SegReader \<Rightarrow> EndPositionResolution \<Rightarrow> EndPositionResolution res" where
  "normalize_loop 0 d r res = Inl (Err ''out of fuel'')"
| "normalize_loop (Suc fuel) d r res =
     (let finish = (if ep_Boundary res = 0
                    then Inl (Err ''cdc: no durable transaction ends at or before the requested position'')
                    else Inr res) in
      case Next d r of
        (Inl IoEOF, _) \<Rightarrow> finish
      | (Inl e, _) \<Rightarrow> Inl e
      | (Inr tx, r) \<Rightarrow>
          if tx_EndLSN tx > ep_Requested res then finish
          else let res = res\<lparr>ep_Boundary := tx_EndLSN tx\<rparr> in
            if tx_EndLSN tx = ep_Requested res then Inr (res\<lparr>ep_Exact := True\<rparr>)
            else normalize_loop fuel d r res)"

definition NormalizeEndPosition :: "Disk \<Rightarrow> LSN \<Rightarrow> LSN \<Rightarrow> EndPositionResolution res" where
  "NormalizeEndPosition d requested durable =
     (if requested = 0 then Inl (Err ''cdc: zero is not a transaction boundary'')
      else normalize_loop (read_fuel d) d (NewReader d 0 durable)
        \<lparr>ep_Requested = requested, ep_Boundary = 0, ep_Exact = False\<rparr>)"


section \<open>Reading a valid segment directory\<close>

lemma Unmarshal_payload:
  assumes "UnmarshalTransaction p = Inr tx"
  shows "payload_lsns p = (tx_CommitLSN tx, tx_EndLSN tx)" "tx_Spill tx = None"
proof -
  from Unmarshal_inv [OF assms] obtain v where v: "canon_transaction v tx = tx" "p = wire_transaction v tx"
    by blast
  then have "p = payloadMagic @ [v] @ le64 (tx_CommitLSN tx) @ le64 (tx_EndLSN tx) @
      (le64 (t_Unix (tx_CommitTime tx)) @ le32 (t_Nanosecond (tx_CommitTime tx)) @
       wire_list wire_relation (tx_Relations tx) @ wire_list (wire_change v) (tx_Changes tx))"
    by (simp add: wire_transaction_def wire_header_def)
  then show "payload_lsns p = (tx_CommitLSN tx, tx_EndLSN tx)"
    by (simp add: payload_lsns_def)
  show "tx_Spill tx = None"
    using v(1) by (cases tx) (simp add: canon_transaction_def)
qed

text \<open>What \<^verbatim>\<open>Next\<close> hands out for a payload: the transaction, resident or spilled.\<close>

definition handed_out :: "bytes \<Rightarrow> Transaction \<Rightarrow> Transaction" where
  "handed_out p tx = (if length p > streamPayloadBytes then spilled_form (p ! 4) tx else tx)"

lemma handed_out_materialize:
  "UnmarshalTransaction p = Inr tx \<Longrightarrow> materializeChanges (handed_out p tx) = Inr tx"
  using Unmarshal_payload(2) [of p tx]
  by (simp add: handed_out_def materialize_spilled_form, simp add: materializeChanges_def)

lemma handed_out_lsns [simp]:
  "tx_CommitLSN (handed_out p tx) = tx_CommitLSN tx" "tx_EndLSN (handed_out p tx) = tx_EndLSN tx"
  by (simp_all add: handed_out_def spilled_form_def Let_def)

lemma readTransaction_frame:
  assumes "UnmarshalTransaction p = Inr tx" "payload_ok p" "chain c e [payload_lsns p]"
  shows "readTransaction (frame p @ rest) partial c e = Inr (handed_out p tx, length (frame p))"
proof -
  have len: "length p \<le> max_u32" "length p \<le> maxPayloadSize" "21 \<le> length p" "p \<noteq> []"
    using assms(2) by (auto simp: payload_ok_def maxPayloadSize_def max_u32_def)
  have split: "take 4 (frame p @ rest) = le32 (u32_of_len (length p))"
      "take 4 (drop 4 (frame p @ rest)) = le32 (crc32c p)" "drop 8 (frame p @ rest) = p @ rest"
    by (simp_all add: frame_def frame_header_def)
  have "read_payload (p @ rest) partial (length p) (crc32c p) = Inr (handed_out p tx)"
    using assms(1) readLargeTransaction_run [OF assms(1) refl, of rest]
    by (simp add: read_payload_def handed_out_def)
  moreover have "validateOrder (handed_out p tx) c e = Inr ()"
    using assms(3) Unmarshal_payload [OF assms(1)] by (auto simp: validateOrder_def)
  ultimately show ?thesis
    using len split
    by (auto simp: readTransaction_def frameHeaderSize_def Let_def length_frame not_less)
qed

text \<open>The reader stands before the payloads \<open>ps\<close> of the listed segments \<open>L\<close>.\<close>

type_synonym Listing = "(segmentFile \<times> bytes list) list"

definition listing_ok :: "Disk \<Rightarrow> Listing \<Rightarrow> bool" where
  "listing_ok d L \<longleftrightarrow>
     (\<forall>s\<in>set L. \<exists>f. map_of d (sg_path (fst s)) = Some f \<and> f_bytes f = segment_bytes (snd s)) \<and>
     (\<forall>i. Suc i < length L \<longrightarrow> \<not> sg_partial (fst (L ! i)))"

definition readable :: "LSN \<Rightarrow> LSN \<Rightarrow> bytes list \<Rightarrow> bool" where
  "readable c e ps \<longleftrightarrow> segment_ok (c, e) ps \<and> list_all (\<lambda>p. is_ok (UnmarshalTransaction p)) ps"

definition decoded :: "bytes \<Rightarrow> Transaction" where
  "decoded p = (case UnmarshalTransaction p of Inr tx \<Rightarrow> tx | Inl _ \<Rightarrow>
     \<lparr>tx_CommitLSN = 0, tx_EndLSN = 0, tx_CommitTime = \<lparr>t_Unix = 0, t_Nanosecond = 0\<rparr>, tx_Relations = [],
      tx_Changes = [], tx_Spill = None\<rparr>)"

definition rdr_at :: "Disk \<Rightarrow> Listing \<Rightarrow> SegReader \<Rightarrow> bytes list \<Rightarrow> bool" where
  "rdr_at d L r ps \<longleftrightarrow> rdr_segments r = map fst L \<and> rdr_pending r = None \<and> \<not> rdr_closed r \<and>
     readable (rdr_previousCommit r) (rdr_previousEnd r) ps \<and>
     (case rdr_file r of
        None \<Rightarrow> ps = concat (map snd (drop (rdr_index r) L))
      | Some off \<Rightarrow> rdr_index r < length L \<and> (\<exists>pre todo. snd (L ! rdr_index r) = pre @ todo \<and>
          off = length (segment_bytes pre) \<and> ps = todo @ concat (map snd (drop (Suc (rdr_index r)) L))))"

lemma readable_Cons:
  assumes "readable c e (p # ps)"
  shows "UnmarshalTransaction p = Inr (decoded p)" "payload_ok p" "chain c e [payload_lsns p]"
    "payload_lsns p = (tx_CommitLSN (decoded p), tx_EndLSN (decoded p))"
    "readable (tx_CommitLSN (decoded p)) (tx_EndLSN (decoded p)) ps"
proof -
  show dec: "UnmarshalTransaction p = Inr (decoded p)"
    using assms by (auto simp: readable_def decoded_def is_ok_iff)
  show lsns: "payload_lsns p = (tx_CommitLSN (decoded p), tx_EndLSN (decoded p))"
    using Unmarshal_payload(1) [OF dec] .
  show "payload_ok p" "chain c e [payload_lsns p]"
      "readable (tx_CommitLSN (decoded p)) (tx_EndLSN (decoded p)) ps"
    using assms lsns by (auto simp: readable_def segment_ok_def)
qed

lemma next_turn_at:
  assumes at: "rdr_at d L r ps" and L: "listing_ok d L"
  shows "ps = [] \<and> (\<exists>r'. next_turn d r = (Some (Inl IoEOF), r')) \<or>
    (\<exists>r'. next_turn d r = (None, r') \<and> rdr_at d L r' ps \<and> rdr_after r' = rdr_after r \<and>
          rdr_durableEndLSN r' = rdr_durableEndLSN r) \<or>
    (\<exists>p ps' r'. ps = p # ps' \<and> rdr_at d L r' ps' \<and> rdr_after r' = rdr_after r \<and>
          rdr_durableEndLSN r' = rdr_durableEndLSN r \<and> UnmarshalTransaction p = Inr (decoded p) \<and>
          next_turn d r = (let tx = handed_out p (decoded p) in
            if tx_CommitLSN tx \<le> rdr_after r then (None, r')
            else if tx_EndLSN tx > rdr_durableEndLSN r then (Some (Inl IoEOF), r'\<lparr>rdr_pending := Some tx\<rparr>)
            else (Some (Inr tx), r')))"
proof (cases "rdr_index r < length L")
  case False
  with at have "rdr_file r = None" "ps = []" "rdr_segments r = map fst L"
    by (auto simp: rdr_at_def split: option.splits)
  with False show ?thesis by (simp add: next_turn_def)
next
  case True
  let ?i = "rdr_index r" and ?s = "fst (L ! rdr_index r)"
  let ?off = "case rdr_file r of None \<Rightarrow> 0 | Some off \<Rightarrow> off"
  have seg: "rdr_segments r = map fst L" "rdr_segments r ! ?i = ?s" "\<not> length (rdr_segments r) \<le> ?i"
    using at True by (simp_all add: rdr_at_def)
  obtain f where f: "map_of d (sg_path ?s) = Some f" "f_bytes f = segment_bytes (snd (L ! ?i))"
    using L True unfolding listing_ok_def by (meson nth_mem)
  obtain pre todo where pos: "snd (L ! ?i) = pre @ todo" "?off = length (segment_bytes pre)"
      "ps = todo @ concat (map snd (drop (Suc ?i) L))"
    using at True Cons_nth_drop_Suc [OF True, symmetric]
    by (auto simp: rdr_at_def split: option.splits)
  have content: "drop ?off (fd_content d ?s) = segment_bytes todo"
    unfolding pos(2) using f pos(1) by (simp add: fd_content_def)
  have inv: "rdr_pending r = None" "\<not> rdr_closed r" "readable (rdr_previousCommit r) (rdr_previousEnd r) ps"
    using at by (simp_all add: rdr_at_def)
  show ?thesis
  proof (cases todo)
    case Nil
    have turn: "next_turn d r = (if sg_partial ?s then (Some (Inl IoEOF), r\<lparr>rdr_file := Some ?off\<rparr>)
        else (None, r\<lparr>rdr_file := None, rdr_index := ?i + 1\<rparr>))"
      using seg f content Nil by (simp add: next_turn_def Let_def readTransaction_def)
    show ?thesis
    proof (cases "sg_partial ?s")
      case True
      with L \<open>?i < length L\<close> have "Suc ?i = length L"
        unfolding listing_ok_def by (meson not_less_eq Suc_lessI)
      with True turn pos(3) Nil show ?thesis by simp
    next
      case False
      have "rdr_at d L (r\<lparr>rdr_file := None, rdr_index := ?i + 1\<rparr>) ps"
        using at seg inv pos(3) Nil by (simp add: rdr_at_def)
      with False turn show ?thesis by simp
    qed
  next
    case (Cons p todo')
    then have ps: "ps = p # (todo' @ concat (map snd (drop (Suc ?i) L)))"
      using pos(3) by simp
    note p = readable_Cons [OF inv(3) [unfolded ps]]
    have read: "readTransaction (drop ?off (fd_content d ?s)) (sg_partial ?s) (rdr_previousCommit r) (rdr_previousEnd r) =
        Inr (handed_out p (decoded p), length (frame p))"
      unfolding content Cons using readTransaction_frame [OF p(1-3)] by simp
    let ?r = "r\<lparr>rdr_file := Some (?off + length (frame p)), rdr_previousCommit := tx_CommitLSN (decoded p),
      rdr_previousEnd := tx_EndLSN (decoded p)\<rparr>"
    have "rdr_at d L ?r (todo' @ concat (map snd (drop (Suc ?i) L)))"
      using seg inv p(5) True pos(1,2) Cons
      by (auto simp: rdr_at_def intro!: exI [of _ "pre @ [p]"])
    moreover have "next_turn d r = (let tx = handed_out p (decoded p) in
            if tx_CommitLSN tx \<le> rdr_after r then (None, ?r)
            else if tx_EndLSN tx > rdr_durableEndLSN r then (Some (Inl IoEOF), ?r\<lparr>rdr_pending := Some tx\<rparr>)
            else (Some (Inr tx), ?r))"
      using seg f read by (simp add: next_turn_def Let_def)
    ultimately show ?thesis
      using ps p(1) by (intro disjI2) (rule exI [of _ p], rule exI, rule exI [of _ ?r], simp)
  qed
qed


text \<open>What is left to hand out, in order, from the payloads ahead.\<close>

definition due :: "SegReader \<Rightarrow> bytes list \<Rightarrow> bytes list" where
  "due r ps = dropWhile (\<lambda>p. fst (payload_lsns p) \<le> rdr_after r) ps"

lemma next_loop_at:
  assumes "rdr_at d L r ps" "listing_ok d L"
  shows "case due r ps of
      [] \<Rightarrow> fst (next_loop d r) = Inl IoEOF
    | p # qs \<Rightarrow> UnmarshalTransaction p = Inr (decoded p) \<and>
        (if snd (payload_lsns p) > rdr_durableEndLSN r then fst (next_loop d r) = Inl IoEOF
         else \<exists>r'. next_loop d r = (Inr (handed_out p (decoded p)), r') \<and> rdr_at d L r' qs \<and>
                   rdr_after r' = rdr_after r \<and> rdr_durableEndLSN r' = rdr_durableEndLSN r)"
  using assms
proof (induction d r arbitrary: ps rule: next_loop.induct)
  case (1 d r)
  from next_turn_at [OF 1(2,3)] show ?case
  proof (elim disjE exE conjE)
    fix r' assume "ps = []" "next_turn d r = (Some (Inl IoEOF), r')"
    then show ?case by (simp add: next_loop.simps due_def)
  next
    fix r' assume r': "next_turn d r = (None, r')" "rdr_at d L r' ps" "rdr_after r' = rdr_after r"
        "rdr_durableEndLSN r' = rdr_durableEndLSN r"
    then have loop: "next_loop d r = next_loop d r'" by (simp add: next_loop.simps [of d r])
    have due: "due r ps = due r' ps" using r'(3) by (simp add: due_def)
    show ?case
      unfolding loop due using 1(1) [OF r'(1) [symmetric] refl r'(2) 1(3)] unfolding r'(3,4) .
  next
    fix p ps' r'
    assume r': "ps = p # ps'" "rdr_at d L r' ps'" "rdr_after r' = rdr_after r"
        "rdr_durableEndLSN r' = rdr_durableEndLSN r" "UnmarshalTransaction p = Inr (decoded p)"
      and turn: "next_turn d r = (let tx = handed_out p (decoded p) in
            if tx_CommitLSN tx \<le> rdr_after r then (None, r')
            else if tx_EndLSN tx > rdr_durableEndLSN r then (Some (Inl IoEOF), r'\<lparr>rdr_pending := Some tx\<rparr>)
            else (Some (Inr tx), r'))"
    note lsns = Unmarshal_payload(1) [OF r'(5)]
    show ?case
    proof (cases "tx_CommitLSN (decoded p) \<le> rdr_after r")
      case True
      with turn have t: "next_turn d r = (None, r')" by simp
      then have loop: "next_loop d r = next_loop d r'" by (simp add: next_loop.simps [of d r])
      have due: "due r ps = due r' ps'" using True r'(1,3) lsns by (simp add: due_def)
      show ?thesis
        unfolding loop due using 1(1) [OF t [symmetric] refl r'(2) 1(3)] unfolding r'(3,4) .
    next
      case False
      then have "due r ps = p # ps'" using r'(1) lsns by (simp add: due_def)
      with False turn r' lsns show ?thesis
        by (simp add: next_loop.simps [of d r])
    qed
  qed
qed

lemma readable_sorted:
  "readable c e ps \<Longrightarrow> list_all (\<lambda>p. c < fst (payload_lsns p) \<and> e < snd (payload_lsns p)) ps"
proof (induction ps arbitrary: c e)
  case (Cons p ps)
  note p = readable_Cons [OF Cons.prems]
  then have "c < fst (payload_lsns p)" "e < snd (payload_lsns p)" by auto
  with Cons.IH [OF p(5)] p(4) show ?case
    by (auto simp: list_all_iff)
qed simp

lemma readable_tail: "readable c e (ps @ qs) \<Longrightarrow> list_all (\<lambda>p. is_ok (UnmarshalTransaction p)) qs"
  by (simp add: readable_def)

definition wanted :: "LSN \<Rightarrow> LSN \<Rightarrow> bytes list \<Rightarrow> bytes list" where
  "wanted after durable ps =
     filter (\<lambda>p. after < fst (payload_lsns p) \<and> snd (payload_lsns p) \<le> durable) ps"

lemma wanted_due:
  assumes "readable c e ps"
  shows "wanted after durable ps =
    (case dropWhile (\<lambda>p. fst (payload_lsns p) \<le> after) ps of [] \<Rightarrow> []
     | p # qs \<Rightarrow> if snd (payload_lsns p) > durable then [] else p # wanted after durable qs)"
  using assms
proof (induction ps arbitrary: c e)
  case (Cons p ps)
  note p = readable_Cons [OF Cons.prems]
  show ?case
  proof (cases "fst (payload_lsns p) \<le> after")
    case True
    with Cons.IH [OF p(5)] show ?thesis by (simp add: wanted_def not_less)
  next
    case False
    have "wanted after durable ps = []" if "snd (payload_lsns p) > durable"
      using readable_sorted [OF p(5)] p(4) that by (auto simp: wanted_def filter_empty_conv list_all_iff)
    with False show ?thesis by (auto simp: wanted_def)
  qed
qed (simp add: wanted_def)

lemma read_all_at:
  assumes "rdr_at d L r ps" "listing_ok d L" "length ps < fuel"
  shows "read_all fuel d r = Inr (map decoded (wanted (rdr_after r) (rdr_durableEndLSN r) ps))"
  using assms
proof (induction fuel arbitrary: r ps)
  case (Suc fuel)
  have inv: "rdr_pending r = None" "\<not> rdr_closed r" "readable (rdr_previousCommit r) (rdr_previousEnd r) ps"
    using Suc.prems(1) by (simp_all add: rdr_at_def)
  then have "Next d r = next_loop d r" by (simp add: Next_def)
  note loop = next_loop_at [OF Suc.prems(1,2)] wanted_due [OF inv(3), of "rdr_after r" "rdr_durableEndLSN r", folded due_def]
  show ?case
  proof (cases "due r ps")
    case Nil
    with loop \<open>Next d r = _\<close> show ?thesis by (cases "next_loop d r") simp
  next
    case (Cons p qs)
    show ?thesis
    proof (cases "snd (payload_lsns p) > rdr_durableEndLSN r")
      case True
      with loop Cons \<open>Next d r = _\<close> show ?thesis by (cases "next_loop d r") simp
    next
      case False
      with loop(1) Cons obtain r' where r': "next_loop d r = (Inr (handed_out p (decoded p)), r')" "rdr_at d L r' qs"
          "rdr_after r' = rdr_after r" "rdr_durableEndLSN r' = rdr_durableEndLSN r"
          "UnmarshalTransaction p = Inr (decoded p)" by auto
      have "length qs < fuel"
        using Suc.prems(3) Cons length_dropWhile_le [of "\<lambda>p. fst (payload_lsns p) \<le> rdr_after r" ps]
        by (simp add: due_def)
      from Suc.IH [OF r'(2) Suc.prems(2) this] r' loop(2) Cons False \<open>Next d r = _\<close> show ?thesis
        by (simp add: handed_out_materialize)
    qed
  qed
qed simp


section \<open>Reading what a writer stored\<close>

definition tail_listing :: "Tail \<Rightarrow> Listing" where
  "tail_listing tail = map (\<lambda>s. (s, tail_payloads tail)) (tail_files tail)"

definition writer_listing :: "Segment list \<Rightarrow> Tail \<Rightarrow> Listing" where
  "writer_listing segs tail = map (\<lambda>s. (finalized_file s, snd s)) segs @ tail_listing tail"

lemma writer_listing_simps:
  "map fst (writer_listing segs tail) = map finalized_file segs @ tail_files tail"
  "concat (map snd (writer_listing segs tail)) = writer_log segs tail"
  by (cases tail; auto simp: writer_listing_def tail_listing_def writer_log_def seg_payloads_def comp_def)+

lemma writer_listing_ok:
  assumes "writer_inv w segs tail"
  shows "listing_ok (wr_disk w) (writer_listing segs tail)"
proof -
  have "length (tail_listing tail) \<le> 1"
    by (cases tail) (auto simp: tail_listing_def)
  then have "\<forall>i. Suc i < length (writer_listing segs tail) \<longrightarrow> \<not> sg_partial (fst (writer_listing segs tail ! i))"
    by (auto simp: writer_listing_def nth_append)
  moreover have "\<forall>s\<in>set (tail_listing tail). \<exists>f. map_of (wr_disk w) (sg_path (fst s)) = Some f \<and>
      f_bytes f = segment_bytes (snd s)"
    using assms by (cases tail) (auto simp: writer_inv_def tail_listing_def partial_file_def)
  ultimately show ?thesis
    using assms by (auto simp: listing_ok_def writer_listing_def writer_inv_def seg_stored_def)
qed

lemma length_segment_bytes: "length ps \<le> length (segment_bytes ps)"
  by (induction ps) (auto simp: length_frame frameHeaderSize_def)

lemma read_fuel_enough:
  assumes "writer_inv w segs tail"
  shows "length (writer_log segs tail) < read_fuel (wr_disk w)"
proof -
  let ?d = "wr_disk w"
  have "length (concat (map snd L)) \<le> sum_list (map (\<lambda>s. length (file_content ?d (sg_path s))) (map fst L))"
    if "\<forall>s\<in>set L. \<exists>f. map_of ?d (sg_path (fst s)) = Some f \<and> f_bytes f = segment_bytes (snd s)" for L :: Listing
    using that
  proof (induction L)
    case (Cons s L)
    then have "file_content ?d (sg_path (fst s)) = segment_bytes (snd s)"
      by (auto simp: file_content_def)
    with Cons length_segment_bytes [of "snd s"] show ?case by simp
  qed simp
  with writer_listing_ok [OF assms] have
    "length (concat (map snd (writer_listing segs tail))) \<le>
     sum_list (map (\<lambda>s. length (file_content ?d (sg_path s))) (map fst (writer_listing segs tail)))"
    unfolding listing_ok_def by blast
  moreover have "listSegments ?d = map fst (writer_listing segs tail)"
    unfolding writer_listing_simps using assms by (auto simp: writer_inv_def intro: dir_lists_listSegments)
  ultimately show ?thesis
    unfolding read_fuel_def writer_listing_simps(2) by simp
qed

lemma NewReader_at:
  assumes "writer_inv w segs tail" "list_all (\<lambda>p. is_ok (UnmarshalTransaction p)) (writer_log segs tail)"
  shows "rdr_at (wr_disk w) (writer_listing segs tail) (NewReader (wr_disk w) after durable) (writer_log segs tail)"
proof -
  have "listSegments (wr_disk w) = map fst (writer_listing segs tail)"
    unfolding writer_listing_simps using assms(1) by (auto simp: writer_inv_def intro: dir_lists_listSegments)
  with assms show ?thesis
    by (simp add: rdr_at_def NewReader_def writer_listing_simps(2) readable_def writer_inv_def)
qed

lemma decoded_list:
  assumes "list_all2 (\<lambda>p tx. UnmarshalTransaction p = Inr tx) ps txs"
  shows "list_all (\<lambda>p. is_ok (UnmarshalTransaction p)) ps"
    "map decoded (wanted after durable ps) = filter (\<lambda>tx. after < tx_CommitLSN tx \<and> tx_EndLSN tx \<le> durable) txs"
  using assms
  by (induction rule: list_all2_induct) (auto simp: decoded_def wanted_def Unmarshal_payload)

lemma read_writer:
  assumes inv: "writer_inv w segs tail" and "list_all2 (\<lambda>p tx. UnmarshalTransaction p = Inr tx) (stored (wr_disk w)) txs"
  shows "ReadTransactionsAfter (wr_disk w) after durable =
    Inr (filter (\<lambda>tx. after < tx_CommitLSN tx \<and> tx_EndLSN tx \<le> durable) txs)"
proof -
  have txs: "list_all2 (\<lambda>p tx. UnmarshalTransaction p = Inr tx) (writer_log segs tail) txs"
    using assms(2) stored_log [OF inv] by simp
  from read_all_at [OF NewReader_at [OF inv decoded_list(1) [OF txs]] writer_listing_ok [OF inv] read_fuel_enough [OF inv]]
  show ?thesis
    by (simp add: ReadTransactionsAfter_def NewReader_def decoded_list(2) [OF txs])
qed

lemma example_stored:
  "list_all2 (\<lambda>p tx. UnmarshalTransaction p = Inr tx) (stored (wr_disk example_writer)) [example_tx]"
proof -
  have "frames_of (segment_bytes [example_payload]) = [example_payload]"
    using example_payload_ok by (intro frames_of_segment) simp
  moreover have "listSegments (wr_disk example_writer) = [partial_file 256]"
    by (simp add: example_writer_def listSegments_def map_filter_simps segment_of_name)
  ultimately have "stored (wr_disk example_writer) = [example_payload]"
    by (simp add: stored_def example_writer_def partial_file_def file_content_def)
  moreover have "UnmarshalTransaction example_payload = Inr example_tx"
    using Unmarshal_wire [of payloadVersion example_tx] example_ok by (simp add: example_payload_def)
  ultimately show ?thesis by simp
qed

text \<open>C9: The reader over a directory some writer history left hands out exactly the stored
  transactions after the start position whose end is durable, in commit order, each decoded from
  its payload, whether it was small or streamed through a spill, and then reports the end.\<close>

theorem reads_exactly_the_durable:
  assumes "writer_reach w" "list_all2 (\<lambda>p tx. UnmarshalTransaction p = Inr tx) (stored (wr_disk w)) txs"
  shows "ReadTransactionsAfter (wr_disk w) after durable =
    Inr (filter (\<lambda>tx. after < tx_CommitLSN tx \<and> tx_EndLSN tx \<le> durable) txs)"
proof -
  obtain segs tail where "writer_inv w segs tail"
    using reach_inv [OF assms(1)] by blast
  then show ?thesis using assms(2) by (rule read_writer)
qed

theorem reads_exactly_the_durable_witness:
  "ReadTransactionsAfter (wr_disk example_writer) 0 300 = Inr [example_tx] \<and>
   ReadTransactionsAfter (wr_disk example_writer) 0 299 = Inr []"
proof -
  from reads_exactly_the_durable [OF example_reach example_stored] show ?thesis
    by (simp add: example_tx_def)
qed


section \<open>End positions\<close>

text \<open>The boundaries a request may resolve to.\<close>

definition boundaries :: "LSN \<Rightarrow> bytes list \<Rightarrow> LSN list" where
  "boundaries requested ps = filter (\<lambda>e. e \<le> requested) (map (\<lambda>p. snd (payload_lsns p)) ps)"

lemma boundaries_Cons:
  assumes "readable c e (p # ps)" "requested \<le> snd (payload_lsns p)"
  shows "boundaries requested ps = []"
  using readable_sorted [OF readable_Cons(5) [OF assms(1)]] readable_Cons(4) [OF assms(1)] assms(2)
  by (auto simp: boundaries_def filter_empty_conv list_all_iff)

lemma normalize_loop_at:
  assumes "rdr_at d L r ps" "listing_ok d L" "length ps < fuel" "rdr_after r = 0" "\<not> ep_Exact res"
    and "readable 0 0 (wanted 0 (rdr_durableEndLSN r) ps)"
  shows "normalize_loop fuel d r res =
    (let bs = boundaries (ep_Requested res) (wanted 0 (rdr_durableEndLSN r) ps) in
     if bs = [] then
       (if ep_Boundary res = 0
        then Inl (Err ''cdc: no durable transaction ends at or before the requested position'') else Inr res)
     else Inr (res\<lparr>ep_Boundary := last bs, ep_Exact := last bs = ep_Requested res\<rparr>))"
  using assms
proof (induction fuel arbitrary: r ps res)
  case (Suc fuel)
  let ?dur = "rdr_durableEndLSN r" and ?q = "ep_Requested res"
  have inv: "rdr_pending r = None" "\<not> rdr_closed r" "readable (rdr_previousCommit r) (rdr_previousEnd r) ps"
    using Suc.prems(1) by (simp_all add: rdr_at_def)
  then have nxt: "Next d r = next_loop d r" by (simp add: Next_def)
  note loop = next_loop_at [OF Suc.prems(1,2)]
    wanted_due [OF inv(3), of "rdr_after r" ?dur, folded due_def, unfolded Suc.prems(4)]
  show ?case
  proof (cases "due r ps = [] \<or> snd (payload_lsns (hd (due r ps))) > ?dur")
    case True
    with loop have "fst (next_loop d r) = Inl IoEOF" "wanted 0 ?dur ps = []"
      by (cases "due r ps"; auto split: if_splits)+
    then show ?thesis
      using nxt by (cases "next_loop d r") (simp add: boundaries_def)
  next
    case False
    then obtain p qs where p: "due r ps = p # qs" "snd (payload_lsns p) \<le> ?dur"
      by (cases "due r ps") auto
    then have "\<not> ?dur < snd (payload_lsns p)" by simp
    with loop(1) p obtain r' where r': "next_loop d r = (Inr (handed_out p (decoded p)), r')" "rdr_at d L r' qs"
        "rdr_after r' = rdr_after r" "rdr_durableEndLSN r' = ?dur" "UnmarshalTransaction p = Inr (decoded p)"
      by auto
    have want: "wanted 0 ?dur ps = p # wanted 0 ?dur qs"
      using loop(2) p by (simp add: not_less)
    note lsns = Unmarshal_payload(1) [OF r'(5)]
    have rest: "readable 0 0 (wanted 0 ?dur qs)"
      using readable_Cons(5) [OF Suc.prems(6) [unfolded want]]
      by (auto simp: readable_def segment_ok_def intro: chain_weaken)
    have fuel: "length qs < fuel"
      using Suc.prems(3) p length_dropWhile_le [of "\<lambda>p. fst (payload_lsns p) \<le> rdr_after r" ps]
      by (simp add: due_def)
    have none: "?q \<le> snd (payload_lsns p) \<Longrightarrow> boundaries ?q (wanted 0 ?dur qs) = []"
      using boundaries_Cons [OF Suc.prems(6) [unfolded want]] by simp
    have bs: "boundaries ?q (wanted 0 ?dur ps) =
        (if snd (payload_lsns p) \<le> ?q then [snd (payload_lsns p)] else []) @ boundaries ?q (wanted 0 ?dur qs)"
      by (simp add: want boundaries_def)
    consider "tx_EndLSN (decoded p) > ?q" | "tx_EndLSN (decoded p) = ?q" | "tx_EndLSN (decoded p) < ?q"
      by fastforce
    then show ?thesis
    proof cases
      case 1
      then have "boundaries ?q (wanted 0 ?dur ps) = []" using bs none lsns by simp
      with 1 show ?thesis by (simp add: nxt r'(1))
    next
      case 2
      then have "boundaries ?q (wanted 0 ?dur ps) = [?q]" using bs none lsns by simp
      with 2 show ?thesis by (simp add: nxt r'(1) Let_def)
    next
      case 3
      let ?res = "res\<lparr>ep_Boundary := tx_EndLSN (decoded p)\<rparr>"
      have "tx_EndLSN (decoded p) \<noteq> 0"
        using readable_sorted [OF Suc.prems(6) [unfolded want]] lsns by auto
      moreover have step: "normalize_loop (Suc fuel) d r res = normalize_loop fuel d r' ?res"
        using less_not_sym [OF 3] less_imp_neq [OF 3] by (simp add: nxt r'(1) Let_def)
      moreover have "readable 0 0 (wanted 0 (rdr_durableEndLSN r') qs)" "rdr_after r' = 0" "\<not> ep_Exact ?res"
        using rest r'(3,4) Suc.prems(4,5) by simp_all
      note IH = Suc.IH [OF r'(2) Suc.prems(2) fuel this(2,3,1), unfolded r'(4)]
      have noexact: "res\<lparr>ep_Boundary := e, ep_Exact := False\<rparr> = res\<lparr>ep_Boundary := e\<rparr>" for e
        using Suc.prems(5) by (cases res) simp
      have bs: "boundaries ?q (wanted 0 ?dur ps) = tx_EndLSN (decoded p) # boundaries ?q (wanted 0 ?dur qs)"
        using bs lsns 3 by simp
      show ?thesis
        unfolding step IH bs
        using \<open>tx_EndLSN (decoded p) \<noteq> 0\<close> less_imp_neq [OF 3]
        by (cases "boundaries ?q (wanted 0 ?dur qs)") (simp_all add: noexact)
    qed
  qed
qed simp

lemma readable_wanted:
  assumes "readable c e ps"
  shows "readable c e (wanted after durable ps)"
  using assms
proof (induction ps arbitrary: c e)
  case (Cons p ps)
  note p = readable_Cons [OF Cons.prems]
  have le: "c \<le> tx_CommitLSN (decoded p)" "e \<le> tx_EndLSN (decoded p)"
    using readable_sorted [OF Cons.prems] p(4) by auto
  note IH = Cons.IH [OF p(5)]
  show ?case
  proof (cases "after < fst (payload_lsns p) \<and> snd (payload_lsns p) \<le> durable")
    case True
    then have "wanted after durable (p # ps) = p # wanted after durable ps" by (simp add: wanted_def)
    with IH Cons.prems p(4) show ?thesis by (auto simp: readable_def segment_ok_def)
  next
    case False
    then have "wanted after durable (p # ps) = wanted after durable ps" by (simp add: wanted_def)
    with IH le show ?thesis by (auto simp: readable_def segment_ok_def intro: chain_weaken)
  qed
qed (simp add: wanted_def)

text \<open>C10: \<^verbatim>\<open>NormalizeEndPosition\<close> resolves a request to the newest durable transaction boundary at or
  before it, says whether the request is that boundary, and refuses zero and a request before
  the first boundary.\<close>

theorem normalize_end_position:
  assumes "writer_reach w" "list_all2 (\<lambda>p tx. UnmarshalTransaction p = Inr tx) (stored (wr_disk w)) txs"
    and "bs = filter (\<lambda>e. e \<le> requested \<and> e \<le> durable) (map tx_EndLSN txs)"
  shows "NormalizeEndPosition (wr_disk w) requested durable = Inr res \<longleftrightarrow>
    requested \<noteq> 0 \<and> bs \<noteq> [] \<and>
    res = \<lparr>ep_Requested = requested, ep_Boundary = last bs, ep_Exact = (last bs = requested)\<rparr>"
proof -
  obtain segs tail where inv: "writer_inv w segs tail"
    using reach_inv [OF assms(1)] by blast
  let ?ps = "writer_log segs tail"
  have txs: "list_all2 (\<lambda>p tx. UnmarshalTransaction p = Inr tx) ?ps txs"
    using assms(2) stored_log [OF inv] by simp
  have readable: "readable 0 0 ?ps"
    using inv decoded_list(1) [OF txs] by (simp add: readable_def writer_inv_def)
  have pos: "list_all (\<lambda>p. 0 < fst (payload_lsns p)) ?ps"
    using readable_sorted [OF readable] by (auto simp: list_all_iff)
  have "bs = boundaries requested (wanted 0 durable ?ps)"
    using txs pos unfolding assms(3)
    by (induction rule: list_all2_induct) (auto simp: boundaries_def wanted_def Unmarshal_payload)
  moreover have "NormalizeEndPosition (wr_disk w) requested durable =
    (if requested = 0 then Inl (Err ''cdc: zero is not a transaction boundary'')
     else let bs = boundaries requested (wanted 0 durable ?ps) in
       if bs = [] then Inl (Err ''cdc: no durable transaction ends at or before the requested position'')
       else Inr \<lparr>ep_Requested = requested, ep_Boundary = last bs, ep_Exact = (last bs = requested)\<rparr>)"
    using normalize_loop_at [OF NewReader_at [OF inv decoded_list(1) [OF txs], of 0 durable]
        writer_listing_ok [OF inv] read_fuel_enough [OF inv],
        of "\<lparr>ep_Requested = requested, ep_Boundary = 0, ep_Exact = False\<rparr>"] readable_wanted [OF readable]
    by (simp add: NormalizeEndPosition_def NewReader_def Let_def)
  ultimately show ?thesis by (auto simp: Let_def)
qed

theorem normalize_end_position_witness:
  "NormalizeEndPosition (wr_disk example_writer) 500 400 =
     Inr \<lparr>ep_Requested = 500, ep_Boundary = 300, ep_Exact = False\<rparr>"
proof -
  from normalize_end_position [OF example_reach example_stored refl, of 500 400] show ?thesis
    by (simp add: example_tx_def)
qed

end
