(* ===== verification/Hashing.thy ===== *)
theory Hashing
  imports SegmentDir
begin

unbundle bit_operations_syntax

text \<open>
  The hashes of the replay planner (\<^verbatim>\<open>internal/cdc/replay_claim.go\<close>,
  \<^verbatim>\<open>newReplayClaimHasher\<close> to \<^verbatim>\<open>replayClaimID\<close>). A
  \<^verbatim>\<open>hash.Hash\<close> is the bytes written to it so far; \<^verbatim>\<open>Sum\<close> is SHA-256
  (\<^verbatim>\<open>crypto/sha256\<close>, FIPS 180-4) of them. The lemmas show that the length-prefixed
  framing loses nothing: what was written to a hasher is determined by its bytes.
\<close>

section \<open>SHA-256\<close>

type_synonym digest = bytes

definition be32 :: "u32 \<Rightarrow> bytes" where
  "be32 w = rev (le_bytes 4 (unat w))"

definition be32_of :: "bytes \<Rightarrow> u32" where
  "be32_of bs = word_of_nat (le_nat (rev bs))"

text \<open>
  The constants of the standard are the first 32 bits of the fractional parts of the cube roots of
  the first 64 primes and of the square roots of the first 8.
\<close>

definition prime_below :: "nat \<Rightarrow> nat list" where
  "prime_below n = filter (\<lambda>p. \<forall>d\<in>set [2..<p]. \<not> d dvd p) [2..<n]"

text \<open>The integer \<open>k\<close>-th root, found bit by bit from bit 35 down.\<close>

definition int_root :: "nat \<Rightarrow> nat \<Rightarrow> nat" where
  "int_root k n = foldl (\<lambda>r b. if (r + 2 ^ b) ^ k \<le> n then r + 2 ^ b else r) 0 (rev [0..<36])"

definition frac_root :: "nat \<Rightarrow> nat \<Rightarrow> u32" where
  "frac_root k p = word_of_nat (int_root k (p * 2 ^ (32 * k)))"

definition sha_K :: "u32 list" where
  "sha_K = map (frac_root 3) (prime_below 312)"

definition sha_H0 :: "u32 list" where
  "sha_H0 = map (frac_root 2) [2, 3, 5, 7, 11, 13, 17, 19]"

lemma length_sha_H0 [simp]: "length sha_H0 = 8"
  by (simp add: sha_H0_def)

definition sha_pad :: "bytes \<Rightarrow> bytes" where
  "sha_pad m = m @ [0x80] @ replicate ((119 - length m mod 64) mod 64) 0 @
     be64 (word_of_nat (8 * length m))"

fun words_of :: "nat \<Rightarrow> bytes \<Rightarrow> u32 list" where
  "words_of 0 bs = []"
| "words_of (Suc k) bs = be32_of (take 4 bs) # words_of k (drop 4 bs)"

text \<open>The message schedule, newest word first.\<close>

definition sha_next_word :: "u32 list \<Rightarrow> u32" where
  "sha_next_word ws = (let a = ws ! 14; b = ws ! 1 in
     (word_rotr 17 b XOR word_rotr 19 b XOR drop_bit 10 b) + ws ! 6 +
     (word_rotr 7 a XOR word_rotr 18 a XOR drop_bit 3 a) + ws ! 15)"

fun sha_extend :: "nat \<Rightarrow> u32 list \<Rightarrow> u32 list" where
  "sha_extend 0 ws = ws"
| "sha_extend (Suc k) ws = sha_extend k (sha_next_word ws # ws)"

definition sha_schedule :: "bytes \<Rightarrow> u32 list" where
  "sha_schedule block = rev (sha_extend 48 (rev (words_of 16 block)))"

definition sha_t1 :: "u32 list \<Rightarrow> u32 \<times> u32 \<Rightarrow> u32" where
  "sha_t1 st kw = (let e = st ! 4; f = st ! 5; g = st ! 6 in
     st ! 7 + (word_rotr 6 e XOR word_rotr 11 e XOR word_rotr 25 e) +
     ((e AND f) XOR (NOT e AND g)) + fst kw + snd kw)"

definition sha_t2 :: "u32 list \<Rightarrow> u32" where
  "sha_t2 st = (let a = st ! 0; b = st ! 1; c = st ! 2 in
     (word_rotr 2 a XOR word_rotr 13 a XOR word_rotr 22 a) +
     ((a AND b) XOR (a AND c) XOR (b AND c)))"

definition sha_round :: "u32 list \<Rightarrow> u32 \<times> u32 \<Rightarrow> u32 list" where
  "sha_round st kw =
     [sha_t1 st kw + sha_t2 st, st ! 0, st ! 1, st ! 2,
      st ! 3 + sha_t1 st kw, st ! 4, st ! 5, st ! 6]"

definition sha_block :: "u32 list \<Rightarrow> bytes \<Rightarrow> u32 list" where
  "sha_block st block = map2 (+) st (foldl sha_round st (zip sha_K (sha_schedule block)))"

fun sha_blocks :: "nat \<Rightarrow> u32 list \<Rightarrow> bytes \<Rightarrow> u32 list" where
  "sha_blocks 0 st bs = st"
| "sha_blocks (Suc k) st bs = sha_blocks k (sha_block st (take 64 bs)) (drop 64 bs)"

definition sha256 :: "bytes \<Rightarrow> digest" where
  "sha256 m = (let p = sha_pad m in
     concat (map be32 (sha_blocks (length p div 64) sha_H0 p)))"

lemma length_be32 [simp]: "length (be32 w) = 4"
  by (simp add: be32_def)

lemma pad_count:
  assumes "r < (64 :: nat)"
  shows "(r + (9 + (119 - r) mod 64)) mod 64 = 0"
proof (cases "r \<le> 55")
  case True
  have e: "119 - r = (55 - r) + 64" using True by simp
  have "(119 - r) mod 64 = (55 - r) mod 64" unfolding e by (rule mod_add_self2)
  moreover have "(55 - r) mod 64 = 55 - r" by (rule mod_less) simp
  ultimately have "r + (9 + (119 - r) mod 64) = 64" using True by linarith
  then show ?thesis by (simp only: mod_self)
next
  case False
  then have "(119 - r) mod 64 = 119 - r" by (intro mod_less) arith
  then have "r + (9 + (119 - r) mod 64) = 2 * 64" using assms by linarith
  then show ?thesis by (simp only: mod_mult_self2_is_0)
qed

lemma length_sha_pad: "64 dvd length (sha_pad m)"
proof -
  let ?n = "length m" and ?r = "length m mod 64"
  have "length (sha_pad m) = ?n + (9 + (119 - ?r) mod 64)"
    by (simp add: sha_pad_def)
  moreover have "(?n + (9 + (119 - ?r) mod 64)) mod 64 = (?r + (9 + (119 - ?r) mod 64)) mod 64"
    by (simp only: mod_add_left_eq)
  moreover have "(?r + (9 + (119 - ?r) mod 64)) mod 64 = 0"
    by (rule pad_count) simp
  ultimately show ?thesis by (simp only: dvd_eq_mod_eq_0)
qed

lemma length_sha_round: "length (sha_round st kw) = 8"
  by (simp add: sha_round_def)

lemma length_foldl_sha_round: "length st = 8 \<Longrightarrow> length (foldl sha_round st kws) = 8"
proof (induction kws arbitrary: st)
  case (Cons kw kws)
  show ?case unfolding foldl_Cons by (rule Cons.IH) (rule length_sha_round)
qed (simp only: foldl_Nil)

lemma length_sha_block: "length st = 8 \<Longrightarrow> length (sha_block st b) = 8"
  unfolding sha_block_def length_map length_zip
  by (simp only: length_foldl_sha_round min.idem)

lemma length_sha_blocks: "length st = 8 \<Longrightarrow> length (sha_blocks k st bs) = 8"
  by (induction k arbitrary: st bs) (simp_all only: sha_blocks.simps length_sha_block)

lemma length_concat_be32: "length (concat (map be32 ws)) = 4 * length ws"
  by (induction ws) auto

lemma length_sha256 [simp]: "length (sha256 m) = 32"
  by (simp add: sha256_def Let_def length_concat_be32 length_sha_blocks)

section \<open>Framed writes\<close>

definition writeReplayHashInt :: "bytes \<Rightarrow> int \<Rightarrow> bytes" where
  "writeReplayHashInt hasher v = hasher @ be64 (word_of_int v)"

definition writeReplayHashBytes :: "bytes \<Rightarrow> bytes \<Rightarrow> bytes" where
  "writeReplayHashBytes hasher b = hasher @ be64 (word_of_nat (length b)) @ b"

definition writeReplayHashBool :: "bytes \<Rightarrow> bool \<Rightarrow> bytes" where
  "writeReplayHashBool hasher b = writeReplayHashInt hasher (if b then 1 else 0)"

definition newReplayClaimHasher :: "string \<Rightarrow> bytes" where
  "newReplayClaimHasher label = writeReplayHashBytes [] (bytes_of_string label)"

definition finishReplayHash :: "bytes \<Rightarrow> digest" where
  "finishReplayHash hasher = sha256 hasher"

text \<open>\<^verbatim>\<open>hex.EncodeToString\<close>.\<close>

definition hex_EncodeToString :: "bytes \<Rightarrow> string" where
  "hex_EncodeToString bs = concat (map (\<lambda>b. hex_digits 2 (unat b)) bs)"

definition replayClaimID :: "digest \<Rightarrow> string" where
  "replayClaimID d = hex_EncodeToString d"

lemma length_finishReplayHash [simp]: "length (finishReplayHash h) = 32"
  by (simp add: finishReplayHash_def)

lemma length_hex_EncodeToString: "length (hex_EncodeToString bs) = 2 * length bs"
  by (induction bs) (auto simp: hex_EncodeToString_def)

lemma length_replayClaimID: "length (replayClaimID d) = 2 * length d"
  by (simp add: replayClaimID_def length_hex_EncodeToString)

text \<open>What is framed can be read back.\<close>

lemma be64_inj: "be64 v = be64 w \<longleftrightarrow> v = w"
  by (metis be64_of_be64)

lemma framed_inj:
  assumes "be64 (word_of_nat (length b)) @ b @ r = be64 (word_of_nat (length b')) @ b' @ r'"
    and "length b < 2 ^ 64" "length b' < 2 ^ 64"
  shows "b = b' \<and> r = r'"
proof -
  have "(word_of_nat (length b) :: u64) = word_of_nat (length b')" "b @ r = b' @ r'"
    using assms(1) by (simp_all add: be64_inj)
  then have "unat (word_of_nat (length b) :: u64) = unat (word_of_nat (length b') :: u64)" by simp
  then have "length b = length b'" using assms(2,3) by (simp add: unat_of_nat)
  then show ?thesis using \<open>b @ r = b' @ r'\<close> by simp
qed

text \<open>\<^verbatim>\<open>hex.EncodeToString\<close> loses nothing, so neither does a claim ID.\<close>

lemma hex_EncodeToString_inj: "hex_EncodeToString a = hex_EncodeToString b \<Longrightarrow> a = b"
proof (induction a arbitrary: b)
  case Nil
  have "hex_EncodeToString [] = []" by (simp add: hex_EncodeToString_def)
  then have "hex_EncodeToString b = []" using Nil by simp
  then show ?case using length_hex_EncodeToString [of b] by simp
next
  case (Cons x a)
  then obtain y b' where b: "b = y # b'"
    using length_hex_EncodeToString [of b] length_hex_EncodeToString [of "x # a"] Cons.prems by (cases b) simp_all
  have "hex_digits 2 (unat x) @ hex_EncodeToString a = hex_digits 2 (unat y) @ hex_EncodeToString b'"
    using Cons.prems unfolding b hex_EncodeToString_def list.map concat.simps .
  then have split: "hex_digits 2 (unat x) = hex_digits 2 (unat y)" "hex_EncodeToString a = hex_EncodeToString b'"
    by (simp_all only: append_eq_append_conv length_hex_digits simp_thms)
  have "Some (unat x mod 16\<^sup>2) = Some (unat y mod 16\<^sup>2)"
    unfolding parse_hex_digits [symmetric] split(1) ..
  then have "unat x mod 16\<^sup>2 = unat y mod 16\<^sup>2" by (simp only: option.inject)
  moreover have "unat z mod 16\<^sup>2 = unat z" for z :: byte
    by (rule mod_less, rule order.strict_trans2 [OF unat_byte_bound]) simp
  ultimately have "x = y" by (simp only: unsigned_word_eqI)
  then show ?case using Cons.IH split(2) b by simp
qed

end
