(* ===== verification/TargetRelation.thy ===== *)
theory TargetRelation
  imports Hashing
begin

text \<open>
  The target side of a replicated relation and the helpers that decide which rows a change
  touches (\<^verbatim>\<open>internal/cdc/applier.go\<close>: \<^verbatim>\<open>targetRelation\<close>,
  \<^verbatim>\<open>targetColumn\<close>, \<^verbatim>\<open>primaryKeyColumns\<close>,
  \<^verbatim>\<open>primaryKeyDeleteColumns\<close>, \<^verbatim>\<open>validateTuple\<close>,
  \<^verbatim>\<open>datumParamForColumn\<close>, \<^verbatim>\<open>canPrimaryKeyUpsert\<close>).

  Go \<^verbatim>\<open>int\<close>s are \<open>int\<close>: they hold column positions and sizes. A nil-able
  \<^verbatim>\<open>*targetRelation\<close> or \<^verbatim>\<open>*Tuple\<close> is an option. The
  \<^verbatim>\<open>pgtype\<close> OID constants are the fixed type OIDs of PostgreSQL's catalog.
\<close>

section \<open>Target relations\<close>

record targetColumn =
  tc_name :: string
  tc_quoted :: string
  tc_oid :: u32
  tc_arrayOID :: u32
  tc_nondeterministicCollation :: bool
  tc_key :: bool
  tc_primary :: bool
  tc_primaryPos :: int
  tc_replayKeySafe :: bool
  tc_lanePayloadTextOnly :: bool
  tc_identity :: string
  tc_sourceIndex :: int
  tc_generated :: bool
  tc_notNull :: bool
  tc_conflicting :: bool

record targetRelationCapabilities =
  cap_relationLane :: bool
  cap_relationOrderedLane :: bool
  cap_relationOrderedLaneV4 :: bool
  cap_relationOrderedLaneV3 :: bool
  cap_primaryKeyArbiter :: bool
  cap_keyedSetDML :: bool
  cap_binaryCopy :: bool
  cap_textCopyStage :: bool
  cap_selectiveUpdates :: bool
  cap_crossKeyConflicts :: bool

record targetRelation =
  tr_source :: Relation
  tr_quoted :: string
  tr_heapBytes :: int
  tr_heapBlocksRead :: int
  tr_heapBlocksHit :: int
  tr_columns :: "targetColumn list"
  tr_mappedColumns :: "targetColumn list"
  tr_generatedColumns :: "targetColumn list"
  tr_overrideIdentity :: bool
  tr_capabilities :: targetRelationCapabilities

text \<open>\<^verbatim>\<open>relationBatchedChange\<close>; the sample collector is not part of planning.\<close>

record relationBatchedChange =
  rbc_transactionIndex :: nat
  rbc_changeIndex :: nat
  rbc_change :: Change
  rbc_relation :: "targetRelation option"

section \<open>Divergence and tuples\<close>

definition divergenceFor :: "targetRelation option \<Rightarrow> byte \<Rightarrow> string \<Rightarrow> error" where
  "divergenceFor relation kind reason =
     Divergence (case relation of None \<Rightarrow> ''<unknown>''
       | Some r \<Rightarrow> rel_Namespace (tr_source r) @ ''.'' @ rel_Name (tr_source r)) kind reason"

definition validateTuple :: "targetRelation \<Rightarrow> Tuple option \<Rightarrow> byte \<Rightarrow> unit res" where
  "validateTuple relation tuple kind = (case tuple of
     None \<Rightarrow> Inl (divergenceFor (Some relation) kind ''required tuple is absent'')
   | Some t \<Rightarrow>
       if length t \<noteq> length (rel_Columns (tr_source relation))
       then Inl (divergenceFor (Some relation) kind ''tuple column count differs'')
       else Inr ())"

record rawParam =
  rp_data :: "bytes option"
  rp_oid :: u32
  rp_format :: int
  rp_isNull :: bool

text \<open>Indexing a Go slice with an \<^verbatim>\<open>int\<close>: out of range is a panic.\<close>

definition in_range :: "int \<Rightarrow> 'a list \<Rightarrow> bool" where
  "in_range i xs \<longleftrightarrow> 0 \<le> i \<and> i < int (length xs)"

definition go_index :: "'a list \<Rightarrow> int \<Rightarrow> 'a res" where
  "go_index xs i = (if in_range i xs then Inr (xs ! nat i)
     else Inl (Err ''panic: index out of range''))"

definition datumParamForColumn ::
  "targetRelation \<Rightarrow> targetColumn \<Rightarrow> TupleDatum \<Rightarrow> byte \<Rightarrow> rawParam res" where
  "datumParamForColumn relation column datum kind =
     (let param = \<lparr>rp_data = None, rp_oid = tc_oid column, rp_format = 0, rp_isNull = False\<rparr> in
      if dat_Kind datum = DatumNull then Inr (param\<lparr>rp_isNull := True\<rparr>)
      else if dat_Kind datum = DatumText then Inr (param\<lparr>rp_data := dat_Data datum\<rparr>)
      else if dat_Kind datum = DatumBinary
      then rbind (go_index (rel_Columns (tr_source relation)) (tc_sourceIndex column)) (\<lambda>source.
        if col_Type source \<noteq> rp_oid param
        then Inl (divergenceFor (Some relation) kind ''binary column source OID differs from target OID'')
        else Inr (param\<lparr>rp_data := dat_Data datum, rp_format := 1\<rparr>))
      else if dat_Kind datum = DatumUnchangedToast
      then Inl (divergenceFor (Some relation) kind ''unchanged TOAST cannot be used as a parameter'')
      else Inl (divergenceFor (Some relation) kind ''invalid datum kind''))"

text \<open>\<^verbatim>\<open>bytes.Equal\<close> does not tell nil from empty.\<close>

definition tupleDatumEqual :: "TupleDatum \<Rightarrow> TupleDatum \<Rightarrow> bool" where
  "tupleDatumEqual l r \<longleftrightarrow> dat_Kind l = dat_Kind r \<and> dat_bytes l = dat_bytes r"

section \<open>Primary keys\<close>

text \<open>
  \<^verbatim>\<open>slices.SortFunc\<close> is not stable, but the positions of a primary key's columns are
  distinct, so the order is determined; the model sorts stably.
\<close>

definition primaryKeyColumns :: "targetRelation \<Rightarrow> targetColumn list" where
  "primaryKeyColumns relation = sort_key tc_primaryPos (filter tc_primary (tr_columns relation))"

definition primaryKeyDeleteColumns :: "targetRelation \<Rightarrow> targetColumn list option" where
  "primaryKeyDeleteColumns relation =
     (if \<not> cap_keyedSetDML (tr_capabilities relation) then None
      else let primary = primaryKeyColumns relation in
        if primary = [] then None
        else if \<exists>c\<in>set primary. \<not> tc_key c \<or> tc_sourceIndex c < 0 then None
        else Some primary)"

fun no_unchanged_toast :: "Tuple \<Rightarrow> targetColumn list \<Rightarrow> bool res" where
  "no_unchanged_toast tuple [] = Inr True"
| "no_unchanged_toast tuple (c # cs) = rbind (go_index tuple (tc_sourceIndex c)) (\<lambda>d.
     if dat_Kind d = DatumUnchangedToast then Inr False else no_unchanged_toast tuple cs)"

fun key_unchanged :: "Tuple \<Rightarrow> Tuple \<Rightarrow> targetColumn list \<Rightarrow> bool res" where
  "key_unchanged old new [] = Inr True"
| "key_unchanged old new (c # cs) = rbind (go_index old (tc_sourceIndex c)) (\<lambda>d.
     rbind (go_index new (tc_sourceIndex c)) (\<lambda>d'.
     if dat_Kind d = DatumUnchangedToast \<or> \<not> tupleDatumEqual d d' then Inr False
     else key_unchanged old new cs))"

definition canPrimaryKeyUpsertForPlan :: "targetRelation option \<Rightarrow> Change \<Rightarrow> bool \<Rightarrow> bool res" where
  "canPrimaryKeyUpsertForPlan relation change requireImmediateArbiter =
     (case (relation, ch_New change) of
        (Some r, Some new) \<Rightarrow>
          if length new \<noteq> length (rel_Columns (tr_source r)) \<or> tr_columns r = [] \<or>
             \<not> cap_keyedSetDML (tr_capabilities r) \<or>
             (requireImmediateArbiter \<and> \<not> cap_primaryKeyArbiter (tr_capabilities r))
          then Inr False
          else if primaryKeyColumns r = [] then Inr False
          else rbind (no_unchanged_toast new (tr_columns r)) (\<lambda>ok.
            if \<not> ok then Inr False
            else case ch_Old change of
              None \<Rightarrow> Inr True
            | Some old \<Rightarrow>
                if length old \<noteq> length (rel_Columns (tr_source r)) then Inr True
                else key_unchanged old new (primaryKeyColumns r))
      | _ \<Rightarrow> Inr False)"

definition canPrimaryKeyUpsert :: "targetRelation option \<Rightarrow> Change \<Rightarrow> bool res" where
  "canPrimaryKeyUpsert relation change = canPrimaryKeyUpsertForPlan relation change True"

definition canPrimaryKeyUpsertV2 :: "targetRelation option \<Rightarrow> Change \<Rightarrow> bool res" where
  "canPrimaryKeyUpsertV2 relation change = canPrimaryKeyUpsertForPlan relation change False"

text \<open>\<^verbatim>\<open>fmt.Fprintf("%d")\<close> of a length.\<close>

fun decimal :: "nat \<Rightarrow> string" where
  "decimal n = (if n < 10 then [char_of (48 + n)] else decimal (n div 10) @ [char_of (48 + n mod 10)])"

declare decimal.simps [simp del]

fun tuple_key_parts :: "Tuple \<Rightarrow> targetColumn list \<Rightarrow> bytes res" where
  "tuple_key_parts tuple [] = Inr []"
| "tuple_key_parts tuple (c # cs) = rbind (go_index tuple (tc_sourceIndex c)) (\<lambda>d.
     rbind (tuple_key_parts tuple cs) (\<lambda>rest.
     Inr (dat_Kind d # bytes_of_string ('':'' @ decimal (length (dat_bytes d)) @ '':'') @
       dat_bytes d @ rest)))"

definition primaryKeyTupleKey :: "targetRelation \<Rightarrow> Tuple option \<Rightarrow> bytes res" where
  "primaryKeyTupleKey relation tuple = rbind (validateTuple relation tuple ChangeUpdate) (\<lambda>_.
     tuple_key_parts (the tuple) (primaryKeyColumns relation))"

text \<open>Type OIDs: bool 16, bytea 17, int8 20, int2 21, int4 23, text 25, varchar 1043,
  date 1082, time 1083, timestamp 1114, timestamptz 1184, uuid 2950.\<close>

definition replayKeyTargetTypeSafe :: "u32 \<Rightarrow> bool" where
  "replayKeyTargetTypeSafe oid \<longleftrightarrow>
     oid \<in> {16, 17, 21, 23, 20, 25, 1043, 1082, 1083, 1114, 1184, 2950}"

definition replayKeyDatumSafe :: "u32 \<Rightarrow> byte \<Rightarrow> bool" where
  "replayKeyDatumSafe oid kind \<longleftrightarrow>
     replayKeyTargetTypeSafe oid \<and>
     (kind = DatumBinary \<or>
      kind = DatumText \<and> oid \<in> {16, 21, 23, 20, 25, 1043, 2950})"

fun sameTargetColumns :: "targetColumn list \<Rightarrow> targetColumn list \<Rightarrow> bool" where
  "sameTargetColumns (l # ls) (r # rs) \<longleftrightarrow>
     tc_name l = tc_name r \<and> tc_sourceIndex l = tc_sourceIndex r \<and> sameTargetColumns ls rs"
| "sameTargetColumns [] [] \<longleftrightarrow> True"
| "sameTargetColumns _ _ \<longleftrightarrow> False"

definition deleteUsesTargetPrimaryKey :: "targetRelation \<Rightarrow> targetColumn list \<Rightarrow> bool" where
  "deleteUsesTargetPrimaryKey relation identityColumns =
     (case primaryKeyDeleteColumns relation of None \<Rightarrow> False
      | Some primary \<Rightarrow> map tc_name primary = map tc_name identityColumns)"

section \<open>Basic facts\<close>

lemma sameTargetColumns_refl [simp]: "sameTargetColumns cs cs"
  by (induction cs) auto

lemma sameTargetColumns_length: "sameTargetColumns ls rs \<Longrightarrow> length ls = length rs"
  by (induction ls rs rule: sameTargetColumns.induct) auto

lemma go_index_Inr [res_simps]: "go_index xs i = Inr x \<longleftrightarrow> in_range i xs \<and> x = xs ! nat i"
  by (auto simp: go_index_def)

lemma primaryKeyDeleteColumns_primary:
  "primaryKeyDeleteColumns r = Some cs \<Longrightarrow> cs = primaryKeyColumns r \<and> cs \<noteq> []"
  by (auto simp: primaryKeyDeleteColumns_def Let_def split: if_splits)

lemma primaryKeyColumns_set: "set (primaryKeyColumns r) = {c \<in> set (tr_columns r). tc_primary c}"
  by (auto simp: primaryKeyColumns_def)

lemma primaryKeyColumns_sorted: "sorted (map tc_primaryPos (primaryKeyColumns r))"
  by (simp add: primaryKeyColumns_def)

lemma validateTuple_Inr [res_simps]:
  "validateTuple r t k = Inr u \<longleftrightarrow> (\<exists>x. t = Some x \<and> length x = length (rel_Columns (tr_source r)))"
  by (auto simp: validateTuple_def split: option.splits)

lemma rbind_not_Inl: "(\<And>x. r = Inr x \<Longrightarrow> f x \<noteq> Inl e) \<Longrightarrow> r \<noteq> Inl e \<Longrightarrow> rbind r f \<noteq> Inl e"
  by (cases r) auto

end
