(* ===== verification/ReplayClaim.thy ===== *)
theory ReplayClaim
  imports Hashing
begin

text \<open>
  The replay claim and its manifest (\<^verbatim>\<open>internal/cdc/replay_claim.go\<close>): the
  records \<^verbatim>\<open>replayClaim\<close> and \<^verbatim>\<open>replayClaimWork\<close>, the fence
  generation, and the validation of a stored claim against a reconstructed one. Counters and
  indexes are \<open>int\<close>: they are bounded by the number of transactions and changes of one
  claim, far below 64 bits.
\<close>

definition replayClaimPlanVersion :: int where "replayClaimPlanVersion = 5"
definition replayClaimMinimumPlanVersion :: int where "replayClaimMinimumPlanVersion = 2"

abbreviation (input) replayWorkParallelLane :: string where
  "replayWorkParallelLane \<equiv> ''parallel_lane''"
abbreviation (input) replayWorkSerial :: string where
  "replayWorkSerial \<equiv> ''serial_transaction''"

record replayClaimWork =
  wk_Step :: int
  wk_Work :: int
  wk_Kind :: string
  wk_Lane :: int
  wk_Digest :: digest
  wk_ExpectedTransactions :: int
  wk_ExpectedChanges :: int
  wk_CommittedAt :: "GoTime option"

record replayClaim =
  cl_ID :: string
  cl_StreamID :: string
  cl_Generation :: string
  cl_StartGeneration :: string
  cl_FenceGeneration :: string
  cl_StartLSN :: LSN
  cl_EndLSN :: LSN
  cl_Digest :: digest
  cl_CatalogDigest :: digest
  cl_PlanVersion :: int
  cl_LaneCount :: int
  cl_Transactions :: int
  cl_Changes :: int
  cl_ExpectedWork :: int
  cl_CreatedAt :: GoTime
  cl_WorkManifest :: "replayClaimWork list"

text \<open>The zero \<^verbatim>\<open>time.Time\<close> is the first instant of the year 1.\<close>

definition zero_time :: GoTime where
  "zero_time = \<lparr>t_Unix = word_of_int (-62135596800), t_Nanosecond = 0\<rparr>"

definition zero_digest :: digest where
  "zero_digest = replicate 32 0"

definition newline :: string where
  "newline = [CHR 0x0A]"

definition replayFenceGeneration :: "string \<Rightarrow> string \<Rightarrow> string" where
  "replayFenceGeneration generation claimID =
     generation @ newline @ ''pgmigrate-replay-claim-v1:'' @ claimID"

definition cloneReplayWorkManifest :: "replayClaimWork list \<Rightarrow> replayClaimWork list" where
  "cloneReplayWorkManifest works = map (\<lambda>w. w\<lparr>wk_CommittedAt := None\<rparr>) works"

section \<open>The manifest\<close>

definition validate_work_row :: "replayClaimWork \<Rightarrow> unit res" where
  "validate_work_row w =
     (if wk_Kind w = replayWorkParallelLane
      then if wk_Lane w < 0 \<or> wk_Work w \<noteq> wk_Lane w
           then Inl (Err ''cdc: parallel replay work has an invalid lane'') else Inr ()
      else if wk_Kind w = replayWorkSerial
      then if wk_Lane w \<noteq> -1 \<or> wk_Work w \<noteq> 0 \<or> wk_ExpectedTransactions w \<noteq> 1
           then Inl (Err ''cdc: serial replay work has an invalid manifest'') else Inr ()
      else Inl (Err ''cdc: replay work has unknown kind''))"

text \<open>\<open>previous\<close> is \<open>None\<close> at index 0.\<close>

fun validate_work_rows ::
  "replayClaimWork list \<Rightarrow> (int \<times> int) option \<Rightarrow> int \<Rightarrow> int \<Rightarrow> (int \<times> int) res" where
  "validate_work_rows [] previous transactions changes = Inr (transactions, changes)"
| "validate_work_rows (w # ws) previous transactions changes =
     (if wk_Step w < 0 \<or> wk_Work w < 0 \<or> wk_ExpectedTransactions w \<le> 0 \<or> wk_ExpectedChanges w < 0
      then Inl (Err ''cdc: replay work manifest row has invalid counters or indexes'')
      else if (case previous of None \<Rightarrow> False
               | Some (s, k) \<Rightarrow> wk_Step w < s \<or> (wk_Step w = s \<and> wk_Work w \<le> k))
      then Inl (Err ''cdc: replay work manifest is not in unique step/work order'')
      else rbind (validate_work_row w) (\<lambda>_.
        validate_work_rows ws (Some (wk_Step w, wk_Work w))
          (transactions + wk_ExpectedTransactions w) (changes + wk_ExpectedChanges w)))"

definition validateReplayClaimManifest :: "replayClaim \<Rightarrow> replayClaimWork list \<Rightarrow> unit res" where
  "validateReplayClaimManifest claim works =
     (if cl_ID claim = [] \<or> cl_StreamID claim = [] \<or> cl_Generation claim = [] \<or>
         cl_StartGeneration claim = [] \<or>
         cl_FenceGeneration claim \<noteq> replayFenceGeneration (cl_Generation claim) (cl_ID claim) \<or>
         cl_FenceGeneration claim = cl_StartGeneration claim
      then Inl (Err ''cdc: replay claim generations do not form a unique fence'')
      else if int (length works) \<noteq> cl_ExpectedWork claim
      then Inl (Err ''cdc: replay claim expects another number of work rows'')
      else rbind (validate_work_rows works None 0 0) (\<lambda>(transactions, changes).
        if transactions \<noteq> cl_Transactions claim \<or> changes \<noteq> cl_Changes claim
        then Inl (Err ''cdc: replay work manifest covers other transactions or changes'')
        else Inr ()))"

definition same_work :: "replayClaimWork \<Rightarrow> replayClaimWork \<Rightarrow> bool" where
  "same_work l r \<longleftrightarrow> wk_Step l = wk_Step r \<and> wk_Work l = wk_Work r \<and> wk_Kind l = wk_Kind r \<and>
     wk_Lane l = wk_Lane r \<and> wk_Digest l = wk_Digest r \<and>
     wk_ExpectedTransactions l = wk_ExpectedTransactions r \<and>
     wk_ExpectedChanges l = wk_ExpectedChanges r"

definition validateReplayClaim ::
  "replayClaim \<Rightarrow> replayClaimWork list \<Rightarrow> replayClaim \<Rightarrow> replayClaimWork list \<Rightarrow> unit res" where
  "validateReplayClaim stored storedWorks desired desiredWorks =
     (if cl_ID stored \<noteq> cl_ID desired \<or> cl_StreamID stored \<noteq> cl_StreamID desired \<or>
         cl_Generation stored \<noteq> cl_Generation desired \<or>
         cl_StartGeneration stored \<noteq> cl_StartGeneration desired \<or>
         cl_FenceGeneration stored \<noteq> cl_FenceGeneration desired \<or>
         cl_StartLSN stored \<noteq> cl_StartLSN desired \<or> cl_EndLSN stored \<noteq> cl_EndLSN desired \<or>
         cl_Digest stored \<noteq> cl_Digest desired \<or> cl_CatalogDigest stored \<noteq> cl_CatalogDigest desired \<or>
         cl_PlanVersion stored \<noteq> cl_PlanVersion desired \<or> cl_LaneCount stored \<noteq> cl_LaneCount desired \<or>
         cl_Transactions stored \<noteq> cl_Transactions desired \<or> cl_Changes stored \<noteq> cl_Changes desired \<or>
         cl_ExpectedWork stored \<noteq> cl_ExpectedWork desired
      then Inl (Err ''cdc: active replay claim does not match the reconstructed durable range'')
      else rbind (rwrap ''cdc: active replay claim manifest is invalid''
             (validateReplayClaimManifest stored storedWorks)) (\<lambda>_.
        rbind (rwrap ''cdc: reconstructed replay claim manifest is invalid''
             (validateReplayClaimManifest desired desiredWorks)) (\<lambda>_.
        if length storedWorks \<noteq> length desiredWorks
        then Inl (Err ''cdc: active replay claim work count does not match its reconstructed plan'')
        else if \<not> list_all2 same_work storedWorks desiredWorks
        then Inl (Err ''cdc: active replay work does not match its reconstructed plan'')
        else Inr ())))"

definition replayClaimsEqual :: "replayClaim \<Rightarrow> replayClaim \<Rightarrow> bool" where
  "replayClaimsEqual l r \<longleftrightarrow> cl_ID l = cl_ID r \<and> cl_StreamID l = cl_StreamID r \<and>
     cl_Generation l = cl_Generation r \<and> cl_StartGeneration l = cl_StartGeneration r \<and>
     cl_FenceGeneration l = cl_FenceGeneration r \<and>
     cl_StartLSN l = cl_StartLSN r \<and> cl_EndLSN l = cl_EndLSN r \<and> cl_Digest l = cl_Digest r"

section \<open>What a valid manifest is\<close>

text \<open>Rows are ordered by step and work, so no two rows have the same key.\<close>

definition work_key :: "replayClaimWork \<Rightarrow> int \<times> int" where
  "work_key w = (wk_Step w, wk_Work w)"

definition key_less :: "int \<times> int \<Rightarrow> int \<times> int \<Rightarrow> bool" where
  "key_less a b \<longleftrightarrow> fst a < fst b \<or> (fst a = fst b \<and> snd a < snd b)"

definition row_ok :: "replayClaimWork \<Rightarrow> bool" where
  "row_ok w \<longleftrightarrow> 0 \<le> wk_Step w \<and> 0 \<le> wk_Work w \<and> 0 < wk_ExpectedTransactions w \<and>
     0 \<le> wk_ExpectedChanges w \<and>
     (wk_Kind w = replayWorkParallelLane \<and> wk_Lane w = wk_Work w \<or>
      wk_Kind w = replayWorkSerial \<and> wk_Lane w = -1 \<and> wk_Work w = 0 \<and> wk_ExpectedTransactions w = 1)"

definition manifest_rows :: "replayClaimWork list \<Rightarrow> bool" where
  "manifest_rows works \<longleftrightarrow>
     (\<forall>w\<in>set works. row_ok w) \<and> sorted_wrt (\<lambda>v w. key_less (work_key v) (work_key w)) works"

lemma key_less_trans: "key_less a b \<Longrightarrow> key_less b c \<Longrightarrow> key_less a c"
  by (auto simp: key_less_def)

lemma key_less_irrefl [simp]: "\<not> key_less a a"
  by (simp add: key_less_def)

lemma validate_work_row_iff:
  "0 \<le> wk_Step w \<Longrightarrow> 0 \<le> wk_Work w \<Longrightarrow> 0 < wk_ExpectedTransactions w \<Longrightarrow>
   0 \<le> wk_ExpectedChanges w \<Longrightarrow> validate_work_row w = Inr u \<longleftrightarrow> row_ok w"
  by (auto simp: validate_work_row_def row_ok_def)

lemma validate_work_rows_iff:
  "validate_work_rows ws p t c = Inr r \<longleftrightarrow>
     manifest_rows ws \<and>
     (case (p, ws) of (Some k, w # _) \<Rightarrow> key_less k (work_key w) | _ \<Rightarrow> True) \<and>
     r = (t + sum_list (map wk_ExpectedTransactions ws), c + sum_list (map wk_ExpectedChanges ws))"
proof (induction ws arbitrary: p t c)
  case (Cons w ws)
  have order: "(case p of None \<Rightarrow> False
       | Some (s, k) \<Rightarrow> wk_Step w < s \<or> (wk_Step w = s \<and> wk_Work w \<le> k)) \<longleftrightarrow>
     \<not> (case p of Some k \<Rightarrow> key_less k (work_key w) | _ \<Rightarrow> True)"
    by (auto simp: key_less_def work_key_def split: option.splits)
  have rest: "manifest_rows (w # ws) \<longleftrightarrow> row_ok w \<and> manifest_rows ws \<and>
      (case ws of [] \<Rightarrow> True | v # _ \<Rightarrow> key_less (work_key w) (work_key v))"
    by (cases ws) (auto simp: manifest_rows_def intro: key_less_trans)
  have bad: "\<not> row_ok w" if "wk_Step w < 0 \<or> wk_Work w < 0 \<or> wk_ExpectedTransactions w \<le> 0 \<or>
      wk_ExpectedChanges w < 0"
    using that by (auto simp: row_ok_def)
  show ?case
  proof (cases "wk_Step w < 0 \<or> wk_Work w < 0 \<or> wk_ExpectedTransactions w \<le> 0 \<or> wk_ExpectedChanges w < 0")
    case True
    then show ?thesis using bad rest by simp
  next
    case False
    then have row: "validate_work_row w = Inr u \<longleftrightarrow> row_ok w" for u
      using validate_work_row_iff by force
    have tail: "(case (Some (work_key w), ws) of (Some k, w # _) \<Rightarrow> key_less k (work_key w) | _ \<Rightarrow> True) \<longleftrightarrow>
        (case ws of [] \<Rightarrow> True | v # _ \<Rightarrow> key_less (work_key w) (work_key v))"
      by (cases ws) auto
    have head: "(case (p, w # ws) of (Some k, w # _) \<Rightarrow> key_less k (work_key w) | _ \<Rightarrow> True) \<longleftrightarrow>
        (case p of Some k \<Rightarrow> key_less k (work_key w) | _ \<Rightarrow> True)"
      by (cases p) auto
    have key: "(wk_Step w, wk_Work w) = work_key w" by (simp add: work_key_def)
    show ?thesis
      using False unfolding validate_work_rows.simps order head rest key
      by (auto simp: rbind_eq_Inr row Cons.IH tail add.assoc split: if_splits list.splits)
  qed
qed (auto simp: manifest_rows_def split: option.splits)

text \<open>\<open>fence_ok\<close>: the generations of a claim form a unique fence.\<close>

definition fence_ok :: "replayClaim \<Rightarrow> bool" where
  "fence_ok c \<longleftrightarrow> cl_ID c \<noteq> [] \<and> cl_StreamID c \<noteq> [] \<and> cl_Generation c \<noteq> [] \<and> cl_StartGeneration c \<noteq> [] \<and>
     cl_FenceGeneration c = replayFenceGeneration (cl_Generation c) (cl_ID c) \<and>
     cl_FenceGeneration c \<noteq> cl_StartGeneration c"

lemma validate_manifest_iff:
  "validateReplayClaimManifest c works = Inr u \<longleftrightarrow>
     fence_ok c \<and> int (length works) = cl_ExpectedWork c \<and> manifest_rows works \<and>
     sum_list (map wk_ExpectedTransactions works) = cl_Transactions c \<and>
     sum_list (map wk_ExpectedChanges works) = cl_Changes c"
  by (auto simp: validateReplayClaimManifest_def fence_ok_def rbind_eq_Inr validate_work_rows_iff
      split: if_splits)

lemma same_work_iff: "same_work v w \<longleftrightarrow> v\<lparr>wk_CommittedAt := None\<rparr> = w\<lparr>wk_CommittedAt := None\<rparr>"
  by (cases v; cases w) (auto simp: same_work_def)

lemma list_all2_same_work:
  "list_all2 same_work vs ws \<longleftrightarrow> cloneReplayWorkManifest vs = cloneReplayWorkManifest ws"
  by (auto simp: cloneReplayWorkManifest_def list_all2_conv_all_nth same_work_iff list_eq_iff_nth_eq)

end
