(* ===== verification/UnionFind.thy ===== *)
theory UnionFind
  imports Prelude
begin

text \<open>
  The union-find of \<^verbatim>\<open>replayTransactionComponentLanes\<close>
  (\<^verbatim>\<open>internal/cdc/replay_plan.go\<close>): \<^verbatim>\<open>find\<close> with path compression
  and \<^verbatim>\<open>union\<close> by rank over the arrays \<^verbatim>\<open>parents\<close> and
  \<^verbatim>\<open>ranks\<close>. \<^verbatim>\<open>find\<close> recurses along the parents, so the model counts
  the calls: its first argument is the fuel, and the lemmas show that as much fuel as there are
  elements is always enough on a forest. The specification is the relation \<open>same\<close>, and
  \<open>union\<close> merges exactly two of its classes.
\<close>

fun uf_find :: "nat \<Rightarrow> nat list \<Rightarrow> nat \<Rightarrow> (nat list \<times> nat) res" where
  "uf_find 0 ps v = Inl (Err ''find does not return'')"
| "uf_find (Suc k) ps v = (if ps ! v \<noteq> v
     then rbind (uf_find k ps (ps ! v)) (\<lambda>(ps', r). Inr (ps'[v := r], r))
     else Inr (ps, v))"

definition uf_union :: "nat list \<times> byte list \<Rightarrow> nat \<Rightarrow> nat \<Rightarrow> (nat list \<times> byte list) res" where
  "uf_union = (\<lambda>(ps, ranks) left right.
     rbind (uf_find (length ps) ps left) (\<lambda>(ps, left).
     rbind (uf_find (length ps) ps right) (\<lambda>(ps, right).
     if left = right then Inr (ps, ranks)
     else let (left, right) = (if ranks ! left < ranks ! right then (right, left) else (left, right))
       in Inr (ps[right := left],
               if ranks ! left = ranks ! right then ranks[left := ranks ! left + 1] else ranks))))"

section \<open>Representatives\<close>

text \<open>\<open>repn ps k v r\<close>: the root above \<open>v\<close> is \<open>r\<close>, \<open>k\<close> steps up.\<close>

inductive repn :: "nat list \<Rightarrow> nat \<Rightarrow> nat \<Rightarrow> nat \<Rightarrow> bool" for ps where
  root: "ps ! v = v \<Longrightarrow> repn ps 0 v v"
| up: "ps ! v \<noteq> v \<Longrightarrow> repn ps k (ps ! v) r \<Longrightarrow> repn ps (Suc k) v r"

inductive_cases repn_cases: "repn ps k v r"

definition rep :: "nat list \<Rightarrow> nat \<Rightarrow> nat \<Rightarrow> bool" where
  "rep ps v r \<longleftrightarrow> (\<exists>k. repn ps k v r)"

definition same :: "nat list \<Rightarrow> nat \<Rightarrow> nat \<Rightarrow> bool" where
  "same ps x y \<longleftrightarrow> (\<exists>r. rep ps x r \<and> rep ps y r)"

definition forest :: "nat list \<Rightarrow> bool" where
  "forest ps \<longleftrightarrow> (\<forall>v<length ps. ps ! v < length ps \<and> (\<exists>r. rep ps v r))"

lemma repn_det: "repn ps k v r \<Longrightarrow> repn ps k' v r' \<Longrightarrow> k = k' \<and> r = r'"
  by (induction arbitrary: k' rule: repn.induct) (blast elim: repn_cases)+

lemma rep_det: "rep ps v r \<Longrightarrow> rep ps v r' \<Longrightarrow> r = r'"
  by (auto simp: rep_def dest: repn_det)

lemma rep_induct [consumes 1, case_names root up]:
  assumes "rep ps v r"
    and "\<And>v. ps ! v = v \<Longrightarrow> P v v"
    and "\<And>v r. ps ! v \<noteq> v \<Longrightarrow> rep ps (ps ! v) r \<Longrightarrow> P (ps ! v) r \<Longrightarrow> P v r"
  shows "P v r"
proof -
  obtain k where "repn ps k v r" using assms(1) by (auto simp: rep_def)
  then show ?thesis
  proof (induction rule: repn.induct)
    case (up v k r)
    show ?case
      by (rule assms(3) [OF up.hyps(1) _ up.IH]) (use up.hyps(2) in \<open>auto simp: rep_def\<close>)
  qed (rule assms(2))
qed

lemma rep_root: "ps ! v = v \<Longrightarrow> rep ps v v"
  unfolding rep_def by (blast intro: repn.root)

lemma rep_up: "ps ! v \<noteq> v \<Longrightarrow> rep ps (ps ! v) r \<Longrightarrow> rep ps v r"
  unfolding rep_def by (blast intro: repn.up)

lemma rep_is_root: "rep ps v r \<Longrightarrow> ps ! r = r"
  by (induction rule: rep_induct) auto

lemma forestD: "forest ps \<Longrightarrow> v < length ps \<Longrightarrow> ps ! v < length ps"
  by (auto simp: forest_def)

lemma forest_rep: "forest ps \<Longrightarrow> v < length ps \<Longrightarrow> \<exists>r. rep ps v r"
  by (auto simp: forest_def)

lemma rep_less: "rep ps v r \<Longrightarrow> forest ps \<Longrightarrow> v < length ps \<Longrightarrow> r < length ps"
  by (induction rule: rep_induct) (auto dest: forestD)

text \<open>A path never visits an element twice, so it is shorter than the array.\<close>

lemma repn_levels:
  "repn ps k v r \<Longrightarrow> forest ps \<Longrightarrow> v < length ps \<Longrightarrow> j \<le> k \<Longrightarrow>
     \<exists>w<length ps. repn ps j w r"
proof (induction rule: repn.induct)
  case (up v k r)
  show ?case
  proof (cases "j = Suc k")
    case True
    then show ?thesis using up repn.up by blast
  next
    case False
    then show ?thesis using up forestD [OF up.prems(1,2)] by simp
  qed
qed (auto intro: repn.root)

lemma repn_bound:
  assumes "repn ps k v r" "forest ps" "v < length ps"
  shows "k < length ps"
proof -
  have ex: "\<exists>w. w < length ps \<and> repn ps j w r" if "j \<in> {..k}" for j
    using repn_levels [OF assms] that by auto
  then obtain f where f: "\<And>j. j \<in> {..k} \<Longrightarrow> f j < length ps \<and> repn ps j (f j) r"
    by metis
  have "inj_on f {..k}"
    by (rule inj_onI) (metis f repn_det)
  then have "card {..k} \<le> card {..<length ps}"
    using f by (intro card_inj_on_le) auto
  then show ?thesis by simp
qed

section \<open>Find\<close>

lemma rep_compress:
  assumes "rep ps x y" "rep ps v r" "v < length ps"
  shows "rep (ps[v := r]) x y"
  using assms(1)
proof (induction rule: rep_induct)
  case (root x)
  show ?case
  proof (cases "x = v")
    case True
    then have "r = v" using rep_det [OF assms(2)] rep_root [of ps v] root by simp
    then show ?thesis using True assms(3) by (intro rep_root) simp
  next
    case False
    then show ?thesis using root by (intro rep_root) simp
  qed
next
  case (up x y)
  show ?case
  proof (cases "x = v")
    case True
    then have "y = r" using rep_det [OF assms(2)] rep_up [OF up.hyps(1,2)] by simp
    moreover have "ps ! r = r" using rep_is_root [OF assms(2)] .
    moreover have "r \<noteq> v" using up True calculation by auto
    moreover have "rep (ps[v := r]) r r" using calculation by (intro rep_root) simp
    moreover have "ps[v := r] ! v = r" using assms(3) by simp
    ultimately show ?thesis using True rep_up [of "ps[v := r]" v r] by simp
  next
    case False
    then have "ps[v := r] ! x = ps ! x" by simp
    then show ?thesis using rep_up [of "ps[v := r]" x y] up by simp
  qed
qed

lemma rep_iffI:
  assumes "forest ps" "x < length ps" "\<And>y. rep ps x y \<Longrightarrow> rep ps' x y"
  shows "rep ps' x y \<longleftrightarrow> rep ps x y"
  using forest_rep [OF assms(1,2)] assms(3) rep_det by blast

lemma forest_compress:
  assumes "forest ps" "rep ps v r" "v < length ps"
  shows "forest (ps[v := r])"
  unfolding forest_def
proof (intro allI impI conjI)
  fix w assume w: "w < length (ps[v := r])"
  then show "ps[v := r] ! w < length (ps[v := r])"
    using forestD [OF assms(1)] rep_less [OF assms(2,1,3)] assms(3) by (simp add: nth_list_update)
  show "\<exists>y. rep (ps[v := r]) w y"
    using forest_rep [OF assms(1)] w rep_compress [OF _ assms(2,3)] by fastforce
qed

definition refines_to :: "nat list \<Rightarrow> nat list \<Rightarrow> bool" where
  "refines_to ps ps' \<longleftrightarrow> forest ps' \<and> length ps' = length ps \<and>
     (\<forall>x<length ps. \<forall>y. rep ps' x y \<longleftrightarrow> rep ps x y)"

lemma refines_to_refl: "forest ps \<Longrightarrow> refines_to ps ps"
  by (simp add: refines_to_def)

lemma refines_to_trans: "refines_to ps ps' \<Longrightarrow> refines_to ps' ps'' \<Longrightarrow> refines_to ps ps''"
  by (simp add: refines_to_def)

lemma find_fuel:
  "repn ps k v r \<Longrightarrow> forest ps \<Longrightarrow> v < length ps \<Longrightarrow> k < fuel \<Longrightarrow>
     \<exists>ps'. uf_find fuel ps v = Inr (ps', r) \<and> refines_to ps ps'"
proof (induction arbitrary: fuel rule: repn.induct)
  case (root v)
  then show ?case by (cases fuel) (auto intro: refines_to_refl)
next
  case (up v k r)
  obtain f where fuel: "fuel = Suc f" "k < f" using up.prems by (cases fuel) auto
  have rv: "rep ps v r" using up.hyps by (meson rep_def repn.up)
  obtain ps1 where ps1: "uf_find f ps (ps ! v) = Inr (ps1, r)" "refines_to ps ps1"
    using up.IH [OF up.prems(1) forestD [OF up.prems(1,2)] fuel(2)] by blast
  have r1: "forest ps1" "length ps1 = length ps" "rep ps1 v r" "v < length ps1"
    using ps1(2) rv up.prems(2) by (auto simp: refines_to_def)
  have "rep (ps1[v := r]) x y \<longleftrightarrow> rep ps1 x y" if "x < length ps1" for x y
    by (rule rep_iffI) (use r1 that in \<open>auto intro: rep_compress\<close>)
  then have "refines_to ps1 (ps1[v := r])"
    using forest_compress [OF r1(1,3,4)] by (simp add: refines_to_def)
  then have "refines_to ps (ps1[v := r])" using ps1(2) refines_to_trans by blast
  then show ?case using up.hyps(1) ps1(1) fuel(1) by simp
qed

lemma find_correct:
  assumes "forest ps" "v < length ps"
  obtains ps' r where "uf_find (length ps) ps v = Inr (ps', r)" "refines_to ps ps'" "rep ps v r"
proof -
  obtain r k where k: "repn ps k v r" using forest_rep [OF assms] by (auto simp: rep_def)
  obtain ps' where "uf_find (length ps) ps v = Inr (ps', r) \<and> refines_to ps ps'"
    using find_fuel [OF k assms repn_bound [OF k assms]] by blast
  then show ?thesis using that k by (auto simp: rep_def)
qed

section \<open>Union\<close>

lemma same_iff:
  assumes "rep ps x rx" "rep ps y ry"
  shows "same ps x y \<longleftrightarrow> rx = ry"
  using assms rep_det [of ps x] rep_det [of ps y] unfolding same_def by blast

lemma same_refl: "forest ps \<Longrightarrow> x < length ps \<Longrightarrow> same ps x x"
  by (auto simp: same_def dest: forest_rep)

lemma same_sym: "same ps x y \<Longrightarrow> same ps y x"
  by (auto simp: same_def)

lemma same_trans: "same ps x y \<Longrightarrow> same ps y z \<Longrightarrow> same ps x z"
  by (metis same_def rep_det)

lemma refines_to_same:
  "refines_to ps ps' \<Longrightarrow> x < length ps \<Longrightarrow> y < length ps \<Longrightarrow> same ps' x y \<longleftrightarrow> same ps x y"
  by (simp add: refines_to_def same_def)

lemma rep_link:
  assumes "rep ps x y" "ps ! a = a" "ps ! b = b" "a \<noteq> b" "b < length ps"
  shows "rep (ps[b := a]) x (if y = b then a else y)"
  using assms(1)
proof (induction rule: rep_induct)
  case (root x)
  show ?case
  proof (cases "x = b")
    case True
    have "rep (ps[b := a]) a a" using assms by (intro rep_root) simp
    moreover have "ps[b := a] ! b = a" using assms(5) by simp
    ultimately show ?thesis using True assms(4) rep_up [of "ps[b := a]" b a] by simp
  next
    case False
    then have "ps[b := a] ! x = x" using root by simp
    then show ?thesis using False by (simp add: rep_root)
  qed
next
  case (up x y)
  then have "x \<noteq> b" using assms by auto
  then have "ps[b := a] ! x = ps ! x" by simp
  then show ?case using rep_up [of "ps[b := a]" x "if y = b then a else y"] up by simp
qed

lemma forest_link:
  assumes "forest ps" "ps ! a = a" "ps ! b = b" "a \<noteq> b" "a < length ps" "b < length ps"
  shows "forest (ps[b := a])"
  unfolding forest_def
proof (intro allI impI conjI)
  fix w assume w: "w < length (ps[b := a])"
  then show "ps[b := a] ! w < length (ps[b := a])"
    using forestD [OF assms(1)] assms(5,6) by (simp add: nth_list_update)
  obtain y where "rep ps w y" using forest_rep [OF assms(1)] w by auto
  then show "\<exists>y. rep (ps[b := a]) w y" using rep_link [OF _ assms(2,3,4,6)] by blast
qed

lemma same_link:
  assumes "forest ps" "ps ! a = a" "ps ! b = b" "a \<noteq> b" "b < length ps"
    "x < length ps" "y < length ps"
  shows "same (ps[b := a]) x y \<longleftrightarrow>
     same ps x y \<or> (rep ps x a \<and> rep ps y b) \<or> (rep ps x b \<and> rep ps y a)"
proof -
  obtain rx ry where r: "rep ps x rx" "rep ps y ry"
    using forest_rep [OF assms(1)] assms(6,7) by blast
  have l: "rep (ps[b := a]) x (if rx = b then a else rx)" "rep (ps[b := a]) y (if ry = b then a else ry)"
    using rep_link [OF r(1) assms(2-5)] rep_link [OF r(2) assms(2-5)] by auto
  have "same (ps[b := a]) x y \<longleftrightarrow> (if rx = b then a else rx) = (if ry = b then a else ry)"
    by (rule same_iff [OF l])
  moreover have "same ps x y \<longleftrightarrow> rx = ry" by (rule same_iff [OF r])
  moreover have "rep ps x c \<longleftrightarrow> rx = c" "rep ps y c \<longleftrightarrow> ry = c" for c
    using r rep_det by blast+
  ultimately show ?thesis by auto
qed

lemma union_correct:
  assumes "forest ps" "l < length ps" "r < length ps"
  obtains ps' ranks' where "uf_union (ps, ranks) l r = Inr (ps', ranks')" "forest ps'"
    "length ps' = length ps" "length ranks' = length ranks"
    "\<And>x y. x < length ps \<Longrightarrow> y < length ps \<Longrightarrow>
       same ps' x y \<longleftrightarrow> same ps x y \<or> (same ps x l \<and> same ps y r) \<or> (same ps x r \<and> same ps y l)"
proof -
  obtain ps1 a where f1: "uf_find (length ps) ps l = Inr (ps1, a)" "refines_to ps ps1" "rep ps l a"
    using find_correct [OF assms(1,2)] .
  have o1: "forest ps1" "length ps1 = length ps" using f1(2) by (auto simp: refines_to_def)
  obtain ps2 b where f2: "uf_find (length ps1) ps1 r = Inr (ps2, b)" "refines_to ps1 ps2" "rep ps1 r b"
    using find_correct [OF o1(1)] assms(3) o1(2) by metis
  have rt: "refines_to ps ps2" using f1(2) f2(2) refines_to_trans by blast
  have o2: "forest ps2" "length ps2 = length ps" using rt by (auto simp: refines_to_def)
  have reps: "rep ps2 l a" "rep ps2 r b" "rep ps r b"
    using f1 f2 rt assms(2,3) o1(2) by (auto simp: refines_to_def)
  have roots: "ps2 ! a = a" "ps2 ! b = b" using reps rep_is_root by blast+
  have lt: "a < length ps2" "b < length ps2"
    using rep_less [OF reps(1) o2(1)] rep_less [OF reps(2) o2(1)] o2(2) assms(2,3) by simp_all
  have via: "same ps2 x l \<longleftrightarrow> rep ps2 x a" "same ps2 x r \<longleftrightarrow> rep ps2 x b" for x
    using reps rep_det unfolding same_def by blast+
  have eqv: "same ps2 x y \<longleftrightarrow> same ps x y" if "x < length ps" "y < length ps" for x y
    using refines_to_same [OF rt that] .
  show ?thesis
  proof (cases "a = b")
    case True
    have sl: "same ps l r" using reps f1(3) True unfolding same_def by blast
    show ?thesis
    proof (rule that [of ps2 ranks])
      show "uf_union (ps, ranks) l r = Inr (ps2, ranks)"
        using f1(1) f2(1) True by (simp add: uf_union_def)
      show "same ps2 x y \<longleftrightarrow> same ps x y \<or> (same ps x l \<and> same ps y r) \<or> (same ps x r \<and> same ps y l)"
        if "x < length ps" "y < length ps" for x y
        using eqv [OF that] sl same_trans same_sym by blast
    qed (use o2 in auto)
  next
    case False
    define c d where "c = (if ranks ! a < ranks ! b then b else a)"
      and "d = (if ranks ! a < ranks ! b then a else b)"
    have cd: "c \<noteq> d" "ps2 ! c = c" "ps2 ! d = d" "c < length ps2" "d < length ps2" "{c, d} = {a, b}"
      using False roots lt by (auto simp: c_def d_def)
    define ranks' where "ranks' = (if ranks ! c = ranks ! d then ranks[c := ranks ! c + 1] else ranks)"
    show ?thesis
    proof (rule that [of "ps2[d := c]" ranks'])
      show "uf_union (ps, ranks) l r = Inr (ps2[d := c], ranks')"
        using f1(1) f2(1) False
        by (auto simp: uf_union_def c_def d_def ranks'_def Let_def)
      show "forest (ps2[d := c])" using forest_link [OF o2(1) cd(2,3,1,4,5)] .
      show "length (ps2[d := c]) = length ps" "length ranks' = length ranks"
        using o2 by (auto simp: ranks'_def)
      show "same (ps2[d := c]) x y \<longleftrightarrow> same ps x y \<or> (same ps x l \<and> same ps y r) \<or> (same ps x r \<and> same ps y l)"
        if xy: "x < length ps" "y < length ps" for x y
      proof -
        have "same (ps2[d := c]) x y \<longleftrightarrow>
            same ps2 x y \<or> (rep ps2 x c \<and> rep ps2 y d) \<or> (rep ps2 x d \<and> rep ps2 y c)"
          using same_link [OF o2(1) cd(2,3,1,5)] xy o2(2) by simp
        also have "\<dots> \<longleftrightarrow> same ps2 x y \<or> (rep ps2 x a \<and> rep ps2 y b) \<or> (rep ps2 x b \<and> rep ps2 y a)"
          by (auto simp: c_def d_def)
        finally show ?thesis
          unfolding via [symmetric] using eqv xy assms(2,3) by simp
      qed
    qed
  qed
qed

lemma forest_init: "forest [0..<n]"
  unfolding forest_def by (auto intro!: exI rep_root)

lemma same_init: "x < n \<Longrightarrow> y < n \<Longrightarrow> same [0..<n] x y \<longleftrightarrow> x = y"
  unfolding same_def by (metis nth_upt add.left_neutral rep_det rep_root)

end
