(* ===== verification/ReplayPlan.thy ===== *)
theory ReplayPlan
  imports TargetRelation ReplayClaim UnionFind CodecStream "HOL-Library.List_Lexorder"
begin

text \<open>
  The replay planner (\<^verbatim>\<open>internal/cdc/replay_plan.go\<close>): it splits a batch of
  source transactions into steps, each either one serial transaction or a set of lanes that the
  executor replays in parallel. A dependency key is the SHA-256 digest of what a change touches;
  transactions that share a key must end up in one lane.

  \<^verbatim>\<open>relationFingerprints\<close> is keyed by the relation instead of its address: the
  planner never changes a relation, and the fingerprint is a function of its contents.
\<close>

section \<open>Types\<close>

record replayPlanTransaction =
  rpt_index :: nat
  rpt_keys :: "digest list"
  rpt_items :: "relationBatchedChange list"

record replayPlanLane =
  ln_Lane :: nat
  ln_TransactionIndexes :: "nat list"
  ln_Items :: "relationBatchedChange list"
  ln_Work :: replayClaimWork

record replayPlanStep =
  st_Index :: nat
  st_Lanes :: "replayPlanLane list"
  st_SerialTransaction :: int

record replayPlan =
  pl_Claim :: replayClaim
  pl_Works :: "replayClaimWork list"
  pl_Steps :: "replayPlanStep list"
  pl_HasParallel :: bool

definition replayPlanHasSerialWork :: "replayPlan \<Rightarrow> bool" where
  "replayPlanHasSerialWork plan = list_ex (\<lambda>s. st_SerialTransaction s \<ge> 0) (pl_Steps plan)"

definition replayPlanWorkChanges :: "replayClaimWork list \<Rightarrow> int" where
  "replayPlanWorkChanges works = sum_list (map wk_ExpectedChanges works)"

definition replayPlanWorkTransactions :: "replayClaimWork list \<Rightarrow> int" where
  "replayPlanWorkTransactions works = sum_list (map wk_ExpectedTransactions works)"

section \<open>Fingerprints\<close>

definition writeTargetColumnFingerprint :: "bytes \<Rightarrow> targetColumn \<Rightarrow> bytes" where
  "writeTargetColumnFingerprint h column =
     (let h = writeReplayHashBytes h (bytes_of_string (tc_name column));
          h = writeReplayHashInt h (uint (tc_oid column));
          h = writeReplayHashInt h (uint (tc_arrayOID column));
          h = writeReplayHashBool h (tc_key column);
          h = writeReplayHashBool h (tc_primary column);
          h = writeReplayHashInt h (tc_primaryPos column);
          h = writeReplayHashBool h (tc_replayKeySafe column);
          h = writeReplayHashBool h (tc_lanePayloadTextOnly column);
          h = writeReplayHashBytes h (bytes_of_string (tc_identity column));
          h = writeReplayHashInt h (tc_sourceIndex column);
          h = writeReplayHashBool h (tc_generated column);
          h = writeReplayHashBool h (tc_notNull column)
      in writeReplayHashBool h (tc_conflicting column))"

definition write_source_column :: "bytes \<Rightarrow> Column \<Rightarrow> bytes" where
  "write_source_column h column =
     (let h = writeReplayHashBytes h (bytes_of_string (col_Name column));
          h = writeReplayHashInt h (uint (col_Type column))
      in writeReplayHashInt h (uint (col_Flags column)))"

definition write_ordered_lane :: "int \<Rightarrow> targetRelationCapabilities \<Rightarrow> bytes \<Rightarrow> bytes" where
  "write_ordered_lane planVersion cap h =
     (if planVersion \<ge> 3
      then let h = (if planVersion = 3 then writeReplayHashBool h (cap_relationOrderedLaneV3 cap)
                    else if planVersion = 4 then writeReplayHashBool h (cap_relationOrderedLaneV4 cap)
                    else writeReplayHashBool h (cap_relationOrderedLane cap))
           in writeReplayHashBool h (cap_primaryKeyArbiter cap)
      else h)"

definition targetRelationReplayFingerprintVersion :: "targetRelation option \<Rightarrow> int \<Rightarrow> digest" where
  "targetRelationReplayFingerprintVersion relation planVersion =
     (let h = newReplayClaimHasher ''pgmigrate-target-relation-v1'' in
      case relation of None \<Rightarrow> finishReplayHash h
      | Some r \<Rightarrow>
        (let src = tr_source r; cap = tr_capabilities r;
             h = writeReplayHashInt h (uint (rel_OID src));
             h = writeReplayHashBytes h (bytes_of_string (rel_Namespace src));
             h = writeReplayHashBytes h (bytes_of_string (rel_Name src));
             h = writeReplayHashInt h (uint (rel_ReplicaIdentity src));
             h = foldl write_source_column h (rel_Columns src);
             h = writeReplayHashBool h (tr_overrideIdentity r);
             h = writeReplayHashBool h (cap_relationLane cap);
             h = write_ordered_lane planVersion cap h;
             h = writeReplayHashBool h (cap_keyedSetDML cap);
             h = writeReplayHashBool h (cap_binaryCopy cap);
             h = writeReplayHashBool h (cap_textCopyStage cap);
             h = writeReplayHashBool h (cap_selectiveUpdates cap);
             h = writeReplayHashBool h (cap_crossKeyConflicts cap);
             h = foldl writeTargetColumnFingerprint h (tr_columns r);
             h = writeReplayHashBytes h (bytes_of_string ''generated'');
             h = foldl writeTargetColumnFingerprint h (tr_generatedColumns r)
         in finishReplayHash h))"

section \<open>Dependency keys\<close>

text \<open>
  The results of the key functions: \<open>Inr None\<close> is \<^verbatim>\<open>safe = false\<close>,
  \<open>Inr (Some key)\<close> is a key.
\<close>

fun lane_payload_safe :: "byte \<Rightarrow> Tuple \<Rightarrow> targetColumn list \<Rightarrow> bool" where
  "lane_payload_safe kind new [] = True"
| "lane_payload_safe kind new (c # cs) =
     (if \<not> tc_lanePayloadTextOnly c then lane_payload_safe kind new cs
      else if \<not> in_range (tc_sourceIndex c) new then False
      else let k = dat_Kind (new ! nat (tc_sourceIndex c)) in
        if k = DatumText \<or> k = DatumNull then lane_payload_safe kind new cs
        else if k = DatumUnchangedToast
        then (if kind \<noteq> ChangeUpdate then False else lane_payload_safe kind new cs)
        else False)"

definition replayLanePayloadSafe :: "targetRelation \<Rightarrow> Change \<Rightarrow> bool" where
  "replayLanePayloadSafe relation change =
     (if ch_Kind change = ChangeDelete then True
      else case ch_New change of None \<Rightarrow> False
        | Some new \<Rightarrow> lane_payload_safe (ch_Kind change) new (tr_columns relation))"

definition datum_present :: "Tuple \<Rightarrow> targetColumn \<Rightarrow> bool" where
  "datum_present tuple c \<longleftrightarrow> in_range (tc_sourceIndex c) tuple \<and>
     (let k = dat_Kind (tuple ! nat (tc_sourceIndex c)) in k \<noteq> DatumNull \<and> k \<noteq> DatumUnchangedToast)"

definition canShardUpdateByPrimaryKey :: "targetRelation \<Rightarrow> Change \<Rightarrow> bool" where
  "canShardUpdateByPrimaryKey relation change =
     (case ch_New change of None \<Rightarrow> False
      | Some new \<Rightarrow>
          if length new \<noteq> length (rel_Columns (tr_source relation)) then False
          else let primary = primaryKeyColumns relation in
            if primary = [] then False
            else if \<not> list_all (datum_present new) primary then False
            else (case ch_Old change of
                None \<Rightarrow> (case primaryKeyDeleteColumns relation of None \<Rightarrow> False
                         | Some identified \<Rightarrow> sameTargetColumns primary identified)
              | Some old \<Rightarrow>
                  if length old \<noteq> length (rel_Columns (tr_source relation)) then False
                  else list_all (\<lambda>c. datum_present old c \<and>
                         tupleDatumEqual (old ! nat (tc_sourceIndex c)) (new ! nat (tc_sourceIndex c)))
                       primary))"

definition replayRelationLaneKeyWithAdmission :: "targetRelation option \<Rightarrow> digest \<Rightarrow> bool \<Rightarrow> digest option res" where
  "replayRelationLaneKeyWithAdmission relation fingerprint orderedLane =
     (if relation = None \<or> \<not> orderedLane then Inr None
      else Inr (Some (finishReplayHash (writeReplayHashBytes
             (newReplayClaimHasher ''pgmigrate-replay-relation-lane-v1'') fingerprint))))"

definition replayRelationLaneKey :: "targetRelation option \<Rightarrow> digest \<Rightarrow> digest option res" where
  "replayRelationLaneKey relation fingerprint =
     replayRelationLaneKeyWithAdmission relation fingerprint
       (case relation of None \<Rightarrow> False | Some r \<Rightarrow> cap_relationOrderedLane (tr_capabilities r))"

text \<open>The loop over the primary key at the end of both key functions.\<close>

fun hash_primary_key :: "targetRelation \<Rightarrow> byte \<Rightarrow> Tuple \<Rightarrow> targetColumn list \<Rightarrow> bytes \<Rightarrow> digest option res" where
  "hash_primary_key relation kind tuple [] h = Inr (Some (finishReplayHash h))"
| "hash_primary_key relation kind tuple (c # cs) h =
     (if \<not> datum_present tuple c then Inr None
      else let datum = tuple ! nat (tc_sourceIndex c) in
        if \<not> replayKeyDatumSafe (tc_oid c) (dat_Kind datum) then Inr None
        else rbind (datumParamForColumn relation c datum kind) (\<lambda>_.
          hash_primary_key relation kind tuple cs
            (writeReplayHashBytes (writeReplayHashInt h (uint (dat_Kind datum))) (dat_bytes datum))))"

definition lane_hasher :: "digest \<Rightarrow> bytes" where
  "lane_hasher fingerprint =
     writeReplayHashBytes (newReplayClaimHasher ''pgmigrate-replay-lane-v1'') fingerprint"

definition replayChangeKeyV2 :: "targetRelation option \<Rightarrow> digest \<Rightarrow> Change \<Rightarrow> digest option res" where
  "replayChangeKeyV2 relation fingerprint change = (case relation of None \<Rightarrow> Inr None
   | Some r \<Rightarrow>
     if \<not> cap_relationLane (tr_capabilities r) \<or> cap_crossKeyConflicts (tr_capabilities r) then Inr None
     else if \<not> replayLanePayloadSafe r change then Inr None
     else let primary = primaryKeyColumns r; kind = ch_Kind change in
       if primary = [] then Inr None
       else if \<not> list_all tc_replayKeySafe primary then Inr None
       else rbind
         (if kind = ChangeInsert
          then rbind (validateTuple r (ch_New change) ChangeInsert) (\<lambda>_. Inr (ch_New change))
          else if kind = ChangeUpdate
          then rbind (canPrimaryKeyUpsertV2 relation change) (\<lambda>ok.
                 Inr (if ok then ch_New change else None))
          else if kind = ChangeDelete
          then (case primaryKeyDeleteColumns r of None \<Rightarrow> Inr None
                | Some deletePrimary \<Rightarrow>
                    if \<not> sameTargetColumns primary deletePrimary then Inr None
                    else rbind (validateTuple r (ch_Old change) ChangeDelete) (\<lambda>_. Inr (ch_Old change)))
          else Inr None)
         (\<lambda>tuple. case tuple of None \<Rightarrow> Inr None
          | Some t \<Rightarrow> hash_primary_key r kind t primary (lane_hasher fingerprint)))"

text \<open>The tuple of a change that \<^verbatim>\<open>replayChangeKeyWithOrderedLane\<close> validates;
  \<open>None\<close> for a kind it does not admit.\<close>

definition change_tuple :: "targetRelation \<Rightarrow> Change \<Rightarrow> Tuple option res" where
  "change_tuple r change =
     (let kind = ch_Kind change in
      if kind = ChangeInsert
      then rbind (validateTuple r (ch_New change) ChangeInsert) (\<lambda>_. Inr (ch_New change))
      else if kind = ChangeUpdate
      then rbind (validateTuple r (ch_New change) ChangeUpdate) (\<lambda>_. Inr (ch_New change))
      else if kind = ChangeDelete
      then rbind (validateTuple r (ch_Old change) ChangeDelete) (\<lambda>_. Inr (ch_Old change))
      else Inr None)"

definition whole_relation_barrier :: "targetRelation \<Rightarrow> Change \<Rightarrow> bool" where
  "whole_relation_barrier r change =
     (if ch_Kind change = ChangeUpdate then \<not> canShardUpdateByPrimaryKey r change
      else if ch_Kind change = ChangeDelete
      then (case primaryKeyDeleteColumns r of None \<Rightarrow> True
            | Some deletePrimary \<Rightarrow> \<not> sameTargetColumns (primaryKeyColumns r) deletePrimary)
      else False)"

definition replayChangeKeyWithOrderedLane ::
  "targetRelation option \<Rightarrow> digest \<Rightarrow> Change \<Rightarrow> bool \<Rightarrow> digest option res" where
  "replayChangeKeyWithOrderedLane relation fingerprint change orderedLane = (case relation of None \<Rightarrow> Inr None
   | Some r \<Rightarrow>
     if \<not> orderedLane then Inr None
     else if \<not> replayLanePayloadSafe r change then Inr None
     else rbind (change_tuple r change) (\<lambda>tuple. case tuple of None \<Rightarrow> Inr None
     | Some t \<Rightarrow>
        if \<not> cap_relationLane (tr_capabilities r) \<or> cap_crossKeyConflicts (tr_capabilities r)
        then replayRelationLaneKeyWithAdmission relation fingerprint orderedLane
        else let primary = primaryKeyColumns r in
          if primary = [] then Inr None
          else if \<not> list_all tc_replayKeySafe primary then Inr None
          else if whole_relation_barrier r change
          then replayRelationLaneKeyWithAdmission relation fingerprint orderedLane
          else hash_primary_key r (ch_Kind change) t primary (lane_hasher fingerprint)))"

definition replayChangeKeyV3 :: "targetRelation option \<Rightarrow> digest \<Rightarrow> Change \<Rightarrow> digest option res" where
  "replayChangeKeyV3 relation fingerprint change =
     replayChangeKeyWithOrderedLane relation fingerprint change
       (case relation of None \<Rightarrow> False | Some r \<Rightarrow> cap_relationOrderedLaneV3 (tr_capabilities r))"

definition replayChangeKeyV4 :: "targetRelation option \<Rightarrow> digest \<Rightarrow> Change \<Rightarrow> digest option res" where
  "replayChangeKeyV4 relation fingerprint change =
     replayChangeKeyWithOrderedLane relation fingerprint change
       (case relation of None \<Rightarrow> False | Some r \<Rightarrow> cap_relationOrderedLaneV4 (tr_capabilities r))"

definition replayChangeKey :: "targetRelation option \<Rightarrow> digest \<Rightarrow> Change \<Rightarrow> digest option res" where
  "replayChangeKey relation fingerprint change =
     replayChangeKeyWithOrderedLane relation fingerprint change
       (case relation of None \<Rightarrow> False | Some r \<Rightarrow> cap_relationOrderedLane (tr_capabilities r))"

definition replayChangeKeyForVersion ::
  "int \<Rightarrow> targetRelation option \<Rightarrow> digest \<Rightarrow> Change \<Rightarrow> digest option res" where
  "replayChangeKeyForVersion planVersion relation fingerprint change =
     (if planVersion = 2 then replayChangeKeyV2 relation fingerprint change
      else if planVersion = 3 then replayChangeKeyV3 relation fingerprint change
      else if planVersion = 4 then replayChangeKeyV4 relation fingerprint change
      else replayChangeKey relation fingerprint change)"

end
