(* ===== verification/ReplayLanes.thy ===== *)
theory ReplayLanes
  imports ReplayPlan
begin

text \<open>
  \<^verbatim>\<open>replayTransactionComponentLanes\<close> (\<^verbatim>\<open>internal/cdc/replay_plan.go\<close>):
  transactions that share a dependency key are united, every component gets one lane by the hash of
  its keys, and the transactions go to the lanes in source order. The lemmas show that the
  components are exactly the classes of the transitive closure of "shares a key", that the lanes
  partition the epoch, and that two transactions of different lanes share no key.
\<close>

section \<open>The code\<close>

type_synonym key_forest = "(digest \<Rightarrow> nat option) \<times> nat list \<times> byte list"

fun unite_keys :: "nat \<Rightarrow> digest list \<Rightarrow> key_forest \<Rightarrow> key_forest res" where
  "unite_keys i [] st = Inr st"
| "unite_keys i (key # keys) (firstByKey, uf) = (case firstByKey key of
     Some first \<Rightarrow> rbind (uf_union uf first i) (\<lambda>uf. unite_keys i keys (firstByKey, uf))
   | None \<Rightarrow> unite_keys i keys (firstByKey(key \<mapsto> i), uf))"

fun unite_epoch :: "nat \<Rightarrow> replayPlanTransaction list \<Rightarrow> key_forest \<Rightarrow> key_forest res" where
  "unite_epoch i [] st = Inr st"
| "unite_epoch i (t # ts) st =
     (if rpt_keys t = [] then Inl (Err ''cdc: replay transaction has no dependency key'')
      else rbind (unite_keys i (rpt_keys t) st) (unite_epoch (Suc i) ts))"

text \<open>\<^verbatim>\<open>componentKeys\<close>: a missing key of the map reads as nil.\<close>

fun collect_component_keys ::
  "nat \<Rightarrow> replayPlanTransaction list \<Rightarrow> nat list \<times> (nat \<Rightarrow> digest list) \<Rightarrow>
     (nat list \<times> (nat \<Rightarrow> digest list)) res" where
  "collect_component_keys i [] st = Inr st"
| "collect_component_keys i (t # ts) (ps, ck) = rbind (uf_find (length ps) ps i) (\<lambda>(ps, root).
     collect_component_keys (Suc i) ts (ps, ck(root := ck root @ rpt_keys t)))"

text \<open>Sorted by \<^verbatim>\<open>bytes.Compare\<close>; adjacent duplicates are hashed once.\<close>

definition component_lane :: "nat \<Rightarrow> digest list \<Rightarrow> nat" where
  "component_lane laneCount keys =
     (let h = foldl writeReplayHashBytes
            (newReplayClaimHasher ''pgmigrate-replay-transaction-component-v1'')
            (remdups_adj (sort keys))
      in unat (be64_of (take 8 (finishReplayHash h))) mod laneCount)"

fun assign_lanes ::
  "nat \<Rightarrow> (nat \<Rightarrow> digest list) \<Rightarrow> nat \<Rightarrow> replayPlanTransaction list \<Rightarrow>
     nat list \<times> replayPlanLane list \<Rightarrow> replayPlanLane list res" where
  "assign_lanes laneCount ck i [] (ps, lanes) = Inr lanes"
| "assign_lanes laneCount ck i (t # ts) (ps, lanes) = rbind (uf_find (length ps) ps i) (\<lambda>(ps, root).
     let lane = component_lane laneCount (ck root); l = lanes ! lane
     in assign_lanes laneCount ck (Suc i) ts (ps, lanes[lane :=
          l\<lparr>ln_TransactionIndexes := ln_TransactionIndexes l @ [rpt_index t],
            ln_Items := ln_Items l @ rpt_items t\<rparr>]))"

definition zero_work :: replayClaimWork where
  "zero_work = \<lparr>wk_Step = 0, wk_Work = 0, wk_Kind = [], wk_Lane = 0, wk_Digest = zero_digest,
     wk_ExpectedTransactions = 0, wk_ExpectedChanges = 0, wk_CommittedAt = None\<rparr>"

definition empty_lane :: "nat \<Rightarrow> replayPlanLane" where
  "empty_lane lane = \<lparr>ln_Lane = lane, ln_TransactionIndexes = [], ln_Items = [], ln_Work = zero_work\<rparr>"

definition replayTransactionComponentLanes ::
  "replayPlanTransaction list \<Rightarrow> int \<Rightarrow> replayPlanLane list res" where
  "replayTransactionComponentLanes epoch laneCount =
     (if epoch = [] \<or> laneCount < 1
      then Inl (Err ''cdc: invalid replay transaction component input'')
      else rbind (unite_epoch 0 epoch (\<lambda>_. None, [0..<length epoch], replicate (length epoch) 0))
        (\<lambda>(firstByKey, ps, ranks). rbind (collect_component_keys 0 epoch (ps, \<lambda>_. []))
        (\<lambda>(ps, ck). assign_lanes (nat laneCount) ck 0 epoch
           (ps, map empty_lane [0..<nat laneCount]))))"

section \<open>Components\<close>

text \<open>
  \<open>visited\<close> is the set of (transaction, key) pairs the loops have seen; \<open>linked\<close> relates
  two transactions with a common key.
\<close>

definition linked :: "(nat \<times> digest) set \<Rightarrow> (nat \<times> nat) set" where
  "linked V = {(x, y). \<exists>k. (x, k) \<in> V \<and> (y, k) \<in> V}"

definition forest_inv :: "nat \<Rightarrow> (nat \<times> digest) set \<Rightarrow> key_forest \<Rightarrow> bool" where
  "forest_inv n V = (\<lambda>(first, ps, ranks). forest ps \<and> length ps = n \<and> (\<forall>(x, k)\<in>V. x < n) \<and>
     (\<forall>k f. first k = Some f \<longrightarrow> (f, k) \<in> V) \<and>
     (\<forall>(x, k)\<in>V. \<exists>f. first k = Some f \<and> same ps f x) \<and>
     (\<forall>x<n. \<forall>y<n. same ps x y \<longrightarrow> (x, y) \<in> (linked V)\<^sup>*))"

lemma forest_invI:
  assumes "forest ps" "length ps = n" "\<And>x k. (x, k) \<in> V \<Longrightarrow> x < n"
    "\<And>k f. first k = Some f \<Longrightarrow> (f, k) \<in> V"
    "\<And>x k. (x, k) \<in> V \<Longrightarrow> \<exists>f. first k = Some f \<and> same ps f x"
    "\<And>x y. x < n \<Longrightarrow> y < n \<Longrightarrow> same ps x y \<Longrightarrow> (x, y) \<in> (linked V)\<^sup>*"
  shows "forest_inv n V (first, ps, ranks)"
  using assms unfolding forest_inv_def by auto

lemma forest_invD:
  assumes "forest_inv n V (first, ps, ranks)"
  shows "forest ps" "length ps = n" "\<And>x k. (x, k) \<in> V \<Longrightarrow> x < n"
    "\<And>k f. first k = Some f \<Longrightarrow> (f, k) \<in> V"
    "\<And>x k. (x, k) \<in> V \<Longrightarrow> \<exists>f. first k = Some f \<and> same ps f x"
    "\<And>x y. x < n \<Longrightarrow> y < n \<Longrightarrow> same ps x y \<Longrightarrow> (x, y) \<in> (linked V)\<^sup>*"
  using assms by (auto simp: forest_inv_def)

lemma linked_mono: "V \<subseteq> W \<Longrightarrow> linked V \<subseteq> linked W"
  by (auto simp: linked_def)

lemma linked_star_mono: "V \<subseteq> W \<Longrightarrow> p \<in> (linked V)\<^sup>* \<Longrightarrow> p \<in> (linked W)\<^sup>*"
  using rtrancl_mono [OF linked_mono] by blast

lemma sym_linked: "sym (linked V)"
  by (auto simp: linked_def sym_def)

lemma linked_star_sym: "(x, y) \<in> (linked V)\<^sup>* \<Longrightarrow> (y, x) \<in> (linked V)\<^sup>*"
  using sym_rtrancl [OF sym_linked] by (auto simp: sym_def)

lemma forest_inv_init: "forest_inv n {} (\<lambda>_. None, [0..<n], ranks)"
  by (auto simp: forest_inv_def forest_init same_init)

lemma forest_inv_new:
  assumes "forest_inv n V (first, ps, ranks)" "first k = None" "i < n"
  shows "forest_inv n (insert (i, k) V) (first(k \<mapsto> i), ps, ranks)"
proof -
  let ?V = "insert (i, k) V" and ?first = "first(k \<mapsto> i)"
  note inv = forest_invD [OF assms(1)]
  have "\<exists>f. ?first k' = Some f \<and> same ps f x" if "(x, k') \<in> ?V" for x k'
  proof (cases "(x, k') = (i, k)")
    case True
    then show ?thesis using same_refl [OF inv(1)] assms(3) inv(2) by auto
  next
    case False
    then have "(x, k') \<in> V" using that by auto
    then obtain f where "first k' = Some f \<and> same ps f x" using inv(5) by blast
    then show ?thesis using assms(2) by auto
  qed
  moreover have "(f, k') \<in> ?V" if "?first k' = Some f" for f k'
    using that inv(4) by (auto split: if_splits)
  moreover have "(x, y) \<in> (linked ?V)\<^sup>*" if "x < n" "y < n" "same ps x y" for x y
    by (rule linked_star_mono [OF _ inv(6) [OF that]]) auto
  moreover have "x < n" if "(x, k') \<in> ?V" for x k'
    using that inv(3) assms(3) by auto
  ultimately show ?thesis
    using inv(1,2) by (intro forest_invI)
qed

lemma forest_inv_union:
  assumes "forest_inv n V (first, ps, ranks)" "first k = Some f" "i < n"
  obtains uf where "uf_union (ps, ranks) f i = Inr uf" "forest_inv n (insert (i, k) V) (first, uf)"
proof -
  let ?V = "insert (i, k) V"
  note inv = forest_invD [OF assms(1)]
  have f: "(f, k) \<in> V" "f < n" using inv(3,4) assms(2) by blast+
  obtain ps' ranks' where u: "uf_union (ps, ranks) f i = Inr (ps', ranks')" "forest ps'"
      "length ps' = length ps"
      "\<And>x y. x < length ps \<Longrightarrow> y < length ps \<Longrightarrow>
         same ps' x y \<longleftrightarrow> same ps x y \<or> (same ps x f \<and> same ps y i) \<or> (same ps x i \<and> same ps y f)"
    using union_correct [OF inv(1), of f i ranks] f(2) assms(3) inv(2) by metis
  have grow: "same ps' x y" if "same ps x y" "x < n" "y < n" for x y
    using u(4) [of x y] that inv(2) by simp
  have fi: "same ps' f i"
    using u(4) [of f i] f(2) assms(3) inv(2) same_refl [OF inv(1)] by simp
  have first: "\<exists>g. first k' = Some g \<and> same ps' g x" if "(x, k') \<in> ?V" for x k'
  proof (cases "(x, k') = (i, k)")
    case True
    then show ?thesis using fi assms(2) by auto
  next
    case False
    then have V: "(x, k') \<in> V" using that by auto
    then obtain g where g: "first k' = Some g" "same ps g x" using inv(5) by blast
    have "g < n" "x < n" using inv(3,4) g(1) V by blast+
    then show ?thesis using grow g by blast
  qed
  have step: "(f, i) \<in> (linked ?V)\<^sup>*"
    using f(1) by (intro r_into_rtrancl) (auto simp: linked_def)
  have old: "(x, y) \<in> (linked ?V)\<^sup>*" if "same ps x y" "x < n" "y < n" for x y
    by (rule linked_star_mono [OF _ inv(6) [OF that(2,3,1)]]) auto
  have "(x, y) \<in> (linked ?V)\<^sup>*" if xy: "x < n" "y < n" "same ps' x y" for x y
  proof -
    consider "same ps x y" | "same ps x f" "same ps y i" | "same ps x i" "same ps y f"
      using u(4) [of x y] xy inv(2) by auto
    then show ?thesis
    proof cases
      case 1
      then show ?thesis using old xy by blast
    next
      case 2
      then have "(x, f) \<in> (linked ?V)\<^sup>*" "(y, i) \<in> (linked ?V)\<^sup>*" using old xy f(2) assms(3) by blast+
      then show ?thesis using step linked_star_sym rtrancl_trans by metis
    next
      case 3
      then have "(x, i) \<in> (linked ?V)\<^sup>*" "(y, f) \<in> (linked ?V)\<^sup>*" using old xy f(2) assms(3) by blast+
      then show ?thesis using step linked_star_sym rtrancl_trans by metis
    qed
  qed
  moreover have "x < n" if "(x, k') \<in> ?V" for x k'
    using that inv(3) assms(3) by auto
  moreover have "(g, k') \<in> ?V" if "first k' = Some g" for g k'
    using inv(4) [OF that] by simp
  moreover have "length ps' = n" using u(3) inv(2) by simp
  ultimately have "forest_inv n ?V (first, ps', ranks')"
    using u(2) first by (intro forest_invI)
  then show ?thesis using that u(1) by blast
qed

lemma unite_keys_inv:
  "forest_inv n V st \<Longrightarrow> i < n \<Longrightarrow>
     \<exists>st'. unite_keys i keys st = Inr st' \<and> forest_inv n (V \<union> {i} \<times> set keys) st'"
proof (induction i keys st arbitrary: V rule: unite_keys.induct)
  case (2 i key keys first uf)
  obtain ps ranks where uf: "uf = (ps, ranks)" by (cases uf)
  have eq: "V \<union> {i} \<times> set (key # keys) = insert (i, key) V \<union> {i} \<times> set keys" by auto
  show ?case
  proof (cases "first key")
    case None
    have new: "forest_inv n (insert (i, key) V) (first(key \<mapsto> i), uf)"
      using forest_inv_new [of n V first ps ranks key i] 2(3,4) None uf by simp
    show ?thesis using 2(1) [OF None new 2(4)] None unfolding eq by simp
  next
    case (Some f)
    obtain uf' where u: "uf_union uf f i = Inr uf'" "forest_inv n (insert (i, key) V) (first, uf')"
      using forest_inv_union [of n V first ps ranks key f i] 2(3,4) Some uf by auto
    show ?thesis using 2(2) [OF Some u(2) 2(4)] Some u(1) unfolding eq by simp
  qed
qed simp

definition epoch_pairs :: "nat \<Rightarrow> replayPlanTransaction list \<Rightarrow> (nat \<times> digest) set" where
  "epoch_pairs i ts = {(j, k). i \<le> j \<and> j < i + length ts \<and> k \<in> set (rpt_keys (ts ! (j - i)))}"

lemma epoch_pairs_Cons: "epoch_pairs i (t # ts) = {i} \<times> set (rpt_keys t) \<union> epoch_pairs (Suc i) ts"
proof (rule set_eqI, clarify)
  fix j k
  show "(j, k) \<in> epoch_pairs i (t # ts) \<longleftrightarrow> (j, k) \<in> {i} \<times> set (rpt_keys t) \<union> epoch_pairs (Suc i) ts"
  proof (cases "j \<le> i")
    case True
    then show ?thesis by (auto simp: epoch_pairs_def)
  next
    case False
    then obtain d where "j = Suc (i + d)" by (metis not_less less_iff_Suc_add)
    then show ?thesis by (simp add: epoch_pairs_def)
  qed
qed

lemma unite_epoch_inv:
  "forest_inv n V st \<Longrightarrow> i + length ts \<le> n \<Longrightarrow> \<forall>t\<in>set ts. rpt_keys t \<noteq> [] \<Longrightarrow>
     \<exists>st'. unite_epoch i ts st = Inr st' \<and> forest_inv n (V \<union> epoch_pairs i ts) st'"
proof (induction i ts st arbitrary: V rule: unite_epoch.induct)
  case (1 i st)
  moreover have "epoch_pairs i [] = {}" by (auto simp: epoch_pairs_def)
  ultimately show ?case by simp
next
  case (2 i t ts st)
  have i: "i < n" using "2.prems"(2) by simp
  obtain st' where st': "unite_keys i (rpt_keys t) st = Inr st'"
      "forest_inv n (V \<union> {i} \<times> set (rpt_keys t)) st'"
    using unite_keys_inv [OF "2.prems"(1) i] by blast
  have "rpt_keys t \<noteq> []" using "2.prems"(3) by simp
  then show ?case
    using 2(1) [OF _ st'(2)] st'(1) "2.prems"(2,3) unfolding epoch_pairs_Cons Un_assoc by simp
qed

definition epoch_linked :: "replayPlanTransaction list \<Rightarrow> (nat \<times> nat) set" where
  "epoch_linked epoch = {(x, y). x < length epoch \<and> y < length epoch \<and>
     set (rpt_keys (epoch ! x)) \<inter> set (rpt_keys (epoch ! y)) \<noteq> {}}"

lemma linked_epoch_pairs: "linked (epoch_pairs 0 epoch) = epoch_linked epoch"
  by (auto simp: linked_def epoch_pairs_def epoch_linked_def)

lemma forest_inv_components:
  assumes "forest_inv n V (first, ps, ranks)" "x < n" "y < n"
  shows "same ps x y \<longleftrightarrow> (x, y) \<in> (linked V)\<^sup>*"
proof
  show "same ps x y \<Longrightarrow> (x, y) \<in> (linked V)\<^sup>*" using assms by (auto simp: forest_inv_def)
next
  note inv = forest_invD [OF assms(1)]
  assume "(x, y) \<in> (linked V)\<^sup>*"
  then show "same ps x y"
  proof induction
    case base
    then show ?case using same_refl [OF inv(1)] assms(2) inv(2) by simp
  next
    case (step y z)
    then obtain k where "(y, k) \<in> V" "(z, k) \<in> V" by (auto simp: linked_def)
    then have "same ps y z" using inv(5) same_trans same_sym by (metis option.inject)
    then show ?case using step.IH same_trans by blast
  qed
qed

section \<open>Lanes\<close>

text \<open>
  \<open>component epoch i\<close>: the keys of the transactions in the component of transaction
  \<open>i\<close>, in epoch order; \<open>lane_of\<close>: the lane that component gets.
\<close>

definition component :: "nat list \<Rightarrow> replayPlanTransaction list \<Rightarrow> nat \<Rightarrow> digest list" where
  "component ps epoch i = concat (map (\<lambda>j. rpt_keys (epoch ! j)) (filter (\<lambda>j. same ps j i) [0..<length epoch]))"

definition lane_of :: "nat list \<Rightarrow> nat \<Rightarrow> replayPlanTransaction list \<Rightarrow> nat \<Rightarrow> nat" where
  "lane_of ps laneCount epoch i = component_lane laneCount (component ps epoch i)"

lemma component_lane_less: "0 < laneCount \<Longrightarrow> component_lane laneCount keys < laneCount"
  by (simp add: component_lane_def Let_def)

lemma same_component:
  assumes "same ps i j"
  shows "component ps epoch i = component ps epoch j"
proof -
  have "same ps k i \<longleftrightarrow> same ps k j" for k
    using assms same_trans same_sym by blast
  then show ?thesis by (simp add: component_def)
qed

text \<open>\<open>root_keys ps ck pre\<close>: \<open>ck\<close> holds, per root, the keys of the transactions \<open>pre\<close>.\<close>

lemma collect_correct:
  "forest ps \<Longrightarrow> i + length ts \<le> length ps \<Longrightarrow>
     \<exists>ps' ck'. collect_component_keys i ts (ps, ck) = Inr (ps', ck') \<and> refines_to ps ps' \<and>
       (\<forall>r. ck' r = ck r @ concat (map rpt_keys (map snd (filter (\<lambda>(j, t). rep ps j r) (enumerate i ts)))))"
proof (induction ts arbitrary: i ps ck)
  case Nil
  then show ?case by (simp add: refines_to_refl)
next
  case (Cons t ts)
  have i: "i < length ps" using Cons.prems(2) by simp
  obtain ps1 r where f: "uf_find (length ps) ps i = Inr (ps1, r)" "refines_to ps ps1" "rep ps i r"
    using find_correct [OF Cons.prems(1) i] .
  have o1: "forest ps1" "length ps1 = length ps" using f(2) by (auto simp: refines_to_def)
  let ?ck = "ck(r := ck r @ rpt_keys t)"
  have "Suc i + length ts \<le> length ps1" using o1(2) Cons.prems(2) by simp
  from Cons.IH [OF o1(1) this, of ?ck]
  obtain ps' ck' where c: "collect_component_keys (Suc i) ts (ps1, ?ck) = Inr (ps', ck')"
      "refines_to ps1 ps'"
      "\<forall>q. ck' q = ?ck q @ concat (map rpt_keys (map snd (filter (\<lambda>(j, t). rep ps1 j q) (enumerate (Suc i) ts))))"
    by (elim exE conjE) (rule that)
  have bound: "j < length ps" if "(j, u) \<in> set (enumerate (Suc i) ts)" for j u
    using that Cons.prems(2) by (auto simp: in_set_enumerate_eq)
  have same_filter: "filter (\<lambda>(j, t). rep ps1 j q) (enumerate (Suc i) ts) =
      filter (\<lambda>(j, t). rep ps j q) (enumerate (Suc i) ts)" for q
    by (rule filter_cong) (use bound f(2) in \<open>auto simp: refines_to_def\<close>)
  have rq: "rep ps i q \<longleftrightarrow> q = r" for q using f(3) rep_det by blast
  show ?case
  proof (intro exI conjI allI)
    show "collect_component_keys i (t # ts) (ps, ck) = Inr (ps', ck')"
      using f(1) c(1) by simp
    show "refines_to ps ps'" using f(2) c(2) refines_to_trans by blast
    show "ck' q = ck q @ concat (map rpt_keys (map snd (filter (\<lambda>(j, t). rep ps j q) (enumerate i (t # ts)))))" for q
      unfolding c(3) [rule_format] same_filter by (simp add: rq)
  qed
qed

lemma enumerate_map: "enumerate 0 xs = map (\<lambda>j. (j, xs ! j)) [0..<length xs]"
  by (rule nth_equalityI) (simp_all add: nth_enumerate_eq)

lemma root_component:
  assumes "rep ps i r"
  shows "concat (map rpt_keys (map snd (filter (\<lambda>(j, t). rep ps j r) (enumerate 0 epoch)))) =
     component ps epoch i"
proof -
  have "enumerate 0 epoch = map (\<lambda>j. (j, epoch ! j)) [0..<length epoch]"
    by (rule enumerate_map)
  moreover have "rep ps j r \<longleftrightarrow> same ps j i" for j
    using assms rep_det unfolding same_def by blast
  ultimately show ?thesis
    by (simp add: component_def filter_map comp_def)
qed

definition lane_append :: "replayPlanTransaction list \<Rightarrow> replayPlanLane \<Rightarrow> replayPlanLane" where
  "lane_append ts l = l\<lparr>ln_TransactionIndexes := ln_TransactionIndexes l @ map rpt_index ts,
     ln_Items := ln_Items l @ concat (map rpt_items ts)\<rparr>"

lemma lane_append_Nil [simp]: "lane_append [] l = l"
  by (simp add: lane_append_def)

lemma lane_append_Cons: "lane_append ts (lane_append [t] l) = lane_append (t # ts) l"
  by (simp add: lane_append_def)

lemma assign_correct:
  assumes "0 < n"
  shows "forest ps \<Longrightarrow> i + length ts \<le> length ps \<Longrightarrow> length lanes = n \<Longrightarrow>
     (\<And>j r. i \<le> j \<Longrightarrow> j < i + length ts \<Longrightarrow> rep ps j r \<Longrightarrow> component_lane n (ck r) = lane j) \<Longrightarrow>
     assign_lanes n ck i ts (ps, lanes) =
       Inr (map (\<lambda>k. lane_append (map snd (filter (\<lambda>(j, t). lane j = k) (enumerate i ts))) (lanes ! k)) [0..<n])"
proof (induction ts arbitrary: i ps lanes)
  case Nil
  then show ?case using map_nth [of lanes] by simp
next
  case (Cons t ts)
  have i: "i < length ps" using Cons.prems(2) by simp
  obtain ps1 r where f: "uf_find (length ps) ps i = Inr (ps1, r)" "refines_to ps ps1" "rep ps i r"
    using find_correct [OF Cons.prems(1) i] .
  have l: "component_lane n (ck r) = lane i" using Cons.prems(4) [of i r] f(3) by simp
  have ln: "lane i < n" using component_lane_less [OF assms, of "ck r"] l by simp
  let ?lanes = "lanes[lane i := lane_append [t] (lanes ! lane i)]"
  have step: "assign_lanes n ck i (t # ts) (ps, lanes) = assign_lanes n ck (Suc i) ts (ps1, ?lanes)"
    using f(1) l by (simp add: lane_append_def Let_def)
  have "component_lane n (ck q) = lane j" if "Suc i \<le> j" "j < Suc i + length ts" "rep ps1 j q" for j q
    using Cons.prems(2,4) that f(2) by (auto simp: refines_to_def)
  then have "assign_lanes n ck i (t # ts) (ps, lanes) =
      Inr (map (\<lambda>k. lane_append (map snd (filter (\<lambda>(j, t). lane j = k) (enumerate (Suc i) ts))) (?lanes ! k)) [0..<n])"
    unfolding step using Cons.prems f(2) by (intro Cons.IH) (auto simp: refines_to_def)
  also have "\<dots> = Inr (map (\<lambda>k. lane_append (map snd (filter (\<lambda>(j, t). lane j = k) (enumerate i (t # ts)))) (lanes ! k)) [0..<n])"
    using Cons.prems(3) ln by (auto simp: nth_list_update lane_append_Cons)
  finally show ?case .
qed

text \<open>
  \<open>lanes_spec\<close>: lane \<open>k\<close> holds the transactions of the components it got, in epoch
  order, with all their items.
\<close>

definition lanes_spec ::
  "replayPlanTransaction list \<Rightarrow> nat \<Rightarrow> (nat \<Rightarrow> nat) \<Rightarrow> replayPlanLane list \<Rightarrow> bool" where
  "lanes_spec epoch n lane lanes \<longleftrightarrow> length lanes = n \<and> (\<forall>i<length epoch. lane i < n) \<and>
     (\<forall>i<length epoch. \<forall>j<length epoch. (i, j) \<in> (epoch_linked epoch)\<^sup>* \<longrightarrow> lane i = lane j) \<and>
     (\<forall>k<n. lanes ! k = lane_append (map ((!) epoch) (filter (\<lambda>i. lane i = k) [0..<length epoch])) (empty_lane k))"

lemma lanes_specD:
  assumes "lanes_spec epoch n lane lanes"
  shows "length lanes = n" "\<And>i. i < length epoch \<Longrightarrow> lane i < n"
    "\<And>i j. i < length epoch \<Longrightarrow> j < length epoch \<Longrightarrow> (i, j) \<in> (epoch_linked epoch)\<^sup>* \<Longrightarrow> lane i = lane j"
    "\<And>k. k < n \<Longrightarrow> lanes ! k =
       lane_append (map ((!) epoch) (filter (\<lambda>i. lane i = k) [0..<length epoch])) (empty_lane k)"
  using assms unfolding lanes_spec_def by blast+

lemma component_lanes_correct:
  assumes "epoch \<noteq> []" "1 \<le> laneCount" "\<forall>t\<in>set epoch. rpt_keys t \<noteq> []"
  obtains lanes lane where "replayTransactionComponentLanes epoch laneCount = Inr lanes"
    "lanes_spec epoch (nat laneCount) lane lanes"
proof -
  let ?n = "length epoch" and ?m = "nat laneCount"
  have m: "0 < ?m" using assms(2) by simp
  obtain first ps ranks where u: "unite_epoch 0 epoch (\<lambda>_. None, [0..<?n], replicate ?n 0) = Inr (first, ps, ranks)"
      "forest_inv ?n (epoch_pairs 0 epoch) (first, ps, ranks)"
    using unite_epoch_inv [OF forest_inv_init [of ?n "replicate ?n 0"], of 0 epoch] assms(3) by auto
  note inv = forest_invD [OF u(2)]
  obtain ps1 ck where c: "collect_component_keys 0 epoch (ps, \<lambda>_. []) = Inr (ps1, ck)" "refines_to ps ps1"
      "\<And>r. ck r = concat (map rpt_keys (map snd (filter (\<lambda>(j, t). rep ps j r) (enumerate 0 epoch))))"
    using collect_correct [OF inv(1), of 0 epoch "\<lambda>_. []"] inv(2) by auto
  let ?lane = "lane_of ps ?m epoch"
  let ?lanes = "map (\<lambda>k. lane_append (map snd (filter (\<lambda>(j, t). ?lane j = k) (enumerate 0 epoch)))
      (map empty_lane [0..<?m] ! k)) [0..<?m]"
  have lane: "component_lane ?m (ck r) = ?lane j" if "j < ?n" "rep ps1 j r" for j r
  proof -
    have "rep ps j r" using that c(2) inv(2) by (simp add: refines_to_def)
    then show ?thesis using root_component c(3) by (simp add: lane_of_def)
  qed
  have "assign_lanes ?m ck 0 epoch (ps1, map empty_lane [0..<?m]) = Inr ?lanes"
    using c(2) inv(2) lane by (intro assign_correct [OF m]) (auto simp: refines_to_def)
  then have "replayTransactionComponentLanes epoch laneCount = Inr ?lanes"
    using assms(1,2) u(1) c(1) by (simp add: replayTransactionComponentLanes_def)
  moreover have "lanes_spec epoch ?m ?lane ?lanes"
    unfolding lanes_spec_def
  proof (intro conjI allI impI)
    show "length ?lanes = ?m" by simp
    show "?lane i < ?m" for i using component_lane_less [OF m] by (simp add: lane_of_def)
    fix i j assume "i < ?n" "j < ?n" "(i, j) \<in> (epoch_linked epoch)\<^sup>*"
    then have "same ps i j" using forest_inv_components [OF u(2)] by (simp add: linked_epoch_pairs)
    then show "?lane i = ?lane j" using same_component by (simp add: lane_of_def)
  next
    fix k assume k: "k < ?m"
    have "enumerate 0 epoch = map (\<lambda>j. (j, epoch ! j)) [0..<?n]"
      by (rule enumerate_map)
    then have "map snd (filter (\<lambda>(j, t). ?lane j = k) (enumerate 0 epoch)) =
        map ((!) epoch) (filter (\<lambda>i. ?lane i = k) [0..<?n])"
      by (simp add: filter_map comp_def)
    then show "?lanes ! k = lane_append (map ((!) epoch) (filter (\<lambda>i. ?lane i = k) [0..<?n])) (empty_lane k)"
      using k by simp
  qed
  ultimately show ?thesis using that by blast
qed

end
