(* ===== verification/ReplayBuild.thy ===== *)
theory ReplayBuild
  imports ReplayLanes
begin

text \<open>
  \<^verbatim>\<open>buildReplayPlanForGenerationVersion\<close> and the work digests
  (\<^verbatim>\<open>internal/cdc/replay_plan.go\<close>). The variables of the Go function that its
  closures share (the plan, the current epoch, the last definitions, the fingerprints, the catalog
  hasher) are the fields of \<open>planState\<close>.
\<close>

section \<open>Works\<close>

type_synonym fingerprints = "targetRelation option \<Rightarrow> digest option"
type_synonym resolved = "u32 \<Rightarrow> targetRelation option"

fun hash_lane_relations :: "resolved \<Rightarrow> fingerprints \<Rightarrow> Relation list \<Rightarrow> bytes \<Rightarrow> bytes res" where
  "hash_lane_relations resolved fps [] h = Inr h"
| "hash_lane_relations resolved fps (source # rels) h =
     (let target = resolved (rel_OID source) in
      case (target, fps target) of
        (Some _, Some fp) \<Rightarrow> hash_lane_relations resolved fps rels (writeReplayHashBytes h fp)
      | _ \<Rightarrow> Inl (Err ''cdc: parallel replay relation fingerprint is missing''))"

definition hash_transaction :: "bytes \<Rightarrow> Transaction \<Rightarrow> bytes res" where
  "hash_transaction h tx = rbind (transactionPayloadSize tx) (\<lambda>size.
     rbind (WriteTransaction (writeReplayHashInt h (int size)) tx) (\<lambda>(h, n). Inr h))"

fun hash_lane_transactions ::
  "Transaction list \<Rightarrow> resolved list \<Rightarrow> fingerprints \<Rightarrow> int \<Rightarrow> nat list \<Rightarrow> bytes \<times> int \<Rightarrow> (bytes \<times> int) res" where
  "hash_lane_transactions txs rels fps previous [] (h, changes) = Inr (h, changes)"
| "hash_lane_transactions txs rels fps previous (i # is) (h, changes) =
     (if int i \<le> previous \<or> i \<ge> length txs \<or> i \<ge> length rels
      then Inl (Err ''cdc: parallel replay work has invalid transaction order'')
      else let tx = txs ! i;
               h = writeReplayHashInt (writeReplayHashInt h (int i)) (sint (tx_EndLSN tx)) in
        rbind (hash_lane_relations (rels ! i) fps (tx_Relations tx) h) (\<lambda>h.
        rbind (hash_transaction h tx) (\<lambda>h.
        hash_lane_transactions txs rels fps (int i) is (h, changes + uint (ChangeCount tx)))))"

definition parallelReplayWork ::
  "nat \<Rightarrow> nat \<Rightarrow> nat list \<Rightarrow> Transaction list \<Rightarrow> resolved list \<Rightarrow> fingerprints \<Rightarrow> replayClaimWork res" where
  "parallelReplayWork step lane indexes txs rels fps =
     (let h = newReplayClaimHasher ''pgmigrate-replay-parallel-work-v1'';
          h = writeReplayHashInt (writeReplayHashInt h (int step)) (int lane) in
      rbind (hash_lane_transactions txs rels fps (-1) indexes (h, 0)) (\<lambda>(h, changes).
      Inr \<lparr>wk_Step = int step, wk_Work = int lane, wk_Kind = replayWorkParallelLane,
        wk_Lane = int lane, wk_Digest = finishReplayHash h,
        wk_ExpectedTransactions = int (length indexes), wk_ExpectedChanges = changes,
        wk_CommittedAt = None\<rparr>))"

definition serialReplayWork :: "nat \<Rightarrow> nat \<Rightarrow> Transaction \<Rightarrow> replayClaimWork res" where
  "serialReplayWork step i tx =
     (let h = newReplayClaimHasher ''pgmigrate-replay-serial-work-v1'';
          h = writeReplayHashInt (writeReplayHashInt h (int step)) (int i) in
      rbind (hash_transaction h tx) (\<lambda>h.
      Inr \<lparr>wk_Step = int step, wk_Work = 0, wk_Kind = replayWorkSerial, wk_Lane = -1,
        wk_Digest = finishReplayHash h, wk_ExpectedTransactions = 1,
        wk_ExpectedChanges = uint (ChangeCount tx), wk_CommittedAt = None\<rparr>))"

section \<open>Plan digest\<close>

fun hash_plan_transactions :: "Transaction list \<Rightarrow> bytes \<Rightarrow> bytes res" where
  "hash_plan_transactions [] h = Inr h"
| "hash_plan_transactions (tx # txs) h =
     rbind (rwrap ''cdc: hash replay transaction size'' (transactionPayloadSize tx)) (\<lambda>size.
     rbind (rwrap ''cdc: hash replay transaction''
        (WriteTransaction (writeReplayHashInt h (int size)) tx)) (\<lambda>(h, n).
     hash_plan_transactions txs h))"

definition hash_plan_work :: "bytes \<Rightarrow> replayClaimWork \<Rightarrow> bytes" where
  "hash_plan_work h w =
     (let h = writeReplayHashInt h (wk_Step w);
          h = writeReplayHashInt h (wk_Work w);
          h = writeReplayHashBytes h (bytes_of_string (wk_Kind w));
          h = writeReplayHashInt h (wk_Lane w);
          h = writeReplayHashBytes h (wk_Digest w);
          h = writeReplayHashInt h (wk_ExpectedTransactions w)
      in writeReplayHashInt h (wk_ExpectedChanges w))"

definition replayPlanDigest :: "replayClaim \<Rightarrow> Transaction list \<Rightarrow> replayClaimWork list \<Rightarrow> digest res" where
  "replayPlanDigest claim txs works =
     (let h = newReplayClaimHasher ''pgmigrate-replay-claim-v1'';
          h = writeReplayHashBytes h (bytes_of_string (cl_StreamID claim));
          h = writeReplayHashBytes h (bytes_of_string (cl_Generation claim));
          h = writeReplayHashBytes h (bytes_of_string (cl_StartGeneration claim));
          h = writeReplayHashInt h (sint (cl_StartLSN claim));
          h = writeReplayHashInt h (sint (cl_EndLSN claim));
          h = writeReplayHashInt h (cl_PlanVersion claim);
          h = writeReplayHashInt h (cl_LaneCount claim);
          h = writeReplayHashInt h (cl_Transactions claim);
          h = writeReplayHashInt h (cl_Changes claim);
          h = writeReplayHashBytes h (cl_CatalogDigest claim)
      in rbind (hash_plan_transactions txs h) (\<lambda>h.
         Inr (finishReplayHash (foldl hash_plan_work h works))))"

section \<open>The planner\<close>

record planState =
  pn_Works :: "replayClaimWork list"
  pn_Steps :: "replayPlanStep list"
  pn_HasParallel :: bool
  pn_epoch :: "replayPlanTransaction list"
  pn_lastDefinitions :: "u32 \<Rightarrow> digest option"
  pn_fingerprints :: fingerprints
  pn_catalog :: bytes

definition plan_start :: planState where
  "plan_start = \<lparr>pn_Works = [], pn_Steps = [], pn_HasParallel = False, pn_epoch = [],
     pn_lastDefinitions = (\<lambda>_. None), pn_fingerprints = (\<lambda>_. None),
     pn_catalog = newReplayClaimHasher ''pgmigrate-replay-catalog-v1''\<rparr>"

definition fingerprintFor :: "int \<Rightarrow> targetRelation option \<Rightarrow> fingerprints \<Rightarrow> digest \<times> fingerprints" where
  "fingerprintFor planVersion relation fps = (case fps relation of
     Some fp \<Rightarrow> (fp, fps)
   | None \<Rightarrow> let fp = targetRelationReplayFingerprintVersion relation planVersion
             in (fp, fps(relation \<mapsto> fp)))"

text \<open>The loop over the lanes in \<^verbatim>\<open>flushParallel\<close>; a lane without transactions is skipped.\<close>

fun flush_lanes ::
  "nat \<Rightarrow> Transaction list \<Rightarrow> resolved list \<Rightarrow> fingerprints \<Rightarrow> nat \<Rightarrow> replayPlanLane list \<Rightarrow> replayPlanLane list res" where
  "flush_lanes step txs rels fps lane [] = Inr []"
| "flush_lanes step txs rels fps lane (l # ls) =
     (if ln_TransactionIndexes l = [] then flush_lanes step txs rels fps (Suc lane) ls
      else rbind (parallelReplayWork step lane (ln_TransactionIndexes l) txs rels fps) (\<lambda>work.
        rbind (flush_lanes step txs rels fps (Suc lane) ls) (\<lambda>ls.
        Inr (l\<lparr>ln_Work := work\<rparr> # ls))))"

definition flushParallel :: "int \<Rightarrow> Transaction list \<Rightarrow> resolved list \<Rightarrow> planState \<Rightarrow> planState res" where
  "flushParallel laneCount txs rels st =
     (if pn_epoch st = [] then Inr st
      else rbind (replayTransactionComponentLanes (pn_epoch st) laneCount) (\<lambda>lanes.
        let index = length (pn_Steps st) in
        rbind (flush_lanes index txs rels (pn_fingerprints st) 0 lanes) (\<lambda>lanes.
        Inr (st\<lparr>pn_Works := pn_Works st @ map ln_Work lanes,
          pn_HasParallel := pn_HasParallel st \<or> length lanes > 1,
          pn_Steps := pn_Steps st @ [\<lparr>st_Index = index, st_Lanes = lanes, st_SerialTransaction = -1\<rparr>],
          pn_epoch := []\<rparr>))))"

fun scan_definitions ::
  "int \<Rightarrow> resolved \<Rightarrow> nat \<Rightarrow> nat \<Rightarrow> Relation list \<Rightarrow> bool \<times> planState \<Rightarrow> (bool \<times> planState) res" where
  "scan_definitions ver resolved i k [] (changed, st) = Inr (changed, st)"
| "scan_definitions ver resolved i k (source # rels) (changed, st) = (case resolved (rel_OID source) of
     None \<Rightarrow> Inl (divergenceFor None 0 ''required relation metadata is missing'')
   | Some target \<Rightarrow>
       let (fp, fps) = fingerprintFor ver (Some target) (pn_fingerprints st);
           h = writeReplayHashInt (writeReplayHashInt (pn_catalog st) (int i)) (int k);
           changed' = (case pn_lastDefinitions st (rel_OID source) of None \<Rightarrow> False | Some previous \<Rightarrow> previous \<noteq> fp)
       in scan_definitions ver resolved i (Suc k) rels
            (changed \<or> changed', st\<lparr>pn_fingerprints := fps, pn_catalog := writeReplayHashBytes h fp\<rparr>))"

text \<open>The loop over the changes; \<open>None\<close> is the break at the first unsafe change.\<close>

fun plan_changes ::
  "int \<Rightarrow> resolved \<Rightarrow> nat \<Rightarrow> nat \<Rightarrow> Change list \<Rightarrow> fingerprints \<Rightarrow> replayPlanTransaction \<Rightarrow>
     (fingerprints \<times> replayPlanTransaction option) res" where
  "plan_changes ver resolved i k [] fps planned = Inr (fps, Some planned)"
| "plan_changes ver resolved i k (change # changes) fps planned =
     (let target = resolved (ch_RelationOID change); (fp, fps) = fingerprintFor ver target fps in
      rbind (replayChangeKeyForVersion ver target fp change) (\<lambda>key. case key of
        None \<Rightarrow> Inr (fps, None)
      | Some key \<Rightarrow> plan_changes ver resolved i (Suc k) changes fps
          (planned\<lparr>rpt_keys := rpt_keys planned @ [key],
             rpt_items := rpt_items planned @ [\<lparr>rbc_transactionIndex = i, rbc_changeIndex = k,
               rbc_change = change, rbc_relation = target\<rparr>]\<rparr>)))"

definition empty_transaction_key :: "Transaction \<Rightarrow> digest" where
  "empty_transaction_key tx = finishReplayHash (writeReplayHashInt
     (newReplayClaimHasher ''pgmigrate-replay-empty-transaction-v1'') (sint (tx_EndLSN tx)))"

definition add_parallel :: "Transaction \<Rightarrow> replayPlanTransaction \<Rightarrow> planState \<Rightarrow> planState" where
  "add_parallel tx planned st =
     (let planned = (if rpt_keys planned = [] then planned\<lparr>rpt_keys := [empty_transaction_key tx]\<rparr> else planned)
      in st\<lparr>pn_epoch := pn_epoch st @ [planned]\<rparr>)"

definition add_serial ::
  "int \<Rightarrow> Transaction list \<Rightarrow> resolved list \<Rightarrow> nat \<Rightarrow> planState \<Rightarrow> planState res" where
  "add_serial laneCount txs rels i st = rbind (flushParallel laneCount txs rels st) (\<lambda>st.
     rbind (serialReplayWork (length (pn_Steps st)) i (txs ! i)) (\<lambda>work.
     Inr (st\<lparr>pn_Steps := pn_Steps st @ [\<lparr>st_Index = length (pn_Steps st), st_Lanes = [],
              st_SerialTransaction = int i\<rparr>],
            pn_Works := pn_Works st @ [work]\<rparr>)))"

fun note_definitions :: "int \<Rightarrow> resolved \<Rightarrow> Relation list \<Rightarrow> planState \<Rightarrow> planState" where
  "note_definitions ver resolved [] st = st"
| "note_definitions ver resolved (source # rels) st =
     (let (fp, fps) = fingerprintFor ver (resolved (rel_OID source)) (pn_fingerprints st) in
      note_definitions ver resolved rels
        (st\<lparr>pn_fingerprints := fps, pn_lastDefinitions := (pn_lastDefinitions st)(rel_OID source \<mapsto> fp)\<rparr>))"

definition plan_transaction ::
  "int \<Rightarrow> int \<Rightarrow> Transaction list \<Rightarrow> resolved list \<Rightarrow> nat \<Rightarrow> planState \<Rightarrow> planState res" where
  "plan_transaction ver laneCount txs rels i st =
     (let tx = txs ! i; resolved = rels ! i in
      rbind (scan_definitions ver resolved i 0 (tx_Relations tx) (False, st)) (\<lambda>(definitionChanged, st).
      rbind (if tx_Spill tx = None \<and> \<not> definitionChanged
             then plan_changes ver resolved i 0 (tx_Changes tx) (pn_fingerprints st)
                    \<lparr>rpt_index = i, rpt_keys = [], rpt_items = []\<rparr>
             else Inr (pn_fingerprints st, None)) (\<lambda>(fps, planned).
      let st = st\<lparr>pn_fingerprints := fps\<rparr> in
      rbind (case planned of
          Some p \<Rightarrow> Inr (add_parallel tx p st)
        | None \<Rightarrow> add_serial laneCount txs rels i st) (\<lambda>st.
      Inr (note_definitions ver resolved (tx_Relations tx) st)))))"

fun plan_transactions ::
  "int \<Rightarrow> int \<Rightarrow> Transaction list \<Rightarrow> resolved list \<Rightarrow> nat list \<Rightarrow> planState \<Rightarrow> planState res" where
  "plan_transactions ver laneCount txs rels [] st = flushParallel laneCount txs rels st"
| "plan_transactions ver laneCount txs rels (i # is) st =
     rbind (plan_transaction ver laneCount txs rels i st) (plan_transactions ver laneCount txs rels is)"

definition buildReplayPlanForGenerationVersion ::
  "string \<Rightarrow> string \<Rightarrow> string \<Rightarrow> LSN \<Rightarrow> int \<Rightarrow> Transaction list \<Rightarrow> resolved list \<Rightarrow> int \<Rightarrow> replayPlan res" where
  "buildReplayPlanForGenerationVersion streamID generation startGeneration startLSN laneCount txs rels ver =
     (if ver < replayClaimMinimumPlanVersion \<or> ver > replayClaimPlanVersion
      then Inl (Err ''cdc: unsupported replay claim plan version'')
      else if streamID = [] \<or> generation = [] \<or> startGeneration = [] \<or> laneCount < 1 \<or> txs = [] \<or>
              length rels \<noteq> length txs
      then Inl (Err ''cdc: invalid replay plan input'')
      else rbind (plan_transactions ver laneCount txs rels [0..<length txs] plan_start) (\<lambda>st.
        let works = pn_Works st; transactions = int (length txs);
            changes = sum_list (map (\<lambda>tx. uint (ChangeCount tx)) txs) in
        if changes \<noteq> replayPlanWorkChanges works
        then Inl (Err ''cdc: replay plan covers another number of changes'')
        else if transactions \<noteq> replayPlanWorkTransactions works
        then Inl (Err ''cdc: replay plan covers another number of transactions'')
        else let claim = \<lparr>cl_ID = [], cl_StreamID = streamID, cl_Generation = generation,
                cl_StartGeneration = startGeneration, cl_FenceGeneration = [], cl_StartLSN = startLSN,
                cl_EndLSN = tx_EndLSN (last txs), cl_Digest = zero_digest,
                cl_CatalogDigest = finishReplayHash (pn_catalog st), cl_PlanVersion = ver,
                cl_LaneCount = laneCount, cl_Transactions = transactions, cl_Changes = changes,
                cl_ExpectedWork = int (length works), cl_CreatedAt = zero_time, cl_WorkManifest = []\<rparr> in
        rbind (replayPlanDigest claim txs works) (\<lambda>digest.
        let ID = replayClaimID digest in
        Inr \<lparr>pl_Claim = claim\<lparr>cl_Digest := digest, cl_ID := ID,
               cl_FenceGeneration := replayFenceGeneration generation ID\<rparr>,
             pl_Works = works, pl_Steps = pn_Steps st, pl_HasParallel = pn_HasParallel st\<rparr>)))"

definition buildReplayPlanForGeneration ::
  "string \<Rightarrow> string \<Rightarrow> string \<Rightarrow> LSN \<Rightarrow> int \<Rightarrow> Transaction list \<Rightarrow> resolved list \<Rightarrow> replayPlan res" where
  "buildReplayPlanForGeneration streamID generation startGeneration startLSN laneCount txs rels =
     buildReplayPlanForGenerationVersion streamID generation startGeneration startLSN laneCount txs rels
       replayClaimPlanVersion"

definition buildReplayPlan ::
  "string \<Rightarrow> string \<Rightarrow> LSN \<Rightarrow> int \<Rightarrow> Transaction list \<Rightarrow> resolved list \<Rightarrow> replayPlan res" where
  "buildReplayPlan streamID generation startLSN laneCount txs rels =
     buildReplayPlanForGeneration streamID generation generation startLSN laneCount txs rels"

definition replayPlanWork :: "replayPlan \<Rightarrow> int \<Rightarrow> int \<Rightarrow> replayClaimWork option" where
  "replayPlanWork plan step work =
     List.find (\<lambda>w. wk_Step w = step \<and> wk_Work w = work) (pl_Works plan)"

end
