(* ===== verification/ReplayPlanCorrect.thy ===== *)
theory ReplayPlanCorrect
  imports ReplayBuild "HOL-Library.Multiset"
begin

text \<open>
  Correctness of the planner. \<open>covers\<close> is the specification of a plan: every step covers the
  next consecutive block of transactions, a serial step one transaction, a parallel step a block
  whose lanes partition it, keep source order and never separate two transactions that share a
  dependency key. \<open>plan_inv\<close> is the invariant of the loop over the transactions.
\<close>

section \<open>Specification\<close>

abbreviation Fp :: "int \<Rightarrow> targetRelation option \<Rightarrow> digest" where
  "Fp ver r \<equiv> targetRelationReplayFingerprintVersion r ver"

definition change_key :: "int \<Rightarrow> resolved list \<Rightarrow> nat \<Rightarrow> Change \<Rightarrow> digest option res" where
  "change_key ver rels i c = (let target = (rels ! i) (ch_RelationOID c) in
     replayChangeKeyForVersion ver target (Fp ver target) c)"

definition parallel_tx :: "int \<Rightarrow> Transaction list \<Rightarrow> resolved list \<Rightarrow> nat \<Rightarrow> bool" where
  "parallel_tx ver txs rels i \<longleftrightarrow> tx_Spill (txs ! i) = None \<and>
     (\<forall>c\<in>set (tx_Changes (txs ! i)). \<exists>k. change_key ver rels i c = Inr (Some k))"

definition tx_keys :: "int \<Rightarrow> Transaction list \<Rightarrow> resolved list \<Rightarrow> nat \<Rightarrow> digest set" where
  "tx_keys ver txs rels i = {k. \<exists>c\<in>set (tx_Changes (txs ! i)). change_key ver rels i c = Inr (Some k)}"

definition items_from :: "resolved list \<Rightarrow> nat \<Rightarrow> nat \<Rightarrow> Change list \<Rightarrow> relationBatchedChange list" where
  "items_from rels i k cs = map (\<lambda>(k, c). \<lparr>rbc_transactionIndex = i, rbc_changeIndex = k,
     rbc_change = c, rbc_relation = (rels ! i) (ch_RelationOID c)\<rparr>) (enumerate k cs)"

definition tx_items :: "Transaction list \<Rightarrow> resolved list \<Rightarrow> nat \<Rightarrow> relationBatchedChange list" where
  "tx_items txs rels i = items_from rels i 0 (tx_Changes (txs ! i))"

definition same_definitions :: "int \<Rightarrow> Transaction list \<Rightarrow> resolved list \<Rightarrow> nat \<Rightarrow> nat \<Rightarrow> bool" where
  "same_definitions ver txs rels i j \<longleftrightarrow>
     (\<forall>r\<in>set (tx_Relations (txs ! i)). \<forall>r'\<in>set (tx_Relations (txs ! j)). rel_OID r = rel_OID r' \<longrightarrow>
        Fp ver ((rels ! i) (rel_OID r)) = Fp ver ((rels ! j) (rel_OID r)))"

definition tx_changes :: "Transaction list \<Rightarrow> nat list \<Rightarrow> int" where
  "tx_changes txs is = sum_list (map (\<lambda>i. uint (ChangeCount (txs ! i))) is)"

definition lane_work_ok :: "nat \<Rightarrow> Transaction list \<Rightarrow> replayPlanLane \<Rightarrow> bool" where
  "lane_work_ok step txs l \<longleftrightarrow>
     (let w = ln_Work l in wk_Step w = int step \<and> wk_Work w = int (ln_Lane l) \<and>
      wk_Kind w = replayWorkParallelLane \<and> wk_Lane w = int (ln_Lane l) \<and>
      wk_ExpectedTransactions w = int (length (ln_TransactionIndexes l)) \<and>
      wk_ExpectedChanges w = tx_changes txs (ln_TransactionIndexes l))"

definition parallel_block ::
  "int \<Rightarrow> Transaction list \<Rightarrow> resolved list \<Rightarrow> nat \<Rightarrow> nat \<Rightarrow> replayPlanLane list \<Rightarrow> bool" where
  "parallel_block ver txs rels a c lanes \<longleftrightarrow> (\<exists>lane.
     (\<forall>l\<in>set lanes. ln_TransactionIndexes l = filter (\<lambda>i. lane i = ln_Lane l) [a..<c] \<and>
        ln_TransactionIndexes l \<noteq> [] \<and>
        ln_Items l = concat (map (tx_items txs rels) (ln_TransactionIndexes l))) \<and>
     (\<forall>i\<in>{a..<c}. lane i \<in> ln_Lane ` set lanes) \<and>
     sorted_wrt (<) (map ln_Lane lanes) \<and>
     (\<forall>i\<in>{a..<c}. \<forall>j\<in>{a..<c}. tx_keys ver txs rels i \<inter> tx_keys ver txs rels j \<noteq> {} \<longrightarrow> lane i = lane j)) \<and>
     (\<forall>i\<in>{a..<c}. parallel_tx ver txs rels i) \<and>
     (\<forall>i\<in>{a..<c}. \<forall>j\<in>{a..<c}. same_definitions ver txs rels i j)"

definition serial_work_ok :: "nat \<Rightarrow> Transaction \<Rightarrow> replayClaimWork \<Rightarrow> bool" where
  "serial_work_ok step tx w \<longleftrightarrow> wk_Step w = int step \<and> wk_Work w = 0 \<and> wk_Kind w = replayWorkSerial \<and>
     wk_Lane w = -1 \<and> wk_ExpectedTransactions w = 1 \<and> wk_ExpectedChanges w = uint (ChangeCount tx)"

inductive covers ::
  "int \<Rightarrow> Transaction list \<Rightarrow> resolved list \<Rightarrow> replayPlanStep list \<Rightarrow> replayClaimWork list \<Rightarrow> nat \<Rightarrow> bool"
  for ver txs rels where
  none: "covers ver txs rels [] [] 0"
| serial: "covers ver txs rels steps works a \<Longrightarrow> st_Index s = length steps \<Longrightarrow>
     st_SerialTransaction s = int a \<Longrightarrow> st_Lanes s = [] \<Longrightarrow>
     serial_work_ok (length steps) (txs ! a) w \<Longrightarrow>
     covers ver txs rels (steps @ [s]) (works @ [w]) (Suc a)"
| parallel: "covers ver txs rels steps works a \<Longrightarrow> st_Index s = length steps \<Longrightarrow>
     st_SerialTransaction s = -1 \<Longrightarrow> a < c \<Longrightarrow> parallel_block ver txs rels a c (st_Lanes s) \<Longrightarrow>
     \<forall>l\<in>set (st_Lanes s). lane_work_ok (length steps) txs l \<Longrightarrow>
     covers ver txs rels (steps @ [s]) (works @ map ln_Work (st_Lanes s)) c"

definition fps_ok :: "int \<Rightarrow> fingerprints \<Rightarrow> bool" where
  "fps_ok ver fps \<longleftrightarrow> (\<forall>r fp. fps r = Some fp \<longrightarrow> fp = Fp ver r)"

definition planned_ok :: "int \<Rightarrow> Transaction list \<Rightarrow> resolved list \<Rightarrow> replayPlanTransaction \<Rightarrow> bool" where
  "planned_ok ver txs rels t \<longleftrightarrow> rpt_keys t \<noteq> [] \<and> parallel_tx ver txs rels (rpt_index t) \<and>
     tx_keys ver txs rels (rpt_index t) \<subseteq> set (rpt_keys t) \<and>
     rpt_items t = tx_items txs rels (rpt_index t)"

definition defs_noted :: "int \<Rightarrow> Transaction list \<Rightarrow> resolved list \<Rightarrow> (u32 \<Rightarrow> digest option) \<Rightarrow> nat \<Rightarrow> bool" where
  "defs_noted ver txs rels defs i \<longleftrightarrow> (\<forall>r\<in>set (tx_Relations (txs ! i)).
     defs (rel_OID r) = Some (Fp ver ((rels ! i) (rel_OID r))))"

definition plan_inv :: "int \<Rightarrow> Transaction list \<Rightarrow> resolved list \<Rightarrow> nat \<Rightarrow> planState \<Rightarrow> bool" where
  "plan_inv ver txs rels i st \<longleftrightarrow> fps_ok ver (pn_fingerprints st) \<and>
     (\<exists>m\<le>i. covers ver txs rels (pn_Steps st) (pn_Works st) m \<and> map rpt_index (pn_epoch st) = [m..<i]) \<and>
     (\<forall>t\<in>set (pn_epoch st). planned_ok ver txs rels t \<and>
        defs_noted ver txs rels (pn_lastDefinitions st) (rpt_index t)) \<and>
     (pn_HasParallel st \<longleftrightarrow> (\<exists>s\<in>set (pn_Steps st). length (st_Lanes s) > 1))"

section \<open>The loops\<close>

lemma fingerprintFor_ok:
  assumes "fps_ok ver fps" "fingerprintFor ver r fps = (fp, fps')"
  shows "fp = Fp ver r \<and> fps_ok ver fps'"
  using assms by (auto simp: fingerprintFor_def fps_ok_def Let_def split: option.splits if_splits)

lemma scan_definitions_ok:
  "scan_definitions ver resolved i k rels (ch, st) = Inr (ch', st') \<Longrightarrow> fps_ok ver (pn_fingerprints st) \<Longrightarrow>
     fps_ok ver (pn_fingerprints st') \<and> pn_Works st' = pn_Works st \<and> pn_Steps st' = pn_Steps st \<and>
     pn_HasParallel st' = pn_HasParallel st \<and> pn_epoch st' = pn_epoch st \<and>
     pn_lastDefinitions st' = pn_lastDefinitions st \<and>
     (\<not> ch' \<longrightarrow> \<not> ch \<and> (\<forall>r\<in>set rels. pn_lastDefinitions st (rel_OID r) \<in>
        {None, Some (Fp ver (resolved (rel_OID r)))}))"
proof (induction rels arbitrary: k ch st)
  case (Cons r rels)
  obtain target where t: "resolved (rel_OID r) = Some target"
    using Cons.prems(1) by (cases "resolved (rel_OID r)") auto
  obtain fp fps where f: "fingerprintFor ver (Some target) (pn_fingerprints st) = (fp, fps)"
    by fastforce
  note ok = fingerprintFor_ok [OF Cons.prems(2) f]
  show ?case
    using Cons.IH [OF Cons.prems(1) [unfolded scan_definitions.simps t option.case f Let_def prod.case]] ok t
    by (auto split: option.splits)
qed simp

lemma plan_changes_ok:
  "plan_changes ver (rels ! i) i k cs fps p = Inr (fps', p') \<Longrightarrow> fps_ok ver fps \<Longrightarrow>
     fps_ok ver fps' \<and> (\<forall>q. p' = Some q \<longrightarrow> rpt_index q = rpt_index p \<and>
       (\<forall>c\<in>set cs. \<exists>key. change_key ver rels i c = Inr (Some key)) \<and>
       set (rpt_keys q) = set (rpt_keys p) \<union> {key. \<exists>c\<in>set cs. change_key ver rels i c = Inr (Some key)} \<and>
       rpt_items q = rpt_items p @ items_from rels i k cs)"
proof (induction cs arbitrary: k fps p)
  case (Cons c cs)
  let ?t = "(rels ! i) (ch_RelationOID c)"
  obtain fp fps1 where f: "fingerprintFor ver ?t fps = (fp, fps1)" by fastforce
  note ok = fingerprintFor_ok [OF Cons.prems(2) f]
  have key: "replayChangeKeyForVersion ver ?t fp c = change_key ver rels i c"
    using ok by (simp add: change_key_def Let_def)
  note run = Cons.prems(1) [unfolded plan_changes.simps Let_def f prod.case key]
  show ?case
  proof (cases "change_key ver rels i c")
    case (Inl e)
    then show ?thesis using run by simp
  next
    case (Inr safe)
    show ?thesis
    proof (cases safe)
      case None
      then show ?thesis using run Inr ok by simp
    next
      case (Some key)
      show ?thesis
        using Cons.IH [of "Suc k" fps1] run Inr Some ok
        by (auto simp: items_from_def)
    qed
  qed
qed (auto simp: items_from_def)

lemma note_definitions_ok:
  "fps_ok ver (pn_fingerprints st) \<Longrightarrow>
     let st' = note_definitions ver resolved rels st in
     fps_ok ver (pn_fingerprints st') \<and> pn_Works st' = pn_Works st \<and> pn_Steps st' = pn_Steps st \<and>
     pn_HasParallel st' = pn_HasParallel st \<and> pn_epoch st' = pn_epoch st \<and>
     pn_lastDefinitions st' = (\<lambda>oid. if oid \<in> rel_OID ` set rels then Some (Fp ver (resolved oid))
       else pn_lastDefinitions st oid)"
proof (induction rels arbitrary: st)
  case (Cons r rels)
  obtain fp fps where f: "fingerprintFor ver (resolved (rel_OID r)) (pn_fingerprints st) = (fp, fps)"
    by fastforce
  note ok = fingerprintFor_ok [OF Cons.prems f]
  show ?case
    using Cons.IH [of "st\<lparr>pn_fingerprints := fps, pn_lastDefinitions := (pn_lastDefinitions st)(rel_OID r \<mapsto> fp)\<rparr>"] ok
    by (auto simp: f Let_def fun_eq_iff)
qed (simp add: Let_def)

lemma hash_lane_transactions_changes:
  "hash_lane_transactions txs rels fps prev is (h, c) = Inr (h', c') \<Longrightarrow> c' = c + tx_changes txs is"
proof (induction "is" arbitrary: prev h c)
  case (Cons i "is")
  then show ?case by (fastforce simp: res_simps Let_def tx_changes_def split: if_splits)
qed (simp add: tx_changes_def)

lemma parallelReplayWork_ok:
  assumes "parallelReplayWork step (ln_Lane l) (ln_TransactionIndexes l) txs rels fps = Inr w"
  shows "lane_work_ok step txs (l\<lparr>ln_Work := w\<rparr>)"
  using assms hash_lane_transactions_changes
  by (fastforce simp: parallelReplayWork_def lane_work_ok_def res_simps Let_def)

lemma serialReplayWork_ok:
  "serialReplayWork step i tx = Inr w \<Longrightarrow> serial_work_ok step tx w"
  by (auto simp: serialReplayWork_def serial_work_ok_def res_simps Let_def)

lemma flush_lanes_ok:
  "flush_lanes step txs rels fps lane ls = Inr ls' \<Longrightarrow> (\<forall>j<length ls. ln_Lane (ls ! j) = lane + j) \<Longrightarrow>
     list_all2 (\<lambda>l l'. (\<exists>w. l' = l\<lparr>ln_Work := w\<rparr>) \<and> lane_work_ok step txs l')
       (filter (\<lambda>l. ln_TransactionIndexes l \<noteq> []) ls) ls'"
proof (induction ls arbitrary: lane ls')
  case (Cons l ls)
  have l: "ln_Lane l = lane" using Cons.prems(2) by force
  have rest: "\<forall>j<length ls. ln_Lane (ls ! j) = Suc lane + j" using Cons.prems(2) by force
  show ?case
  proof (cases "ln_TransactionIndexes l = []")
    case True
    then show ?thesis using Cons.IH [OF _ rest] Cons.prems(1) by simp
  next
    case False
    then obtain w ls1 where "parallelReplayWork step (ln_Lane l) (ln_TransactionIndexes l) txs rels fps = Inr w"
        "flush_lanes step txs rels fps (Suc lane) ls = Inr ls1" "ls' = l\<lparr>ln_Work := w\<rparr> # ls1"
      using Cons.prems(1) l by (auto simp: res_simps)
    then show ?thesis using Cons.IH [OF _ rest] False parallelReplayWork_ok by auto
  qed
qed simp

section \<open>The invariant\<close>

lemma filter_shift:
  "map (\<lambda>j. m + j) (filter (\<lambda>j. P j) [0..<n]) = filter (\<lambda>i. P (i - m)) [m..<m + n]"
proof -
  have "[m..<m + n] = map (\<lambda>j. m + j) [0..<n]"
    by (simp add: map_add_upt add.commute)
  then show ?thesis by (simp add: filter_map comp_def)
qed

text \<open>The lanes of an epoch, seen as a block of transactions \<open>[m..<i]\<close>.\<close>

lemma block_index:
  assumes "map rpt_index epoch = [m..<m + length epoch]" "j < length epoch"
  shows "rpt_index (epoch ! j) = m + j"
proof -
  have "map rpt_index epoch ! j = [m..<m + length epoch] ! j" by (simp only: assms(1))
  then show ?thesis using assms(2) by simp
qed

lemma epoch_lane_indexes:
  assumes "map rpt_index epoch = [m..<m + length epoch]"
  shows "map rpt_index (map ((!) epoch) (filter P [0..<length epoch])) =
     filter (\<lambda>i. P (i - m)) [m..<m + length epoch]"
proof -
  have "map rpt_index (map ((!) epoch) (filter P [0..<length epoch])) =
      map (\<lambda>j. m + j) (filter P [0..<length epoch])"
    using block_index [OF assms] by simp
  then show ?thesis by (simp add: filter_shift)
qed

lemma flush_block:
  assumes spec: "lanes_spec epoch n lane lanes"
    and idx: "map rpt_index epoch = [m..<m + length epoch]"
    and planned: "\<forall>t\<in>set epoch. planned_ok ver txs rels t"
    and defs: "\<forall>t\<in>set epoch. defs_noted ver txs rels defs (rpt_index t)"
    and flushed: "list_all2 (\<lambda>l l'. (\<exists>w. l' = l\<lparr>ln_Work := w\<rparr>) \<and> lane_work_ok step txs l')
       (filter (\<lambda>l. ln_TransactionIndexes l \<noteq> []) lanes) lanes'"
  shows "parallel_block ver txs rels m (m + length epoch) lanes'"
    "\<forall>l\<in>set lanes'. lane_work_ok step txs l"
proof -
  let ?f = "\<lambda>i. lane (i - m)" and ?c = "m + length epoch"
  note sp = lanes_specD [OF spec]
  note len = sp(1)
  note at = block_index [OF idx]
  have ln: "ln_Lane (lanes ! k) = k \<and>
      ln_TransactionIndexes (lanes ! k) = filter (\<lambda>i. ?f i = k) [m..<?c] \<and>
      ln_Items (lanes ! k) = concat (map (tx_items txs rels) (ln_TransactionIndexes (lanes ! k)))" if "k < n" for k
  proof -
    let ?ts = "map ((!) epoch) (filter (\<lambda>i. lane i = k) [0..<length epoch])"
    have l: "lanes ! k = lane_append ?ts (empty_lane k)"
      by (rule sp(4) [OF that])
    have ts: "ln_Lane (lanes ! k) = k" "ln_TransactionIndexes (lanes ! k) = map rpt_index ?ts"
        "ln_Items (lanes ! k) = concat (map rpt_items ?ts)"
      by (simp_all add: l lane_append_def empty_lane_def)
    have items: "map rpt_items ?ts = map (tx_items txs rels) (map rpt_index ?ts)"
      using planned by (auto simp: planned_ok_def)
    show ?thesis
      unfolding ts(2,3) items epoch_lane_indexes [OF idx] by (simp add: ts(1))
  qed
  have origin: "\<exists>k<n. \<exists>w. l' = (lanes ! k)\<lparr>ln_Work := w\<rparr> \<and> ln_TransactionIndexes (lanes ! k) \<noteq> []"
    if "l' \<in> set lanes'" for l'
  proof -
    obtain j where j: "j < length lanes'" "l' = lanes' ! j" using \<open>l' \<in> set lanes'\<close> by (auto simp: in_set_conv_nth)
    let ?ls = "filter (\<lambda>l. ln_TransactionIndexes l \<noteq> []) lanes"
    have "j < length ?ls" using j(1) list_all2_lengthD [OF flushed] by simp
    then have "?ls ! j \<in> set ?ls" by (rule nth_mem)
    then have "?ls ! j \<in> set lanes" "ln_TransactionIndexes (?ls ! j) \<noteq> []" by simp_all
    then obtain k where "k < n" "?ls ! j = lanes ! k" "ln_TransactionIndexes (lanes ! k) \<noteq> []"
      using len by (metis in_set_conv_nth)
    then show ?thesis using list_all2_nthD2 [OF flushed j(1)] j(2) by auto
  qed
  have names: "map ln_Lane lanes' = map ln_Lane (filter (\<lambda>l. ln_TransactionIndexes l \<noteq> []) lanes)"
    using flushed by (induction rule: list_all2_induct) auto
  have all: "map ln_Lane lanes = [0..<n]"
    using ln len by (intro nth_equalityI) auto
  have "sorted_wrt (<) (map ln_Lane lanes)" unfolding all by simp
  then have sorted: "sorted_wrt (<) (map ln_Lane lanes')"
    unfolding names by (metis sorted_wrt_filter sorted_wrt_map)
  have cover: "?f i \<in> ln_Lane ` set lanes'" if "i \<in> {m..<?c}" for i
  proof -
    let ?l = "lanes ! ?f i"
    have k: "?f i < n" using that by (intro sp(2)) auto
    have "i \<in> set (ln_TransactionIndexes ?l)" "ln_Lane ?l = ?f i"
      using ln [OF k] that by simp_all
    moreover have "?l \<in> set lanes" using k len by simp
    ultimately have "ln_Lane ?l \<in> ln_Lane ` set (filter (\<lambda>l. ln_TransactionIndexes l \<noteq> []) lanes)"
      by (intro imageI) auto
    then have "?f i \<in> set (map ln_Lane (filter (\<lambda>l. ln_TransactionIndexes l \<noteq> []) lanes))"
      unfolding \<open>ln_Lane ?l = ?f i\<close> list.set_map .
    then show ?thesis unfolding names [symmetric] by simp
  qed
  have keys: "?f i = ?f j" if "i \<in> {m..<?c}" "j \<in> {m..<?c}"
      "tx_keys ver txs rels i \<inter> tx_keys ver txs rels j \<noteq> {}" for i j
  proof -
    have lt: "i - m < length epoch" "j - m < length epoch" using that by auto
    have "tx_keys ver txs rels i \<subseteq> set (rpt_keys (epoch ! (i - m)))"
        "tx_keys ver txs rels j \<subseteq> set (rpt_keys (epoch ! (j - m)))"
      using planned nth_mem [OF lt(1)] nth_mem [OF lt(2)] at [OF lt(1)] at [OF lt(2)] that(1,2)
      by (fastforce simp: planned_ok_def)+
    then have "(i - m, j - m) \<in> epoch_linked epoch"
      using that(3) lt by (auto simp: epoch_linked_def)
    then show ?thesis using sp(3) [OF lt] by blast
  qed
  have mem: "\<exists>t\<in>set epoch. rpt_index t = i" if "i \<in> {m..<?c}" for i
    using that idx by (metis atLeastLessThan_iff atLeastLessThan_upt imageE list.set_map)
  have par: "parallel_tx ver txs rels i" if "i \<in> {m..<?c}" for i
    using mem [OF that] planned by (auto simp: planned_ok_def)
  have same: "same_definitions ver txs rels i j" if "i \<in> {m..<?c}" "j \<in> {m..<?c}" for i j
    using mem [OF that(1)] mem [OF that(2)] defs unfolding same_definitions_def defs_noted_def
    by (metis option.inject)
  have lane_ok: "ln_TransactionIndexes l = filter (\<lambda>i. ?f i = ln_Lane l) [m..<?c] \<and>
      ln_TransactionIndexes l \<noteq> [] \<and>
      ln_Items l = concat (map (tx_items txs rels) (ln_TransactionIndexes l))" if "l \<in> set lanes'" for l
    using origin [OF that] ln by auto
  show "parallel_block ver txs rels m ?c lanes'"
    unfolding parallel_block_def
  proof (intro conjI exI [of _ ?f])
    show "sorted_wrt (<) (map ln_Lane lanes')" by (rule sorted)
  qed (use lane_ok cover keys par same in blast)+
  show "\<forall>l\<in>set lanes'. lane_work_ok step txs l"
    using flushed by (auto simp: list_all2_conv_all_nth in_set_conv_nth)
qed

lemma plan_inv_flushed:
  assumes "pn_epoch st = []"
  shows "plan_inv ver txs rels i st \<longleftrightarrow> fps_ok ver (pn_fingerprints st) \<and>
     covers ver txs rels (pn_Steps st) (pn_Works st) i \<and>
     (pn_HasParallel st \<longleftrightarrow> (\<exists>s\<in>set (pn_Steps st). length (st_Lanes s) > 1))"
proof -
  have eq: "[] = [m..<i] \<longleftrightarrow> i \<le> m" for m
    using upt_eq_Nil_conv [of m i] by (metis le_0_eq linear upt_eq_Nil_conv)
  show ?thesis using assms by (auto simp: plan_inv_def eq dest: le_antisym)
qed

lemma flushParallel_inv:
  assumes "plan_inv ver txs rels i st" "flushParallel laneCount txs rels st = Inr st'" "1 \<le> laneCount"
  shows "plan_inv ver txs rels i st' \<and> pn_epoch st' = [] \<and>
     covers ver txs rels (pn_Steps st') (pn_Works st') i"
proof (cases "pn_epoch st = []")
  case True
  then have "st' = st" using assms(2) by (simp add: flushParallel_def)
  then show ?thesis using assms(1) True plan_inv_flushed [OF True] by simp
next
  case False
  let ?epoch = "pn_epoch st" and ?k = "length (pn_Steps st)"
  obtain m where m: "m \<le> i" "covers ver txs rels (pn_Steps st) (pn_Works st) m"
      "map rpt_index ?epoch = [m..<i]"
    using assms(1) by (auto simp: plan_inv_def)
  have "length ?epoch = i - m" using m(3) by (metis length_map length_upt)
  then have i: "i = m + length ?epoch" using m(1) by simp
  have planned: "\<forall>t\<in>set ?epoch. planned_ok ver txs rels t"
      "\<forall>t\<in>set ?epoch. defs_noted ver txs rels (pn_lastDefinitions st) (rpt_index t)"
    using assms(1) by (auto simp: plan_inv_def)
  then have "\<forall>t\<in>set ?epoch. rpt_keys t \<noteq> []" by (auto simp: planned_ok_def)
  then obtain lanes lane where l: "replayTransactionComponentLanes ?epoch laneCount = Inr lanes"
      "lanes_spec ?epoch (nat laneCount) lane lanes"
    using component_lanes_correct [OF False assms(3)] by blast
  obtain lanes' where f: "flush_lanes ?k txs rels (pn_fingerprints st) 0 lanes = Inr lanes'"
      and st': "st' = st\<lparr>pn_Works := pn_Works st @ map ln_Work lanes',
          pn_HasParallel := pn_HasParallel st \<or> length lanes' > 1,
          pn_Steps := pn_Steps st @ [\<lparr>st_Index = ?k, st_Lanes = lanes', st_SerialTransaction = -1\<rparr>],
          pn_epoch := []\<rparr>"
    using assms(2) False l(1) by (auto simp: flushParallel_def res_simps Let_def)
  have "\<forall>j<length lanes. ln_Lane (lanes ! j) = 0 + j"
    using lanes_specD(1,4) [OF l(2)] by (simp add: lane_append_def empty_lane_def)
  note flushed = flush_lanes_ok [OF f this]
  note block = flush_block [OF l(2) m(3) [unfolded i] planned flushed, folded i]
  have "?epoch \<noteq> []" using False .
  then have "m < i" using i by (cases ?epoch) auto
  then have "covers ver txs rels (pn_Steps st') (pn_Works st') i"
    unfolding st' using covers.parallel [OF m(2), of "\<lparr>st_Index = ?k, st_Lanes = lanes', st_SerialTransaction = -1\<rparr>" i] block
    by simp
  moreover have "fps_ok ver (pn_fingerprints st')" using assms(1) by (simp add: st' plan_inv_def)
  moreover have "pn_HasParallel st \<longleftrightarrow> (\<exists>s\<in>set (pn_Steps st). length (st_Lanes s) > 1)"
    using assms(1) unfolding plan_inv_def by blast
  then have "pn_HasParallel st' \<longleftrightarrow> (\<exists>s\<in>set (pn_Steps st'). length (st_Lanes s) > 1)"
    by (simp add: st' disj_commute)
  moreover have "pn_epoch st' = []" by (simp add: st')
  ultimately show ?thesis using plan_inv_flushed by blast
qed

lemma plan_transaction_inv:
  assumes inv: "plan_inv ver txs rels i st" and run: "plan_transaction ver laneCount txs rels i st = Inr st'"
    and lanes: "1 \<le> laneCount"
  shows "plan_inv ver txs rels (Suc i) st'"
proof -
  let ?tx = "txs ! i" and ?res = "rels ! i"
  let ?defs = "pn_lastDefinitions st"
  obtain changed st1 where s: "scan_definitions ver ?res i 0 (tx_Relations ?tx) (False, st) = Inr (changed, st1)"
    using run by (auto simp: plan_transaction_def res_simps Let_def)
  obtain fps planned where p: "(if tx_Spill ?tx = None \<and> \<not> changed
        then plan_changes ver ?res i 0 (tx_Changes ?tx) (pn_fingerprints st1) \<lparr>rpt_index = i, rpt_keys = [], rpt_items = []\<rparr>
        else Inr (pn_fingerprints st1, None)) = Inr (fps, planned)"
    using run s by (auto simp: plan_transaction_def res_simps Let_def)
  let ?st2 = "st1\<lparr>pn_fingerprints := fps\<rparr>"
  obtain st3 where t: "(case planned of Some p \<Rightarrow> Inr (add_parallel ?tx p ?st2)
        | None \<Rightarrow> add_serial laneCount txs rels i ?st2) = Inr st3"
      and st': "st' = note_definitions ver ?res (tx_Relations ?tx) st3"
    using run s p by (auto simp: plan_transaction_def res_simps Let_def)
  have "fps_ok ver (pn_fingerprints st)" using inv by (simp add: plan_inv_def)
  note s1 = scan_definitions_ok [OF s this]
  have fps: "fps_ok ver fps"
  proof (cases "tx_Spill ?tx = None \<and> \<not> changed")
    case True
    then show ?thesis using p plan_changes_ok [of ver rels i] s1 by simp
  next
    case False
    then show ?thesis using p s1 by auto
  qed
  have inv2: "plan_inv ver txs rels i ?st2" using inv s1 fps by (simp add: plan_inv_def)
  show ?thesis
  proof (cases planned)
    case None
    obtain st4 w where f: "flushParallel laneCount txs rels ?st2 = Inr st4"
        "serialReplayWork (length (pn_Steps st4)) i ?tx = Inr w"
        "st3 = st4\<lparr>pn_Steps := pn_Steps st4 @ [\<lparr>st_Index = length (pn_Steps st4), st_Lanes = [],
              st_SerialTransaction = int i\<rparr>], pn_Works := pn_Works st4 @ [w]\<rparr>"
      using t None by (auto simp: add_serial_def res_simps)
    note flushed = flushParallel_inv [OF inv2 f(1) lanes]
    have "covers ver txs rels (pn_Steps st3) (pn_Works st3) (Suc i)"
      using covers.serial [of ver txs rels "pn_Steps st4" "pn_Works st4" i] flushed serialReplayWork_ok [OF f(2)]
      by (simp add: f(3))
    moreover have "fps_ok ver (pn_fingerprints st3)" using flushed f(3) by (simp add: plan_inv_def)
    moreover have "pn_HasParallel st3 \<longleftrightarrow> (\<exists>s\<in>set (pn_Steps st3). length (st_Lanes s) > 1)"
      using flushed by (simp add: plan_inv_def f(3))
    moreover have "pn_epoch st3 = []" using flushed by (simp add: f(3))
    ultimately show ?thesis
      using note_definitions_ok [of ver st3 ?res "tx_Relations ?tx"] plan_inv_flushed [of st']
      by (simp add: st' Let_def)
  next
    case (Some q)
    then have c: "tx_Spill ?tx = None" "\<not> changed" using p by (auto split: if_splits)
    have pc: "plan_changes ver ?res i 0 (tx_Changes ?tx) (pn_fingerprints st1)
        \<lparr>rpt_index = i, rpt_keys = [], rpt_items = []\<rparr> = Inr (fps, Some q)"
      using p c Some by simp
    have "fps_ok ver (pn_fingerprints st1)" using s1 by simp
    note q = plan_changes_ok [OF pc this]
    let ?q = "if rpt_keys q = [] then q\<lparr>rpt_keys := [empty_transaction_key ?tx]\<rparr> else q"
    have st3: "st3 = ?st2\<lparr>pn_epoch := pn_epoch ?st2 @ [?q]\<rparr>"
      using t Some by (simp add: add_parallel_def Let_def)
    have ok: "planned_ok ver txs rels ?q" "rpt_index ?q = i"
      using q c(1) by (auto simp: planned_ok_def parallel_tx_def tx_keys_def tx_items_def)
    have fps3: "fps_ok ver (pn_fingerprints st3)" using fps st3 by simp
    have ep: "pn_epoch st' = pn_epoch st @ [?q]" "pn_Steps st' = pn_Steps st" "pn_Works st' = pn_Works st"
        "pn_HasParallel st' = pn_HasParallel st" "fps_ok ver (pn_fingerprints st')"
        "pn_lastDefinitions st' = (\<lambda>oid. if oid \<in> rel_OID ` set (tx_Relations ?tx)
           then Some (Fp ver (?res oid)) else ?defs oid)"
      using note_definitions_ok [OF fps3, of ?res "tx_Relations ?tx"] s1 by (auto simp: st' st3 Let_def)
    have "defs_noted ver txs rels (pn_lastDefinitions st') (rpt_index t)" if "t \<in> set (pn_epoch st)" for t
      unfolding defs_noted_def
    proof
      fix r assume "r \<in> set (tx_Relations (txs ! rpt_index t))"
      then have old: "?defs (rel_OID r) = Some (Fp ver ((rels ! rpt_index t) (rel_OID r)))"
        using inv that by (auto simp: plan_inv_def defs_noted_def)
      show "pn_lastDefinitions st' (rel_OID r) = Some (Fp ver ((rels ! rpt_index t) (rel_OID r)))"
      proof (cases "rel_OID r \<in> rel_OID ` set (tx_Relations ?tx)")
        case True
        then obtain r' where r': "r' \<in> set (tx_Relations ?tx)" "rel_OID r' = rel_OID r" by auto
        then have "?defs (rel_OID r) \<in> {None, Some (Fp ver (?res (rel_OID r)))}"
          using s1 c(2) by metis
        then show ?thesis using old ep(6) True by auto
      qed (use old ep(6) in simp)
    qed
    moreover have "defs_noted ver txs rels (pn_lastDefinitions st') i"
      using ep(6) by (auto simp: defs_noted_def)
    ultimately show ?thesis
      using inv ok ep(1-5) by (auto simp: plan_inv_def)
  qed
qed

lemma plan_transactions_inv:
  "plan_transactions ver laneCount txs rels [i..<n] st = Inr st' \<Longrightarrow> plan_inv ver txs rels i st \<Longrightarrow>
     1 \<le> laneCount \<Longrightarrow> i \<le> n \<Longrightarrow>
     covers ver txs rels (pn_Steps st') (pn_Works st') n \<and>
     (pn_HasParallel st' \<longleftrightarrow> (\<exists>s\<in>set (pn_Steps st'). length (st_Lanes s) > 1))"
proof (induction "n - i" arbitrary: i st)
  case 0
  then have "i = n" by simp
  then show ?case using flushParallel_inv [of ver txs rels i st laneCount st'] 0(2-4) by (simp add: plan_inv_def)
next
  case (Suc d)
  then have i: "i < n" "[i..<n] = i # [Suc i..<n]" by (auto simp: upt_conv_Cons)
  obtain st1 where s: "plan_transaction ver laneCount txs rels i st = Inr st1"
      "plan_transactions ver laneCount txs rels [Suc i..<n] st1 = Inr st'"
    using Suc.prems(1) i(2) by (auto simp: res_simps)
  show ?case
    using Suc.hyps(1) [OF _ s(2) plan_transaction_inv [OF Suc.prems(2) s(1) Suc.prems(3)] Suc.prems(3)] Suc.hyps(2) i(1)
    by simp
qed

lemma plan_inv_start: "plan_inv ver txs rels 0 plan_start"
  by (simp add: plan_inv_def plan_start_def fps_ok_def covers.none)

lemma build_covers:
  assumes "buildReplayPlanForGenerationVersion s g g0 lsn lanes txs rels ver = Inr plan"
  shows "covers ver txs rels (pl_Steps plan) (pl_Works plan) (length txs) \<and>
     (pl_HasParallel plan \<longleftrightarrow> (\<exists>s\<in>set (pl_Steps plan). length (st_Lanes s) > 1))"
proof -
  obtain st where "1 \<le> lanes" "plan_transactions ver lanes txs rels [0..<length txs] plan_start = Inr st"
      "pl_Steps plan = pn_Steps st" "pl_Works plan = pn_Works st" "pl_HasParallel plan = pn_HasParallel st"
    using assms by (auto simp: buildReplayPlanForGenerationVersion_def res_simps Let_def split: if_splits)
  then show ?thesis using plan_transactions_inv [OF _ plan_inv_start] by fastforce
qed

end
