(* ===== verification/ReplayPlanTotal.thy ===== *)
theory ReplayPlanTotal
  imports ReplayPlanCorrect
begin

text \<open>
  The planner succeeds on every well-formed batch: no consistency check of the planner
  (the coverage counts, the transaction order of a lane, a missing fingerprint or key) ever fires.
\<close>

section \<open>Hashing a transaction\<close>

definition storable :: "Transaction \<Rightarrow> bool" where
  "storable tx \<longleftrightarrow> is_ok (WriteTransaction [] tx)"

lemma WriteTransaction_any:
  assumes "storable tx"
  shows "\<exists>out n. WriteTransaction w tx = Inr (out, n)"
proof (cases "tx_Spill tx")
  case None
  then show ?thesis
    using assms by (auto simp: storable_def is_ok_iff WriteTransaction_resident)
next
  case (Some s)
  then show ?thesis
    using assms by (auto simp: storable_def is_ok_iff WriteTransaction_def io_CopyN_def res_simps Let_def)
qed

lemma storable_size: "storable tx \<Longrightarrow> \<exists>n. transactionPayloadSize tx = Inr n"
  by (auto simp: storable_def is_ok_iff WriteTransaction_def res_simps)

lemma hash_transaction_any: "storable tx \<Longrightarrow> \<exists>h'. hash_transaction h tx = Inr h'"
  using storable_size WriteTransaction_any by (fastforce simp: hash_transaction_def res_simps)

lemma serialReplayWork_any:
  assumes "storable tx"
  shows "\<exists>w. serialReplayWork step i tx = Inr w"
proof -
  let ?h = "writeReplayHashInt (writeReplayHashInt (newReplayClaimHasher ''pgmigrate-replay-serial-work-v1'')
     (int step)) (int i)"
  obtain h' where "hash_transaction ?h tx = Inr h'" using hash_transaction_any [OF assms] by blast
  then show ?thesis by (simp add: serialReplayWork_def Let_def)
qed

lemma hash_plan_transactions_any:
  "\<forall>tx\<in>set txs. storable tx \<Longrightarrow> \<exists>h'. hash_plan_transactions txs h = Inr h'"
proof (induction txs arbitrary: h)
  case (Cons tx txs)
  obtain n where n: "transactionPayloadSize tx = Inr n" using storable_size Cons.prems by fastforce
  obtain out k where "WriteTransaction (writeReplayHashInt h (int n)) tx = Inr (out, k)"
    using WriteTransaction_any Cons.prems by fastforce
  then show ?case using n Cons.IH [of out] Cons.prems by simp
qed simp

section \<open>Totality of the loops\<close>

definition resolves :: "resolved \<Rightarrow> Relation list \<Rightarrow> bool" where
  "resolves resolved rs \<longleftrightarrow> (\<forall>r\<in>set rs. resolved (rel_OID r) \<noteq> None)"

definition plannable :: "int \<Rightarrow> Transaction list \<Rightarrow> resolved list \<Rightarrow> bool" where
  "plannable ver txs rels \<longleftrightarrow> length rels = length txs \<and> (\<forall>i<length txs.
     storable (txs ! i) \<and> resolves (rels ! i) (tx_Relations (txs ! i)) \<and>
     (tx_Spill (txs ! i) = None \<longrightarrow> (\<forall>c\<in>set (tx_Changes (txs ! i)). is_ok (change_key ver rels i c))))"

definition knows :: "fingerprints \<Rightarrow> resolved \<Rightarrow> Relation list \<Rightarrow> bool" where
  "knows fps resolved rs \<longleftrightarrow> (\<forall>r\<in>set rs. fps (resolved (rel_OID r)) \<noteq> None)"

definition fps_le :: "fingerprints \<Rightarrow> fingerprints \<Rightarrow> bool" where
  "fps_le f g \<longleftrightarrow> (\<forall>r. f r \<noteq> None \<longrightarrow> g r \<noteq> None)"

lemma fps_le_refl [simp]: "fps_le f f"
  by (simp add: fps_le_def)

lemma fps_le_trans: "fps_le f g \<Longrightarrow> fps_le g h \<Longrightarrow> fps_le f h"
  by (simp add: fps_le_def)

lemma knows_mono: "knows f resolved rs \<Longrightarrow> fps_le f g \<Longrightarrow> knows g resolved rs"
  by (simp add: knows_def fps_le_def)

lemma fingerprintFor_le:
  assumes "fingerprintFor ver r f = (fp, g)"
  shows "fps_le f g" "g r \<noteq> None"
  using assms by (auto simp: fingerprintFor_def fps_le_def Let_def split: option.splits if_splits)

lemma scan_definitions_any:
  "resolves resolved rs \<Longrightarrow> \<exists>ch' st'. scan_definitions ver resolved i k rs (ch, st) = Inr (ch', st') \<and>
     fps_le (pn_fingerprints st) (pn_fingerprints st') \<and> knows (pn_fingerprints st') resolved rs"
proof (induction rs arbitrary: k ch st)
  case (Cons r rs)
  then obtain target where t: "resolved (rel_OID r) = Some target" by (auto simp: resolves_def)
  obtain fp fps where f: "fingerprintFor ver (Some target) (pn_fingerprints st) = (fp, fps)" by fastforce
  have "resolves resolved rs" using Cons.prems by (simp add: resolves_def)
  note ih = Cons.IH [OF this]
  let ?ch = "ch \<or> (case pn_lastDefinitions st (rel_OID r) of None \<Rightarrow> False | Some previous \<Rightarrow> previous \<noteq> fp)"
  let ?st = "st\<lparr>pn_fingerprints := fps, pn_catalog := writeReplayHashBytes
     (writeReplayHashInt (writeReplayHashInt (pn_catalog st) (int i)) (int k)) fp\<rparr>"
  obtain ch' st' where r: "scan_definitions ver resolved i (Suc k) rs (?ch, ?st) = Inr (ch', st')"
      "fps_le fps (pn_fingerprints st')" "knows (pn_fingerprints st') resolved rs"
    using ih [of "Suc k" ?ch ?st] by auto
  have "scan_definitions ver resolved i k (r # rs) (ch, st) = Inr (ch', st')"
    using r(1) by (simp add: t f)
  moreover have "fps_le (pn_fingerprints st) (pn_fingerprints st')"
    using fingerprintFor_le(1) [OF f] r(2) fps_le_trans by blast
  moreover have "knows (pn_fingerprints st') resolved (r # rs)"
    using fingerprintFor_le(2) [OF f] r(2,3) t by (auto simp: knows_def fps_le_def)
  ultimately show ?case by blast
qed (simp add: knows_def)

lemma plan_changes_any:
  "fps_ok ver fps \<Longrightarrow> \<forall>c\<in>set cs. is_ok (change_key ver rels i c) \<Longrightarrow>
     \<exists>fps' p'. plan_changes ver (rels ! i) i k cs fps p = Inr (fps', p') \<and> fps_le fps fps'"
proof (induction cs arbitrary: k fps p)
  case (Cons c cs)
  let ?t = "(rels ! i) (ch_RelationOID c)"
  obtain fp fps1 where f: "fingerprintFor ver ?t fps = (fp, fps1)" by fastforce
  note ok = fingerprintFor_ok [OF Cons.prems(1) f]
  obtain key where "change_key ver rels i c = Inr key" using Cons.prems(2) by (auto simp: is_ok_iff)
  then have key: "replayChangeKeyForVersion ver ?t fp c = Inr key"
    using ok by (simp add: change_key_def Let_def)
  show ?case
  proof (cases key)
    case None
    then show ?thesis using key f fingerprintFor_le(1) [OF f] by simp
  next
    case (Some k')
    have ok1: "fps_ok ver fps1" and rest: "\<forall>c\<in>set cs. is_ok (change_key ver rels i c)"
      using ok Cons.prems(2) by auto
    show ?thesis
      using Cons.IH [OF ok1 rest, of "Suc k"] Some key f fingerprintFor_le(1) [OF f]
      by (fastforce simp: intro: fps_le_trans)
  qed
qed simp

lemma note_definitions_le: "fps_le (pn_fingerprints st) (pn_fingerprints (note_definitions ver resolved rs st))"
proof (induction rs arbitrary: st)
  case (Cons r rs)
  obtain fp fps where f: "fingerprintFor ver (resolved (rel_OID r)) (pn_fingerprints st) = (fp, fps)" by fastforce
  show ?case
    using fingerprintFor_le(1) [OF f] Cons.IH [of "st\<lparr>pn_fingerprints := fps,
      pn_lastDefinitions := (pn_lastDefinitions st)(rel_OID r \<mapsto> fp)\<rparr>"]
    by (auto simp: f intro: fps_le_trans)
qed simp

lemma hash_lane_relations_any:
  "knows fps resolved rs \<Longrightarrow> resolves resolved rs \<Longrightarrow> \<exists>h'. hash_lane_relations resolved fps rs h = Inr h'"
  by (induction rs arbitrary: h) (auto simp: knows_def resolves_def split: option.splits)

lemma hash_lane_transactions_any:
  assumes "plannable ver txs rels"
  shows "\<forall>i\<in>set is. i < length txs \<and> previous < int i \<and> knows fps (rels ! i) (tx_Relations (txs ! i)) \<Longrightarrow>
    sorted_wrt (<) is \<Longrightarrow> \<exists>r. hash_lane_transactions txs rels fps previous is (h, c) = Inr r"
proof (induction "is" arbitrary: previous h c)
  case (Cons i "is")
  have i: "i < length txs" "previous < int i" "knows fps (rels ! i) (tx_Relations (txs ! i))"
    using Cons.prems(1) by auto
  have tx: "storable (txs ! i)" "resolves (rels ! i) (tx_Relations (txs ! i))" "length rels = length txs"
    using assms i(1) by (auto simp: plannable_def)
  obtain h1 where h1: "hash_lane_relations (rels ! i) fps (tx_Relations (txs ! i))
      (writeReplayHashInt (writeReplayHashInt h (int i)) (sint (tx_EndLSN (txs ! i)))) = Inr h1"
    using hash_lane_relations_any i(3) tx(2) by blast
  obtain h2 where h2: "hash_transaction h1 (txs ! i) = Inr h2" using hash_transaction_any tx(1) by blast
  have "\<forall>j\<in>set is. j < length txs \<and> int i < int j \<and> knows fps (rels ! j) (tx_Relations (txs ! j))"
    using Cons.prems by auto
  from Cons.IH [OF this, of h2] show ?case using Cons.prems(2) i h1 h2 tx(3) by (simp add: Let_def)
qed simp

lemma flush_lanes_any:
  assumes "plannable ver txs rels"
  shows "\<forall>l\<in>set ls. sorted_wrt (<) (ln_TransactionIndexes l) \<and>
      (\<forall>i\<in>set (ln_TransactionIndexes l). i < length txs \<and> knows fps (rels ! i) (tx_Relations (txs ! i))) \<Longrightarrow>
    \<exists>ls'. flush_lanes step txs rels fps lane ls = Inr ls'"
proof (induction ls arbitrary: lane)
  case (Cons l ls)
  let ?h = "writeReplayHashInt (writeReplayHashInt (newReplayClaimHasher ''pgmigrate-replay-parallel-work-v1'')
     (int step)) (int lane)"
  have "\<exists>r. hash_lane_transactions txs rels fps (-1) (ln_TransactionIndexes l) (?h, 0) = Inr r"
    by (rule hash_lane_transactions_any [OF assms]) (use Cons.prems in auto)
  then obtain w where w: "parallelReplayWork step lane (ln_TransactionIndexes l) txs rels fps = Inr w"
    by (auto simp: parallelReplayWork_def Let_def)
  obtain ls' where "flush_lanes step txs rels fps (Suc lane) ls = Inr ls'"
    using Cons.IH [of "Suc lane"] Cons.prems by auto
  then show ?case using Cons.IH [of "Suc lane"] Cons.prems w by simp
qed simp

definition epoch_known :: "Transaction list \<Rightarrow> resolved list \<Rightarrow> planState \<Rightarrow> bool" where
  "epoch_known txs rels st \<longleftrightarrow> (\<forall>t\<in>set (pn_epoch st).
     knows (pn_fingerprints st) (rels ! rpt_index t) (tx_Relations (txs ! rpt_index t)))"

lemma flushParallel_any:
  assumes "plannable ver txs rels" "plan_inv ver txs rels i st" "epoch_known txs rels st"
    "i \<le> length txs" "1 \<le> laneCount"
  obtains st' where "flushParallel laneCount txs rels st = Inr st'"
proof (cases "pn_epoch st = []")
  case True
  then show ?thesis using that by (simp add: flushParallel_def)
next
  case False
  let ?epoch = "pn_epoch st"
  obtain m where m: "m \<le> i" "map rpt_index ?epoch = [m..<i]" using assms(2) by (auto simp: plan_inv_def)
  have "length ?epoch = i - m" using m(2) by (metis length_map length_upt)
  then have i: "i = m + length ?epoch" using m(1) by simp
  have "\<forall>t\<in>set ?epoch. rpt_keys t \<noteq> []" using assms(2) by (auto simp: plan_inv_def planned_ok_def)
  then obtain lanes lane where l: "replayTransactionComponentLanes ?epoch laneCount = Inr lanes"
      "lanes_spec ?epoch (nat laneCount) lane lanes"
    using component_lanes_correct [OF False assms(5)] by blast
  have "sorted_wrt (<) (ln_TransactionIndexes l) \<and> (\<forall>j\<in>set (ln_TransactionIndexes l).
      j < length txs \<and> knows (pn_fingerprints st) (rels ! j) (tx_Relations (txs ! j)))" if "l \<in> set lanes" for l
  proof -
    obtain k where k: "k < length lanes" "lanes ! k = l"
      using \<open>l \<in> set lanes\<close> unfolding in_set_conv_nth by blast
    then have "k < nat laneCount" "l = lanes ! k" using lanes_specD(1) [OF l(2)] by simp_all
    then have "ln_TransactionIndexes l =
        map rpt_index (map ((!) ?epoch) (filter (\<lambda>i. lane i = k) [0..<length ?epoch]))"
      using lanes_specD(4) [OF l(2)] by (simp add: lane_append_def empty_lane_def)
    then have idx: "ln_TransactionIndexes l = filter (\<lambda>j. lane (j - m) = k) [m..<m + length ?epoch]"
      unfolding epoch_lane_indexes [OF m(2) [unfolded i]] .
    have "knows (pn_fingerprints st) (rels ! j) (tx_Relations (txs ! j))" if "j \<in> {m..<i}" for j
    proof -
      have "j \<in> set (map rpt_index ?epoch)" unfolding m(2) using that by simp
      then obtain t where "t \<in> set ?epoch" "rpt_index t = j" by auto
      then show ?thesis using assms(3) by (auto simp: epoch_known_def)
    qed
    then show ?thesis unfolding idx i [symmetric] using assms(4) by (auto simp: sorted_wrt_filter)
  qed
  then obtain lanes' where
    "flush_lanes (length (pn_Steps st)) txs rels (pn_fingerprints st) 0 lanes = Inr lanes'"
    using flush_lanes_any [OF assms(1)] by blast
  then show ?thesis using that False l(1) by (simp add: flushParallel_def Let_def)
qed

lemma plan_transaction_any:
  assumes "plannable ver txs rels" "plan_inv ver txs rels i st" "epoch_known txs rels st"
    "i < length txs" "1 \<le> laneCount"
  shows "\<exists>st'. plan_transaction ver laneCount txs rels i st = Inr st' \<and> epoch_known txs rels st'"
proof -
  let ?tx = "txs ! i" and ?res = "rels ! i"
  have tx: "storable ?tx" "resolves ?res (tx_Relations ?tx)"
      "tx_Spill ?tx = None \<Longrightarrow> \<forall>c\<in>set (tx_Changes ?tx). is_ok (change_key ver rels i c)"
    using assms(1,4) by (auto simp: plannable_def)
  obtain changed st1 where s: "scan_definitions ver ?res i 0 (tx_Relations ?tx) (False, st) = Inr (changed, st1)"
      "fps_le (pn_fingerprints st) (pn_fingerprints st1)" "knows (pn_fingerprints st1) ?res (tx_Relations ?tx)"
    using scan_definitions_any [OF tx(2)] by blast
  have "fps_ok ver (pn_fingerprints st)" using assms(2) by (simp add: plan_inv_def)
  note s1 = scan_definitions_ok [OF s(1) this]
  obtain fps planned where p: "(if tx_Spill ?tx = None \<and> \<not> changed
        then plan_changes ver ?res i 0 (tx_Changes ?tx) (pn_fingerprints st1) \<lparr>rpt_index = i, rpt_keys = [], rpt_items = []\<rparr>
        else Inr (pn_fingerprints st1, None)) = Inr (fps, planned)" "fps_le (pn_fingerprints st1) fps"
      "fps_ok ver fps" "\<forall>q. planned = Some q \<longrightarrow> rpt_index q = i"
  proof (cases "tx_Spill ?tx = None \<and> \<not> changed")
    case True
    then obtain fps planned where "plan_changes ver ?res i 0 (tx_Changes ?tx) (pn_fingerprints st1)
        \<lparr>rpt_index = i, rpt_keys = [], rpt_items = []\<rparr> = Inr (fps, planned)" "fps_le (pn_fingerprints st1) fps"
      using plan_changes_any [of ver "pn_fingerprints st1" "tx_Changes ?tx" rels i 0] tx(3) s1 by blast
    then show ?thesis using that True plan_changes_ok [of ver rels i 0] s1 by simp
  next
    case False
    then show ?thesis using that [of "pn_fingerprints st1" None] s1 by auto
  qed
  let ?st2 = "st1\<lparr>pn_fingerprints := fps\<rparr>"
  have le2: "fps_le (pn_fingerprints st) fps" using s(2) p(2) fps_le_trans by blast
  have known2: "epoch_known txs rels ?st2"
    using assms(3) s1 le2 by (auto simp: epoch_known_def intro: knows_mono)
  have inv2: "plan_inv ver txs rels i ?st2" using assms(2) s1 p(3) by (simp add: plan_inv_def)
  obtain st3 where t: "(case planned of Some q \<Rightarrow> Inr (add_parallel ?tx q ?st2)
        | None \<Rightarrow> add_serial laneCount txs rels i ?st2) = Inr st3" "epoch_known txs rels st3"
      "fps_ok ver (pn_fingerprints st3)"
  proof (cases planned)
    case None
    obtain st4 where f: "flushParallel laneCount txs rels ?st2 = Inr st4"
      using flushParallel_any [OF assms(1) inv2 known2 _ assms(5)] assms(4) by auto
    note flushed = flushParallel_inv [OF inv2 f assms(5)]
    obtain w where w: "serialReplayWork (length (pn_Steps st4)) i ?tx = Inr w"
      using serialReplayWork_any [OF tx(1)] by blast
    let ?st3 = "st4\<lparr>pn_Steps := pn_Steps st4 @ [\<lparr>st_Index = length (pn_Steps st4), st_Lanes = [],
              st_SerialTransaction = int i\<rparr>], pn_Works := pn_Works st4 @ [w]\<rparr>"
    have "add_serial laneCount txs rels i ?st2 = Inr ?st3" using f w by (simp add: add_serial_def)
    moreover have "epoch_known txs rels ?st3" using flushed by (simp add: epoch_known_def)
    moreover have "fps_ok ver (pn_fingerprints ?st3)" using flushed by (simp add: plan_inv_def)
    ultimately show ?thesis using that None by simp
  next
    case (Some q)
    have "knows fps ?res (tx_Relations ?tx)" using s(3) p(2) knows_mono by blast
    then have "epoch_known txs rels (add_parallel ?tx q ?st2)"
      using known2 p(4) Some by (auto simp: epoch_known_def add_parallel_def Let_def)
    moreover have "fps_ok ver (pn_fingerprints (add_parallel ?tx q ?st2))"
      using p(3) by (simp add: add_parallel_def Let_def)
    ultimately show ?thesis using that Some by simp
  qed
  let ?st' = "note_definitions ver ?res (tx_Relations ?tx) st3"
  have "plan_transaction ver laneCount txs rels i st = Inr ?st'"
    using s(1) p(1) t(1) by (simp add: plan_transaction_def Let_def)
  moreover have "epoch_known txs rels ?st'"
    using t(2) note_definitions_ok [OF t(3), of ?res "tx_Relations ?tx"] note_definitions_le [of st3 ver ?res "tx_Relations ?tx"]
    by (auto simp: epoch_known_def Let_def intro: knows_mono)
  ultimately show ?thesis by blast
qed

lemma plan_transactions_any:
  assumes "plannable ver txs rels" "1 \<le> laneCount"
  shows "plan_inv ver txs rels i st \<Longrightarrow> epoch_known txs rels st \<Longrightarrow> i \<le> length txs \<Longrightarrow>
    \<exists>st'. plan_transactions ver laneCount txs rels [i..<length txs] st = Inr st'"
proof (induction "length txs - i" arbitrary: i st)
  case 0
  then have i: "i = length txs" by simp
  obtain st' where "flushParallel laneCount txs rels st = Inr st'"
    using flushParallel_any [OF assms(1) 0(2,3) _ assms(2)] i by auto
  then show ?case using i by simp
next
  case (Suc d)
  then have i: "i < length txs" by simp
  obtain st1 where s: "plan_transaction ver laneCount txs rels i st = Inr st1" "epoch_known txs rels st1"
    using plan_transaction_any [OF assms(1) Suc.prems(1,2) i assms(2)] by blast
  note inv = plan_transaction_inv [OF Suc.prems(1) s(1) assms(2)]
  have "d = length txs - Suc i" using Suc.hyps(2) by simp
  from Suc.hyps(1) [OF this inv s(2)] show ?case using i s(1) by (simp add: upt_conv_Cons)
qed

end
