(* ===== verification/ReplayKeys.thy ===== *)
theory ReplayKeys
  imports ReplayPlan
begin

text \<open>
  What a dependency key stands for. A change whose key comes from its row hashes the relation's
  fingerprint and the kinds and bytes of the primary key; the bytes hashed determine the primary
  key, so two such changes of one relation get the same key exactly when they touch the same row,
  unless SHA-256 collides. A change that may touch two rows gets the key of the whole relation,
  which no row key equals.
\<close>

section \<open>The hashed bytes\<close>

definition row_values :: "targetRelation \<Rightarrow> Tuple \<Rightarrow> (byte \<times> bytes) list" where
  "row_values r t = map (\<lambda>c. let d = t ! nat (tc_sourceIndex c) in (dat_Kind d, dat_bytes d)) (primaryKeyColumns r)"

fun value_bytes :: "byte \<times> bytes \<Rightarrow> bytes" where
  "value_bytes (k, b) = be64 (word_of_int (uint k)) @ be64 (word_of_nat (length b)) @ b"

definition row_preimage :: "targetRelation \<Rightarrow> digest \<Rightarrow> Tuple \<Rightarrow> bytes" where
  "row_preimage r fp t = lane_hasher fp @ concat (map value_bytes (row_values r t))"

definition relation_preimage :: "digest \<Rightarrow> bytes" where
  "relation_preimage fp = writeReplayHashBytes (newReplayClaimHasher ''pgmigrate-replay-relation-lane-v1'') fp"

text \<open>\<open>row_keyed r c t\<close>: the key of \<open>c\<close> is the one of the row \<open>t\<close>.\<close>

definition row_keyed :: "targetRelation \<Rightarrow> Change \<Rightarrow> Tuple \<Rightarrow> bool" where
  "row_keyed r c t \<longleftrightarrow> cap_relationLane (tr_capabilities r) \<and> \<not> cap_crossKeyConflicts (tr_capabilities r) \<and>
     \<not> whole_relation_barrier r c \<and> change_tuple r c = Inr (Some t)"

definition short :: "Tuple \<Rightarrow> bool" where
  "short t \<longleftrightarrow> (\<forall>d\<in>set t. length (dat_bytes d) < 2 ^ 64)"

lemma hash_primary_key_Inr:
  "hash_primary_key r kind t cs h = Inr (Some k) \<Longrightarrow>
     k = sha256 (h @ concat (map value_bytes (map (\<lambda>c. let d = t ! nat (tc_sourceIndex c) in (dat_Kind d, dat_bytes d)) cs))) \<and>
     list_all (datum_present t) cs"
proof (induction cs arbitrary: h)
  case Nil
  then show ?case by (simp add: finishReplayHash_def)
next
  case (Cons c cs)
  let ?d = "t ! nat (tc_sourceIndex c)"
  have d: "datum_present t c" "hash_primary_key r kind t cs
       (writeReplayHashBytes (writeReplayHashInt h (uint (dat_Kind ?d))) (dat_bytes ?d)) = Inr (Some k)"
    using Cons.prems by (auto simp: Let_def res_simps split: if_splits)
  show ?case
    using Cons.IH [OF d(2)] d(1) by (simp add: writeReplayHashInt_def writeReplayHashBytes_def Let_def)
qed

lemma row_key:
  assumes "replayChangeKey (Some r) fp c = Inr (Some k)" "row_keyed r c t"
  shows "k = sha256 (row_preimage r fp t) \<and> list_all (datum_present t) (primaryKeyColumns r)"
proof -
  have "hash_primary_key r (ch_Kind c) t (primaryKeyColumns r) (lane_hasher fp) = Inr (Some k)"
    using assms by (auto simp: replayChangeKey_def replayChangeKeyWithOrderedLane_def row_keyed_def Let_def
        split: if_splits)
  from hash_primary_key_Inr [OF this] show ?thesis by (simp add: row_preimage_def row_values_def)
qed

lemma relation_key:
  assumes "replayChangeKey (Some r) fp c = Inr (Some k)"
    "\<not> cap_relationLane (tr_capabilities r) \<or> cap_crossKeyConflicts (tr_capabilities r) \<or> whole_relation_barrier r c"
  shows "k = sha256 (relation_preimage fp)"
  using assms
  by (auto simp: replayChangeKey_def replayChangeKeyWithOrderedLane_def res_simps Let_def
      replayRelationLaneKeyWithAdmission_def relation_preimage_def finishReplayHash_def split: if_splits option.splits)

lemma uint_kind_inj: "(word_of_int (uint (k :: byte)) :: u64) = word_of_int (uint k') \<Longrightarrow> k = k'"
proof -
  assume "(word_of_int (uint k) :: u64) = word_of_int (uint k')"
  then have "uint (word_of_int (uint k) :: u64) = uint (word_of_int (uint k') :: u64)" by simp
  moreover have "uint (word_of_int (uint b) :: u64) = uint b" for b :: byte
    unfolding uint_word_of_int
    by (rule mod_pos_pos_trivial [OF uint_ge_0 order.strict_trans [OF uint_lt2p]]) simp
  ultimately show ?thesis by (simp add: word_uint_eq_iff)
qed

lemma value_bytes_inj:
  assumes "value_bytes v @ r = value_bytes w @ r'" "length (snd v) < 2 ^ 64" "length (snd w) < 2 ^ 64"
  shows "v = w \<and> r = r'"
proof -
  obtain k b k' b' where vw: "v = (k, b)" "w = (k', b')" by (cases v, cases w)
  have "be64 (word_of_int (uint k)) = be64 (word_of_int (uint k'))"
    and *: "be64 (word_of_nat (length b)) @ b @ r = be64 (word_of_nat (length b')) @ b' @ r'"
    using assms(1) unfolding vw by (simp_all del: word_of_int_uint)
  then have "k = k'" using uint_kind_inj be64_inj by blast
  then show ?thesis using framed_inj [OF *] assms(2,3) vw by simp
qed

lemma values_bytes_inj:
  "length vs = length ws \<Longrightarrow> \<forall>v\<in>set vs \<union> set ws. length (snd v) < 2 ^ 64 \<Longrightarrow>
     concat (map value_bytes vs) = concat (map value_bytes ws) \<Longrightarrow> vs = ws"
proof (induction vs ws rule: list_induct2)
  case (Cons v vs w ws)
  have "value_bytes v @ concat (map value_bytes vs) = value_bytes w @ concat (map value_bytes ws)"
    using Cons.prems(2) by simp
  from value_bytes_inj [OF this] show ?case using Cons.IH Cons.prems(1) by simp
qed simp

lemma row_values_short:
  assumes "short t" "list_all (datum_present t) (primaryKeyColumns r)" "v \<in> set (row_values r t)"
  shows "length (snd v) < 2 ^ 64"
proof -
  obtain c where c: "c \<in> set (primaryKeyColumns r)"
      "v = (dat_Kind (t ! nat (tc_sourceIndex c)), dat_bytes (t ! nat (tc_sourceIndex c)))"
    using assms(3) by (auto simp: row_values_def Let_def)
  then have "t ! nat (tc_sourceIndex c) \<in> set t"
    using assms(2) by (intro nth_mem) (auto simp: list_all_iff datum_present_def in_range_def)
  then show ?thesis using assms(1) c(2) by (auto simp: short_def)
qed

lemma row_preimage_inj:
  assumes "short t" "short t'" "list_all (datum_present t) (primaryKeyColumns r)"
    "list_all (datum_present t') (primaryKeyColumns r)"
  shows "row_preimage r fp t = row_preimage r fp t' \<longleftrightarrow> row_values r t = row_values r t'"
proof
  assume "row_preimage r fp t = row_preimage r fp t'"
  then have "concat (map value_bytes (row_values r t)) = concat (map value_bytes (row_values r t'))"
    by (simp add: row_preimage_def)
  then show "row_values r t = row_values r t'"
    using row_values_short [OF assms(1,3)] row_values_short [OF assms(2,4)]
    by (intro values_bytes_inj) (blast | simp add: row_values_def)+
qed (simp add: row_preimage_def)

lemma lane_labels_differ: "row_preimage r fp t \<noteq> relation_preimage fp"
proof
  assume "row_preimage r fp t = relation_preimage fp"
  then have "take 8 (row_preimage r fp t) = take 8 (relation_preimage fp)" by simp
  then have "be64 (word_of_nat (length ''pgmigrate-replay-lane-v1'')) =
      be64 (word_of_nat (length ''pgmigrate-replay-relation-lane-v1''))"
    by (simp add: row_preimage_def relation_preimage_def lane_hasher_def newReplayClaimHasher_def
        writeReplayHashBytes_def)
  then show False by (simp add: be64_inj)
qed

section \<open>An example relation\<close>

definition shop_source :: Relation where
  "shop_source = \<lparr>rel_OID = 16400, rel_Namespace = ''public'', rel_Name = ''shop'', rel_ReplicaIdentity = 100,
     rel_Columns = [\<lparr>col_Name = ''id'', col_Type = 23, col_Flags = 1\<rparr>,
       \<lparr>col_Name = ''note'', col_Type = 25, col_Flags = 0\<rparr>]\<rparr>"

definition shop_id :: targetColumn where
  "shop_id = \<lparr>tc_name = ''id'', tc_quoted = ''id'', tc_oid = 23, tc_arrayOID = 1007,
     tc_nondeterministicCollation = False, tc_key = True, tc_primary = True, tc_primaryPos = 1,
     tc_replayKeySafe = True, tc_lanePayloadTextOnly = False, tc_identity = [], tc_sourceIndex = 0,
     tc_generated = False, tc_notNull = True, tc_conflicting = True\<rparr>"

definition shop_note :: targetColumn where
  "shop_note = \<lparr>tc_name = ''note'', tc_quoted = ''note'', tc_oid = 25, tc_arrayOID = 1009,
     tc_nondeterministicCollation = False, tc_key = False, tc_primary = False, tc_primaryPos = 0,
     tc_replayKeySafe = False, tc_lanePayloadTextOnly = False, tc_identity = [], tc_sourceIndex = 1,
     tc_generated = False, tc_notNull = False, tc_conflicting = False\<rparr>"

definition shop_target :: targetRelation where
  "shop_target = \<lparr>tr_source = shop_source, tr_quoted = ''shop'', tr_heapBytes = 0, tr_heapBlocksRead = 0,
     tr_heapBlocksHit = 0, tr_columns = [shop_id, shop_note], tr_mappedColumns = [shop_id, shop_note],
     tr_generatedColumns = [], tr_overrideIdentity = False,
     tr_capabilities = \<lparr>cap_relationLane = True, cap_relationOrderedLane = True, cap_relationOrderedLaneV4 = True,
       cap_relationOrderedLaneV3 = True, cap_primaryKeyArbiter = True, cap_keyedSetDML = True,
       cap_binaryCopy = True, cap_textCopyStage = True, cap_selectiveUpdates = True, cap_crossKeyConflicts = False\<rparr>\<rparr>"

definition shop_row :: "byte \<Rightarrow> Tuple" where
  "shop_row v = [\<lparr>dat_Kind = DatumText, dat_Data = Some [v]\<rparr>, \<lparr>dat_Kind = DatumText, dat_Data = Some [120]\<rparr>]"

definition shop_insert :: "byte \<Rightarrow> Change" where
  "shop_insert v = \<lparr>ch_RelationOID = 16400, ch_Kind = ChangeInsert, ch_Old = None, ch_New = Some (shop_row v),
     ch_TruncateCascade = False, ch_TruncateRestartIdentity = False\<rparr>"

definition shop_update :: "byte \<Rightarrow> byte \<Rightarrow> Change" where
  "shop_update old v = \<lparr>ch_RelationOID = 16400, ch_Kind = ChangeUpdate, ch_Old = Some (shop_row old),
     ch_New = Some (shop_row v), ch_TruncateCascade = False, ch_TruncateRestartIdentity = False\<rparr>"

lemma shop_target_sel: "tr_source shop_target = shop_source" "tr_columns shop_target = [shop_id, shop_note]"
    "cap_relationLane (tr_capabilities shop_target)" "cap_relationOrderedLane (tr_capabilities shop_target)"
    "cap_keyedSetDML (tr_capabilities shop_target)" "\<not> cap_crossKeyConflicts (tr_capabilities shop_target)"
  by (simp_all add: shop_target_def)

lemmas shop_defs = shop_source_def shop_id_def shop_note_def shop_target_sel shop_row_def shop_insert_def shop_update_def

lemma shop_primary: "primaryKeyColumns shop_target = [shop_id]"
  by (simp add: primaryKeyColumns_def shop_defs)

lemma shop_insert_key:
  "replayChangeKey (Some shop_target) fp (shop_insert v) = Inr (Some (sha256 (row_preimage shop_target fp (shop_row v))))"
  "row_keyed shop_target (shop_insert v) (shop_row v)"
  by (simp_all add: replayChangeKey_def replayChangeKeyWithOrderedLane_def replayLanePayloadSafe_def shop_primary
      change_tuple_def validateTuple_def whole_relation_barrier_def datum_present_def in_range_def
      replayKeyDatumSafe_def replayKeyTargetTypeSafe_def datumParamForColumn_def finishReplayHash_def row_preimage_def
      row_values_def writeReplayHashInt_def writeReplayHashBytes_def Let_def row_keyed_def dat_bytes_def shop_defs)

lemma shop_update_keyed:
  "row_keyed shop_target (shop_update v v) (shop_row v)"
  "old \<noteq> v \<Longrightarrow> whole_relation_barrier shop_target (shop_update old v)"
  by (simp_all add: row_keyed_def whole_relation_barrier_def canShardUpdateByPrimaryKey_def shop_primary
      change_tuple_def validateTuple_def datum_present_def in_range_def tupleDatumEqual_def Let_def dat_bytes_def shop_defs)

lemma shop_update_same_key:
  "replayChangeKey (Some shop_target) fp (shop_update v v) = Inr (Some (sha256 (row_preimage shop_target fp (shop_row v))))"
  using shop_update_keyed(1) [of v]
  by (simp add: replayChangeKey_def replayChangeKeyWithOrderedLane_def replayLanePayloadSafe_def shop_primary
      row_keyed_def whole_relation_barrier_def datum_present_def in_range_def
      replayKeyDatumSafe_def replayKeyTargetTypeSafe_def datumParamForColumn_def finishReplayHash_def row_preimage_def
      row_values_def writeReplayHashInt_def writeReplayHashBytes_def Let_def dat_bytes_def shop_defs)

lemma shop_update_other_key:
  assumes "old \<noteq> v"
  shows "replayChangeKey (Some shop_target) fp (shop_update old v) = Inr (Some (sha256 (relation_preimage fp)))"
proof -
  have "replayLanePayloadSafe shop_target (shop_update old v)"
      "change_tuple shop_target (shop_update old v) = Inr (Some (shop_row v))"
    by (simp_all add: replayLanePayloadSafe_def change_tuple_def validateTuple_def Let_def shop_defs)
  moreover have "tc_replayKeySafe shop_id" by (simp add: shop_id_def)
  ultimately show ?thesis using shop_update_keyed(2) [OF assms]
    by (simp add: replayChangeKey_def replayChangeKeyWithOrderedLane_def shop_primary shop_target_sel Let_def
        replayRelationLaneKeyWithAdmission_def relation_preimage_def finishReplayHash_def)
qed

lemma shop_row_short: "short (shop_row v)"
  by (simp add: short_def shop_row_def dat_bytes_def)

section \<open>Properties\<close>

text \<open>C17: Two changes of one relation that are keyed by their rows (inserts, deletes and updates that
  keep the primary key) get the SHA-256 of byte strings that are equal exactly when the rows have
  the same primary key values. Changes of one row therefore always share a dependency, whatever
  their kinds, and changes of different rows share one only if SHA-256 collides.\<close>

theorem row_key_identifies_row:
  assumes "replayChangeKey (Some r) fp c = Inr (Some k)" "row_keyed r c t" "short t"
    and "replayChangeKey (Some r) fp c' = Inr (Some k')" "row_keyed r c' t'" "short t'"
  shows "k = sha256 (row_preimage r fp t) \<and> k' = sha256 (row_preimage r fp t') \<and>
    (row_preimage r fp t = row_preimage r fp t' \<longleftrightarrow> row_values r t = row_values r t')"
  using row_key [OF assms(1,2)] row_key [OF assms(4,5)] row_preimage_inj [OF assms(3,6)] by blast

theorem row_key_identifies_row_witness:
  "replayChangeKey (Some shop_target) [] (shop_insert 49) = replayChangeKey (Some shop_target) [] (shop_update 49 49) \<and>
   row_preimage shop_target [] (shop_row 49) \<noteq> row_preimage shop_target [] (shop_row 50)"
proof -
  have "row_values shop_target (shop_row 49) \<noteq> row_values shop_target (shop_row 50)"
    by (simp add: row_values_def shop_primary Let_def shop_defs dat_bytes_def)
  then show ?thesis
    using row_key_identifies_row [OF shop_insert_key shop_row_short shop_insert_key shop_row_short, of "[]" 49 50]
      shop_insert_key(1) shop_update_same_key by simp
qed

text \<open>An update that changes its primary key is hashed as a write of the whole relation, from
  bytes no row of the relation hashes; so, unless SHA-256 collides, it shares no dependency key with
  the row-keyed changes of the same relation, although it touches two of their rows.\<close>

theorem key_change_not_linked_to_rows:
  assumes "replayChangeKey (Some r) fp c = Inr (Some k)" "whole_relation_barrier r c"
    and "replayChangeKey (Some r) fp c' = Inr (Some k')" "row_keyed r c' t'"
  shows "k = sha256 (relation_preimage fp) \<and> k' = sha256 (row_preimage r fp t') \<and>
    row_preimage r fp t' \<noteq> relation_preimage fp"
  using relation_key [OF assms(1)] row_key [OF assms(3,4)] lane_labels_differ assms(2) by blast

theorem key_change_not_linked_to_rows_witness:
  "replayChangeKey (Some shop_target) [] (shop_update 49 50) = Inr (Some (sha256 (relation_preimage []))) \<and>
   replayChangeKey (Some shop_target) [] (shop_update 50 50) = Inr (Some (sha256 (row_preimage shop_target [] (shop_row 50)))) \<and>
   row_preimage shop_target [] (shop_row 50) \<noteq> relation_preimage []"
  using key_change_not_linked_to_rows [OF shop_update_other_key [of 49 50] shop_update_keyed(2) [of 49 50]
      shop_update_same_key shop_update_keyed(1), of "[]" 50] shop_update_other_key [of 49 50] shop_update_same_key
  by simp

end
