(* ===== verification/ReplayPlanProps.thy ===== *)
theory ReplayPlanProps
  imports ReplayPlanTotal ReplayKeys
begin

text \<open>
  The properties of replay plans: what the executor may rely on when it replays the lanes of a
  step concurrently and the steps one after the other.
\<close>

section \<open>Consequences of the specification\<close>

definition step_transactions :: "replayPlanStep \<Rightarrow> nat list" where
  "step_transactions s = (if st_SerialTransaction s \<ge> 0 then [nat (st_SerialTransaction s)]
     else concat (map ln_TransactionIndexes (st_Lanes s)))"

lemma upt_split:
  assumes "a \<le> (c :: nat)"
  shows "[0..<c] = [0..<a] @ [a..<c]"
proof -
  have "[0..<a + (c - a)] = [0..<a] @ [a..<a + (c - a)]" by (rule upt_add_eq_append) simp
  then show ?thesis using assms by simp
qed

lemma mset_filter_disjoint:
  "(\<And>x. x \<in> set xs \<Longrightarrow> \<not> (P x \<and> Q x)) \<Longrightarrow>
     mset (filter P xs) + mset (filter Q xs) = mset (filter (\<lambda>x. P x \<or> Q x) xs)"
  by (induction xs) auto

lemma mset_concat_filters:
  "distinct ks \<Longrightarrow> mset (concat (map (\<lambda>k. filter (\<lambda>x. f x = k) xs) ks)) = mset (filter (\<lambda>x. f x \<in> set ks) xs)"
proof (induction ks)
  case (Cons k ks)
  have "mset (filter (\<lambda>x. f x = k) xs) + mset (filter (\<lambda>x. f x \<in> set ks) xs) =
      mset (filter (\<lambda>x. f x = k \<or> f x \<in> set ks) xs)"
    by (rule mset_filter_disjoint) (use Cons.prems in auto)
  then show ?case using Cons by simp
qed simp

lemma block_lanes:
  assumes "parallel_block ver txs rels a c lanes"
  obtains lane where
    "\<And>l. l \<in> set lanes \<Longrightarrow> ln_TransactionIndexes l = filter (\<lambda>i. lane i = ln_Lane l) [a..<c]"
    "\<And>i. i \<in> {a..<c} \<Longrightarrow> lane i \<in> ln_Lane ` set lanes"
    "\<And>i j. i \<in> {a..<c} \<Longrightarrow> j \<in> {a..<c} \<Longrightarrow>
       tx_keys ver txs rels i \<inter> tx_keys ver txs rels j \<noteq> {} \<Longrightarrow> lane i = lane j"
  using assms unfolding parallel_block_def by blast

lemma block_mset:
  assumes "parallel_block ver txs rels a c lanes"
  shows "mset (concat (map ln_TransactionIndexes lanes)) = mset [a..<c]"
proof -
  obtain lane where l: "\<forall>l\<in>set lanes. ln_TransactionIndexes l = filter (\<lambda>i. lane i = ln_Lane l) [a..<c]"
      "\<forall>i\<in>{a..<c}. lane i \<in> ln_Lane ` set lanes" "sorted_wrt (<) (map ln_Lane lanes)"
    using assms unfolding parallel_block_def by blast
  have "map ln_TransactionIndexes lanes = map (\<lambda>k. filter (\<lambda>i. lane i = k) [a..<c]) (map ln_Lane lanes)"
    using l(1) by simp
  moreover have "distinct (map ln_Lane lanes)"
    using l(3) by (simp add: strict_sorted_iff)
  moreover have "filter (\<lambda>i. lane i \<in> set (map ln_Lane lanes)) [a..<c] = [a..<c]"
    using l(2) by (intro filter_True) simp
  ultimately show ?thesis using mset_concat_filters by metis
qed

lemma block_set: "parallel_block ver txs rels a c lanes \<Longrightarrow> set (concat (map ln_TransactionIndexes lanes)) = {a..<c}"
  using block_mset [of ver txs rels a c lanes] by (metis atLeastLessThan_upt set_mset_mset)

lemma covers_mset:
  "covers ver txs rels steps works n \<Longrightarrow> mset (concat (map step_transactions steps)) = mset [0..<n]"
proof (induction rule: covers.induct)
  case (parallel steps works a s c)
  have "[0..<c] = [0..<a] @ [a..<c]" using parallel.hyps(4) by (intro upt_split) simp
  then show ?case using parallel block_mset [OF parallel.hyps(5)] by (simp add: step_transactions_def)
qed (auto simp: step_transactions_def)

lemma covers_set:
  "covers ver txs rels steps works n \<Longrightarrow> s \<in> set steps \<Longrightarrow> i \<in> set (step_transactions s) \<Longrightarrow> i < n"
proof -
  assume "covers ver txs rels steps works n" "s \<in> set steps" "i \<in> set (step_transactions s)"
  then have "i \<in> set_mset (mset (concat (map step_transactions steps)))" by auto
  then show ?thesis using covers_mset [OF \<open>covers ver txs rels steps works n\<close>] by simp
qed

lemma covers_order:
  "covers ver txs rels steps works n \<Longrightarrow>
     sorted_wrt (\<lambda>s t. \<forall>i\<in>set (step_transactions s). \<forall>j\<in>set (step_transactions t). i < j) steps"
proof (induction rule: covers.induct)
  case (serial steps works a s w)
  then show ?case using covers_set [OF serial.hyps(1)]
    by (auto simp: sorted_wrt_append step_transactions_def)
next
  case (parallel steps works a s c)
  have "set (step_transactions s) = {a..<c}"
    using parallel.hyps block_set by (simp add: step_transactions_def)
  then show ?case using covers_set [OF parallel.hyps(1)] parallel.IH by (force simp: sorted_wrt_append)
qed simp

lemma covers_step:
  "covers ver txs rels steps works n \<Longrightarrow> s \<in> set steps \<Longrightarrow>
     (st_SerialTransaction s \<ge> 0 \<and> st_Lanes s = []) \<or>
     (st_SerialTransaction s = -1 \<and> (\<exists>a c. parallel_block ver txs rels a c (st_Lanes s)))"
  by (induction rule: covers.induct) auto

lemma sorted_upt_filter: "sorted_wrt (<) (filter P [a..<c])"
  by (simp add: sorted_wrt_filter)

section \<open>The manifest\<close>

lemma tx_changes_mset: "mset is = mset js \<Longrightarrow> tx_changes txs is = tx_changes txs js"
  unfolding tx_changes_def by (metis mset_map sum_mset_sum_list)

lemma tx_changes_append: "tx_changes txs (is @ js) = tx_changes txs is + tx_changes txs js"
  by (simp add: tx_changes_def)

lemma tx_changes_concat: "tx_changes txs (concat iss) = sum_list (map (tx_changes txs) iss)"
  by (induction iss) (auto simp: tx_changes_append tx_changes_def)

lemma tx_changes_nonneg: "0 \<le> tx_changes txs is"
  unfolding tx_changes_def by (rule sum_list_nonneg) auto

lemma sum_lengths: "int (length (concat xss)) = sum_list (map (\<lambda>xs. int (length xs)) xss)"
  by (induction xss) auto

lemma lane_works:
  assumes "parallel_block ver txs rels a c lanes" "\<forall>l\<in>set lanes. lane_work_ok k txs l"
  shows "sum_list (map wk_ExpectedTransactions (map ln_Work lanes)) = int (c - a)"
    "sum_list (map wk_ExpectedChanges (map ln_Work lanes)) = tx_changes txs [a..<c]"
    "manifest_rows (map ln_Work lanes)" "\<forall>w\<in>set (map ln_Work lanes). wk_Step w = int k"
proof -
  note m = block_mset [OF assms(1)]
  have l: "\<forall>l\<in>set lanes. ln_TransactionIndexes l \<noteq> []" "sorted_wrt (<) (map ln_Lane lanes)"
    using assms(1) unfolding parallel_block_def by blast+
  have w: "wk_Step (ln_Work l) = int k" "wk_Work (ln_Work l) = int (ln_Lane l)"
      "wk_Kind (ln_Work l) = replayWorkParallelLane" "wk_Lane (ln_Work l) = int (ln_Lane l)"
      "wk_ExpectedTransactions (ln_Work l) = int (length (ln_TransactionIndexes l))"
      "wk_ExpectedChanges (ln_Work l) = tx_changes txs (ln_TransactionIndexes l)" if "l \<in> set lanes" for l
    using assms(2) that by (simp_all add: lane_work_ok_def Let_def)
  have "map wk_ExpectedTransactions (map ln_Work lanes) = map (\<lambda>xs. int (length xs)) (map ln_TransactionIndexes lanes)"
    using w(5) by simp
  then have "sum_list (map wk_ExpectedTransactions (map ln_Work lanes)) =
      int (length (concat (map ln_TransactionIndexes lanes)))"
    by (simp only: sum_lengths)
  also have "\<dots> = int (size (mset (concat (map ln_TransactionIndexes lanes))))" by (simp only: size_mset)
  also have "\<dots> = int (c - a)" unfolding m by simp
  finally show "sum_list (map wk_ExpectedTransactions (map ln_Work lanes)) = int (c - a)" .
  have "map wk_ExpectedChanges (map ln_Work lanes) = map (tx_changes txs) (map ln_TransactionIndexes lanes)"
    using w(6) by simp
  then show "sum_list (map wk_ExpectedChanges (map ln_Work lanes)) = tx_changes txs [a..<c]"
    using tx_changes_mset [OF m, of txs] by (simp only: tx_changes_concat)
  have "row_ok (ln_Work l)" if "l \<in> set lanes" for l
    using w [OF that] l(1) that by (auto simp: row_ok_def tx_changes_nonneg)
  moreover have "sorted_wrt (\<lambda>v w. key_less (work_key v) (work_key w)) (map ln_Work lanes)"
    unfolding sorted_wrt_map
    by (rule sorted_wrt_mono_rel [OF _ l(2) [unfolded sorted_wrt_map]])
      (use w in \<open>auto simp: key_less_def work_key_def\<close>)
  ultimately show "manifest_rows (map ln_Work lanes)" by (auto simp: manifest_rows_def)
  show "\<forall>w\<in>set (map ln_Work lanes). wk_Step w = int k" using w by auto
qed

lemma manifest_rows_append:
  assumes "manifest_rows vs" "manifest_rows ws" "\<forall>v\<in>set vs. wk_Step v < k" "\<forall>w\<in>set ws. wk_Step w = k"
  shows "manifest_rows (vs @ ws)"
  using assms by (auto simp: manifest_rows_def sorted_wrt_append key_less_def work_key_def)

lemma covers_works:
  "covers ver txs rels steps works n \<Longrightarrow>
     manifest_rows works \<and> (\<forall>w\<in>set works. wk_Step w < int (length steps)) \<and>
     sum_list (map wk_ExpectedTransactions works) = int n \<and>
     sum_list (map wk_ExpectedChanges works) = tx_changes txs [0..<n]"
proof (induction rule: covers.induct)
  case none
  then show ?case by (simp add: manifest_rows_def tx_changes_def)
next
  case (serial steps works a s w)
  have w: "manifest_rows [w]" "\<forall>v\<in>set [w]. wk_Step v = int (length steps)"
      "wk_ExpectedTransactions w = 1" "wk_ExpectedChanges w = uint (ChangeCount (txs ! a))"
    using serial.hyps(5) by (simp_all add: serial_work_ok_def manifest_rows_def row_ok_def)
  then have "manifest_rows (works @ [w])"
    using manifest_rows_append [of works "[w]" "int (length steps)"] serial.IH by simp
  then show ?case using serial.IH w by (auto simp: tx_changes_def)
next
  case (parallel steps works a s c)
  note l = lane_works [OF parallel.hyps(5,6)]
  have "manifest_rows (works @ map ln_Work (st_Lanes s))"
    using manifest_rows_append [OF _ l(3) _ l(4)] parallel.IH by simp
  moreover have "[0..<c] = [0..<a] @ [a..<c]" using parallel.hyps(4) by (intro upt_split) simp
  ultimately show ?case using parallel.IH parallel.hyps(4) l by (auto simp: tx_changes_append)
qed

lemma build_claim:
  assumes "buildReplayPlanForGenerationVersion s g g0 lsn lanes txs rels ver = Inr plan"
  shows "s \<noteq> [] \<and> g \<noteq> [] \<and> g0 \<noteq> [] \<and> cl_StreamID (pl_Claim plan) = s \<and> cl_Generation (pl_Claim plan) = g \<and>
     cl_StartGeneration (pl_Claim plan) = g0 \<and>
     cl_FenceGeneration (pl_Claim plan) = replayFenceGeneration g (cl_ID (pl_Claim plan)) \<and>
     cl_ID (pl_Claim plan) = replayClaimID (cl_Digest (pl_Claim plan)) \<and> length (cl_Digest (pl_Claim plan)) = 32 \<and>
     cl_ExpectedWork (pl_Claim plan) = int (length (pl_Works plan)) \<and>
     cl_Transactions (pl_Claim plan) = int (length txs) \<and>
     cl_Changes (pl_Claim plan) = sum_list (map (\<lambda>tx. uint (ChangeCount tx)) txs) \<and>
     cl_StartLSN (pl_Claim plan) = lsn \<and> cl_EndLSN (pl_Claim plan) = tx_EndLSN (last txs)"
  using assms
  by (auto simp: buildReplayPlanForGenerationVersion_def replayPlanDigest_def res_simps Let_def split: if_splits)

lemma replayClaimID_nonempty: "length d = 32 \<Longrightarrow> replayClaimID d \<noteq> []"
  by (simp add: length_replayClaimID flip: length_0_conv)

lemma tx_changes_all: "tx_changes txs [0..<length txs] = sum_list (map (\<lambda>tx. uint (ChangeCount tx)) txs)"
proof -
  have "map (\<lambda>i. uint (ChangeCount (txs ! i))) [0..<length txs] = map (\<lambda>tx. uint (ChangeCount tx)) txs"
    by (rule nth_equalityI) auto
  then show ?thesis by (simp only: tx_changes_def)
qed

lemma build_manifest:
  assumes "buildReplayPlanForGenerationVersion s g g0 lsn lanes txs rels ver = Inr plan"
  shows "validateReplayClaimManifest (pl_Claim plan) (pl_Works plan) = Inr () \<longleftrightarrow>
    cl_FenceGeneration (pl_Claim plan) \<noteq> g0"
proof -
  note c = build_claim [OF assms]
  have "covers ver txs rels (pl_Steps plan) (pl_Works plan) (length txs)" using build_covers [OF assms] by blast
  from covers_works [OF this] show ?thesis
    using c replayClaimID_nonempty by (auto simp: validate_manifest_iff fence_ok_def tx_changes_all)
qed

lemma rbind_ok: "(\<exists>y. rbind r (\<lambda>x. Inr (f x)) = Inr y) \<longleftrightarrow> (\<exists>x. r = Inr x)"
  by (auto simp: rbind_eq_Inr)

lemma build_total:
  assumes "2 \<le> ver" "ver \<le> 5" "s \<noteq> []" "g \<noteq> []" "g0 \<noteq> []" "1 \<le> lanes" "txs \<noteq> []" "plannable ver txs rels"
  shows "\<exists>plan. buildReplayPlanForGenerationVersion s g g0 lsn lanes txs rels ver = Inr plan"
proof -
  have len: "length rels = length txs" using assms(8) by (simp add: plannable_def)
  have "epoch_known txs rels plan_start" by (simp add: epoch_known_def plan_start_def)
  then obtain st where st: "plan_transactions ver lanes txs rels [0..<length txs] plan_start = Inr st"
    using plan_transactions_any [OF assms(8,6) plan_inv_start] by auto
  then have "covers ver txs rels (pn_Steps st) (pn_Works st) (length txs)"
    using plan_transactions_inv [OF _ plan_inv_start assms(6)] by auto
  note works = covers_works [OF this]
  have "\<forall>tx\<in>set txs. storable tx"
    using assms(8) by (auto simp: plannable_def in_set_conv_nth)
  then have digest: "\<exists>d. replayPlanDigest claim txs works = Inr d" for claim works
    unfolding replayPlanDigest_def Let_def using hash_plan_transactions_any [of txs]
    by (auto simp: rbind_ok)
  show ?thesis
    using assms(1-7) st works len digest
    by (simp add: buildReplayPlanForGenerationVersion_def replayClaimMinimumPlanVersion_def
        replayClaimPlanVersion_def replayPlanWorkChanges_def replayPlanWorkTransactions_def
        tx_changes_all Let_def rbind_ok)
qed

section \<open>Order of conflicting transactions\<close>

text \<open>\<open>replayed_before plan i j\<close>: transaction \<open>i\<close> is in an earlier step than \<open>j\<close>, or
  before it in the same lane.\<close>

definition replayed_before :: "replayPlan \<Rightarrow> nat \<Rightarrow> nat \<Rightarrow> bool" where
  "replayed_before plan i j \<longleftrightarrow>
     (\<exists>p q. p < q \<and> q < length (pl_Steps plan) \<and> i \<in> set (step_transactions (pl_Steps plan ! p)) \<and>
        j \<in> set (step_transactions (pl_Steps plan ! q))) \<or>
     (\<exists>s\<in>set (pl_Steps plan). \<exists>l\<in>set (st_Lanes s). \<exists>xs ys zs.
        ln_TransactionIndexes l = xs @ [i] @ ys @ [j] @ zs)"

lemma sorted_pair_split:
  assumes "sorted_wrt (<) is" "i \<in> set is" "j \<in> set is" "i < (j :: nat)"
  obtains xs ys zs where "is = xs @ [i] @ ys @ [j] @ zs"
proof -
  obtain xs r where r: "is = xs @ i # r" using assms(2) split_list by fast
  have "j \<notin> set xs" using assms(1,4) r by (auto simp: sorted_wrt_append)
  then have "j \<in> set r" using assms(3,4) r by auto
  then obtain ys zs where "r = ys @ j # zs" using split_list by fast
  then show ?thesis using that r by simp
qed

lemma covers_ordered:
  assumes "covers ver txs rels (pl_Steps plan) works n" "i < j" "j < n"
    and "tx_keys ver txs rels i \<inter> tx_keys ver txs rels j \<noteq> {}"
  shows "replayed_before plan i j"
proof -
  let ?steps = "pl_Steps plan"
  have mem: "\<exists>p<length ?steps. k \<in> set (step_transactions (?steps ! p))" if "k < n" for k
  proof -
    have "k \<in> set_mset (mset (concat (map step_transactions ?steps)))"
      using covers_mset [OF assms(1)] that by simp
    then obtain s where "s \<in> set ?steps" "k \<in> set (step_transactions s)" by auto
    then show ?thesis by (metis in_set_conv_nth)
  qed
  obtain p q where p: "p < length ?steps" "i \<in> set (step_transactions (?steps ! p))"
    and q: "q < length ?steps" "j \<in> set (step_transactions (?steps ! q))"
    using mem [of i] mem [of j] assms(2,3) by auto
  note order = sorted_wrt_nth_less [OF covers_order [OF assms(1)]]
  have "\<not> q < p" using order [of q p] p q assms(2) by fastforce
  then consider "p < q" | "p = q" by linarith
  then show ?thesis
  proof cases
    case 1
    then show ?thesis using p q unfolding replayed_before_def by blast
  next
    case 2
    let ?s = "?steps ! p"
    have s: "?s \<in> set ?steps" using p(1) by simp
    have "\<not> st_SerialTransaction ?s \<ge> 0"
      using p(2) q(2) 2 assms(2) by (auto simp: step_transactions_def)
    then obtain a c where b: "parallel_block ver txs rels a c (st_Lanes ?s)"
      using covers_step [OF assms(1) s] by blast
    obtain lane where lane:
        "\<And>l. l \<in> set (st_Lanes ?s) \<Longrightarrow> ln_TransactionIndexes l = filter (\<lambda>i. lane i = ln_Lane l) [a..<c]"
        "\<And>i. i \<in> {a..<c} \<Longrightarrow> lane i \<in> ln_Lane ` set (st_Lanes ?s)"
        "\<And>i j. i \<in> {a..<c} \<Longrightarrow> j \<in> {a..<c} \<Longrightarrow>
           tx_keys ver txs rels i \<inter> tx_keys ver txs rels j \<noteq> {} \<Longrightarrow> lane i = lane j"
      using block_lanes [OF b] by blast
    have ij: "i \<in> {a..<c}" "j \<in> {a..<c}"
      using p(2) q(2) 2 \<open>\<not> st_SerialTransaction ?s \<ge> 0\<close>
      unfolding block_set [OF b, symmetric] step_transactions_def by simp_all
    obtain l where l: "l \<in> set (st_Lanes ?s)" "lane i = ln_Lane l" using lane(2) [OF ij(1)] by blast
    have "lane i = lane j" using lane(3) [OF ij assms(4)] .
    then have "i \<in> set (ln_TransactionIndexes l)" "j \<in> set (ln_TransactionIndexes l)"
      using lane(1) [OF l(1)] ij l(2) by auto
    moreover have "sorted_wrt (<) (ln_TransactionIndexes l)"
      unfolding lane(1) [OF l(1)] by (rule sorted_upt_filter)
    ultimately obtain xs ys zs where "ln_TransactionIndexes l = xs @ [i] @ ys @ [j] @ zs"
      using sorted_pair_split assms(2) by metis
    then show ?thesis using s l(1) unfolding replayed_before_def by blast
  qed
qed

section \<open>An example batch\<close>

definition shop_tx :: "u64 \<Rightarrow> Change list \<Rightarrow> Transaction" where
  "shop_tx lsn changes = \<lparr>tx_CommitLSN = lsn, tx_EndLSN = lsn + 8,
     tx_CommitTime = \<lparr>t_Unix = 1700000000, t_Nanosecond = 0\<rparr>, tx_Relations = [shop_source],
     tx_Changes = changes, tx_Spill = None\<rparr>"

definition shop_txs :: "Transaction list" where
  "shop_txs = [shop_tx 256 [shop_insert 49], shop_tx 512 [shop_insert 50], shop_tx 768 [shop_update 49 49]]"

definition shop_rels :: "resolved list" where
  "shop_rels = replicate 3 (\<lambda>oid. if oid = 16400 then Some shop_target else None)"

lemma shop_storable:
  assumes "c \<in> {shop_insert v, shop_update v w}"
  shows "storable (shop_tx lsn [c])"
proof -
  have "tx_Spill (shop_tx lsn [c]) = None" "ok_transaction (shop_tx lsn [c])"
      "length (wire_transaction payloadVersion (shop_tx lsn [c])) \<le> maxPayloadSize"
    using assms by (auto simp: shop_tx_def shop_source_def shop_insert_def shop_update_def shop_row_def ok_transaction_def
      ok_relation_def ok_column_def ok_change_def ok_datum_def valid_kind_def too_large_def
      max_u32_def maxPayloadSize_def wire_transaction_def length_wire_header wire_relation_def wire_column_def
      wire_change_def wire_datum_def wire_bytes_def dat_bytes_def payloadVersion_def wire_list_def)
  then show ?thesis by (simp add: storable_def is_ok_iff WriteTransaction_resident)
qed

lemma shop_change_keys:
  assumes "i < 3"
  shows "change_key 5 shop_rels i (shop_insert v) =
      Inr (Some (sha256 (row_preimage shop_target (Fp 5 (Some shop_target)) (shop_row v))))"
    "change_key 5 shop_rels i (shop_update v v) =
      Inr (Some (sha256 (row_preimage shop_target (Fp 5 (Some shop_target)) (shop_row v))))"
proof -
  have "(shop_rels ! i) 16400 = Some shop_target" using assms by (simp add: shop_rels_def)
  then show "change_key 5 shop_rels i (shop_insert v) =
      Inr (Some (sha256 (row_preimage shop_target (Fp 5 (Some shop_target)) (shop_row v))))"
    "change_key 5 shop_rels i (shop_update v v) =
      Inr (Some (sha256 (row_preimage shop_target (Fp 5 (Some shop_target)) (shop_row v))))"
    using shop_insert_key(1) shop_update_same_key
    by (simp_all add: change_key_def Let_def replayChangeKeyForVersion_def shop_insert_def shop_update_def)
qed

lemma shop_plannable: "plannable 5 shop_txs shop_rels"
proof -
  have i: "i = 0 \<or> i = 1 \<or> i = 2" if "i < length shop_txs" for i using that by (auto simp: shop_txs_def)
  have "storable (shop_txs ! i)" if "i < length shop_txs" for i
    using i [OF that] shop_storable [of "shop_insert 49" 49] shop_storable [of "shop_insert 50" 50]
      shop_storable [of "shop_update 49 49" 49 49] by (auto simp: shop_txs_def)
  moreover have "resolves (shop_rels ! i) (tx_Relations (shop_txs ! i))" if "i < length shop_txs" for i
    using i [OF that] by (auto simp: shop_txs_def shop_tx_def shop_rels_def resolves_def shop_source_def)
  moreover have "is_ok (change_key 5 shop_rels i c)"
    if "i < length shop_txs" "c \<in> set (tx_Changes (shop_txs ! i))" for i c
  proof -
    have "i < 3" using that(1) by (simp add: shop_txs_def)
    moreover have "c \<in> {shop_insert 49, shop_insert 50, shop_update 49 49}"
      using i [OF that(1)] that(2) by (auto simp: shop_txs_def shop_tx_def)
    ultimately show ?thesis using shop_change_keys by auto
  qed
  moreover have "length shop_rels = length shop_txs" by (simp add: shop_rels_def shop_txs_def)
  ultimately show ?thesis by (simp add: plannable_def)
qed

lemma shop_plan:
  obtains plan where "buildReplayPlanForGenerationVersion ''s'' ''g'' ''g'' 0 4 shop_txs shop_rels 5 = Inr plan"
  using build_total [OF _ _ _ _ _ _ _ shop_plannable, of "''s''" "''g''" "''g''" 4 0] by (auto simp: shop_txs_def)

text \<open>One insert: the plan is one step with one lane.\<close>

definition shop_one :: "Transaction list" where
  "shop_one = [shop_tx 256 [shop_insert 49]]"

definition shop_res :: "resolved list" where
  "shop_res = [\<lambda>oid. if oid = 16400 then Some shop_target else None]"

lemma shop_one_key: "\<exists>k. replayChangeKey (Some shop_target) fp (shop_insert 49) = Inr (Some k)"
  using shop_insert_key(1) by blast

lemma shop_one_plan:
  obtains plan s where "buildReplayPlanForGenerationVersion ''s'' ''g'' ''g'' 0 4 shop_one shop_res 5 = Inr plan"
    "s \<in> set (pl_Steps plan)" "st_Lanes s \<noteq> []" "0 \<in> set (step_transactions s)"
proof -
  let ?fp = "Fp 5 (Some shop_target)"
  obtain k where k: "replayChangeKey (Some shop_target) ?fp (shop_insert 49) = Inr (Some k)"
    using shop_one_key by blast
  have "is_ok (change_key 5 shop_res 0 (shop_insert 49))"
    using k by (simp add: change_key_def shop_res_def replayChangeKeyForVersion_def shop_insert_def)
  then have "plannable 5 shop_one shop_res"
    using shop_storable [of "shop_insert 49" 49 _ 256]
    by (simp add: plannable_def shop_one_def shop_tx_def resolves_def shop_res_def shop_source_def)
  then obtain plan where p: "buildReplayPlanForGenerationVersion ''s'' ''g'' ''g'' 0 4 shop_one shop_res 5 = Inr plan"
    using build_total [of 5 "''s''" "''g''" "''g''" 4 shop_one shop_res 0] by (auto simp: shop_one_def)
  have c: "covers 5 shop_one shop_res (pl_Steps plan) (pl_Works plan) 1"
    using build_covers [OF p] by (simp add: shop_one_def)
  have oid: "ch_RelationOID (shop_insert 49) = 16400" "rel_OID shop_source = 16400"
    by (simp_all add: shop_insert_def shop_source_def)
  have "st_SerialTransaction s = -1" if "s \<in> set (pl_Steps plan)" for s
    using p that k oid
    by (auto simp: buildReplayPlanForGenerationVersion_def res_simps Let_def shop_one_def shop_tx_def shop_res_def
        plan_transaction_def fingerprintFor_def plan_start_def replayChangeKeyForVersion_def add_parallel_def
        flushParallel_def split: if_splits)
  moreover have "0 \<in> set_mset (mset (concat (map step_transactions (pl_Steps plan))))"
    using covers_mset [OF c] by simp
  then obtain s where s: "s \<in> set (pl_Steps plan)" "0 \<in> set (step_transactions s)" by auto
  ultimately have "st_Lanes s \<noteq> []" by (auto simp: step_transactions_def)
  then show ?thesis using that p s by blast
qed

section \<open>Properties\<close>

text \<open>C12: A plan replays every source transaction exactly once and whole: the transactions of its
  steps are a permutation of the batch, an earlier step holds only earlier transactions, and
  every lane lists its transactions in source order and their changes completely.\<close>

theorem plan_covers_each_transaction_once:
  assumes "buildReplayPlanForGenerationVersion streamID generation start startLSN laneCount txs rels ver = Inr plan"
  shows "mset (concat (map step_transactions (pl_Steps plan))) = mset [0..<length txs] \<and>
    sorted_wrt (\<lambda>s t. \<forall>i\<in>set (step_transactions s). \<forall>j\<in>set (step_transactions t). i < j) (pl_Steps plan) \<and>
    (\<forall>s\<in>set (pl_Steps plan). \<forall>l\<in>set (st_Lanes s). sorted_wrt (<) (ln_TransactionIndexes l) \<and>
       ln_Items l = concat (map (tx_items txs rels) (ln_TransactionIndexes l)))"
proof -
  have c: "covers ver txs rels (pl_Steps plan) (pl_Works plan) (length txs)"
    using build_covers [OF assms] by blast
  have "sorted_wrt (<) (ln_TransactionIndexes l) \<and> ln_Items l = concat (map (tx_items txs rels) (ln_TransactionIndexes l))"
    if sl: "s \<in> set (pl_Steps plan)" "l \<in> set (st_Lanes s)" for s l
  proof -
    obtain a c where "parallel_block ver txs rels a c (st_Lanes s)" using covers_step [OF c sl(1)] sl(2) by auto
    then obtain lane where "ln_TransactionIndexes l = filter (\<lambda>i. lane i = ln_Lane l) [a..<c] \<and>
        ln_Items l = concat (map (tx_items txs rels) (ln_TransactionIndexes l))"
      using sl(2) unfolding parallel_block_def by blast
    then show ?thesis using sorted_upt_filter by metis
  qed
  then show ?thesis using covers_mset [OF c] covers_order [OF c] by blast
qed

theorem plan_covers_each_transaction_once_witness:
  "\<exists>plan. buildReplayPlanForGenerationVersion ''s'' ''g'' ''g'' 0 4 shop_txs shop_rels 5 = Inr plan \<and>
     mset (concat (map step_transactions (pl_Steps plan))) = {#0, 1, 2#}"
proof -
  obtain plan where p: "buildReplayPlanForGenerationVersion ''s'' ''g'' ''g'' 0 4 shop_txs shop_rels 5 = Inr plan"
    using shop_plan .
  have "mset [0..<length shop_txs] = {#0, 1, 2#}" by (simp add: shop_txs_def upt_rec)
  then show ?thesis using plan_covers_each_transaction_once [OF p] p by auto
qed

text \<open>C11: Two transactions with changes of the same dependency key are never replayed concurrently
  and never out of order: the earlier one is in an earlier step, or before the later one in the same
  lane.\<close>

theorem conflicting_transactions_keep_order:
  assumes "buildReplayPlanForGenerationVersion streamID generation start startLSN laneCount txs rels ver = Inr plan"
    and "i < j" "j < length txs" "c \<in> set (tx_Changes (txs ! i))" "c' \<in> set (tx_Changes (txs ! j))"
    and "change_key ver rels i c = Inr (Some k)" "change_key ver rels j c' = Inr (Some k)"
  shows "replayed_before plan i j"
proof -
  have "covers ver txs rels (pl_Steps plan) (pl_Works plan) (length txs)"
    using build_covers [OF assms(1)] by blast
  moreover have "tx_keys ver txs rels i \<inter> tx_keys ver txs rels j \<noteq> {}"
    using assms(4-7) by (auto simp: tx_keys_def)
  ultimately show ?thesis using covers_ordered assms(2,3) by blast
qed

theorem conflicting_transactions_keep_order_witness:
  "\<exists>plan. buildReplayPlanForGenerationVersion ''s'' ''g'' ''g'' 0 4 shop_txs shop_rels 5 = Inr plan \<and>
     replayed_before plan 0 2"
proof -
  obtain plan where p: "buildReplayPlanForGenerationVersion ''s'' ''g'' ''g'' 0 4 shop_txs shop_rels 5 = Inr plan"
    using shop_plan .
  have "replayed_before plan 0 2"
    by (rule conflicting_transactions_keep_order [OF p _ _ _ _ shop_change_keys(1) shop_change_keys(2) [of _ 49]])
      (simp_all add: shop_txs_def shop_tx_def)
  then show ?thesis using p by blast
qed

text \<open>C13: In a step with lanes every transaction is resident, every change has a dependency key, and
  no relation definition changes: for every relation two of its transactions use, the target's
  fingerprint is the same.\<close>

theorem parallel_steps_are_uniform:
  assumes "buildReplayPlanForGenerationVersion streamID generation start startLSN laneCount txs rels ver = Inr plan"
    and "s \<in> set (pl_Steps plan)" "st_Lanes s \<noteq> []" "i \<in> set (step_transactions s)" "j \<in> set (step_transactions s)"
  shows "parallel_tx ver txs rels i \<and> same_definitions ver txs rels i j"
proof -
  have "covers ver txs rels (pl_Steps plan) (pl_Works plan) (length txs)"
    using build_covers [OF assms(1)] by blast
  then obtain a c where b: "parallel_block ver txs rels a c (st_Lanes s)" "\<not> 0 \<le> st_SerialTransaction s"
    using covers_step [OF _ assms(2)] assms(3) by fastforce
  then have "i \<in> {a..<c}" "j \<in> {a..<c}"
    using assms(4,5) unfolding block_set [OF b(1), symmetric] step_transactions_def by simp_all
  then show ?thesis using b(1) unfolding parallel_block_def by blast
qed

theorem parallel_steps_are_uniform_witness:
  "\<exists>plan. buildReplayPlanForGenerationVersion ''s'' ''g'' ''g'' 0 4 shop_one shop_res 5 = Inr plan \<and>
     parallel_tx 5 shop_one shop_res 0 \<and> same_definitions 5 shop_one shop_res 0 0"
proof -
  obtain plan s where p: "buildReplayPlanForGenerationVersion ''s'' ''g'' ''g'' 0 4 shop_one shop_res 5 = Inr plan"
      "s \<in> set (pl_Steps plan)" "st_Lanes s \<noteq> []" "0 \<in> set (step_transactions s)"
    using shop_one_plan .
  then show ?thesis using parallel_steps_are_uniform [OF p p(4)] by blast
qed

text \<open>C15: The claim of a plan is exactly described by its works: the manifest the planner builds passes
  the validation that \<^verbatim>\<open>ensureReplayClaim\<close> and \<^verbatim>\<open>finalizeReplayClaim\<close> apply
  (rows in unique step and work order, kinds and lanes consistent, transaction and change
  counts adding up to the claim's) unless the claim's fence is the generation it started from.\<close>

theorem plan_manifest_validates:
  assumes "buildReplayPlanForGenerationVersion streamID generation start startLSN laneCount txs rels ver = Inr plan"
  shows "validateReplayClaimManifest (pl_Claim plan) (pl_Works plan) = Inr () \<longleftrightarrow>
    cl_FenceGeneration (pl_Claim plan) \<noteq> start"
  by (rule build_manifest [OF assms])

theorem plan_manifest_validates_witness:
  "\<exists>plan. buildReplayPlanForGenerationVersion ''s'' ''g'' ''g'' 0 4 shop_txs shop_rels 5 = Inr plan \<and>
     validateReplayClaimManifest (pl_Claim plan) (pl_Works plan) = Inr ()"
proof -
  obtain plan where p: "buildReplayPlanForGenerationVersion ''s'' ''g'' ''g'' 0 4 shop_txs shop_rels 5 = Inr plan"
    using shop_plan .
  have "cl_FenceGeneration (pl_Claim plan) \<noteq> ''g''"
    using build_claim [OF p] by (simp add: replayFenceGeneration_def)
  then show ?thesis using plan_manifest_validates [OF p] p by blast
qed

text \<open>C14: The planner returns a plan for every well-formed batch (supported version, non-empty names,
  at least one lane, every relation resolved, every transaction encodable, no change that
  diverges from its relation): the recursion of its union-find ends, and none of its internal
  checks ever rejects a plan it built.\<close>

theorem planner_total:
  assumes "2 \<le> ver" "ver \<le> 5" "streamID \<noteq> []" "generation \<noteq> []" "start \<noteq> []" "1 \<le> laneCount" "txs \<noteq> []"
    and "plannable ver txs rels"
  shows "\<exists>plan. buildReplayPlanForGenerationVersion streamID generation start startLSN laneCount txs rels ver = Inr plan"
  by (rule build_total [OF assms])

theorem planner_total_witness:
  "\<exists>plan. buildReplayPlanForGenerationVersion ''s'' ''g'' ''g'' 7 32 shop_txs shop_rels 5 = Inr plan"
  by (rule planner_total [OF _ _ _ _ _ _ _ shop_plannable]) (simp_all add: shop_txs_def)

text \<open>C16: The components of the lane scheduler are the connected components of the epoch: after all
  keys have been united, two transactions have the same root exactly when a chain of transactions
  with common keys connects them.\<close>

theorem components_are_connected_components:
  assumes "unite_epoch 0 epoch (\<lambda>_. None, [0..<length epoch], replicate (length epoch) 0) = Inr (first, ps, ranks)"
    and "x < length epoch" "y < length epoch"
  shows "same ps x y \<longleftrightarrow> (x, y) \<in> (epoch_linked epoch)\<^sup>*"
proof -
  have "\<forall>t\<in>set epoch. rpt_keys t \<noteq> []"
  proof -
    have "unite_epoch i ts st = Inr st' \<Longrightarrow> \<forall>t\<in>set ts. rpt_keys t \<noteq> []" for i ts st st'
      by (induction i ts st rule: unite_epoch.induct) (auto simp: res_simps)
    then show ?thesis using assms(1) .
  qed
  then have "forest_inv (length epoch) (epoch_pairs 0 epoch) (first, ps, ranks)"
    using unite_epoch_inv [OF forest_inv_init [of "length epoch" "replicate (length epoch) 0"], of 0 epoch] assms(1)
    by auto
  from forest_inv_components [OF this assms(2,3)] show ?thesis by (simp add: linked_epoch_pairs)
qed

theorem components_are_connected_components_witness:
  "same [0, 0, 2] 0 1 \<longleftrightarrow> (0, 1) \<in> (epoch_linked [\<lparr>rpt_index = 4, rpt_keys = [[1]], rpt_items = []\<rparr>,
     \<lparr>rpt_index = 5, rpt_keys = [[2], [1]], rpt_items = []\<rparr>, \<lparr>rpt_index = 6, rpt_keys = [[3]], rpt_items = []\<rparr>])\<^sup>*"
proof -
  let ?e = "[\<lparr>rpt_index = 4, rpt_keys = [[1]], rpt_items = []\<rparr>,
     \<lparr>rpt_index = 5, rpt_keys = [[2], [1]], rpt_items = []\<rparr>, \<lparr>rpt_index = 6, rpt_keys = [[3 :: byte]], rpt_items = []\<rparr>]"
  have "\<exists>first. unite_epoch 0 ?e (\<lambda>_. None, [0..<length ?e], replicate (length ?e) 0) =
      Inr (first, [0, 0, 2], [1, 0, 0])"
    by (simp add: uf_union_def upt_rec numeral_eq_Suc)
  then obtain first where "unite_epoch 0 ?e (\<lambda>_. None, [0..<length ?e], replicate (length ?e) 0) =
      Inr (first, [0, 0, 2], [1, 0, 0])" by blast
  from components_are_connected_components [OF this, of 0 1] show ?thesis by simp
qed

end
