(* ===== verification/ReplayStore.thy ===== *)
theory ReplayStore
  imports ReplayClaim "HOL-Library.Product_Lexorder"
begin

text \<open>
  The durable replay state on the target (\<^verbatim>\<open>internal/cdc/replay_claim.go\<close>,
  \<^verbatim>\<open>internal/cdc/progress_identity.go\<close>) and the operations on it. The tables
  \<^verbatim>\<open>cdc_stream_identity\<close>, \<^verbatim>\<open>replication_progress\<close>,
  \<^verbatim>\<open>cdc_replay_claims\<close> and \<^verbatim>\<open>cdc_replay_claim_work\<close> are the fields
  of \<open>ReplayDB\<close>; every SQL statement of the code is translated to its effect on them.
  \<open>db_data\<close> is the rest of the target, which only the replayed changes modify; its type is a
  parameter.

  Every operation runs in one target transaction. The row locks the code takes (\<^verbatim>\<open>FOR
  UPDATE\<close>) make these transactions serialise on the rows they decide upon, so an operation is one
  step. A \<open>TxFault\<close> says how the connection behaves: \<open>TxFail\<close> loses the transaction
  before the commit, \<open>TxLost\<close> commits it but loses the acknowledgement, so the code sees an
  error for a committed transaction. The text form of \<^verbatim>\<open>pg_lsn\<close> is read back exactly and is not
  modelled.
\<close>

section \<open>Tables\<close>

record StreamIdentity =
  id_Base :: string
  id_Generation :: string
  id_ProgressStarted :: bool

record StreamProgress =
  pr_LSN :: LSN
  pr_Generation :: "string option"
  pr_Transactions :: int
  pr_Rows :: int

record 'd ReplayDB =
  db_identity :: "string \<Rightarrow> StreamIdentity option"
  db_progress :: "string \<Rightarrow> StreamProgress option"
  db_claims :: "replayClaim list"
  db_works :: "(string \<times> replayClaimWork) list"
  db_data :: 'd

datatype TxFault = TxOk | TxFail | TxLost

text \<open>The end of a transaction: an error of the code rolls back.\<close>

definition end_tx :: "TxFault \<Rightarrow> 'd ReplayDB \<Rightarrow> 'a res \<times> 'd ReplayDB \<Rightarrow> 'a res \<times> 'd ReplayDB" where
  "end_tx f db = (\<lambda>(r, db'). case r of
     Inl e \<Rightarrow> (Inl e, db)
   | Inr x \<Rightarrow> (case f of
       TxOk \<Rightarrow> (Inr x, db')
     | TxFail \<Rightarrow> (Inl (Err ''connection lost before commit''), db)
     | TxLost \<Rightarrow> (Inl (Err ''connection lost after commit''), db')))"

definition ErrMissingTargetProgress :: error where
  "ErrMissingTargetProgress = Err ''cdc: target progress is missing for an initialized stream''"

definition ErrStreamGenerationMismatch :: error where
  "ErrStreamGenerationMismatch = Err ''cdc: target stream generation does not match migration''"

section \<open>Reading claims and works\<close>

definition decodeReplayClaim :: "replayClaim \<Rightarrow> replayClaim res" where
  "decodeReplayClaim c =
     (if length (cl_Digest c) \<noteq> 32 \<or> length (cl_CatalogDigest c) \<noteq> 32
      then Inl (Err ''cdc: replay claim has an invalid digest length'')
      else if cl_PlanVersion c < replayClaimMinimumPlanVersion \<or> cl_PlanVersion c > replayClaimPlanVersion
      then Inl (Err ''cdc: unsupported replay claim plan version'')
      else if cl_StartGeneration c = [] \<or> cl_LaneCount c < 1 \<or> cl_ExpectedWork c < 0 \<or> cl_StartLSN c \<ge> cl_EndLSN c
      then Inl (Err ''cdc: replay claim has invalid bounds or counts'')
      else if cl_FenceGeneration c \<noteq> replayFenceGeneration (cl_Generation c) (cl_ID c)
      then Inl (Err ''cdc: replay claim fence does not match its immutable identity'')
      else if cl_FenceGeneration c = cl_StartGeneration c
      then Inl (Err ''cdc: replay claim reused its starting effective generation'')
      else Inr c)"

definition readReplayClaim :: "'d ReplayDB \<Rightarrow> string \<Rightarrow> replayClaim option res" where
  "readReplayClaim db streamID = (case List.find (\<lambda>c. cl_StreamID c = streamID) (db_claims db) of
     None \<Rightarrow> Inr None
   | Some row \<Rightarrow> rbind (decodeReplayClaim (row\<lparr>cl_WorkManifest := []\<rparr>)) (\<lambda>c. Inr (Some c)))"

definition claim_works :: "'d ReplayDB \<Rightarrow> string \<Rightarrow> replayClaimWork list" where
  "claim_works db claimID = map snd (filter (\<lambda>(id, w). id = claimID) (db_works db))"

definition readReplayClaimWorks :: "'d ReplayDB \<Rightarrow> string \<Rightarrow> replayClaimWork list res" where
  "readReplayClaimWorks db claimID =
     (let rows = sort_key work_key (claim_works db claimID) in
      if \<exists>w\<in>set rows. length (wk_Digest w) \<noteq> 32
      then Inl (Err ''cdc: replay work has an invalid digest length'')
      else Inr rows)"

section \<open>Creating a claim\<close>

text \<open>The constraints of the two tables.\<close>

definition claim_row_ok :: "'d ReplayDB \<Rightarrow> replayClaim \<Rightarrow> bool" where
  "claim_row_ok db c \<longleftrightarrow> (\<forall>c'\<in>set (db_claims db). cl_ID c' \<noteq> cl_ID c \<and> cl_StreamID c' \<noteq> cl_StreamID c) \<and>
     length (cl_Digest c) = 32 \<and> length (cl_CatalogDigest c) = 32 \<and> cl_PlanVersion c > 0 \<and>
     cl_LaneCount c > 0 \<and> cl_Transactions c \<ge> 0 \<and> cl_Changes c \<ge> 0 \<and> cl_ExpectedWork c \<ge> 0 \<and>
     cl_EndLSN c > cl_StartLSN c"

definition work_row_ok :: "(string \<times> replayClaimWork) list \<Rightarrow> string \<Rightarrow> replayClaimWork \<Rightarrow> bool" where
  "work_row_ok rows claimID w \<longleftrightarrow> (\<forall>(id, v)\<in>set rows. \<not> (id = claimID \<and> work_key v = work_key w)) \<and>
     wk_Step w \<ge> 0 \<and> wk_Work w \<ge> 0 \<and> wk_Kind w \<in> {replayWorkParallelLane, replayWorkSerial} \<and>
     wk_Lane w \<ge> -1 \<and> length (wk_Digest w) = 32 \<and> wk_ExpectedTransactions w \<ge> 0 \<and> wk_ExpectedChanges w \<ge> 0"

fun insert_works ::
  "string \<Rightarrow> replayClaimWork list \<Rightarrow> (string \<times> replayClaimWork) list \<Rightarrow> (string \<times> replayClaimWork) list res" where
  "insert_works claimID [] rows = Inr rows"
| "insert_works claimID (w # ws) rows =
     (if work_row_ok rows claimID w
      then insert_works claimID ws (rows @ [(claimID, w\<lparr>wk_CommittedAt := None\<rparr>)])
      else Inl (Err ''cdc: insert replay claim work''))"

text \<open>The progress row, locked; a missing one is created at LSN 0.\<close>

definition claim_progress :: "'d ReplayDB \<Rightarrow> replayClaim \<Rightarrow> (StreamProgress \<times> 'd ReplayDB) res" where
  "claim_progress db desired = (case db_progress db (cl_StreamID desired) of
     Some p \<Rightarrow> Inr (p, db)
   | None \<Rightarrow>
       if cl_StartLSN desired \<noteq> 0
       then Inl (Err ''cdc: replay claim starts later but target progress is missing'')
       else let p = \<lparr>pr_LSN = 0, pr_Generation = Some (cl_StartGeneration desired),
              pr_Transactions = 0, pr_Rows = 0\<rparr>
            in Inr (p, db\<lparr>db_progress := (db_progress db)(cl_StreamID desired \<mapsto> p)\<rparr>))"

definition fence_identity :: "'d ReplayDB \<Rightarrow> replayClaim \<Rightarrow> 'd ReplayDB res" where
  "fence_identity db c = (case db_identity db (cl_StreamID c) of
     Some i \<Rightarrow> if id_Base i = cl_Generation c \<and> id_Generation i = cl_StartGeneration c
       then Inr (db\<lparr>db_identity := (db_identity db)(cl_StreamID c \<mapsto>
              i\<lparr>id_Generation := cl_FenceGeneration c, id_ProgressStarted := True\<rparr>)\<rparr>)
       else Inl ErrStreamGenerationMismatch
   | None \<Rightarrow> Inl ErrStreamGenerationMismatch)"

definition resume_claim ::
  "'d ReplayDB \<Rightarrow> StreamIdentity \<Rightarrow> replayClaim \<Rightarrow> replayClaim \<Rightarrow> replayClaimWork list \<Rightarrow> replayClaim res" where
  "resume_claim db ident existing desired works =
     (if id_Generation ident \<noteq> cl_FenceGeneration existing then Inl ErrStreamGenerationMismatch
      else rbind (readReplayClaimWorks db (cl_ID existing)) (\<lambda>stored.
        rbind (validateReplayClaim existing stored
          (desired\<lparr>cl_WorkManifest := cloneReplayWorkManifest works\<rparr>) works) (\<lambda>_.
        Inr (existing\<lparr>cl_WorkManifest := cloneReplayWorkManifest works\<rparr>))))"

definition create_claim ::
  "'d ReplayDB \<Rightarrow> StreamIdentity \<Rightarrow> replayClaim \<Rightarrow> replayClaimWork list \<Rightarrow> (replayClaim \<times> 'd ReplayDB) res" where
  "create_claim db ident desired works =
     (if cl_ID desired = [] then Inl (Err ''cdc: proposed replay claim identity is invalid'')
      else let expected = replayFenceGeneration (cl_Generation desired) (cl_ID desired);
               desired = (if cl_FenceGeneration desired = [] then desired\<lparr>cl_FenceGeneration := expected\<rparr> else desired) in
        if cl_FenceGeneration desired \<noteq> expected \<or> cl_FenceGeneration desired = id_Generation ident \<or>
           cl_StartGeneration desired \<noteq> id_Generation ident
        then Inl (Err ''cdc: proposed replay claim fence is invalid or already effective'')
        else let desired = desired\<lparr>cl_WorkManifest := cloneReplayWorkManifest works\<rparr> in
        rbind (validateReplayClaimManifest desired works) (\<lambda>_.
        rbind (claim_progress db desired) (\<lambda>(p, db).
        if pr_LSN p \<noteq> cl_StartLSN desired \<or> pr_Generation p \<noteq> Some (cl_StartGeneration desired)
        then Inl (Err ''cdc: replay claim start mismatch'')
        else if \<not> claim_row_ok db desired then Inl (Err ''cdc: insert replay claim'')
        else let db = db\<lparr>db_claims := db_claims db @ [desired]\<rparr> in
          rbind (insert_works (cl_ID desired) works (db_works db)) (\<lambda>rows.
          rbind (fence_identity (db\<lparr>db_works := rows\<rparr>) desired) (\<lambda>db.
          Inr (desired, db))))))"

definition ensureReplayClaim ::
  "TxFault \<Rightarrow> 'd ReplayDB \<Rightarrow> replayClaim \<Rightarrow> replayClaimWork list \<Rightarrow> replayClaim res \<times> 'd ReplayDB" where
  "ensureReplayClaim f db desired works = end_tx f db
     (case db_identity db (cl_StreamID desired) of
        None \<Rightarrow> (Inl (Err ''cdc: lock replay stream identity''), db)
      | Some ident \<Rightarrow>
          if id_Base ident \<noteq> cl_Generation desired then (Inl ErrStreamGenerationMismatch, db)
          else (case readReplayClaim db (cl_StreamID desired) of
              Inl e \<Rightarrow> (Inl e, db)
            | Inr (Some existing) \<Rightarrow> (resume_claim db ident existing desired works, db)
            | Inr None \<Rightarrow> (case create_claim db ident desired works of
                Inl e \<Rightarrow> (Inl e, db)
              | Inr (c, db') \<Rightarrow> (Inr c, db'))))"

section \<open>Executing works\<close>

text \<open>The join of the work, its claim and the identity in the \<^verbatim>\<open>SELECT ... FOR UPDATE\<close> statements.\<close>

definition claim_live :: "'d ReplayDB \<Rightarrow> replayClaim \<Rightarrow> bool" where
  "claim_live db claim \<longleftrightarrow> (case List.find (\<lambda>c. cl_ID c = cl_ID claim) (db_claims db) of None \<Rightarrow> False
   | Some c \<Rightarrow> cl_Digest c = cl_Digest claim \<and> cl_Generation c = cl_Generation claim \<and>
       (case db_identity db (cl_StreamID c) of None \<Rightarrow> False
        | Some i \<Rightarrow> id_Base i = cl_Generation c \<and> id_Generation i = cl_FenceGeneration c))"

definition prior_open :: "'d ReplayDB \<Rightarrow> string \<Rightarrow> int \<Rightarrow> bool" where
  "prior_open db claimID step \<longleftrightarrow>
     (\<exists>p\<in>set (claim_works db claimID). wk_Step p < step \<and> wk_CommittedAt p = None)"

definition beginReplayClaimWork :: "'d ReplayDB \<Rightarrow> replayClaim \<Rightarrow> replayClaimWork \<Rightarrow> bool res" where
  "beginReplayClaimWork db claim work =
     (case List.find (\<lambda>w. work_key w = work_key work) (claim_works db (cl_ID claim)) of
        None \<Rightarrow> Inl (Err ''cdc: lock replay work'')
      | Some stored \<Rightarrow>
          if \<not> claim_live db claim \<or> prior_open db (cl_ID claim) (wk_Step work)
          then Inl (Err ''cdc: lock replay work'')
          else if length (wk_Digest stored) \<noteq> 32 then Inl (Err ''cdc: locked replay work has an invalid digest'')
          else if \<not> same_work stored work
          then Inl (Err ''cdc: locked replay work does not match its reconstructed manifest'')
          else Inr (wk_CommittedAt stored \<noteq> None))"

text \<open>\<open>replayWorkCompletionSQL\<close>: the rows it updates, and the update.\<close>

definition completes :: "replayClaim \<Rightarrow> replayClaimWork \<Rightarrow> string \<times> replayClaimWork \<Rightarrow> bool" where
  "completes claim work = (\<lambda>(id, w). id = cl_ID claim \<and> work_key w = work_key work \<and>
     wk_Digest w = wk_Digest work \<and> wk_ExpectedTransactions w = wk_ExpectedTransactions work \<and>
     wk_ExpectedChanges w = wk_ExpectedChanges work \<and> wk_CommittedAt w = None)"

definition replayWorkCompletion ::
  "GoTime \<Rightarrow> 'd ReplayDB \<Rightarrow> replayClaim \<Rightarrow> replayClaimWork \<Rightarrow> nat \<times> 'd ReplayDB" where
  "replayWorkCompletion now db claim work =
     (if claim_live db claim
      then (length (filter (completes claim work) (db_works db)),
            db\<lparr>db_works := map (\<lambda>r. if completes claim work r
               then (fst r, (snd r)\<lparr>wk_CommittedAt := Some now\<rparr>) else r) (db_works db)\<rparr>)
      else (0, db))"

text \<open>The replayed changes of a work: a parameter, \<open>None\<close> when the target refuses one of them.\<close>

type_synonym 'd dml = "replayClaimWork \<Rightarrow> 'd \<Rightarrow> 'd option"

definition clear_receipt :: "replayClaimWork \<Rightarrow> replayClaimWork" where
  "clear_receipt w = w\<lparr>wk_CommittedAt := None\<rparr>"

definition replay_one ::
  "'d dml \<Rightarrow> GoTime \<Rightarrow> 'd ReplayDB \<Rightarrow> replayClaim \<Rightarrow> replayClaimWork \<Rightarrow> 'd ReplayDB res" where
  "replay_one dml now db claim work = (case dml (clear_receipt work) (db_data db) of
     None \<Rightarrow> Inl (Err ''cdc: apply replay work'')
   | Some d \<Rightarrow> (case replayWorkCompletion now (db\<lparr>db_data := d\<rparr>) claim work of
       (n, db') \<Rightarrow> if n \<noteq> 1 then Inl (Err ''commit exact replay work receipt'') else Inr db'))"

definition executeReplayWork ::
  "TxFault \<Rightarrow> 'd dml \<Rightarrow> GoTime \<Rightarrow> 'd ReplayDB \<Rightarrow> replayClaim \<Rightarrow> replayClaimWork \<Rightarrow> unit res \<times> 'd ReplayDB" where
  "executeReplayWork f dml now db claim work = (case beginReplayClaimWork db claim work of
     Inl e \<Rightarrow> (Inl e, db)
   | Inr True \<Rightarrow> (Inr (), db)
   | Inr False \<Rightarrow> end_tx f db (case replay_one dml now db claim work of
       Inl e \<Rightarrow> (Inl e, db) | Inr db' \<Rightarrow> (Inr (), db')))"

subsection \<open>Groups of serial works\<close>

fun contiguous :: "replayClaimWork list \<Rightarrow> int option \<Rightarrow> bool" where
  "contiguous [] previous = True"
| "contiguous (w # ws) previous =
     (wk_Kind w = replayWorkSerial \<and> wk_Work w = 0 \<and> wk_Lane w = -1 \<and>
      (case previous of None \<Rightarrow> True | Some s \<Rightarrow> wk_Step w = s + 1) \<and> contiguous ws (Some (wk_Step w)))"

fun match_group :: "replayClaimWork list \<Rightarrow> replayClaimWork list \<Rightarrow> bool list res" where
  "match_group [] [] = Inr []"
| "match_group [] (e # es) = Inl (Err ''cdc: locked fewer serial replay work rows than expected'')"
| "match_group (s # ss) [] = Inl (Err ''cdc: serial replay work group returned unexpected work'')"
| "match_group (s # ss) (e # es) =
     (if length (wk_Digest s) \<noteq> 32 then Inl (Err ''cdc: locked serial replay work has an invalid digest'')
      else if \<not> same_work s e
      then Inl (Err ''cdc: locked serial replay work does not match its reconstructed manifest'')
      else rbind (match_group ss es) (\<lambda>bs. Inr ((wk_CommittedAt s \<noteq> None) # bs)))"

text \<open>A committed row after an uncommitted one.\<close>

fun committed_suffix :: "bool \<Rightarrow> bool list \<Rightarrow> bool" where
  "committed_suffix seen [] = False"
| "committed_suffix seen (c # cs) = (if \<not> c then committed_suffix True cs else seen \<or> committed_suffix seen cs)"

definition group_rows :: "'d ReplayDB \<Rightarrow> replayClaim \<Rightarrow> int \<Rightarrow> int \<Rightarrow> replayClaimWork list" where
  "group_rows db claim first final =
     (if claim_live db claim \<and> \<not> prior_open db (cl_ID claim) first
      then sort_key wk_Step (filter (\<lambda>w. first \<le> wk_Step w \<and> wk_Step w \<le> final \<and> wk_Work w = 0)
             (claim_works db (cl_ID claim)))
      else [])"

definition beginSerialReplayWorkGroup ::
  "'d ReplayDB \<Rightarrow> replayClaim \<Rightarrow> replayClaimWork list \<Rightarrow> bool list res" where
  "beginSerialReplayWorkGroup db claim works =
     (if works = [] then Inl (Err ''cdc: serial replay work group is empty'')
      else if \<not> contiguous works None then Inl (Err ''cdc: serial replay work group is not contiguous'')
      else rbind (match_group (group_rows db claim (wk_Step (hd works)) (wk_Step (last works))) works) (\<lambda>committed.
        if committed_suffix False committed
        then Inl (Err ''cdc: serial replay work has a committed suffix after an uncommitted row'')
        else Inr committed))"

fun replay_group ::
  "'d dml \<Rightarrow> GoTime \<Rightarrow> 'd ReplayDB \<Rightarrow> replayClaim \<Rightarrow> (replayClaimWork \<times> bool) list \<Rightarrow> 'd ReplayDB res" where
  "replay_group dml now db claim [] = Inr db"
| "replay_group dml now db claim ((w, committed) # ws) =
     (if committed then replay_group dml now db claim ws
      else rbind (replay_one dml now db claim w) (\<lambda>db. replay_group dml now db claim ws))"

definition executeSerialReplayWorkGroup ::
  "TxFault \<Rightarrow> 'd dml \<Rightarrow> GoTime \<Rightarrow> 'd ReplayDB \<Rightarrow> replayClaim \<Rightarrow> replayClaimWork list \<Rightarrow> unit res \<times> 'd ReplayDB" where
  "executeSerialReplayWorkGroup f dml now db claim works = (case beginSerialReplayWorkGroup db claim works of
     Inl e \<Rightarrow> (Inl e, db)
   | Inr committed \<Rightarrow>
       if list_all id committed then (Inr (), db)
       else end_tx f db (case replay_group dml now db claim (zip works committed) of
         Inl e \<Rightarrow> (Inl e, db) | Inr db' \<Rightarrow> (Inr (), db')))"

section \<open>Finalization\<close>

definition finalize_progress :: "'d ReplayDB \<Rightarrow> replayClaim \<Rightarrow> 'd ReplayDB res" where
  "finalize_progress db claim = (case db_progress db (cl_StreamID claim) of
     None \<Rightarrow> Inl (Err ''cdc: lock replay progress for finalization'')
   | Some p \<Rightarrow>
       if pr_LSN p \<noteq> cl_StartLSN claim \<or> pr_Generation p \<noteq> Some (cl_StartGeneration claim)
       then Inl (Err ''cdc: target progress changed while replay claim was active'')
       else Inr (db\<lparr>db_progress := (db_progress db)(cl_StreamID claim \<mapsto>
         \<lparr>pr_LSN = cl_EndLSN claim, pr_Generation = Some (cl_FenceGeneration claim),
          pr_Transactions = pr_Transactions p + cl_Transactions claim,
          pr_Rows = pr_Rows p + cl_Changes claim\<rparr>)\<rparr>))"

text \<open>The delete cascades to the works.\<close>

definition delete_claim :: "'d ReplayDB \<Rightarrow> string \<Rightarrow> 'd ReplayDB res" where
  "delete_claim db claimID =
     (if length (filter (\<lambda>c. cl_ID c = claimID) (db_claims db)) \<noteq> 1
      then Inl (Err ''cdc: finalized replay claim disappeared before deletion'')
      else Inr (db\<lparr>db_claims := filter (\<lambda>c. cl_ID c \<noteq> claimID) (db_claims db),
                  db_works := filter (\<lambda>(id, w). id \<noteq> claimID) (db_works db)\<rparr>))"

definition finalizeReplayClaim :: "TxFault \<Rightarrow> 'd ReplayDB \<Rightarrow> replayClaim \<Rightarrow> unit res \<times> 'd ReplayDB" where
  "finalizeReplayClaim f db claim = end_tx f db
     (case db_identity db (cl_StreamID claim) of
        None \<Rightarrow> (Inl (Err ''cdc: lock final replay identity''), db)
      | Some i \<Rightarrow>
          if id_Base i \<noteq> cl_Generation claim \<or> id_Generation i \<noteq> cl_FenceGeneration claim
          then (Inl ErrStreamGenerationMismatch, db)
          else case rbind (readReplayClaim db (cl_StreamID claim)) (\<lambda>stored. case stored of
              None \<Rightarrow> Inl (Err ''cdc: replay claim changed before finalization'')
            | Some c \<Rightarrow>
                if cl_ID c \<noteq> cl_ID claim \<or> cl_Digest c \<noteq> cl_Digest claim
                then Inl (Err ''cdc: replay claim changed before finalization'')
                else rbind (readReplayClaimWorks db (cl_ID claim)) (\<lambda>works.
                  rbind (rwrap ''cdc: validate exact replay claim before finalization''
                    (validateReplayClaim c works claim (cl_WorkManifest claim))) (\<lambda>_.
                  if \<exists>w\<in>set works. wk_CommittedAt w = None
                  then Inl (Err ''cdc: replay claim work is not committed'')
                  else rbind (finalize_progress db claim) (\<lambda>db. delete_claim db (cl_ID claim)))))
            of Inl e \<Rightarrow> (Inl e, db) | Inr db' \<Rightarrow> (Inr (), db'))"

section \<open>Progress and identity\<close>

definition resolveStreamEffectiveGeneration :: "'d ReplayDB \<Rightarrow> string \<Rightarrow> string \<Rightarrow> string res" where
  "resolveStreamEffectiveGeneration db streamID configured =
     (if streamID = [] \<or> configured = []
      then Inl (Err ''cdc: stream ID and configured generation are required'')
      else case db_identity db streamID of
        None \<Rightarrow> Inl ErrStreamGenerationMismatch
      | Some i \<Rightarrow>
          if id_Base i \<noteq> configured \<or> id_Generation i = [] then Inl ErrStreamGenerationMismatch
          else Inr (id_Generation i))"

text \<open>
  \<^verbatim>\<open>streamProgressSQL\<close> in the transaction of \<^verbatim>\<open>updateStreamProgress\<close>: a
  statement that changes no row divides by zero, so the transaction fails.
\<close>

definition updateStreamProgress ::
  "TxFault \<Rightarrow> 'd ReplayDB \<Rightarrow> string \<Rightarrow> string \<Rightarrow> LSN \<Rightarrow> LSN \<Rightarrow> int \<Rightarrow> int \<Rightarrow> unit res \<times> 'd ReplayDB" where
  "updateStreamProgress f db streamID generation expected remote transactions rows = end_tx f db
     (case db_identity db streamID of
        Some i \<Rightarrow>
          if id_Generation i \<noteq> generation then (Inl ErrStreamGenerationMismatch, db)
          else let db1 = db\<lparr>db_identity := (db_identity db)(streamID \<mapsto> i\<lparr>id_ProgressStarted := True\<rparr>)\<rparr> in
            (case db_progress db streamID of
               None \<Rightarrow>
                 if expected = 0
                 then (Inr (), db1\<lparr>db_progress := (db_progress db)(streamID \<mapsto>
                   \<lparr>pr_LSN = remote, pr_Generation = Some generation, pr_Transactions = transactions, pr_Rows = rows\<rparr>)\<rparr>)
                 else (Inl ErrStreamGenerationMismatch, db)
             | Some p \<Rightarrow>
                 if pr_Generation p = Some generation \<and> pr_LSN p = expected \<and> remote > pr_LSN p
                 then (Inr (), db1\<lparr>db_progress := (db_progress db)(streamID \<mapsto>
                   \<lparr>pr_LSN = remote, pr_Generation = Some generation,
                    pr_Transactions = pr_Transactions p + transactions, pr_Rows = pr_Rows p + rows\<rparr>)\<rparr>)
                 else (Inl ErrStreamGenerationMismatch, db))
      | None \<Rightarrow> (Inl ErrStreamGenerationMismatch, db))"

record StreamIdentityConfig =
  sc_StreamID :: string
  sc_Generation :: string
  sc_FreshSetup :: bool
  sc_TargetHasCopiedData :: bool

text \<open>
  \<^verbatim>\<open>EnsureStreamProgressIdentity\<close> after the schema statements. It runs outside a transaction,
  so an identity it created stays when a later check fails.
\<close>

definition identity_for :: "'d ReplayDB \<Rightarrow> StreamIdentityConfig \<Rightarrow> (StreamIdentity \<times> 'd ReplayDB) res" where
  "identity_for db cfg = (let s = sc_StreamID cfg; g = sc_Generation cfg in
     case db_identity db s of
       Some i \<Rightarrow> if id_Base i \<noteq> g then Inl ErrStreamGenerationMismatch else Inr (i, db)
     | None \<Rightarrow>
         if (case db_progress db s of None \<Rightarrow> False | Some p \<Rightarrow>
               pr_Generation p \<noteq> None \<and> pr_Generation p \<noteq> Some [] \<and> pr_Generation p \<noteq> Some g)
         then Inl ErrStreamGenerationMismatch
         else if sc_TargetHasCopiedData cfg \<and> \<not> sc_FreshSetup cfg then Inl ErrMissingTargetProgress
         else let i = \<lparr>id_Base = g, id_Generation = g, id_ProgressStarted = (db_progress db s \<noteq> None)\<rparr>
              in Inr (i, db\<lparr>db_identity := (db_identity db)(s \<mapsto> i)\<rparr>))"

definition adopt_progress :: "'d ReplayDB \<Rightarrow> string \<Rightarrow> StreamIdentity \<Rightarrow> string \<Rightarrow> StreamProgress \<Rightarrow> unit res \<times> 'd ReplayDB" where
  "adopt_progress db s i expected p =
     (if pr_Generation p \<noteq> None \<and> pr_Generation p \<noteq> Some [] \<and> pr_Generation p \<noteq> Some expected
      then (Inl ErrStreamGenerationMismatch, db)
      else let p' = (if pr_Generation p = None \<or> pr_Generation p = Some []
                     then p\<lparr>pr_Generation := Some expected\<rparr> else p);
               db = db\<lparr>db_progress := (db_progress db)(s \<mapsto> p')\<rparr> in
        (Inr (), if id_ProgressStarted i then db
           else db\<lparr>db_identity := (db_identity db)(s \<mapsto> i\<lparr>id_ProgressStarted := True\<rparr>)\<rparr>))"

definition EnsureStreamProgressIdentity ::
  "'d ReplayDB \<Rightarrow> StreamIdentityConfig \<Rightarrow> unit res \<times> 'd ReplayDB" where
  "EnsureStreamProgressIdentity db cfg = (let s = sc_StreamID cfg in
     if s = [] \<or> sc_Generation cfg = [] then (Inl (Err ''cdc: stream ID and generation are required''), db)
     else case identity_for db cfg of
       Inl e \<Rightarrow> (Inl e, db)
     | Inr (i, db) \<Rightarrow> (case readReplayClaim db s of
         Inl e \<Rightarrow> (Inl e, db)
       | Inr active \<Rightarrow>
           if (case active of None \<Rightarrow> False | Some c \<Rightarrow>
                 cl_Generation c \<noteq> id_Base i \<or> cl_FenceGeneration c \<noteq> id_Generation i)
           then (Inl ErrStreamGenerationMismatch, db)
           else let expected = (case active of None \<Rightarrow> id_Generation i | Some c \<Rightarrow> cl_StartGeneration c) in
             (case db_progress db s of
                Some p \<Rightarrow> adopt_progress db s i expected p
              | None \<Rightarrow>
                  if active \<noteq> None then (Inl ErrMissingTargetProgress, db)
                  else if (id_ProgressStarted i \<or> sc_TargetHasCopiedData cfg) \<and> \<not> sc_FreshSetup cfg
                  then (Inl ErrMissingTargetProgress, db)
                  else (Inr (), db))))"

end
