(* ===== verification/ReplayOnce.thy ===== *)
theory ReplayOnce
  imports ReplayStore "HOL-Library.Multiset"
begin

text \<open>
  Exactly-once replay: the histories of one stream's replay state under the operations of
  \<open>ReplayStore\<close>, each with arbitrary arguments and an arbitrary fault of the connection, and the
  invariant of the states they reach. \<open>active\<close> describes a target with a claim in progress,
  \<open>idle\<close> one without.
\<close>

section \<open>Replaying a list of works\<close>

fun replay_all :: "'d dml \<Rightarrow> replayClaimWork list \<Rightarrow> 'd \<Rightarrow> 'd option" where
  "replay_all dml [] d = Some d"
| "replay_all dml (w # ws) d = Option.bind (dml w d) (replay_all dml ws)"

lemma replay_all_append [simp]:
  "replay_all dml (vs @ ws) d = Option.bind (replay_all dml vs d) (replay_all dml ws)"
proof (induction vs arbitrary: d)
  case (Cons v vs)
  then show ?case by (cases "dml v d") simp_all
qed simp

section \<open>A claim in progress\<close>

abbreviation committed :: "replayClaimWork \<Rightarrow> bool" where
  "committed w \<equiv> wk_CommittedAt w \<noteq> None"

definition fenced :: "'d ReplayDB \<Rightarrow> replayClaim \<Rightarrow> bool" where
  "fenced db c \<longleftrightarrow> (\<exists>i. db_identity db (cl_StreamID c) = Some i \<and> id_Base i = cl_Generation c \<and>
     id_Generation i = cl_FenceGeneration c)"

text \<open>A committed work has no uncommitted work of an earlier step.\<close>

definition barrier :: "replayClaimWork list \<Rightarrow> bool" where
  "barrier rows \<longleftrightarrow> (\<forall>v\<in>set rows. \<forall>w\<in>set rows. committed w \<and> wk_Step v < wk_Step w \<longrightarrow> committed v)"

definition active :: "'d ReplayDB \<Rightarrow> replayClaim \<Rightarrow> replayClaimWork list \<Rightarrow> bool" where
  "active db c rows \<longleftrightarrow> db_claims db = [c] \<and> db_works db = map (Pair (cl_ID c)) rows \<and>
     map clear_receipt rows = cl_WorkManifest c \<and>
     validateReplayClaimManifest c (cl_WorkManifest c) = Inr () \<and>
     (\<forall>w\<in>set rows. length (wk_Digest w) = 32) \<and> claim_row_ok (db\<lparr>db_claims := []\<rparr>) c \<and>
     fenced db c \<and> barrier rows"

lemma clear_receipt_sel [simp]:
  "wk_Step (clear_receipt w) = wk_Step w" "wk_Work (clear_receipt w) = wk_Work w"
  "wk_Digest (clear_receipt w) = wk_Digest w" "wk_CommittedAt (clear_receipt w) = None"
  "wk_Kind (clear_receipt w) = wk_Kind w" "wk_Lane (clear_receipt w) = wk_Lane w"
  "wk_ExpectedTransactions (clear_receipt w) = wk_ExpectedTransactions w"
  "wk_ExpectedChanges (clear_receipt w) = wk_ExpectedChanges w"
  "work_key (clear_receipt w) = work_key w"
  "clear_receipt (w\<lparr>wk_CommittedAt := t\<rparr>) = clear_receipt w"
  "clear_receipt (clear_receipt w) = clear_receipt w"
  by (simp_all add: clear_receipt_def work_key_def)

lemma clone_eq_clear: "cloneReplayWorkManifest works = map clear_receipt works"
  by (simp add: cloneReplayWorkManifest_def clear_receipt_def)

lemma same_work_clear: "same_work v w \<longleftrightarrow> clear_receipt v = clear_receipt w"
  by (simp add: same_work_iff clear_receipt_def)

lemma manifest_rows_clear [simp]: "manifest_rows (map clear_receipt ws) = manifest_rows ws"
  by (auto simp: manifest_rows_def row_ok_def sorted_wrt_map)

lemma active_manifest: "active db c rows \<Longrightarrow> manifest_rows rows"
  by (metis active_def manifest_rows_clear validate_manifest_iff)

lemma manifest_keys: "manifest_rows rows \<Longrightarrow> distinct (map work_key rows)"
  by (induction rows) (auto simp: manifest_rows_def)

lemma manifest_steps: "manifest_rows rows \<Longrightarrow> sorted (map wk_Step rows)"
  by (auto simp: manifest_rows_def sorted_map key_less_def work_key_def elim: sorted_wrt_mono_rel [rotated])

lemma claim_works_map [simp]:
  "db_works db = map (Pair i) rows \<Longrightarrow> claim_works db i = rows"
  by (simp add: claim_works_def filter_map comp_def)

lemma claim_works_other:
  "db_works db = map (Pair i) rows \<Longrightarrow> j \<noteq> i \<Longrightarrow> claim_works db j = []"
  by (auto simp: claim_works_def filter_map comp_def filter_empty_conv)

lemma find_work:
  "List.find (\<lambda>w. work_key w = k) rows = Some v \<longleftrightarrow> v \<in> set rows \<and> work_key v = k"
  if "distinct (map work_key rows)"
  using that by (induction rows) (auto simp: image_iff)

lemma claim_live_active:
  "active db c rows \<Longrightarrow> claim_live db cl \<Longrightarrow>
   cl_ID cl = cl_ID c \<and> cl_Digest cl = cl_Digest c \<and> cl_Generation cl = cl_Generation c"
  by (auto simp: active_def claim_live_def split: option.splits if_splits)

lemma claim_liveI:
  "active db c rows \<Longrightarrow> cl_ID cl = cl_ID c \<Longrightarrow> cl_Digest cl = cl_Digest c \<Longrightarrow>
   cl_Generation cl = cl_Generation c \<Longrightarrow> claim_live db cl"
  by (auto simp: active_def claim_live_def fenced_def)

lemma begin_work_active:
  assumes a: "active db c rows"
  shows "beginReplayClaimWork db cl w = Inr b \<longleftrightarrow>
    cl_ID cl = cl_ID c \<and> cl_Digest cl = cl_Digest c \<and> cl_Generation cl = cl_Generation c \<and>
    (\<exists>v\<in>set rows. clear_receipt v = clear_receipt w \<and> b = committed v) \<and>
    (\<forall>v\<in>set rows. wk_Step v < wk_Step w \<longrightarrow> committed v)"
proof -
  have works: "db_works db = map (Pair (cl_ID c)) rows" using a by (simp add: active_def)
  have dist: "distinct (map work_key rows)" using a active_manifest manifest_keys by blast
  have len: "\<And>v. v \<in> set rows \<Longrightarrow> length (wk_Digest v) = 32" using a by (simp add: active_def)
  have live: "claim_live db cl \<longleftrightarrow> cl_ID cl = cl_ID c \<and> cl_Digest cl = cl_Digest c \<and>
      cl_Generation cl = cl_Generation c"
    using claim_live_active [OF a] claim_liveI [OF a] by blast
  show ?thesis
  proof (cases "cl_ID cl = cl_ID c")
    case True
    have cw: "claim_works db (cl_ID cl) = rows" using works True by simp
    have uniq: "v = v'" if "v \<in> set rows" "v' \<in> set rows" "work_key v = work_key v'" for v v'
      using that dist by (auto simp: distinct_map inj_on_def)
    have key: "work_key v = work_key w" if "clear_receipt v = clear_receipt w" for v
      using that by (metis clear_receipt_sel(9))
    show ?thesis
    proof (cases "List.find (\<lambda>v. work_key v = work_key w) rows")
      case None
      then have "clear_receipt v \<noteq> clear_receipt w" if "v \<in> set rows" for v
        using that key [of v] by (fastforce simp: find_None_iff)
      then show ?thesis using None by (auto simp: beginReplayClaimWork_def cw)
    next
      case (Some v)
      then have v: "v \<in> set rows" "work_key v = work_key w" by (simp_all add: find_work [OF dist])
      then have only: "(\<exists>u\<in>set rows. clear_receipt u = clear_receipt w \<and> b = committed u) \<longleftrightarrow>
          clear_receipt v = clear_receipt w \<and> b = committed v"
        using uniq key by metis
      show ?thesis
        unfolding only beginReplayClaimWork_def cw Some option.case prior_open_def live
        using len [OF v(1)] True by (auto simp: same_work_clear)
    qed
  next
    case False
    then show ?thesis
      using claim_works_other [OF works False] by (simp add: beginReplayClaimWork_def)
  qed
qed

section \<open>Committing works\<close>

definition claim_matches :: "replayClaim \<Rightarrow> replayClaim \<Rightarrow> bool" where
  "claim_matches cl c \<longleftrightarrow>
     cl_ID cl = cl_ID c \<and> cl_Digest cl = cl_Digest c \<and> cl_Generation cl = cl_Generation c"

text \<open>
  \<open>running\<close>: the claim \<open>c\<close> is in progress since the data was \<open>d0\<close>; \<open>cur\<close> lists the works
  committed so far, in the order in which their changes were applied.
\<close>

definition running ::
  "'d dml \<Rightarrow> 'd \<Rightarrow> 'd ReplayDB \<Rightarrow> replayClaim \<Rightarrow> replayClaimWork list \<Rightarrow> replayClaimWork list \<Rightarrow> bool" where
  "running dml d0 db c rows cur \<longleftrightarrow> active db c rows \<and>
     mset cur = mset (map clear_receipt (filter committed rows)) \<and> sorted (map wk_Step cur) \<and>
     replay_all dml cur d0 = Some (db_data db)"

text \<open>The works with a receipt.\<close>

definition committed_works :: "'d ReplayDB \<Rightarrow> replayClaimWork list" where
  "committed_works db = map clear_receipt (filter committed (map snd (db_works db)))"

text \<open>What no work changes.\<close>

definition same_frame :: "'d ReplayDB \<Rightarrow> 'd ReplayDB \<Rightarrow> bool" where
  "same_frame db db' \<longleftrightarrow> db_identity db' = db_identity db \<and> db_progress db' = db_progress db \<and>
     db_claims db' = db_claims db"

lemma same_frame_refl [simp]: "same_frame db db"
  by (simp add: same_frame_def)

lemma same_frame_trans: "same_frame a b \<Longrightarrow> same_frame b c \<Longrightarrow> same_frame a c"
  by (simp add: same_frame_def)

lemma clear_key: "clear_receipt v = clear_receipt w \<Longrightarrow> work_key v = work_key w"
  by (metis clear_receipt_sel(9))

lemma clear_fields:
  assumes "clear_receipt v = clear_receipt w"
  shows "wk_Step v = wk_Step w" "wk_Digest v = wk_Digest w" "wk_Kind v = wk_Kind w" "wk_Work v = wk_Work w"
    "wk_ExpectedTransactions v = wk_ExpectedTransactions w" "wk_ExpectedChanges v = wk_ExpectedChanges w"
  using assms by (metis clear_receipt_sel)+

lemma claim_live_data [simp]: "claim_live (db\<lparr>db_data := d\<rparr>) cl = claim_live db cl"
  by (simp add: claim_live_def cong: option.case_cong)

lemma completion_rows:
  assumes a: "active db c (xs @ v # ys)" and m: "claim_matches cl c"
    and v: "\<not> committed v" and vw: "clear_receipt v = clear_receipt w"
  shows "replayWorkCompletion now (db\<lparr>db_data := d\<rparr>) cl w =
    (1, db\<lparr>db_data := d,
       db_works := map (Pair (cl_ID c)) (xs @ v\<lparr>wk_CommittedAt := Some now\<rparr> # ys)\<rparr>)"
proof -
  have live: "claim_live (db\<lparr>db_data := d\<rparr>) cl"
    using claim_liveI [OF a] m by (simp add: claim_matches_def)
  have works: "db_works db = map (Pair (cl_ID c)) (xs @ v # ys)" and id: "cl_ID cl = cl_ID c"
    using a m by (simp_all add: active_def claim_matches_def)
  have dist: "distinct (map work_key (xs @ v # ys))" using a active_manifest manifest_keys by blast
  have self: "completes cl w (cl_ID c, v)"
    using v id vw clear_fields [OF vw] clear_key [OF vw] by (simp add: completes_def)
  have other: "\<not> completes cl w (cl_ID c, u)" if "u \<in> set xs \<union> set ys" for u
    using that dist clear_key [OF vw] by (auto simp: completes_def image_iff)
  have keep: "map (\<lambda>r. if completes cl w r then g r else r) (map (Pair (cl_ID c)) us) = map (Pair (cl_ID c)) us"
    if "set us \<subseteq> set xs \<union> set ys" for us and g :: "string \<times> replayClaimWork \<Rightarrow> string \<times> replayClaimWork"
    using that other by (auto simp: comp_def)
  have none: "filter (completes cl w) (map (Pair (cl_ID c)) us) = []" if "set us \<subseteq> set xs \<union> set ys" for us
    using that other by (auto simp: filter_empty_conv)
  show ?thesis
    using live self by (simp add: replayWorkCompletion_def works keep none del: map_map)
qed

lemma barrier_commit:
  assumes "barrier (xs @ v # ys)" and v: "\<not> committed v"
    and earlier: "\<forall>u\<in>set (xs @ v # ys). wk_Step u < wk_Step v \<longrightarrow> committed u"
  shows "barrier (xs @ v\<lparr>wk_CommittedAt := Some now\<rparr> # ys)"
  using assms unfolding barrier_def by auto

lemma committed_steps:
  assumes "barrier rows" and "v \<in> set rows" and "\<not> committed v" and "u \<in> set rows" and "committed u"
  shows "wk_Step u \<le> wk_Step v"
  using assms unfolding barrier_def by force

lemma replay_one_running:
  assumes run: "running dml d0 db c (xs @ v # ys) cur" and m: "claim_matches cl c"
    and v: "\<not> committed v" and vw: "clear_receipt v = clear_receipt w"
    and earlier: "\<forall>u\<in>set (xs @ v # ys). wk_Step u < wk_Step v \<longrightarrow> committed u"
    and one: "replay_one dml now db cl w = Inr db'"
  shows "running dml d0 db' c (xs @ v\<lparr>wk_CommittedAt := Some now\<rparr> # ys) (cur @ [clear_receipt w]) \<and>
    same_frame db db'"
proof -
  have a: "active db c (xs @ v # ys)" using run by (simp add: running_def)
  obtain d where d: "dml (clear_receipt w) (db_data db) = Some d"
    and db': "db' = db\<lparr>db_data := d,
       db_works := map (Pair (cl_ID c)) (xs @ v\<lparr>wk_CommittedAt := Some now\<rparr> # ys)\<rparr>"
    using one by (auto simp: replay_one_def completion_rows [OF a m v vw] split: option.splits)
  have act: "active db' c (xs @ v\<lparr>wk_CommittedAt := Some now\<rparr> # ys)"
    using a barrier_commit [OF _ v earlier] unfolding active_def db'
    by (simp add: fenced_def claim_row_ok_def)
  have "wk_Step u \<le> wk_Step w" if "u \<in> set cur" for u
  proof -
    have "u \<in> set_mset (mset (map clear_receipt (filter committed (xs @ v # ys))))"
      using that run by (metis running_def set_mset_mset)
    then obtain r where "r \<in> set (xs @ v # ys)" "committed r" "u = clear_receipt r" by (auto split: if_splits)
    then show ?thesis
      using committed_steps [of "xs @ v # ys" v r] a v clear_fields(1) [OF vw] by (simp add: active_def)
  qed
  then show ?thesis
    using run act d v vw by (auto simp: running_def same_frame_def db' sorted_append)
qed

lemma replay_one_total:
  assumes "active db c (xs @ v # ys)" and "claim_matches cl c"
    and "\<not> committed v" and "clear_receipt v = clear_receipt w"
  shows "(\<exists>db'. replay_one dml now db cl w = Inr db') \<longleftrightarrow> dml (clear_receipt w) (db_data db) \<noteq> None"
  by (auto simp: replay_one_def completion_rows [OF assms] split: option.splits)

lemma row_split:
  assumes "v \<in> set rows"
  obtains xs ys where "rows = xs @ v # ys"
  using assms by (auto simp: in_set_conv_decomp)

lemma execute_work_running:
  assumes run: "running dml d0 db c rows cur"
    and ex: "executeReplayWork f dml now db cl w = (r, db')"
  shows "\<exists>rows' cur'. running dml d0 db' c rows' cur' \<and> same_frame db db'"
proof -
  have a: "active db c rows" using run by (simp add: running_def)
  consider "db' = db" | db2 where "beginReplayClaimWork db cl w = Inr False"
    "replay_one dml now db cl w = Inr db2" "db' = db2"
    using ex by (auto simp: executeReplayWork_def end_tx_def split: sum.splits bool.splits TxFault.splits)
  then show ?thesis
  proof cases
    case 1
    then show ?thesis using run by auto
  next
    case 2
    then obtain v where v: "v \<in> set rows" "clear_receipt v = clear_receipt w" "\<not> committed v"
      and m: "claim_matches cl c" and earlier: "\<forall>u\<in>set rows. wk_Step u < wk_Step w \<longrightarrow> committed u"
      using begin_work_active [OF a] by (auto simp: claim_matches_def)
    obtain xs ys where rows: "rows = xs @ v # ys" using v(1) by (rule row_split)
    have "\<forall>u\<in>set (xs @ v # ys). wk_Step u < wk_Step v \<longrightarrow> committed u"
      using earlier clear_fields(1) [OF v(2)] unfolding rows by simp
    from replay_one_running [OF run [unfolded rows] m v(3,2) this 2(2)] 2(3) show ?thesis by blast
  qed
qed

subsection \<open>Groups\<close>

text \<open>A serial work is the only work of its step.\<close>

definition serial_alone :: "replayClaimWork list \<Rightarrow> bool" where
  "serial_alone works \<longleftrightarrow>
     (\<forall>v\<in>set works. \<forall>w\<in>set works. wk_Kind v = replayWorkSerial \<and> wk_Step v = wk_Step w \<longrightarrow> v = w)"

lemma contiguous_nth:
  "contiguous ws p \<Longrightarrow> i < length ws \<Longrightarrow>
   wk_Step (ws ! i) = wk_Step (hd ws) + int i \<and> wk_Kind (ws ! i) = replayWorkSerial \<and> wk_Work (ws ! i) = 0"
proof (induction ws arbitrary: p i)
  case (Cons w ws)
  show ?case
  proof (cases i)
    case (Suc j)
    then have "contiguous ws (Some (wk_Step w))" "j < length ws" "ws \<noteq> []" using Cons.prems by auto
    moreover from this have "wk_Step (hd ws) = wk_Step w + 1" by (cases ws) auto
    ultimately show ?thesis using Cons.IH [of "Some (wk_Step w)" j] Suc by simp
  qed (use Cons.prems in auto)
qed simp

lemma contiguous_sorted: "contiguous ws p \<Longrightarrow> sorted_wrt (\<lambda>v w. wk_Step v < wk_Step w) ws"
  by (simp add: sorted_wrt_iff_nth_less contiguous_nth)

lemma contiguous_step:
  assumes c: "contiguous ws p" and s: "wk_Step (hd ws) \<le> s" "s \<le> wk_Step (last ws)" and ne: "ws \<noteq> []"
  obtains w where "w \<in> set ws" "wk_Step w = s" "wk_Kind w = replayWorkSerial"
proof -
  have "wk_Step (last ws) = wk_Step (hd ws) + int (length ws - 1)"
    using contiguous_nth [OF c, of "length ws - 1"] ne by (simp add: last_conv_nth)
  then have i: "nat (s - wk_Step (hd ws)) < length ws" using s ne by (cases ws) auto
  show ?thesis
    by (rule that [OF nth_mem [OF i]]) (use contiguous_nth [OF c i] s in simp_all)
qed

lemma match_group_iff:
  "match_group ss es = Inr bs \<longleftrightarrow> map clear_receipt ss = map clear_receipt es \<and>
     (\<forall>s\<in>set ss. length (wk_Digest s) = 32) \<and> bs = map committed ss"
  by (induction ss es arbitrary: bs rule: match_group.induct) (auto simp: rbind_eq_Inr same_work_clear)

text \<open>A group fails only when the target refuses a change.\<close>

lemma replay_group_running:
  assumes "running dml d0 db c rows cur" and m: "claim_matches cl c"
    and "\<forall>(w, b)\<in>set gs. \<exists>v\<in>set rows. clear_receipt v = clear_receipt w \<and> committed v = b"
    and "sorted_wrt (\<lambda>g h. wk_Step (fst g) < wk_Step (fst h)) gs"
    and "\<forall>v\<in>set rows. \<forall>g\<in>set gs. \<not> committed v \<and> wk_Step v < wk_Step (fst g) \<longrightarrow>
       clear_receipt v \<in> clear_receipt ` fst ` set gs"
  shows "case replay_group dml now db cl gs of Inl e \<Rightarrow> \<exists>w d. dml w d = None
    | Inr db' \<Rightarrow> same_frame db db' \<and> (\<exists>rows'. running dml d0 db' c rows'
        (cur @ map clear_receipt (map fst (filter (\<lambda>g. \<not> snd g) gs))))"
  using assms(1,3-)
proof (induction gs arbitrary: db rows cur)
  case Nil
  then show ?case by auto
next
  case (Cons g gs)
  obtain w b where g: "g = (w, b)" by (cases g)
  have a: "active db c rows" using Cons.prems(1) by (simp add: running_def)
  have dist: "distinct (map work_key rows)" using a active_manifest manifest_keys by blast
  have uniq: "u = v" if "u \<in> set rows" "v \<in> set rows" "clear_receipt u = clear_receipt v" for u v
    using that dist clear_key by (metis distinct_map inj_on_def)
  obtain v where v: "v \<in> set rows" "clear_receipt v = clear_receipt w" "committed v = b"
    using Cons.prems(2) g by auto
  have later: "wk_Step w < wk_Step (fst h)" if "h \<in> set gs" for h
    using Cons.prems(3) that g by auto
  have drop: "clear_receipt u \<in> clear_receipt ` fst ` set gs"
    if "u \<in> set rows" "u \<noteq> v" "h \<in> set gs" "\<not> committed u" "wk_Step u < wk_Step (fst h)" for u h
  proof -
    have "clear_receipt u \<in> clear_receipt ` fst ` set (g # gs)" using Cons.prems(4) that by auto
    then show ?thesis using uniq [OF that(1) v(1)] that(2) v(2) g by auto
  qed
  show ?case
  proof (cases b)
    case True
    then have "\<forall>u\<in>set rows. \<forall>h\<in>set gs. \<not> committed u \<and> wk_Step u < wk_Step (fst h) \<longrightarrow>
        clear_receipt u \<in> clear_receipt ` fst ` set gs"
      using drop v(3) by blast
    with Cons.prems True g have "case replay_group dml now db cl gs of Inl e \<Rightarrow> \<exists>w d. dml w d = None
      | Inr db' \<Rightarrow> same_frame db db' \<and> (\<exists>rows'. running dml d0 db' c rows'
          (cur @ map clear_receipt (map fst (filter (\<lambda>g. \<not> snd g) gs))))"
      by (intro Cons.IH [OF Cons.prems(1)]) auto
    then show ?thesis using True g by (simp split: sum.splits)
  next
    case False
    obtain xs ys where rows: "rows = xs @ v # ys" using v(1) by (rule row_split)
    show ?thesis
    proof (cases "replay_one dml now db cl w")
      case (Inl e)
      then have "dml (clear_receipt w) (db_data db) = None"
        using replay_one_total [OF a [unfolded rows] m _ v(2)] v(3) False by (metis Inl_Inr_False)
      then show ?thesis using Inl g False by auto
    next
    case one: (Inr db1)
    have earlier: "\<forall>u\<in>set rows. wk_Step u < wk_Step v \<longrightarrow> committed u"
    proof (intro ballI impI)
      fix u assume u: "u \<in> set rows" and less: "wk_Step u < wk_Step v"
      show "committed u"
      proof (rule ccontr)
        assume n: "\<not> committed u"
        have "wk_Step u < wk_Step (fst g)" using less clear_fields(1) [OF v(2)] g by simp
        then have "clear_receipt u \<in> clear_receipt ` fst ` set (g # gs)"
          using Cons.prems(4) u n by auto
        then obtain h where "h \<in> set (g # gs)" "clear_receipt u = clear_receipt (fst h)" by fast
        then show False
          using later [of h] less clear_fields(1) [of u "fst h"] clear_fields(1) [OF v(2)] g by auto
      qed
    qed
    let ?rows = "xs @ v\<lparr>wk_CommittedAt := Some now\<rparr> # ys"
    have r1: "running dml d0 db1 c ?rows (cur @ [clear_receipt w])" and fr: "same_frame db db1"
      using replay_one_running [OF Cons.prems(1) [unfolded rows] m _ v(2) _ one] v(3) False earlier rows
      by auto
    have other: "u \<in> set rows \<and> u \<noteq> v" if "u \<in> set ?rows" "\<not> committed u" for u
    proof -
      have "u \<in> set xs \<union> set ys" using that by auto
      then show ?thesis using dist rows by auto
    qed
    have mem: "\<exists>u\<in>set ?rows. clear_receipt u = clear_receipt (fst h) \<and> committed u = snd h" if h: "h \<in> set gs" for h
    proof -
      obtain u where u: "u \<in> set rows" "clear_receipt u = clear_receipt (fst h)" "committed u = snd h"
        using bspec [OF Cons.prems(2), of h] h by (cases h) auto
      then have "u \<noteq> v" using later [OF h] clear_fields(1) [OF u(2)] clear_fields(1) [OF v(2)] by auto
      then show ?thesis using u rows by auto
    qed
    have "case replay_group dml now db1 cl gs of Inl e \<Rightarrow> \<exists>w d. dml w d = None
      | Inr db' \<Rightarrow> same_frame db1 db' \<and> (\<exists>rows'. running dml d0 db' c rows'
          ((cur @ [clear_receipt w]) @ map clear_receipt (map fst (filter (\<lambda>g. \<not> snd g) gs))))"
    proof (rule Cons.IH [OF r1])
      show "\<forall>(w, b)\<in>set gs. \<exists>v\<in>set ?rows. clear_receipt v = clear_receipt w \<and> committed v = b"
        using mem by fastforce
      show "sorted_wrt (\<lambda>g h. wk_Step (fst g) < wk_Step (fst h)) gs" using Cons.prems(3) by simp
      show "\<forall>v\<in>set ?rows. \<forall>g\<in>set gs. \<not> committed v \<and> wk_Step v < wk_Step (fst g) \<longrightarrow>
          clear_receipt v \<in> clear_receipt ` fst ` set gs"
        using other drop by blast
    qed
    then show ?thesis
      using one g False same_frame_trans [OF fr] by (auto split: sum.splits)
    qed
  qed
qed

text \<open>The group that \<open>beginSerialReplayWorkGroup\<close> admits meets these conditions.\<close>

lemma group_admitted:
  assumes run: "running dml d0 db c rows cur" and alone: "serial_alone (cl_WorkManifest c)"
    and beg: "beginSerialReplayWorkGroup db cl works = Inr bs"
  shows "length bs = length works \<and> (case replay_group dml now db cl (zip works bs) of
      Inl e \<Rightarrow> \<exists>w d. dml w d = None
    | Inr db' \<Rightarrow> same_frame db db' \<and> (\<exists>rows'. running dml d0 db' c rows'
        (cur @ map clear_receipt (map fst (filter (\<lambda>g. \<not> snd g) (zip works bs))))))"
proof -
  have a: "active db c rows" using run by (simp add: running_def)
  let ?ss = "group_rows db cl (wk_Step (hd works)) (wk_Step (last works))"
  have ne: "works \<noteq> []" and cont: "contiguous works None"
    and match: "map clear_receipt ?ss = map clear_receipt works" and bs: "bs = map committed ?ss"
    using beg by (auto simp: beginSerialReplayWorkGroup_def rbind_eq_Inr match_group_iff split: if_splits)
  have live: "claim_live db cl" and prior: "\<not> prior_open db (cl_ID cl) (wk_Step (hd works))"
    using match ne by (auto simp: group_rows_def split: if_splits)
  have m: "claim_matches cl c" using claim_live_active [OF a live] by (simp add: claim_matches_def)
  then have cw: "claim_works db (cl_ID cl) = rows" using a by (simp add: active_def claim_matches_def)
  have ss: "set ?ss \<subseteq> set rows" using live prior by (auto simp: group_rows_def cw)
  have len: "length ?ss = length works" using match map_eq_imp_length_eq by blast
  have nth: "clear_receipt (?ss ! i) = clear_receipt (works ! i) \<and> ?ss ! i \<in> set rows" if "i < length works" for i
    using that match ss len by (metis nth_map nth_mem subsetD)
  have last: "wk_Step w \<le> wk_Step (last works)" if w: "w \<in> set works" for w
  proof -
    obtain i where "i < length works" "works ! i = w" using w by (auto simp: in_set_conv_nth)
    then show ?thesis
      using contiguous_nth [OF cont, of i] contiguous_nth [OF cont, of "length works - 1"] ne
      by (simp add: last_conv_nth)
  qed
  have in_works: "clear_receipt v \<in> clear_receipt ` set works"
    if v: "v \<in> set rows" "\<not> committed v" "wk_Step v < wk_Step w" "w \<in> set works" for v w
  proof -
    have "wk_Step (hd works) \<le> wk_Step v" using prior v(1,2) unfolding prior_open_def cw by force
    moreover have "wk_Step v \<le> wk_Step (last works)" using last [OF v(4)] v(3) by simp
    ultimately obtain u where u: "u \<in> set works" "wk_Step u = wk_Step v" "wk_Kind u = replayWorkSerial"
      using contiguous_step [OF cont _ _ ne] by metis
    obtain i where i: "i < length works" "works ! i = u" using u(1) by (auto simp: in_set_conv_nth)
    have row: "?ss ! i \<in> set rows" "clear_receipt (?ss ! i) = clear_receipt u" using nth [OF i(1)] i(2) by auto
    have "clear_receipt (?ss ! i) = clear_receipt v"
      using alone row(1) v(1) u(2,3) clear_fields [OF row(2)] a
      unfolding serial_alone_def active_def by (metis clear_receipt_sel(1,5) image_eqI set_map)
    then show ?thesis using row(2) u(1) by (metis image_eqI)
  qed
  have fst_set: "fst ` set (zip works bs) = set works" using bs len by (simp flip: set_map)
  have "case replay_group dml now db cl (zip works bs) of
      Inl e \<Rightarrow> \<exists>w d. dml w d = None
    | Inr db' \<Rightarrow> same_frame db db' \<and> (\<exists>rows'. running dml d0 db' c rows'
        (cur @ map clear_receipt (map fst (filter (\<lambda>g. \<not> snd g) (zip works bs)))))"
  proof (rule replay_group_running [OF run m])
    show "\<forall>(w, b)\<in>set (zip works bs). \<exists>v\<in>set rows. clear_receipt v = clear_receipt w \<and> committed v = b"
      using nth len by (fastforce simp: set_zip bs)
    show "sorted_wrt (\<lambda>g h. wk_Step (fst g) < wk_Step (fst h)) (zip works bs)"
      using contiguous_sorted [OF cont] len by (simp add: sorted_wrt_iff_nth_less bs)
    show "\<forall>v\<in>set rows. \<forall>g\<in>set (zip works bs). \<not> committed v \<and> wk_Step v < wk_Step (fst g) \<longrightarrow>
        clear_receipt v \<in> clear_receipt ` fst ` set (zip works bs)"
      unfolding fst_set using in_works fst_set by blast
  qed
  then show ?thesis using bs len by simp
qed

lemma execute_group_running:
  assumes run: "running dml d0 db c rows cur" and alone: "serial_alone (cl_WorkManifest c)"
    and ex: "executeSerialReplayWorkGroup f dml now db cl works = (r, db')"
  shows "\<exists>rows' cur'. running dml d0 db' c rows' cur' \<and> same_frame db db'"
proof -
  consider "db' = db" | bs where "beginSerialReplayWorkGroup db cl works = Inr bs"
    "replay_group dml now db cl (zip works bs) = Inr db'"
    using ex by (auto simp: executeSerialReplayWorkGroup_def end_tx_def split: sum.splits if_splits TxFault.splits)
  then show ?thesis
  proof cases
    case 2
    then show ?thesis using group_admitted [OF run alone 2(1), of now] by auto
  qed (use run in auto)
qed

end
