(* ===== verification/ReplayDirect.thy ===== *)
theory ReplayDirect
  imports ReplayOnce
begin

text \<open>
  The replay without a claim (\<^verbatim>\<open>applyTransaction\<close> and the last part of
  \<^verbatim>\<open>applyTransactionBatchWithWorkers\<close> in \<^verbatim>\<open>internal/cdc/applier.go\<close>): a transaction, or a batch
  whose plan has nothing to run in parallel, is replayed in one target transaction that also moves
  the progress row. What its DML does to the data is that of its works, as in a claim.
\<close>

record directBatch =
  bt_Progress :: LSN
  bt_EndLSN :: LSN
  bt_Transactions :: int
  bt_Changes :: int
  bt_Works :: "replayClaimWork list"

definition applyTransactionBatch ::
  "TxFault \<Rightarrow> 'd dml \<Rightarrow> 'd ReplayDB \<Rightarrow> string \<Rightarrow> string \<Rightarrow> directBatch \<Rightarrow> LSN res \<times> 'd ReplayDB" where
  "applyTransactionBatch f dml db streamID generation b = end_tx f db
     (case replay_all dml (bt_Works b) (db_data db) of
        None \<Rightarrow> (Inl (Err ''cdc: replay transaction batch''), db)
      | Some d \<Rightarrow>
          (case updateStreamProgress TxOk (db\<lparr>db_data := d\<rparr>) streamID generation (bt_Progress b) (bt_EndLSN b)
                  (bt_Transactions b) (bt_Changes b) of
             (Inl e, _) \<Rightarrow> (Inl e, db)
           | (Inr _, db') \<Rightarrow> (Inr (bt_EndLSN b), db')))"

text \<open>One transaction, with the count of its changes and the work its changes are.\<close>

definition applyTransaction ::
  "TxFault \<Rightarrow> 'd dml \<Rightarrow> 'd ReplayDB \<Rightarrow> string \<Rightarrow> string \<Rightarrow> LSN \<Rightarrow> Transaction \<Rightarrow> replayClaimWork \<Rightarrow> LSN res \<times> 'd ReplayDB" where
  "applyTransaction f dml db streamID generation progress tx w = applyTransactionBatch f dml db streamID generation
     \<lparr>bt_Progress = progress, bt_EndLSN = tx_EndLSN tx, bt_Transactions = 1, bt_Changes = uint (ChangeCount tx), bt_Works = [w]\<rparr>"

section \<open>What was replayed\<close>

text \<open>The entries of a history: claims that were finalized and batches that were replayed without one.\<close>

datatype replayed = ReplayedClaim replayClaim | ReplayedBatch directBatch

fun en_start :: "replayed \<Rightarrow> LSN" where
  "en_start (ReplayedClaim c) = cl_StartLSN c"
| "en_start (ReplayedBatch b) = bt_Progress b"

fun en_end :: "replayed \<Rightarrow> LSN" where
  "en_end (ReplayedClaim c) = cl_EndLSN c"
| "en_end (ReplayedBatch b) = bt_EndLSN b"

fun en_transactions :: "replayed \<Rightarrow> int" where
  "en_transactions (ReplayedClaim c) = cl_Transactions c"
| "en_transactions (ReplayedBatch b) = bt_Transactions b"

fun en_changes :: "replayed \<Rightarrow> int" where
  "en_changes (ReplayedClaim c) = cl_Changes c"
| "en_changes (ReplayedBatch b) = bt_Changes b"

fun en_works :: "replayed \<Rightarrow> replayClaimWork list" where
  "en_works (ReplayedClaim c) = cl_WorkManifest c"
| "en_works (ReplayedBatch b) = bt_Works b"

section \<open>Its effect\<close>

lemma direct_effect:
  assumes "applyTransactionBatch f dml db s generation b = (r, db')"
  shows "(\<exists>e. r = Inl e) \<and> db' = db \<or> (\<exists>i d. db_identity db s = Some i \<and> id_Generation i = generation \<and>
    replay_all dml (bt_Works b) (db_data db) = Some d \<and>
    (case db_progress db s of
       None \<Rightarrow> bt_Progress b = 0 \<and> db' = db\<lparr>db_data := d,
         db_identity := (db_identity db)(s \<mapsto> i\<lparr>id_ProgressStarted := True\<rparr>),
         db_progress := (db_progress db)(s \<mapsto> \<lparr>pr_LSN = bt_EndLSN b, pr_Generation = Some generation,
           pr_Transactions = bt_Transactions b, pr_Rows = bt_Changes b\<rparr>)\<rparr>
     | Some p \<Rightarrow> pr_Generation p = Some generation \<and> pr_LSN p = bt_Progress b \<and> bt_Progress b < bt_EndLSN b \<and>
         db' = db\<lparr>db_data := d, db_identity := (db_identity db)(s \<mapsto> i\<lparr>id_ProgressStarted := True\<rparr>),
           db_progress := (db_progress db)(s \<mapsto> \<lparr>pr_LSN = bt_EndLSN b, pr_Generation = Some generation,
             pr_Transactions = pr_Transactions p + bt_Transactions b, pr_Rows = pr_Rows p + bt_Changes b\<rparr>)\<rparr>))"
  using assms
  by (auto simp: applyTransactionBatch_def updateStreamProgress_def end_tx_def Let_def
      split: option.splits if_splits TxFault.splits)

end
