(* ===== verification/ReplayHistory.thy ===== *)
theory ReplayHistory
  imports ReplayDirect
begin

text \<open>
  The histories of one stream: every sequence of \<^verbatim>\<open>EnsureStreamProgressIdentity\<close>,
  \<^verbatim>\<open>ensureReplayClaim\<close>, \<^verbatim>\<open>executeReplayWork\<close>,
  \<^verbatim>\<open>executeSerialReplayWorkGroup\<close>, \<^verbatim>\<open>finalizeReplayClaim\<close> and the batches and transactions
  replayed without a claim, from an empty target, with any arguments (a stale or foreign claim or
  generation included) and any connection fault, so crashes, retries and competing processes are such
  histories. \<open>final\<close> lists the claims finalized and the batches replayed so far. A batch ends after the
  progress it starts from: the reader hands out later transactions only.
\<close>

section \<open>The effect of each operation\<close>

text \<open>Creating and resuming\<close>

lemma insert_works_rows:
  "insert_works i ws rows = Inr rows' \<Longrightarrow>
   rows' = rows @ map (Pair i) (map clear_receipt ws) \<and> (\<forall>w\<in>set ws. length (wk_Digest w) = 32)"
proof (induction ws arbitrary: rows)
  case (Cons w ws)
  then have "insert_works i ws (rows @ [(i, clear_receipt w)]) = Inr rows'" and "length (wk_Digest w) = 32"
    by (auto simp: work_row_ok_def clear_receipt_def split: if_splits)
  then show ?case using Cons.IH by fastforce
qed simp

lemma validate_manifest_clear [simp]:
  "validateReplayClaimManifest c (map clear_receipt ws) = Inr () \<longleftrightarrow> validateReplayClaimManifest c ws = Inr ()"
  by (simp add: validate_manifest_iff comp_def)

lemma validate_manifest_works [simp]:
  "validateReplayClaimManifest (c\<lparr>cl_WorkManifest := ms\<rparr>) ws = Inr () \<longleftrightarrow> validateReplayClaimManifest c ws = Inr ()"
  by (simp add: validate_manifest_iff fence_ok_def)

definition progress_after_claim :: "StreamProgress option \<Rightarrow> replayClaim \<Rightarrow> StreamProgress option \<Rightarrow> bool" where
  "progress_after_claim before c after \<longleftrightarrow>
     (\<exists>p. after = Some p \<and> pr_LSN p = cl_StartLSN c \<and> pr_Generation p = Some (cl_StartGeneration c) \<and>
      (before = Some p \<or> before = None \<and> pr_LSN p = 0 \<and> pr_Transactions p = 0 \<and> pr_Rows p = 0))"

lemma create_claim_effect:
  assumes new: "create_claim db i desired works = Inr (c, db')"
    and idle: "db_claims db = []" "db_works db = []"
    and ident: "db_identity db (cl_StreamID desired) = Some i" "id_Base i = cl_Generation desired"
  shows "active db' c (map clear_receipt works) \<and> cl_StreamID c = cl_StreamID desired \<and>
    cl_WorkManifest c = map clear_receipt works \<and> db_data db' = db_data db \<and>
    cl_Generation c = cl_Generation desired \<and>
    progress_after_claim (db_progress db (cl_StreamID c)) c (db_progress db' (cl_StreamID c)) \<and>
    (\<exists>j. db_identity db' (cl_StreamID c) = Some j \<and> id_Base j = id_Base i)"
proof -
  define d where "d = (if cl_FenceGeneration desired = []
    then desired\<lparr>cl_FenceGeneration := replayFenceGeneration (cl_Generation desired) (cl_ID desired)\<rparr>
    else desired)\<lparr>cl_WorkManifest := map clear_receipt works\<rparr>"
  have sel: "cl_StreamID d = cl_StreamID desired" "cl_Generation d = cl_Generation desired"
    "cl_StartLSN d = cl_StartLSN desired" "cl_StartGeneration d = cl_StartGeneration desired"
    "cl_ID d = cl_ID desired" "cl_WorkManifest d = map clear_receipt works"
    by (simp_all add: d_def)
  obtain p db1 rows where valid: "validateReplayClaimManifest d works = Inr ()"
    and prog: "claim_progress db d = Inr (p, db1)"
    and start: "pr_LSN p = cl_StartLSN d" "pr_Generation p = Some (cl_StartGeneration d)"
    and row: "claim_row_ok db1 d"
    and rows: "insert_works (cl_ID d) works (db_works db1) = Inr rows"
    and fence: "fence_identity (db1\<lparr>db_claims := db_claims db1 @ [d], db_works := rows\<rparr>) d = Inr db'"
    and c: "c = d"
    using new by (auto simp: create_claim_def Let_def clone_eq_clear d_def rbind_eq_Inr split: if_splits prod.splits)
  have db1: "db_claims db1 = []" "db_works db1 = []" "db_data db1 = db_data db" "db_identity db1 = db_identity db"
    using prog idle by (auto simp: claim_progress_def Let_def split: option.splits if_splits)
  have db': "db' = db1\<lparr>db_claims := [d], db_works := rows,
      db_identity := (db_identity db)(cl_StreamID d \<mapsto>
        i\<lparr>id_Generation := cl_FenceGeneration d, id_ProgressStarted := True\<rparr>)\<rparr>"
    using fence ident by (auto simp: fence_identity_def db1 sel split: if_splits)
  have pr: "progress_after_claim (db_progress db (cl_StreamID d)) d (db_progress db1 (cl_StreamID d))"
    using prog start by (auto simp: claim_progress_def progress_after_claim_def Let_def split: option.splits if_splits)
  have "active db' d (map clear_receipt works)"
    using valid row insert_works_rows [OF rows] ident
    by (auto simp: active_def db' sel db1 fenced_def claim_row_ok_def barrier_def comp_def)
  then show ?thesis using pr ident by (simp add: c sel db' db1)
qed

lemma ensure_effect:
  assumes ex: "ensureReplayClaim f db desired works = (r, db')"
  shows "db' = db \<or> (\<exists>i c. db_identity db (cl_StreamID desired) = Some i \<and>
    id_Base i = cl_Generation desired \<and> readReplayClaim db (cl_StreamID desired) = Inr None \<and>
    create_claim db i desired works = Inr (c, db'))"
  using ex by (auto simp: ensureReplayClaim_def end_tx_def
      split: option.splits sum.splits if_splits TxFault.splits prod.splits)

text \<open>Finalization\<close>

lemma finalize_effect:
  assumes ex: "finalizeReplayClaim f db cl = (r, db')"
  shows "(\<exists>e. r = Inl e) \<and> db' = db \<or> (\<exists>i c ws p. db_identity db (cl_StreamID cl) = Some i \<and>
    readReplayClaim db (cl_StreamID cl) = Inr (Some c) \<and> readReplayClaimWorks db (cl_ID cl) = Inr ws \<and>
    validateReplayClaim c ws cl (cl_WorkManifest cl) = Inr () \<and> (\<forall>w\<in>set ws. committed w) \<and>
    db_progress db (cl_StreamID cl) = Some p \<and>
    db' = db\<lparr>db_progress := (db_progress db)(cl_StreamID cl \<mapsto>
         \<lparr>pr_LSN = cl_EndLSN cl, pr_Generation = Some (cl_FenceGeneration cl),
          pr_Transactions = pr_Transactions p + cl_Transactions cl,
          pr_Rows = pr_Rows p + cl_Changes cl\<rparr>),
        db_claims := filter (\<lambda>c. cl_ID c \<noteq> cl_ID cl) (db_claims db),
        db_works := filter (\<lambda>(id, w). id \<noteq> cl_ID cl) (db_works db)\<rparr>)"
proof (cases "(\<exists>e. r = Inl e) \<and> db' = db")
  case False
  then obtain i c ws db1 where i: "db_identity db (cl_StreamID cl) = Some i"
    and c: "readReplayClaim db (cl_StreamID cl) = Inr (Some c)"
    and ws: "readReplayClaimWorks db (cl_ID cl) = Inr ws"
    and valid: "validateReplayClaim c ws cl (cl_WorkManifest cl) = Inr ()"
    and comm: "\<forall>w\<in>set ws. committed w"
    and prog: "finalize_progress db cl = Inr db1" and del: "delete_claim db1 (cl_ID cl) = Inr db'"
    using ex by (auto simp: finalizeReplayClaim_def end_tx_def rbind_eq_Inr rwrap_eq_Inr
        split: option.splits sum.splits if_splits TxFault.splits)
  then show ?thesis
    by (auto simp: finalize_progress_def delete_claim_def split: option.splits if_splits)
qed blast

text \<open>\<^verbatim>\<open>EnsureStreamProgressIdentity\<close>\<close>

lemma identity_fresh:
  assumes "EnsureStreamProgressIdentity db cfg = (r, db')"
    and "db_identity db (sc_StreamID cfg) = None" "db_progress db (sc_StreamID cfg) = None" "db_claims db = []"
  shows "db' = db \<or> db' = db\<lparr>db_identity := (db_identity db)(sc_StreamID cfg \<mapsto>
    \<lparr>id_Base = sc_Generation cfg, id_Generation = sc_Generation cfg, id_ProgressStarted = False\<rparr>)\<rparr>"
  using assms
  by (auto simp: EnsureStreamProgressIdentity_def identity_for_def readReplayClaim_def Let_def split: if_splits)

lemma map_upd_same: "m k = Some x \<Longrightarrow> m(k \<mapsto> x) = m"
  by auto

lemma identity_again:
  assumes ex: "EnsureStreamProgressIdentity db cfg = (r, db')"
    and i: "db_identity db (sc_StreamID cfg) = Some i"
    and gen: "\<And>p active. db_progress db (sc_StreamID cfg) = Some p \<Longrightarrow>
      readReplayClaim db (sc_StreamID cfg) = Inr active \<Longrightarrow>
      pr_Generation p = Some (case active of None \<Rightarrow> id_Generation i | Some c \<Rightarrow> cl_StartGeneration c)"
  shows "db' = db \<or> (\<exists>b. db' = db\<lparr>db_identity :=
    (db_identity db)(sc_StreamID cfg \<mapsto> i\<lparr>id_ProgressStarted := b\<rparr>)\<rparr>)"
proof (cases "db' = db")
  case False
  let ?s = "sc_StreamID cfg"
  from False ex i obtain active p where read: "readReplayClaim db ?s = Inr active"
    and p: "db_progress db ?s = Some p"
    and adopt: "adopt_progress db ?s i
        (case active of None \<Rightarrow> id_Generation i | Some c \<Rightarrow> cl_StartGeneration c) p = (r, db')"
    by (auto simp: EnsureStreamProgressIdentity_def identity_for_def Let_def split: if_splits sum.splits option.splits)
  have same: "p\<lparr>pr_Generation := Some (case active of None \<Rightarrow> id_Generation i | Some c \<Rightarrow> cl_StartGeneration c)\<rparr> = p"
    using gen [OF p read] by (cases p) simp
  show ?thesis
    using adopt False p same by (auto simp: adopt_progress_def Let_def map_upd_same split: if_splits)
qed simp

section \<open>Histories\<close>

inductive replay_reach :: "'d dml \<Rightarrow> 'd \<Rightarrow> string \<Rightarrow> 'd ReplayDB \<Rightarrow> replayed list \<Rightarrow> bool" for dml d0 s where
  reach_start: "replay_reach dml d0 s
     \<lparr>db_identity = Map.empty, db_progress = Map.empty, db_claims = [], db_works = [], db_data = d0\<rparr> []"
| reach_identity: "replay_reach dml d0 s db final \<Longrightarrow> sc_StreamID cfg = s \<Longrightarrow>
     EnsureStreamProgressIdentity db cfg = (r, db') \<Longrightarrow> replay_reach dml d0 s db' final"
| reach_ensure: "replay_reach dml d0 s db final \<Longrightarrow> cl_StreamID desired = s \<Longrightarrow>
     serial_alone (cloneReplayWorkManifest works) \<Longrightarrow>
     ensureReplayClaim f db desired works = (r', db') \<Longrightarrow> replay_reach dml d0 s db' final"
| reach_work: "replay_reach dml d0 s db final \<Longrightarrow>
     executeReplayWork f dml now db claim w = (r, db') \<Longrightarrow> replay_reach dml d0 s db' final"
| reach_group: "replay_reach dml d0 s db final \<Longrightarrow>
     executeSerialReplayWorkGroup f dml now db claim ws = (r, db') \<Longrightarrow> replay_reach dml d0 s db' final"
| reach_finalize: "replay_reach dml d0 s db final \<Longrightarrow>
     finalizeReplayClaim f db claim = (r, db') \<Longrightarrow>
     replay_reach dml d0 s db' (final @ (if db_claims db' = [] then map ReplayedClaim (db_claims db) else []))"
| reach_direct: "replay_reach dml d0 s db final \<Longrightarrow> bt_Progress b < bt_EndLSN b \<Longrightarrow>
     applyTransactionBatch f dml db s generation b = (r'', db') \<Longrightarrow>
     replay_reach dml d0 s db' (final @ (if db_progress db' s = db_progress db s then [] else [ReplayedBatch b]))"

text \<open>
  The order in which the works of an entry were applied: those of a finalized claim each once and no
  work before one of an earlier step, those of a batch one after the other.
\<close>

fun replayed_order :: "replayed \<Rightarrow> replayClaimWork list \<Rightarrow> bool" where
  "replayed_order (ReplayedClaim c) ws \<longleftrightarrow> mset ws = mset (cl_WorkManifest c) \<and> sorted (map wk_Step ws)"
| "replayed_order (ReplayedBatch b) ws \<longleftrightarrow> ws = bt_Works b"

text \<open>Entries one after the other from one LSN to another.\<close>

fun chained :: "LSN \<Rightarrow> replayed list \<Rightarrow> LSN \<Rightarrow> bool" where
  "chained a [] b = (a = b)"
| "chained a (e # es) b = (en_start e = a \<and> a < en_end e \<and> chained (en_end e) es b)"

lemma chained_snoc: "chained a (es @ [e]) b \<longleftrightarrow> chained a es (en_start e) \<and> en_start e < en_end e \<and> b = en_end e"
  by (induction es arbitrary: a) auto

definition progress_counts :: "replayed list \<Rightarrow> StreamProgress option \<Rightarrow> bool" where
  "progress_counts final = (\<lambda>p. case p of None \<Rightarrow> final = []
   | Some p \<Rightarrow> chained 0 final (pr_LSN p) \<and> pr_Transactions p = sum_list (map en_transactions final) \<and>
       pr_Rows p = sum_list (map en_changes final))"

text \<open>The invariant: the tables, and the data.\<close>

definition tables_ok :: "string \<Rightarrow> 'd ReplayDB \<Rightarrow> bool" where
  "tables_ok s db \<longleftrightarrow> (case db_claims db of
     [] \<Rightarrow> db_works db = [] \<and> (case db_identity db s of None \<Rightarrow> db_progress db s = None
       | Some i \<Rightarrow> \<forall>p. db_progress db s = Some p \<longrightarrow> pr_Generation p = Some (id_Generation i))
   | c # _ \<Rightarrow> cl_StreamID c = s \<and> serial_alone (cl_WorkManifest c) \<and>
       (\<exists>p. db_progress db s = Some p \<and> pr_LSN p = cl_StartLSN c \<and> pr_Generation p = Some (cl_StartGeneration c)))"

definition data_ok :: "'d dml \<Rightarrow> 'd \<Rightarrow> 'd ReplayDB \<Rightarrow> replayed list \<Rightarrow> bool" where
  "data_ok dml d0 db final \<longleftrightarrow> (\<exists>orders d. list_all2 replayed_order final orders \<and>
     replay_all dml (concat orders) d0 = Some d \<and>
     (case db_claims db of [] \<Rightarrow> db_data db = d | c # _ \<Rightarrow> \<exists>rows cur. running dml d db c rows cur))"

definition replay_inv :: "'d dml \<Rightarrow> 'd \<Rightarrow> string \<Rightarrow> 'd ReplayDB \<Rightarrow> replayed list \<Rightarrow> bool" where
  "replay_inv dml d0 s db final \<longleftrightarrow>
     tables_ok s db \<and> progress_counts final (db_progress db s) \<and> data_ok dml d0 db final"

subsection \<open>Every operation preserves it\<close>

lemma inv_claims:
  assumes "replay_inv dml d0 s db final" and "db_claims db \<noteq> []"
  obtains c rows where "db_claims db = [c]" "active db c rows" "cl_StreamID c = s"
  using assms
  by (auto simp: replay_inv_def data_ok_def running_def active_def tables_ok_def neq_Nil_conv)

lemma active_read:
  assumes "active db c rows" and "readReplayClaim db (cl_StreamID c) = Inr x"
  shows "\<exists>c'. x = Some c' \<and> c' = c\<lparr>cl_WorkManifest := []\<rparr>"
  using assms by (auto simp: active_def readReplayClaim_def rbind_eq_Inr decodeReplayClaim_def split: if_splits)

lemma inv_start:
  "replay_inv dml d0 s
     \<lparr>db_identity = Map.empty, db_progress = Map.empty, db_claims = [], db_works = [], db_data = d0\<rparr> []"
  by (auto simp: replay_inv_def tables_ok_def progress_counts_def data_ok_def intro!: exI [of _ "[]"])

lemma running_identity:
  "running dml d (db\<lparr>db_identity := (db_identity db)(cl_StreamID c \<mapsto> i\<lparr>id_ProgressStarted := b\<rparr>)\<rparr>) c rows cur"
  if "running dml d db c rows cur" "db_identity db (cl_StreamID c) = Some i"
  using that by (auto simp: running_def active_def fenced_def claim_row_ok_def)

lemma data_ok_step:
  assumes ok: "data_ok dml d0 db final" and c: "db_claims db = [c]" "db_claims db' = [c]"
    and step: "\<And>d rows cur. running dml d db c rows cur \<Longrightarrow> \<exists>rows' cur'. running dml d db' c rows' cur'"
  shows "data_ok dml d0 db' final"
proof -
  obtain orders d rows cur where "list_all2 replayed_order final orders"
      "replay_all dml (concat orders) d0 = Some d" "running dml d db c rows cur"
    using ok c by (auto simp: data_ok_def)
  then show ?thesis using step [of d rows cur] c by (auto simp: data_ok_def)
qed

lemma inv_identity:
  assumes inv: "replay_inv dml d0 s db final" and s: "sc_StreamID cfg = s"
    and ex: "EnsureStreamProgressIdentity db cfg = (r, db')"
  shows "replay_inv dml d0 s db' final"
proof (cases "db_claims db")
  case Nil
  show ?thesis
  proof (cases "db_identity db s")
    case None
    then have "db_progress db s = None" using inv Nil by (simp add: replay_inv_def tables_ok_def)
    with identity_fresh [OF ex] None Nil s inv show ?thesis
      by (auto simp: replay_inv_def tables_ok_def data_ok_def)
  next
    case (Some i)
    have "db' = db \<or> (\<exists>b. db' = db\<lparr>db_identity := (db_identity db)(s \<mapsto> i\<lparr>id_ProgressStarted := b\<rparr>)\<rparr>)"
      using identity_again [OF ex] Some Nil s inv
      by (auto simp: replay_inv_def tables_ok_def readReplayClaim_def)
    then show ?thesis using inv Nil Some by (auto simp: replay_inv_def tables_ok_def data_ok_def)
  qed
next
  case (Cons c' cs)
  then obtain c rows where c: "db_claims db = [c]" "active db c rows" "cl_StreamID c = s"
    using inv_claims [OF inv] by (metis list.distinct(1))
  then obtain i where i: "db_identity db s = Some i" by (auto simp: active_def fenced_def)
  have "db' = db \<or> (\<exists>b. db' = db\<lparr>db_identity := (db_identity db)(s \<mapsto> i\<lparr>id_ProgressStarted := b\<rparr>)\<rparr>)"
    using identity_again [OF ex] i c s inv active_read [OF c(2)]
    by (fastforce simp: replay_inv_def tables_ok_def)
  then show ?thesis
  proof (elim disjE exE)
    fix b assume db': "db' = db\<lparr>db_identity := (db_identity db)(s \<mapsto> i\<lparr>id_ProgressStarted := b\<rparr>)\<rparr>"
    have step: "\<exists>rows' cur'. running dml d db' c rows' cur'" if "running dml d db c rows cur" for d rows cur
      using running_identity [OF that, of i b] i c(3) by (auto simp: db')
    have "data_ok dml d0 db' final"
      by (rule data_ok_step [OF _ c(1) _ step]) (use inv c(1) in \<open>simp_all add: replay_inv_def db'\<close>)
    then show ?thesis using inv c by (simp add: replay_inv_def tables_ok_def db')
  qed (use inv in simp)
qed

lemma inv_ensure:
  assumes inv: "replay_inv dml d0 s db final" and s: "cl_StreamID desired = s"
    and alone: "serial_alone (cloneReplayWorkManifest works)"
    and ex: "ensureReplayClaim f db desired works = (r, db')"
  shows "replay_inv dml d0 s db' final"
  using ensure_effect [OF ex]
proof (elim disjE exE conjE)
  fix i c
  assume i: "db_identity db (cl_StreamID desired) = Some i" "id_Base i = cl_Generation desired"
    and read: "readReplayClaim db (cl_StreamID desired) = Inr None"
    and new: "create_claim db i desired works = Inr (c, db')"
  have idle: "db_claims db = []"
  proof (rule ccontr)
    assume "db_claims db \<noteq> []"
    from inv_claims [OF inv this] obtain c rows where "active db c rows" "cl_StreamID c = s" by metis
    then show False using active_read read s by fastforce
  qed
  then have works: "db_works db = []" using inv by (simp add: replay_inv_def tables_ok_def)
  note eff = create_claim_effect [OF new idle works i]
  then have c: "db_claims db' = [c]" "cl_StreamID c = s" by (simp_all add: active_def s)
  obtain d orders where d: "list_all2 replayed_order final orders" "replay_all dml (concat orders) d0 = Some d"
      "db_data db = d"
    using inv idle by (auto simp: replay_inv_def data_ok_def)
  have "running dml d db' c (map clear_receipt works) []"
    using eff d(3) by (simp add: running_def filter_empty_conv)
  then have "data_ok dml d0 db' final" using d(1,2) c by (auto simp: data_ok_def)
  moreover have "tables_ok s db'"
    using eff alone by (auto simp: tables_ok_def c progress_after_claim_def clone_eq_clear s)
  moreover have "progress_counts final (db_progress db' s)"
    using eff inv s by (auto simp: replay_inv_def progress_counts_def progress_after_claim_def)
  ultimately show ?thesis by (simp add: replay_inv_def)
qed (use inv in simp)

text \<open>Works and groups only move the claim in progress on.\<close>

lemma inv_running_step:
  assumes inv: "replay_inv dml d0 s db final" and frame: "same_frame db db'"
    and step: "\<And>d c rows cur. running dml d db c rows cur \<Longrightarrow> db_claims db = [c] \<Longrightarrow>
      \<exists>rows' cur'. running dml d db' c rows' cur'"
    and ne: "db_claims db \<noteq> []"
  shows "replay_inv dml d0 s db' final"
proof -
  obtain c rows where c: "db_claims db = [c]" "active db c rows" using inv_claims [OF inv ne] by metis
  have f: "db_claims db' = db_claims db" "db_identity db' = db_identity db" "db_progress db' = db_progress db"
    using frame by (simp_all add: same_frame_def)
  have "data_ok dml d0 db' final"
    using inv step c(1) f(1) data_ok_step [of dml d0 db final c db'] by (simp add: replay_inv_def)
  then show ?thesis using inv c f by (simp add: replay_inv_def tables_ok_def)
qed

lemma not_live_idle: "db_claims db = [] \<Longrightarrow> \<not> claim_live db c"
  by (simp add: claim_live_def)

lemma inv_work:
  assumes inv: "replay_inv dml d0 s db final"
    and ex: "executeReplayWork f dml now db cl w = (r, db')"
  shows "replay_inv dml d0 s db' final"
proof (cases "db_claims db = []")
  case True
  then have "db_works db = []" using inv by (simp add: replay_inv_def tables_ok_def)
  then have "db' = db"
    using ex by (auto simp: executeReplayWork_def beginReplayClaimWork_def claim_works_def)
  then show ?thesis using inv by simp
next
  case False
  obtain c rows where c: "db_claims db = [c]" using inv_claims [OF inv False] by metis
  obtain d cur rows where "running dml d db c rows cur" using inv c by (auto simp: replay_inv_def data_ok_def)
  then have "same_frame db db'" using execute_work_running [OF _ ex] by blast
  then show ?thesis by (rule inv_running_step [OF inv _ _ False]) (use execute_work_running [OF _ ex] in blast)
qed

lemma inv_group:
  assumes inv: "replay_inv dml d0 s db final"
    and ex: "executeSerialReplayWorkGroup f dml now db cl ws = (r, db')"
  shows "replay_inv dml d0 s db' final"
proof (cases "db_claims db = []")
  case True
  then have "db_works db = []" using inv by (simp add: replay_inv_def tables_ok_def)
  then have "group_rows db cl a b = []" for a b by (simp add: group_rows_def claim_works_def)
  then have "db' = db"
    using ex by (cases ws) (auto simp: executeSerialReplayWorkGroup_def beginSerialReplayWorkGroup_def split: if_splits)
  then show ?thesis using inv by simp
next
  case False
  obtain c rows where c: "db_claims db = [c]" using inv_claims [OF inv False] by metis
  have alone: "serial_alone (cl_WorkManifest c)" using inv c by (simp add: replay_inv_def tables_ok_def)
  obtain d cur rows where "running dml d db c rows cur" using inv c by (auto simp: replay_inv_def data_ok_def)
  then have "same_frame db db'" using execute_group_running [OF _ alone ex] by blast
  then show ?thesis
    by (rule inv_running_step [OF inv _ _ False]) (use execute_group_running [OF _ alone ex] c in auto)
qed

lemma validate_claim_same:
  "validateReplayClaim st ws cl ds = Inr () \<Longrightarrow>
   cl_ID st = cl_ID cl \<and> cl_StreamID st = cl_StreamID cl \<and> cl_StartLSN st = cl_StartLSN cl \<and>
   cl_EndLSN st = cl_EndLSN cl \<and> cl_FenceGeneration st = cl_FenceGeneration cl \<and>
   cl_Transactions st = cl_Transactions cl \<and> cl_Changes st = cl_Changes cl"
  by (auto simp: validateReplayClaim_def split: if_splits)

lemma active_finalized_works:
  assumes "active db c rows" and "readReplayClaimWorks db (cl_ID c) = Inr ws"
  shows "set ws = set rows"
  using assms by (auto simp: active_def readReplayClaimWorks_def Let_def split: if_splits)

lemma inv_finalize:
  assumes inv: "replay_inv dml d0 s db final"
    and ex: "finalizeReplayClaim f db cl = (r, db')"
  shows "replay_inv dml d0 s db' (final @ (if db_claims db' = [] then map ReplayedClaim (db_claims db) else []))"
  using finalize_effect [OF ex]
proof (elim disjE exE conjE)
  assume "db' = db"
  then show ?thesis using inv by simp
next
  fix i c0 ws p
  assume i: "db_identity db (cl_StreamID cl) = Some i"
    and read: "readReplayClaim db (cl_StreamID cl) = Inr (Some c0)"
    and works: "readReplayClaimWorks db (cl_ID cl) = Inr ws"
    and valid: "validateReplayClaim c0 ws cl (cl_WorkManifest cl) = Inr ()"
    and comm: "\<forall>w\<in>set ws. committed w"
    and p: "db_progress db (cl_StreamID cl) = Some p"
    and db': "db' = db\<lparr>db_progress := (db_progress db)(cl_StreamID cl \<mapsto>
         \<lparr>pr_LSN = cl_EndLSN cl, pr_Generation = Some (cl_FenceGeneration cl),
          pr_Transactions = pr_Transactions p + cl_Transactions cl,
          pr_Rows = pr_Rows p + cl_Changes cl\<rparr>),
        db_claims := filter (\<lambda>c. cl_ID c \<noteq> cl_ID cl) (db_claims db),
        db_works := filter (\<lambda>(id, w). id \<noteq> cl_ID cl) (db_works db)\<rparr>"
  have ne: "db_claims db \<noteq> []" using read by (auto simp: readReplayClaim_def)
  obtain c rows0 where c: "db_claims db = [c]" "active db c rows0" "cl_StreamID c = s"
    using inv_claims [OF inv ne] by metis
  have stream: "cl_StreamID cl = s"
    using read c(1,3) by (auto simp: readReplayClaim_def split: if_splits)
  have c0: "c0 = c\<lparr>cl_WorkManifest := []\<rparr>" using active_read [OF c(2)] read stream c(3) by simp
  note same = validate_claim_same [OF valid, unfolded c0, simplified]
  obtain orders d rows cur where o: "list_all2 replayed_order final orders"
      "replay_all dml (concat orders) d0 = Some d" and run: "running dml d db c rows cur"
    using inv c(1) by (auto simp: replay_inv_def data_ok_def)
  have a: "active db c rows" using run by (simp add: running_def)
  have all: "\<forall>w\<in>set rows. committed w"
    using active_finalized_works [OF a] works comm same by simp
  have "filter committed rows = rows" using all by simp
  then have order: "replayed_order (ReplayedClaim c) cur"
    using run a by (auto simp: running_def active_def simp flip: mset_map)
  have empty: "db_claims db' = []" "db_works db' = []"
    using c(1) a same by (auto simp: db' active_def filter_empty_conv)
  have ident: "db_identity db' s = Some i" "id_Generation i = cl_FenceGeneration c"
    using i stream a c(3) by (auto simp: db' active_def fenced_def)
  have start: "pr_LSN p = cl_StartLSN c" "cl_StartLSN c < cl_EndLSN c"
    using inv c(1) p stream a by (auto simp: replay_inv_def tables_ok_def active_def claim_row_ok_def)
  have "tables_ok s db'" using empty ident same stream by (auto simp: tables_ok_def db')
  moreover have "progress_counts (final @ [ReplayedClaim c]) (db_progress db' s)"
    using inv p start same stream by (auto simp: replay_inv_def progress_counts_def db' chained_snoc)
  moreover have "data_ok dml d0 db' (final @ [ReplayedClaim c])"
    using o order run empty
    by (auto simp: data_ok_def db' running_def intro!: exI [of _ "orders @ [cur]"] list_all2_appendI)
  ultimately show ?thesis using empty c(1) by (simp add: replay_inv_def)
qed

text \<open>A batch without a claim is refused while a claim is in progress.\<close>

lemma fenced_generation:
  assumes inv: "replay_inv dml d0 s db final" and ne: "db_claims db \<noteq> []"
  shows "\<exists>i p. db_identity db s = Some i \<and> db_progress db s = Some p \<and> pr_Generation p \<noteq> Some (id_Generation i)"
proof -
  obtain c rows where c: "db_claims db = [c]" "active db c rows" "cl_StreamID c = s"
    using inv_claims [OF inv ne] by metis
  moreover obtain p where "db_progress db s = Some p" "pr_Generation p = Some (cl_StartGeneration c)"
    using inv c(1) by (auto simp: replay_inv_def tables_ok_def)
  moreover have "cl_FenceGeneration c \<noteq> cl_StartGeneration c"
    using c(2) unfolding active_def validate_manifest_iff fence_ok_def by blast
  ultimately show ?thesis by (auto simp: active_def fenced_def)
qed

lemma inv_direct:
  assumes inv: "replay_inv dml d0 s db final" and lsn: "bt_Progress b < bt_EndLSN b"
    and ex: "applyTransactionBatch f dml db s generation b = (r, db')"
  shows "replay_inv dml d0 s db' (final @ (if db_progress db' s = db_progress db s then [] else [ReplayedBatch b]))"
  using direct_effect [OF ex]
proof (elim disjE exE conjE)
  assume "db' = db"
  then show ?thesis using inv by simp
next
  fix i d
  assume i: "db_identity db s = Some i" "id_Generation i = generation"
    and d: "replay_all dml (bt_Works b) (db_data db) = Some d"
    and eff: "case db_progress db s of
       None \<Rightarrow> bt_Progress b = 0 \<and> db' = db\<lparr>db_data := d,
         db_identity := (db_identity db)(s \<mapsto> i\<lparr>id_ProgressStarted := True\<rparr>),
         db_progress := (db_progress db)(s \<mapsto> \<lparr>pr_LSN = bt_EndLSN b, pr_Generation = Some generation,
           pr_Transactions = bt_Transactions b, pr_Rows = bt_Changes b\<rparr>)\<rparr>
     | Some p \<Rightarrow> pr_Generation p = Some generation \<and> pr_LSN p = bt_Progress b \<and> bt_Progress b < bt_EndLSN b \<and>
         db' = db\<lparr>db_data := d, db_identity := (db_identity db)(s \<mapsto> i\<lparr>id_ProgressStarted := True\<rparr>),
           db_progress := (db_progress db)(s \<mapsto> \<lparr>pr_LSN = bt_EndLSN b, pr_Generation = Some generation,
             pr_Transactions = pr_Transactions p + bt_Transactions b, pr_Rows = pr_Rows p + bt_Changes b\<rparr>)\<rparr>"
  have idle: "db_claims db = []"
  proof (rule ccontr)
    assume "db_claims db \<noteq> []"
    from fenced_generation [OF inv this] show False using i eff by auto
  qed
  have works: "db_works db = []" using inv idle by (simp add: replay_inv_def tables_ok_def)
  obtain orders where o: "list_all2 replayed_order final orders" "replay_all dml (concat orders) d0 = Some (db_data db)"
    using inv idle by (auto simp: replay_inv_def data_ok_def)
  have "map_option pr_LSN (db_progress db' s) \<noteq> map_option pr_LSN (db_progress db s)"
    using eff lsn by (auto split: option.splits)
  then have moved: "db_progress db' s \<noteq> db_progress db s" by auto
  have row: "db_claims db' = []" "db_works db' = []" "db_data db' = d"
      "\<exists>j. db_identity db' s = Some j \<and> id_Generation j = generation"
      "\<exists>p. db_progress db' s = Some p \<and> pr_Generation p = Some generation"
    using eff idle works i by (auto split: option.splits)
  have "tables_ok s db'" using row by (auto simp: tables_ok_def)
  moreover have "progress_counts (final @ [ReplayedBatch b]) (db_progress db' s)"
    using eff inv lsn by (auto simp: replay_inv_def progress_counts_def chained_snoc split: option.splits)
  moreover have "data_ok dml d0 db' (final @ [ReplayedBatch b])"
    using o d row by (auto simp: data_ok_def intro!: exI [of _ "orders @ [bt_Works b]"] list_all2_appendI)
  ultimately show ?thesis using moved by (simp add: replay_inv_def)
qed

theorem replay_inv_reach: "replay_reach dml d0 s db final \<Longrightarrow> replay_inv dml d0 s db final"
  by (induction rule: replay_reach.induct)
    (blast intro: inv_start inv_identity inv_ensure inv_work inv_group inv_finalize inv_direct)+

lemma reach_manifests:
  assumes "replay_reach dml d0 s db final"
  shows "\<forall>c. ReplayedClaim c \<in> set final \<longrightarrow> manifest_rows (cl_WorkManifest c)"
  using assms
proof (induction rule: replay_reach.induct)
  case (reach_finalize db final f claim r db')
  have "manifest_rows (cl_WorkManifest c)" if c: "c \<in> set (db_claims db)" for c
  proof -
    have ne: "db_claims db \<noteq> []" using c by auto
    obtain c' rows where "db_claims db = [c']" "active db c' rows"
      using inv_claims [OF replay_inv_reach [OF reach_finalize.hyps(1)] ne] by metis
    then show ?thesis using c by (auto simp: active_def validate_manifest_iff)
  qed
  then show ?case using reach_finalize.IH by auto
qed auto

end
