(* ===== verification/ReplayExecute.thy ===== *)
theory ReplayExecute
  imports ReplayPlanProps ReplayHistory
begin

text \<open>
  The executor (\<^verbatim>\<open>internal/cdc/replay_execute.go\<close>): the checks it makes on a plan before it
  starts, the distribution of the lanes of a step over the target sessions, and the replay of a plan on
  the durable state. The sessions of a step run concurrently: a schedule lists which session makes the
  next turn and how its connection behaves; \<^verbatim>\<open>group.Wait\<close> has not returned (\<open>None\<close>)
  while a session has works left. The cancellation of the other sessions after an error is a failing
  turn of the schedule. The hooks that only tests set are left out.
\<close>

section \<open>Checking a plan\<close>

fun check_lane_changes ::
  "nat \<Rightarrow> nat \<Rightarrow> Change list \<Rightarrow> relationBatchedChange list \<Rightarrow> relationBatchedChange list res" where
  "check_lane_changes i k [] items = Inr items"
| "check_lane_changes i k (c # cs) [] = Inl (Err ''cdc: replay lane omits a source change'')"
| "check_lane_changes i k (c # cs) (it # items) =
     (if rbc_transactionIndex it \<noteq> i \<or> rbc_changeIndex it \<noteq> k \<or> rbc_change it \<noteq> c \<or> rbc_relation it = None
      then Inl (Err ''cdc: replay lane source change order is invalid'')
      else check_lane_changes i (Suc k) cs items)"

fun check_lane_transactions ::
  "Transaction list \<Rightarrow> int \<Rightarrow> nat list \<Rightarrow> relationBatchedChange list \<Rightarrow> int \<Rightarrow> (relationBatchedChange list \<times> int) res" where
  "check_lane_transactions txs previous [] items expected = Inr (items, expected)"
| "check_lane_transactions txs previous (i # is) items expected =
     (if int i \<le> previous \<or> i \<ge> length txs then Inl (Err ''cdc: replay lane has invalid transaction order'')
      else if tx_Spill (txs ! i) \<noteq> None then Inl (Err ''cdc: replay lane contains a spilled transaction'')
      else rbind (check_lane_changes i 0 (tx_Changes (txs ! i)) items) (\<lambda>items.
        check_lane_transactions txs (int i) is items (expected + uint (ChangeCount (txs ! i)))))"

definition validateReplayPlanLane :: "replayPlanLane \<Rightarrow> Transaction list \<Rightarrow> unit res" where
  "validateReplayPlanLane lane txs =
     rbind (check_lane_transactions txs (-1) (ln_TransactionIndexes lane) (ln_Items lane) 0) (\<lambda>(items, expected).
     if items \<noteq> [] then Inl (Err ''cdc: replay lane contains an unclaimed source change'')
     else if wk_ExpectedTransactions (ln_Work lane) \<noteq> int (length (ln_TransactionIndexes lane)) \<or>
             wk_ExpectedChanges (ln_Work lane) \<noteq> expected
     then Inl (Err ''cdc: replay lane receipt counters do not cover its source transactions'')
     else Inr ())"

text \<open>The parallel steps: \<open>mark_transactions\<close> marks the transactions of all lanes.\<close>

fun mark_transactions :: "nat list \<Rightarrow> bool list \<Rightarrow> bool list res" where
  "mark_transactions [] seen = Inr seen"
| "mark_transactions (i # is) seen =
     (if i \<ge> length seen \<or> seen ! i
      then Inl (Err ''cdc: replay step has duplicate or invalid transaction coverage'')
      else mark_transactions is (seen[i := True]))"

definition lanes_transactions :: "replayPlanLane list \<Rightarrow> nat list" where
  "lanes_transactions lanes = concat (map ln_TransactionIndexes lanes)"

definition check_step ::
  "replayPlan \<Rightarrow> Transaction list \<Rightarrow> replayPlanStep \<Rightarrow> bool list \<times> nat \<Rightarrow> (bool list \<times> nat) res" where
  "check_step plan txs step = (\<lambda>(seen, n).
     if st_SerialTransaction step \<ge> 0
     then let i = nat (st_SerialTransaction step) in
       if st_Lanes step \<noteq> [] \<or> i \<ge> length txs \<or> seen ! i \<or> i \<noteq> n
       then Inl (Err ''cdc: replay serial step has invalid coverage'')
       else (case replayPlanWork plan (int (st_Index step)) 0 of
           None \<Rightarrow> Inl (Err ''cdc: replay serial step has invalid receipt counters'')
         | Some w \<Rightarrow>
             if wk_ExpectedTransactions w \<noteq> 1 \<or> wk_ExpectedChanges w \<noteq> uint (ChangeCount (txs ! i))
             then Inl (Err ''cdc: replay serial step has invalid receipt counters'')
             else Inr (seen[i := True], Suc n))
     else if st_Lanes step = [] then Inl (Err ''cdc: replay parallel step is empty'')
     else let is = lanes_transactions (st_Lanes step) in
       rbind (mark_transactions is seen) (\<lambda>seen.
       if \<exists>offset<length is. n + offset \<notin> set is
       then Inl (Err ''cdc: replay step does not cover one contiguous source epoch'')
       else Inr (seen, n + length is)))"

fun check_steps ::
  "replayPlan \<Rightarrow> Transaction list \<Rightarrow> nat \<Rightarrow> replayPlanStep list \<Rightarrow> bool list \<times> nat \<Rightarrow> (bool list \<times> nat) res" where
  "check_steps plan txs k [] st = Inr st"
| "check_steps plan txs k (s # ss) st =
     (if st_Index s \<noteq> k then Inl (Err ''cdc: replay plan step indexes are not contiguous'')
      else rbind (check_step plan txs s st) (check_steps plan txs (Suc k) ss))"

definition validateReplayPlanExecution :: "replayPlan \<Rightarrow> Transaction list \<Rightarrow> unit res" where
  "validateReplayPlanExecution plan txs =
     rbind (check_steps plan txs 0 (pl_Steps plan) (replicate (length txs) False, 0)) (\<lambda>(seen, n).
     if \<not> list_all id seen then Inl (Err ''cdc: replay plan omits a source transaction'')
     else if replayPlanWorkTransactions (pl_Works plan) \<noteq> cl_Transactions (pl_Claim plan) \<or>
             replayPlanWorkChanges (pl_Works plan) \<noteq> cl_Changes (pl_Claim plan)
     then Inl (Err ''cdc: replay work manifest does not cover the claim counters'')
     else Inr ())"

section \<open>Distributing lanes over sessions\<close>

text \<open>Largest lanes first, then by lane; each goes to the session with the least load, the first
  of several.\<close>

definition lane_order :: "replayPlanLane \<Rightarrow> int \<times> nat" where
  "lane_order l = (- wk_ExpectedChanges (ln_Work l), ln_Lane l)"

definition least_loaded :: "int list \<Rightarrow> nat" where
  "least_loaded loads = foldl (\<lambda>w k. if loads ! k < loads ! w then k else w) 0 [1..<length loads]"

fun assign_buckets ::
  "Transaction list \<Rightarrow> replayPlanLane list \<Rightarrow> replayPlanLane list list \<times> int list \<Rightarrow> replayPlanLane list list res" where
  "assign_buckets txs [] (buckets, loads) = Inr buckets"
| "assign_buckets txs (l # ls) (buckets, loads) =
     rbind (validateReplayPlanLane l txs) (\<lambda>_.
     let w = least_loaded loads in
     assign_buckets txs ls (buckets[w := buckets ! w @ [l]],
       loads[w := loads ! w + wk_ExpectedChanges (ln_Work l)]))"

definition step_buckets :: "nat \<Rightarrow> Transaction list \<Rightarrow> replayPlanLane list \<Rightarrow> replayPlanLane list list res" where
  "step_buckets workers txs lanes =
     assign_buckets txs (sort_key lane_order lanes) (replicate workers [], replicate workers 0)"

section \<open>Running a plan\<close>

record turn =
  tn_worker :: nat
  tn_fault :: TxFault
  tn_now :: GoTime

text \<open>The goroutines of one step: \<open>exec\<close> is \<^verbatim>\<open>a.executeReplayWork\<close> in the turn of a
  session, \<open>buckets\<close> the works of the sessions. A session stops at its first error; the first error of
  all is reported.\<close>

fun run_workers ::
  "(turn \<Rightarrow> replayClaimWork \<Rightarrow> 's \<Rightarrow> unit res \<times> 's) \<Rightarrow> turn list \<Rightarrow> replayClaimWork list list \<Rightarrow> error option \<Rightarrow>
     's \<Rightarrow> unit res option \<times> 's" where
  "run_workers exec [] buckets err s =
     (if list_all (\<lambda>b. b = []) buckets
      then Some (case err of None \<Rightarrow> Inr () | Some e \<Rightarrow> Inl e) else None, s)"
| "run_workers exec (t # ts) buckets err s =
     (if tn_worker t \<ge> length buckets then run_workers exec ts buckets err s
      else case buckets ! tn_worker t of
        [] \<Rightarrow> run_workers exec ts buckets err s
      | w # ws \<Rightarrow> (case exec t w s of
          (Inr _, s) \<Rightarrow> run_workers exec ts (buckets[tn_worker t := ws]) err s
        | (Inl e, s) \<Rightarrow> run_workers exec ts (buckets[tn_worker t := []])
            (case err of None \<Rightarrow> Some e | Some e' \<Rightarrow> Some e') s))"

definition exec_turn ::
  "'d dml \<Rightarrow> replayClaim \<Rightarrow> turn \<Rightarrow> replayClaimWork \<Rightarrow> 'd ReplayDB \<Rightarrow> unit res \<times> 'd ReplayDB" where
  "exec_turn dml claim t w db = executeReplayWork (tn_fault t) dml (tn_now t) db claim w"

text \<open>The works of a serial run.\<close>

fun group_works :: "replayPlan \<Rightarrow> Transaction list \<Rightarrow> replayPlanStep list \<Rightarrow> replayClaimWork list res" where
  "group_works plan txs [] = Inr []"
| "group_works plan txs (s # ss) = (case replayPlanWork plan (int (st_Index s)) 0 of
     None \<Rightarrow> Inl (Err ''cdc: replay serial step has no exact work manifest'')
   | Some w \<Rightarrow>
       if wk_Kind w \<noteq> replayWorkSerial then Inl (Err ''cdc: replay serial step has no exact work manifest'')
       else if st_SerialTransaction s < 0 \<or> st_SerialTransaction s \<ge> int (length txs)
       then Inl (Err ''cdc: replay serial step has invalid transaction'')
       else rbind (group_works plan txs ss) (\<lambda>ws. Inr (w # ws)))"

text \<open>What the environment does while a plan runs: the schedule of each parallel step, the fault and
  time of each serial group, and the fault of the finalization.\<close>

record replayEnv =
  en_turns :: "nat \<Rightarrow> turn list"
  en_group :: "nat \<Rightarrow> TxFault \<times> GoTime"
  en_final :: TxFault

definition is_serial :: "replayPlanStep \<Rightarrow> bool" where
  "is_serial s \<longleftrightarrow> st_SerialTransaction s \<ge> 0"

function execute_steps ::
  "'d dml \<Rightarrow> replayEnv \<Rightarrow> nat \<Rightarrow> replayPlan \<Rightarrow> Transaction list \<Rightarrow> replayPlanStep list \<Rightarrow> 'd ReplayDB \<Rightarrow>
     unit res option \<times> 'd ReplayDB" where
  "execute_steps dml env workers plan txs [] db = (Some (Inr ()), db)"
| "execute_steps dml env workers plan txs (s # ss) db =
     (if is_serial s
      then (case group_works plan txs (s # takeWhile is_serial ss) of
          Inl e \<Rightarrow> (Some (Inl e), db)
        | Inr works \<Rightarrow> (case executeSerialReplayWorkGroup (fst (en_group env (st_Index s))) dml
              (snd (en_group env (st_Index s))) db (pl_Claim plan) works of
            (Inl e, db) \<Rightarrow> (Some (Inl e), db)
          | (Inr _, db) \<Rightarrow> execute_steps dml env workers plan txs (dropWhile is_serial ss) db))
      else (case step_buckets workers txs (st_Lanes s) of
          Inl e \<Rightarrow> (Some (Inl e), db)
        | Inr buckets \<Rightarrow> (case run_workers (exec_turn dml (pl_Claim plan)) (en_turns env (st_Index s))
              (map (map ln_Work) buckets) None db of
            (Some (Inr _), db) \<Rightarrow> execute_steps dml env workers plan txs ss db
          | r \<Rightarrow> r)))"
  by pat_completeness auto
termination
  by (relation "measure (\<lambda>(dml, env, workers, plan, txs, steps, db). length steps)")
    (auto simp: less_Suc_eq_le length_dropWhile_le)

definition executeReplayPlan ::
  "'d dml \<Rightarrow> replayEnv \<Rightarrow> nat \<Rightarrow> replayPlan \<Rightarrow> Transaction list \<Rightarrow> 'd ReplayDB \<Rightarrow> unit res option \<times> 'd ReplayDB" where
  "executeReplayPlan dml env workers plan txs db =
     (if workers = 0 then (Some (Inl (Err ''cdc: replay claim has no target workers'')), db)
      else case validateReplayPlanExecution plan txs of
        Inl e \<Rightarrow> (Some (Inl e), db)
      | Inr _ \<Rightarrow> (case execute_steps dml env workers plan txs (pl_Steps plan) db of
          (Some (Inr _), db) \<Rightarrow> (case finalizeReplayClaim (en_final env) db (pl_Claim plan) of
              (r, db) \<Rightarrow> (Some r, db))
        | r \<Rightarrow> r))"

section \<open>What the executor relies on\<close>

text \<open>
  The contract between the executor and the durable store: \<open>works\<close> are the works of the claim,
  \<open>pending s\<close> those without a receipt. When no work of an earlier step is pending, a turn that is not
  cut off succeeds and leaves its work, and only it, no longer pending; a work that has its receipt
  already is no exception.
\<close>

locale receipt_store =
  fixes exec :: "turn \<Rightarrow> replayClaimWork \<Rightarrow> 's \<Rightarrow> unit res \<times> 's"
    and holds :: "'s \<Rightarrow> bool"
    and works :: "replayClaimWork set"
    and pending :: "'s \<Rightarrow> replayClaimWork set"
  assumes exec_ok: "holds s \<Longrightarrow> tn_fault t = TxOk \<Longrightarrow> w \<in> works \<Longrightarrow>
    \<forall>v\<in>pending s. wk_Step w \<le> wk_Step v \<Longrightarrow>
    \<exists>s'. exec t w s = (Inr (), s') \<and> holds s' \<and> pending s' = pending s - {w}"
begin

lemma bucket_split:
  assumes "i < length bs" and "bs ! i = w # ws"
  shows "mset (concat bs) = add_mset w (mset (concat (bs[i := ws])))"
proof -
  have bs: "bs = take i bs @ (w # ws) # drop (Suc i) bs" using assms by (metis id_take_nth_drop)
  have "bs[i := ws] = take i bs @ ws # drop (Suc i) bs" using assms(1) by (rule upd_conv_take_nth_drop)
  then show ?thesis by (subst bs) simp
qed

text \<open>Whatever the order of the turns, the sessions of a step commit exactly its works.\<close>

lemma workers_commit:
  assumes "holds s" and "\<forall>t\<in>set turns. tn_fault t = TxOk"
    and "set (concat buckets) \<subseteq> works"
    and "\<forall>w\<in>set (concat buckets). wk_Step w = k" and "\<forall>v\<in>pending s. k \<le> wk_Step v"
    and "\<forall>i<length buckets. length (buckets ! i) \<le> count_list (map tn_worker turns) i"
  shows "\<exists>s'. run_workers exec turns buckets None s = (Some (Inr ()), s') \<and> holds s' \<and>
    pending s' = pending s - set (concat buckets)"
  using assms
proof (induction turns arbitrary: s buckets)
  case Nil
  have "b = []" if "b \<in> set buckets" for b
    using Nil.prems(6) that by (force simp: in_set_conv_nth)
  then have "list_all (\<lambda>b. b = []) buckets" "pending s - set (concat buckets) = pending s"
    by (fastforce simp: list_all_iff)+
  then show ?case using Nil.prems(1) by (simp del: set_concat)
next
  case (Cons t turns)
  let ?i = "tn_worker t"
  show ?case
  proof (cases "?i < length buckets \<and> buckets ! ?i \<noteq> []")
    case False
    then have skip: "run_workers exec (t # turns) buckets None s = run_workers exec turns buckets None s"
      by (auto split: list.splits)
    have "length (buckets ! i) \<le> count_list (map tn_worker turns) i" if "i < length buckets" for i
      using Cons.prems(6) that False by (auto split: if_splits)
    then show ?thesis unfolding skip using Cons.prems by (intro Cons.IH) auto
  next
    case True
    then obtain w ws where w: "?i < length buckets" "buckets ! ?i = w # ws" by (cases "buckets ! ?i") auto
    note ms = bucket_split [OF w]
    have sets: "set (concat buckets) = insert w (set (concat (buckets[?i := ws])))"
      using ms by (metis set_mset_add_mset_insert set_mset_mset)
    have wk: "wk_Step w = k" "w \<in> works" using Cons.prems(3,4) sets by (metis insertI1 subsetD)+
    obtain s1 where s1: "exec t w s = (Inr (), s1)" "holds s1" "pending s1 = pending s - {w}"
      using exec_ok [OF Cons.prems(1), of t w] Cons.prems(2,5) wk by auto
    have "length (buckets[?i := ws] ! i) \<le> count_list (map tn_worker turns) i" if "i < length buckets" for i
      using Cons.prems(6) that w by (cases "i = ?i") (auto split: if_splits)
    then have counts: "\<forall>i<length (buckets[?i := ws]).
        length (buckets[?i := ws] ! i) \<le> count_list (map tn_worker turns) i" by simp
    have sub: "set (concat (buckets[?i := ws])) \<subseteq> set (concat buckets)" using sets by blast
    have "\<exists>s'. run_workers exec turns (buckets[?i := ws]) None s1 = (Some (Inr ()), s') \<and> holds s' \<and>
        pending s' = pending s1 - set (concat (buckets[?i := ws]))"
    proof (rule Cons.IH [OF s1(2) _ _ _ _ counts])
      show "\<forall>t\<in>set turns. tn_fault t = TxOk" using Cons.prems(2) by simp
      show "set (concat (buckets[?i := ws])) \<subseteq> works" using sub Cons.prems(3) by blast
      show "\<forall>w\<in>set (concat (buckets[?i := ws])). wk_Step w = k" using sub Cons.prems(4) by blast
      show "\<forall>v\<in>pending s1. k \<le> wk_Step v" using Cons.prems(5) s1(3) by blast
    qed
    moreover have "run_workers exec (t # turns) buckets None s = run_workers exec turns (buckets[?i := ws]) None s1"
      using w s1(1) by simp
    ultimately show ?thesis using s1(3) sets by auto
  qed
qed

end

end
