(* ===== verification/ReplayAccept.thy ===== *)
theory ReplayAccept
  imports ReplayExecute
begin

text \<open>
  The executor's checks accept every plan the planner builds, and the manifests of these plans meet what
  the durable store assumes: a serial work is alone in its step, digests have 32 bytes, and no
  receipt is set.
\<close>

section \<open>Steps\<close>

definition seen_upto :: "nat \<Rightarrow> nat \<Rightarrow> bool list" where
  "seen_upto a n = map (\<lambda>j. j < a) [0..<n]"

lemma length_seen_upto [simp]: "length (seen_upto a n) = n"
  by (simp add: seen_upto_def)

lemma nth_seen_upto [simp]: "i < n \<Longrightarrow> seen_upto a n ! i \<longleftrightarrow> i < a"
  by (simp add: seen_upto_def)

lemma check_steps_append:
  "check_steps plan txs k (as @ bs) st = rbind (check_steps plan txs k as st) (check_steps plan txs (k + length as) bs)"
proof (induction as arbitrary: k st)
  case (Cons a as)
  then show ?case by (cases "check_step plan txs a st") simp_all
qed simp

lemma mark_all:
  "distinct is \<Longrightarrow> \<forall>i\<in>set is. i < length seen \<and> \<not> seen ! i \<Longrightarrow>
   mark_transactions is seen = Inr (map (\<lambda>j. seen ! j \<or> j \<in> set is) [0..<length seen])"
proof (induction "is" arbitrary: seen)
  case Nil
  then show ?case by (simp add: map_nth)
next
  case (Cons i "is")
  then have "mark_transactions is (seen[i := True]) =
      Inr (map (\<lambda>j. seen[i := True] ! j \<or> j \<in> set is) [0..<length seen])"
    by (subst Cons.IH) (auto simp: nth_list_update)
  then show ?case using Cons.prems by (auto simp: nth_list_update)
qed

lemma block_distinct: "parallel_block ver txs rels a c lanes \<Longrightarrow> distinct (lanes_transactions lanes)"
  unfolding lanes_transactions_def using block_mset mset_eq_imp_distinct_iff by (metis distinct_upt)

lemma block_length: "parallel_block ver txs rels a c lanes \<Longrightarrow> length (lanes_transactions lanes) = c - a"
  unfolding lanes_transactions_def using block_mset by (metis length_upt size_mset)

lemma find_manifest:
  assumes "manifest_rows ws" and "w \<in> set ws"
  shows "List.find (\<lambda>v. wk_Step v = wk_Step w \<and> wk_Work v = wk_Work w) ws = Some w"
proof -
  have eq: "(\<lambda>v. wk_Step v = wk_Step w \<and> wk_Work v = wk_Work w) = (\<lambda>v. work_key v = work_key w)"
    by (auto simp: work_key_def fun_eq_iff)
  show ?thesis unfolding eq using find_work [OF manifest_keys [OF assms(1)]] assms(2) by simp
qed

lemma check_covers:
  assumes "covers ver txs rels steps works n" and "manifest_rows (pl_Works plan)"
  shows "set works \<subseteq> set (pl_Works plan) \<Longrightarrow> n \<le> length txs \<Longrightarrow>
    check_steps plan txs 0 steps (seen_upto 0 (length txs), 0) = Inr (seen_upto n (length txs), n)"
  using assms(1)
proof (induction rule: covers.induct)
  case (serial steps works a s w)
  have w: "wk_Step w = int (st_Index s)" "wk_Work w = 0" "wk_ExpectedTransactions w = 1"
      "wk_ExpectedChanges w = uint (ChangeCount (txs ! a))" "w \<in> set (pl_Works plan)"
    using serial.hyps serial.prems by (simp_all add: serial_work_ok_def)
  have "replayPlanWork plan (int (st_Index s)) 0 = Some w"
    using find_manifest [OF assms(2) w(5)] w(1,2) by (simp add: replayPlanWork_def)
  moreover have "(seen_upto a (length txs))[a := True] = seen_upto (Suc a) (length txs)"
    using serial.prems(2) by (intro nth_equalityI) (auto simp: nth_list_update)
  ultimately show ?case using serial w by (simp add: check_steps_append check_step_def)
next
  case (parallel steps works a s c)
  let ?is = "lanes_transactions (st_Lanes s)"
  have lanes: "st_Lanes s \<noteq> []" and set_is: "set ?is = {a..<c}"
    using block_set [OF parallel.hyps(5)] parallel.hyps(4) by (auto simp: lanes_transactions_def)
  have "mark_transactions ?is (seen_upto a (length txs)) =
      Inr (map (\<lambda>j. seen_upto a (length txs) ! j \<or> j \<in> set ?is) [0..<length txs])"
    using mark_all [OF block_distinct [OF parallel.hyps(5)], of "seen_upto a (length txs)"] parallel.prems
    by (auto simp: set_is)
  moreover have "map (\<lambda>j. seen_upto a (length txs) ! j \<or> j \<in> set ?is) [0..<length txs] = seen_upto c (length txs)"
    using parallel.hyps(4) by (auto simp: set_is seen_upto_def)
  ultimately show ?case
    using parallel lanes block_length [OF parallel.hyps(5)]
    by (auto simp: check_steps_append check_step_def set_is Let_def)
qed (simp add: seen_upto_def)

section \<open>Lanes\<close>

lemma change_key_relation: "change_key ver rels i c = Inr (Some k) \<Longrightarrow> (rels ! i) (ch_RelationOID c) \<noteq> None"
  by (cases "(rels ! i) (ch_RelationOID c)") (auto simp: change_key_def Let_def replayChangeKeyForVersion_def replayChangeKeyV2_def replayChangeKeyV3_def
      replayChangeKeyV4_def replayChangeKey_def replayChangeKeyWithOrderedLane_def split: if_splits)

lemma check_changes_ok:
  "\<forall>c\<in>set cs. (rels ! i) (ch_RelationOID c) \<noteq> None \<Longrightarrow>
   check_lane_changes i k cs (items_from rels i k cs @ rest) = Inr rest"
  by (induction cs arbitrary: k) (auto simp: items_from_def)

lemma check_transactions_ok:
  assumes "sorted_wrt (<) is" "\<forall>i\<in>set is. previous < int i \<and> i < length txs \<and> parallel_tx ver txs rels i"
  shows "check_lane_transactions txs previous is (concat (map (tx_items txs rels) is) @ rest) e =
    Inr (rest, e + tx_changes txs is)"
  using assms
proof (induction "is" arbitrary: previous e)
  case (Cons i "is")
  have i: "parallel_tx ver txs rels i" "previous < int i" "i < length txs" using Cons.prems(2) by auto
  have rel: "\<forall>c\<in>set (tx_Changes (txs ! i)). (rels ! i) (ch_RelationOID c) \<noteq> None"
    using i(1) change_key_relation unfolding parallel_tx_def by blast
  have "check_lane_transactions txs (int i) is (concat (map (tx_items txs rels) is) @ rest)
      (e + uint (ChangeCount (txs ! i))) = Inr (rest, e + uint (ChangeCount (txs ! i)) + tx_changes txs is)"
    using Cons.prems by (intro Cons.IH) auto
  then show ?case
    using i check_changes_ok [OF rel, of 0] tx_items_def [of txs rels i]
    by (simp add: parallel_tx_def tx_changes_def)
qed (simp add: tx_changes_def)

lemma covers_lanes:
  "covers ver txs rels steps works n \<Longrightarrow> s \<in> set steps \<Longrightarrow> l \<in> set (st_Lanes s) \<Longrightarrow> n \<le> length txs \<Longrightarrow>
   validateReplayPlanLane l txs = Inr ()"
proof (induction rule: covers.induct)
  case (parallel steps works a t c)
  show ?case
  proof (cases "s \<in> set steps")
    case False
    then have s: "s = t" using parallel.prems(1) by simp
    obtain lane where l: "ln_TransactionIndexes l = filter (\<lambda>i. lane i = ln_Lane l) [a..<c]"
        "ln_Items l = concat (map (tx_items txs rels) (ln_TransactionIndexes l))"
        "\<forall>i\<in>{a..<c}. parallel_tx ver txs rels i"
      using parallel.hyps(5) parallel.prems(2) s unfolding parallel_block_def by blast
    have w: "wk_ExpectedTransactions (ln_Work l) = int (length (ln_TransactionIndexes l))"
        "wk_ExpectedChanges (ln_Work l) = tx_changes txs (ln_TransactionIndexes l)"
      using parallel.hyps(6) parallel.prems(2) s by (simp_all add: lane_work_ok_def Let_def)
    have "check_lane_transactions txs (-1) (ln_TransactionIndexes l) (ln_Items l @ []) 0 =
        Inr ([], 0 + tx_changes txs (ln_TransactionIndexes l))"
      unfolding l(2) using l(1,3) parallel.prems(3) sorted_upt_filter
      by (intro check_transactions_ok [where ver = ver and rels = rels]) auto
    then show ?thesis using w by (simp add: validateReplayPlanLane_def)
  qed (use parallel in auto)
qed auto

section \<open>Works\<close>

definition fresh_work :: "replayClaimWork \<Rightarrow> bool" where
  "fresh_work w \<longleftrightarrow> length (wk_Digest w) = 32 \<and> wk_CommittedAt w = None"

lemma fresh_clear: "fresh_work w \<Longrightarrow> clear_receipt w = w"
  by (cases w) (simp add: fresh_work_def clear_receipt_def)

lemma parallel_fresh: "parallelReplayWork step lane is txs rels fps = Inr w \<Longrightarrow> fresh_work w"
  by (auto simp: parallelReplayWork_def fresh_work_def rbind_eq_Inr Let_def)

lemma serial_fresh: "serialReplayWork step i tx = Inr w \<Longrightarrow> fresh_work w"
  by (auto simp: serialReplayWork_def fresh_work_def rbind_eq_Inr Let_def)

lemma flush_lanes_fresh:
  "flush_lanes step txs rels fps lane ls = Inr ls' \<Longrightarrow> \<forall>l\<in>set ls'. fresh_work (ln_Work l)"
  by (induction ls arbitrary: lane ls') (auto simp: rbind_eq_Inr parallel_fresh split: if_splits)

lemma flushParallel_fresh:
  "flushParallel laneCount txs rels st = Inr st' \<Longrightarrow> \<forall>w\<in>set (pn_Works st). fresh_work w \<Longrightarrow>
   \<forall>w\<in>set (pn_Works st'). fresh_work w"
  using flush_lanes_fresh by (fastforce simp: flushParallel_def rbind_eq_Inr Let_def split: if_splits)

lemma note_definitions_works: "pn_Works (note_definitions ver resolved rs st) = pn_Works st"
  by (induction rs arbitrary: st) (auto simp: Let_def split: prod.splits)

lemma scan_definitions_works:
  "scan_definitions ver resolved i k rs (b, st) = Inr (b', st') \<Longrightarrow> pn_Works st' = pn_Works st"
  by (induction rs arbitrary: k b st) (fastforce simp: Let_def split: option.splits prod.splits)+

lemma plan_transaction_fresh:
  assumes "plan_transaction ver laneCount txs rels i st = Inr st'" and "\<forall>w\<in>set (pn_Works st). fresh_work w"
  shows "\<forall>w\<in>set (pn_Works st'). fresh_work w"
  using assms flushParallel_fresh [of laneCount txs rels] serial_fresh
  by (fastforce simp: plan_transaction_def rbind_eq_Inr Let_def note_definitions_works add_parallel_def
      add_serial_def dest: scan_definitions_works split: option.splits if_splits)

lemma plan_transactions_fresh:
  "plan_transactions ver laneCount txs rels is st = Inr st' \<Longrightarrow> \<forall>w\<in>set (pn_Works st). fresh_work w \<Longrightarrow>
   \<forall>w\<in>set (pn_Works st'). fresh_work w"
  by (induction "is" arbitrary: st)
    (auto simp: rbind_eq_Inr dest: flushParallel_fresh plan_transaction_fresh)

lemma build_fresh:
  assumes "buildReplayPlanForGenerationVersion s g g0 lsn lanes txs rels ver = Inr plan"
  shows "\<forall>w\<in>set (pl_Works plan). fresh_work w"
proof -
  obtain st where "plan_transactions ver lanes txs rels [0..<length txs] plan_start = Inr st"
      "pl_Works plan = pn_Works st"
    using assms by (auto simp: buildReplayPlanForGenerationVersion_def rbind_eq_Inr Let_def split: if_splits)
  then show ?thesis using plan_transactions_fresh [of ver lanes txs rels _ plan_start st] by (simp add: plan_start_def)
qed

lemma covers_serial_alone: "covers ver txs rels steps works n \<Longrightarrow> serial_alone works"
proof (induction rule: covers.induct)
  case (serial steps works a s w)
  have "\<forall>v\<in>set works. wk_Step v < wk_Step w"
    using covers_works [OF serial.hyps(1)] serial.hyps(5) by (simp add: serial_work_ok_def)
  then show ?case using serial.IH unfolding serial_alone_def by fastforce
next
  case (parallel steps works a s c)
  have "\<forall>v\<in>set works. wk_Step v < int (length steps)" using covers_works [OF parallel.hyps(1)] by blast
  moreover have "\<forall>l\<in>set (st_Lanes s). wk_Step (ln_Work l) = int (length steps) \<and>
      wk_Kind (ln_Work l) = replayWorkParallelLane"
    using parallel.hyps(6) by (simp add: lane_work_ok_def Let_def)
  ultimately show ?case using parallel.IH unfolding serial_alone_def by fastforce
qed (simp add: serial_alone_def)

lemma build_accepted:
  assumes "buildReplayPlanForGenerationVersion s g g0 lsn lanes txs rels ver = Inr plan"
  shows "validateReplayPlanExecution plan txs = Inr ()"
proof -
  have c: "covers ver txs rels (pl_Steps plan) (pl_Works plan) (length txs)" using build_covers [OF assms] by blast
  note w = covers_works [OF c]
  have init: "replicate (length txs) False = seen_upto 0 (length txs)"
    by (simp add: seen_upto_def map_replicate_const)
  have "list_all id (seen_upto (length txs) (length txs))" by (simp add: list_all_iff seen_upto_def)
  moreover have "replayPlanWorkTransactions (pl_Works plan) = cl_Transactions (pl_Claim plan)"
      "replayPlanWorkChanges (pl_Works plan) = cl_Changes (pl_Claim plan)"
    using w build_claim [OF assms]
    by (simp_all add: replayPlanWorkTransactions_def replayPlanWorkChanges_def tx_changes_all)
  ultimately show ?thesis
    using check_covers [OF c, of plan] w by (simp add: validateReplayPlanExecution_def init)
qed

end
