(* ===== verification/ReplayRun.thy ===== *)
theory ReplayRun
  imports ReplayAccept
begin

text \<open>
  Running a plan to its end: the durable store meets the executor's contract, so a plan whose sessions
  are scheduled and whose connections hold commits every pending work and finalizes the claim, from a
  fresh claim as well as from one that an earlier run left half done.
\<close>

section \<open>The store provides the contract\<close>

definition store_holds ::
  "'d dml \<Rightarrow> replayClaim \<Rightarrow> replayClaim \<Rightarrow> 'd ReplayDB \<Rightarrow> 'd ReplayDB \<Rightarrow> bool" where
  "store_holds dml cl c db0 db \<longleftrightarrow> (\<forall>w d. dml w d \<noteq> None) \<and> claim_matches cl c \<and>
     serial_alone (cl_WorkManifest c) \<and> same_frame db0 db \<and> (\<exists>d0 rows cur. running dml d0 db c rows cur)"

definition store_pending :: "replayClaim \<Rightarrow> 'd ReplayDB \<Rightarrow> replayClaimWork set" where
  "store_pending c db = set (cl_WorkManifest c) - set (committed_works db)"

lemma committed_rows:
  assumes "running dml d0 db c rows cur"
  shows "committed_works db = map clear_receipt (filter committed rows)" "set (committed_works db) = set cur"
proof -
  show eq: "committed_works db = map clear_receipt (filter committed rows)"
    using assms by (auto simp: running_def active_def committed_works_def comp_def)
  show "set (committed_works db) = set cur"
    unfolding eq using assms by (metis running_def set_mset_mset)
qed

lemma active_in_manifest:
  "active db c rows \<Longrightarrow> v \<in> set rows \<Longrightarrow> clear_receipt v \<in> set (cl_WorkManifest c)"
  by (metis active_def image_eqI set_map)

lemma rows_unique:
  assumes "active db c rows" "u \<in> set rows" "v \<in> set rows" "clear_receipt u = clear_receipt v"
  shows "u = v"
  using manifest_keys [OF active_manifest [OF assms(1)]] assms(2-4) clear_key
  by (metis distinct_map inj_on_def)

lemma pending_iff:
  assumes run: "running dml d0 db c rows cur" and v: "v \<in> set rows"
  shows "clear_receipt v \<in> store_pending c db \<longleftrightarrow> \<not> committed v"
proof -
  have a: "active db c rows" using run by (simp add: running_def)
  have "clear_receipt v \<in> set (cl_WorkManifest c)" using active_in_manifest [OF a v] .
  moreover have "clear_receipt v \<in> set (committed_works db) \<longleftrightarrow> committed v"
    unfolding committed_rows(1) [OF run] using rows_unique [OF a _ v] v by (auto simp del: not_None_eq)
  ultimately show ?thesis by (simp add: store_pending_def)
qed

lemma manifest_row:
  assumes "active db c rows" and "w \<in> set (cl_WorkManifest c)"
  obtains v where "v \<in> set rows" "clear_receipt v = w" "clear_receipt w = w"
proof -
  have "w \<in> clear_receipt ` set rows" using assms by (metis active_def set_map)
  then show ?thesis using that by auto
qed

lemma store_exec_ok:
  assumes holds: "store_holds dml cl c db0 db" and w: "w \<in> set (cl_WorkManifest c)"
    and earlier: "\<forall>v\<in>store_pending c db. wk_Step w \<le> wk_Step v"
  shows "\<exists>db'. executeReplayWork TxOk dml now db cl w = (Inr (), db') \<and> store_holds dml cl c db0 db' \<and>
    store_pending c db' = store_pending c db - {w}"
proof -
  obtain d0 rows cur where run: "running dml d0 db c rows cur" and m: "claim_matches cl c"
    and total: "\<forall>w d. dml w d \<noteq> None"
    using holds by (auto simp: store_holds_def)
  have a: "active db c rows" using run by (simp add: running_def)
  obtain v where v: "v \<in> set rows" "clear_receipt v = w" "clear_receipt w = w" using manifest_row [OF a w] .
  have vw: "clear_receipt v = clear_receipt w" using v by simp
  have early: "committed u" if "u \<in> set rows" "wk_Step u < wk_Step w" for u
    using pending_iff [OF run that(1)] earlier that(2) by fastforce
  show ?thesis
  proof (cases "committed v")
    case True
    then have "beginReplayClaimWork db cl w = Inr True"
      using begin_work_active [OF a, of cl w True] m v(1) vw early by (auto simp: claim_matches_def)
    moreover have "store_pending c db - {w} = store_pending c db"
      using pending_iff [OF run v(1)] True v(2) by auto
    ultimately show ?thesis using holds by (simp add: executeReplayWork_def)
  next
    case False
    then have beg: "beginReplayClaimWork db cl w = Inr False"
      using begin_work_active [OF a, of cl w False] m v(1) vw early by (auto simp: claim_matches_def)
    obtain xs ys where rows: "rows = xs @ v # ys" using v(1) by (rule row_split)
    obtain db' where one: "replay_one dml now db cl w = Inr db'"
      using replay_one_total [OF a [unfolded rows] m False vw] total by metis
    have "\<forall>u\<in>set (xs @ v # ys). wk_Step u < wk_Step v \<longrightarrow> committed u"
      using early clear_fields(1) [OF vw] rows by auto
    note run' = replay_one_running [OF run [unfolded rows] m False vw this one]
    then have "set (committed_works db') = insert w (set (committed_works db))"
      using committed_rows(2) [OF run] v(3) committed_rows(2) by fastforce
    then have "store_pending c db' = store_pending c db - {w}" by (auto simp: store_pending_def)
    moreover have "store_holds dml cl c db0 db'"
      using holds run' same_frame_trans unfolding store_holds_def by blast
    ultimately show ?thesis using beg one by (simp add: executeReplayWork_def end_tx_def)
  qed
qed

interpretation store: receipt_store "exec_turn dml cl" "store_holds dml cl c db0" "set (cl_WorkManifest c)"
    "store_pending c" for dml cl c db0
  by unfold_locales (simp add: exec_turn_def store_exec_ok)

subsection \<open>Groups\<close>

lemma strict_key_lists_eq:
  assumes "sorted_wrt (\<lambda>v w. f v < (f w :: int)) xs" "sorted_wrt (\<lambda>v w. f v < f w) ys" "set xs = set ys"
  shows "xs = ys"
proof -
  have "sorted_wrt (<) (map f ys)" "sorted_wrt (<) (map f xs)" "set (map f xs) = set (map f ys)"
    using assms by (simp_all add: sorted_wrt_map)
  then have "map f xs = map f ys" by (rule strict_sorted_equal)
  moreover have "distinct (map f xs)"
    using \<open>sorted_wrt (<) (map f xs)\<close> by (simp add: strict_sorted_iff)
  then have "inj_on f (set xs \<union> set ys)" using assms(3) by (simp add: distinct_map)
  ultimately show ?thesis using map_inj_on by blast
qed

lemma no_committed_suffix:
  "\<forall>i j. i < j \<and> j < length bs \<and> bs ! j \<longrightarrow> bs ! i \<Longrightarrow> \<not> committed_suffix False bs"
proof (induction bs)
  case (Cons b bs)
  show ?case
  proof (cases b)
    case True
    have "\<forall>i j. i < j \<and> j < length bs \<and> bs ! j \<longrightarrow> bs ! i"
      using Cons.prems by (metis Suc_less_eq length_Cons nth_Cons_Suc)
    then show ?thesis using Cons.IH True by simp
  next
    case False
    then have none: "\<not> bs ! j" if "j < length bs" for j
      using Cons.prems [rule_format, of 0 "Suc j"] that by auto
    have "list_all Not cs \<Longrightarrow> \<not> committed_suffix True cs" for cs by (induction cs) auto
    then show ?thesis using False none by (simp add: list_all_length)
  qed
qed simp

lemma unflagged:
  "length bs = length ws \<Longrightarrow>
   set (map fst (filter (\<lambda>g. \<not> snd g) (zip ws bs))) = {ws ! i | i. i < length ws \<and> \<not> bs ! i}"
  by (force simp: set_zip)

lemma store_group_ok:
  assumes holds: "store_holds dml cl c db0 db" and ne: "works \<noteq> []" and cont: "contiguous works None"
    and sub: "set works \<subseteq> set (cl_WorkManifest c)"
    and earlier: "\<forall>v\<in>store_pending c db. wk_Step (hd works) \<le> wk_Step v"
  shows "\<exists>db'. executeSerialReplayWorkGroup TxOk dml now db cl works = (Inr (), db') \<and>
    store_holds dml cl c db0 db' \<and> store_pending c db' = store_pending c db - set works"
proof -
  obtain d0 rows cur where run: "running dml d0 db c rows cur" and m: "claim_matches cl c"
    and total: "\<forall>w d. dml w d \<noteq> None" and alone: "serial_alone (cl_WorkManifest c)"
    using holds by (auto simp: store_holds_def)
  have a: "active db c rows" using run by (simp add: running_def)
  have works_clear: "map clear_receipt works = works"
    using sub manifest_row [OF a] by (intro map_idI) blast
  let ?a = "wk_Step (hd works)" and ?b = "wk_Step (last works)"
  let ?ss = "group_rows db cl ?a ?b"
  have cw: "claim_works db (cl_ID cl) = rows" using a m by (simp add: active_def claim_matches_def)
  have live: "claim_live db cl" using claim_liveI [OF a] m by (simp add: claim_matches_def)
  have prior: "\<not> prior_open db (cl_ID cl) ?a"
    using pending_iff [OF run] earlier unfolding prior_open_def cw by fastforce
  have sorted: "sorted (map wk_Step rows)" using manifest_steps [OF active_manifest [OF a]] .
  let ?P = "\<lambda>w. ?a \<le> wk_Step w \<and> wk_Step w \<le> ?b \<and> wk_Work w = 0"
  have ss: "?ss = filter ?P rows"
    using live prior sorted by (simp add: group_rows_def cw sort_key_id_if_sorted sorted_map sorted_wrt_filter)
  have step: "wk_Step (works ! i) = ?a + int i \<and> wk_Kind (works ! i) = replayWorkSerial \<and> wk_Work (works ! i) = 0"
    if "i < length works" for i using contiguous_nth [OF cont that] .
  have last: "?b = ?a + int (length works - 1)"
    using step [of "length works - 1"] ne by (simp add: last_conv_nth)
  have "set (map clear_receipt ?ss) = set works"
  proof (intro equalityI subsetI)
    fix w assume "w \<in> set (map clear_receipt ?ss)"
    then obtain v where v: "v \<in> set rows" "?P v" "w = clear_receipt v" by (auto simp: ss)
    obtain u where u: "u \<in> set works" "wk_Step u = wk_Step v" "wk_Kind u = replayWorkSerial"
      using contiguous_step [OF cont _ _ ne, of "wk_Step v"] v(2) by metis
    have "w \<in> set (cl_WorkManifest c)" using active_in_manifest [OF a v(1)] v(3) by simp
    then have "u = w" using alone u sub v(3) unfolding serial_alone_def by (metis clear_receipt_sel(1) subsetD)
    then show "w \<in> set works" using u(1) by simp
  next
    fix w assume w: "w \<in> set works"
    then obtain v where v: "v \<in> set rows" "clear_receipt v = w" using sub manifest_row [OF a] by (metis subsetD)
    obtain i where "i < length works" "works ! i = w" using w by (auto simp: in_set_conv_nth)
    then have "?P w" using step last ne by fastforce
    then have "?P v" using v(2) by auto
    then show "w \<in> set (map clear_receipt ?ss)" using v by (auto simp: ss)
  qed
  moreover have "sorted_wrt (\<lambda>v w. wk_Step v < wk_Step w) (map clear_receipt ?ss)"
  proof -
    have keys: "sorted_wrt (\<lambda>v w. key_less (work_key v) (work_key w)) (filter ?P rows)"
      using active_manifest [OF a] by (simp add: manifest_rows_def sorted_wrt_filter)
    show ?thesis unfolding ss sorted_wrt_map
      by (rule sorted_wrt_mono_rel [OF _ keys]) (auto simp: key_less_def work_key_def)
  qed
  ultimately have match: "map clear_receipt ?ss = map clear_receipt works"
    unfolding works_clear using strict_key_lists_eq contiguous_sorted [OF cont] by blast
  define bs where "bs = map committed ?ss"
  have sub_rows: "set ?ss \<subseteq> set rows" by (auto simp: ss)
  have in_rows: "?ss ! k \<in> set rows" if "k < length ?ss" for k
    using that sub_rows by (meson nth_mem subsetD)
  have len: "length ?ss = length works" using match map_eq_imp_length_eq by blast
  have "\<not> committed_suffix False bs"
  proof (rule no_committed_suffix, intro allI impI)
    fix i j assume ij: "i < j \<and> j < length bs \<and> bs ! j"
    have "wk_Step (?ss ! k) = ?a + int k" if "k < length works" for k
    proof -
      have "clear_receipt (?ss ! k) = clear_receipt (works ! k)" using match that len by (metis nth_map)
      from clear_fields(1) [OF this] show ?thesis using step [OF that] by simp
    qed
    then have "wk_Step (?ss ! i) < wk_Step (?ss ! j)" using ij len by (simp add: bs_def)
    moreover have "?ss ! i \<in> set rows" "?ss ! j \<in> set rows"
      using ij in_rows by (simp_all add: bs_def)
    moreover have "i < length ?ss" "j < length ?ss" using ij by (simp_all add: bs_def)
    then have "committed (?ss ! j)" using ij by (simp add: bs_def del: not_None_eq)
    moreover have "barrier rows" using a by (simp add: active_def)
    ultimately have "committed (?ss ! i)" using \<open>committed (?ss ! j)\<close> unfolding barrier_def by blast
    then show "bs ! i" using ij by (simp add: bs_def del: not_None_eq)
  qed
  then have beg: "beginSerialReplayWorkGroup db cl works = Inr bs"
    using ne cont match a sub_rows
    by (auto simp: beginSerialReplayWorkGroup_def rbind_eq_Inr match_group_iff bs_def active_def)
  note adm = group_admitted [OF run alone beg, of now]
  have flags: "bs ! i \<longleftrightarrow> works ! i \<notin> store_pending c db" if "i < length works" for i
  proof -
    have "?ss ! i \<in> set rows" using that len in_rows by simp
    moreover have "clear_receipt (?ss ! i) = works ! i" using match works_clear that len by (metis nth_map)
    ultimately show ?thesis
      using pending_iff [OF run, of "?ss ! i"] that len by (simp add: bs_def del: not_None_eq)
  qed
  show ?thesis
  proof (cases "list_all id bs")
    case True
    have "works ! i \<notin> store_pending c db" if "i < length works" for i
      using True flags [OF that] that len by (auto simp: list_all_length bs_def)
    then have "store_pending c db - set works = store_pending c db" by (auto simp: in_set_conv_nth)
    then show ?thesis using beg True holds by (simp add: executeSerialReplayWorkGroup_def)
  next
    case False
    obtain db' rows' where rg: "replay_group dml now db cl (zip works bs) = Inr db'" and fr: "same_frame db db'"
      and run': "running dml d0 db' c rows' (cur @ map clear_receipt (map fst (filter (\<lambda>g. \<not> snd g) (zip works bs))))"
    proof (cases "replay_group dml now db cl (zip works bs)")
      case (Inl e)
      then have False using adm total by simp
      then show thesis ..
    qed (use adm in auto)
    have lenbs: "length bs = length works" using adm by simp
    have new: "set (map clear_receipt (map fst (filter (\<lambda>g. \<not> snd g) (zip works bs)))) = set works \<inter> store_pending c db"
    proof -
      let ?new = "map fst (filter (\<lambda>g. \<not> snd g) (zip works bs))"
      have "set ?new = {works ! i | i. i < length works \<and> works ! i \<in> store_pending c db}"
        unfolding unflagged [OF lenbs] using flags by metis
      also have "\<dots> = set works \<inter> store_pending c db" by (auto simp: in_set_conv_nth)
      finally have eq: "set ?new = set works \<inter> store_pending c db" .
      have "clear_receipt w = w" if "w \<in> set ?new" for w
      proof -
        have "w \<in> set works" using eq that by blast
        then show ?thesis using works_clear by (metis list.map_ident map_eq_conv)
      qed
      then have same: "map clear_receipt ?new = ?new" by (intro map_idI) blast
      show ?thesis unfolding same by (rule eq)
    qed
    have "store_pending c db' = store_pending c db - set works"
      using committed_rows(2) [OF run] committed_rows(2) [OF run'] new by (auto simp: store_pending_def)
    moreover have "store_holds dml cl c db0 db'"
      using holds run' fr same_frame_trans unfolding store_holds_def by blast
    ultimately show ?thesis
      using beg False rg by (simp add: executeSerialReplayWorkGroup_def end_tx_def)
  qed
qed

section \<open>The sessions of a step\<close>

lemma least_loaded_less: "loads \<noteq> [] \<Longrightarrow> least_loaded loads < length loads"
proof -
  have "foldl (\<lambda>w k. if loads ! k < loads ! w then k else w) i ks < n"
    if "i < n" "\<forall>k\<in>set ks. k < n" for i n ks
    using that by (induction ks arbitrary: i) auto
  then show "loads \<noteq> [] \<Longrightarrow> ?thesis" by (simp add: least_loaded_def)
qed

lemma bucket_snoc: "i < length bs \<Longrightarrow> mset (concat (bs[i := bs ! i @ [x]])) = add_mset x (mset (concat bs))"
proof -
  assume i: "i < length bs"
  have bs: "bs = take i bs @ bs ! i # drop (Suc i) bs" using i by (rule id_take_nth_drop)
  have "bs[i := bs ! i @ [x]] = take i bs @ (bs ! i @ [x]) # drop (Suc i) bs" using i by (rule upd_conv_take_nth_drop)
  moreover have "mset (concat bs) = mset (concat (take i bs @ bs ! i # drop (Suc i) bs))" using bs by simp
  ultimately show ?thesis by simp
qed

lemma assign_buckets_ok:
  assumes "\<forall>l\<in>set ls. validateReplayPlanLane l txs = Inr ()" "buckets \<noteq> []" "length loads = length buckets"
  shows "\<exists>bs. assign_buckets txs ls (buckets, loads) = Inr bs \<and> length bs = length buckets \<and>
    mset (concat bs) = mset (concat buckets) + mset ls"
  using assms
proof (induction ls arbitrary: buckets loads)
  case (Cons l ls)
  let ?w = "least_loaded loads"
  have w: "?w < length buckets" using least_loaded_less [of loads] Cons.prems(2,3) by (metis length_0_conv)
  obtain bs where "assign_buckets txs ls (buckets[?w := buckets ! ?w @ [l]],
        loads[?w := loads ! ?w + wk_ExpectedChanges (ln_Work l)]) = Inr bs" "length bs = length buckets"
      "mset (concat bs) = mset (concat (buckets[?w := buckets ! ?w @ [l]])) + mset ls"
    using Cons.IH [of "buckets[?w := buckets ! ?w @ [l]]" "loads[?w := loads ! ?w + wk_ExpectedChanges (ln_Work l)]"]
      Cons.prems by auto
  then show ?case using Cons.prems(1) bucket_snoc [OF w] by (simp add: Let_def)
qed simp

lemma step_buckets_ok:
  assumes "\<forall>l\<in>set lanes. validateReplayPlanLane l txs = Inr ()" "0 < workers"
  obtains bs where "step_buckets workers txs lanes = Inr bs" "length bs = workers" "mset (concat bs) = mset lanes"
proof -
  have "concat (replicate n []) = []" for n by (induction n) auto
  then show ?thesis
    using assign_buckets_ok [of "sort_key lane_order lanes" txs "replicate workers []" "replicate workers 0"] assms that
    by (auto simp: step_buckets_def)
qed

lemma bucket_length: "mset (concat bs) = mset xs \<Longrightarrow> b \<in> set bs \<Longrightarrow> length b \<le> length xs"
proof -
  assume ms: "mset (concat bs) = mset xs" and b: "b \<in> set bs"
  have "length b \<le> length (concat bs)" using b by (auto simp: length_concat intro: member_le_sum_list)
  then show ?thesis using mset_eq_length [OF ms] by simp
qed

section \<open>The steps of a plan\<close>

definition step_works :: "replayClaimWork list \<Rightarrow> replayPlanStep \<Rightarrow> replayClaimWork set" where
  "step_works works s = {w \<in> set works. wk_Step w = int (st_Index s)}"

definition step_ok :: "replayClaimWork list \<Rightarrow> nat \<Rightarrow> replayPlanStep \<Rightarrow> bool" where
  "step_ok works n s \<longleftrightarrow>
     (if is_serial s
      then st_SerialTransaction s < int n \<and> (\<exists>w. step_works works s = {w} \<and> wk_Work w = 0 \<and> wk_Lane w = -1 \<and>
        wk_Kind w = replayWorkSerial)
      else step_works works s = ln_Work ` set (st_Lanes s))"

text \<open>Steps with consecutive indexes.\<close>

definition consecutive :: "nat \<Rightarrow> replayPlanStep list \<Rightarrow> bool" where
  "consecutive k ss \<longleftrightarrow> (\<forall>i<length ss. st_Index (ss ! i) = k + i)"

lemma consecutive_Nil [simp]: "consecutive k []"
  by (simp add: consecutive_def)

lemma consecutive_append:
  "consecutive k (as @ bs) \<longleftrightarrow> consecutive k as \<and> consecutive (k + length as) bs"
proof
  assume c: "consecutive k (as @ bs)"
  have "st_Index (as ! i) = k + i" if "i < length as" for i
    using c that unfolding consecutive_def by (metis nth_append length_append trans_less_add1)
  moreover have "st_Index (bs ! i) = k + length as + i" if "i < length bs" for i
    using c that unfolding consecutive_def by (metis nth_append_length_plus length_append add.assoc nat_add_left_cancel_less)
  ultimately show "consecutive k as \<and> consecutive (k + length as) bs" by (simp add: consecutive_def)
qed (auto simp: consecutive_def nth_append)

lemma consecutive_Cons [simp]: "consecutive k (s # ss) \<longleftrightarrow> st_Index s = k \<and> consecutive (Suc k) ss"
  using consecutive_append [of k "[s]" ss] by (simp add: consecutive_def)

lemma consecutive_index: "consecutive k ss \<Longrightarrow> s \<in> set ss \<Longrightarrow> k \<le> st_Index s \<and> st_Index s < k + length ss"
  by (auto simp: consecutive_def in_set_conv_nth)

lemma covers_steps:
  "covers ver txs rels steps works n \<Longrightarrow> consecutive 0 steps \<and> (\<forall>s\<in>set steps. step_ok works n s)"
proof (induction rule: covers.induct)
  case (serial steps works a s w)
  have old: "\<forall>v\<in>set works. wk_Step v < int (length steps)" using covers_works [OF serial.hyps(1)] by blast
  have w: "wk_Step w = int (length steps)" "wk_Work w = 0" "wk_Lane w = -1" "wk_Kind w = replayWorkSerial"
    using serial.hyps(5) by (simp_all add: serial_work_ok_def)
  have "step_works (works @ [w]) s = {w}" using old w serial.hyps(2) by (auto simp: step_works_def)
  then have "step_ok (works @ [w]) (Suc a) s" using w serial.hyps(3) by (simp add: step_ok_def is_serial_def)
  moreover have "step_ok (works @ [w]) (Suc a) t" if t: "t \<in> set steps" for t
  proof -
    have "st_Index t < length steps" using serial.IH consecutive_index t by fastforce
    then have "step_works (works @ [w]) t = step_works works t" using w by (auto simp: step_works_def)
    then show ?thesis using serial.IH t by (auto simp: step_ok_def split: if_splits)
  qed
  ultimately show ?case using serial by (auto simp: consecutive_append)
next
  case (parallel steps works a s c)
  have old: "\<forall>v\<in>set works. wk_Step v < int (length steps)" using covers_works [OF parallel.hyps(1)] by blast
  have new: "\<forall>l\<in>set (st_Lanes s). wk_Step (ln_Work l) = int (length steps)"
    using parallel.hyps(6) by (simp add: lane_work_ok_def Let_def)
  have "step_works (works @ map ln_Work (st_Lanes s)) s = ln_Work ` set (st_Lanes s)"
    using old new parallel.hyps(2) by (auto simp: step_works_def)
  then have "step_ok (works @ map ln_Work (st_Lanes s)) c s" using parallel.hyps(3) by (simp add: step_ok_def is_serial_def)
  moreover have "step_ok (works @ map ln_Work (st_Lanes s)) c t" if t: "t \<in> set steps" for t
  proof -
    have "st_Index t < length steps" using parallel.IH consecutive_index t by fastforce
    then have "step_works (works @ map ln_Work (st_Lanes s)) t = step_works works t"
      using new by (auto simp: step_works_def)
    then show ?thesis using parallel.IH t parallel.hyps(4) by (auto simp: step_ok_def split: if_splits)
  qed
  ultimately show ?case using parallel by (auto simp: consecutive_append)
qed simp

lemma group_works_ok:
  assumes "manifest_rows (pl_Works plan)" and "consecutive k ss"
    and "\<forall>s\<in>set ss. is_serial s \<and> step_ok (pl_Works plan) (length txs) s"
    and "\<forall>i. p = Some i \<longrightarrow> i + 1 = int k"
  shows "\<exists>ws. group_works plan txs ss = Inr ws \<and> set ws = \<Union> (step_works (pl_Works plan) ` set ss) \<and>
    contiguous ws p \<and> (ss \<noteq> [] \<longrightarrow> ws \<noteq> [] \<and> wk_Step (hd ws) = int k)"
  using assms(2-)
proof (induction ss arbitrary: k p)
  case (Cons s ss)
  obtain w where w: "step_works (pl_Works plan) s = {w}" "wk_Work w = 0" "wk_Lane w = -1" "wk_Kind w = replayWorkSerial"
    and t: "0 \<le> st_SerialTransaction s" "st_SerialTransaction s < int (length txs)"
    using Cons.prems(2) by (auto simp: step_ok_def is_serial_def)
  then have "w \<in> set (pl_Works plan)" "wk_Step w = int (st_Index s)" by (auto simp: step_works_def)
  then have find: "replayPlanWork plan (int (st_Index s)) 0 = Some w"
    using find_manifest [OF assms(1)] w(2) by (metis replayPlanWork_def)
  have "\<exists>ws. group_works plan txs ss = Inr ws \<and> set ws = \<Union> (step_works (pl_Works plan) ` set ss) \<and>
      contiguous ws (Some (wk_Step w)) \<and> (ss \<noteq> [] \<longrightarrow> ws \<noteq> [] \<and> wk_Step (hd ws) = int (Suc k))"
    using Cons.prems \<open>wk_Step w = int (st_Index s)\<close> by (intro Cons.IH) auto
  then show ?case
    using find w t Cons.prems \<open>wk_Step w = int (st_Index s)\<close> by (auto split: option.splits)
qed simp

text \<open>A schedule that lets every session make as many turns as the step has lanes, and connections that
  hold.\<close>

definition fair_env :: "replayEnv \<Rightarrow> nat \<Rightarrow> replayPlan \<Rightarrow> bool" where
  "fair_env env workers plan \<longleftrightarrow> en_final env = TxOk \<and> (\<forall>k. fst (en_group env k) = TxOk) \<and>
     (\<forall>s\<in>set (pl_Steps plan). (\<forall>t\<in>set (en_turns env (st_Index s)). tn_fault t = TxOk) \<and>
        (\<forall>i<workers. length (st_Lanes s) \<le> count_list (map tn_worker (en_turns env (st_Index s))) i))"

lemma execute_steps_ok:
  assumes works: "pl_Works plan = cl_WorkManifest c" "manifest_rows (pl_Works plan)"
    and workers: "0 < workers" and fair: "fair_env env workers plan"
    and lanes: "\<forall>s\<in>set (pl_Steps plan). \<forall>l\<in>set (st_Lanes s). validateReplayPlanLane l txs = Inr ()"
    and ok: "\<forall>s\<in>set (pl_Steps plan). step_ok (pl_Works plan) (length txs) s"
  shows "set ss \<subseteq> set (pl_Steps plan) \<Longrightarrow> consecutive k ss \<Longrightarrow> store_holds dml (pl_Claim plan) c db0 db \<Longrightarrow>
    store_pending c db \<subseteq> \<Union> (step_works (pl_Works plan) ` set ss) \<Longrightarrow>
    \<exists>db'. execute_steps dml env workers plan txs ss db = (Some (Inr ()), db') \<and>
      store_holds dml (pl_Claim plan) c db0 db' \<and> store_pending c db' = {}"
proof (induction "length ss" arbitrary: ss k db rule: less_induct)
  case less
  note prems = less.prems
  show ?case
  proof (cases ss)
    case Nil
    then show ?thesis using prems(3,4) by simp
  next
    case (Cons s rest)
    have k: "st_Index s = k" using prems(2) Cons by simp
    have ge: "int k \<le> wk_Step v" if "v \<in> store_pending c db" for v
      using prems(2,4) that consecutive_index by (fastforce simp: step_works_def)
    have s: "s \<in> set (pl_Steps plan)" using prems(1) Cons by auto
    show ?thesis
    proof (cases "is_serial s")
      case True
      let ?run = "s # takeWhile is_serial rest"
      let ?rest = "dropWhile is_serial rest"
      have ss: "ss = ?run @ ?rest" using Cons by simp
      have con: "consecutive k ?run" "consecutive (k + length ?run) ?rest"
        using prems(2) unfolding ss consecutive_append by auto
      have "\<forall>t\<in>set ?run. is_serial t \<and> step_ok (pl_Works plan) (length txs) t"
        using True ok prems(1) Cons by (auto dest: set_takeWhileD)
      then obtain ws where ws: "group_works plan txs ?run = Inr ws"
          "set ws = \<Union> (step_works (pl_Works plan) ` set ?run)" "contiguous ws None" "ws \<noteq> []"
          "wk_Step (hd ws) = int k"
        using group_works_ok [OF works(2) con(1), of txs None] by auto
      have sub: "set ws \<subseteq> set (cl_WorkManifest c)" using ws(2) works(1) by (auto simp: step_works_def)
      obtain db1 where db1: "executeSerialReplayWorkGroup TxOk dml (snd (en_group env k)) db (pl_Claim plan) ws = (Inr (), db1)"
          "store_holds dml (pl_Claim plan) c db0 db1" "store_pending c db1 = store_pending c db - set ws"
        using store_group_ok [OF prems(3) ws(4,3) sub] ge ws(5) by metis
      have "\<exists>db'. execute_steps dml env workers plan txs ?rest db1 = (Some (Inr ()), db') \<and>
          store_holds dml (pl_Claim plan) c db0 db' \<and> store_pending c db' = {}"
      proof (rule less.hyps [OF _ _ con(2) db1(2)])
        show "length ?rest < length ss" using Cons by (simp add: length_dropWhile_le less_Suc_eq_le)
        show "set ?rest \<subseteq> set (pl_Steps plan)" using prems(1) Cons by (auto dest: set_dropWhileD)
        show "store_pending c db1 \<subseteq> \<Union> (step_works (pl_Works plan) ` set ?rest)"
        proof -
          have "set rest = set (takeWhile is_serial rest) \<union> set ?rest"
            by (metis set_append takeWhile_dropWhile_id)
          then have "set ss = set ?run \<union> set ?rest" using Cons by simp
          then have "\<Union> (step_works (pl_Works plan) ` set ss) =
              set ws \<union> \<Union> (step_works (pl_Works plan) ` set ?rest)"
            unfolding ws(2) by (simp only: image_Un Union_Un_distrib)
          then have "store_pending c db \<subseteq> set ws \<union> \<Union> (step_works (pl_Works plan) ` set ?rest)"
            using prems(4) by simp
          then show ?thesis unfolding db1(3) by (simp only: Diff_subset_conv)
        qed
      qed
      moreover have "fst (en_group env k) = TxOk" using fair by (simp add: fair_env_def)
      ultimately show ?thesis using Cons True ws(1) db1(1) k by simp
    next
      case False
      let ?lanes = "st_Lanes s"
      obtain bs where bs: "step_buckets workers txs ?lanes = Inr bs" "length bs = workers" "mset (concat bs) = mset ?lanes"
        using step_buckets_ok [OF _ workers] lanes s by metis
      let ?bs = "map (map ln_Work) bs"
      have set_bs: "set (concat ?bs) = step_works (pl_Works plan) s"
      proof -
        have "set (concat ?bs) = ln_Work ` set (concat bs)" by auto
        also have "\<dots> = ln_Work ` set ?lanes" using bs(3) by (metis set_mset_mset)
        also have "\<dots> = step_works (pl_Works plan) s" using ok s False by (simp add: step_ok_def)
        finally show ?thesis .
      qed
      have "\<exists>db'. run_workers (exec_turn dml (pl_Claim plan)) (en_turns env k) ?bs None db = (Some (Inr ()), db') \<and>
          store_holds dml (pl_Claim plan) c db0 db' \<and> store_pending c db' = store_pending c db - set (concat ?bs)"
      proof (rule store.workers_commit [OF prems(3), where k = "int k"])
        show "\<forall>t\<in>set (en_turns env k). tn_fault t = TxOk" using fair s k by (auto simp: fair_env_def)
        show "set (concat ?bs) \<subseteq> set (cl_WorkManifest c)" unfolding set_bs using works(1) by (auto simp: step_works_def)
        show "\<forall>w\<in>set (concat ?bs). wk_Step w = int k" unfolding set_bs using k by (simp add: step_works_def)
        show "\<forall>v\<in>store_pending c db. int k \<le> wk_Step v" using ge by blast
        show "\<forall>i<length ?bs. length (?bs ! i) \<le> count_list (map tn_worker (en_turns env k)) i"
        proof (intro allI impI)
          fix i assume i: "i < length ?bs"
          then have "length (?bs ! i) \<le> length ?lanes" using bucket_length [OF bs(3), of "bs ! i"] by simp
          then show "length (?bs ! i) \<le> count_list (map tn_worker (en_turns env k)) i"
            using fair s k i bs(2) unfolding fair_env_def by fastforce
        qed
      qed
      then obtain db1 where db1: "run_workers (exec_turn dml (pl_Claim plan)) (en_turns env k) ?bs None db = (Some (Inr ()), db1)"
          "store_holds dml (pl_Claim plan) c db0 db1" "store_pending c db1 = store_pending c db - step_works (pl_Works plan) s"
        unfolding set_bs by blast
      have "\<exists>db'. execute_steps dml env workers plan txs rest db1 = (Some (Inr ()), db') \<and>
          store_holds dml (pl_Claim plan) c db0 db' \<and> store_pending c db' = {}"
        using prems Cons db1 by (intro less.hyps [OF _ _ _ db1(2), where k = "Suc k"]) auto
      then show ?thesis using Cons False bs(1) db1(1) k by simp
    qed
  qed
qed

end
