(* ===== verification/ReplayOnceProps.thy ===== *)
theory ReplayOnceProps
  imports ReplayHistory
begin

text \<open>
  Properties of the durable replay state, and the small history their witnesses run: a stream with
  one claim of a parallel step with two lanes and a serial step, whose second work loses the
  acknowledgement of its commit and is retried.
\<close>

section \<open>A history\<close>

definition ex_work :: "int \<Rightarrow> int \<Rightarrow> string \<Rightarrow> int \<Rightarrow> replayClaimWork" where
  "ex_work step work kind lane = \<lparr>wk_Step = step, wk_Work = work, wk_Kind = kind, wk_Lane = lane,
     wk_Digest = replicate 32 1, wk_ExpectedTransactions = 1, wk_ExpectedChanges = 2, wk_CommittedAt = None\<rparr>"

definition ex_works :: "replayClaimWork list" where
  "ex_works = [ex_work 0 0 replayWorkParallelLane 0, ex_work 0 3 replayWorkParallelLane 3,
     ex_work 1 0 replayWorkSerial (-1)]"

definition ex_claim :: replayClaim where
  "ex_claim = \<lparr>cl_ID = ''c1'', cl_StreamID = ''s'', cl_Generation = ''g'', cl_StartGeneration = ''g'',
     cl_FenceGeneration = replayFenceGeneration ''g'' ''c1'', cl_StartLSN = 0, cl_EndLSN = 64,
     cl_Digest = replicate 32 2, cl_CatalogDigest = replicate 32 3, cl_PlanVersion = 5, cl_LaneCount = 32,
     cl_Transactions = 3, cl_Changes = 6, cl_ExpectedWork = 3, cl_CreatedAt = zero_time,
     cl_WorkManifest = ex_works\<rparr>"

definition ex_cfg :: StreamIdentityConfig where
  "ex_cfg = \<lparr>sc_StreamID = ''s'', sc_Generation = ''g'', sc_FreshSetup = True, sc_TargetHasCopiedData = False\<rparr>"

text \<open>The data counts how often each work was applied.\<close>

definition ex_dml :: "(int \<times> int \<Rightarrow> nat) dml" where
  "ex_dml w d = Some (d(work_key w := d (work_key w) + 1))"

definition ex_db0 :: "(int \<times> int \<Rightarrow> nat) ReplayDB" where
  "ex_db0 = \<lparr>db_identity = Map.empty, db_progress = Map.empty, db_claims = [], db_works = [], db_data = (\<lambda>_. 0)\<rparr>"

definition ex_db1 :: "(int \<times> int \<Rightarrow> nat) ReplayDB" where
  "ex_db1 = snd (EnsureStreamProgressIdentity ex_db0 ex_cfg)"

definition ex_db2 :: "(int \<times> int \<Rightarrow> nat) ReplayDB" where
  "ex_db2 = snd (ensureReplayClaim TxOk ex_db1 ex_claim ex_works)"

definition ex_db3 :: "(int \<times> int \<Rightarrow> nat) ReplayDB" where
  "ex_db3 = snd (executeReplayWork TxLost ex_dml zero_time ex_db2 ex_claim (ex_works ! 1))"

definition ex_db4 :: "(int \<times> int \<Rightarrow> nat) ReplayDB" where
  "ex_db4 = snd (executeReplayWork TxOk ex_dml zero_time ex_db3 ex_claim (ex_works ! 1))"

definition ex_db5 :: "(int \<times> int \<Rightarrow> nat) ReplayDB" where
  "ex_db5 = snd (executeReplayWork TxOk ex_dml zero_time ex_db4 ex_claim (ex_works ! 0))"

definition ex_db6 :: "(int \<times> int \<Rightarrow> nat) ReplayDB" where
  "ex_db6 = snd (executeSerialReplayWorkGroup TxOk ex_dml zero_time ex_db5 ex_claim [ex_works ! 2])"

definition ex_db7 :: "(int \<times> int \<Rightarrow> nat) ReplayDB" where
  "ex_db7 = snd (finalizeReplayClaim TxOk ex_db6 ex_claim)"

lemma ex_alone: "serial_alone (cloneReplayWorkManifest ex_works)"
  by code_simp

lemma ex_reach2: "replay_reach ex_dml (\<lambda>_. 0) ''s'' ex_db2 []"
  unfolding ex_db2_def ex_db1_def ex_db0_def
  by (rule reach_ensure [OF reach_identity [OF reach_start _ prod.collapse [symmetric]] _ ex_alone prod.collapse [symmetric]])
    (simp_all add: ex_cfg_def ex_claim_def)

lemma ex_reach3: "replay_reach ex_dml (\<lambda>_. 0) ''s'' ex_db3 []"
  unfolding ex_db3_def by (rule reach_work [OF ex_reach2 prod.collapse [symmetric]])

lemma ex_reach6: "replay_reach ex_dml (\<lambda>_. 0) ''s'' ex_db6 []"
  unfolding ex_db6_def ex_db5_def ex_db4_def
  by (rule reach_group [OF reach_work [OF reach_work [OF ex_reach3
        prod.collapse [symmetric]] prod.collapse [symmetric]] prod.collapse [symmetric]])

lemma ex_run7: "finalizeReplayClaim TxOk ex_db6 ex_claim = (Inr (), ex_db7)"
proof -
  have "fst (finalizeReplayClaim TxOk ex_db6 ex_claim) = Inr ()" by code_simp
  then show ?thesis by (simp add: ex_db7_def prod_eq_iff)
qed

lemma ex_claims: "db_claims ex_db6 = [ex_claim]" "db_claims ex_db7 = []"
  by code_simp+

lemma ex_reach7: "replay_reach ex_dml (\<lambda>_. 0) ''s'' ex_db7 [ReplayedClaim ex_claim]"
  using reach_finalize [OF ex_reach6 ex_run7] by (simp add: ex_claims)

text \<open>After the claim, a batch that is replayed in one transaction.\<close>

definition ex_batch :: directBatch where
  "ex_batch = \<lparr>bt_Progress = 64, bt_EndLSN = 96, bt_Transactions = 2, bt_Changes = 5, bt_Works = [ex_work 0 0 replayWorkSerial (-1)]\<rparr>"

definition ex_db8 :: "(int \<times> int \<Rightarrow> nat) ReplayDB" where
  "ex_db8 = snd (applyTransactionBatch TxOk ex_dml ex_db7 ''s'' (cl_FenceGeneration ex_claim) ex_batch)"

definition ex_progress :: StreamProgress where
  "ex_progress = \<lparr>pr_LSN = 96, pr_Generation = Some (cl_FenceGeneration ex_claim), pr_Transactions = 5, pr_Rows = 11\<rparr>"

definition ex_history :: "replayed list" where
  "ex_history = [ReplayedClaim ex_claim, ReplayedBatch ex_batch]"

lemma ex_moved: "db_progress ex_db8 ''s'' = Some ex_progress" "db_progress ex_db7 ''s'' \<noteq> db_progress ex_db8 ''s''"
    "db_claims ex_db8 = []"
  by code_simp+

lemma ex_reach8: "replay_reach ex_dml (\<lambda>_. 0) ''s'' ex_db8 ex_history"
proof -
  have "bt_Progress ex_batch < bt_EndLSN ex_batch" by (simp add: ex_batch_def)
  from reach_direct [OF ex_reach7 this, of TxOk "cl_FenceGeneration ex_claim" _ ex_db8] show ?thesis
    using ex_moved(2) by (simp add: ex_db8_def ex_history_def prod_eq_iff)
qed

section \<open>Orders of commuting works\<close>

definition commuting :: "'d dml \<Rightarrow> replayClaimWork \<Rightarrow> replayClaimWork \<Rightarrow> bool" where
  "commuting dml v w \<longleftrightarrow> (\<forall>d. Option.bind (dml v d) (dml w) = Option.bind (dml w d) (dml v))"

lemma replay_all_front:
  "\<forall>x\<in>set xs. commuting dml x m \<Longrightarrow> replay_all dml (xs @ m # ys) = replay_all dml (m # xs @ ys)"
proof (induction xs)
  case (Cons x xs)
  show ?case
  proof
  fix d
  have "replay_all dml (xs @ m # ys) = replay_all dml (m # xs @ ys)" using Cons by (meson list.set_intros(2))
  then have "replay_all dml ((x # xs) @ m # ys) d = Option.bind (dml x d) (replay_all dml (m # xs @ ys))"
    by (metis append_Cons replay_all.simps(2))
  also have "\<dots> = Option.bind (Option.bind (dml x d) (dml m)) (replay_all dml (xs @ ys))"
    by (cases "dml x d") simp_all
  also have "\<dots> = Option.bind (Option.bind (dml m d) (dml x)) (replay_all dml (xs @ ys))"
    using Cons.prems by (simp add: commuting_def)
  also have "\<dots> = replay_all dml (m # (x # xs) @ ys) d" by (cases "dml m d") simp_all
  finally show "replay_all dml ((x # xs) @ m # ys) d = replay_all dml (m # (x # xs) @ ys) d" .
  qed
qed simp

lemma replay_all_sorted:
  assumes "mset ws = mset ms" and "sorted (map wk_Step ws)" and "sorted (map wk_Step ms)"
    and "\<forall>v\<in>set ms. \<forall>w\<in>set ms. wk_Step v = wk_Step w \<longrightarrow> commuting dml v w"
  shows "replay_all dml ws = replay_all dml ms"
  using assms
proof (induction ms arbitrary: ws)
  case (Cons m ms)
  have sets: "set ws = set (m # ms)" using Cons.prems(1) by (metis set_mset_mset)
  then obtain xs ys where ws: "ws = xs @ m # ys" by (metis in_set_conv_decomp list.set_intros(1))
  have "commuting dml x m" if x: "x \<in> set xs" for x
  proof -
    have "x \<in> set (m # ms)" using sets x ws by auto
    moreover from this have "wk_Step m \<le> wk_Step x" using Cons.prems(3) by auto
    moreover have "wk_Step x \<le> wk_Step m" using Cons.prems(2) x ws by (auto simp: sorted_append)
    ultimately show ?thesis using Cons.prems(4) by fastforce
  qed
  then have front: "replay_all dml ws = replay_all dml (m # xs @ ys)"
    unfolding ws by (intro replay_all_front) blast
  have "replay_all dml (xs @ ys) = replay_all dml ms"
    by (rule Cons.IH) (use Cons.prems ws in \<open>auto simp: sorted_append\<close>)
  then have "replay_all dml (m # xs @ ys) = replay_all dml (m # ms)"
    by (intro ext) (simp del: replay_all_append)
  then show ?case using front by simp
qed simp

lemma replay_orders_eq:
  assumes "list_all2 replayed_order final orders"
    and "\<forall>c. ReplayedClaim c \<in> set final \<longrightarrow> manifest_rows (cl_WorkManifest c)"
    and "\<forall>c. ReplayedClaim c \<in> set final \<longrightarrow> (\<forall>v\<in>set (cl_WorkManifest c). \<forall>w\<in>set (cl_WorkManifest c).
      wk_Step v = wk_Step w \<longrightarrow> commuting dml v w)"
  shows "replay_all dml (concat orders) = replay_all dml (concat (map en_works final))"
  using assms
proof (induction rule: list_all2_induct)
  case (Cons e es ws os)
  have "replay_all dml ws = replay_all dml (en_works e)"
  proof (cases e)
    case (ReplayedClaim c)
    then have "replay_all dml ws = replay_all dml (cl_WorkManifest c)"
      using Cons.hyps(1) Cons.prems manifest_steps by (intro replay_all_sorted) auto
    then show ?thesis using ReplayedClaim by simp
  qed (use Cons.hyps(1) in simp)
  moreover have "replay_all dml (concat os) = replay_all dml (concat (map en_works es))"
    using Cons.IH Cons.prems by auto
  ultimately show ?case by (intro ext) simp
qed simp

section \<open>Exactly once\<close>

text \<open>C18: Exactly-once replay. Whatever sequence of operations ran on a target, with whatever arguments,
  connection faults, crashes and retries, the replayed data is exactly what applying the works of the
  finalized claims and of the batches replayed without a claim, in the order they were finished, and
  then the committed works of the claim in progress gives: every work of a batch once and in order,
  every work of a finalized claim once, in an order that never puts a work before one of an earlier
  step.\<close>

theorem replay_exactly_once:
  assumes "replay_reach dml d0 s db final"
  shows "\<exists>orders cur. list_all2 replayed_order final orders \<and> mset cur = mset (committed_works db) \<and>
    sorted (map wk_Step cur) \<and> replay_all dml (concat orders @ cur) d0 = Some (db_data db)"
proof -
  note inv = replay_inv_reach [OF assms]
  then obtain orders d where o: "list_all2 replayed_order final orders"
      "replay_all dml (concat orders) d0 = Some d"
    and d: "case db_claims db of [] \<Rightarrow> db_data db = d | c # _ \<Rightarrow> \<exists>rows cur. running dml d db c rows cur"
    by (auto simp: replay_inv_def data_ok_def)
  show ?thesis
  proof (cases "db_claims db")
    case Nil
    then have "db_works db = []" using inv by (simp add: replay_inv_def tables_ok_def)
    then show ?thesis
      using o d Nil by (intro exI [of _ orders] exI [of _ "[]"]) (simp add: committed_works_def)
  next
    case (Cons c cs)
    with d obtain rows cur where run: "running dml d db c rows cur" by auto
    then have "map snd (db_works db) = rows" by (auto simp: running_def active_def comp_def)
    then show ?thesis
      using o run by (intro exI [of _ orders] exI [of _ cur]) (simp add: running_def committed_works_def)
  qed
qed

lemma replay_exactly_once_witness:
  "\<exists>orders cur. list_all2 replayed_order ex_history orders \<and> mset cur = mset (committed_works ex_db8) \<and>
    sorted (map wk_Step cur) \<and> replay_all ex_dml (concat orders @ cur) (\<lambda>_. 0) = Some (db_data ex_db8)"
  by (rule replay_exactly_once [OF ex_reach8])

text \<open>C19: Serial equivalence. When the works of a step commute (the lanes of a parallel step do not
  conflict), a target without a claim in progress holds the data that replaying the manifests of the
  claims and the works of the other batches in their order gives, whatever the interleaving of the lanes and the retries were.\<close>

theorem replay_serial_equivalent:
  assumes "replay_reach dml d0 s db final" and "db_claims db = []"
    and "\<forall>c. ReplayedClaim c \<in> set final \<longrightarrow> (\<forall>v\<in>set (cl_WorkManifest c). \<forall>w\<in>set (cl_WorkManifest c).
      wk_Step v = wk_Step w \<longrightarrow> commuting dml v w)"
  shows "replay_all dml (concat (map en_works final)) d0 = Some (db_data db)"
proof -
  note inv = replay_inv_reach [OF assms(1)]
  obtain orders where o: "list_all2 replayed_order final orders"
      "replay_all dml (concat orders) d0 = Some (db_data db)"
    using inv assms(2) by (auto simp: replay_inv_def data_ok_def)
  have "replay_all dml (concat orders) = replay_all dml (concat (map en_works final))"
    by (rule replay_orders_eq [OF o(1) reach_manifests [OF assms(1)] assms(3)])
  then show ?thesis using o(2) by simp
qed

lemma ex_commuting: "commuting ex_dml v w"
  by (auto simp: commuting_def ex_dml_def fun_eq_iff)

lemma replay_serial_equivalent_witness:
  "replay_all ex_dml (concat (map en_works ex_history)) (\<lambda>_. 0) = Some (db_data ex_db8)"
  by (rule replay_serial_equivalent [OF ex_reach8]) (simp_all add: ex_moved ex_commuting)

section \<open>Progress\<close>

text \<open>C20: The progress row counts exactly what was replayed. Its LSN is the end of the last claim finalized
  or batch replayed without a claim, each of these starts at the LSN where the one before it ended, and
  its counters are the sums of their transactions and changes: works of a claim in progress never move
  it.\<close>

theorem progress_counts_replayed:
  assumes "replay_reach dml d0 s db final" and "db_progress db s = Some p"
  shows "chained 0 final (pr_LSN p) \<and> pr_Transactions p = sum_list (map en_transactions final) \<and>
    pr_Rows p = sum_list (map en_changes final)"
  using replay_inv_reach [OF assms(1)] assms(2) by (simp add: replay_inv_def progress_counts_def)

lemma progress_counts_replayed_witness:
  "chained 0 ex_history 96 \<and> (5::int) = sum_list (map en_transactions ex_history) \<and>
    (11::int) = sum_list (map en_changes ex_history)"
  using progress_counts_replayed [OF ex_reach8 ex_moved(1)] by (simp add: ex_progress_def)

text \<open>C21: The fence. While a claim is in progress, no writer moves the progress of the stream past it:
  \<^verbatim>\<open>updateStreamProgress\<close> is refused for every generation, the effective one included, and leaves
  the target unchanged.\<close>

theorem active_claim_fences_progress:
  assumes "replay_reach dml d0 s db final" and "db_claims db \<noteq> []"
  shows "\<exists>e. updateStreamProgress f db s generation expected remote transactions rows = (Inl e, db)"
  using fenced_generation [OF replay_inv_reach [OF assms(1)] assms(2)]
  by (auto simp: updateStreamProgress_def end_tx_def Let_def)

lemma active_claim_fences_progress_witness:
  "\<exists>e. updateStreamProgress TxOk ex_db6 ''s'' (cl_FenceGeneration ex_claim) 0 128 1 1 = (Inl e, ex_db6)"
  by (rule active_claim_fences_progress [OF ex_reach6]) (simp add: ex_claims)

section \<open>Retries\<close>

text \<open>A lost acknowledgement is safe. When the connection is lost in the commit of a work, the work
  is committed although the code saw an error; executing it again succeeds, with any fault, and changes
  nothing.\<close>

theorem lost_commit_retried:
  assumes "replay_reach dml d0 s db final" and "executeReplayWork TxLost dml now db claim w = (Inl e, db')"
    and "db' \<noteq> db"
  shows "executeReplayWork f dml now' db' claim w = (Inr (), db')"
proof -
  note inv = replay_inv_reach [OF assms(1)]
  have beg: "beginReplayClaimWork db claim w = Inr False" and one: "replay_one dml now db claim w = Inr db'"
    using assms(2,3) by (auto simp: executeReplayWork_def end_tx_def split: sum.splits bool.splits)
  have ne: "db_claims db \<noteq> []"
    using beg by (auto simp: beginReplayClaimWork_def claim_live_def split: option.splits if_splits)
  obtain c where c: "db_claims db = [c]" using inv_claims [OF inv ne] by metis
  obtain d cur rows where run: "running dml d db c rows cur" using inv c by (auto simp: replay_inv_def data_ok_def)
  have a: "active db c rows" using run by (simp add: running_def)
  obtain v where v: "v \<in> set rows" "clear_receipt v = clear_receipt w" "\<not> committed v"
    and m: "claim_matches claim c" and earlier: "\<forall>u\<in>set rows. wk_Step u < wk_Step w \<longrightarrow> committed u"
    using beg begin_work_active [OF a] by (auto simp: claim_matches_def)
  obtain xs ys where rows: "rows = xs @ v # ys" using v(1) by (rule row_split)
  have early: "\<forall>u\<in>set (xs @ v # ys). wk_Step u < wk_Step v \<longrightarrow> committed u"
    using earlier clear_fields(1) [OF v(2)] unfolding rows by simp
  then have "active db' c (xs @ v\<lparr>wk_CommittedAt := Some now\<rparr> # ys)"
    using replay_one_running [OF run [unfolded rows] m v(3,2) _ one] by (auto simp: running_def)
  from begin_work_active [OF this] have "beginReplayClaimWork db' claim w = Inr True"
    using m v(2) early clear_fields(1) [OF v(2)] by (auto simp: claim_matches_def)
  then show ?thesis by (simp add: executeReplayWork_def)
qed

lemma lost_commit_retried_witness:
  "executeReplayWork TxFail ex_dml zero_time ex_db3 ex_claim (ex_works ! 1) = (Inr (), ex_db3)"
proof (rule lost_commit_retried [OF ex_reach2])
  have "fst (executeReplayWork TxLost ex_dml zero_time ex_db2 ex_claim (ex_works ! 1)) =
      Inl (Err ''connection lost after commit'')" by code_simp
  then show "executeReplayWork TxLost ex_dml zero_time ex_db2 ex_claim (ex_works ! 1) =
      (Inl (Err ''connection lost after commit''), ex_db3)"
    by (simp add: ex_db3_def prod_eq_iff)
  have "length (committed_works ex_db3) \<noteq> length (committed_works ex_db2)" by code_simp
  then show "ex_db3 \<noteq> ex_db2" by auto
qed

section \<open>Refusals\<close>

text \<open>Finalization is refused, and changes nothing, when a work of the claim is not committed, when
  the claim is not the stored one, or when no claim is in progress.\<close>

theorem finalize_refused:
  assumes "replay_reach dml d0 s db final"
    and "cl_StreamID claim = s"
    and "db_claims db = [] \<or> (\<exists>c\<in>set (db_claims db). cl_Digest c \<noteq> cl_Digest claim \<or> cl_ID c \<noteq> cl_ID claim \<or>
      (\<exists>w\<in>set (claim_works db (cl_ID c)). \<not> committed w))"
  shows "\<exists>e. finalizeReplayClaim f db claim = (Inl e, db)"
proof -
  obtain r db' where ex: "finalizeReplayClaim f db claim = (r, db')" by (cases "finalizeReplayClaim f db claim")
  show ?thesis
    using finalize_effect [OF ex]
  proof (elim disjE exE conjE)
    fix i c0 ws
    assume read: "readReplayClaim db (cl_StreamID claim) = Inr (Some c0)"
      and works: "readReplayClaimWorks db (cl_ID claim) = Inr ws"
      and valid: "validateReplayClaim c0 ws claim (cl_WorkManifest claim) = Inr ()"
      and comm: "\<forall>w\<in>set ws. committed w"
    have ne: "db_claims db \<noteq> []" using read by (auto simp: readReplayClaim_def)
    obtain c rows where c: "db_claims db = [c]" "active db c rows" "cl_StreamID c = s"
      using inv_claims [OF replay_inv_reach [OF assms(1)] ne] by metis
    have c0: "c0 = c\<lparr>cl_WorkManifest := []\<rparr>" using active_read [OF c(2)] read assms(2) c(3) by simp
    have same: "cl_ID c = cl_ID claim" "cl_Digest c = cl_Digest claim"
      using valid by (auto simp: validateReplayClaim_def c0 split: if_splits)
    have "claim_works db (cl_ID c) = rows" using c(2) by (simp add: active_def)
    moreover have "\<forall>w\<in>set rows. committed w"
      using active_finalized_works [OF c(2)] works comm same by simp
    ultimately show ?thesis using assms(3) c(1) same by auto
  qed (use ex in auto)
qed

lemma finalize_refused_witness:
  "\<exists>e. finalizeReplayClaim TxOk ex_db3 ex_claim = (Inl e, ex_db3)"
proof (rule finalize_refused [OF ex_reach3])
  have "db_claims ex_db3 = [ex_claim]" "list_ex (\<lambda>w. \<not> committed w) (claim_works ex_db3 (cl_ID ex_claim))"
    by code_simp+
  then show "db_claims ex_db3 = [] \<or> (\<exists>c\<in>set (db_claims ex_db3). cl_Digest c \<noteq> cl_Digest ex_claim \<or>
      cl_ID c \<noteq> cl_ID ex_claim \<or> (\<exists>w\<in>set (claim_works ex_db3 (cl_ID c)). \<not> committed w))"
    by (simp add: list_ex_iff)
qed (simp add: ex_claim_def)

end
