(* ===== verification/ReplayRunProps.thy ===== *)
theory ReplayRunProps
  imports ReplayRun ReplayOnceProps
begin

text \<open>
  The composition of planner, durable store and executor: a batch is planned, claimed, replayed and
  finalized, and a run that stops anywhere in between is completed by the next one.
\<close>

section \<open>Claiming a plan\<close>

definition plan_claim :: "replayPlan \<Rightarrow> replayClaim" where
  "plan_claim plan = (pl_Claim plan)\<lparr>cl_WorkManifest := pl_Works plan\<rparr>"

lemma clear_works:
  assumes "buildReplayPlanForGenerationVersion s g g0 lsn lanes txs rels ver = Inr plan"
  shows "map clear_receipt (pl_Works plan) = pl_Works plan"
  using build_fresh [OF assms] fresh_clear by (intro map_idI) blast

lemma insert_works_ok:
  assumes "manifest_rows (vs @ ws)" "\<forall>w\<in>set ws. length (wk_Digest w) = 32"
  shows "insert_works i ws (map (Pair i) (map clear_receipt vs)) = Inr (map (Pair i) (map clear_receipt (vs @ ws)))"
  using assms
proof (induction ws arbitrary: vs)
  case (Cons w ws)
  let ?rows = "map (Pair i) (map clear_receipt vs)"
  have keys: "distinct (map work_key (vs @ w # ws))" using manifest_keys [OF Cons.prems(1)] .
  then have "work_key w \<notin> work_key ` set vs" by auto
  then have "work_key v \<noteq> work_key w" if "v \<in> set vs" for v using that by (metis image_eqI)
  moreover have "row_ok w" using Cons.prems(1) by (simp add: manifest_rows_def)
  ultimately have "work_row_ok ?rows i w" using Cons.prems(2) by (auto simp: work_row_ok_def row_ok_def)
  then have "insert_works i (w # ws) ?rows = insert_works i ws (?rows @ [(i, clear_receipt w)])"
    by (simp add: clear_receipt_def)
  then show ?case using Cons.IH [of "vs @ [w]"] Cons.prems by (simp del: map_map)
qed simp

lemma build_row:
  assumes "buildReplayPlanForGenerationVersion s g g0 lsn lanes txs rels ver = Inr plan"
  shows "cl_PlanVersion (pl_Claim plan) = ver \<and> 2 \<le> ver \<and> ver \<le> 5 \<and> 0 < cl_LaneCount (pl_Claim plan) \<and>
    length (cl_CatalogDigest (pl_Claim plan)) = 32"
  using assms
  by (auto simp: buildReplayPlanForGenerationVersion_def rbind_eq_Inr Let_def replayClaimMinimumPlanVersion_def
      replayClaimPlanVersion_def split: if_splits)

definition progress_at :: "StreamProgress option \<Rightarrow> LSN \<Rightarrow> string \<Rightarrow> bool" where
  "progress_at p lsn g = (case p of None \<Rightarrow> lsn = 0 | Some p \<Rightarrow> pr_LSN p = lsn \<and> pr_Generation p = Some g)"

lemma claim_progress_ok:
  assumes "progress_at (db_progress db (cl_StreamID c)) (cl_StartLSN c) (cl_StartGeneration c)"
  obtains p db1 where "claim_progress db c = Inr (p, db1)" "pr_LSN p = cl_StartLSN c"
    "pr_Generation p = Some (cl_StartGeneration c)" "db_identity db1 = db_identity db"
    "db_claims db1 = db_claims db" "db_works db1 = db_works db"
  using assms by (cases "db_progress db (cl_StreamID c)") (auto simp: progress_at_def claim_progress_def Let_def)

text \<open>A planned batch that follows the progress of an idle target can be claimed.\<close>

lemma ensure_fresh:
  assumes plan: "buildReplayPlanForGenerationVersion s g g0 lsn lanes txs rels ver = Inr plan"
    and idle: "db_claims db = []" "db_works db = []"
    and ident: "db_identity db s = Some i" "id_Base i = g" "id_Generation i = g0"
    and progress: "progress_at (db_progress db s) lsn g0"
    and lsn: "lsn < tx_EndLSN (last txs)"
    and fence: "cl_FenceGeneration (pl_Claim plan) \<noteq> g0"
  shows "\<exists>db'. ensureReplayClaim TxOk db (pl_Claim plan) (pl_Works plan) = (Inr (plan_claim plan), db')"
proof -
  let ?c = "pl_Claim plan" and ?d = "plan_claim plan"
  note c = build_claim [OF plan]
  have clear: "cloneReplayWorkManifest (pl_Works plan) = pl_Works plan"
    using clear_works [OF plan] by (simp add: clone_eq_clear)
  have id: "cl_ID ?c \<noteq> []" using c replayClaimID_nonempty by simp
  have fence_ne: "cl_FenceGeneration ?c \<noteq> []" using c by (simp add: replayFenceGeneration_def)
  have "validateReplayClaimManifest ?c (pl_Works plan) = Inr ()"
    using build_manifest [OF plan] fence by blast
  then have valid: "validateReplayClaimManifest ?d (pl_Works plan) = Inr ()" by (simp add: plan_claim_def)
  have sel: "cl_StreamID ?d = s" "cl_StartLSN ?d = lsn" "cl_StartGeneration ?d = g0" "cl_Generation ?d = g"
      "cl_ID ?d = cl_ID ?c" "cl_FenceGeneration ?d = cl_FenceGeneration ?c" "cl_EndLSN ?d = tx_EndLSN (last txs)"
    using c by (simp_all add: plan_claim_def)
  obtain p db1 where p: "claim_progress db ?d = Inr (p, db1)" "pr_LSN p = lsn" "pr_Generation p = Some g0"
      "db_identity db1 = db_identity db" "db_claims db1 = []" "db_works db1 = []"
    using claim_progress_ok [of db ?d] progress idle by (auto simp: sel)
  have "manifest_rows (pl_Works plan)" using valid by (simp add: validate_manifest_iff)
  then have rows: "insert_works (cl_ID ?c) (pl_Works plan) [] =
      Inr (map (Pair (cl_ID ?c)) (map clear_receipt (pl_Works plan)))"
    using insert_works_ok [of "[]" "pl_Works plan" "cl_ID ?c"] build_fresh [OF plan] by (simp add: fresh_work_def)
  have "0 \<le> sum_list (map (\<lambda>tx. uint (ChangeCount tx)) txs)" by (rule sum_list_nonneg) auto
  then have row: "claim_row_ok db1 ?d"
    using build_row [OF plan] lsn p(5) by (simp add: claim_row_ok_def plan_claim_def c)
  have "\<exists>db'. create_claim db i ?c (pl_Works plan) = Inr (?d, db')"
    using id fence fence_ne c ident p valid rows row
    by (auto simp: create_claim_def Let_def clear plan_claim_def [symmetric] fence_identity_def sel)
  then obtain db' where "create_claim db i ?c (pl_Works plan) = Inr (?d, db')" by blast
  moreover have "readReplayClaim db s = Inr None" using idle by (simp add: readReplayClaim_def)
  ultimately show ?thesis using c ident by (simp add: ensureReplayClaim_def end_tx_def)
qed

lemma ensure_claims:
  assumes ex: "ensureReplayClaim TxOk db desired works = (Inr c, db')" and idle: "db_claims db = []"
  shows "db_claims db' = [c]"
proof -
  obtain i where "create_claim db i desired works = Inr (c, db')"
    using ex idle by (auto simp: ensureReplayClaim_def end_tx_def readReplayClaim_def split: option.splits sum.splits if_splits)
  then show ?thesis
    using idle by (auto simp: create_claim_def Let_def rbind_eq_Inr claim_progress_def fence_identity_def
        split: if_splits option.splits)
qed

section \<open>Finalizing\<close>

lemma active_readable:
  assumes a: "active db c rows" and ver: "2 \<le> cl_PlanVersion c" "cl_PlanVersion c \<le> 5"
  shows "readReplayClaim db (cl_StreamID c) = Inr (Some (c\<lparr>cl_WorkManifest := []\<rparr>))"
    "readReplayClaimWorks db (cl_ID c) = Inr rows"
proof -
  have "sorted (map work_key rows)"
    using active_manifest [OF a] unfolding manifest_rows_def sorted_map
    by (auto simp: key_less_def work_key_def less_eq_prod_def elim!: sorted_wrt_mono_rel [rotated])
  then show "readReplayClaimWorks db (cl_ID c) = Inr rows"
    using a by (auto simp: readReplayClaimWorks_def active_def sort_key_id_if_sorted Let_def)
  have "fence_ok c" using a by (simp add: active_def validate_manifest_iff)
  moreover have "claim_row_ok (db\<lparr>db_claims := []\<rparr>) c" "db_claims db = [c]" using a by (simp_all add: active_def)
  ultimately show "readReplayClaim db (cl_StreamID c) = Inr (Some (c\<lparr>cl_WorkManifest := []\<rparr>))"
    using ver by (auto simp: readReplayClaim_def decodeReplayClaim_def fence_ok_def claim_row_ok_def
        replayClaimMinimumPlanVersion_def replayClaimPlanVersion_def rbind_eq_Inr)
qed

lemma active_validates:
  assumes "active db c rows"
  shows "validateReplayClaim (c\<lparr>cl_WorkManifest := []\<rparr>) rows c (cl_WorkManifest c) = Inr ()"
proof -
  have m: "map clear_receipt rows = cl_WorkManifest c" "validateReplayClaimManifest c (cl_WorkManifest c) = Inr ()"
    using assms by (simp_all add: active_def)
  then have "validateReplayClaimManifest c rows = Inr ()" by (metis validate_manifest_clear)
  then have "validateReplayClaimManifest (c\<lparr>cl_WorkManifest := []\<rparr>) rows = Inr ()" by simp
  moreover have same: "list_all2 same_work rows (cl_WorkManifest c)"
    unfolding list_all2_same_work clone_eq_clear m(1) [symmetric] by (simp add: comp_def)
  ultimately show ?thesis
    using m(2) list_all2_lengthD [OF same] same
    by (simp add: validateReplayClaim_def del: validate_manifest_works)
qed

lemma finalize_ok:
  assumes a: "active db c rows" and all: "\<forall>w\<in>set rows. committed w"
    and ver: "2 \<le> cl_PlanVersion c" "cl_PlanVersion c \<le> 5"
    and p: "db_progress db (cl_StreamID c) = Some p" "pr_LSN p = cl_StartLSN c"
      "pr_Generation p = Some (cl_StartGeneration c)"
  shows "\<exists>db'. finalizeReplayClaim TxOk db c = (Inr (), db') \<and> db_claims db' = [] \<and>
    (\<exists>q. db_progress db' (cl_StreamID c) = Some q \<and> pr_LSN q = cl_EndLSN c)"
proof -
  obtain i where "db_identity db (cl_StreamID c) = Some i" "id_Base i = cl_Generation c"
      "id_Generation i = cl_FenceGeneration c"
    using a by (auto simp: active_def fenced_def)
  moreover have "db_claims db = [c]" using a by (simp add: active_def)
  ultimately show ?thesis
    using active_readable [OF a ver] active_validates [OF a] all p
    by (auto simp: finalizeReplayClaim_def end_tx_def finalize_progress_def delete_claim_def)
qed

section \<open>Running\<close>

lemma check_steps_claim: "check_steps (plan\<lparr>pl_Claim := c\<rparr>) txs k ss st = check_steps plan txs k ss st"
proof (induction ss arbitrary: k st)
  case (Cons s ss)
  have "check_step (plan\<lparr>pl_Claim := c\<rparr>) txs s st = check_step plan txs s st"
  proof -
    have work: "replayPlanWork (plan\<lparr>pl_Claim := c\<rparr>) = replayPlanWork plan"
      by (simp add: fun_eq_iff replayPlanWork_def)
    show ?thesis unfolding check_step_def work ..
  qed
  then show ?case using Cons by (cases "check_step plan txs s st") simp_all
qed simp

text \<open>From any state in which the plan's claim is in progress, a fair run finishes it.\<close>

lemma run_completes:
  assumes plan: "buildReplayPlanForGenerationVersion s g g0 lsn lanes txs rels ver = Inr plan"
    and reach: "replay_reach dml d0 s db final" and claim: "db_claims db = [plan_claim plan]"
    and total: "\<forall>w d. dml w d \<noteq> None" and workers: "0 < workers"
    and fair: "fair_env env workers plan"
  shows "\<exists>db'. executeReplayPlan dml env workers (plan\<lparr>pl_Claim := plan_claim plan\<rparr>) txs db = (Some (Inr ()), db') \<and>
    db_claims db' = [] \<and> (\<exists>q. db_progress db' s = Some q \<and> pr_LSN q = tx_EndLSN (last txs))"
proof -
  let ?c = "plan_claim plan" and ?plan = "plan\<lparr>pl_Claim := plan_claim plan\<rparr>"
  have c: "cl_WorkManifest ?c = pl_Works plan" "cl_StreamID ?c = s" "cl_EndLSN ?c = tx_EndLSN (last txs)"
      "cl_PlanVersion ?c = ver" "2 \<le> ver" "ver \<le> 5"
    using build_claim [OF plan] build_row [OF plan] by (simp_all add: plan_claim_def)
  note inv = replay_inv_reach [OF reach]
  have cov: "covers ver txs rels (pl_Steps plan) (pl_Works plan) (length txs)" using build_covers [OF plan] by blast
  obtain d rows cur where run: "running dml d db ?c rows cur"
    using inv claim by (auto simp: replay_inv_def data_ok_def)
  obtain p where p: "db_progress db s = Some p" "pr_LSN p = cl_StartLSN ?c" "pr_Generation p = Some (cl_StartGeneration ?c)"
    using inv claim by (auto simp: replay_inv_def tables_ok_def)
  have holds: "store_holds dml (pl_Claim ?plan) ?c db db"
    using run total covers_serial_alone [OF cov] by (auto simp: store_holds_def claim_matches_def c)
  have steps: "\<forall>s\<in>set (pl_Steps ?plan). step_ok (pl_Works ?plan) (length txs) s" "consecutive 0 (pl_Steps ?plan)"
    using covers_steps [OF cov] by simp_all
  have "w \<in> \<Union> (step_works (pl_Works ?plan) ` set (pl_Steps ?plan))" if w: "w \<in> set (pl_Works plan)" for w
  proof -
    have less: "0 \<le> wk_Step w" "wk_Step w < int (length (pl_Steps plan))"
      using covers_works [OF cov] w by (auto simp: manifest_rows_def row_ok_def)
    then have "nat (wk_Step w) < length (pl_Steps plan)" by simp
    moreover from this have "st_Index (pl_Steps plan ! nat (wk_Step w)) = nat (wk_Step w)"
      using steps(2) by (simp add: consecutive_def)
    ultimately show ?thesis using w less(1) by (auto simp: step_works_def intro!: bexI [OF _ nth_mem])
  qed
  then have pend: "store_pending ?c db \<subseteq> \<Union> (step_works (pl_Works ?plan) ` set (pl_Steps ?plan))"
    by (auto simp: store_pending_def c)
  have manifest: "pl_Works ?plan = cl_WorkManifest ?c" "manifest_rows (pl_Works ?plan)"
    using c covers_works [OF cov] by simp_all
  have fair': "fair_env env workers ?plan" using fair by (simp add: fair_env_def)
  have lanes: "\<forall>s\<in>set (pl_Steps ?plan). \<forall>l\<in>set (st_Lanes s). validateReplayPlanLane l txs = Inr ()"
    using covers_lanes [OF cov] by simp
  obtain db1 where ex: "execute_steps dml env workers ?plan txs (pl_Steps ?plan) db = (Some (Inr ()), db1)"
      "store_holds dml (pl_Claim ?plan) ?c db db1" "store_pending ?c db1 = {}"
    using execute_steps_ok [OF manifest workers fair' lanes steps(1) subset_refl steps(2) holds pend] by blast
  obtain d1 rows1 cur1 where run1: "running dml d1 db1 ?c rows1 cur1" and fr: "same_frame db db1"
    using ex(2) by (auto simp: store_holds_def)
  have all: "\<forall>w\<in>set rows1. committed w" using pending_iff [OF run1] ex(3) by blast
  have a1: "active db1 ?c rows1" using run1 by (simp add: running_def)
  have p1: "db_progress db1 (cl_StreamID ?c) = Some p" using fr p(1) c(2) by (simp add: same_frame_def)
  have v: "2 \<le> cl_PlanVersion ?c" "cl_PlanVersion ?c \<le> 5" using c by simp_all
  obtain db2 where fin: "finalizeReplayClaim TxOk db1 ?c = (Inr (), db2)" "db_claims db2 = []"
      "\<exists>q. db_progress db2 s = Some q \<and> pr_LSN q = tx_EndLSN (last txs)"
    using finalize_ok [OF a1 all v p1 p(2,3)] c by auto
  have "validateReplayPlanExecution ?plan txs = Inr ()"
    using build_accepted [OF plan] unfolding validateReplayPlanExecution_def
    by (auto simp: check_steps_claim plan_claim_def rbind_eq_Inr split: if_splits)
  moreover have "en_final env = TxOk" using fair by (simp add: fair_env_def)
  ultimately show ?thesis using ex(1) fin workers by (simp add: executeReplayPlan_def)
qed

lemma ensure_resumed:
  assumes plan: "buildReplayPlanForGenerationVersion s g g0 lsn lanes txs rels ver = Inr plan"
    and reach: "replay_reach dml d0 s db final" and claim: "db_claims db = [plan_claim plan]"
  shows "ensureReplayClaim TxOk db (pl_Claim plan) (pl_Works plan) = (Inr (plan_claim plan), db)"
proof -
  let ?c = "plan_claim plan"
  have c: "cl_WorkManifest ?c = pl_Works plan" "cl_StreamID ?c = s" "cl_PlanVersion ?c = ver" "2 \<le> ver" "ver \<le> 5"
      "cl_StreamID (pl_Claim plan) = s" "cl_Generation ?c = cl_Generation (pl_Claim plan)"
    using build_claim [OF plan] build_row [OF plan] by (simp_all add: plan_claim_def)
  obtain rows where a: "active db ?c rows"
    using replay_inv_reach [OF reach] claim by (auto simp: replay_inv_def data_ok_def running_def)
  have clear: "cloneReplayWorkManifest (pl_Works plan) = pl_Works plan"
    using clear_works [OF plan] by (simp add: clone_eq_clear)
  obtain i where i: "db_identity db s = Some i" "id_Base i = cl_Generation ?c" "id_Generation i = cl_FenceGeneration ?c"
    using a c(2) by (auto simp: active_def fenced_def)
  have v: "2 \<le> cl_PlanVersion ?c" "cl_PlanVersion ?c \<le> 5" using c by simp_all
  note read = active_readable [OF a v, unfolded c(2)]
  have again: "(pl_Claim plan)\<lparr>cl_WorkManifest := pl_Works plan\<rparr> = ?c"
      "?c\<lparr>cl_WorkManifest := pl_Works plan\<rparr> = ?c"
    by (simp_all add: plan_claim_def)
  have "resume_claim db i (?c\<lparr>cl_WorkManifest := []\<rparr>) (pl_Claim plan) (pl_Works plan) = Inr ?c"
    using i read(2) active_validates [OF a] by (simp add: resume_claim_def clear again c(1))
  then show ?thesis
    using i read(1) c(6,7) by (simp add: ensureReplayClaim_def end_tx_def)
qed

section \<open>Properties\<close>

text \<open>C22: The executor accepts every plan the planner builds: its coverage check passes, and so does the
  check of each lane.\<close>

theorem executor_accepts_plans:
  assumes "buildReplayPlanForGenerationVersion streamID generation start startLSN laneCount txs rels ver = Inr plan"
  shows "validateReplayPlanExecution plan txs = Inr () \<and>
    (\<forall>s\<in>set (pl_Steps plan). \<forall>l\<in>set (st_Lanes s). validateReplayPlanLane l txs = Inr ())"
proof -
  have "covers ver txs rels (pl_Steps plan) (pl_Works plan) (length txs)" using build_covers [OF assms] by blast
  then show ?thesis using build_accepted [OF assms] covers_lanes by blast
qed

lemma executor_accepts_plans_witness:
  "\<exists>plan. buildReplayPlanForGenerationVersion ''s'' ''g'' ''g'' 0 4 shop_txs shop_rels 5 = Inr plan \<and>
     validateReplayPlanExecution plan shop_txs = Inr ()"
proof -
  obtain plan where p: "buildReplayPlanForGenerationVersion ''s'' ''g'' ''g'' 0 4 shop_txs shop_rels 5 = Inr plan"
    using shop_plan .
  then show ?thesis using executor_accepts_plans [OF p] by blast
qed

text \<open>C23: A batch completes. On an idle target whose progress is where the batch starts, the plan of the
  batch is claimed, and replaying it with any fair schedule of the sessions and a target that refuses
  no change finishes: no check fires, every work is committed, the claim is finalized and the progress
  is the end of the batch.\<close>

theorem replay_batch_completes:
  assumes "buildReplayPlanForGenerationVersion s g g0 lsn laneCount txs rels ver = Inr plan"
    and "replay_reach dml d0 s db final" and "db_claims db = []"
    and "db_identity db s = Some i" and "id_Base i = g" and "id_Generation i = g0"
    and "progress_at (db_progress db s) lsn g0" and "lsn < tx_EndLSN (last txs)"
    and "cl_FenceGeneration (pl_Claim plan) \<noteq> g0"
    and "\<forall>w d. dml w d \<noteq> None" and "0 < workers" and "fair_env env workers plan"
  shows "\<exists>claim db1 db2. ensureReplayClaim TxOk db (pl_Claim plan) (pl_Works plan) = (Inr claim, db1) \<and>
    executeReplayPlan dml env workers (plan\<lparr>pl_Claim := claim\<rparr>) txs db1 = (Some (Inr ()), db2) \<and>
    db_claims db2 = [] \<and> (\<exists>q. db_progress db2 s = Some q \<and> pr_LSN q = tx_EndLSN (last txs))"
proof -
  have works: "db_works db = []"
    using replay_inv_reach [OF assms(2)] assms(3) by (simp add: replay_inv_def tables_ok_def)
  obtain db1 where e: "ensureReplayClaim TxOk db (pl_Claim plan) (pl_Works plan) = (Inr (plan_claim plan), db1)"
    using ensure_fresh [OF assms(1,3) works assms(4-9)] by blast
  have cov: "covers ver txs rels (pl_Steps plan) (pl_Works plan) (length txs)" using build_covers [OF assms(1)] by blast
  have "serial_alone (cloneReplayWorkManifest (pl_Works plan))"
    using covers_serial_alone [OF cov] clear_works [OF assms(1)] by (simp add: clone_eq_clear)
  then have reach1: "replay_reach dml d0 s db1 final"
    using reach_ensure [OF assms(2) _ _ e] build_claim [OF assms(1)] by simp
  have "db_claims db1 = [plan_claim plan]" by (rule ensure_claims [OF e assms(3)])
  from run_completes [OF assms(1) reach1 this assms(10-12)] e show ?thesis by blast
qed

definition all_turns :: "replayPlan \<Rightarrow> replayEnv" where
  "all_turns plan = \<lparr>en_turns = (\<lambda>k. replicate (sum_list (map (\<lambda>s. length (st_Lanes s)) (pl_Steps plan)))
       \<lparr>tn_worker = 0, tn_fault = TxOk, tn_now = zero_time\<rparr>),
     en_group = (\<lambda>k. (TxOk, zero_time)), en_final = TxOk\<rparr>"

lemma fair_all_turns: "fair_env (all_turns plan) 1 plan"
proof -
  have "length (st_Lanes s) \<le> sum_list (map (\<lambda>s. length (st_Lanes s)) (pl_Steps plan))"
    if "s \<in> set (pl_Steps plan)" for s
    using that by (intro member_le_sum_list) auto
  moreover have "count_list (replicate n x) x = n" for n and x :: nat by (induction n) auto
  ultimately show ?thesis by (auto simp: fair_env_def all_turns_def)
qed

lemma ex_reach1: "replay_reach ex_dml (\<lambda>_. 0) ''s'' ex_db1 []"
  unfolding ex_db1_def ex_db0_def
  by (rule reach_identity [OF reach_start _ prod.collapse [symmetric]]) (simp add: ex_cfg_def)

lemma ex_db1_rows: "db_claims ex_db1 = []" "db_progress ex_db1 ''s'' = None"
    "db_identity ex_db1 ''s'' = Some \<lparr>id_Base = ''g'', id_Generation = ''g'', id_ProgressStarted = False\<rparr>"
  by code_simp+

lemma replay_batch_completes_witness:
  "\<exists>plan claim db1 db2. buildReplayPlanForGenerationVersion ''s'' ''g'' ''g'' 0 4 shop_txs shop_rels 5 = Inr plan \<and>
     ensureReplayClaim TxOk ex_db1 (pl_Claim plan) (pl_Works plan) = (Inr claim, db1) \<and>
     executeReplayPlan ex_dml (all_turns plan) 1 (plan\<lparr>pl_Claim := claim\<rparr>) shop_txs db1 = (Some (Inr ()), db2) \<and>
     db_claims db2 = []"
proof -
  obtain plan where p: "buildReplayPlanForGenerationVersion ''s'' ''g'' ''g'' 0 4 shop_txs shop_rels 5 = Inr plan"
    using shop_plan .
  have "cl_FenceGeneration (pl_Claim plan) \<noteq> ''g''"
    using build_claim [OF p] by (simp add: replayFenceGeneration_def)
  then show ?thesis
    using replay_batch_completes [OF p ex_reach1 ex_db1_rows(1,3) _ _ _ _ _ _ _ fair_all_turns] p
    by (auto simp: progress_at_def ex_db1_rows ex_dml_def shop_txs_def shop_tx_def)
qed

text \<open>C24: A crashed batch is resumed. Whatever happened since its claim was created (works committed in
  part, commits whose acknowledgement was lost, sessions that died), planning the same batch again finds
  the claim, and a fair run finishes it.\<close>

theorem replay_resume_completes:
  assumes "buildReplayPlanForGenerationVersion s g g0 lsn laneCount txs rels ver = Inr plan"
    and "replay_reach dml d0 s db final" and "db_claims db = [plan_claim plan]"
    and "\<forall>w d. dml w d \<noteq> None" and "0 < workers" and "fair_env env workers plan"
  shows "\<exists>claim db2. ensureReplayClaim TxOk db (pl_Claim plan) (pl_Works plan) = (Inr claim, db) \<and>
    executeReplayPlan dml env workers (plan\<lparr>pl_Claim := claim\<rparr>) txs db = (Some (Inr ()), db2) \<and>
    db_claims db2 = [] \<and> (\<exists>q. db_progress db2 s = Some q \<and> pr_LSN q = tx_EndLSN (last txs))"
  using ensure_resumed [OF assms(1-3)] run_completes [OF assms] by blast

lemma replay_resume_completes_witness:
  "\<exists>plan claim db db2. buildReplayPlanForGenerationVersion ''s'' ''g'' ''g'' 0 4 shop_txs shop_rels 5 = Inr plan \<and>
     ensureReplayClaim TxLost ex_db1 (pl_Claim plan) (pl_Works plan) = (Inl (Err ''connection lost after commit''), db) \<and>
     ensureReplayClaim TxOk db (pl_Claim plan) (pl_Works plan) = (Inr claim, db) \<and>
     executeReplayPlan ex_dml (all_turns plan) 1 (plan\<lparr>pl_Claim := claim\<rparr>) shop_txs db = (Some (Inr ()), db2) \<and>
     db_claims db2 = []"
proof -
  obtain plan where p: "buildReplayPlanForGenerationVersion ''s'' ''g'' ''g'' 0 4 shop_txs shop_rels 5 = Inr plan"
    using shop_plan .
  have cov: "covers 5 shop_txs shop_rels (pl_Steps plan) (pl_Works plan) (length shop_txs)"
    using build_covers [OF p] by blast
  have "cl_FenceGeneration (pl_Claim plan) \<noteq> ''g''"
    using build_claim [OF p] by (simp add: replayFenceGeneration_def)
  moreover have works: "db_works ex_db1 = []" by code_simp
  ultimately obtain db where e: "ensureReplayClaim TxOk ex_db1 (pl_Claim plan) (pl_Works plan) = (Inr (plan_claim plan), db)"
    using ensure_fresh [OF p ex_db1_rows(1) works ex_db1_rows(3)]
    by (auto simp: progress_at_def ex_db1_rows shop_txs_def shop_tx_def)
  then have lost: "ensureReplayClaim TxLost ex_db1 (pl_Claim plan) (pl_Works plan) =
      (Inl (Err ''connection lost after commit''), db)"
    by (auto simp: ensureReplayClaim_def end_tx_def split: sum.splits option.splits if_splits prod.splits)
  have "serial_alone (cloneReplayWorkManifest (pl_Works plan))"
    using covers_serial_alone [OF cov] clear_works [OF p] by (simp add: clone_eq_clear)
  then have reach: "replay_reach ex_dml (\<lambda>_. 0) ''s'' db []"
    using reach_ensure [OF ex_reach1 _ _ e] build_claim [OF p] by simp
  have total: "\<forall>w d. ex_dml w d \<noteq> None" by (simp add: ex_dml_def)
  have one: "0 < (1::nat)" by simp
  show ?thesis
    using replay_resume_completes [OF p reach ensure_claims [OF e ex_db1_rows(1)] total one fair_all_turns] p lost
    by blast
qed

end
