(* ===== verification/PGDecoder.thy ===== *)
theory PGDecoder
  imports CodecStream
begin

text \<open>
  The pgoutput decoder, \<^verbatim>\<open>internal/cdc/pgoutput.go\<close>: the state that assembles replication
  messages into transactions, and every operation on it. \<^verbatim>\<open>pglogrepl.Parse\<close> is third-party
  code and a parameter, \<open>parse\<close>: it returns a message, an error, or panics. A \<open>Message\<close> has the
  fields of the \<^verbatim>\<open>pglogrepl\<close> messages that the decoder reads; the tuple kinds and truncate
  options are the bytes of the protocol. \<^verbatim>\<open>time.Now\<close> is the parameter \<open>now\<close>.

  The reference for the decoder is \<open>assemble\<close>: no spill files, no thresholds, no size
  accounting. The lemmas relate the two, message by message.
\<close>

section \<open>Messages\<close>

record TupleColumn =
  tc_DataType :: byte
  tc_Data :: "bytes option"

type_synonym TupleData = "TupleColumn list"

abbreviation (input) TupleDataTypeNull :: byte where "TupleDataTypeNull \<equiv> 110"
abbreviation (input) TupleDataTypeToast :: byte where "TupleDataTypeToast \<equiv> 117"
abbreviation (input) TupleDataTypeText :: byte where "TupleDataTypeText \<equiv> 116"
abbreviation (input) TupleDataTypeBinary :: byte where "TupleDataTypeBinary \<equiv> 98"
abbreviation (input) TruncateOptionCascade :: byte where "TruncateOptionCascade \<equiv> 1"
abbreviation (input) TruncateOptionRestartIdentity :: byte where "TruncateOptionRestartIdentity \<equiv> 2"

datatype Message =
    RelationMessage Relation
  | BeginMessage LSN GoTime
  | InsertMessage u32 "TupleData option"
  | UpdateMessage u32 "TupleData option" "TupleData option"
  | DeleteMessage u32 "TupleData option"
  | TruncateMessage byte "u32 list"
  | CommitMessage LSN LSN GoTime
  | LogicalDecodingMessage bool LSN string
  | OtherMessage

datatype ParseOutcome = Parsed Message | ParseError error | ParsePanic string

unbundle bit_operations_syntax

fun decode_columns :: "TupleData \<Rightarrow> Tuple res" where
  "decode_columns [] = Inr []"
| "decode_columns (c # cs) =
     rbind (if tc_DataType c = TupleDataTypeNull then Inr \<lparr>dat_Kind = DatumNull, dat_Data = None\<rparr>
            else if tc_DataType c = TupleDataTypeText then Inr \<lparr>dat_Kind = DatumText, dat_Data = tc_Data c\<rparr>
            else if tc_DataType c = TupleDataTypeBinary then Inr \<lparr>dat_Kind = DatumBinary, dat_Data = tc_Data c\<rparr>
            else if tc_DataType c = TupleDataTypeToast then Inr \<lparr>dat_Kind = DatumUnchangedToast, dat_Data = None\<rparr>
            else Inl (Err ''cdc: unsupported pgoutput tuple kind''))
       (\<lambda>d. rbind (decode_columns cs) (\<lambda>ds. Inr (d # ds)))"

definition decodePGTuple :: "TupleData option \<Rightarrow> Tuple option res" where
  "decodePGTuple tuple = (case tuple of
     None \<Rightarrow> Inr None
   | Some columns \<Rightarrow> rbind (decode_columns columns) (\<lambda>t. Inr (Some t)))"

definition row_change :: "u32 \<Rightarrow> byte \<Rightarrow> Tuple option \<Rightarrow> Tuple option \<Rightarrow> Change" where
  "row_change oid kind old new = \<lparr>ch_RelationOID = oid, ch_Kind = kind, ch_Old = old, ch_New = new,
     ch_TruncateCascade = False, ch_TruncateRestartIdentity = False\<rparr>"

definition truncate_change :: "byte \<Rightarrow> u32 \<Rightarrow> Change" where
  "truncate_change opts oid = \<lparr>ch_RelationOID = oid, ch_Kind = ChangeTruncate, ch_Old = None, ch_New = None,
     ch_TruncateCascade = (opts AND TruncateOptionCascade \<noteq> 0),
     ch_TruncateRestartIdentity = (opts AND TruncateOptionRestartIdentity \<noteq> 0)\<rparr>"

section \<open>The decoder\<close>

record PGOutputDecoder =
  pd_relations :: "u32 \<rightharpoonup> Relation"
  pd_current :: "Transaction option"
  pd_required :: "u32 set"
  pd_spillThreshold :: int
  pd_encodedSize :: nat
  pd_initErr :: "error option"
  pd_closed :: bool

text \<open>The file system: \<open>df_create\<close> fails the creation of a spill file, \<open>df_write\<close> the writes to it.\<close>

record DecoderFaults =
  df_create :: bool
  df_write :: bool

definition DefaultDecoderSpillThreshold :: int where
  "DefaultDecoderSpillThreshold = 256 * 2 ^ 20"

definition new_decoder :: "int \<Rightarrow> error option \<Rightarrow> PGOutputDecoder" where
  "new_decoder threshold initErr = \<lparr>pd_relations = Map.empty, pd_current = None, pd_required = {},
     pd_spillThreshold = threshold, pd_encodedSize = 0, pd_initErr = initErr, pd_closed = False\<rparr>"

text \<open>\<open>setup\<close> is the result of preparing the spill directory.\<close>

definition NewPGOutputDecoder :: "unit res \<Rightarrow> PGOutputDecoder" where
  "NewPGOutputDecoder setup = new_decoder DefaultDecoderSpillThreshold
     (case setup of Inl e \<Rightarrow> Some e | Inr _ \<Rightarrow> None)"

definition NewPGOutputDecoderWithConfig :: "int \<Rightarrow> unit res \<Rightarrow> PGOutputDecoder res" where
  "NewPGOutputDecoderWithConfig spillThreshold setup =
     (if spillThreshold < 0 then Inl (Err ''cdc: decoder spill threshold must not be negative'')
      else let threshold = (if spillThreshold = 0 then DefaultDecoderSpillThreshold else spillThreshold) in
        rbind setup (\<lambda>_. Inr (new_decoder threshold None)))"

definition abortActive :: "PGOutputDecoder \<Rightarrow> PGOutputDecoder" where
  "abortActive d = (case pd_current d of
     None \<Rightarrow> d
   | Some _ \<Rightarrow> d\<lparr>pd_current := None, pd_required := {}, pd_encodedSize := 0\<rparr>)"

definition CloseDecoder :: "PGOutputDecoder \<Rightarrow> PGOutputDecoder" where
  "CloseDecoder d = (if pd_closed d then d else abortActive (d\<lparr>pd_closed := True\<rparr>))"

definition spill_write :: "DecoderFaults \<Rightarrow> TransactionSpill \<Rightarrow> Change \<Rightarrow> TransactionSpill res" where
  "spill_write flt s c = rbind (spill_appendChange s c) (\<lambda>s.
     if df_write flt then Inl (Err ''cdc: write transaction spill'') else Inr s)"

fun spill_all :: "DecoderFaults \<Rightarrow> TransactionSpill \<Rightarrow> Change list \<Rightarrow> TransactionSpill res" where
  "spill_all flt s [] = Inr s"
| "spill_all flt s (c # cs) = rbind (spill_write flt s c) (\<lambda>s. spill_all flt s cs)"

definition spillCurrent :: "DecoderFaults \<Rightarrow> Transaction \<Rightarrow> Transaction res" where
  "spillCurrent flt tx =
     (if df_create flt then Inl (Err ''cdc: create transaction spill'')
      else rbind (spill_all flt newTransactionSpill (tx_Changes tx)) (\<lambda>spill.
        Inr (tx\<lparr>tx_Changes := [], tx_Spill := Some spill\<rparr>)))"

text \<open>
  \<open>addChange\<close> in two parts: the relation's first use, then the change. An error ends the
  transaction, so what had been changed before it does not matter.
\<close>

definition require_relation :: "PGOutputDecoder \<Rightarrow> Transaction \<Rightarrow> u32 \<Rightarrow> Relation \<Rightarrow>
    (Transaction \<times> u32 set \<times> nat) res" where
  "require_relation d tx oid relation =
     (if oid \<in> pd_required d then Inr (tx, pd_required d, pd_encodedSize d)
      else rbind (encodedRelationSize relation) (\<lambda>relationSize.
        Inr (tx\<lparr>tx_Relations := tx_Relations tx @ [relation]\<rparr>, insert oid (pd_required d),
             pd_encodedSize d + relationSize)))"

definition addChange :: "DecoderFaults \<Rightarrow> PGOutputDecoder \<Rightarrow> Change \<Rightarrow> PGOutputDecoder res" where
  "addChange flt d change = (case pd_current d of
     None \<Rightarrow> Inl (Err ''cdc: pgoutput row change outside transaction'')
   | Some tx \<Rightarrow> (case pd_relations d (ch_RelationOID change) of
       None \<Rightarrow> Inl (Err ''cdc: pgoutput relation is not cached'')
     | Some relation \<Rightarrow>
         rbind (require_relation d tx (ch_RelationOID change) relation) (\<lambda>(tx, required, size).
         rbind (encodedChangeSize change) (\<lambda>changeSize.
         let d = d\<lparr>pd_required := required, pd_encodedSize := size + changeSize\<rparr> in
         (case tx_Spill tx of
            Some spill \<Rightarrow> rbind (spill_write flt spill change) (\<lambda>spill.
              Inr (d\<lparr>pd_current := Some (tx\<lparr>tx_Spill := Some spill\<rparr>)\<rparr>))
          | None \<Rightarrow>
              let tx = tx\<lparr>tx_Changes := tx_Changes tx @ [change]\<rparr> in
              if pd_encodedSize d > nat (pd_spillThreshold d)
              then rbind (spillCurrent flt tx) (\<lambda>tx. Inr (d\<lparr>pd_current := Some tx\<rparr>))
              else Inr (d\<lparr>pd_current := Some tx\<rparr>))))))"

fun addChanges :: "DecoderFaults \<Rightarrow> PGOutputDecoder \<Rightarrow> Change list \<Rightarrow> PGOutputDecoder res" where
  "addChanges flt d [] = Inr d"
| "addChanges flt d (c # cs) = rbind (addChange flt d c) (\<lambda>d. addChanges flt d cs)"

definition CutoverMessagePrefix :: string where
  "CutoverMessagePrefix = ''pgmigrate_cutover''"

text \<open>The size of an empty transaction: magic, version, LSNs, commit time and the two counts.\<close>

definition decode_begin :: "PGOutputDecoder \<Rightarrow> LSN \<Rightarrow> GoTime \<Rightarrow> PGOutputDecoder res" where
  "decode_begin d finalLSN commitTime =
     (if pd_current d \<noteq> None then Inl (Err ''cdc: pgoutput Begin while transaction is active'')
      else Inr (d\<lparr>pd_current := Some \<lparr>tx_CommitLSN = finalLSN, tx_EndLSN = 0, tx_CommitTime = commitTime,
          tx_Relations = [], tx_Changes = [], tx_Spill = None\<rparr>,
        pd_encodedSize := 4 + 1 + 8 + 8 + 8 + 4 + 4 + 4, pd_required := {}\<rparr>))"

definition decode_commit ::
    "PGOutputDecoder \<Rightarrow> LSN \<Rightarrow> LSN \<Rightarrow> GoTime \<Rightarrow> (Transaction \<times> PGOutputDecoder) res" where
  "decode_commit d commitLSN endLSN commitTime = (case pd_current d of
     None \<Rightarrow> Inl (Err ''cdc: pgoutput Commit without Begin'')
   | Some tx \<Rightarrow>
       if commitLSN \<noteq> tx_CommitLSN tx
       then Inl (Err ''cdc: pgoutput commit LSN differs from Begin final LSN'')
       else if endLSN < commitLSN
       then Inl (Err ''cdc: pgoutput transaction EndLSN precedes CommitLSN'')
       else Inr (tx\<lparr>tx_CommitTime := commitTime, tx_EndLSN := endLSN\<rparr>,
         d\<lparr>pd_current := None, pd_required := {}, pd_encodedSize := 0\<rparr>))"

definition boundary_transaction :: "GoTime \<Rightarrow> LSN \<Rightarrow> Transaction" where
  "boundary_transaction now lsn = \<lparr>tx_CommitLSN = lsn, tx_EndLSN = lsn, tx_CommitTime = now,
     tx_Relations = [], tx_Changes = [], tx_Spill = None\<rparr>"

definition decode_logical ::
    "GoTime \<Rightarrow> PGOutputDecoder \<Rightarrow> bool \<Rightarrow> LSN \<Rightarrow> string \<Rightarrow> Transaction option res" where
  "decode_logical now d transactional lsn pfx =
     (if pfx \<noteq> CutoverMessagePrefix \<or> transactional then Inr None
      else if pd_current d \<noteq> None
      then Inl (Err ''cdc: nontransactional cutover message while transaction is active'')
      else if lsn = 0 then Inl (Err ''cdc: cutover message has zero LSN'')
      else Inr (Some (boundary_transaction now lsn)))"

definition decode_message ::
    "DecoderFaults \<Rightarrow> GoTime \<Rightarrow> PGOutputDecoder \<Rightarrow> Message \<Rightarrow> (Transaction option \<times> PGOutputDecoder) res" where
  "decode_message flt now d m = (case m of
     RelationMessage relation \<Rightarrow>
       Inr (None, d\<lparr>pd_relations := (pd_relations d)(rel_OID relation \<mapsto> relation)\<rparr>)
   | BeginMessage finalLSN commitTime \<Rightarrow> rbind (decode_begin d finalLSN commitTime) (\<lambda>d. Inr (None, d))
   | InsertMessage oid new \<Rightarrow> rbind (decodePGTuple new) (\<lambda>new.
       rbind (addChange flt d (row_change oid ChangeInsert None new)) (\<lambda>d. Inr (None, d)))
   | UpdateMessage oid old new \<Rightarrow> rbind (decodePGTuple old) (\<lambda>old. rbind (decodePGTuple new) (\<lambda>new.
       rbind (addChange flt d (row_change oid ChangeUpdate old new)) (\<lambda>d. Inr (None, d))))
   | DeleteMessage oid old \<Rightarrow> rbind (decodePGTuple old) (\<lambda>old.
       rbind (addChange flt d (row_change oid ChangeDelete old None)) (\<lambda>d. Inr (None, d)))
   | TruncateMessage opts oids \<Rightarrow>
       if opts AND NOT (TruncateOptionCascade OR TruncateOptionRestartIdentity) \<noteq> 0
       then Inl (Err ''cdc: unknown pgoutput TRUNCATE options'')
       else rbind (addChanges flt d (map (truncate_change opts) oids)) (\<lambda>d. Inr (None, d))
   | CommitMessage commitLSN endLSN commitTime \<Rightarrow>
       rbind (decode_commit d commitLSN endLSN commitTime) (\<lambda>(tx, d). Inr (Some tx, d))
   | LogicalDecodingMessage transactional lsn pfx \<Rightarrow>
       rbind (decode_logical now d transactional lsn pfx) (\<lambda>tx. Inr (tx, d))
   | OtherMessage \<Rightarrow> Inr (None, d))"

definition Decode :: "(bytes \<Rightarrow> ParseOutcome) \<Rightarrow> DecoderFaults \<Rightarrow> GoTime \<Rightarrow> PGOutputDecoder \<Rightarrow> bytes \<Rightarrow>
    Transaction option res \<times> PGOutputDecoder" where
  "Decode parse flt now d data =
     (if pd_closed d then (Inl (Err ''cdc: decode with closed pgoutput decoder''), d)
      else case pd_initErr d of Some e \<Rightarrow> (Inl e, d)
      | None \<Rightarrow> if data = [] then (Inl (Err ''cdc: empty pgoutput message''), d)
      else case parse data of
        ParsePanic reason \<Rightarrow> (Inl (Err ''cdc: malformed pgoutput message''), abortActive d)
      | ParseError e \<Rightarrow> (Inl (Wrap ''cdc: decode pgoutput'' e), abortActive d)
      | Parsed m \<Rightarrow> (case decode_message flt now d m of
          Inl e \<Rightarrow> (Inl e, abortActive d)
        | Inr (tx, d) \<Rightarrow> (Inr tx, d)))"

text \<open>A session: each message with its faults and clock. The receiver stops at the first error.\<close>

fun decode_session :: "(bytes \<Rightarrow> ParseOutcome) \<Rightarrow> PGOutputDecoder \<Rightarrow> (DecoderFaults \<times> GoTime \<times> bytes) list \<Rightarrow>
    (Transaction list \<times> PGOutputDecoder) res" where
  "decode_session parse d [] = Inr ([], d)"
| "decode_session parse d ((flt, now, data) # rest) = (case Decode parse flt now d data of
     (Inl e, d) \<Rightarrow> Inl e
   | (Inr tx, d) \<Rightarrow> rbind (decode_session parse d rest) (\<lambda>(txs, d).
       Inr ((case tx of None \<Rightarrow> txs | Some t \<Rightarrow> t # txs), d)))"

section \<open>The reference\<close>

text \<open>
  The transaction a message stream describes: every change in order, and each relation as it was
  cached when a change of the transaction first used it. \<open>None\<close> is a malformed stream.
\<close>

definition assemble_change :: "(u32 \<rightharpoonup> Relation) \<Rightarrow> Transaction \<Rightarrow> Change \<Rightarrow> Transaction option" where
  "assemble_change cache tx c = (case cache (ch_RelationOID c) of
     None \<Rightarrow> None
   | Some r \<Rightarrow> (let known = ch_RelationOID c \<in> set (map rel_OID (tx_Relations tx)) in
       if (known \<or> ok_relation r) \<and> ok_change c
       then Some (tx\<lparr>tx_Relations := tx_Relations tx @ (if known then [] else [r]),
                     tx_Changes := tx_Changes tx @ [c]\<rparr>)
       else None))"

fun assemble_changes :: "(u32 \<rightharpoonup> Relation) \<Rightarrow> Transaction option \<Rightarrow> Change list \<Rightarrow> Transaction option option" where
  "assemble_changes cache op [] = Some op"
| "assemble_changes cache op (c # cs) = (case op of
     None \<Rightarrow> None
   | Some tx \<Rightarrow> (case assemble_change cache tx c of
       None \<Rightarrow> None
     | Some tx \<Rightarrow> assemble_changes cache (Some tx) cs))"

text \<open>The changes a message carries.\<close>

definition message_changes :: "Message \<Rightarrow> Change list res" where
  "message_changes m = (case m of
     InsertMessage oid new \<Rightarrow> rbind (decodePGTuple new) (\<lambda>new. Inr [row_change oid ChangeInsert None new])
   | UpdateMessage oid old new \<Rightarrow> rbind (decodePGTuple old) (\<lambda>old. rbind (decodePGTuple new) (\<lambda>new.
       Inr [row_change oid ChangeUpdate old new]))
   | DeleteMessage oid old \<Rightarrow> rbind (decodePGTuple old) (\<lambda>old. Inr [row_change oid ChangeDelete old None])
   | TruncateMessage opts oids \<Rightarrow>
       if opts AND NOT (TruncateOptionCascade OR TruncateOptionRestartIdentity) \<noteq> 0
       then Inl (Err ''cdc: unknown pgoutput TRUNCATE options'')
       else Inr (map (truncate_change opts) oids)
   | _ \<Rightarrow> Inr [])"

type_synonym Assembly = "(u32 \<rightharpoonup> Relation) \<times> Transaction option"

definition assemble_message :: "GoTime \<Rightarrow> Assembly \<Rightarrow> Message \<Rightarrow> (Transaction option \<times> Assembly) option" where
  "assemble_message now a m = (case a of (cache, op) \<Rightarrow> (case m of
     RelationMessage r \<Rightarrow> Some (None, cache(rel_OID r \<mapsto> r), op)
   | BeginMessage commitLSN commitTime \<Rightarrow>
       if op = None
       then Some (None, cache, Some (boundary_transaction commitTime commitLSN\<lparr>tx_EndLSN := 0\<rparr>))
       else None
   | CommitMessage commitLSN endLSN commitTime \<Rightarrow> (case op of
       None \<Rightarrow> None
     | Some tx \<Rightarrow> if commitLSN = tx_CommitLSN tx \<and> commitLSN \<le> endLSN
         then Some (Some (tx\<lparr>tx_CommitTime := commitTime, tx_EndLSN := endLSN\<rparr>), cache, None)
         else None)
   | LogicalDecodingMessage transactional lsn pfx \<Rightarrow>
       if pfx \<noteq> CutoverMessagePrefix \<or> transactional then Some (None, cache, op)
       else if op = None \<and> lsn \<noteq> 0 then Some (Some (boundary_transaction now lsn), cache, None)
       else None
   | OtherMessage \<Rightarrow> Some (None, cache, op)
   | _ \<Rightarrow> (case message_changes m of
       Inl e \<Rightarrow> None
     | Inr cs \<Rightarrow> (case assemble_changes cache op cs of
         None \<Rightarrow> None
       | Some op \<Rightarrow> Some (None, cache, op)))))"

fun assemble :: "(bytes \<Rightarrow> ParseOutcome) \<Rightarrow> Assembly \<Rightarrow> (DecoderFaults \<times> GoTime \<times> bytes) list \<Rightarrow>
    (Transaction list \<times> Assembly) option" where
  "assemble parse a [] = Some ([], a)"
| "assemble parse a ((flt, now, data) # rest) = (if data = [] then None else case parse data of
     Parsed m \<Rightarrow> (case assemble_message now a m of
       None \<Rightarrow> None
     | Some (tx, a) \<Rightarrow> (case assemble parse a rest of
         None \<Rightarrow> None
       | Some (txs, a) \<Rightarrow> Some ((case tx of None \<Rightarrow> txs | Some t \<Rightarrow> t # txs), a)))
   | _ \<Rightarrow> None)"

section \<open>Sizes\<close>

text \<open>The bytes the tuples of a message take up in it.\<close>

definition column_bytes :: "TupleColumn \<Rightarrow> nat" where
  "column_bytes c = (if tc_DataType c = TupleDataTypeText \<or> tc_DataType c = TupleDataTypeBinary
     then 5 + length (case tc_Data c of None \<Rightarrow> [] | Some b \<Rightarrow> b) else 1)"

definition tuple_bytes :: "TupleData option \<Rightarrow> nat" where
  "tuple_bytes t = (case t of None \<Rightarrow> 0 | Some cs \<Rightarrow> sum_list (map column_bytes cs))"

fun message_bytes :: "Message \<Rightarrow> nat" where
  "message_bytes (InsertMessage oid new) = tuple_bytes new"
| "message_bytes (UpdateMessage oid old new) = tuple_bytes old + tuple_bytes new"
| "message_bytes (DeleteMessage oid old) = tuple_bytes old"
| "message_bytes m = 0"

text \<open>What the decoder relies on: the tuples of a parsed message lie inside the message.\<close>

definition parse_within :: "(bytes \<Rightarrow> ParseOutcome) \<Rightarrow> bool" where
  "parse_within parse \<longleftrightarrow> (\<forall>data m. parse data = Parsed m \<longrightarrow> message_bytes m \<le> length data)"

text \<open>The length of a protocol message is an \<^verbatim>\<open>int32\<close>.\<close>

definition protocol_sized :: "(DecoderFaults \<times> GoTime \<times> bytes) list \<Rightarrow> bool" where
  "protocol_sized session \<longleftrightarrow> (\<forall>(flt, now, data)\<in>set session. length data < 2 ^ 31)"

lemma decode_columns_size:
  "decode_columns cs = Inr t \<Longrightarrow> length (concat (map wire_datum t)) = sum_list (map column_bytes cs)"
  by (induction cs arbitrary: t)
    (auto simp: res_simps wire_datum_def wire_bytes_def column_bytes_def dat_bytes_def split: if_splits option.splits)

lemma decodePGTuple_size:
  "decodePGTuple t = Inr t' \<Longrightarrow> length (wire_tuple t') \<le> 5 + tuple_bytes t"
  by (cases t) (auto simp: decodePGTuple_def res_simps tuple_bytes_def wire_list_def decode_columns_size
      simp del: length_concat)

lemma length_row_change:
  "length (wire_change payloadVersion (row_change oid kind old new)) \<le>
    6 + length (wire_tuple old) + length (wire_tuple new)"
  by (simp add: wire_change_def row_change_def)

lemma length_truncate_change: "length (wire_change payloadVersion (truncate_change opts oid)) = 8"
  by (simp add: wire_change_def truncate_change_def payloadVersion_def)

lemma message_changes_fit:
  assumes "message_changes m = Inr cs" "message_bytes m < 2 ^ 31" "c \<in> set cs"
  shows "length (wire_change payloadVersion c) \<le> max_u32"
proof -
  have row: "length (wire_change payloadVersion (row_change oid kind old' new')) \<le> max_u32"
    if "decodePGTuple old = Inr old'" "decodePGTuple new = Inr new'" "tuple_bytes old + tuple_bytes new < 2 ^ 31"
    for oid kind old old' new new'
    using length_row_change [of oid kind old' new'] decodePGTuple_size [OF that(1)] decodePGTuple_size [OF that(2)] that(3)
    by (simp add: max_u32_def)
  have none: "decodePGTuple None = Inr None" "tuple_bytes None = 0"
    by (simp_all add: decodePGTuple_def tuple_bytes_def)
  have trunc: "length (wire_change payloadVersion (truncate_change opts oid)) \<le> max_u32" for opts oid
    unfolding length_truncate_change by (simp add: max_u32_def)
  show ?thesis
    using assms row [OF none(1)] row [OF _ none(1)] row trunc none(2)
    by (cases m) (auto simp: message_changes_def res_simps split: if_splits)
qed

section \<open>Decoder and reference in step\<close>

definition row_shaped :: "Change \<Rightarrow> bool" where
  "row_shaped c \<longleftrightarrow> (ch_Kind c = ChangeInsert \<longrightarrow> ch_Old c = None) \<and>
     (ch_Kind c = ChangeDelete \<longrightarrow> ch_New c = None) \<and>
     (ch_Kind c = ChangeTruncate \<longrightarrow> ch_Old c = None \<and> ch_New c = None)"

definition related_ok :: "Transaction \<Rightarrow> bool" where
  "related_ok tx \<longleftrightarrow> distinct (map rel_OID (tx_Relations tx)) \<and> list_all ok_relation (tx_Relations tx) \<and>
     list_all ok_change (tx_Changes tx) \<and> list_all row_shaped (tx_Changes tx) \<and>
     list_all (\<lambda>c. length (wire_change payloadVersion c) \<le> max_u32) (tx_Changes tx) \<and>
     ch_RelationOID ` set (tx_Changes tx) = rel_OID ` set (tx_Relations tx)"

definition represents :: "int \<Rightarrow> Transaction \<Rightarrow> Transaction \<Rightarrow> bool" where
  "represents threshold t tx \<longleftrightarrow> tx_Spill tx = None \<and>
     (if tx_Changes tx = [] \<or> length (wire_transaction payloadVersion tx) \<le> nat threshold then t = tx
      else \<exists>s. t = tx\<lparr>tx_Changes := [], tx_Spill := Some s\<rparr> \<and> spill_repr s (tx_Changes tx))"

definition open_sim :: "PGOutputDecoder \<Rightarrow> Transaction \<Rightarrow> bool" where
  "open_sim d tx \<longleftrightarrow> related_ok tx \<and> pd_required d = rel_OID ` set (tx_Relations tx) \<and>
     pd_encodedSize d = length (wire_transaction payloadVersion tx) \<and>
     (\<exists>t. pd_current d = Some t \<and> represents (pd_spillThreshold d) t tx)"

fun dec_sim :: "PGOutputDecoder \<Rightarrow> Assembly \<Rightarrow> bool" where
  "dec_sim d (cache, op) \<longleftrightarrow> \<not> pd_closed d \<and> pd_initErr d = None \<and> pd_relations d = cache \<and>
     (\<forall>oid r. cache oid = Some r \<longrightarrow> rel_OID r = oid) \<and>
     (case op of None \<Rightarrow> pd_current d = None | Some tx \<Rightarrow> open_sim d tx)"

lemma length_wire_transaction:
  "length (wire_transaction payloadVersion tx) = 41 + sum_list (map (length \<circ> wire_relation) (tx_Relations tx)) +
     sum_list (map (length \<circ> wire_change payloadVersion) (tx_Changes tx))"
  by (simp add: wire_transaction_def wire_header_def wire_list_def payloadMagic_def length_concat comp_def)

lemma spill_all_appends: "spill_all flt s cs = Inr s' \<Longrightarrow> spill_appendChanges s cs = Inr s'"
  by (induction cs arbitrary: s) (auto simp: spill_write_def res_simps)

lemma represents_spilled:
  assumes "tx_Spill tx = None" "tx_Changes tx \<noteq> []" "nat threshold < length (wire_transaction payloadVersion tx)"
    and "spill_repr s (tx_Changes tx)" "t = tx\<lparr>tx_Changes := [], tx_Spill := Some s\<rparr>"
  shows "represents threshold t tx"
  unfolding represents_def using assms by (simp only: not_le [symmetric] simp_thms if_False) blast

lemma require_relation_run:
  assumes "require_relation d t oid r = Inr (t', req', sz')" "open_sim d tx" "rel_OID r = oid"
    and "pd_current d = Some t" "represents (pd_spillThreshold d) t tx"
  shows "(oid \<in> rel_OID ` set (tx_Relations tx) \<or> ok_relation r) \<and>
    (let tx' = tx\<lparr>tx_Relations := tx_Relations tx @ (if oid \<in> rel_OID ` set (tx_Relations tx) then [] else [r])\<rparr> in
     t' = t\<lparr>tx_Relations := tx_Relations tx'\<rparr> \<and> req' = rel_OID ` set (tx_Relations tx') \<and>
     sz' = length (wire_transaction payloadVersion tx') \<and> distinct (map rel_OID (tx_Relations tx')) \<and>
     list_all ok_relation (tx_Relations tx') \<and> oid \<in> req')"
proof -
  have rels: "tx_Relations t = tx_Relations tx"
    using assms(5) by (auto simp: represents_def split: if_splits)
  then have same: "t\<lparr>tx_Relations := tx_Relations tx\<rparr> = t" by simp
  show ?thesis
    using assms(1-3)
    by (auto simp: require_relation_def open_sim_def related_ok_def relation_enc.sz_wire res_simps rels same Let_def
        length_wire_transaction split: if_splits)
qed

lemma spill_write_repr:
  assumes "spill_write flt s c = Inr s'" "spill_repr s cs" "length (wire_change payloadVersion c) \<le> max_u32"
  shows "spill_repr s' (cs @ [c])"
  using assms by (auto simp: spill_write_def res_simps split: if_splits intro: spill_append_repr)

lemma spillCurrent_repr:
  assumes "spillCurrent flt t = Inr t'" "\<forall>c\<in>set (tx_Changes t). length (wire_change payloadVersion c) \<le> max_u32"
  shows "\<exists>s. t' = t\<lparr>tx_Changes := [], tx_Spill := Some s\<rparr> \<and> spill_repr s (tx_Changes t)"
proof -
  obtain s where s: "spill_all flt newTransactionSpill (tx_Changes t) = Inr s"
      "t' = t\<lparr>tx_Changes := [], tx_Spill := Some s\<rparr>"
    using assms(1) by (auto simp: spillCurrent_def res_simps split: if_splits)
  from spill_appendChanges_repr [OF spill_repr_new spill_all_appends [OF s(1)]] assms(2)
  have "spill_repr s (tx_Changes t)" by (simp add: list_all_iff)
  with s(2) show ?thesis by blast
qed

lemma addChange_sim:
  assumes sim: "dec_sim d (cache, Some tx)" and run: "addChange flt d c = Inr d'"
    and fit: "length (wire_change payloadVersion c) \<le> max_u32" "row_shaped c"
  shows "\<exists>tx'. assemble_change cache tx c = Some tx' \<and> dec_sim d' (cache, Some tx')"
proof -
  from sim obtain t where t: "pd_current d = Some t" "represents (pd_spillThreshold d) t tx"
    and d: "related_ok tx" "open_sim d tx" "pd_relations d = cache" "\<forall>oid r. cache oid = Some r \<longrightarrow> rel_OID r = oid"
    by (auto simp: open_sim_def)
  from run t(1) d(3) obtain r t1 req sz where r: "cache (ch_RelationOID c) = Some r"
      "require_relation d t (ch_RelationOID c) r = Inr (t1, req, sz)" and ok: "ok_change c"
    and run': "(let d = d\<lparr>pd_required := req, pd_encodedSize := sz + length (wire_change payloadVersion c)\<rparr> in
         (case tx_Spill t1 of
            Some spill \<Rightarrow> rbind (spill_write flt spill c) (\<lambda>spill.
              Inr (d\<lparr>pd_current := Some (t1\<lparr>tx_Spill := Some spill\<rparr>)\<rparr>))
          | None \<Rightarrow>
              let t1 = t1\<lparr>tx_Changes := tx_Changes t1 @ [c]\<rparr> in
              if pd_encodedSize d > nat (pd_spillThreshold d)
              then rbind (spillCurrent flt t1) (\<lambda>tx. Inr (d\<lparr>pd_current := Some tx\<rparr>))
              else Inr (d\<lparr>pd_current := Some t1\<rparr>))) = Inr d'"
    by (auto simp: addChange_def res_simps change_enc.sz_wire split: option.splits)
  let ?known = "ch_RelationOID c \<in> rel_OID ` set (tx_Relations tx)"
  define tx1 where "tx1 = tx\<lparr>tx_Relations := tx_Relations tx @ (if ?known then [] else [r])\<rparr>"
  define tx' where "tx' = tx1\<lparr>tx_Changes := tx_Changes tx1 @ [c]\<rparr>"
  have "rel_OID r = ch_RelationOID c" using d(4) r(1) by blast
  from require_relation_run [OF r(2) d(2) this t] have req: "?known \<or> ok_relation r"
      "t1 = t\<lparr>tx_Relations := tx_Relations tx1\<rparr>" "req = rel_OID ` set (tx_Relations tx1)"
      "sz = length (wire_transaction payloadVersion tx1)" "distinct (map rel_OID (tx_Relations tx1))"
      "list_all ok_relation (tx_Relations tx1)"
    unfolding tx1_def Let_def by blast+
  have asm: "assemble_change cache tx c = Some tx'"
    using r(1) req(1) ok by (simp add: assemble_change_def tx'_def tx1_def Let_def)
  have size: "length (wire_transaction payloadVersion tx') = sz + length (wire_change payloadVersion c)"
    unfolding req(4) tx'_def by (simp add: length_wire_transaction)
  have "rel_OID ` set (tx_Relations tx') = insert (ch_RelationOID c) (rel_OID ` set (tx_Relations tx))"
    using \<open>rel_OID r = ch_RelationOID c\<close> by (auto simp: tx'_def tx1_def)
  then have rel: "related_ok tx'"
    using d(1) ok fit req(5,6) by (simp add: related_ok_def tx'_def) (simp add: tx1_def)
  have fits: "list_all (\<lambda>c. length (wire_change payloadVersion c) \<le> max_u32) (tx_Changes tx')"
    using rel by (simp add: related_ok_def)
  have grows: "length (wire_transaction payloadVersion tx) \<le> length (wire_transaction payloadVersion tx')"
    by (simp add: length_wire_transaction tx'_def tx1_def)
  have "\<exists>t'. d' = d\<lparr>pd_required := req, pd_encodedSize := sz + length (wire_change payloadVersion c),
      pd_current := Some t'\<rparr> \<and> represents (pd_spillThreshold d) t' tx'"
  proof (cases "tx_Spill t")
    case None
    then have tt: "t = tx" "tx_Spill tx = None"
      using t(2) by (auto simp: represents_def split: if_splits)
    then have t1: "t1 = tx1" "tx_Spill tx1 = None" by (simp_all add: req(2) tx1_def)
    show ?thesis
    proof (cases "length (wire_transaction payloadVersion tx') > nat (pd_spillThreshold d)")
      case True
      from run' t1 obtain t' where t': "spillCurrent flt tx' = Inr t'"
          "d' = d\<lparr>pd_required := req, pd_encodedSize := sz + length (wire_change payloadVersion c), pd_current := Some t'\<rparr>"
        using True unfolding size by (auto simp: Let_def res_simps tx'_def)
      from spillCurrent_repr [OF t'(1)] fits obtain s where
        "t' = tx'\<lparr>tx_Changes := [], tx_Spill := Some s\<rparr>" "spill_repr s (tx_Changes tx')"
        by (auto simp: list_all_iff)
      then have "represents (pd_spillThreshold d) t' tx'"
        using t1(2) by (intro represents_spilled [OF _ _ True]) (simp_all add: tx'_def)
      with t'(2) show ?thesis by blast
    next
      case False
      then have "d' = d\<lparr>pd_required := req, pd_encodedSize := sz + length (wire_change payloadVersion c), pd_current := Some tx'\<rparr>"
        using run' t1 unfolding size by (simp add: Let_def tx'_def)
      moreover have "represents (pd_spillThreshold d) tx' tx'"
        using False t1(2) by (simp add: represents_def tx'_def)
      ultimately show ?thesis by blast
    qed
  next
    case (Some s)
    then have s: "t = tx\<lparr>tx_Changes := [], tx_Spill := Some s\<rparr>" "spill_repr s (tx_Changes tx)" "tx_Spill tx = None"
        "length (wire_transaction payloadVersion tx) > nat (pd_spillThreshold d)"
      using t(2) by (auto simp: represents_def split: if_splits)
    from run' Some obtain s' where s': "spill_write flt s c = Inr s'"
        "d' = d\<lparr>pd_required := req, pd_encodedSize := sz + length (wire_change payloadVersion c),
                pd_current := Some (t1\<lparr>tx_Spill := Some s'\<rparr>)\<rparr>"
      by (auto simp: Let_def req(2) res_simps)
    have "spill_repr s' (tx_Changes tx')"
      using spill_write_repr [OF s'(1) s(2) fit(1)] by (simp add: tx'_def tx1_def)
    then have "represents (pd_spillThreshold d) (t1\<lparr>tx_Spill := Some s'\<rparr>) tx'"
      using s grows by (intro represents_spilled [where s = s']) (auto simp: tx'_def tx1_def req(2) intro: Transaction.equality)
    then show ?thesis using s'(2) by blast
  qed
  then have "dec_sim d' (cache, Some tx')"
    using sim rel req(3) size by (auto simp: open_sim_def tx'_def)
  with asm show ?thesis by blast
qed

lemma addChanges_sim:
  assumes "dec_sim d (cache, op)" "addChanges flt d cs = Inr d'"
    and "\<forall>c\<in>set cs. length (wire_change payloadVersion c) \<le> max_u32 \<and> row_shaped c"
  shows "\<exists>op'. assemble_changes cache op cs = Some op' \<and> dec_sim d' (cache, op')"
  using assms
proof (induction cs arbitrary: d op)
  case (Cons c cs)
  from Cons.prems(2) obtain d1 where d1: "addChange flt d c = Inr d1" "addChanges flt d1 cs = Inr d'"
    by (auto simp: res_simps)
  then obtain tx where tx: "op = Some tx"
    using Cons.prems(1) by (cases op) (auto simp: addChange_def)
  from addChange_sim [OF Cons.prems(1) [unfolded tx] d1(1)] Cons.prems(3) obtain tx' where
    tx': "assemble_change cache tx c = Some tx'" "dec_sim d1 (cache, Some tx')" by auto
  from Cons.IH [OF tx'(2) d1(2)] Cons.prems(3) tx' tx show ?case by simp
qed auto

lemma message_changes_shaped: "message_changes m = Inr cs \<Longrightarrow> c \<in> set cs \<Longrightarrow> row_shaped c"
  by (cases m) (auto simp: message_changes_def res_simps row_shaped_def row_change_def truncate_change_def split: if_splits)

text \<open>The messages that carry changes, and no others, add changes.\<close>

definition changes_message :: "Message \<Rightarrow> bool" where
  "changes_message m \<longleftrightarrow> (case m of InsertMessage _ _ \<Rightarrow> True | UpdateMessage _ _ _ \<Rightarrow> True
     | DeleteMessage _ _ \<Rightarrow> True | TruncateMessage _ _ \<Rightarrow> True | _ \<Rightarrow> False)"

lemma decode_changes:
  assumes "changes_message m"
  shows "decode_message flt now d m = rbind (message_changes m) (\<lambda>cs.
    rbind (addChanges flt d cs) (\<lambda>d. Inr (None, d)))"
proof -
  have one: "addChanges flt d [c] = addChange flt d c" for c
    by (cases "addChange flt d c") auto
  show ?thesis
    using assms by (cases m) (auto simp: changes_message_def decode_message_def message_changes_def one rbind_assoc
        simp del: addChanges.simps)
qed

lemma assemble_changes_message:
  "changes_message m \<Longrightarrow> assemble_message now (cache, op) m = (case message_changes m of
     Inl e \<Rightarrow> None
   | Inr cs \<Rightarrow> (case assemble_changes cache op cs of None \<Rightarrow> None | Some op \<Rightarrow> Some (None, cache, op)))"
  by (cases m) (auto simp: changes_message_def assemble_message_def)

text \<open>A transaction handed out, against the transaction of the stream.\<close>

definition hands_out :: "int \<Rightarrow> Transaction option \<Rightarrow> Transaction option \<Rightarrow> bool" where
  "hands_out threshold r s \<longleftrightarrow> (case (r, s) of
     (None, None) \<Rightarrow> True
   | (Some t, Some tx) \<Rightarrow> represents threshold t tx \<and> related_ok tx \<and> tx_CommitLSN tx \<le> tx_EndLSN tx
   | _ \<Rightarrow> False)"

lemma open_sim_begin:
  "open_sim (d\<lparr>pd_current := Some (boundary_transaction t lsn\<lparr>tx_EndLSN := 0\<rparr>), pd_required := {},
     pd_encodedSize := 41\<rparr>) (boundary_transaction t lsn\<lparr>tx_EndLSN := 0\<rparr>)"
  by (simp add: open_sim_def related_ok_def represents_def length_wire_transaction boundary_transaction_def)

lemma represents_commit:
  "represents threshold t tx \<Longrightarrow>
    represents threshold (t\<lparr>tx_CommitTime := ct, tx_EndLSN := e\<rparr>) (tx\<lparr>tx_CommitTime := ct, tx_EndLSN := e\<rparr>)"
proof (cases "tx_Changes tx = [] \<or> length (wire_transaction payloadVersion tx) \<le> nat threshold")
  case False
  assume "represents threshold t tx"
  with False obtain s where "t = tx\<lparr>tx_Changes := [], tx_Spill := Some s\<rparr>" "spill_repr s (tx_Changes tx)" "tx_Spill tx = None"
    by (auto simp: represents_def)
  with False show ?thesis
    by (intro represents_spilled [where s = s]) (auto simp: length_wire_transaction intro: Transaction.equality)
qed (simp add: represents_def length_wire_transaction)

lemma decode_message_sim:
  assumes sim: "dec_sim d a" and run: "decode_message flt now d m = Inr (r, d')" and "message_bytes m < 2 ^ 31"
  shows "\<exists>s a'. assemble_message now a m = Some (s, a') \<and> hands_out (pd_spillThreshold d) r s \<and> dec_sim d' a'"
proof (cases "changes_message m")
  case True
  obtain cache op where a: "a = (cache, op)" by force
  from run obtain cs where cs: "message_changes m = Inr cs" "addChanges flt d cs = Inr d'" "r = None"
    unfolding decode_changes [OF True] by (auto simp: res_simps)
  from addChanges_sim [OF sim [unfolded a] cs(2)] message_changes_fit [OF cs(1) assms(3)] message_changes_shaped [OF cs(1)]
  obtain op' where "assemble_changes cache op cs = Some op'" "dec_sim d' (cache, op')" by blast
  then show ?thesis
    unfolding a assemble_changes_message [OF True] using cs by (simp add: hands_out_def)
next
  case False
  obtain cache op where a: "a = (cache, op)" by force
  show ?thesis
  proof (cases m)
    case (RelationMessage r)
    with run sim a show ?thesis
      by (auto simp: decode_message_def assemble_message_def hands_out_def open_sim_def split: option.splits)
  next
    case (BeginMessage lsn t)
    note begin_msg = this
    have "op = None" "r = None" "d' = d\<lparr>pd_current := Some (boundary_transaction t lsn\<lparr>tx_EndLSN := 0\<rparr>),
        pd_required := {}, pd_encodedSize := 41\<rparr>"
      using run sim unfolding a begin_msg
      by (auto simp: decode_message_def decode_begin_def res_simps open_sim_def boundary_transaction_def split: if_splits option.splits)
    with BeginMessage sim a open_sim_begin [where d = d and t = t and lsn = lsn] show ?thesis
      by (simp add: assemble_message_def hands_out_def)
  next
    case (CommitMessage lsn e ct)
    with run obtain t where t: "decode_commit d lsn e ct = Inr (t, d')" "r = Some t"
      by (auto simp: decode_message_def res_simps)
    then obtain t0 tx where tx: "pd_current d = Some t0" "op = Some tx" "represents (pd_spillThreshold d) t0 tx" "related_ok tx"
      using sim a by (cases op) (auto simp: decode_commit_def open_sim_def)
    then have "tx_CommitLSN t0 = tx_CommitLSN tx" by (auto simp: represents_def split: if_splits)
    with t tx have "lsn = tx_CommitLSN tx" "lsn \<le> e" "t = t0\<lparr>tx_CommitTime := ct, tx_EndLSN := e\<rparr>"
        "d' = d\<lparr>pd_current := None, pd_required := {}, pd_encodedSize := 0\<rparr>"
      by (auto simp: decode_commit_def split: if_splits)
    with t tx sim a CommitMessage represents_commit [OF tx(3), where ct = ct and e = e] show ?thesis
      by (simp add: assemble_message_def hands_out_def related_ok_def)
  next
    case (LogicalDecodingMessage tr lsn pfx)
    with run sim a show ?thesis
      by (auto simp: decode_message_def decode_logical_def assemble_message_def hands_out_def res_simps open_sim_def
          represents_def related_ok_def boundary_transaction_def split: if_splits option.splits)
  qed (use False run sim a in \<open>auto simp: changes_message_def decode_message_def assemble_message_def hands_out_def\<close>)
qed

lemma Decode_threshold:
  assumes "Decode parse flt now d data = (Inr r, d')" "dec_sim d a"
    and "parse_within parse" "length data < 2 ^ 31"
  shows "\<exists>m s a'. data \<noteq> [] \<and> parse data = Parsed m \<and> assemble_message now a m = Some (s, a') \<and>
    hands_out (pd_spillThreshold d) r s \<and> dec_sim d' a' \<and> pd_spillThreshold d' = pd_spillThreshold d"
proof -
  obtain cache op where a: "a = (cache, op)" by force
  from assms(1,2) obtain m where m: "data \<noteq> []" "parse data = Parsed m" "decode_message flt now d m = Inr (r, d')"
    unfolding a by (auto simp: Decode_def split: if_splits ParseOutcome.splits sum.splits)
  then have "message_bytes m < 2 ^ 31"
    using assms(3,4) unfolding parse_within_def by (meson le_less_trans)
  moreover have "pd_spillThreshold d' = pd_spillThreshold d"
  proof (cases "changes_message m")
    case True
    have one: "addChange flt d c = Inr d' \<Longrightarrow> pd_spillThreshold d' = pd_spillThreshold d" for d d' c
      by (auto simp: addChange_def Let_def res_simps split: option.splits if_splits)
    have "addChanges flt d cs = Inr d' \<Longrightarrow> pd_spillThreshold d' = pd_spillThreshold d" for cs d
      by (induction cs arbitrary: d) (auto simp: res_simps dest: one)
    with m(3) show ?thesis unfolding decode_changes [OF True] by (auto simp: res_simps)
  next
    case False
    with m(3) show ?thesis
      by (cases m) (auto simp: decode_message_def changes_message_def decode_begin_def decode_commit_def res_simps
          split: if_splits option.splits)
  qed
  ultimately show ?thesis
    using decode_message_sim [OF assms(2) m(3)] m(1,2) by blast
qed

lemma decode_session_sim:
  assumes "decode_session parse d session = Inr (txs, d')" "dec_sim d a" "parse_within parse" "protocol_sized session"
  shows "\<exists>ss a'. assemble parse a session = Some (ss, a') \<and> dec_sim d' a' \<and>
    pd_spillThreshold d' = pd_spillThreshold d \<and>
    list_all2 (\<lambda>t s. hands_out (pd_spillThreshold d) (Some t) (Some s)) txs ss"
  using assms
proof (induction session arbitrary: d a txs)
  case (Cons step session)
  obtain flt now data where step: "step = (flt, now, data)" by (cases step)
  from Cons.prems(1) obtain r d1 txs1 where r: "Decode parse flt now d data = (Inr r, d1)"
      "decode_session parse d1 session = Inr (txs1, d')" "txs = (case r of None \<Rightarrow> txs1 | Some t \<Rightarrow> t # txs1)"
    unfolding step by (auto simp: res_simps split: prod.splits sum.splits)
  from Decode_threshold [OF r(1) Cons.prems(2,3)] Cons.prems(4) obtain m s a1 where
    m: "data \<noteq> []" "parse data = Parsed m" "assemble_message now a m = Some (s, a1)"
      "hands_out (pd_spillThreshold d) r s" "dec_sim d1 a1" "pd_spillThreshold d1 = pd_spillThreshold d"
    unfolding step protocol_sized_def by auto
  from Cons.IH [OF r(2) m(5) Cons.prems(3)] Cons.prems(4) obtain ss a' where
    ss: "assemble parse a1 session = Some (ss, a')" "dec_sim d' a'"
      "pd_spillThreshold d' = pd_spillThreshold d"
      "list_all2 (\<lambda>t s. hands_out (pd_spillThreshold d) (Some t) (Some s)) txs1 ss"
    unfolding m(6) protocol_sized_def by auto
  from m ss r(3) show ?case
    unfolding step by (cases r; cases s) (auto simp: hands_out_def)
qed auto

lemma new_decoder_sim:
  "NewPGOutputDecoderWithConfig threshold setup = Inr d \<Longrightarrow> dec_sim d (Map.empty, None)"
  by (auto simp: NewPGOutputDecoderWithConfig_def new_decoder_def Let_def res_simps split: if_splits)

lemma represents_write:
  assumes "represents threshold t tx"
  shows "WriteTransaction w t = Inr r \<longleftrightarrow> WriteTransaction w tx = Inr r"
proof (cases "tx_Changes tx = [] \<or> length (wire_transaction payloadVersion tx) \<le> nat threshold")
  case False
  with assms obtain s where "t = tx\<lparr>tx_Changes := [], tx_Spill := Some s\<rparr>" "spill_repr s (tx_Changes tx)" "tx_Spill tx = None"
    by (auto simp: represents_def)
  then show ?thesis using WriteTransaction_spilled [OF _ refl] by blast
qed (use assms in \<open>simp add: represents_def\<close>)

text \<open>A handed-out transaction in place of the one it stands for: same LSNs, same payload.\<close>

definition stands_for :: "Transaction \<Rightarrow> Transaction \<Rightarrow> bool" where
  "stands_for t s \<longleftrightarrow> tx_CommitLSN t = tx_CommitLSN s \<and> tx_EndLSN t = tx_EndLSN s \<and>
     (\<forall>w r. WriteTransaction w t = Inr r \<longleftrightarrow> WriteTransaction w s = Inr r)"

lemma represents_stands_for: "represents threshold t s \<Longrightarrow> stands_for t s"
  using represents_write [of threshold t s] by (auto simp: stands_for_def represents_def split: if_splits)

lemma represents_materialize:
  assumes "represents threshold t tx"
  shows "materializeChanges t = Inr tx \<or>
    materializeChanges t = Inr (tx\<lparr>tx_Changes := map (canon_change payloadVersion) (tx_Changes tx)\<rparr>)"
proof (cases "tx_Changes tx = [] \<or> length (wire_transaction payloadVersion tx) \<le> nat threshold")
  case False
  with assms obtain s where s: "t = tx\<lparr>tx_Changes := [], tx_Spill := Some s\<rparr>" "spill_repr s (tx_Changes tx)" "tx_Spill tx = None"
    by (auto simp: represents_def)
  have "t\<lparr>tx_Spill := None\<rparr>\<lparr>tx_Changes := cs\<rparr> = tx\<lparr>tx_Changes := cs\<rparr>" for cs
    using s by (auto intro: Transaction.equality)
  with s show ?thesis
    by (simp add: materializeChanges_def spill_forEachChange_repr [OF s(2)] CleanupSpill_def)
qed (use assms in \<open>simp add: represents_def materializeChanges_def\<close>)

end
