(* ===== verification/PGDecoderProps.thy ===== *)
theory PGDecoderProps
  imports PGDecoder
begin

text \<open>
  The properties of the pgoutput decoder, over whole replication sessions, with a session that
  spills one of its two transactions.
\<close>

section \<open>An example session\<close>

definition ex_relation :: Relation where
  "ex_relation = \<lparr>rel_OID = 7, rel_Namespace = ''s'', rel_Name = ''t'', rel_ReplicaIdentity = 100,
     rel_Columns = [\<lparr>col_Name = ''a'', col_Type = 23, col_Flags = 1\<rparr>]\<rparr>"

definition ex_tuple :: TupleData where
  "ex_tuple = [\<lparr>tc_DataType = 116, tc_Data = Some [49, 50]\<rparr>]"

definition ex_time :: GoTime where
  "ex_time = \<lparr>t_Unix = 5, t_Nanosecond = 0\<rparr>"

text \<open>The first byte selects the message; every message is 64 bytes long.\<close>

definition ex_message :: "byte \<Rightarrow> Message" where
  "ex_message k = (if k = 1 then RelationMessage ex_relation else if k = 2 then BeginMessage 16 ex_time
     else if k = 3 then InsertMessage 7 (Some ex_tuple) else if k = 4 then UpdateMessage 7 None (Some ex_tuple)
     else if k = 5 then CommitMessage 16 20 ex_time else if k = 6 then BeginMessage 32 ex_time
     else if k = 7 then CommitMessage 32 40 ex_time else OtherMessage)"

definition ex_parse :: "bytes \<Rightarrow> ParseOutcome" where
  "ex_parse data = (if length data < 64 then ParsePanic [] else Parsed (ex_message (hd data)))"

definition ex_session :: "(DecoderFaults \<times> GoTime \<times> bytes) list" where
  "ex_session = map (\<lambda>k. (\<lparr>df_create = False, df_write = False\<rparr>, ex_time, k # replicate 63 0)) [1, 2, 3, 4, 5, 6, 3, 7]"

definition ex_change :: "byte \<Rightarrow> Change" where
  "ex_change kind = row_change 7 kind None (Some [\<lparr>dat_Kind = 1, dat_Data = Some [49, 50]\<rparr>])"

definition ex_first :: Transaction where
  "ex_first = \<lparr>tx_CommitLSN = 16, tx_EndLSN = 20, tx_CommitTime = ex_time, tx_Relations = [ex_relation],
     tx_Changes = [ex_change 1, ex_change 2], tx_Spill = None\<rparr>"

definition ex_second :: Transaction where
  "ex_second = \<lparr>tx_CommitLSN = 32, tx_EndLSN = 40, tx_CommitTime = ex_time, tx_Relations = [ex_relation],
     tx_Changes = [ex_change 1], tx_Spill = None\<rparr>"

definition ex_spill :: TransactionSpill where
  "ex_spill = (let file = wire_change payloadVersion (ex_change 1) @ wire_change payloadVersion (ex_change 2) in
     \<lparr>sp_file = Some file, sp_changeCount = 2, sp_changeBytes = length file, sp_version = payloadVersion\<rparr>)"

definition ex_decoder :: PGOutputDecoder where
  "ex_decoder = new_decoder 100 None"

definition ex_spilled :: Transaction where
  "ex_spilled = ex_first\<lparr>tx_Changes := [], tx_Spill := Some ex_spill\<rparr>"

lemma ex_new: "NewPGOutputDecoderWithConfig 100 (Inr ()) = Inr ex_decoder"
  by (simp add: NewPGOutputDecoderWithConfig_def ex_decoder_def)

lemma ex_within: "parse_within ex_parse"
  by (auto simp: parse_within_def ex_parse_def ex_message_def ex_tuple_def tuple_bytes_def column_bytes_def split: if_splits)

lemma ex_sized: "protocol_sized ex_session"
  by (simp add: protocol_sized_def ex_session_def)

lemma ex_ok: "ok_relation ex_relation" "ok_change (ex_change 1)" "ok_change (ex_change 2)"
  by (simp_all add: ok_relation_def ex_relation_def ok_change_def ex_change_def row_change_def valid_kind_def
      ok_datum_def ok_column_def too_large_def max_u32_def dat_bytes_def)

lemma ex_sizes: "length (wire_relation ex_relation) = 29"
    "length (wire_change payloadVersion (ex_change 1)) = 18" "length (wire_change payloadVersion (ex_change 2)) = 18"
  by (simp_all add: wire_relation_def wire_bytes_def wire_list_def wire_column_def ex_relation_def wire_change_def
      ex_change_def row_change_def wire_datum_def dat_bytes_def)

lemma ex_encoded: "encodedRelationSize ex_relation = Inr 29"
    "encodedChangeSize (ex_change 1) = Inr 18" "encodedChangeSize (ex_change 2) = Inr 18"
  using ex_ok ex_sizes by (simp_all add: relation_enc.sz_wire change_enc.sz_wire)

lemma ex_write: "writeChangeTo f (ex_change 1) = Inr (f @ wire_change payloadVersion (ex_change 1), 18)"
    "writeChangeTo f (ex_change 2) = Inr (f @ wire_change payloadVersion (ex_change 2), 18)"
  using ex_ok ex_sizes by (simp_all add: writeChangeTo_wire)

lemma ex_spill_run: "df_create flt = False \<Longrightarrow> df_write flt = False \<Longrightarrow>
    spill_all flt newTransactionSpill [ex_change 1, ex_change 2] = Inr ex_spill"
  by (simp add: spill_write_def spill_appendChange_def newTransactionSpill_def ex_encoded ex_write
      spill_over_limit_iff max_u32_def ex_spill_def Let_def ex_sizes)

lemma ex_rows: "decodePGTuple (Some ex_tuple) = Inr (Some [\<lparr>dat_Kind = 1, dat_Data = Some [49, 50]\<rparr>])"
    "decodePGTuple None = Inr None"
  by (simp_all add: decodePGTuple_def ex_tuple_def)

lemma ex_parses: "length rest = 63 \<Longrightarrow> ex_parse (k # rest) = Parsed (ex_message k)"
  by (simp add: ex_parse_def)

lemma ex_oids: "ch_RelationOID (ex_change k) = 7" "rel_OID ex_relation = 7"
  by (simp_all add: ex_change_def row_change_def ex_relation_def)

lemma ex_run: "\<exists>d. decode_session ex_parse ex_decoder ex_session = Inr ([ex_spilled, ex_second], d)"
  by (simp add: ex_session_def Decode_def ex_parses ex_message_def ex_decoder_def new_decoder_def decode_message_def
      decode_begin_def decode_commit_def ex_rows ex_change_def [symmetric] addChange_def require_relation_def
      ex_encoded ex_oids spillCurrent_def ex_spill_run ex_spilled_def ex_first_def ex_second_def Let_def
      del: spill_all.simps)

section \<open>The properties\<close>

text \<open>A session that succeeds is a well-formed stream; this is what its transactions stand for.\<close>

lemma session_stands_for:
  assumes "NewPGOutputDecoderWithConfig threshold setup = Inr d" "decode_session parse d session = Inr (txs, d')"
    and "parse_within parse" "protocol_sized session"
  shows "\<exists>ss a. assemble parse (Map.empty, None) session = Some (ss, a) \<and> dec_sim d' a \<and>
    pd_spillThreshold d' = pd_spillThreshold d \<and>
    list_all2 (\<lambda>t s. represents (pd_spillThreshold d) t s \<and> related_ok s \<and> tx_CommitLSN s \<le> tx_EndLSN s) txs ss"
  using decode_session_sim [OF assms(2) new_decoder_sim [OF assms(1)] assms(3,4)] by (simp add: hands_out_def)

lemma represents_cases:
  assumes "represents threshold t s"
  shows "tx_CommitLSN t = tx_CommitLSN s" "tx_EndLSN t = tx_EndLSN s" "tx_Relations t = tx_Relations s"
    "tx_Spill t = None \<and> tx_Changes t = tx_Changes s \<or>
     (\<exists>sp. tx_Spill t = Some sp \<and> tx_Changes t = [] \<and> spill_repr sp (tx_Changes s))"
  using assms by (auto simp: represents_def split: if_splits)

text \<open>C25: Every transaction the decoder hands out is well typed: its changes, resident or in its
  spill file, are ones the payload format can hold and carry the tuples of their kind; every change
  refers to a relation of the transaction, no relation is listed twice or without a change; the end
  LSN is not before the commit LSN. This holds for any message stream, any spill threshold and any
  failures of the spill files.\<close>

theorem decoded_transactions_typed:
  assumes "NewPGOutputDecoderWithConfig threshold setup = Inr d" "decode_session parse d session = Inr (txs, d')"
    and "parse_within parse" "protocol_sized session" "t \<in> set txs"
  shows "\<exists>cs. (tx_Spill t = None \<and> tx_Changes t = cs \<or>
      (\<exists>s. tx_Spill t = Some s \<and> tx_Changes t = [] \<and> spill_repr s cs)) \<and>
    list_all ok_change cs \<and> list_all row_shaped cs \<and> list_all ok_relation (tx_Relations t) \<and>
    distinct (map rel_OID (tx_Relations t)) \<and> ch_RelationOID ` set cs = rel_OID ` set (tx_Relations t) \<and>
    tx_CommitLSN t \<le> tx_EndLSN t"
proof -
  from session_stands_for [OF assms(1-4)] assms(5) obtain s where
    s: "represents (pd_spillThreshold d) t s" "related_ok s" "tx_CommitLSN s \<le> tx_EndLSN s"
    by (auto simp: list_all2_conv_all_nth in_set_conv_nth)
  with represents_cases [OF s(1)] show ?thesis
    by (intro exI [of _ "tx_Changes s"]) (auto simp: related_ok_def)
qed

theorem decoded_transactions_typed_witness:
  "\<exists>cs. (tx_Spill ex_spilled = None \<and> tx_Changes ex_spilled = cs \<or>
      (\<exists>s. tx_Spill ex_spilled = Some s \<and> tx_Changes ex_spilled = [] \<and> spill_repr s cs)) \<and>
    list_all ok_change cs \<and> list_all row_shaped cs \<and> list_all ok_relation (tx_Relations ex_spilled) \<and>
    distinct (map rel_OID (tx_Relations ex_spilled)) \<and>
    ch_RelationOID ` set cs = rel_OID ` set (tx_Relations ex_spilled) \<and> tx_CommitLSN ex_spilled \<le> tx_EndLSN ex_spilled"
proof -
  obtain d' where "decode_session ex_parse ex_decoder ex_session = Inr ([ex_spilled, ex_second], d')" using ex_run by blast
  from decoded_transactions_typed [OF ex_new this ex_within ex_sized] show ?thesis by simp
qed

text \<open>C26: The decoder hands out exactly the transactions of the stream. A session without an error
  is a well-formed stream, and its transactions are, one by one and in order, those the reference
  assembles from the messages: same LSNs, the segment writer stores the same bytes, and materializing
  them gives the same changes (nil and empty values are the same after a trip through a spill).\<close>

theorem decoder_refines_stream:
  assumes "NewPGOutputDecoderWithConfig threshold setup = Inr d" "decode_session parse d session = Inr (txs, d')"
    and "parse_within parse" "protocol_sized session"
  shows "\<exists>ss a. assemble parse (Map.empty, None) session = Some (ss, a) \<and>
    list_all2 (\<lambda>t s. stands_for t s \<and>
      (materializeChanges t = Inr s \<or>
       materializeChanges t = Inr (s\<lparr>tx_Changes := map (canon_change payloadVersion) (tx_Changes s)\<rparr>))) txs ss"
  using session_stands_for [OF assms]
  by (auto elim!: list_all2_mono simp: represents_stands_for dest: represents_materialize)

theorem decoder_refines_stream_witness:
  "\<exists>ss a. assemble ex_parse (Map.empty, None) ex_session = Some (ss, a) \<and>
    list_all2 (\<lambda>t s. stands_for t s \<and>
      (materializeChanges t = Inr s \<or>
       materializeChanges t = Inr (s\<lparr>tx_Changes := map (canon_change payloadVersion) (tx_Changes s)\<rparr>)))
      [ex_spilled, ex_second] ss"
proof -
  obtain d' where "decode_session ex_parse ex_decoder ex_session = Inr ([ex_spilled, ex_second], d')" using ex_run by blast
  from decoder_refines_stream [OF ex_new this ex_within ex_sized] show ?thesis .
qed

text \<open>C27: The spill threshold bounds memory. Between any two messages the open transaction and every
  transaction handed out either hold no change, or encode to at most the configured threshold (the
  default when it is 0), or keep their changes in a spill file; and the size the decoder tracks for
  the open transaction is the size of its encoding.\<close>

theorem decoder_memory_bounded:
  assumes "NewPGOutputDecoderWithConfig threshold setup = Inr d" "decode_session parse d session = Inr (txs, d')"
    and "parse_within parse" "protocol_sized session"
  shows "(\<forall>t. t \<in> set txs \<or> pd_current d' = Some t \<longrightarrow> tx_Changes t = [] \<or>
      int (length (wire_transaction payloadVersion t)) \<le> (if threshold = 0 then DefaultDecoderSpillThreshold else threshold)) \<and>
    (\<forall>t. pd_current d' = Some t \<and> tx_Spill t = None \<longrightarrow>
      pd_encodedSize d' = length (wire_transaction payloadVersion t))"
proof -
  let ?limit = "if threshold = 0 then DefaultDecoderSpillThreshold else threshold"
  have limit: "pd_spillThreshold d = ?limit" "0 \<le> ?limit"
    using assms(1) by (auto simp: NewPGOutputDecoderWithConfig_def new_decoder_def Let_def res_simps
        DefaultDecoderSpillThreshold_def split: if_splits)
  have small: "tx_Changes t = [] \<or> int (length (wire_transaction payloadVersion t)) \<le> ?limit"
    if "represents (pd_spillThreshold d) t s" for t s
    using that limit by (auto simp: represents_def split: if_splits)
  from session_stands_for [OF assms] obtain ss a where ss: "dec_sim d' a" "pd_spillThreshold d' = pd_spillThreshold d"
      "list_all2 (\<lambda>t s. represents (pd_spillThreshold d) t s \<and> related_ok s \<and> tx_CommitLSN s \<le> tx_EndLSN s) txs ss"
    by blast
  have current: "\<exists>s. represents (pd_spillThreshold d) t s \<and> pd_encodedSize d' = length (wire_transaction payloadVersion s)"
    if "pd_current d' = Some t" for t
    using ss(1,2) that by (cases a) (auto simp: open_sim_def split: option.splits)
  have "\<forall>t. t \<in> set txs \<or> pd_current d' = Some t \<longrightarrow> tx_Changes t = [] \<or>
      int (length (wire_transaction payloadVersion t)) \<le> ?limit"
    using ss(3) current small by (fastforce simp: list_all2_conv_all_nth in_set_conv_nth)
  moreover have "\<forall>t. pd_current d' = Some t \<and> tx_Spill t = None \<longrightarrow>
      pd_encodedSize d' = length (wire_transaction payloadVersion t)"
    using current by (fastforce simp: represents_def split: if_splits)
  ultimately show ?thesis ..
qed

theorem decoder_memory_bounded_witness:
  "\<exists>d'. decode_session ex_parse ex_decoder ex_session = Inr ([ex_spilled, ex_second], d') \<and>
    length (wire_transaction payloadVersion ex_second) \<le> 100"
proof -
  obtain d' where run: "decode_session ex_parse ex_decoder ex_session = Inr ([ex_spilled, ex_second], d')" using ex_run by blast
  from decoder_memory_bounded [OF ex_new this ex_within ex_sized] run show ?thesis
    by (auto simp: ex_second_def)
qed

end
