(* ===== verification/Receiver.thy ===== *)
theory Receiver
  imports PGDecoder
begin

text \<open>
  The replication receiver, \<^verbatim>\<open>internal/cdc/receiver.go\<close>, and its error classes,
  \<^verbatim>\<open>internal/cdc/retry.go\<close>: the durable watermark, the configuration checks, the plug-in
  arguments, the session loop with its feedback and deliveries, and the reconnecting loop.

  What the network, the clock and the persister do is the input: a \<open>SessionEvent\<close> is what
  one turn of the session loop finds, with the watermark it reads. \<^verbatim>\<open>pgconn\<close> and
  \<^verbatim>\<open>pglogrepl\<close> are third-party code; their results are part of the events.
\<close>

section \<open>The durable watermark\<close>

text \<open>The compare-and-swap loop of \<^verbatim>\<open>Publish\<close> ends with the larger of the two values.\<close>

definition Publish :: "LSN \<Rightarrow> LSN \<Rightarrow> LSN" where
  "Publish watermark lsn = (if lsn \<le> watermark then watermark else lsn)"

lemma Publish_max: "Publish w l = max w l"
  by (auto simp: Publish_def max_def)

section \<open>Error classes\<close>

text \<open>
  An error value, by what \<^verbatim>\<open>errors.As\<close> and \<^verbatim>\<open>errors.Is\<close> find in its chain: a
  \<^verbatim>\<open>*pgconn.PgError\<close> with its SQLSTATE and message, \<^verbatim>\<open>io.EOF\<close>, \<^verbatim>\<open>net.ErrClosed\<close>,
  a \<^verbatim>\<open>*net.OpError\<close>, a \<^verbatim>\<open>*net.DNSError\<close>, a \<^verbatim>\<open>*BackpressureError\<close>; what
  \<^verbatim>\<open>pgconn.SafeToRetry\<close> says of it; and its text.
\<close>

record RunError =
  re_pg :: "(string \<times> string) option"
  re_eof :: bool
  re_closed :: bool
  re_safe :: bool
  re_op :: bool
  re_dns :: bool
  re_backpressure :: bool
  re_text :: string

definition plain_error :: "string \<Rightarrow> RunError" where
  "plain_error text = \<lparr>re_pg = None, re_eof = False, re_closed = False, re_safe = False, re_op = False,
     re_dns = False, re_backpressure = False, re_text = text\<rparr>"

definition has_prefix :: "string \<Rightarrow> string \<Rightarrow> bool" where
  "has_prefix s p \<longleftrightarrow> take (length p) s = p"

fun contains_str :: "string \<Rightarrow> string \<Rightarrow> bool" where
  "contains_str [] p \<longleftrightarrow> p = []"
| "contains_str (c # s) p \<longleftrightarrow> has_prefix (c # s) p \<or> contains_str s p"

definition isConnectionError :: "RunError option \<Rightarrow> bool" where
  "isConnectionError err = (case err of
     None \<Rightarrow> False
   | Some e \<Rightarrow> (case re_pg e of
       Some (code, _) \<Rightarrow> has_prefix code ''08'' \<or> code = ''57P01'' \<or> code = ''57P02'' \<or> code = ''57P03''
     | None \<Rightarrow> if re_eof e \<or> re_closed e then True
         else if re_safe e \<and> contains_str (re_text e) ''conn closed'' then True
         else if re_op e then True else re_dns e))"

text \<open>\<open>divergence\<close> is \<^verbatim>\<open>divergenceFor\<close> at the relation and change kind of the statement.\<close>

definition classifyApplyError :: "(string \<Rightarrow> RunError) \<Rightarrow> RunError option \<Rightarrow> RunError option" where
  "classifyApplyError divergence err =
     (if err = None \<or> isConnectionError err then err
      else case err of None \<Rightarrow> err | Some e \<Rightarrow> (case re_pg e of
        Some (code, message) \<Rightarrow> Some (divergence (''SQLSTATE '' @ code @ '': '' @ message))
      | None \<Rightarrow> err))"

section \<open>Configuration\<close>

record ReceiverConfig =
  rcv_ConnString :: string
  rcv_Slot :: string
  rcv_Publication :: string
  rcv_StartLSN :: LSN
  rcv_TransactionsCap :: "nat option"
  rcv_Durable :: "LSN option"
  rcv_FeedbackInterval :: int
  rcv_WriteTimeout :: int
  rcv_Backpressure :: int
  rcv_ReconnectDelay :: int
  rcv_SpillThreshold :: int
  rcv_SpillDirectory :: string
  rcv_Binary :: "bool option"

text \<open>\<^verbatim>\<open>replicationNamePattern\<close>: a letter or underscore, then letters, digits, underscores and dollars.\<close>

definition is_alpha :: "char \<Rightarrow> bool" where
  "is_alpha c = (let n = of_char c :: nat in 65 \<le> n \<and> n \<le> 90 \<or> 97 \<le> n \<and> n \<le> 122)"

definition is_digit :: "char \<Rightarrow> bool" where
  "is_digit c = (let n = of_char c :: nat in 48 \<le> n \<and> n \<le> 57)"

definition replicationNamePattern :: "string \<Rightarrow> bool" where
  "replicationNamePattern s = (case s of
     [] \<Rightarrow> False
   | c # cs \<Rightarrow> (is_alpha c \<or> c = CHR ''_'') \<and>
       list_all (\<lambda>c. is_alpha c \<or> is_digit c \<or> c = CHR ''_'' \<or> c = CHR ''$'') cs)"

definition time_Second :: int where
  "time_Second = 1000000000"

definition NewReceiver :: "ReceiverConfig \<Rightarrow> ReceiverConfig res" where
  "NewReceiver config =
     (if rcv_ConnString config = [] then Inl (Err ''cdc: receiver connection string is required'')
      else if \<not> replicationNamePattern (rcv_Slot config)
      then Inl (Err ''cdc: receiver slot must be an unquoted PostgreSQL identifier'')
      else if rcv_Publication config = [] \<or> CHR 0x00 \<in> set (rcv_Publication config)
      then Inl (Err ''cdc: receiver publication is required'')
      else if rcv_TransactionsCap config = None \<or> rcv_TransactionsCap config = Some 0
      then Inl (Err ''cdc: receiver requires a bounded buffered transaction channel'')
      else if rcv_Durable config = None then Inl (Err ''cdc: receiver durable watermark is required'')
      else Inr (config\<lparr>
        rcv_FeedbackInterval := (if rcv_FeedbackInterval config \<le> 0 then 10 * time_Second else rcv_FeedbackInterval config),
        rcv_WriteTimeout := (if rcv_WriteTimeout config \<le> 0 then 5 * time_Second else rcv_WriteTimeout config),
        rcv_Backpressure := (if rcv_Backpressure config \<le> 0 then 30 * time_Second else rcv_Backpressure config),
        rcv_ReconnectDelay := (if rcv_ReconnectDelay config \<le> 0 then time_Second else rcv_ReconnectDelay config)\<rparr>))"

text \<open>\<^verbatim>\<open>strings.ReplaceAll(publication, "'", "''")\<close>; character 39 is the quote.\<close>

definition double_quotes :: "string \<Rightarrow> string" where
  "double_quotes s = concat (map (\<lambda>c. if c = CHR 0x27 then [CHR 0x27, CHR 0x27] else [c]) s)"

definition pgoutputPluginArgs :: "string \<Rightarrow> bool \<Rightarrow> string list" where
  "pgoutputPluginArgs publication binaryMode = (let q = (\<lambda>s. [CHR 0x27] @ s @ [CHR 0x27]) in
     [''proto_version '' @ q ''1'', ''publication_names '' @ q (double_quotes publication),
      ''binary '' @ q (if binaryMode then ''true'' else ''false''), ''messages '' @ q ''true'',
      ''streaming '' @ q ''false''])"

definition PGOutputBinarySafe :: "Relation list \<Rightarrow> bool" where
  "PGOutputBinarySafe relations =
     list_all (\<lambda>r. list_all (\<lambda>c. \<not> (col_Type c = 0 \<or> col_Type c \<ge> 16384)) (rel_Columns r)) relations"

definition receiverResumeLSN :: "LSN \<Rightarrow> LSN \<Rightarrow> LSN" where
  "receiverResumeLSN initial watermark = (if watermark \<noteq> 0 then watermark else initial)"

section \<open>Deliveries and feedback\<close>

text \<open>A status update: written, flushed and applied positions, and whether a reply is asked for.\<close>

record StandbyStatus =
  st_Write :: LSN
  st_Flush :: LSN
  st_Apply :: LSN
  st_ReplyRequested :: bool

definition BackpressureError :: RunError where
  "BackpressureError = (plain_error ''cdc: replication handoff blocked'')\<lparr>re_backpressure := True\<rparr>"

definition feedback :: "LSN \<Rightarrow> bool \<Rightarrow> StandbyStatus" where
  "feedback watermark requested = \<lparr>st_Write = watermark, st_Flush = watermark, st_Apply = watermark,
     st_ReplyRequested = requested\<rparr>"

text \<open>What the \<^verbatim>\<open>select\<close> of \<^verbatim>\<open>deliver\<close> picks: chan in the channel, the context, the
  backpressure timer, or the feedback ticker with the watermark and the outcome of the update.\<close>

datatype DeliverEvent = ChannelRoom | ContextDone RunError | Blocked | FeedbackTick LSN "RunError option"

fun deliver :: "Transaction \<Rightarrow> DeliverEvent list \<Rightarrow> StandbyStatus list \<Rightarrow>
    (RunError option \<times> Transaction option \<times> StandbyStatus list) option" where
  "deliver t [] sent = None"
| "deliver t (ChannelRoom # es) sent = Some (None, Some t, sent)"
| "deliver t (ContextDone e # es) sent = Some (Some e, None, sent)"
| "deliver t (Blocked # es) sent = Some (Some BackpressureError, None, sent)"
| "deliver t (FeedbackTick w failed # es) sent = (case failed of
     Some e \<Rightarrow> Some (Some e, None, sent)
   | None \<Rightarrow> deliver t es (sent @ [feedback w False]))"

section \<open>The session\<close>

text \<open>
  One turn of the loop of \<^verbatim>\<open>runSession\<close>. \<open>se_end\<close> is what \<^verbatim>\<open>EndPosition\<close> returns
  (\<open>None\<close> when there is none configured), \<open>se_watermark\<close> the watermark, \<open>se_send\<close>
  the outcome of a status update of this turn.
\<close>

datatype Received =
    FeedbackDue
  | ReceiveTimeout
  | ReceiveFailed RunError
  | NotCopyData
  | Keepalive "RunError + bool"
  | XLogData "RunError + bytes" DecoderFaults GoTime "DeliverEvent list"
  | OtherCopyData

record SessionEvent =
  se_end :: "(RunError + LSN option) option"
  se_watermark :: LSN
  se_received :: Received
  se_send :: "RunError option"

record SessionState =
  ss_decoder :: PGOutputDecoder
  ss_sent :: "StandbyStatus list"
  ss_delivered :: "Transaction list"

datatype Turn = Continue SessionState | Return "RunError option" SessionState | Waiting SessionState

text \<open>The text of a decoder error; only transport errors are matched by their text.\<close>

fun error_text :: "error \<Rightarrow> string" where
  "error_text (Err s) = s"
| "error_text (Wrap s e) = s @ '': '' @ error_text e"
| "error_text (Divergence relation kind reason) = relation @ '': '' @ reason"
| "error_text _ = []"

definition send_feedback :: "SessionEvent \<Rightarrow> bool \<Rightarrow> SessionState \<Rightarrow> Turn" where
  "send_feedback ev requested s = (case se_send ev of
     Some e \<Rightarrow> Return (Some e) s
   | None \<Rightarrow> Continue (s\<lparr>ss_sent := ss_sent s @ [feedback (se_watermark ev) requested]\<rparr>))"

definition handle_wal :: "(bytes \<Rightarrow> ParseOutcome) \<Rightarrow> bytes \<Rightarrow> DecoderFaults \<Rightarrow> GoTime \<Rightarrow> DeliverEvent list \<Rightarrow>
    SessionState \<Rightarrow> Turn" where
  "handle_wal parse data flt now chan s = (case Decode parse flt now (ss_decoder s) data of
     (Inl e, d) \<Rightarrow> Return (Some (plain_error (error_text e))) (s\<lparr>ss_decoder := d\<rparr>)
   | (Inr None, d) \<Rightarrow> Continue (s\<lparr>ss_decoder := d\<rparr>)
   | (Inr (Some t), d) \<Rightarrow> (let s = s\<lparr>ss_decoder := d\<rparr> in
       case deliver t chan [] of
         None \<Rightarrow> Waiting s
       | Some (failed, delivered, sent) \<Rightarrow>
           (let s = s\<lparr>ss_sent := ss_sent s @ sent,
                      ss_delivered := ss_delivered s @ (case delivered of None \<Rightarrow> [] | Some t \<Rightarrow> [t])\<rparr> in
            case failed of None \<Rightarrow> Continue s | Some e \<Rightarrow> Return (Some e) s)))"

definition end_reached :: "SessionEvent \<Rightarrow> RunError + bool" where
  "end_reached ev = (case se_end ev of
     None \<Rightarrow> Inr False
   | Some (Inl e) \<Rightarrow> Inl e
   | Some (Inr None) \<Rightarrow> Inr False
   | Some (Inr (Some end)) \<Rightarrow> Inr (se_watermark ev \<ge> end))"

definition session_turn :: "(bytes \<Rightarrow> ParseOutcome) \<Rightarrow> SessionEvent \<Rightarrow> SessionState \<Rightarrow> Turn" where
  "session_turn parse ev s = (case end_reached ev of
     Inl e \<Rightarrow> Return (Some e) s
   | Inr True \<Rightarrow> Return None s
   | Inr False \<Rightarrow> (case se_received ev of
       FeedbackDue \<Rightarrow> send_feedback ev False s
     | ReceiveTimeout \<Rightarrow> send_feedback ev False s
     | ReceiveFailed e \<Rightarrow> Return (Some e) s
     | NotCopyData \<Rightarrow> Continue s
     | Keepalive (Inl e) \<Rightarrow> Return (Some e) s
     | Keepalive (Inr requested) \<Rightarrow> if requested then send_feedback ev True s else Continue s
     | XLogData (Inl e) flt now chan \<Rightarrow> Return (Some e) s
     | XLogData (Inr data) flt now chan \<Rightarrow> handle_wal parse data flt now chan s
     | OtherCopyData \<Rightarrow> Continue s))"

fun session_loop :: "(bytes \<Rightarrow> ParseOutcome) \<Rightarrow> SessionEvent list \<Rightarrow> SessionState \<Rightarrow> Turn" where
  "session_loop parse [] s = Waiting s"
| "session_loop parse (ev # evs) s = (case session_turn parse ev s of
     Continue s \<Rightarrow> session_loop parse evs s
   | turn \<Rightarrow> turn)"

text \<open>The decoder of a session: the default one unless a spill threshold or directory is configured.\<close>

definition session_decoder :: "ReceiverConfig \<Rightarrow> unit res \<Rightarrow> PGOutputDecoder res" where
  "session_decoder config setup =
     (if rcv_SpillThreshold config = 0 \<and> rcv_SpillDirectory config = [] then Inr (NewPGOutputDecoder setup)
      else NewPGOutputDecoderWithConfig (rcv_SpillThreshold config) setup)"

text \<open>The start of a session: \<open>Some\<close> error when the connection fails or replication does not start there.\<close>

definition session_start :: "ReceiverConfig \<Rightarrow> LSN \<Rightarrow> LSN \<times> string list" where
  "session_start config watermark = (receiverResumeLSN (rcv_StartLSN config) watermark,
     pgoutputPluginArgs (rcv_Publication config) (case rcv_Binary config of None \<Rightarrow> True | Some b \<Rightarrow> b))"

text \<open>\<^verbatim>\<open>Receiver.Run\<close>: \<open>None\<close> is a cancelled context, otherwise how each session ended; the
  result is the error it returns and how many sessions were run.\<close>

datatype RunResult = Cancelled | Stopped "RunError option"

fun receiver_run :: "RunError option option list \<Rightarrow> nat \<Rightarrow> (RunResult \<times> nat) option" where
  "receiver_run [] n = None"
| "receiver_run (outcome # rest) n = (case outcome of
     None \<Rightarrow> Some (Cancelled, Suc n)
   | Some err \<Rightarrow> if (case err of None \<Rightarrow> False | Some e \<Rightarrow> re_backpressure e) then Some (Stopped err, Suc n)
       else if \<not> isConnectionError err then Some (Stopped err, Suc n)
       else receiver_run rest (Suc n))"

end
