(* ===== verification/Persister.thy ===== *)
theory Persister
  imports SegmentDurability Receiver
begin

text \<open>
  The persister, \<^verbatim>\<open>internal/cdc/persister.go\<close>: it appends the transactions of the channel,
  syncs by bytes and by time, and publishes the durable watermark. One definition per branch of
  the loop of \<^verbatim>\<open>Run\<close>; the failures of the writer's system calls are \<open>Faults\<close>.
\<close>

record Persister =
  ps_writer :: Writer
  ps_watermark :: LSN
  ps_syncBytes :: nat
  ps_unsyncedBytes :: nat

text \<open>\<open>NewPersister\<close> with \<open>Run\<close>'s initial count: an unsynced tail forces the next sync.\<close>

definition NewPersister :: "Writer option \<Rightarrow> bool \<Rightarrow> LSN option \<Rightarrow> int \<Rightarrow> Persister res" where
  "NewPersister writer channel watermark syncBytes =
     (case writer of None \<Rightarrow> Inl (Err ''cdc: persister writer is required'') | Some w \<Rightarrow>
      if \<not> channel then Inl (Err ''cdc: persister transaction channel is required'')
      else case watermark of None \<Rightarrow> Inl (Err ''cdc: persister durable watermark is required'') | Some durable \<Rightarrow>
        Inr \<lparr>ps_writer = w, ps_watermark = Publish durable (wr_durableEndLSN w),
             ps_syncBytes = (if syncBytes \<le> 0 then 4 * 2 ^ 20 else nat syncBytes), ps_unsyncedBytes = 0\<rparr>)"

definition persister_start :: "Persister \<Rightarrow> Persister" where
  "persister_start p = p\<lparr>ps_unsyncedBytes :=
     (if wr_lastEndLSN (ps_writer p) > wr_durableEndLSN (ps_writer p) then 1 else 0)\<rparr>"

definition persister_sync :: "Faults \<Rightarrow> Persister \<Rightarrow> unit res \<times> Persister" where
  "persister_sync flt p = (if ps_unsyncedBytes p = 0 then (Inr (), p)
     else case Sync flt (ps_writer p) of
       (Inl e, w) \<Rightarrow> (Inl e, p\<lparr>ps_writer := w\<rparr>)
     | (Inr durable, w) \<Rightarrow> (Inr (), p\<lparr>ps_writer := w, ps_watermark := Publish (ps_watermark p) durable,
         ps_unsyncedBytes := 0\<rparr>))"

definition persister_receive :: "Faults \<Rightarrow> Faults \<Rightarrow> Persister \<Rightarrow> Transaction \<Rightarrow> unit res \<times> Persister" where
  "persister_receive flt flt_sync p t =
     (if tx_EndLSN t \<le> wr_lastEndLSN (ps_writer p)
      then (Inr (), p\<lparr>ps_watermark := Publish (ps_watermark p) (wr_durableEndLSN (ps_writer p))\<rparr>)
      else case AppendFrame flt (ps_writer p) (Some t) of
        (Inl e, t, w) \<Rightarrow> (Inl e, p\<lparr>ps_writer := w\<rparr>)
      | (Inr frameBytes, t, w) \<Rightarrow>
          (let p = p\<lparr>ps_writer := w, ps_unsyncedBytes := ps_unsyncedBytes p + frameBytes\<rparr> in
           if ps_unsyncedBytes p \<ge> ps_syncBytes p then persister_sync flt_sync p else (Inr (), p)))"

section \<open>What the writer's operations do to the LSNs\<close>

lemma syncLocked_durable:
  "syncLocked flt w = (r, w') \<Longrightarrow> wr_durableEndLSN w' \<in> {wr_durableEndLSN w, wr_pendingEndLSN w} \<and>
    wr_pendingEndLSN w' = wr_pendingEndLSN w \<and> wr_partialPath w' = wr_partialPath w \<and>
    wr_file w' = wr_file w \<and> wr_size w' = wr_size w"
  by (auto simp: syncLocked_def split: if_splits)

lemma rotateLocked_durable:
  "rotateLocked flt w = (r, w') \<Longrightarrow> wr_durableEndLSN w' \<in> {wr_durableEndLSN w, wr_pendingEndLSN w} \<and>
    (wr_file w' \<longrightarrow> wr_size w' = wr_size w)"
  by (auto simp: rotateLocked_def Let_def split: if_splits prod.splits sum.splits dest!: syncLocked_durable)

lemma openSegment_durable:
  "openSegment flt w start = (r, w') \<Longrightarrow> wr_durableEndLSN w' = wr_durableEndLSN w \<and>
    (is_ok r \<longrightarrow> wr_partialPath w' = partial_name start)  \<and> (\<not> is_ok r \<longrightarrow> wr_file w' \<longrightarrow> wr_file w)"
  by (auto simp: openSegment_def Let_def split: if_splits)

lemma appendFrameOpen_durable:
  assumes "appendFrameOpen flt w tx n = (r, tx', w')"
  shows "wr_durableEndLSN w' \<in> {wr_durableEndLSN w, tx_EndLSN tx} \<and>
    (wr_file w' \<and> wr_size w' = 0 \<longrightarrow> wr_size w = 0 \<and> wr_partialPath w' = wr_partialPath w \<and> (wr_file w))"
proof -
  obtain r1 tx1 d1 where written: "(if tx_Spill tx \<noteq> None \<or> n > streamPayloadBytes
      then appendStreamedFrame flt w tx n
      else case appendResidentFrame flt w tx of (r, d) \<Rightarrow> (r, tx, d)) = (r1, tx1, d1)"
    by (metis surj_pair)
  have same: "tx_CommitLSN tx1 = tx_CommitLSN tx" "tx_EndLSN tx1 = tx_EndLSN tx"
    using written
    by (auto simp: appendStreamedFrame_def CleanupSpill_def Let_def writeFull_def
        split: if_splits prod.splits sum.splits option.splits bool.splits)
  have pos: "r1 = Inr m \<Longrightarrow> 0 < m" for m
    using written
    by (auto simp: appendStreamedFrame_def appendResidentFrame_def Let_def frameHeaderSize_def
        split: if_splits prod.splits sum.splits option.splits bool.splits)
  note run = assms [unfolded appendFrameOpen_def written]
  show ?thesis
  proof (cases r1)
    case (Inr m)
    with run pos same show ?thesis
      by (auto simp: Let_def split: if_splits prod.splits sum.splits dest!: rotateLocked_durable)
  qed (use run in auto)
qed

lemma AppendFrame_durable:
  assumes "AppendFrame flt w (Some tx) = (r, tx', w')"
  shows "wr_durableEndLSN w' \<in> {wr_durableEndLSN w, tx_EndLSN tx} \<and>
    (wr_file w' \<and> wr_size w' = 0 \<longrightarrow>
      wr_partialPath w' = partial_name (tx_CommitLSN tx) \<or> wr_file w \<and> wr_size w = 0 \<and> wr_partialPath w' = wr_partialPath w)"
proof (cases "transactionPayloadSize tx")
  case (Inr n)
  have "w' = w \<or> (\<exists>ro w1. (if wr_file w then (Inr (), w) else openSegment flt w (tx_CommitLSN tx)) = (ro, w1) \<and>
      (w' = w1 \<and> \<not> is_ok ro \<or> is_ok ro \<and> (\<exists>tx1. appendFrameOpen flt w1 tx n = (r, tx1, w'))))"
    using assms Inr by (auto simp: AppendFrame_def split: if_splits prod.splits sum.splits)
  then show ?thesis
  proof (elim disjE exE conjE)
    fix ro w1 assume "(if wr_file w then (Inr (), w) else openSegment flt w (tx_CommitLSN tx)) = (ro, w1)"
      "w' = w1" "\<not> is_ok ro"
    then show ?thesis by (auto split: if_splits dest!: openSegment_durable)
  next
    fix ro w1 tx1 assume "(if wr_file w then (Inr (), w) else openSegment flt w (tx_CommitLSN tx)) = (ro, w1)"
      and ro: "is_ok ro" and a: "appendFrameOpen flt w1 tx n = (r, tx1, w')"
    then show ?thesis
      using appendFrameOpen_durable [OF a] by (auto split: if_splits dest!: openSegment_durable)
  qed auto
qed (use assms in \<open>auto simp: AppendFrame_def split: if_splits\<close>)

end
