(* ===== verification/CdcPipeline.thy ===== *)
theory CdcPipeline
  imports Persister
begin

text \<open>
  The receiver, the bounded channel, the persister and the segment writer together, from a source
  whose commits \<open>src\<close> come in LSN order. \<open>cdc_reach\<close> interleaves the steps of the
  parts: a session that starts at \<open>receiverResumeLSN\<close> and is sent the commits that end after it, a
  delivery into the channel, a lost connection, one transaction or one timer of the persister,
  with any failures, and a crash or restart. A failed persister step stops the process. What
  is delivered stands for the commit: the decoder's refinement gives that.

  The invariant: the segments hold a prefix of the commits, and the channel followed by what the
  session still sends continues it without a gap, possibly repeating what is already there.
\<close>

record Cdc =
  cd_persister :: Persister
  cd_channel :: "Transaction list"
  cd_session :: "Transaction list"
  cd_running :: bool

abbreviation (input) cd_writer :: "Cdc \<Rightarrow> Writer" where
  "cd_writer sys \<equiv> ps_writer (cd_persister sys)"

abbreviation (input) cd_watermark :: "Cdc \<Rightarrow> LSN" where
  "cd_watermark sys \<equiv> ps_watermark (cd_persister sys)"

definition sent_after :: "LSN \<Rightarrow> Transaction list \<Rightarrow> Transaction list" where
  "sent_after lsn src = filter (\<lambda>s. lsn < tx_EndLSN s) src"

inductive cdc_reach :: "nat \<Rightarrow> LSN \<Rightarrow> Transaction list \<Rightarrow> Cdc \<Rightarrow> bool"
  for cap :: nat and start :: LSN and src :: "Transaction list" where
  cdc_open: "OpenWriter rotationBytes workers [] = Inr (w, rec) \<Longrightarrow>
    NewPersister (Some w) True (Some 0) syncBytes = Inr p \<Longrightarrow>
    cdc_reach cap start src \<lparr>cd_persister = persister_start p, cd_channel = [], cd_session = [], cd_running = True\<rparr>"
| cdc_connect: "cdc_reach cap start src sys \<Longrightarrow> cd_running sys \<Longrightarrow>
    cdc_reach cap start src (sys\<lparr>cd_session := sent_after (receiverResumeLSN start (cd_watermark sys)) src\<rparr>)"
| cdc_deliver: "cdc_reach cap start src sys \<Longrightarrow> cd_running sys \<Longrightarrow> cd_session sys = s # ss \<Longrightarrow>
    length (cd_channel sys) < cap \<Longrightarrow> stands_for t s \<Longrightarrow>
    cdc_reach cap start src (sys\<lparr>cd_channel := cd_channel sys @ [t], cd_session := ss\<rparr>)"
| cdc_disconnect: "cdc_reach cap start src sys \<Longrightarrow> cdc_reach cap start src (sys\<lparr>cd_session := []\<rparr>)"
| cdc_persist: "cdc_reach cap start src sys \<Longrightarrow> cd_running sys \<Longrightarrow> cd_channel sys = t # ts \<Longrightarrow>
    safe_faults flt \<Longrightarrow> persister_receive flt flt_sync (cd_persister sys) t = (r, p) \<Longrightarrow>
    cdc_reach cap start src (sys\<lparr>cd_persister := p, cd_channel := ts, cd_running := is_ok r\<rparr>)"
| cdc_timer: "cdc_reach cap start src sys \<Longrightarrow> cd_running sys \<Longrightarrow>
    persister_sync flt (cd_persister sys) = (r, p) \<Longrightarrow>
    cdc_reach cap start src (sys\<lparr>cd_persister := p, cd_running := is_ok r\<rparr>)"
| cdc_restart: "cdc_reach cap start src sys \<Longrightarrow> crash_torn (wr_disk (cd_writer sys)) d \<Longrightarrow>
    OpenWriter rotationBytes workers d = Inr (w, rec) \<Longrightarrow>
    NewPersister (Some w) True (Some 0) syncBytes = Inr p \<Longrightarrow>
    cdc_reach cap start src \<lparr>cd_persister = persister_start p, cd_channel = [], cd_session = [], cd_running = True\<rparr>"

section \<open>The source's order\<close>

definition src_ok :: "LSN \<Rightarrow> Transaction list \<Rightarrow> bool" where
  "src_ok start src \<longleftrightarrow>
     sorted_wrt (\<lambda>s t. tx_CommitLSN s < tx_CommitLSN t \<and> tx_EndLSN s < tx_EndLSN t) src \<and>
     (\<forall>s\<in>set src. start < tx_EndLSN s)"

definition stored_as :: "bytes \<Rightarrow> Transaction \<Rightarrow> bool" where
  "stored_as p s \<longleftrightarrow> WriteTransaction [] s = Inr (p, length p)"

lemma stored_as_lsns: "stored_as p s \<Longrightarrow> payload_lsns p = (tx_CommitLSN s, tx_EndLSN s)"
  using WriteTransaction_payload unfolding stored_as_def by blast

definition source_lsns :: "Transaction list \<Rightarrow> nat \<Rightarrow> LSN \<times> LSN" where
  "source_lsns src n = (if n = 0 then (0, 0) else (tx_CommitLSN (src ! (n - 1)), tx_EndLSN (src ! (n - 1))))"

lemma log_lsns_source:
  assumes "list_all2 stored_as log (take n src)" "n \<le> length src"
  shows "log_lsns log = source_lsns src n"
proof (cases n)
  case 0
  with assms show ?thesis by (simp add: log_lsns_def source_lsns_def)
next
  case (Suc m)
  with assms have "list_all2 stored_as log (take m src @ [src ! m])"
    by (simp add: take_Suc_conv_app_nth)
  then obtain log' p where "log = log' @ [p]" "stored_as p (src ! m)"
    by (auto simp: list_all2_append2 list_all2_Cons2)
  with Suc show ?thesis by (simp add: stored_as_lsns source_lsns_def)
qed

lemma src_nth_less:
  "src_ok start src \<Longrightarrow> i < j \<Longrightarrow> j < length src \<Longrightarrow>
    tx_CommitLSN (src ! i) < tx_CommitLSN (src ! j) \<and> tx_EndLSN (src ! i) < tx_EndLSN (src ! j)"
  by (simp add: src_ok_def sorted_wrt_iff_nth_less)

lemma source_end_iff:
  assumes "src_ok start src" "n \<le> length src" "i < length src"
  shows "tx_EndLSN (src ! i) \<le> snd (source_lsns src n) \<longleftrightarrow> i < n"
proof (cases n)
  case 0
  have "start < tx_EndLSN (src ! i)" using assms(1,3) by (simp add: src_ok_def)
  with 0 show ?thesis by (auto simp: source_lsns_def)
next
  case (Suc m)
  show ?thesis
  proof
    assume le: "tx_EndLSN (src ! i) \<le> snd (source_lsns src n)"
    show "i < n"
    proof (rule ccontr)
      assume "\<not> i < n"
      with src_nth_less [OF assms(1), of m i] assms(3) Suc le show False by (auto simp: source_lsns_def)
    qed
  next
    assume "i < n"
    with src_nth_less [OF assms(1), of i m] assms(2) Suc show "tx_EndLSN (src ! i) \<le> snd (source_lsns src n)"
      by (cases "i = m") (auto simp: source_lsns_def less_imp_le)
  qed
qed

section \<open>Queues without gaps\<close>

text \<open>
  A queue by the positions of its commits in the source: each is at most one past the front.
\<close>

fun gapless :: "nat \<Rightarrow> nat list \<Rightarrow> bool" where
  "gapless n [] \<longleftrightarrow> True"
| "gapless n (i # is) \<longleftrightarrow> i \<le> n \<and> gapless (max n (Suc i)) is"

fun front :: "nat \<Rightarrow> nat list \<Rightarrow> nat" where
  "front n [] = n"
| "front n (i # is) = front (max n (Suc i)) is"

lemma gapless_snoc: "gapless n (is @ [i]) \<longleftrightarrow> gapless n is \<and> i \<le> front n is"
  by (induction "is" arbitrary: n) auto

lemma front_snoc: "front n (is @ [i]) = max (front n is) (Suc i)"
  by (induction "is" arbitrary: n) auto

lemma front_ge: "n \<le> front n is"
  by (induction "is" arbitrary: n) (auto dest: meta_spec intro: order.trans [rotated])

definition queue_ok :: "Transaction list \<Rightarrow> nat \<Rightarrow> Transaction list \<Rightarrow> Transaction list \<Rightarrow> bool" where
  "queue_ok src n channel session \<longleftrightarrow>
     (\<exists>is j. list_all2 (\<lambda>t i. i < length src \<and> stands_for t (src ! i)) channel is \<and> gapless n is \<and>
        session = drop j src \<and> (session = [] \<or> j \<le> front n is))"

lemma queue_ok_empty: "queue_ok src n [] []"
  unfolding queue_ok_def by (intro exI [of _ "[]"] exI [of _ "length src"]) simp

lemma queue_ok_disconnect: "queue_ok src n channel session \<Longrightarrow> queue_ok src n channel []"
  unfolding queue_ok_def by (metis drop_all order_refl)

lemma queue_ok_connect:
  assumes "queue_ok src n channel session" "k \<le> n"
  shows "queue_ok src n channel (drop k src)"
proof -
  from assms(1) obtain "is" where q: "list_all2 (\<lambda>t i. i < length src \<and> stands_for t (src ! i)) channel is" "gapless n is"
    by (auto simp: queue_ok_def)
  moreover have "k \<le> front n is" using assms(2) front_ge by (rule order.trans)
  ultimately show ?thesis unfolding queue_ok_def by blast
qed

lemma queue_ok_deliver:
  assumes "queue_ok src n channel (s # ss)" "stands_for t s"
  shows "queue_ok src n (channel @ [t]) ss"
proof -
  from assms(1) obtain "is" j where q: "list_all2 (\<lambda>t i. i < length src \<and> stands_for t (src ! i)) channel is"
      "gapless n is" "s # ss = drop j src" "j \<le> front n is"
    by (auto simp: queue_ok_def)
  then have "j < length src" "s = src ! j" "ss = drop (Suc j) src"
    by (metis drop_all list.distinct(1) not_le, metis nth_via_drop, metis drop_Suc list.sel(3) tl_drop)
  with q assms(2) show ?thesis
    unfolding queue_ok_def
    by (intro exI [of _ "is @ [j]"] exI [of _ "Suc j"]) (simp add: gapless_snoc front_snoc list_all2_appendI)
qed

lemma queue_ok_pop:
  assumes "queue_ok src n (t # ts) session"
  obtains i where "i < length src" "stands_for t (src ! i)" "i \<le> n" "queue_ok src (max n (Suc i)) ts session"
proof -
  from assms obtain "is" j where q: "list_all2 (\<lambda>t i. i < length src \<and> stands_for t (src ! i)) (t # ts) is"
      "gapless n is" "session = drop j src" "session = [] \<or> j \<le> front n is"
    by (auto simp: queue_ok_def)
  then obtain i js where i: "is = i # js" "i < length src" "stands_for t (src ! i)" "i \<le> n"
      "list_all2 (\<lambda>t i. i < length src \<and> stands_for t (src ! i)) ts js" "gapless (max n (Suc i)) js"
      "session = [] \<or> j \<le> front (max n (Suc i)) js"
    by (auto simp: list_all2_Cons1)
  then have "queue_ok src (max n (Suc i)) ts session"
    using q(3) unfolding queue_ok_def by blast
  with i that show ?thesis by blast
qed

section \<open>The invariant\<close>

definition empty_tail :: "Writer \<Rightarrow> LSN \<Rightarrow> bool" where
  "empty_tail w st \<longleftrightarrow> wr_file w \<and> wr_size w = 0 \<and> wr_partialPath w = partial_name st"

definition log_ok :: "Transaction list \<Rightarrow> Writer \<Rightarrow> nat \<Rightarrow> bool" where
  "log_ok src w n \<longleftrightarrow> (\<exists>segs tail. writer_inv w segs tail \<and> list_all2 stored_as (writer_log segs tail) (take n src)) \<and>
     \<not> wr_closed w \<and> n \<le> length src \<and> (\<forall>st. empty_tail w st \<longrightarrow> (\<forall>s\<in>set (drop n src). st \<le> tx_CommitLSN s))"

definition cdc_inv :: "Transaction list \<Rightarrow> Cdc \<Rightarrow> bool" where
  "cdc_inv src sys \<longleftrightarrow> (\<exists>n. log_ok src (cd_writer sys) n \<and>
     cd_watermark sys \<le> wr_durableEndLSN (cd_writer sys) \<and>
     (cd_running sys \<longrightarrow> queue_ok src n (cd_channel sys) (cd_session sys)))"

lemma segment_bytes_empty: "length (segment_bytes ps) = 0 \<longleftrightarrow> ps = []"
  by (cases ps) (simp_all add: length_frame frameHeaderSize_def)

lemma empty_tail_iff:
  "writer_inv w segs tail \<Longrightarrow> empty_tail w st \<longleftrightarrow> tail = Some (st, [], [])"
  by (cases tail) (auto simp: writer_inv_def empty_tail_def segment_bytes_empty simp del: length_0_conv)

lemma log_ok_lsns:
  assumes "log_ok src w n"
  shows "(wr_lastCommitLSN w, wr_lastEndLSN w) = source_lsns src n"
  using assms log_lsns_source unfolding log_ok_def by (metis writer_inv_def)

lemma log_ok_durable_le:
  assumes "log_ok src w n"
  shows "wr_durableEndLSN w \<le> wr_lastEndLSN w"
proof -
  from assms obtain segs tail where inv: "writer_inv w segs tail" by (auto simp: log_ok_def)
  have "\<exists>rest. writer_log segs tail = durable_log segs tail @ rest"
    by (cases tail) (auto simp: writer_log_def durable_log_def)
  then obtain rest where rest: "writer_log segs tail = durable_log segs tail @ rest" ..
  with inv have "segment_ok (0, 0) (durable_log segs tail @ rest)" by (simp add: writer_inv_def)
  from segment_ok_last_ge(1) [OF this] inv rest show ?thesis
    by (simp add: writer_inv_def prod_eq_iff)
qed

lemma drop_commits:
  assumes "src_ok start src" "i < length src" "s \<in> set (drop i src)"
  shows "tx_CommitLSN (src ! i) \<le> tx_CommitLSN s"
proof -
  from assms(3) obtain k where k: "k < length src - i" "s = src ! (i + k)"
    using assms(2) by (auto simp: in_set_conv_nth)
  show ?thesis
  proof (cases k)
    case (Suc m)
    with src_nth_less [OF assms(1), of i "i + k"] k show ?thesis by (simp add: less_imp_le)
  qed (use k in simp)
qed

lemma append_log_ok:
  assumes src: "src_ok start src" and log: "log_ok src w n" and n: "n < length src"
    and t: "stands_for t (src ! n)" and flt: "safe_faults flt"
    and run: "AppendFrame flt w (Some t) = (r, t', w')"
  shows "wr_durableEndLSN w \<le> wr_durableEndLSN w' \<and>
    (log_ok src w' (Suc n) \<or> log_ok src w' n \<and> \<not> is_ok r)"
proof -
  from log obtain segs tail where inv: "writer_inv w segs tail"
      "list_all2 stored_as (writer_log segs tail) (take n src)" and closed: "\<not> wr_closed w"
    by (auto simp: log_ok_def)
  have "src ! n \<in> set (drop n src)" using Cons_nth_drop_Suc [OF n] by (metis list.set_intros(1))
  with log t have retry: "tail = Some (st, [], []) \<Longrightarrow> st \<le> tx_CommitLSN t" for st
    using empty_tail_iff [OF inv(1), of st] by (auto simp: log_ok_def stands_for_def)
  from AppendFrame_inv [OF inv(1) closed retry flt run] obtain segs' tail' where
    inv': "writer_inv w' segs' tail'" "append_outcome t r (writer_log segs tail) (writer_log segs' tail')" by blast
  have dur: "wr_durableEndLSN w' \<in> {wr_durableEndLSN w, tx_EndLSN t}"
    and start': "\<And>st. empty_tail w' st \<Longrightarrow> st = tx_CommitLSN t \<or> empty_tail w st"
    using AppendFrame_durable [OF run] by (auto simp: empty_tail_def)
  have "wr_lastEndLSN w = snd (source_lsns src n)" using log_ok_lsns [OF log] by (metis snd_conv)
  then have "wr_lastEndLSN w < tx_EndLSN t"
    using source_end_iff [OF src _ n, of n] n t by (simp add: stands_for_def not_le)
  then have le: "wr_durableEndLSN w \<le> tx_EndLSN t"
    by (rule order.trans [OF log_ok_durable_le [OF log] less_imp_le])
  have mono: "wr_durableEndLSN w \<le> wr_durableEndLSN w'"
    using dur unfolding insert_iff empty_iff by (elim disjE) (simp_all only: le order_refl)
  have commits: "empty_tail w' st \<Longrightarrow> s \<in> set (drop m src) \<Longrightarrow> n \<le> m \<Longrightarrow> st \<le> tx_CommitLSN s" for st s m
  proof -
    assume a: "empty_tail w' st" "s \<in> set (drop m src)" "n \<le> m"
    from subsetD [OF set_drop_subset_set_drop [OF a(3)] a(2)] have s: "s \<in> set (drop n src)" .
    from start' [OF a(1)] show "st \<le> tx_CommitLSN s"
    proof
      assume "st = tx_CommitLSN t"
      with drop_commits [OF src n s] t show ?thesis by (simp add: stands_for_def)
    qed (use log s in \<open>simp add: log_ok_def\<close>)
  qed
  have closed': "\<not> wr_closed w'" using AppendFrame_closed [OF run] closed by simp
  have ok: "log_ok src w' m"
    if "list_all2 stored_as (writer_log segs' tail') (take m src)" "n \<le> m" "m \<le> length src" for m
    unfolding log_ok_def using that inv'(1) closed' commits [OF _ _ that(2)] by blast
  have "log_ok src w' (Suc n) \<or> log_ok src w' n \<and> \<not> is_ok r"
    using inv'(2) unfolding append_outcome_def
  proof (elim disjE exE conjE)
    assume "writer_log segs' tail' = writer_log segs tail" "\<not> is_ok r"
    then show ?thesis using ok [of n] inv(2) n by simp
  next
    fix p assume p: "WriteTransaction [] t = Inr (p, length p)" "writer_log segs' tail' = writer_log segs tail @ [p]"
    then have "stored_as p (src ! n)" using t by (simp add: stands_for_def stored_as_def)
    with p(2) inv(2) n have "list_all2 stored_as (writer_log segs' tail') (take (Suc n) src)"
      by (simp add: take_Suc_conv_app_nth list_all2_appendI)
    then show ?thesis using ok [of "Suc n"] n by simp
  qed
  with mono show ?thesis ..
qed

lemma Sync_durable:
  "Sync flt w = (r, w') \<Longrightarrow> wr_durableEndLSN w' \<in> {wr_durableEndLSN w, wr_pendingEndLSN w} \<and>
    (empty_tail w' st \<longleftrightarrow> empty_tail w st) \<and> (\<forall>lsn. r = Inr lsn \<longrightarrow> lsn = wr_durableEndLSN w')"
  by (auto simp: Sync_def empty_tail_def split: if_splits prod.splits sum.splits dest: syncLocked_durable)

lemma sync_log_ok:
  assumes log: "log_ok src w n" and run: "Sync flt w = (r, w')"
  shows "wr_durableEndLSN w \<le> wr_durableEndLSN w' \<and> log_ok src w' n"
proof -
  from log obtain segs tail where inv: "writer_inv w segs tail"
      "list_all2 stored_as (writer_log segs tail) (take n src)" "\<not> wr_closed w"
    by (auto simp: log_ok_def)
  from Sync_inv [OF inv(1,3) run] obtain tail' where
    inv': "writer_inv w' segs tail'" "writer_log segs tail' = writer_log segs tail" "\<not> wr_closed w'" by blast
  have "log_ok src w' n"
    using log inv inv' Sync_durable [OF run] unfolding log_ok_def by metis
  moreover have "wr_pendingEndLSN w = wr_lastEndLSN w" using inv(1) by (simp add: writer_inv_def)
  ultimately show ?thesis
    using Sync_durable [OF run, of 0] log_ok_durable_le [OF log] by auto
qed

lemma list_all2_prefix:
  assumes "prefix xs ys" "list_all2 P ys zs"
  shows "list_all2 P xs (take (length xs) zs)"
  using assms by (auto simp: prefix_def list_all2_append1)

lemma reopen_path:
  assumes inv: "writer_inv w segs tail" and crash: "crash_torn (wr_disk w) d"
    and run: "OpenWriter rotationBytes workers d = Inr (w', rec)" and e: "empty_tail w' st"
  shows "\<exists>dur undur. tail = Some (st, dur, undur)"
proof (cases tail)
  case None
  with crash_closed [OF inv [unfolded None] crash_torn_any [OF crash]] run e show ?thesis
    by (auto simp: OpenWriter_def recovered_writer_def empty_tail_def split: if_splits)
next
  case (Some t)
  obtain start dur undur where t: "t = (start, dur, undur)" by (cases t)
  from crash_tail [OF inv [unfolded Some t] crash_torn_any [OF crash]] run e Some t show ?thesis
    by (auto simp: OpenWriter_def recovered_writer_def empty_tail_def Let_def split: if_splits)
qed

lemma restart_log_ok:
  assumes src: "src_ok start src" and log: "log_ok src w n" and crash: "crash_torn (wr_disk w) d"
    and run: "OpenWriter rotationBytes workers d = Inr (w', rec)"
  shows "\<exists>m\<le>n. log_ok src w' m \<and> wr_durableEndLSN w \<le> wr_durableEndLSN w' \<and>
    wr_durableEndLSN w' = snd (source_lsns src m)"
proof -
  from log obtain segs tail where inv: "writer_inv w segs tail"
      "list_all2 stored_as (writer_log segs tail) (take n src)" and n: "n \<le> length src"
    by (auto simp: log_ok_def)
  from reopen_inv [OF inv(1) crash] OpenWriter_config [OF run] run obtain tail' where
    w': "writer_inv w' segs tail'" "\<not> wr_closed w'" "prefix (durable_log segs tail) (writer_log segs tail')"
      "prefix (writer_log segs tail') (writer_log segs tail)" "durable_log segs tail' = writer_log segs tail'"
    by fastforce
  define m where "m = length (writer_log segs tail')"
  have "length (writer_log segs tail) = n" using list_all2_lengthD [OF inv(2)] n by simp
  then have m: "m \<le> n" using prefix_length_le [OF w'(4)] by (simp add: m_def)
  have stored: "list_all2 stored_as (writer_log segs tail') (take m src)"
    using list_all2_prefix [OF w'(4) inv(2)] m by (simp add: m_def [symmetric] min_absorb1)
  have commits: "\<forall>s\<in>set (drop m src). st \<le> tx_CommitLSN s" if e: "empty_tail w' st" for st
  proof -
    from reopen_path [OF inv(1) crash run e] obtain dur undur where tail: "tail = Some (st, dur, undur)" by blast
    have tail': "tail' = Some (st, [], [])" using empty_tail_iff [OF w'(1)] e by simp
    show ?thesis
    proof (cases "dur @ undur")
      case Nil
      then have "empty_tail w st" using empty_tail_iff [OF inv(1)] tail by simp
      moreover have "m = n"
        using \<open>length (writer_log segs tail) = n\<close> Nil tail tail' by (simp add: m_def writer_log_def)
      ultimately show ?thesis using log by (simp add: log_ok_def)
    next
      case (Cons p ps)
      have "st \<le> fst (payload_lsns p)"
        using inv(1) Cons unfolding tail by (auto simp: writer_inv_def)
      moreover have split: "writer_log segs tail = writer_log segs tail' @ p # ps"
        using Cons tail tail' by (simp add: writer_log_def)
      then have len: "m < n" using \<open>length (writer_log segs tail) = n\<close> by (simp add: m_def)
      then have "stored_as p (src ! m)"
        using list_all2_nthD [OF inv(2), of m] split \<open>length (writer_log segs tail) = n\<close> by (simp add: m_def nth_append)
      ultimately have "st \<le> tx_CommitLSN (src ! m)" by (simp add: stored_as_lsns)
      then show ?thesis using drop_commits [OF src, of m] len n by (auto intro: order.trans)
    qed
  qed
  have ok: "log_ok src w' m"
    using w'(1,2) stored commits m n by (auto simp: log_ok_def)
  have lsns: "wr_durableEndLSN w = snd (log_lsns (durable_log segs tail))"
      "wr_durableEndLSN w' = snd (log_lsns (writer_log segs tail'))"
    using inv(1) w'(1,5) by (simp_all add: writer_inv_def)
  obtain more where more: "writer_log segs tail' = durable_log segs tail @ more"
    using w'(3) by (auto simp: prefix_def)
  have "segment_ok (0, 0) (durable_log segs tail @ more)" using w'(1) more by (simp add: writer_inv_def)
  from segment_ok_last_ge(1) [OF this] lsns more have "wr_durableEndLSN w \<le> wr_durableEndLSN w'" by simp
  moreover have "wr_durableEndLSN w' = snd (source_lsns src m)"
    using lsns(2) log_lsns_source [OF stored] m n by simp
  ultimately show ?thesis using ok m by blast
qed

lemma restart_inv:
  assumes "src_ok start src" "log_ok src w n" "crash_torn (wr_disk w) d"
    and "OpenWriter rotationBytes workers d = Inr (w', rec)" "NewPersister (Some w') True (Some 0) syncBytes = Inr p"
  shows "cdc_inv src \<lparr>cd_persister = persister_start p, cd_channel = [], cd_session = [], cd_running = True\<rparr>"
proof -
  from restart_log_ok [OF assms(1-4)] obtain m where "log_ok src w' m" by blast
  then show ?thesis
    using assms(5) unfolding cdc_inv_def
    by (intro exI [of _ m]) (auto simp: NewPersister_def persister_start_def Publish_def queue_ok_empty)
qed

lemma open_log_ok:
  assumes "src_ok start src" "OpenWriter rotationBytes workers [] = Inr (w, rec)"
  shows "log_ok src w 0"
proof -
  from recover_empty [OF assms(2)] have inv: "writer_inv w [] None" "\<not> wr_closed w" by auto
  moreover have "\<not> empty_tail w st" for st using empty_tail_iff [OF inv(1)] by simp
  ultimately show ?thesis
    unfolding log_ok_def by (auto simp: writer_log_def seg_payloads_def intro!: exI [of _ "[]"] exI [of _ None])
qed

lemma persister_sync_inv:
  assumes "log_ok src (ps_writer p) n" "ps_watermark p \<le> wr_durableEndLSN (ps_writer p)"
    and "persister_sync flt p = (r, p')"
  shows "log_ok src (ps_writer p') n \<and> ps_watermark p' \<le> wr_durableEndLSN (ps_writer p')"
proof -
  obtain rr w' where s: "Sync flt (ps_writer p) = (rr, w')" by force
  from sync_log_ok [OF assms(1) s] Sync_durable [OF s, of 0] assms s show ?thesis
    by (cases rr) (auto simp: persister_sync_def Publish_def split: if_splits)
qed

lemma sent_after_dropWhile:
  "sorted_wrt (\<lambda>s t. tx_EndLSN s < tx_EndLSN t) src \<Longrightarrow> sent_after lsn src = dropWhile (\<lambda>s. tx_EndLSN s \<le> lsn) src"
proof (induction src)
  case (Cons s src)
  show ?case
  proof (cases "tx_EndLSN s \<le> lsn")
    case False
    then have "\<forall>t\<in>set src. lsn < tx_EndLSN t" using Cons.prems by (auto simp: not_le intro: less_trans)
    with False show ?thesis by (simp add: sent_after_def not_le filter_True)
  qed (use Cons in \<open>simp add: sent_after_def not_less\<close>)
qed (simp add: sent_after_def)

lemma connect_session:
  assumes src: "src_ok start src" and n: "n \<le> length src" and w: "watermark \<le> snd (source_lsns src n)"
  shows "\<exists>k\<le>n. sent_after (receiverResumeLSN start watermark) src = drop k src"
proof (cases "watermark = 0")
  case True
  have "sent_after start src = drop 0 src"
    using src by (simp add: sent_after_def src_ok_def filter_id_conv)
  with True show ?thesis unfolding receiverResumeLSN_def by auto
next
  case False
  define k where "k = length (takeWhile (\<lambda>s. tx_EndLSN s \<le> watermark) src)"
  have "sorted_wrt (\<lambda>s t. tx_EndLSN s < tx_EndLSN t) src"
    using src unfolding src_ok_def by (auto elim: sorted_wrt_mono_rel [rotated])
  then have "sent_after watermark src = drop k src"
    unfolding k_def by (simp add: sent_after_dropWhile dropWhile_eq_drop)
  moreover have "k \<le> n"
  proof (rule ccontr)
    assume "\<not> k \<le> n"
    then have "n < length src" "tx_EndLSN (src ! n) \<le> watermark"
      using nth_length_takeWhile set_takeWhileD [of "src ! n"] takeWhile_nth [of n _ src] length_takeWhile_le [of _ src]
      unfolding k_def by (metis not_le order.strict_trans2, metis nth_mem not_le)
    with source_end_iff [OF src n, of n] w show False by (meson less_irrefl order.trans)
  qed
  ultimately show ?thesis using False by (auto simp: receiverResumeLSN_def)
qed

lemma persist_inv:
  assumes src: "src_ok start src" and log: "log_ok src (ps_writer p) n"
    and wm: "ps_watermark p \<le> wr_durableEndLSN (ps_writer p)"
    and q: "queue_ok src n (t # ts) session" and flt: "safe_faults flt"
    and run: "persister_receive flt flt_sync p t = (r, p')"
  shows "\<exists>m. log_ok src (ps_writer p') m \<and> ps_watermark p' \<le> wr_durableEndLSN (ps_writer p') \<and>
    (is_ok r \<longrightarrow> queue_ok src m ts session)"
proof -
  from q obtain i where i: "i < length src" "stands_for t (src ! i)" "i \<le> n" "queue_ok src (max n (Suc i)) ts session"
    by (rule queue_ok_pop)
  have n: "n \<le> length src" using log by (simp add: log_ok_def)
  have last: "wr_lastEndLSN (ps_writer p) = snd (source_lsns src n)"
    using log_ok_lsns [OF log] by (metis snd_conv)
  have seen: "tx_EndLSN t \<le> wr_lastEndLSN (ps_writer p) \<longleftrightarrow> i < n"
    using source_end_iff [OF src n i(1)] i(2) last by (simp add: stands_for_def)
  show ?thesis
  proof (cases "i < n")
    case True
    then have "p' = p\<lparr>ps_watermark := Publish (ps_watermark p) (wr_durableEndLSN (ps_writer p))\<rparr>"
      using run seen by (simp add: persister_receive_def)
    moreover have "max n (Suc i) = n" using True by simp
    ultimately show ?thesis using log i(4) wm by (intro exI [of _ n]) (simp add: Publish_def)
  next
    case False
    then have "i = n" using i(3) by simp
    obtain ra t' w where a: "AppendFrame flt (ps_writer p) (Some t) = (ra, t', w)" by (metis surj_pair)
    from append_log_ok [OF src log _ _ flt a] i(1,2) \<open>i = n\<close> have
      out: "wr_durableEndLSN (ps_writer p) \<le> wr_durableEndLSN w" "log_ok src w (Suc n) \<or> log_ok src w n \<and> \<not> is_ok ra"
      by auto
    have q': "queue_ok src (Suc n) ts session" using i(4) \<open>i = n\<close> by (simp add: max_def)
    have "ps_watermark p \<le> wr_durableEndLSN w" using wm out(1) by (rule order.trans)
    show ?thesis
    proof (cases ra)
      case (Inl e)
      with run seen False a have "p' = p\<lparr>ps_writer := w\<rparr>" "\<not> is_ok r"
        by (auto simp: persister_receive_def)
      with out(2) \<open>ps_watermark p \<le> wr_durableEndLSN w\<close> show ?thesis by auto
    next
      case (Inr k)
      define p1 where "p1 = p\<lparr>ps_writer := w, ps_unsyncedBytes := ps_unsyncedBytes p + k\<rparr>"
      have p1: "log_ok src (ps_writer p1) (Suc n)" "ps_watermark p1 \<le> wr_durableEndLSN (ps_writer p1)"
        using out(2) Inr \<open>ps_watermark p \<le> wr_durableEndLSN w\<close> by (simp_all add: p1_def)
      have "p' = p1 \<or> persister_sync flt_sync p1 = (r, p')"
        using run seen False a Inr by (auto simp: persister_receive_def Let_def p1_def split: if_splits)
      then show ?thesis using persister_sync_inv [OF p1] p1 q' by blast
    qed
  qed
qed

lemma cdc_inv_reach:
  assumes "cdc_reach cap start src sys" "src_ok start src"
  shows "cdc_inv src sys"
  using assms(1)
proof induction
  case (cdc_open rotationBytes workers w rec syncBytes p)
  with open_log_ok [OF assms(2) cdc_open(1)] show ?case
    unfolding cdc_inv_def
    by (intro exI [of _ 0]) (auto simp: NewPersister_def persister_start_def Publish_def queue_ok_empty)
next
  case (cdc_connect sys)
  then obtain n where n: "log_ok src (cd_writer sys) n" "cd_watermark sys \<le> wr_durableEndLSN (cd_writer sys)"
      "queue_ok src n (cd_channel sys) (cd_session sys)"
    by (auto simp: cdc_inv_def)
  have "wr_lastEndLSN (cd_writer sys) = snd (source_lsns src n)" "n \<le> length src"
    using log_ok_lsns [OF n(1)] n(1) by (metis snd_conv, simp add: log_ok_def)
  with connect_session [OF assms(2)] order.trans [OF n(2) log_ok_durable_le [OF n(1)]] obtain k where
    "k \<le> n" "sent_after (receiverResumeLSN start (cd_watermark sys)) src = drop k src" by metis
  with n queue_ok_connect show ?case by (auto simp: cdc_inv_def)
next
  case (cdc_deliver sys s ss t)
  then show ?case using queue_ok_deliver by (auto simp: cdc_inv_def)
next
  case (cdc_disconnect sys)
  then show ?case using queue_ok_disconnect by (auto simp: cdc_inv_def)
next
  case (cdc_persist sys t ts flt flt_sync r p)
  then obtain n where "log_ok src (cd_writer sys) n" "cd_watermark sys \<le> wr_durableEndLSN (cd_writer sys)"
      "queue_ok src n (t # ts) (cd_session sys)"
    by (auto simp: cdc_inv_def)
  from persist_inv [OF assms(2) this cdc_persist(4,5)] show ?case by (auto simp: cdc_inv_def)
next
  case (cdc_timer sys flt r p)
  then obtain n where n: "log_ok src (cd_writer sys) n" "cd_watermark sys \<le> wr_durableEndLSN (cd_writer sys)"
      "queue_ok src n (cd_channel sys) (cd_session sys)"
    by (auto simp: cdc_inv_def)
  from persister_sync_inv [OF n(1,2) cdc_timer(3)] n(3) show ?case by (auto simp: cdc_inv_def)
next
  case (cdc_restart sys d rotationBytes workers w rec syncBytes p)
  then obtain n where "log_ok src (cd_writer sys) n" by (auto simp: cdc_inv_def)
  from restart_inv [OF assms(2) this cdc_restart(2,3,4)] show ?case .
qed

end
