(* ===== verification/CdcPipelineProps.thy ===== *)
theory CdcPipelineProps
  imports CdcPipeline
begin

text \<open>The properties of the whole capture path, with a run that stores and acknowledges one commit.\<close>

section \<open>An example run\<close>

definition synced_writer :: Writer where
  "synced_writer = snd (Sync no_faults example_writer)"

definition ex_persister :: "Writer \<Rightarrow> LSN \<Rightarrow> Persister" where
  "ex_persister w watermark = \<lparr>ps_writer = w, ps_watermark = watermark, ps_syncBytes = 1, ps_unsyncedBytes = 0\<rparr>"

definition ex_cdc :: "Persister \<Rightarrow> Transaction list \<Rightarrow> Transaction list \<Rightarrow> Cdc" where
  "ex_cdc p channel session = \<lparr>cd_persister = p, cd_channel = channel, cd_session = session, cd_running = True\<rparr>"

lemma ex_src: "src_ok 0 [example_tx]" "safe_faults no_faults"
  by (simp_all add: src_ok_def example_tx_def safe_faults_def no_faults_def)

lemma ex_lsns: "tx_EndLSN example_tx = 300" "wr_lastEndLSN fresh_writer = 0" "wr_durableEndLSN fresh_writer = 0"
  by (simp_all add: example_tx_def fresh_writer_def recovered_writer_def Let_def)

lemma ex_sync: "Sync no_faults example_writer = (Inr 300, synced_writer)"
  by (simp add: synced_writer_def Sync_def syncLocked_def example_writer_def fresh_writer_def recovered_writer_def
      Let_def no_faults_def)

lemma ex_receive:
  "persister_receive no_faults no_faults (ex_persister fresh_writer 0) example_tx = (Inr (), ex_persister synced_writer 300)"
  by (simp add: persister_receive_def ex_persister_def ex_lsns example_append persister_sync_def ex_sync Publish_def
      frameHeaderSize_def Let_def)

lemma ex_cdc_reach: "cdc_reach 1 0 [example_tx] (ex_cdc (ex_persister synced_writer 300) [] [])"
proof -
  have "NewPersister (Some fresh_writer) True (Some 0) 1 = Inr (ex_persister fresh_writer 0)"
    by (simp add: NewPersister_def ex_persister_def Publish_def ex_lsns)
  from cdc_open [OF fresh_open this] have "cdc_reach 1 0 [example_tx] (ex_cdc (ex_persister fresh_writer 0) [] [])"
    by (simp add: ex_cdc_def ex_persister_def persister_start_def ex_lsns)
  from cdc_connect [OF this] have "cdc_reach 1 0 [example_tx] (ex_cdc (ex_persister fresh_writer 0) [] [example_tx])"
    by (simp add: ex_cdc_def ex_persister_def receiverResumeLSN_def sent_after_def ex_lsns)
  from cdc_deliver [OF this, of example_tx "[]" example_tx]
  have "cdc_reach 1 0 [example_tx] (ex_cdc (ex_persister fresh_writer 0) [example_tx] [])"
    by (simp add: ex_cdc_def stands_for_def)
  from cdc_persist [OF this _ _ ex_src(2), of example_tx "[]" no_faults "Inr ()" "ex_persister synced_writer 300"]
  show ?thesis
    by (simp add: ex_cdc_def ex_receive)
qed

lemma ex_crash: "crash_torn (wr_disk synced_writer) (wr_disk synced_writer)"
  by (simp add: synced_writer_def Sync_def syncLocked_def example_writer_def no_faults_def sync_file_def file_get_def
      crash_torn_def Let_def fresh_writer_def recovered_writer_def)

section \<open>The properties\<close>

text \<open>C28: The segments always hold a prefix of the source's commits: no gap, no duplicate and
  nothing reordered, through any number of lost connections (whose replays overlap with what is
  stored and with what is still in the channel), failed appends and syncs (the faults of
  \<open>safe_faults\<close>: any but a failing \<^verbatim>\<open>Truncate\<close> of a roll-back and a failing reopen after a failed rename),
  rotations, crashes and restarts.\<close>

theorem segments_hold_source_prefix:
  assumes "cdc_reach cap start src sys" "src_ok start src"
  shows "\<exists>n\<le>length src. list_all2 stored_as (stored (wr_disk (ps_writer (cd_persister sys)))) (take n src)"
proof -
  from cdc_inv_reach [OF assms] obtain n where "log_ok src (cd_writer sys) n" by (auto simp: cdc_inv_def)
  then show ?thesis using stored_log by (fastforce simp: log_ok_def)
qed

theorem segments_hold_source_prefix_witness:
  "\<exists>n\<le>1. list_all2 stored_as (stored (wr_disk synced_writer)) (take n [example_tx])"
  using segments_hold_source_prefix [OF ex_cdc_reach ex_src(1)] by (simp add: ex_cdc_def ex_persister_def)

text \<open>C29: What the receiver acknowledges is safe to forget. A status update reports the watermark;
  after a crash at any moment, tearing the unsynced tail anywhere, recovery succeeds and every
  commit up to the reported flush position is still in the segments, in source order. So when the
  source drops its WAL up to there, nothing is lost. The faults on the way are those of C28.\<close>

theorem acknowledged_survives_crash:
  assumes "cdc_reach cap start src sys" "src_ok start src"
    and "crash_torn (wr_disk (ps_writer (cd_persister sys))) d" "0 \<le> rotationBytes" "0 \<le> workers" "workers \<le> 4"
  shows "\<exists>w' rec n. OpenWriter rotationBytes workers d = Inr (w', rec) \<and>
    list_all2 stored_as (stored (wr_disk w')) (take n src) \<and>
    (\<forall>s\<in>set src. tx_EndLSN s \<le> st_Flush (feedback (ps_watermark (cd_persister sys)) requested) \<longrightarrow> s \<in> set (take n src))"
proof -
  from cdc_inv_reach [OF assms(1,2)] obtain n where
    n: "log_ok src (cd_writer sys) n" "cd_watermark sys \<le> wr_durableEndLSN (cd_writer sys)"
    by (auto simp: cdc_inv_def)
  from n(1) obtain segs tail where "writer_inv (cd_writer sys) segs tail" by (auto simp: log_ok_def)
  from reopen_inv [OF this assms(3-6)] obtain w' rec where run: "OpenWriter rotationBytes workers d = Inr (w', rec)" by blast
  from restart_log_ok [OF assms(2) n(1) assms(3) run] obtain m where
    m: "log_ok src w' m" "wr_durableEndLSN (cd_writer sys) \<le> snd (source_lsns src m)" by metis
  have stored: "list_all2 stored_as (stored (wr_disk w')) (take m src)" and len: "m \<le> length src"
    using m(1) stored_log by (fastforce simp: log_ok_def)+
  have "s \<in> set (take m src)" if s: "s \<in> set src" "tx_EndLSN s \<le> cd_watermark sys" for s
  proof -
    from s(1) obtain i where i: "i < length src" "s = src ! i" by (auto simp: in_set_conv_nth)
    with s(2) n(2) m(2) have "tx_EndLSN (src ! i) \<le> snd (source_lsns src m)" by (meson order.trans)
    with source_end_iff [OF assms(2) len i(1)] i show ?thesis by (auto simp: in_set_conv_nth)
  qed
  with run stored show ?thesis by (auto simp: feedback_def)
qed

theorem acknowledged_survives_crash_witness:
  "\<exists>w' rec n. OpenWriter 0 4 (wr_disk synced_writer) = Inr (w', rec) \<and>
    list_all2 stored_as (stored (wr_disk w')) (take n [example_tx]) \<and> example_tx \<in> set (take n [example_tx])"
  using acknowledged_survives_crash [OF ex_cdc_reach ex_src(1), of _ 0 4 False]
  by (simp add: ex_cdc_def ex_persister_def ex_crash feedback_def ex_lsns)

end
