(* ===== verification/Maintenance.thy ===== *)
theory Maintenance
  imports SegmentReader
begin

text \<open>
  Segment maintenance: the catalog pruner of \<^verbatim>\<open>internal/cdc/maintenance.go\<close> and the scanning
  \<^verbatim>\<open>Prune\<close> of \<^verbatim>\<open>internal/cdc/reader.go\<close>, on the writer's catalog and directory, with
  failing system calls. The lemmas show that removing finalized segments other than the newest
  leaves the writer's invariant in place.
\<close>

record MaintFaults =
  mf_list :: bool
  mf_stat :: "nat option"
  mf_remove :: "nat option"
  mf_dirSync :: bool

section \<open>Removing files\<close>

text \<open>\<^verbatim>\<open>os.Remove\<close> on each path in order up to the first failure: the removed paths and whether it failed.\<close>

fun remove_files :: "nat option \<Rightarrow> Disk \<Rightarrow> string list \<Rightarrow> string list \<times> bool \<times> Disk" where
  "remove_files flt d [] = ([], False, d)"
| "remove_files flt d (p # ps) =
     (if flt = Some 0 \<or> map_of d p = None then ([], True, d)
      else case remove_files (map_option (\<lambda>k. k - 1) flt) (AList.delete p d) ps of
        (removed, failed, d) \<Rightarrow> (p # removed, failed, d))"

section \<open>The scanning prune\<close>

fun prune_candidates :: "Disk \<Rightarrow> LSN \<Rightarrow> segmentFile list \<Rightarrow> LSN \<times> LSN \<Rightarrow> string list res" where
  "prune_candidates d applied [] previous = Inr []"
| "prune_candidates d applied (s # ss) previous =
     (if sg_partial s then Inr []
      else rbind (scanSegment (file_content d (sg_path s)) False (fst previous) (snd previous)) (\<lambda>(scan, _).
        if sr_lastEndLSN scan < applied
        then rbind (prune_candidates d applied ss (sr_lastCommitLSN scan, sr_lastEndLSN scan)) (\<lambda>paths.
          Inr (sg_path s # paths))
        else Inr []))"

definition Prune :: "MaintFaults \<Rightarrow> Disk \<Rightarrow> LSN \<Rightarrow> (string list \<times> error option) \<times> Disk" where
  "Prune flt d applied =
     (if mf_list flt then (([], Some (Err ''list segments'')), d)
      else case prune_candidates d applied (listSegments d) (0, 0) of
        Inl e \<Rightarrow> (([], Some e), d)
      | Inr candidates \<Rightarrow>
          if length candidates \<le> 1 then (([], None), d)
          else (case remove_files (mf_remove flt) d (butlast candidates) of (removed, failed, d) \<Rightarrow>
            if failed then ((removed, Some (Err ''cdc: prune segment'')), d)
            else if mf_dirSync flt then ((removed, Some (Err ''sync directory'')), d)
            else ((removed, None), d)))"

section \<open>The catalog prune\<close>

definition revalidateCatalogedSegment :: "Disk \<Rightarrow> SegmentCatalog \<Rightarrow> nat \<Rightarrow> SegmentRange res" where
  "revalidateCatalogedSegment d finalized index =
     (if index \<ge> length finalized then Inl (Err ''cdc: catalog segment index is out of range'')
      else let (previousCommit, previousEnd) = (if index = 0 then (0, 0)
             else (sr_LastCommit (finalized ! (index - 1)), sr_LastEnd (finalized ! (index - 1))));
             segment = finalized ! index in
        rbind (scanSegment (file_content d (sr_Path segment)) False previousCommit previousEnd) (\<lambda>(scan, _).
          Inr \<lparr>sr_Path = sr_Path segment, sr_StartCommit = sr_StartCommit segment,
            sr_LastCommit = sr_lastCommitLSN scan, sr_LastEnd = sr_lastEndLSN scan, sr_ValidatedSize = sr_size scan\<rparr>))"

text \<open>
  The sizes of the candidates against the catalog: \<open>Inr None\<close> when all agree, \<open>Inr (Some i)\<close> for
  the first that changed.
\<close>

fun check_sizes :: "nat option \<Rightarrow> Disk \<Rightarrow> nat \<Rightarrow> SegmentRange list \<Rightarrow> nat option res" where
  "check_sizes flt d i [] = Inr None"
| "check_sizes flt d i (s # ss) =
     (if flt = Some i \<or> map_of d (sr_Path s) = None then Inl (Err ''stat cataloged segment'')
      else if length (file_content d (sr_Path s)) \<noteq> sr_ValidatedSize s then Inr (Some i)
      else check_sizes flt d (Suc i) ss)"

definition segment_names :: "Disk \<Rightarrow> string set" where
  "segment_names d = {n \<in> fst ` set d. parseSegmentName n \<noteq> None}"

text \<open>
  Removed paths, whether there is more to remove, and the error; the catalog and the directory
  after it. \<open>remove_candidates\<close> is the part behind the choice of the candidates.
\<close>

type_synonym PruneResult = "(string list \<times> bool \<times> error option) \<times> SegmentCatalog \<times> Disk"

definition remove_candidates :: "MaintFaults \<Rightarrow> SegmentCatalog \<Rightarrow> Disk \<Rightarrow> SegmentRange list \<Rightarrow> bool \<Rightarrow> PruneResult" where
  "remove_candidates flt c d candidates again = (case check_sizes (mf_stat flt) d 0 candidates of
     Inl e \<Rightarrow> (([], again, Some e), c, d)
   | Inr (Some i) \<Rightarrow> (case revalidateCatalogedSegment d c i of
       Inl e \<Rightarrow> (([], again, Some (Wrap ''cataloged segment changed after validation'' e)), c, d)
     | Inr refreshed \<Rightarrow> (case replaceFinalized refreshed None c of
         Inl e \<Rightarrow> (([], again, Some e), c, d)
       | Inr c \<Rightarrow> (([], True, None), c, d)))
   | Inr None \<Rightarrow> (case remove_files (mf_remove flt) d (map sr_Path candidates) of (removed, failed, d) \<Rightarrow>
       let removeErr = (if failed then Some (Err ''remove segment'') else None) in
       if removed = [] then (([], again, removeErr), c, d)
       else if mf_dirSync flt then ((removed, again, Some (Err ''sync directory'')), c, d)
       else ((removed, again, removeErr), removeFinalized removed c, d)))"

definition catalog_prune :: "MaintFaults \<Rightarrow> LSN \<Rightarrow> nat \<Rightarrow> SegmentCatalog \<Rightarrow> Disk \<Rightarrow> PruneResult" where
  "catalog_prune flt applied maxRemove c d =
     (if mf_list flt then (([], False, Some (Err ''read segment directory before catalog prune'')), c, d)
      else if \<not> (\<forall>s\<in>set c. sr_Path s \<in> segment_names d)
      then (([], False, Some (Err ''cataloged segment is missing from disk'')), c, d)
      else let eligible = length (takeWhile (\<lambda>s. sr_LastEnd s < applied) c) in
        if eligible \<le> 1 then (([], False, None), c, d)
        else let candidates = take (eligible - 1) c; again = length candidates > maxRemove in
          remove_candidates flt c d (if again then take maxRemove candidates else candidates) again)"

section \<open>The pruner\<close>

record SegmentPruner =
  pr_interval :: int
  pr_catalog :: bool
  pr_maxRemove :: nat
  pr_next :: "int option"
  pr_latest :: LSN
  pr_wake :: bool

text \<open>\<open>catalog\<close>: none, or whether its directory is the pruner's.\<close>

definition NewSegmentPruner :: "string \<Rightarrow> int \<Rightarrow> bool option \<Rightarrow> int \<Rightarrow> SegmentPruner res" where
  "NewSegmentPruner directory interval catalog maxRemove =
     (if directory = [] then Inl (Err ''cdc: segment pruner directory is required'')
      else if interval < 0 then Inl (Err ''cdc: segment prune interval must not be negative'')
      else if maxRemove < 0 then Inl (Err ''cdc: segment prune removal batch must not be negative'')
      else if catalog = Some False then Inl (Err ''cdc: segment pruner catalog directory does not match'')
      else Inr \<lparr>pr_interval = (if interval = 0 then 60000000000 else interval), pr_catalog = (catalog \<noteq> None),
        pr_maxRemove = (if maxRemove = 0 then 128 else nat maxRemove), pr_next = None, pr_latest = 0, pr_wake = False\<rparr>)"

type_synonym PrunerState = "SegmentPruner \<times> SegmentCatalog \<times> Disk"

definition pruneLocked :: "MaintFaults \<Rightarrow> LSN \<Rightarrow> int \<Rightarrow> PrunerState \<Rightarrow> (bool \<times> error option) \<times> PrunerState" where
  "pruneLocked flt applied now st = (case st of (p, c, d) \<Rightarrow>
     (case (if pr_catalog p
            then (case catalog_prune flt applied (pr_maxRemove p) c d of ((_, again, err), c, d) \<Rightarrow> (again, err, c, d))
            else (case Prune flt d applied of ((_, err), d) \<Rightarrow> (False, err, c, d))) of
        (again, Some e, c, d) \<Rightarrow> ((False, Some (Wrap ''cdc: prune applied segments'' e)), p, c, d)
      | (again, None, c, d) \<Rightarrow> ((again, None),
          p\<lparr>pr_next := (if again then None else Some (now + pr_interval p))\<rparr>, c, d)))"

definition OnProgress :: "MaintFaults \<Rightarrow> LSN \<Rightarrow> int \<Rightarrow> PrunerState \<Rightarrow> error option \<times> PrunerState" where
  "OnProgress flt applied now st = (case st of (p, c, d) \<Rightarrow>
     let p = p\<lparr>pr_latest := (if applied > pr_latest p then applied else pr_latest p)\<rparr> in
     if (case pr_next p of None \<Rightarrow> False | Some next \<Rightarrow> now < next) then (None, p, c, d)
     else (case pruneLocked flt (pr_latest p) now (p, c, d) of
       ((again, err), p, c, d) \<Rightarrow> (err, if again then p\<lparr>pr_wake := True\<rparr> else p, c, d)))"

text \<open>The batches of one wake-up of \<open>Run\<close>; \<open>None\<close> when the given clock readings run out.\<close>

fun run_batches :: "(MaintFaults \<times> int) list \<Rightarrow> PrunerState \<Rightarrow> (error option \<times> PrunerState) option" where
  "run_batches [] st = None"
| "run_batches ((flt, now) # rest) st = (case pruneLocked flt (pr_latest (fst st)) now st of
     ((again, Some e), st) \<Rightarrow> Some (Some e, st)
   | ((again, None), st) \<Rightarrow> if again then run_batches rest st else Some (None, st))"

section \<open>Removing segments keeps the writer's invariant\<close>

lemma chain_subseq:
  assumes "subseq ms' ms" "chain c e ms"
  shows "chain c e ms'"
  using assms
proof (induction arbitrary: c e rule: list_emb.induct)
  case (list_emb_Cons ms' ms m)
  then have "chain c e ms" by (cases m) (auto intro: chain_weaken)
  with list_emb_Cons show ?case by blast
next
  case (list_emb_Cons2 x y xs ys)
  then show ?case by (cases y) auto
qed simp

lemma segment_ok_subseq: "subseq ps qs \<Longrightarrow> segment_ok m qs \<Longrightarrow> segment_ok m ps"
  unfolding segment_ok_def using chain_subseq [OF subseq_map]
  by (auto simp: list_all_iff dest: list_emb_set)

lemma dir_lists_delete:
  assumes "dir_lists d files" "name_segment p = Some s"
  shows "dir_lists (AList.delete p d) (filter (\<lambda>f. f \<noteq> s) files)"
proof -
  have names: "fst ` set (AList.delete p d) = fst ` set d - {p}"
    using delete_keys [of p d] by (metis set_map set_removeAll)
  have uniq: "n = p" if "name_segment n = Some s" for n
    using name_segment_path [OF that] name_segment_path [OF assms(2)] by simp
  have fin: "{s. \<exists>n\<in>fst ` set d. name_segment n = Some s} = set files"
    using assms(1) by (simp add: dir_lists_def)
  have "{t. \<exists>n\<in>fst ` set d - {p}. name_segment n = Some t} = {t. \<exists>n\<in>fst ` set d. name_segment n = Some t} - {s}"
    by (rule partial_image_remove [where g = name_segment and p = p and t = s]) (fact uniq, fact assms(2))
  then have "{t. \<exists>n\<in>fst ` set (AList.delete p d). name_segment n = Some t} = set files - {s}"
    unfolding names fin .
  also have "set files - {s} = set (filter (\<lambda>f. f \<noteq> s) files)" by auto
  finally have "{t. \<exists>n\<in>fst ` set (AList.delete p d). name_segment n = Some t} = set (filter (\<lambda>f. f \<noteq> s) files)" .
  moreover have "sorted_wrt (<) (map segment_rank (filter (\<lambda>f. f \<noteq> s) files))"
    using assms(1) unfolding dir_lists_def sorted_wrt_map by (blast intro: sorted_wrt_filter)
  ultimately show ?thesis
    using assms(1) by (simp add: dir_lists_def distinct_delete)
qed

definition kept :: "string list \<Rightarrow> Segment list \<Rightarrow> Segment list" where
  "kept removed segs = filter (\<lambda>s. segment_name (fst s) \<notin> set removed) segs"

lemma dir_lists_remove:
  assumes "dir_lists d (map finalized_file segs @ files)" "\<forall>p\<in>set removed. \<exists>s\<in>set segs. p = segment_name (fst s)"
    and "\<forall>f\<in>set files. sg_partial f"
  shows "dir_lists (fold AList.delete removed d) (map finalized_file (kept removed segs) @ files)"
  using assms(2)
proof (induction removed rule: rev_induct)
  case Nil
  with assms(1) show ?case by (simp add: kept_def)
next
  case (snoc p removed)
  then obtain s where s: "s \<in> set segs" "p = segment_name (fst s)" by auto
  have "name_segment p = Some (finalized_file (fst s, []))" using s(2) name_segment_finalized by simp
  from dir_lists_delete [OF snoc.IH this] snoc.prems
  have "dir_lists (AList.delete p (fold AList.delete removed d))
      (filter (\<lambda>f. f \<noteq> finalized_file (fst s, [])) (map finalized_file (kept removed segs) @ files))" by simp
  moreover have "filter (\<lambda>f. f \<noteq> finalized_file (fst s, [])) (map finalized_file (kept removed segs)) =
      map finalized_file (kept (removed @ [p]) segs)"
    unfolding filter_map kept_def filter_filter by (rule arg_cong [where f = "map finalized_file"], rule filter_cong)
      (auto simp: s(2) finalized_file_def)
  moreover have "filter (\<lambda>f. f \<noteq> finalized_file (fst s, [])) files = files"
    using assms(3) by (auto simp: filter_id_conv)
  ultimately show ?case by simp
qed

lemma log_lsns_append: "ys \<noteq> [] \<Longrightarrow> log_lsns (xs @ ys) = payload_lsns (last ys)"
  by (metis append_butlast_last_id append.assoc log_lsns_snoc)

lemma kept_last:
  assumes "segs \<noteq> []" "segment_name (fst (last segs)) \<notin> set removed" "snd (last segs) \<noteq> []"
  shows "log_lsns (seg_payloads (kept removed segs) @ qs) = log_lsns (seg_payloads segs @ qs)"
proof -
  have l: "segs = butlast segs @ [last segs]" using assms(1) by simp
  have "kept removed segs = kept removed (butlast segs) @ [last segs]"
    unfolding kept_def using assms(2) by (subst l, subst filter_append) simp
  then have k: "seg_payloads (kept removed segs) = seg_payloads (kept removed (butlast segs)) @ snd (last segs)"
    by (simp add: seg_payloads_def)
  have s: "seg_payloads segs = seg_payloads (butlast segs) @ snd (last segs)"
    by (subst l) (simp add: seg_payloads_def)
  show ?thesis unfolding k s append.assoc using assms(3) by (simp add: log_lsns_append)
qed

lemma seg_payloads_kept: "subseq (seg_payloads (kept removed segs)) (seg_payloads segs)"
  by (induction segs) (auto simp: kept_def seg_payloads_def intro: list_emb_append_mono list_emb_append2)

lemma fold_delete_other: "p \<notin> set removed \<Longrightarrow> map_of (fold AList.delete removed d) p = map_of d p"
  by (induction removed arbitrary: d) (auto simp: AList.delete_conv')

text \<open>The ranges of the catalog, for segments that are not empty, do not depend on the position.\<close>

definition range_of :: "Segment \<Rightarrow> SegmentRange" where
  "range_of s = \<lparr>sr_Path = segment_name (fst s), sr_StartCommit = fst s,
     sr_LastCommit = fst (payload_lsns (last (snd s))), sr_LastEnd = snd (payload_lsns (last (snd s))),
     sr_ValidatedSize = length (segment_bytes (snd s))\<rparr>"

lemma last_lsns_last: "ps \<noteq> [] \<Longrightarrow> last_lsns m (map payload_lsns ps) = payload_lsns (last ps)"
  by (simp add: last_lsns_def last_map)

lemma ranges_from_map: "\<forall>s\<in>set segs. snd s \<noteq> [] \<Longrightarrow> ranges_from m segs = map range_of segs"
  by (induction segs arbitrary: m) (auto simp: range_of_def last_lsns_last Let_def)

definition newest_kept :: "string list \<Rightarrow> Segment list \<Rightarrow> bool" where
  "newest_kept removed segs \<longleftrightarrow> (\<forall>p\<in>set removed. \<exists>s\<in>set segs. p = segment_name (fst s)) \<and>
     (segs \<noteq> [] \<longrightarrow> segment_name (fst (last segs)) \<notin> set removed)"

lemma remove_inv:
  assumes inv: "writer_inv w segs tail" and removed: "newest_kept removed segs"
  shows "writer_inv (w\<lparr>wr_disk := fold AList.delete removed (wr_disk w),
    wr_catalog := removeFinalized removed (wr_catalog w)\<rparr>) (kept removed segs) tail"
proof (cases "segs = []")
  case True
  then have "removed = []" using removed by (cases removed) (auto simp: newest_kept_def)
  with True inv show ?thesis
    by (simp add: kept_def removeFinalized_def)
next
  case False
  have nonempty: "\<forall>s\<in>set segs. snd s \<noteq> []" using inv by (simp add: writer_inv_def)
  then have last: "log_lsns (seg_payloads (kept removed segs) @ qs) = log_lsns (seg_payloads segs @ qs)" for qs
    using False removed by (intro kept_last) (simp_all add: newest_kept_def)
  have files: "dir_lists (fold AList.delete removed (wr_disk w)) (map finalized_file (kept removed segs) @ tail_files tail)"
    using inv removed by (intro dir_lists_remove) (cases tail; auto simp: writer_inv_def newest_kept_def partial_file_def)+
  have sub: "set (kept removed segs) \<subseteq> set segs" by (auto simp: kept_def)
  have stored: "seg_stored (fold AList.delete removed (wr_disk w)) s" if "s \<in> set (kept removed segs)" for s
    using that inv by (auto simp: kept_def seg_stored_def fold_delete_other writer_inv_def)
  have tail: "tail_stored (w\<lparr>wr_disk := fold AList.delete removed (wr_disk w),
      wr_catalog := removeFinalized removed (wr_catalog w)\<rparr>) tail"
  proof (cases tail)
    case (Some t)
    obtain start dur undur where t: "t = (start, dur, undur)" by (cases t)
    have "partial_name start \<notin> set removed" using removed by (auto simp: newest_kept_def)
    with inv Some t show ?thesis by (auto simp: writer_inv_def fold_delete_other)
  qed (use inv in \<open>simp add: writer_inv_def\<close>)
  have ok: "segment_ok (0, 0) (writer_log (kept removed segs) tail)"
    using inv segment_ok_subseq [OF list_emb_append_mono [OF seg_payloads_kept subseq_order.refl]]
    unfolding writer_inv_def writer_log_def by blast
  have "subseq (removeFinalized removed (wr_catalog w)) (removeFinalized removed (ranges_from (0, 0) segs))"
    using inv unfolding removeFinalized_def by (intro subseq_filter) (simp add: writer_inv_def)
  also have "removeFinalized removed (ranges_from (0, 0) segs) = ranges_from (0, 0) (kept removed segs)"
    using nonempty sub unfolding removeFinalized_def
    by (simp add: ranges_from_map subset_iff filter_map comp_def kept_def range_of_def)
  finally have catalog: "subseq (removeFinalized removed (wr_catalog w)) (ranges_from (0, 0) (kept removed segs))" .
  have lsns: "log_lsns (writer_log (kept removed segs) tail) = log_lsns (writer_log segs tail)"
    "log_lsns (durable_log (kept removed segs) tail) = log_lsns (durable_log segs tail)"
    "log_lsns (seg_payloads (kept removed segs)) = log_lsns (seg_payloads segs)"
    using last last [of "[]"] by (simp_all add: writer_log_def durable_log_def)
  show ?thesis
    using inv files stored tail ok catalog sub lsns unfolding writer_inv_def by auto
qed

section \<open>What the prunes remove\<close>

definition seg_end :: "Segment \<Rightarrow> LSN" where
  "seg_end s = snd (payload_lsns (last (snd s)))"

text \<open>A removal that keeps the newest segment and every segment that reaches \<open>applied\<close>.\<close>

definition safe_removal :: "LSN \<Rightarrow> string list \<Rightarrow> Segment list \<Rightarrow> bool" where
  "safe_removal applied removed segs \<longleftrightarrow> newest_kept removed segs \<and>
     (\<forall>s\<in>set segs. segment_name (fst s) \<in> set removed \<longrightarrow> seg_end s < applied)"

lemma remove_files_spec:
  "remove_files flt d ps = (removed, failed, d') \<Longrightarrow> d' = fold AList.delete removed d \<and> prefix removed ps"
  by (induction ps arbitrary: flt d removed) (auto split: if_splits prod.splits)

lemma safe_removal_prefix: "prefix removed ps \<Longrightarrow> safe_removal applied ps segs \<Longrightarrow> safe_removal applied removed segs"
  unfolding safe_removal_def newest_kept_def by (meson set_mono_prefix subsetD)

lemma safe_removal_Nil: "safe_removal applied [] segs"
  by (simp add: safe_removal_def newest_kept_def)

lemma writer_segs:
  assumes "writer_inv w segs tail"
  shows "sorted_wrt (<) (map fst segs)" "\<forall>s\<in>set segs. snd s \<noteq> []" "catalog_ok (wr_catalog w)"
    "set (wr_catalog w) \<subseteq> range_of ` set segs" "segment_ok (0, 0) (seg_payloads segs)"
proof -
  show sorted: "sorted_wrt (<) (map fst segs)" and ne: "\<forall>s\<in>set segs. snd s \<noteq> []"
    and ok: "segment_ok (0, 0) (seg_payloads segs)"
    using assms starts_sorted by (auto simp: writer_inv_def writer_log_def segment_ok_append)
  have sub: "subseq (wr_catalog w) (ranges_from (0, 0) segs)" using assms by (simp add: writer_inv_def)
  from ranges_catalog_ok [OF sorted ok] ne catalog_ok_subseq [OF sub] show "catalog_ok (wr_catalog w)"
    by (simp add: list_all_iff)
  have "set (wr_catalog w) \<subseteq> set (ranges_from (0, 0) segs)" by (auto elim: list_emb_set [OF sub])
  then show "set (wr_catalog w) \<subseteq> range_of ` set segs" using ne by (simp add: ranges_from_map)
qed

lemma starts_le_last:
  "sorted_wrt (<) (map fst segs) \<Longrightarrow> s \<in> set segs \<Longrightarrow> fst s \<le> fst (last segs :: LSN \<times> 'a)"
proof (induction segs)
  case (Cons t segs)
  show ?case
  proof (cases "segs = []")
    case False
    then have "fst t \<le> fst (last segs)" using Cons.prems(1) by (auto intro: less_imp_le)
    with Cons False show ?thesis by auto
  qed (use Cons.prems in simp)
qed simp

lemma starts_eq:
  "sorted_wrt (<) (map fst segs) \<Longrightarrow> s \<in> set segs \<Longrightarrow> t \<in> set segs \<Longrightarrow> fst s = fst t \<Longrightarrow> s = (t :: LSN \<times> 'a)"
  by (induction segs) force+

lemma candidates_safe:
  assumes inv: "writer_inv w segs tail" and e: "e = length (takeWhile (\<lambda>s. sr_LastEnd s < applied) (wr_catalog w))"
    and k: "k < e"
  shows "safe_removal applied (map sr_Path (take k (wr_catalog w))) segs"
proof -
  let ?c = "wr_catalog w"
  note segs = writer_segs [OF inv]
  have len: "e \<le> length ?c" unfolding e by (rule length_takeWhile_le)
  have cand: "\<exists>s\<in>set segs. r = range_of s \<and> seg_end s < applied \<and> fst s < fst (last segs)" if r: "r \<in> set (take k ?c)" for r
  proof -
    from r obtain i where i: "i < k" "r = ?c ! i" using len k by (auto simp: in_set_conv_nth)
    have "r \<in> set ?c" using r by (rule in_set_takeD)
    then obtain s where s: "s \<in> set segs" "r = range_of s" using segs(4) by auto
    have "sr_LastEnd r < applied"
      using i k e len nth_mem [of i "takeWhile (\<lambda>s. sr_LastEnd s < applied) ?c"] takeWhile_nth [of i _ ?c]
      by (metis (no_types, lifting) order.strict_trans set_takeWhileD)
    moreover have "range_less (?c ! i) (?c ! (e - 1))"
      using segs(3) i(1) k len unfolding catalog_ok_def sorted_wrt_iff_nth_less by simp
    moreover have "?c ! (e - 1) \<in> set ?c" using k len by simp
    then obtain s' where "s' \<in> set segs" "?c ! (e - 1) = range_of s'" using segs(4) by blast
    then have "sr_StartCommit (?c ! (e - 1)) \<le> fst (last segs)"
      using starts_le_last [OF segs(1), of s'] by (simp add: range_of_def)
    ultimately have "sr_StartCommit r < fst (last segs)" "sr_LastEnd r < applied"
      using i(2) by (auto simp: range_less_def)
    then show ?thesis
      using s by (intro bexI [of _ s]) (simp_all add: range_of_def seg_end_def)
  qed
  have paths: "p \<in> set (map sr_Path (take k ?c)) \<Longrightarrow> \<exists>s\<in>set segs. p = segment_name (fst s) \<and> seg_end s < applied \<and> fst s < fst (last segs)" for p
  proof -
    assume "p \<in> set (map sr_Path (take k ?c))"
    then obtain r where r: "r \<in> set (take k ?c)" "p = sr_Path r" unfolding set_map by blast
    from cand [OF r(1)] obtain s where s: "s \<in> set segs" "r = range_of s" "seg_end s < applied"
      "fst s < fst (last segs)" by blast
    have "p = segment_name (fst s)" unfolding r(2) s(2) by (simp add: range_of_def)
    with s show ?thesis by blast
  qed
  show ?thesis
    unfolding safe_removal_def newest_kept_def
  proof (intro conjI ballI impI)
    fix p assume "p \<in> set (map sr_Path (take k ?c))"
    with paths show "\<exists>s\<in>set segs. p = segment_name (fst s)" by blast
  next
    show "segment_name (fst (last segs)) \<notin> set (map sr_Path (take k ?c))"
      using paths [of "segment_name (fst (last segs))"] by (metis order.irrefl segment_name_inj)
  next
    fix s assume "s \<in> set segs" "segment_name (fst s) \<in> set (map sr_Path (take k ?c))"
    with paths [of "segment_name (fst s)"] obtain t where "t \<in> set segs" "fst s = fst t" "seg_end t < applied"
      by (metis segment_name_inj)
    with starts_eq [OF segs(1)] \<open>s \<in> set segs\<close> show "seg_end s < applied" by blast
  qed
qed

lemma check_sizes_agree:
  assumes "\<forall>s\<in>set ss. length (file_content d (sr_Path s)) = sr_ValidatedSize s"
  shows "check_sizes flt d i ss \<noteq> Inr (Some j)"
  using assms by (induction ss arbitrary: i) auto

lemma catalog_sizes:
  assumes "writer_inv w segs tail" "r \<in> set (wr_catalog w)"
  shows "length (file_content (wr_disk w) (sr_Path r)) = sr_ValidatedSize r"
proof -
  from writer_segs(4) [OF assms(1)] assms(2) obtain s where "s \<in> set segs" "r = range_of s" by blast
  with assms(1) show ?thesis by (auto simp: writer_inv_def seg_stored_def file_content_def range_of_def)
qed

text \<open>The outcome of a prune from a writer's directory and catalog; \<open>synced\<close>: the directory could be synced.\<close>

definition prune_outcome :: "LSN \<Rightarrow> Segment list \<Rightarrow> Writer \<Rightarrow> bool \<Rightarrow> SegmentCatalog \<Rightarrow> Disk \<Rightarrow> bool" where
  "prune_outcome applied segs w synced c d \<longleftrightarrow> (\<exists>removed. safe_removal applied removed segs \<and>
     d = fold AList.delete removed (wr_disk w) \<and>
     (c = removeFinalized removed (wr_catalog w) \<or> c = wr_catalog w \<and> (synced \<longrightarrow> removed = [])))"

lemma removeFinalized_Nil [simp]: "removeFinalized [] c = c"
  by (simp add: removeFinalized_def)

lemma unchanged_outcome: "prune_outcome applied segs w synced (wr_catalog w) (wr_disk w)"
  unfolding prune_outcome_def using safe_removal_Nil by (intro exI [of _ "[]"]) auto

lemma remove_candidates_outcome:
  assumes inv: "writer_inv w segs tail" and safe: "safe_removal applied (map sr_Path cs) segs" and cs: "set cs \<subseteq> set (wr_catalog w)"
    and run: "remove_candidates flt (wr_catalog w) (wr_disk w) cs again = ((removed, again', err), c, d)"
  shows "prune_outcome applied segs w (\<not> mf_dirSync flt) c d"
proof -
  have "check_sizes (mf_stat flt) (wr_disk w) 0 cs \<noteq> Inr (Some i)" for i
    by (rule check_sizes_agree) (use catalog_sizes [OF inv] cs in auto)
  then consider e where "check_sizes (mf_stat flt) (wr_disk w) 0 cs = Inl e"
    | "check_sizes (mf_stat flt) (wr_disk w) 0 cs = Inr None"
    by (metis not_None_eq obj_sumE)
  then show ?thesis
  proof cases
    case 1
    with run show ?thesis by (auto simp: remove_candidates_def intro: unchanged_outcome)
  next
    case 2
    obtain removed' failed d' where r: "remove_files (mf_remove flt) (wr_disk w) (map sr_Path cs) = (removed', failed, d')"
      by (metis surj_pair)
    with run 2 have "d = d'" "c = removeFinalized removed' (wr_catalog w) \<or>
        c = wr_catalog w \<and> (\<not> mf_dirSync flt \<longrightarrow> removed' = [])"
      by (auto simp: remove_candidates_def Let_def split: if_splits)
    with remove_files_spec [OF r] safe_removal_prefix [OF _ safe] show ?thesis
      unfolding prune_outcome_def by blast
  qed
qed

lemma catalog_prune_outcome:
  assumes inv: "writer_inv w segs tail"
    and run: "catalog_prune flt applied maxRemove (wr_catalog w) (wr_disk w) = ((removed, again, err), c, d)"
  shows "prune_outcome applied segs w (\<not> mf_dirSync flt) c d"
proof (cases "c = wr_catalog w \<and> d = wr_disk w")
  case True
  then show ?thesis by (simp add: unchanged_outcome)
next
  case False
  let ?e = "length (takeWhile (\<lambda>s. sr_LastEnd s < applied) (wr_catalog w))"
  let ?again = "length (take (?e - 1) (wr_catalog w)) > maxRemove"
  define cs where "cs = (if ?again then take maxRemove (take (?e - 1) (wr_catalog w)) else take (?e - 1) (wr_catalog w))"
  have go: "\<not> mf_list flt" "\<forall>s\<in>set (wr_catalog w). sr_Path s \<in> segment_names (wr_disk w)" "\<not> ?e \<le> 1"
    using False run by (auto simp: catalog_prune_def Let_def split: if_splits)
  have run': "remove_candidates flt (wr_catalog w) (wr_disk w) cs ?again = ((removed, again, err), c, d)"
    using run unfolding catalog_prune_def Let_def cs_def if_not_P [OF go(1)] if_not_P [OF go(3)]
      if_not_P [OF iffD2 [OF not_not go(2)]] .
  define k where "k = (if ?again then min maxRemove (?e - 1) else ?e - 1)"
  have k: "cs = take k (wr_catalog w)" "k < ?e"
    using go(3) unfolding cs_def k_def by (auto simp: min_def not_le)
  from candidates_safe [OF inv refl k(2)] have "safe_removal applied (map sr_Path cs) segs" unfolding k(1) .
  moreover have "set cs \<subseteq> set (wr_catalog w)" unfolding k(1) by (rule set_take_subset)
  ultimately show ?thesis
    using run' by (rule remove_candidates_outcome [OF inv])
qed


lemma prune_candidates_valid:
  assumes "\<forall>s\<in>set segs. snd s \<noteq> [] \<and> seg_stored d s" "segment_ok m (seg_payloads segs)" "\<forall>f\<in>set files. sg_partial f"
  shows "prune_candidates d applied (map finalized_file segs @ files) m =
    Inr (map (segment_name \<circ> fst) (takeWhile (\<lambda>s. seg_end s < applied) segs))"
  using assms(1,2)
proof (induction segs arbitrary: m)
  case Nil
  with assms(3) show ?case by (cases files) auto
next
  case (Cons s segs)
  have ok: "segment_ok (fst m, snd m) (snd s)" "segment_ok (last_lsns m (map payload_lsns (snd s))) (seg_payloads segs)"
    using Cons.prems(2) by (simp_all add: seg_payloads_def segment_ok_append)
  have path: "sg_path (finalized_file s) = segment_name (fst s)" "\<not> sg_partial (finalized_file s)"
    by (simp_all add: finalized_file_def)
  have content: "file_content d (segment_name (fst s)) = segment_bytes (snd s)"
    using Cons.prems(1) by (simp add: seg_stored_def file_content_def)
  have "sr_last (scan_accepts (snd s) (scan_start (fst m) (snd m))) = payload_lsns (last (snd s))"
    using Cons.prems(1) by (simp add: sr_last_accepts last_lsns_last)
  then have lsns: "sr_lastCommitLSN (scan_accepts (snd s) (scan_start (fst m) (snd m))) = fst (payload_lsns (last (snd s)))"
    "sr_lastEndLSN (scan_accepts (snd s) (scan_start (fst m) (snd m))) = seg_end s"
    by (simp_all add: sr_last_def seg_end_def prod_eq_iff)
  have m': "last_lsns m (map payload_lsns (snd s)) = (fst (payload_lsns (last (snd s))), seg_end s)"
    using Cons.prems(1) by (simp add: last_lsns_last seg_end_def)
  from Cons.IH [OF _ ok(2)] Cons.prems(1) scanSegment_valid [OF ok(1)] show ?case
    by (simp add: path content lsns m')
qed

lemma names_safe:
  assumes inv: "writer_inv w segs tail" and k: "k < length (takeWhile (\<lambda>s. seg_end s < applied) segs)"
  shows "safe_removal applied (map (segment_name \<circ> fst) (take k segs)) segs"
proof -
  note segs = writer_segs [OF inv]
  have len: "length (takeWhile (\<lambda>s. seg_end s < applied) segs) \<le> length segs" by (rule length_takeWhile_le)
  have paths: "\<exists>i<k. p = segment_name (fst (segs ! i))" if "p \<in> set (map (segment_name \<circ> fst) (take k segs))" for p
    using that k len by (fastforce simp: in_set_conv_nth)
  have nth: "seg_end (segs ! i) < applied" if "i < k" for i
    using that k nth_mem [of i "takeWhile (\<lambda>s. seg_end s < applied) segs"] takeWhile_nth [of i _ segs]
    by (metis (no_types, lifting) order.strict_trans set_takeWhileD)
  have last: "fst (segs ! i) < fst (last segs)" if "i < k" for i
  proof -
    have "fst (segs ! i) < fst (segs ! k)"
      using segs(1) that k len by (simp add: sorted_wrt_iff_nth_less)
    also have "fst (segs ! k) \<le> fst (last segs)"
      using k len by (intro starts_le_last [OF segs(1)] nth_mem) simp
    finally show ?thesis .
  qed
  show ?thesis
    unfolding safe_removal_def newest_kept_def
  proof (intro conjI ballI impI)
    fix p assume "p \<in> set (map (segment_name \<circ> fst) (take k segs))"
    with paths k len show "\<exists>s\<in>set segs. p = segment_name (fst s)" by (meson nth_mem order.strict_trans order.strict_trans2)
  next
    show "segment_name (fst (last segs)) \<notin> set (map (segment_name \<circ> fst) (take k segs))"
      using paths [of "segment_name (fst (last segs))"] last by (metis order.irrefl segment_name_inj)
  next
    fix s assume s: "s \<in> set segs" "segment_name (fst s) \<in> set (map (segment_name \<circ> fst) (take k segs))"
    with paths [of "segment_name (fst s)"] obtain i where i: "i < k" "fst s = fst (segs ! i)"
      by (metis segment_name_inj)
    have "segs ! i \<in> set segs" using i(1) k len by simp
    with starts_eq [OF segs(1) s(1) _ i(2)] nth [OF i(1)] show "seg_end s < applied" by simp
  qed
qed

lemma Prune_outcome:
  assumes inv: "writer_inv w segs tail" and run: "Prune flt (wr_disk w) applied = ((removed, err), d)"
  shows "prune_outcome applied segs w False (wr_catalog w) d"
proof (cases "d = wr_disk w")
  case True
  then show ?thesis by (simp add: unchanged_outcome)
next
  case False
  let ?cs = "takeWhile (\<lambda>s. seg_end s < applied) segs"
  have "listSegments (wr_disk w) = map finalized_file segs @ tail_files tail"
    using inv by (auto simp: writer_inv_def intro: dir_lists_listSegments)
  moreover have "segment_ok (0, 0) (seg_payloads segs)" using writer_segs(5) [OF inv] .
  moreover have "\<forall>f\<in>set (tail_files tail). sg_partial f" by (cases tail) (auto simp: partial_file_def)
  ultimately have cand: "prune_candidates (wr_disk w) applied (listSegments (wr_disk w)) (0, 0) =
      Inr (map (segment_name \<circ> fst) ?cs)"
    using inv prune_candidates_valid [of segs "wr_disk w"] by (simp add: writer_inv_def)
  obtain removed' failed d' where r:
    "remove_files (mf_remove flt) (wr_disk w) (butlast (map (segment_name \<circ> fst) ?cs)) = (removed', failed, d')"
    by (metis surj_pair)
  have k: "length ?cs > 1" and d: "d = d'"
    using run False cand r by (auto simp: Prune_def split: if_splits)
  define n where "n = length ?cs"
  have "butlast ?cs = take (n - 1) (take n segs)"
    unfolding n_def butlast_conv_take takeWhile_eq_take [symmetric] ..
  then have names: "butlast (map (segment_name \<circ> fst) ?cs) = map (segment_name \<circ> fst) (take (n - 1) segs)"
    by (simp only: map_butlast [symmetric] take_take min_def) simp
  have "safe_removal applied (map (segment_name \<circ> fst) (take (n - 1) segs)) segs"
    using k unfolding n_def by (intro names_safe [OF inv]) simp
  with remove_files_spec [OF r] safe_removal_prefix have "safe_removal applied removed' segs" "d' = fold AList.delete removed' (wr_disk w)"
    unfolding names by blast+
  with d show ?thesis
    unfolding prune_outcome_def by blast
qed

lemma pruneLocked_outcome:
  assumes inv: "writer_inv w segs tail"
    and run: "pruneLocked flt applied now (p, wr_catalog w, wr_disk w) = (r, p', c, d)"
  shows "prune_outcome applied segs w (pr_catalog p \<and> \<not> mf_dirSync flt) c d"
proof (cases "pr_catalog p")
  case True
  obtain removed again err c' d' where c:
    "catalog_prune flt applied (pr_maxRemove p) (wr_catalog w) (wr_disk w) = ((removed, again, err), c', d')"
    by (metis surj_pair)
  with run True have "c = c'" "d = d'" by (auto simp: pruneLocked_def split: option.splits)
  with catalog_prune_outcome [OF inv c] True show ?thesis by simp
next
  case False
  obtain removed err d' where c: "Prune flt (wr_disk w) applied = ((removed, err), d')" by (metis surj_pair)
  with run False have "c = wr_catalog w" "d = d'" by (auto simp: pruneLocked_def split: option.splits)
  with Prune_outcome [OF inv c] False show ?thesis by simp
qed

end
