(* ===== verification/MaintenanceProps.thy ===== *)
theory MaintenanceProps
  imports Maintenance
begin

text \<open>
  The archive under appends, syncs, crashes and prunes in any order, with failing system calls,
  and what a prune may not take from a reader or from recovery.
\<close>

section \<open>Archives with a pruner\<close>

text \<open>
  The writer's steps and, between them, the pruner's batches. A prune whose directory sync failed
  leaves its removed files in the catalog; the archive then goes on only through a restart, which
  rebuilds the catalog, as it does after the scanning prune, which has no catalog.
\<close>

inductive archive_reach :: "Writer \<Rightarrow> bool" where
  arch_open: "OpenWriter rotationBytes workers [] = Inr (w, rec) \<Longrightarrow> archive_reach w"
| arch_append: "archive_reach w \<Longrightarrow> retry_order w tx \<Longrightarrow> safe_faults flt \<Longrightarrow>
    AppendFrame flt w (Some tx) = (r, tx', w') \<Longrightarrow> archive_reach w'"
| arch_sync: "archive_reach w \<Longrightarrow> Sync flt w = (r, w') \<Longrightarrow> archive_reach w'"
| arch_crash: "archive_reach w \<Longrightarrow> crash_torn (wr_disk w) d \<Longrightarrow>
    OpenWriter rotationBytes workers d = Inr (w', rec) \<Longrightarrow> archive_reach w'"
| arch_prune: "archive_reach w \<Longrightarrow> pr_catalog p \<Longrightarrow> \<not> mf_dirSync flt \<Longrightarrow>
    OnProgress flt applied now (p, wr_catalog w, wr_disk w) = (r, p', c, d) \<Longrightarrow>
    archive_reach (w\<lparr>wr_disk := d, wr_catalog := c\<rparr>)"
| arch_prune_crash: "archive_reach w \<Longrightarrow>
    OnProgress flt applied now (p, wr_catalog w, wr_disk w) = (r, p', c, d) \<Longrightarrow> crash_torn d d' \<Longrightarrow>
    OpenWriter rotationBytes workers d' = Inr (w', rec) \<Longrightarrow> archive_reach w'"

text \<open>The position a call of \<open>OnProgress\<close> prunes to: the greatest applied position so far.\<close>

definition prune_position :: "SegmentPruner \<Rightarrow> LSN \<Rightarrow> LSN" where
  "prune_position p applied = (if applied > pr_latest p then applied else pr_latest p)"

lemma OnProgress_outcome:
  assumes inv: "writer_inv w segs tail"
    and run: "OnProgress flt applied now (p, wr_catalog w, wr_disk w) = (r, p', c, d)"
  shows "prune_outcome (prune_position p applied) segs w (pr_catalog p \<and> \<not> mf_dirSync flt) c d"
proof (cases "case pr_next p of None \<Rightarrow> False | Some next \<Rightarrow> now < next")
  case True
  with run have "c = wr_catalog w" "d = wr_disk w" by (auto simp: OnProgress_def)
  then show ?thesis by (simp add: unchanged_outcome)
next
  case False
  let ?p = "p\<lparr>pr_latest := prune_position p applied\<rparr>"
  obtain again err p2 c2 d2 where c:
    "pruneLocked flt (prune_position p applied) now (?p, wr_catalog w, wr_disk w) = ((again, err), p2, c2, d2)"
    by (metis surj_pair)
  with run False have "c = c2" "d = d2"
    by (auto simp: OnProgress_def prune_position_def Let_def)
  with pruneLocked_outcome [OF inv c] show ?thesis by simp
qed

lemma outcome_inv:
  assumes "writer_inv w segs tail" "prune_outcome applied segs w synced c d"
  shows "\<exists>removed c'. safe_removal applied removed segs \<and> d = fold AList.delete removed (wr_disk w) \<and>
    writer_inv (w\<lparr>wr_disk := d, wr_catalog := c'\<rparr>) (kept removed segs) tail \<and> (synced \<longrightarrow> c' = c)"
proof -
  from assms(2) obtain removed where r: "safe_removal applied removed segs" "d = fold AList.delete removed (wr_disk w)"
      "c = removeFinalized removed (wr_catalog w) \<or> c = wr_catalog w \<and> (synced \<longrightarrow> removed = [])"
    unfolding prune_outcome_def by blast
  from remove_inv [OF assms(1), of removed] r show ?thesis
    by (intro exI [of _ removed] exI [of _ "removeFinalized removed (wr_catalog w)"]) (auto simp: safe_removal_def)
qed

lemma archive_inv: "archive_reach w \<Longrightarrow> (\<exists>segs tail. writer_inv w segs tail) \<and> \<not> wr_closed w"
proof (induction rule: archive_reach.induct)
  case (arch_open rotationBytes workers w rec)
  then show ?case using recover_empty by blast
next
  case (arch_append w tx flt r tx' w')
  then obtain segs tail where inv: "writer_inv w segs tail" "\<not> wr_closed w" by blast
  from AppendFrame_inv [OF inv _ arch_append(3,4)] retry_order_tail [OF _ arch_append(2)] inv(1)
  obtain segs' tail' where "writer_inv w' segs' tail'" by blast
  with AppendFrame_closed [OF arch_append(4)] inv(2) show ?case by blast
next
  case (arch_sync w flt r w')
  then show ?case using Sync_inv by blast
next
  case (arch_crash w d rotationBytes workers w' rec)
  then obtain segs tail where "writer_inv w segs tail" by blast
  from reopen_inv [OF this arch_crash(2)] OpenWriter_config [OF arch_crash(3)] arch_crash(3)
  show ?case by fastforce
next
  case (arch_prune w p flt applied now r p' c d)
  then obtain segs tail where inv: "writer_inv w segs tail" "\<not> wr_closed w" by blast
  from outcome_inv [OF inv(1) OnProgress_outcome [OF inv(1) arch_prune(4)]] arch_prune(2,3) inv(2)
  show ?case by auto
next
  case (arch_prune_crash w flt applied now p r p' c d d' rotationBytes workers w' rec)
  then obtain segs tail where inv: "writer_inv w segs tail" by blast
  from outcome_inv [OF inv OnProgress_outcome [OF inv arch_prune_crash(2)]] obtain removed c' where
    "writer_inv (w\<lparr>wr_disk := d, wr_catalog := c'\<rparr>) (kept removed segs) tail" by blast
  from reopen_inv [OF this] arch_prune_crash(3,4) OpenWriter_config [OF arch_prune_crash(4)] show ?case by fastforce
qed

section \<open>What a prune leaves\<close>

lemma payload_below:
  assumes "segment_ok m ps" "p \<in> set ps"
  shows "snd (payload_lsns p) \<le> snd (payload_lsns (last ps))"
  using assms
proof (induction ps arbitrary: m)
  case (Cons q ps)
  show ?case
  proof (cases "ps = []")
    case False
    have ok: "segment_ok (payload_lsns q) ps" using Cons.prems(1) by (cases "payload_lsns q") (simp add: segment_ok_def)
    have "last ps \<in> set ps" using False by simp
    have "snd (payload_lsns q) \<le> snd (payload_lsns (last ps))"
      using segment_ok_advances [OF ok False] by (simp add: last_lsns_last [OF False] order.strict_implies_order)
    with Cons.IH [OF ok] Cons.prems(2) False show ?thesis by auto
  qed (use Cons.prems in simp)
qed simp

lemma kept_wanted:
  assumes "segment_ok m (seg_payloads segs)" "\<forall>s\<in>set segs. segment_name (fst s) \<in> set removed \<longrightarrow> seg_end s < applied"
  shows "filter (\<lambda>p. applied \<le> snd (payload_lsns p)) (seg_payloads (kept removed segs)) =
    filter (\<lambda>p. applied \<le> snd (payload_lsns p)) (seg_payloads segs)"
  using assms
proof (induction segs arbitrary: m)
  case (Cons s segs)
  have ok: "segment_ok m (snd s)" "segment_ok (last_lsns m (map payload_lsns (snd s))) (seg_payloads segs)"
    using Cons.prems(1) by (simp_all add: seg_payloads_def segment_ok_append)
  have "filter (\<lambda>p. applied \<le> snd (payload_lsns p)) (snd s) = []" if "segment_name (fst s) \<in> set removed"
    using payload_below [OF ok(1)] Cons.prems(2) that
    by (auto simp: filter_empty_conv seg_end_def not_le) (meson le_less_trans)
  with Cons.IH [OF ok(2)] Cons.prems(2) show ?case
    by (auto simp: kept_def seg_payloads_def)
qed (simp add: kept_def)

lemma prune_stored:
  assumes inv: "writer_inv w segs tail" and safe: "safe_removal applied removed segs"
    and inv': "writer_inv (w\<lparr>wr_disk := d, wr_catalog := c\<rparr>) (kept removed segs) tail"
  shows "subseq (stored d) (stored (wr_disk w))"
    "filter (\<lambda>p. applied \<le> snd (payload_lsns p)) (stored d) = filter (\<lambda>p. applied \<le> snd (payload_lsns p)) (stored (wr_disk w))"
    "log_lsns (stored d) = log_lsns (stored (wr_disk w))"
proof -
  have stored: "stored (wr_disk w) = writer_log segs tail" "stored d = writer_log (kept removed segs) tail"
    using stored_log [OF inv] stored_log [OF inv'] by simp_all
  show "subseq (stored d) (stored (wr_disk w))"
    unfolding stored writer_log_def by (intro list_emb_append_mono seg_payloads_kept subseq_order.refl)
  show "filter (\<lambda>p. applied \<le> snd (payload_lsns p)) (stored d) = filter (\<lambda>p. applied \<le> snd (payload_lsns p)) (stored (wr_disk w))"
    using kept_wanted [OF writer_segs(5) [OF inv]] safe unfolding stored writer_log_def by (simp add: safe_removal_def)
  show "log_lsns (stored d) = log_lsns (stored (wr_disk w))"
    using inv inv' unfolding stored by (simp add: writer_inv_def)
qed

section \<open>A concrete archive, for the witnesses\<close>

definition arc_tx :: "LSN \<Rightarrow> LSN \<Rightarrow> Transaction" where
  "arc_tx c e = example_tx\<lparr>tx_CommitLSN := c, tx_EndLSN := e, tx_Relations := [], tx_Changes := []\<rparr>"

definition arc_payload :: "LSN \<Rightarrow> LSN \<Rightarrow> bytes" where
  "arc_payload c e = wire_transaction payloadVersion (arc_tx c e)"

definition arc_segment :: "LSN \<Rightarrow> LSN \<Rightarrow> string \<times> SegFile" where
  "arc_segment c e = (segment_name c, \<lparr>f_bytes = frame (arc_payload c e), f_synced = length (frame (arc_payload c e))\<rparr>)"

definition arc_range :: "LSN \<Rightarrow> LSN \<Rightarrow> SegmentRange" where
  "arc_range c e = \<lparr>sr_Path = segment_name c, sr_StartCommit = c, sr_LastCommit = c, sr_LastEnd = e,
     sr_ValidatedSize = length (frame (arc_payload c e))\<rparr>"

text \<open>A writer whose appends all rotate, between two appends.\<close>

definition arc_writer :: "Disk \<Rightarrow> SegmentCatalog \<Rightarrow> LSN \<Rightarrow> LSN \<Rightarrow> Writer" where
  "arc_writer d cat c e = \<lparr>wr_disk = d, wr_rotationBytes = 1, wr_catalog = cat, wr_file = False, wr_partialPath = [],
     wr_size = 0, wr_lastCommitLSN = c, wr_lastEndLSN = e, wr_pendingEndLSN = e, wr_durableEndLSN = e, wr_closed = False\<rparr>"

lemma arc_ok: "ok_transaction (arc_tx c e)" "valid_time (tx_CommitTime (arc_tx c e))"
    "length (arc_payload c e) = 41" "tx_Spill (arc_tx c e) = None"
    "canon_transaction payloadVersion (arc_tx c e) = arc_tx c e"
  by (simp_all add: arc_tx_def arc_payload_def example_tx_def ok_transaction_def valid_time_def too_large_def
      max_u32_def wire_transaction_def length_wire_header wire_list_def canon_transaction_def)

lemma update_new: "map_of d p = None \<Longrightarrow> AList.update p f d = d @ [(p, f)]"
  by (induction d) (auto split: if_splits)

lemma delete_last: "map_of d p = None \<Longrightarrow> AList.delete p (d @ [(p, f)]) = d"
  by (induction d) (auto split: if_splits)

lemma update_last: "map_of d p = None \<Longrightarrow> AList.update p g (d @ [(p, f)]) = d @ [(p, g)]"
  by (induction d) (auto split: if_splits)

lemma arc_append:
  assumes "lc < c" "le < e" "c \<le> e" and new: "map_of d (partial_name c) = None" "map_of d (segment_name c) = None"
    and cat: "addFinalized (arc_range c e) cat = Inr (cat @ [arc_range c e])"
  shows "AppendFrame no_faults (arc_writer d cat lc le) (Some (arc_tx c e)) =
    (Inr 49, Some (arc_tx c e), arc_writer (d @ [arc_segment c e]) (cat @ [arc_range c e]) c e)"
proof -
  have run: "AppendTransaction [] (arc_tx c e) = Inr (arc_payload c e)" "transactionPayloadSize (arc_tx c e) = Inr 41"
    using arc_ok by (simp_all add: AppendTransaction_wire transactionPayloadSize_resident arc_payload_def maxPayloadSize_def)
  have tx: "tx_CommitLSN (arc_tx c e) = c" "tx_EndLSN (arc_tx c e) = e"
    by (simp_all add: arc_tx_def)
  have small: "41 \<le> maxPayloadSize" "\<not> streamPayloadBytes < 41" "length (frame_header (arc_payload c e)) = 8"
    by (simp_all add: maxPayloadSize_def streamPayloadBytes_def frame_header_def)
  have order: "\<not> c \<le> lc" "\<not> e \<le> le" "\<not> e < c" "c \<noteq> 0" "le \<noteq> e" "e \<noteq> le"
    using assms(1-3) by (auto simp: not_le)
  have openS: "openSegment no_faults (arc_writer d cat lc le) c = (Inr (), (arc_writer d cat lc le)\<lparr>
      wr_disk := d @ [(partial_name c, \<lparr>f_bytes = [], f_synced = 0\<rparr>)], wr_file := True, wr_partialPath := partial_name c\<rparr>)"
    using new by (simp add: openSegment_def no_faults_def Let_def arc_writer_def update_new)
  have get: "file_get (d @ [(partial_name c, f)]) (partial_name c) = f" "map_of (d @ [(partial_name c, f)]) (segment_name c) = None"
    "AList.update (partial_name c) g (d @ [(partial_name c, f)]) = d @ [(partial_name c, g)]" for f g
    using new by (simp_all add: file_get_def map_add_def update_last)
  have rot: "rename_file (partial_name c) (segment_name c) (d @ [(partial_name c, f)]) = d @ [(segment_name c, f)]" for f
    using new by (simp add: rename_file_def get delete_last update_new)
  have len: "length (frame (arc_payload c e)) = 49"
    by (simp add: length_frame frameHeaderSize_def arc_ok(3))
  have cat': "addFinalized \<lparr>sr_Path = segment_name c, sr_StartCommit = c, sr_LastCommit = c, sr_LastEnd = e,
      sr_ValidatedSize = 49\<rparr> cat = Inr (cat @ [arc_range c e])"
    using cat by (simp add: arc_range_def len)
  have seg: "arc_segment c e = (segment_name c, \<lparr>f_bytes = frame_header (arc_payload c e) @ arc_payload c e, f_synced = 49\<rparr>)"
    by (simp add: arc_segment_def len) (simp add: frame_def)
  show ?thesis
    using run tx small order openS arc_ok(4)
    by (simp add: AppendFrame_def arc_writer_def seg cat' arc_ok(3) appendFrameOpen_def appendResidentFrame_def Let_def writeFull_def no_faults_def
        write_at_def get rotateLocked_def syncLocked_def sync_file_def rot trim_partial_name segmentStart_def parse_partial_name
        frameHeaderSize_def)
qed


definition arc_archive :: Writer where
  "arc_archive = arc_writer [arc_segment 256 300, arc_segment 512 600] [arc_range 256 300, arc_range 512 600] 512 600"

lemma arc_step:
  "archive_reach (arc_writer d cat lc le) \<Longrightarrow> lc < c \<Longrightarrow> le < e \<Longrightarrow> c \<le> e \<Longrightarrow>
   map_of d (partial_name c) = None \<Longrightarrow> map_of d (segment_name c) = None \<Longrightarrow>
   addFinalized (arc_range c e) cat = Inr (cat @ [arc_range c e]) \<Longrightarrow>
   archive_reach (arc_writer (d @ [arc_segment c e]) (cat @ [arc_range c e]) c e)"
  by (rule arch_append [OF _ _ _ arc_append]) (simp_all add: retry_order_def arc_writer_def no_faults_def safe_faults_def)

lemma arc_reach: "archive_reach arc_archive"
proof -
  have "OpenWriter 1 0 [] = Inr (arc_writer [] [] 0 0,
      \<lparr>rc_LastCommitLSN = 0, rc_DurableLSN = 0, rc_PartialPath = [], rc_TruncatedBytes = 0\<rparr>)"
    by (simp add: OpenWriter_def recoverDirectory_def listSegments_def map_filter_simps recovered_writer_def arc_writer_def)
  then have "archive_reach (arc_writer [] [] 0 0)" by (rule arch_open)
  from arc_step [OF this, of 256 300] have "archive_reach (arc_writer [arc_segment 256 300] [arc_range 256 300] 256 300)"
    by (simp add: addFinalized_def)
  from arc_step [OF this, of 512 600] show ?thesis
    by (simp add: arc_archive_def addFinalized_def arc_range_def arc_segment_def)
qed

definition arc_pruner :: SegmentPruner where
  "arc_pruner = \<lparr>pr_interval = 60000000000, pr_catalog = True, pr_maxRemove = 128, pr_next = None, pr_latest = 0, pr_wake = False\<rparr>"

definition no_maint_faults :: MaintFaults where
  "no_maint_faults = \<lparr>mf_list = False, mf_stat = None, mf_remove = None, mf_dirSync = False\<rparr>"

lemma present_name: "segment_name c \<in> segment_names d \<longleftrightarrow> segment_name c \<in> fst ` set d"
  by (auto simp: segment_names_def parse_segment_name)

lemma arc_prune: "OnProgress no_maint_faults 1000 7 (arc_pruner, wr_catalog arc_archive, wr_disk arc_archive) =
    (None, arc_pruner\<lparr>pr_latest := 1000, pr_next := Some 60000000007\<rparr>, [arc_range 512 600], [arc_segment 512 600])"
  by (simp add: OnProgress_def pruneLocked_def catalog_prune_def remove_candidates_def arc_pruner_def no_maint_faults_def
      arc_archive_def arc_writer_def present_name arc_segment_def arc_range_def parse_segment_name file_content_def
      removeFinalized_def Let_def)


lemma arc_payload_ok: "payload_ok (arc_payload c e)" "UnmarshalTransaction (arc_payload c e) = Inr (arc_tx c e)"
proof -
  have len: "length (wire_transaction payloadVersion (arc_tx c e)) \<le> maxPayloadSize"
    using arc_ok(3) [of c e] by (simp add: arc_payload_def maxPayloadSize_def)
  have "WriteTransaction [] (arc_tx c e) = Inr (arc_payload c e, length (arc_payload c e))"
    using arc_ok len by (simp add: arc_payload_def WriteTransaction_resident)
  then show "payload_ok (arc_payload c e)" by (auto dest: WriteTransaction_payload)
  show "UnmarshalTransaction (arc_payload c e) = Inr (arc_tx c e)"
    using Unmarshal_wire [of payloadVersion "arc_tx c e"] arc_ok len by (simp add: arc_payload_def)
qed

lemma arc_stored: "stored [arc_segment 512 600] = [arc_payload 512 600]"
  "stored (wr_disk arc_archive) = [arc_payload 256 300, arc_payload 512 600]"
proof -
  have "frames_of (frame (arc_payload c e)) = [arc_payload c e]" for c e
    using frames_of_segment [of "[arc_payload c e]"] arc_payload_ok by simp
  then show "stored [arc_segment 512 600] = [arc_payload 512 600]"
    "stored (wr_disk arc_archive) = [arc_payload 256 300, arc_payload 512 600]"
    by (simp_all add: stored_def listSegments_def map_filter_simps segment_of_name arc_segment_def arc_archive_def arc_writer_def
        name_segment_def parse_segment_name segment_rank_def finalized_file_def file_content_def)
qed


section \<open>What a prune may not take\<close>

text \<open>C30: Pruning loses nothing that is still needed. From any archive that appends, syncs, crashes
  and earlier prunes left, \<^verbatim>\<open>OnProgress\<close>, with the catalog or scanning, and with any system call
  failing, stores afterwards a subsequence of what was stored, with every transaction whose end is
  at or past the greatest applied position still there, and the newest position is unchanged; and
  after a crash recovery succeeds, the durable position does not move back and every durable
  transaction not yet applied is recovered.\<close>

theorem prune_keeps_unapplied:
  assumes "archive_reach w" "OnProgress flt applied now (p, wr_catalog w, wr_disk w) = (err, p', c, d)"
    "crash_torn d d'" "0 \<le> rotationBytes" "0 \<le> workers" "workers \<le> 4"
  shows "subseq (stored d) (stored (wr_disk w)) \<and>
    filter (\<lambda>q. prune_position p applied \<le> snd (payload_lsns q)) (stored d) =
      filter (\<lambda>q. prune_position p applied \<le> snd (payload_lsns q)) (stored (wr_disk w)) \<and>
    log_lsns (stored d) = log_lsns (stored (wr_disk w)) \<and>
    (\<exists>w' rec. OpenWriter rotationBytes workers d' = Inr (w', rec) \<and> wr_durableEndLSN w \<le> wr_durableEndLSN w' \<and>
      (\<forall>q\<in>set (stored (wr_disk w)). prune_position p applied \<le> snd (payload_lsns q) \<and>
         snd (payload_lsns q) \<le> wr_durableEndLSN w \<longrightarrow> q \<in> set (stored (wr_disk w'))))"
proof -
  obtain segs tail where inv: "writer_inv w segs tail" using archive_inv [OF assms(1)] by blast
  obtain removed c' where r: "safe_removal (prune_position p applied) removed segs"
      "writer_inv (w\<lparr>wr_disk := d, wr_catalog := c'\<rparr>) (kept removed segs) tail"
    using outcome_inv [OF inv OnProgress_outcome [OF inv assms(2)]] by blast
  note stored = prune_stored [OF inv r]
  have "q \<in> set (stored d)" if "q \<in> set (stored (wr_disk w))" "prune_position p applied \<le> snd (payload_lsns q)" for q
    using that arg_cong [where f = set, OF stored(2)] by auto
  moreover obtain w' rec where "OpenWriter rotationBytes workers d' = Inr (w', rec)" "wr_durableEndLSN w \<le> wr_durableEndLSN w'"
      "\<forall>q\<in>set (stored d). snd (payload_lsns q) \<le> wr_durableEndLSN w \<longrightarrow> q \<in> set (stored (wr_disk w'))"
    using reopen_durable [OF r(2) _ assms(4-6), of d'] assms(3) by auto
  ultimately show ?thesis using stored by blast
qed

theorem prune_keeps_unapplied_witness:
  "OnProgress no_maint_faults 1000 7 (arc_pruner, wr_catalog arc_archive, wr_disk arc_archive) =
     (None, arc_pruner\<lparr>pr_latest := 1000, pr_next := Some 60000000007\<rparr>, [arc_range 512 600], [arc_segment 512 600]) \<and>
   subseq [arc_payload 512 600] [arc_payload 256 300, arc_payload 512 600] \<and>
   (\<exists>w' rec. OpenWriter 1 0 [arc_segment 512 600] = Inr (w', rec) \<and> 600 \<le> wr_durableEndLSN w')"
proof -
  have "crash_torn [arc_segment 512 600] [arc_segment 512 600]" by (simp add: crash_torn_def arc_segment_def)
  note kept = prune_keeps_unapplied [OF arc_reach arc_prune this, of 1 0, simplified zero_le_one order.refl, unfolded arc_stored]
  have "wr_durableEndLSN arc_archive = 600" by (simp add: arc_archive_def arc_writer_def)
  with kept show ?thesis using arc_prune by (auto simp del: subseq_Cons2_iff)
qed

text \<open>Pruning is invisible to the replay: what \<^verbatim>\<open>ReadTransactionsAfter\<close> returns after a prune is what
  it returned before, less transactions that end before the greatest applied position.\<close>

theorem prune_invisible_to_replay:
  assumes "archive_reach w" "OnProgress flt applied now (p, wr_catalog w, wr_disk w) = (err, p', c, d)"
    "list_all (\<lambda>q. is_ok (UnmarshalTransaction q)) (stored (wr_disk w))"
  shows "\<exists>before after. ReadTransactionsAfter (wr_disk w) start durable = Inr before \<and>
    ReadTransactionsAfter d start durable = Inr after \<and> subseq after before \<and>
    filter (\<lambda>tx. prune_position p applied \<le> tx_EndLSN tx) after = filter (\<lambda>tx. prune_position p applied \<le> tx_EndLSN tx) before"
proof -
  obtain segs tail where inv: "writer_inv w segs tail" using archive_inv [OF assms(1)] by blast
  obtain removed c' where r: "safe_removal (prune_position p applied) removed segs"
      "writer_inv (w\<lparr>wr_disk := d, wr_catalog := c'\<rparr>) (kept removed segs) tail"
    using outcome_inv [OF inv OnProgress_outcome [OF inv assms(2)]] by blast
  note stored = prune_stored [OF inv r]
  let ?wanted = "filter (\<lambda>tx. start < tx_CommitLSN tx \<and> tx_EndLSN tx \<le> durable)"
  have decoded: "list_all2 (\<lambda>q tx. UnmarshalTransaction q = Inr tx) ps (map decoded ps)"
    if "list_all (\<lambda>q. is_ok (UnmarshalTransaction q)) ps" for ps
    using that by (induction ps) (auto simp: decoded_def split: sum.splits)
  have ok: "list_all (\<lambda>q. is_ok (UnmarshalTransaction q)) (stored d)"
    using assms(3) list_emb_set [OF stored(1)] by (fastforce simp: list_all_iff)
  have before: "ReadTransactionsAfter (wr_disk w) start durable = Inr (?wanted (map decoded (stored (wr_disk w))))"
    by (rule read_writer [OF inv decoded [OF assms(3)]])
  have after: "ReadTransactionsAfter d start durable = Inr (?wanted (map decoded (stored d)))"
    using read_writer [OF r(2), of "map decoded (stored d)"] decoded [OF ok] by simp
  have ends: "filter (\<lambda>tx. a \<le> tx_EndLSN tx) (map decoded ps) = map decoded (filter (\<lambda>q. a \<le> snd (payload_lsns q)) ps)"
    if "list_all (\<lambda>q. is_ok (UnmarshalTransaction q)) ps" for a ps
    using that by (induction ps) (auto simp: decoded_def Unmarshal_payload split: sum.splits)
  have swap: "filter P (filter Q xs) = filter Q (filter P xs)" for P Q and xs :: "Transaction list"
    by (simp add: conj_commute)
  have "subseq (?wanted (map decoded (stored d))) (?wanted (map decoded (stored (wr_disk w))))"
    by (intro subseq_filter subseq_map stored(1))
  moreover have "filter (\<lambda>tx. prune_position p applied \<le> tx_EndLSN tx) (?wanted (map decoded (stored d))) =
      filter (\<lambda>tx. prune_position p applied \<le> tx_EndLSN tx) (?wanted (map decoded (stored (wr_disk w))))"
    using stored(2) by (simp only: swap [of _ "\<lambda>tx. start < tx_CommitLSN tx \<and> tx_EndLSN tx \<le> durable"] ends [OF ok] ends [OF assms(3)])
  ultimately show ?thesis using before after by blast
qed

theorem prune_invisible_to_replay_witness:
  "\<exists>after. ReadTransactionsAfter (wr_disk arc_archive) 300 600 = Inr [arc_tx 512 600] \<and>
     ReadTransactionsAfter [arc_segment 512 600] 300 600 = Inr after \<and> subseq after [arc_tx 512 600]"
proof -
  have ok: "list_all (\<lambda>q. is_ok (UnmarshalTransaction q)) (stored (wr_disk arc_archive))"
    by (simp add: arc_stored arc_payload_ok)
  obtain segs tail where "writer_inv arc_archive segs tail" using archive_inv [OF arc_reach] by blast
  from read_writer [OF this, of "[arc_tx 256 300, arc_tx 512 600]" 300 600]
  have "ReadTransactionsAfter (wr_disk arc_archive) 300 600 = Inr [arc_tx 512 600]"
    by (simp add: arc_stored arc_payload_ok) (simp add: arc_tx_def)
  with prune_invisible_to_replay [OF arc_reach arc_prune ok, of 300 600] show ?thesis by auto
qed

end
