(* ===== verification/CopyPlan.thy ===== *)
theory CopyPlan
  imports Prelude "HOL-Library.Signed_Division"
begin

text \<open>
  The plan of the initial copy: \<^verbatim>\<open>internal/copy/copy.go\<close>, the tables, their parts and \<^verbatim>\<open>Plan\<close>.
  A part's SQL predicate is kept as its comparison, \<^verbatim>\<open>key >= a AND key < b\<close> and
  \<^verbatim>\<open>ctid >= '(a,0)' AND ctid < '(b,0)'\<close>; its meaning on a row is \<open>selects\<close>.
\<close>

section \<open>Tables and parts\<close>

record CopyColumn =
  cc_Name :: string
  cc_TypeName :: string
  cc_BuiltIn :: bool
  cc_Generated :: bool

record CopyTable =
  ct_OID :: nat
  ct_Schema :: string
  ct_Name :: string
  ct_RelKind :: string
  ct_Bytes :: int
  ct_HeapBlocks :: int
  ct_Columns :: "CopyColumn list"
  ct_IntegerKey :: string
  ct_KeyMin :: int
  ct_KeyMax :: int
  ct_HasKeyBounds :: bool
  ct_Empty :: bool

datatype Format = Binary | Text

datatype PartID = AllID | PkID nat | CtidID nat

datatype Predicate = Everything | KeyRange int int bool | BlockRange int int

record CopyPart =
  cp_Table :: CopyTable
  cp_ID :: PartID
  cp_Predicate :: Predicate
  cp_Range :: "(int \<times> int) option"
  cp_EndInclusive :: bool
  cp_EstimatedBytes :: int
  cp_Unsplit :: bool
  cp_Format :: Format

definition binaryBuiltins :: "string list" where
  "binaryBuiltins = [''bool'', ''bytea'', ''int2'', ''int4'', ''int8'', ''float4'', ''float8'', ''text'', ''varchar'', ''bpchar'',
     ''date'', ''time'', ''timetz'', ''timestamp'', ''timestamptz'', ''interval'', ''uuid'', ''json'', ''jsonb'', ''numeric'',
     ''inet'', ''cidr'', ''macaddr'', ''bit'', ''varbit'']"

definition ConservativeFormat :: "CopyTable \<Rightarrow> int \<Rightarrow> int \<Rightarrow> Format" where
  "ConservativeFormat t sourceMajor targetMajor =
     (if sourceMajor \<noteq> targetMajor then Text
      else if list_ex (\<lambda>c. \<not> cc_Generated c \<and> (\<not> cc_BuiltIn c \<or> cc_TypeName c \<notin> set binaryBuiltins)) (ct_Columns t)
      then Text else Binary)"

section \<open>The plan\<close>

text \<open>Go's \<^verbatim>\<open>int64\<close> arithmetic: the result reduced to 64 bits, two's complement.\<close>

definition s64 :: "int \<Rightarrow> int" where
  "s64 x = (x + 2 ^ 63) mod 2 ^ 64 - 2 ^ 63"

lemma s64_small: "- (2 ^ 63) \<le> x \<Longrightarrow> x < 2 ^ 63 \<Longrightarrow> s64 x = x"
  by (simp add: s64_def)

definition whole_part :: "CopyTable \<Rightarrow> Format \<Rightarrow> CopyPart" where
  "whole_part t format = \<lparr>cp_Table = t, cp_ID = AllID, cp_Predicate = Everything, cp_Range = None, cp_EndInclusive = False,
     cp_EstimatedBytes = ct_Bytes t, cp_Unsplit = True, cp_Format = format\<rparr>"

text \<open>The ranges of the integer key; the arithmetic is that of \<^verbatim>\<open>math/big\<close>.\<close>

function key_parts :: "CopyTable \<Rightarrow> Format \<Rightarrow> int \<Rightarrow> nat \<Rightarrow> nat \<Rightarrow> CopyPart list" where
  "key_parts t format width count i =
     (let start = ct_KeyMin t + width * int i; next = start + width in
      if i \<ge> count \<or> start > ct_KeyMax t then []
      else if i = count - 1 \<or> next > ct_KeyMax t
      then [\<lparr>cp_Table = t, cp_ID = PkID i, cp_Predicate = KeyRange start (ct_KeyMax t) True, cp_Range = Some (start, ct_KeyMax t),
              cp_EndInclusive = True, cp_EstimatedBytes = ct_Bytes t div int count, cp_Unsplit = False, cp_Format = format\<rparr>]
      else \<lparr>cp_Table = t, cp_ID = PkID i, cp_Predicate = KeyRange start next False, cp_Range = Some (start, next),
              cp_EndInclusive = False, cp_EstimatedBytes = ct_Bytes t div int count, cp_Unsplit = False, cp_Format = format\<rparr>
           # key_parts t format width count (Suc i))"
  by pat_completeness auto
termination by (relation "measure (\<lambda>(_, _, _, count, i). count - i)") auto

function block_parts :: "CopyTable \<Rightarrow> Format \<Rightarrow> int \<Rightarrow> nat \<Rightarrow> int \<Rightarrow> nat \<Rightarrow> CopyPart list" where
  "block_parts t format width count start i =
     (if \<not> (start < ct_HeapBlocks t \<and> i < count) then []
      else let end1 = s64 (start + width); end2 = (if end1 > ct_HeapBlocks t then ct_HeapBlocks t else end1) in
        \<lparr>cp_Table = t, cp_ID = CtidID i, cp_Predicate = BlockRange start end2, cp_Range = Some (start, end2),
         cp_EndInclusive = False, cp_EstimatedBytes = ct_Bytes t div int count, cp_Unsplit = False, cp_Format = format\<rparr>
        # block_parts t format width count (s64 (start + width)) (Suc i))"
  by pat_completeness auto
termination by (relation "measure (\<lambda>(_, _, _, count, _, i). count - i)") auto

declare key_parts.simps [simp del] block_parts.simps [simp del]

definition part_count :: "CopyTable \<Rightarrow> int \<Rightarrow> int \<Rightarrow> int" where
  "part_count t desiredBytes cap =
     (let count64 = (if ct_Bytes t > 0 then (ct_Bytes t - 1) div desiredBytes + 1 else 1);
          count = (if count64 > cap then cap else count64) in
      if count < 2 then 2 else count)"

definition hasBounds :: "CopyTable \<Rightarrow> bool" where
  "hasBounds t \<longleftrightarrow> ct_HasKeyBounds t \<or> ct_IntegerKey t \<noteq> [] \<and> (ct_KeyMin t \<noteq> 0 \<or> ct_KeyMax t \<noteq> 0)"

definition Plan :: "CopyTable \<Rightarrow> int \<Rightarrow> int \<Rightarrow> Format \<Rightarrow> CopyPart list" where
  "Plan t desiredBytes cap format =
     (let cap = (if cap < 1 then 1 else cap) in
      if cap = 1 \<or> desiredBytes \<le> 0 \<or> ct_Bytes t \<le> desiredBytes \<or> ct_Empty t then [whole_part t format]
      else let count = part_count t desiredBytes cap in
        if ct_IntegerKey t \<noteq> [] \<and> hasBounds t \<and> ct_KeyMax t \<ge> ct_KeyMin t
        then let span = ct_KeyMax t - ct_KeyMin t + 1; width = (span + (count - 1)) div count in
          key_parts t format width (nat count) 0
        else if ct_HeapBlocks t < 2 then [whole_part t format]
        else block_parts t format (s64 (s64 (ct_HeapBlocks t + count) - 1) sdiv count) (nat count) 0 0)"

section \<open>Every row in exactly one part\<close>

text \<open>A row of the snapshot: the block it is stored in, its integer key, and what is copied of it.\<close>

record 'd SourceRow =
  row_block :: int
  row_key :: int
  row_data :: 'd

fun selects :: "Predicate \<Rightarrow> 'd SourceRow \<Rightarrow> bool" where
  "selects Everything r = True"
| "selects (KeyRange a b inclusive) r = (a \<le> row_key r \<and> (if inclusive then row_key r \<le> b else row_key r < b))"
| "selects (BlockRange a b) r = (a \<le> row_block r \<and> row_block r < b)"

definition selected :: "CopyPart \<Rightarrow> 'd SourceRow list \<Rightarrow> 'd SourceRow list" where
  "selected p = filter (selects (cp_Predicate p))"

text \<open>
  What the inventory establishes in the snapshot: the key is a primary key, its bounds are its
  minimum and maximum, a heap has a row only in its blocks, and a partitioned table has no heap.
\<close>

definition inventoried :: "CopyTable \<Rightarrow> 'd SourceRow list \<Rightarrow> bool" where
  "inventoried t rows \<longleftrightarrow> (ct_Empty t \<longrightarrow> rows = []) \<and>
     (ct_IntegerKey t \<noteq> [] \<and> \<not> ct_Empty t \<longrightarrow> ct_HasKeyBounds t \<and> ct_KeyMin t \<le> ct_KeyMax t \<and>
        (\<forall>r\<in>set rows. ct_KeyMin t \<le> row_key r \<and> row_key r \<le> ct_KeyMax t)) \<and>
     (if ct_RelKind t = ''r'' then \<forall>r\<in>set rows. 0 \<le> row_block r \<and> row_block r < ct_HeapBlocks t else ct_HeapBlocks t = 0)"

lemma key_parts_covers:
  assumes "0 < width" "ct_KeyMax t < ct_KeyMin t + width * int count" "row_key r \<le> ct_KeyMax t"
  shows "length (filter (\<lambda>p. selects (cp_Predicate p) r) (key_parts t format width count i)) =
    (if ct_KeyMin t + width * int i \<le> row_key r then 1 else 0)"
  using assms
proof (induction t format width count i rule: key_parts.induct)
  case (1 t format width count i)
  let ?start = "ct_KeyMin t + width * int i"
  have nxt: "?start + width = ct_KeyMin t + width * int (Suc i)" by (simp add: algebra_simps)
  show ?case
  proof (cases "i \<ge> count \<or> ?start > ct_KeyMax t")
    case True
    have "width * int count \<le> width * int i" if "count \<le> i" using 1(2) that by (intro mult_left_mono) auto
    with True 1(3,4) show ?thesis by (subst key_parts.simps) (auto simp: Let_def)
  next
    case False
    show ?thesis
    proof (cases "i = count - 1 \<or> ?start + width > ct_KeyMax t")
      case True
      with False 1(4) show ?thesis by (subst key_parts.simps) (auto simp: Let_def)
    next
      case inner: False
      have "length (filter (\<lambda>p. selects (cp_Predicate p) r) (key_parts t format width count (Suc i))) =
          (if ?start + width \<le> row_key r then 1 else 0)"
        unfolding nxt using 1(1) False inner 1(2-4) by simp
      with False inner 1(2) show ?thesis by (subst key_parts.simps) (auto simp: Let_def)
    qed
  qed
qed

lemma key_parts_ids: "\<exists>n. map cp_ID (key_parts t format width count i) = map PkID [i..<i + n] \<and> i + n \<le> max i count"
proof (induction t format width count i rule: key_parts.induct)
  case (1 t format width count i)
  let ?start = "ct_KeyMin t + width * int i"
  consider "i \<ge> count \<or> ?start > ct_KeyMax t" | "\<not> (i \<ge> count \<or> ?start > ct_KeyMax t)" "i = count - 1 \<or> ?start + width > ct_KeyMax t"
    | "\<not> (i \<ge> count \<or> ?start > ct_KeyMax t)" "\<not> (i = count - 1 \<or> ?start + width > ct_KeyMax t)" by blast
  then show ?case
  proof cases
    case 1
    then show ?thesis by (subst key_parts.simps) (auto simp: Let_def intro: exI [of _ 0])
  next
    case 2
    then show ?thesis by (subst key_parts.simps) (auto simp: Let_def upt_conv_Cons intro!: exI [of _ 1])
  next
    case 3
    with "1.IH" obtain n where n: "map cp_ID (key_parts t format width count (Suc i)) = map PkID [Suc i..<Suc i + n]" "Suc i + n \<le> max (Suc i) count"
      by auto
    with 3 show ?thesis
      by (subst key_parts.simps) (auto simp: Let_def upt_conv_Cons intro!: exI [of _ "Suc n"])
  qed
qed


lemma block_parts_covers:
  assumes "0 < width" "0 \<le> start" "start \<le> ct_HeapBlocks t + width" "ct_HeapBlocks t + 2 * width < 2 ^ 63"
    "i \<le> count" "ct_HeapBlocks t \<le> start + width * int (count - i)" "row_block r < ct_HeapBlocks t"
  shows "length (filter (\<lambda>p. selects (cp_Predicate p) r) (block_parts t format width count start i)) =
    (if start \<le> row_block r then 1 else 0)"
  using assms
proof (induction t format width count start i rule: block_parts.induct)
  case (1 t format width count start i)
  show ?case
  proof (cases "start < ct_HeapBlocks t \<and> i < count")
    case False
    then have "ct_HeapBlocks t \<le> start" using 1(6,7) by (cases "i = count") auto
    with False 1(8) show ?thesis by (subst block_parts.simps) auto
  next
    case True
    have wrap: "s64 (start + width) = start + width" using 1(2-5) True by (intro s64_small) auto
    have "int (count - i) = int (count - Suc i) + 1" using True by simp
    then have "ct_HeapBlocks t \<le> start + width + width * int (count - Suc i)"
      using 1(7) by (simp add: algebra_simps)
    with 1(1) [OF _ refl refl, unfolded wrap] 1(2-8) True
    have "length (filter (\<lambda>p. selects (cp_Predicate p) r) (block_parts t format width count (start + width) (Suc i))) =
        (if start + width \<le> row_block r then 1 else 0)" by simp
    with True 1(2,8) show ?thesis by (subst block_parts.simps) (auto simp: Let_def wrap)
  qed
qed

lemma block_parts_ids: "\<exists>n. map cp_ID (block_parts t format width count start i) = map CtidID [i..<i + n] \<and> i + n \<le> max i count"
proof (induction t format width count start i rule: block_parts.induct)
  case (1 t format width count start i)
  show ?case
  proof (cases "start < ct_HeapBlocks t \<and> i < count")
    case False
    then show ?thesis by (subst block_parts.simps) (auto intro: exI [of _ 0])
  next
    case True
    with 1 obtain n where n: "map cp_ID (block_parts t format width count (s64 (start + width)) (Suc i)) = map CtidID [Suc i..<Suc i + n]"
      "Suc i + n \<le> max (Suc i) count" by auto
    with True show ?thesis
      by (subst block_parts.simps) (auto simp: Let_def upt_conv_Cons intro!: exI [of _ "Suc n"])
  qed
qed

lemma distinct_ids: "map f xs = map g [a..<b] \<Longrightarrow> inj g \<Longrightarrow> distinct (map f xs)"
  by (metis distinct_map distinct_upt inj_on_subset subset_UNIV)

lemma part_count_bounds: "2 \<le> cap \<Longrightarrow> 2 \<le> part_count t desiredBytes cap \<and> part_count t desiredBytes cap \<le> cap"
  by (simp add: part_count_def Let_def)

lemma key_width: "0 < span \<Longrightarrow> 0 < c \<Longrightarrow> 0 < (span + (c - 1)) div c \<and> span \<le> (span + (c - 1)) div c * (c :: int)"
proof -
  assume a: "0 < span" "0 < c"
  have "(span + (c - 1)) mod c < c" using a by simp
  moreover have "(span + (c - 1)) div c * c + (span + (c - 1)) mod c = span + (c - 1)" by simp
  ultimately have "span \<le> (span + (c - 1)) div c * c" by linarith
  moreover have "0 < (span + (c - 1)) div c" using a by (simp add: pos_imp_zdiv_pos_iff)
  ultimately show ?thesis by blast
qed

lemma plan_ids: "distinct (map cp_ID (Plan t desiredBytes cap format))"
proof -
  have "distinct (map cp_ID (key_parts t format w n 0))" for w n
    using key_parts_ids [of t format w n 0] by (metis distinct_ids PartID.inject(1) injI)
  moreover have "distinct (map cp_ID (block_parts t format w n 0 0))" for w n
    using block_parts_ids [of t format w n 0 0] by (metis distinct_ids PartID.inject(2) injI)
  ultimately show ?thesis by (simp add: Plan_def Let_def)
qed

lemma plan_splits:
  assumes "inventoried t rows" "r \<in> set rows" "0 \<le> ct_HeapBlocks t" "ct_HeapBlocks t + cap < 2 ^ 61"
  shows "length (filter (\<lambda>p. selects (cp_Predicate p) r) (Plan t desiredBytes cap format)) = 1 \<and>
    int (length (Plan t desiredBytes cap format)) \<le> max cap 1"
proof (cases "cap \<le> 1 \<or> desiredBytes \<le> 0 \<or> ct_Bytes t \<le> desiredBytes \<or> ct_Empty t")
  case True
  then have "Plan t desiredBytes cap format = [whole_part t format]" by (auto simp: Plan_def Let_def)
  then show ?thesis by (simp add: whole_part_def)
next
  case False
  then have cap: "2 \<le> cap" by simp
  define n where "n = part_count t desiredBytes cap"
  have n: "2 \<le> n" "n \<le> cap" using part_count_bounds [OF cap] by (simp_all add: n_def)
  consider (key) "ct_IntegerKey t \<noteq> []" | (whole) "ct_IntegerKey t = []" "ct_HeapBlocks t < 2"
    | (block) "ct_IntegerKey t = []" "ct_HeapBlocks t \<ge> 2" by linarith
  then show ?thesis
  proof cases
    case key
    with assms(1,2) False have k: "ct_HasKeyBounds t" "ct_KeyMin t \<le> row_key r" "row_key r \<le> ct_KeyMax t"
      by (auto simp: inventoried_def)
    define width where "width = (ct_KeyMax t - ct_KeyMin t + 1 + (n - 1)) div n"
    have width: "0 < width" "ct_KeyMax t - ct_KeyMin t + 1 \<le> width * n"
      using key_width [of "ct_KeyMax t - ct_KeyMin t + 1" n] k n by (simp_all add: width_def)
    have plan: "Plan t desiredBytes cap format = key_parts t format width (nat n) 0"
      using False key k cap by (simp add: Plan_def Let_def n_def [symmetric] hasBounds_def width_def)
    obtain m where m: "map cp_ID (Plan t desiredBytes cap format) = map PkID [0..<m]" "m \<le> nat n"
      using key_parts_ids [of t format width "nat n" 0] unfolding plan by auto
    have "length (Plan t desiredBytes cap format) = m" using arg_cong [OF m(1), of length] by simp
    moreover have "length (filter (\<lambda>p. selects (cp_Predicate p) r) (Plan t desiredBytes cap format)) = 1"
      unfolding plan using width k n by (subst key_parts_covers) auto
    ultimately show ?thesis using m(2) n by simp
  next
    case whole
    then have "Plan t desiredBytes cap format = [whole_part t format]" using False by (simp add: Plan_def Let_def)
    then show ?thesis by (simp add: whole_part_def)
  next
    case block
    then have b: "0 \<le> row_block r" "row_block r < ct_HeapBlocks t"
      using assms(1,2) by (auto simp: inventoried_def split: if_splits)
    define width where "width = (ct_HeapBlocks t + (n - 1)) div n"
    have width: "0 < width" "ct_HeapBlocks t \<le> width * n"
      using key_width [of "ct_HeapBlocks t" n] block n by (simp_all add: width_def)
    have "(ct_HeapBlocks t + (n - 1)) mod n \<ge> 0" using n by simp
    then have "width * n \<le> ct_HeapBlocks t + (n - 1)"
      using div_mult_mod_eq [of "ct_HeapBlocks t + (n - 1)" n] unfolding width_def by linarith
    moreover have "width * 1 \<le> width * n" using width(1) n by (intro mult_left_mono) auto
    ultimately have "width \<le> ct_HeapBlocks t + (n - 1)" by simp
    have wrap: "s64 (s64 (ct_HeapBlocks t + n) - 1) = ct_HeapBlocks t + (n - 1)"
      using n assms(3,4) by (simp add: s64_small)
    have plan: "Plan t desiredBytes cap format = block_parts t format width (nat n) 0 0"
      using False block cap n by (simp add: Plan_def Let_def n_def [symmetric] wrap width_def signed_divide_int_def sgn_if)
    obtain m where m: "map cp_ID (Plan t desiredBytes cap format) = map CtidID [0..<m]" "m \<le> nat n"
      using block_parts_ids [of t format width "nat n" 0 0] unfolding plan by auto
    have "length (Plan t desiredBytes cap format) = m" using arg_cong [OF m(1), of length] by simp
    moreover have "length (filter (\<lambda>p. selects (cp_Predicate p) r) (Plan t desiredBytes cap format)) = 1"
      unfolding plan using width b n \<open>width \<le> _\<close> assms(3,4) by (subst block_parts_covers) auto
    ultimately show ?thesis using m(2) n by simp
  qed
qed

text \<open>C33: The parts of a table split its snapshot: every row is selected by exactly one part, whatever
  the bounds of the key, the size of the heap and the number of workers; the parts have distinct
  ids and are at most as many as the cap allows. The heap and the cap together stay below 2^61,
  where the block arithmetic of \<^verbatim>\<open>Plan\<close> does not wrap.\<close>

theorem plan_selects_once:
  assumes "inventoried t rows" "r \<in> set rows" "0 \<le> ct_HeapBlocks t" "ct_HeapBlocks t + cap < 2 ^ 61"
  shows "length (filter (\<lambda>p. selects (cp_Predicate p) r) (Plan t desiredBytes cap format)) = 1 \<and>
    distinct (map cp_ID (Plan t desiredBytes cap format)) \<and> int (length (Plan t desiredBytes cap format)) \<le> max cap 1"
  using plan_splits [OF assms] plan_ids by blast

definition example_table :: CopyTable where
  "example_table = \<lparr>ct_OID = 42, ct_Schema = ''public'', ct_Name = ''t'', ct_RelKind = ''r'', ct_Bytes = 1000, ct_HeapBlocks = 10, ct_Columns = [], ct_IntegerKey = ''id'',
     ct_KeyMin = - 5, ct_KeyMax = 11, ct_HasKeyBounds = True, ct_Empty = False\<rparr>"

definition example_row :: "int \<Rightarrow> int \<Rightarrow> int SourceRow" where
  "example_row b k = \<lparr>row_block = b, row_key = k, row_data = k\<rparr>"

theorem plan_selects_once_witness:
  "length (filter (\<lambda>p. selects (cp_Predicate p) (example_row 3 11)) (Plan example_table 300 8 Binary)) = 1 \<and>
   length (filter (\<lambda>p. selects (cp_Predicate p) (example_row 3 11)) (Plan (example_table\<lparr>ct_IntegerKey := []\<rparr>) 300 8 Binary)) = 1"
  using plan_selects_once [of example_table "[example_row 3 11]" "example_row 3 11" 8 300 Binary]
    plan_selects_once [of "example_table\<lparr>ct_IntegerKey := []\<rparr>" "[example_row 3 11]" "example_row 3 11" 8 300 Binary]
  by (simp add: inventoried_def example_table_def example_row_def)

end
