(* ===== verification/Effects.thy ===== *)
theory Effects
  imports Prelude
begin

text \<open>
  Programs whose calls leave the process: the database, the local store, the file system. Every call
  takes its outcome from a script of faults: it succeeds, it fails (possibly after it took effect),
  or the process stops there, before or after the effect. The triples say what such a program
  establishes when it returns, and what holds wherever it fails or stops.
\<close>

section \<open>Calls that may fail\<close>

record CallError =
  ce_msg :: string
  ce_canceled :: bool
  ce_pgCode :: "string option"
  ce_safeToRetry :: bool

datatype Fault = Fine | Fails CallError bool | Crash bool

datatype 'a outcome = Done 'a | Failed CallError | Crashed

type_synonym ('a, 'w) M = "Fault list \<Rightarrow> 'w \<Rightarrow> 'a outcome \<times> Fault list \<times> 'w"

definition mreturn :: "'a \<Rightarrow> ('a, 'w) M" where
  "mreturn x fs w = (Done x, fs, w)"

definition mfail :: "CallError \<Rightarrow> ('a, 'w) M" where
  "mfail e fs w = (Failed e, fs, w)"

definition mread :: "('w \<Rightarrow> 'a) \<Rightarrow> ('a, 'w) M" where
  "mread f fs w = (Done (f w), fs, w)"

definition mbind :: "('a, 'w) M \<Rightarrow> ('a \<Rightarrow> ('b, 'w) M) \<Rightarrow> ('b, 'w) M" where
  "mbind m f fs w = (case m fs w of
     (Done x, fs, w) \<Rightarrow> f x fs w | (Failed e, fs, w) \<Rightarrow> (Failed e, fs, w) | (Crashed, fs, w) \<Rightarrow> (Crashed, fs, w))"

abbreviation mseq :: "(unit, 'w) M \<Rightarrow> ('b, 'w) M \<Rightarrow> ('b, 'w) M" where
  "mseq m n \<equiv> mbind m (\<lambda>_. n)"

text \<open>A call with an effect: the head of the script says how it ends.\<close>

definition call :: "('w \<Rightarrow> 'w) \<Rightarrow> (unit, 'w) M" where
  "call effect fs w = (case fs of
     [] \<Rightarrow> (Done (), [], effect w)
   | Fine # fs \<Rightarrow> (Done (), fs, effect w)
   | Fails e applied # fs \<Rightarrow> (Failed e, fs, if applied then effect w else w)
   | Crash applied # fs \<Rightarrow> (Crashed, fs, if applied then effect w else w))"

text \<open>Calls without an effect on the target or the store, by name.\<close>

fun calls :: "string list \<Rightarrow> (unit, 'w) M" where
  "calls [] = mreturn ()"
| "calls (_ # names) = mseq (call id) (calls names)"

fun foreachM :: "('a \<Rightarrow> (unit, 'w) M) \<Rightarrow> 'a list \<Rightarrow> (unit, 'w) M" where
  "foreachM f [] = mreturn ()"
| "foreachM f (x # xs) = mseq (f x) (foreachM f xs)"

section \<open>Triples for calls that may fail\<close>

definition triple :: "('w \<Rightarrow> bool) \<Rightarrow> ('a, 'w) M \<Rightarrow> ('a \<Rightarrow> 'w \<Rightarrow> bool) \<Rightarrow> ('w \<Rightarrow> bool) \<Rightarrow> bool" where
  "triple P m Q R \<longleftrightarrow> (\<forall>fs w. P w \<longrightarrow> (case m fs w of
     (Done x, _, w') \<Rightarrow> Q x w' | (Failed _, _, w') \<Rightarrow> R w' | (Crashed, _, w') \<Rightarrow> R w'))"

lemma tripleD:
  assumes "triple P m Q R" "P w" "m fs w = (r, fs', w')"
  shows "case r of Done x \<Rightarrow> Q x w' | _ \<Rightarrow> R w'"
proof -
  have "case m fs w of (Done x, _, w') \<Rightarrow> Q x w' | (Failed _, _, w') \<Rightarrow> R w' | (Crashed, _, w') \<Rightarrow> R w'"
    by (rule assms(1) [unfolded triple_def, rule_format, OF assms(2)])
  then show ?thesis unfolding assms(3) by (cases r) simp_all
qed

lemma tripleI:
  assumes "\<And>fs w r fs' w'. P w \<Longrightarrow> m fs w = (r, fs', w') \<Longrightarrow> case r of Done x \<Rightarrow> Q x w' | _ \<Rightarrow> R w'"
  shows "triple P m Q R"
  unfolding triple_def
proof (intro allI impI)
  fix fs w assume "P w"
  obtain r fs' w' where m: "m fs w = (r, fs', w')" by (metis prod_cases3)
  from assms [OF \<open>P w\<close> m] show "case m fs w of (Done x, _, w') \<Rightarrow> Q x w' | (Failed _, _, w') \<Rightarrow> R w' | (Crashed, _, w') \<Rightarrow> R w'"
    unfolding m by (cases r) simp_all
qed

lemma triple_bind:
  assumes "triple P m Q R" "\<And>x. triple (Q x) (f x) S R"
  shows "triple P (mbind m f) S R"
proof (rule tripleI)
  fix fs w r fs' w' assume "P w" and run: "mbind m f fs w = (r, fs', w')"
  obtain r1 fs1 w1 where m: "m fs w = (r1, fs1, w1)" by (metis prod_cases3)
  note q = tripleD [OF assms(1) \<open>P w\<close> m]
  show "case r of Done x \<Rightarrow> S x w' | _ \<Rightarrow> R w'"
  proof (cases r1)
    case (Done x)
    with q run m tripleD [OF assms(2), of x w1 fs1 r fs' w'] show ?thesis by (simp add: mbind_def)
  qed (use q m run in \<open>auto simp: mbind_def\<close>)
qed

lemma triple_return: "(\<And>w. P w \<Longrightarrow> Q x w) \<Longrightarrow> triple P (mreturn x) Q R"
  by (simp add: triple_def mreturn_def)

lemma triple_fail: "(\<And>w. P w \<Longrightarrow> R w) \<Longrightarrow> triple P (mfail e) Q R"
  by (simp add: triple_def mfail_def)

lemma triple_read: "triple P (mread f) (\<lambda>x w. P w \<and> x = f w) R"
  by (simp add: triple_def mread_def)

lemma triple_call:
  assumes "\<And>w. P w \<Longrightarrow> Q () (effect w)" "\<And>w. P w \<Longrightarrow> R w" "\<And>w. P w \<Longrightarrow> R (effect w)"
  shows "triple P (call effect) Q R"
  using assms by (auto simp: triple_def call_def split: list.splits Fault.splits)

lemma triple_weaken: "triple P m Q R \<Longrightarrow> (\<And>w. P' w \<Longrightarrow> P w) \<Longrightarrow> (\<And>x w. Q x w \<Longrightarrow> Q' x w) \<Longrightarrow> triple P' m Q' R"
  by (rule tripleI, drule tripleD) (auto split: outcome.splits)

lemma triple_calls: "(\<And>w. P w \<Longrightarrow> R w) \<Longrightarrow> triple P (calls names) (\<lambda>_. P) R"
proof (induction names)
  case (Cons n names)
  have "triple P (call id) (\<lambda>_. P) R" using Cons.prems by (intro triple_call) auto
  then show ?case unfolding calls.simps by (rule triple_bind) (rule Cons.IH [OF Cons.prems])
qed (auto intro: triple_return)

lemma triple_foreach:
  assumes "\<And>x. x \<in> set xs \<Longrightarrow> triple P (f x) (\<lambda>_. P) R" "\<And>w. P w \<Longrightarrow> R w"
  shows "triple P (foreachM f xs) (\<lambda>_. P) R"
  using assms(1)
proof (induction xs)
  case (Cons x xs)
  have "triple P (f x) (\<lambda>_. P) R" using Cons.prems by simp
  then show ?case unfolding foreachM.simps by (rule triple_bind) (use Cons in auto)
qed (auto intro: triple_return)

end
