(* ===== verification/CopyRun.thy ===== *)
theory CopyRun
  imports CopyPlan Effects "HOL-Library.Multiset"
begin

text \<open>
  The initial copy: \<^verbatim>\<open>Runner\<close> of \<^verbatim>\<open>internal/copy/copy.go\<close> on the target database and the local
  store (\<^verbatim>\<open>internal/state/records.go\<close>). Every call that leaves the process takes its outcome from
  a script of faults: it succeeds, it fails (a commit possibly after it took effect), or the
  process stops there.
\<close>

section \<open>The target and the local store\<close>

text \<open>
  The target: the rows of each table, the receipts of \<^verbatim>\<open>pgmigrate_internal.copy_parts\<close> and the
  markers of \<^verbatim>\<open>copy_tables\<close>. The store: for each table its number of parts and whether it is
  complete, for each part whether it is complete.
\<close>

record 'd CopyWorld =
  cw_rows :: "nat \<Rightarrow> (int \<times> 'd) list"
  cw_receipts :: "(nat \<times> PartID) list"
  cw_marks :: "nat list"
  cw_tables :: "nat \<Rightarrow> (nat \<times> bool) option"
  cw_parts :: "nat \<times> PartID \<Rightarrow> bool option"

definition copy_error :: "string \<Rightarrow> CallError" where
  "copy_error msg = \<lparr>ce_msg = msg, ce_canceled = False, ce_pgCode = None, ce_safeToRetry = False\<rparr>"

definition ctx_error :: CallError where
  "ctx_error = \<lparr>ce_msg = ''context canceled'', ce_canceled = True, ce_pgCode = None, ce_safeToRetry = False\<rparr>"

section \<open>The local store\<close>

definition UpsertTable :: "CopyTable \<Rightarrow> nat \<Rightarrow> (unit, 'd CopyWorld) M" where
  "UpsertTable t partsTotal =
     (if ct_OID t = 0 \<or> ct_Schema t = [] \<or> ct_Name t = [] then mfail (copy_error ''table OID, schema, and name are required'')
      else call (\<lambda>w. w\<lparr>cw_tables := (cw_tables w)(ct_OID t \<mapsto>
        (partsTotal, case cw_tables w (ct_OID t) of None \<Rightarrow> False | Some (_, completed) \<Rightarrow> completed))\<rparr>))"

definition UpsertPart :: "nat \<Rightarrow> PartID \<Rightarrow> (unit, 'd CopyWorld) M" where
  "UpsertPart oid pid =
     (if oid = 0 then mfail (copy_error ''part table OID and ID are required'')
      else call (\<lambda>w. w\<lparr>cw_parts := (cw_parts w)((oid, pid) \<mapsto>
        (case cw_parts w (oid, pid) of None \<Rightarrow> False | Some completed \<Rightarrow> completed))\<rparr>))"

definition CompletePart :: "nat \<Rightarrow> PartID \<Rightarrow> (unit, 'd CopyWorld) M" where
  "CompletePart oid pid = mbind (mread (\<lambda>w. cw_parts w (oid, pid) \<noteq> None)) (\<lambda>exists.
     if exists then call (\<lambda>w. w\<lparr>cw_parts := (cw_parts w)((oid, pid) \<mapsto> True)\<rparr>)
     else mseq (call id) (mfail (copy_error ''part does not exist'')))"

definition CompleteTable :: "nat \<Rightarrow> (unit, 'd CopyWorld) M" where
  "CompleteTable oid = mbind (mread (\<lambda>w. cw_tables w oid)) (\<lambda>row. case row of
     Some (partsTotal, _) \<Rightarrow> call (\<lambda>w. w\<lparr>cw_tables := (cw_tables w)(oid \<mapsto> (partsTotal, True))\<rparr>)
   | None \<Rightarrow> mseq (call id) (mfail (copy_error ''tables does not exist'')))"

definition PartCompleted :: "bool \<Rightarrow> nat \<Rightarrow> PartID \<Rightarrow> (bool, 'd CopyWorld) M" where
  "PartCompleted cancelled oid pid =
     (if cancelled then mfail ctx_error
      else mseq (call id) (mread (\<lambda>w. cw_parts w (oid, pid) = Some True)))"

section \<open>One part\<close>

definition columnList :: "CopyColumn list \<Rightarrow> string list" where
  "columnList columns = map cc_Name (filter (\<lambda>c. \<not> cc_Generated c) columns)"

text \<open>
  What a part's transaction writes. \<open>copied\<close> is the row as the target stores it; a table without
  a column to copy gets as many default rows \<open>dflt\<close> as the source has.
\<close>

definition copied :: "'d SourceRow \<Rightarrow> int \<times> 'd" where
  "copied r = (row_key r, row_data r)"

definition clearCopiedRange :: "CopyPart \<Rightarrow> (int \<times> 'd) list \<Rightarrow> (int \<times> 'd) list" where
  "clearCopiedRange p rows = (case cp_Range p of
     None \<Rightarrow> rows
   | Some (a, b) \<Rightarrow>
       if ct_IntegerKey (cp_Table p) = [] then rows
       else filter (\<lambda>(key, _). \<not> (a \<le> key \<and> (if cp_EndInclusive p then key \<le> b else key < b))) rows)"

definition part_rows :: "(int \<times> 'd) \<Rightarrow> 'd SourceRow list \<Rightarrow> CopyPart \<Rightarrow> (int \<times> 'd) list \<Rightarrow> (int \<times> 'd) list" where
  "part_rows dflt src p rows =
     (if columnList (ct_Columns (cp_Table p)) = []
      then (if cp_Unsplit p then [] else rows) @ replicate (length (selected p src)) dflt
      else (if cp_Unsplit p then [] else clearCopiedRange p rows) @ map copied (selected p src))"

definition commit_part :: "(int \<times> 'd) \<Rightarrow> 'd SourceRow list \<Rightarrow> CopyPart \<Rightarrow> 'd CopyWorld \<Rightarrow> 'd CopyWorld" where
  "commit_part dflt src p w = (let oid = ct_OID (cp_Table p) in
     w\<lparr>cw_rows := (cw_rows w)(oid := part_rows dflt src p (cw_rows w oid)),
       cw_receipts := List.insert (oid, cp_ID p) (cw_receipts w)\<rparr>)"

definition part_calls :: "CopyPart \<Rightarrow> nat \<Rightarrow> string list" where
  "part_calls p rows =
     [''connect source'', ''connect target'', ''session settings'', ''begin source'', ''import snapshot'', ''row security''] @
     (if cp_Format p = Text then [''pin source''] else []) @ [''begin target''] @
     (if cp_Format p = Text then [''pin target''] else []) @
     (if columnList (ct_Columns (cp_Table p)) = []
      then [''count rows''] @ (if cp_Unsplit p then [''truncate''] else []) @ replicate ((rows + 255) div 256) ''insert batch''
      else (if cp_Unsplit p then [''truncate''] else if ct_IntegerKey (cp_Table p) = [] \<or> cp_Range p = None then [] else [''clear range'']) @
        [''copy'']) @
     [''record receipt'']"

definition copyPart :: "(nat \<Rightarrow> int \<times> 'd) \<Rightarrow> (nat \<Rightarrow> 'd SourceRow list) \<Rightarrow> CopyPart \<Rightarrow> (unit, 'd CopyWorld) M" where
  "copyPart dflt src p = (let oid = ct_OID (cp_Table p) in
     mseq (calls [''connect target'', ''read receipt''])
       (mbind (mread (\<lambda>w. (oid, cp_ID p) \<in> set (cw_receipts w))) (\<lambda>received.
          if received then CompletePart oid (cp_ID p)
          else mseq (calls (part_calls p (length (selected p (src oid)))))
            (mseq (call (commit_part (dflt oid) (src oid) p))
              (mseq (calls [''commit source'']) (CompletePart oid (cp_ID p)))))))"

definition retryableConnectionError :: "CallError \<Rightarrow> bool" where
  "retryableConnectionError e =
     (if ce_canceled e then False
      else case ce_pgCode e of Some code \<Rightarrow> take 2 code = ''08'' | None \<Rightarrow> ce_safeToRetry e)"

section \<open>The run\<close>

record RunnerConfig =
  rn_Snapshot :: string
  rn_Workers :: int
  rn_MaxAttempts :: int

definition LargestFirst :: "CopyPart list \<Rightarrow> CopyPart list" where
  "LargestFirst parts = sort_key (\<lambda>p. - cp_EstimatedBytes p) parts"

text \<open>
  The worker pool. The choices are those of the scheduler: the next part goes to an idle worker,
  a worker makes an attempt at its part, a worker gives up while it waits for another attempt,
  the dispatch stops, the caller's context is cancelled. An attempt's retries keep its number.
\<close>

record Pool =
  po_queue :: "CopyPart list"
  po_active :: "(CopyPart \<times> nat) list"
  po_idle :: nat
  po_first :: "CallError option"
  po_cancelled :: bool
  po_parent :: bool

datatype Choice = Dispatch | Attempt nat | GiveUp nat | StopDispatch | CancelParent

definition remove_nth :: "nat \<Rightarrow> 'a list \<Rightarrow> 'a list" where
  "remove_nth i xs = take i xs @ drop (Suc i) xs"

definition worker_fails :: "CallError \<Rightarrow> nat \<Rightarrow> Pool \<Rightarrow> Pool" where
  "worker_fails e i po = po\<lparr>po_active := remove_nth i (po_active po),
     po_first := (case po_first po of None \<Rightarrow> Some e | Some e \<Rightarrow> Some e), po_cancelled := True\<rparr>"

definition attempts :: "RunnerConfig \<Rightarrow> nat" where
  "attempts cfg = (if rn_MaxAttempts cfg \<le> 0 then 5 else if rn_MaxAttempts cfg > 5 then 5 else nat (rn_MaxAttempts cfg))"

fun pool_step :: "RunnerConfig \<Rightarrow> (nat \<Rightarrow> int \<times> 'd) \<Rightarrow> (nat \<Rightarrow> 'd SourceRow list) \<Rightarrow> Choice \<Rightarrow> Pool \<Rightarrow> (Pool, 'd CopyWorld) M" where
  "pool_step cfg dflt src Dispatch po fs w =
     (if po_queue po = [] \<or> po_idle po = 0 then (Done po, fs, w)
      else (Done (po\<lparr>po_queue := tl (po_queue po), po_active := po_active po @ [(hd (po_queue po), 1)], po_idle := po_idle po - 1\<rparr>), fs, w))"
| "pool_step cfg dflt src (Attempt i) po fs w =
     (if i \<ge> length (po_active po) then (Done po, fs, w)
      else let (p, n) = po_active po ! i in
        case copyPart dflt src p fs w of
          (Done _, fs, w) \<Rightarrow> (Done (po\<lparr>po_active := remove_nth i (po_active po), po_idle := Suc (po_idle po)\<rparr>), fs, w)
        | (Failed e, fs, w) \<Rightarrow>
            if retryableConnectionError e \<and> n < attempts cfg
            then (Done (po\<lparr>po_active := (po_active po)[i := (p, Suc n)]\<rparr>), fs, w)
            else (Done (worker_fails e i po), fs, w)
        | (Crashed, fs, w) \<Rightarrow> (Crashed, fs, w))"
| "pool_step cfg dflt src (GiveUp i) po fs w =
     (if i < length (po_active po) \<and> 1 < snd (po_active po ! i) \<and> po_cancelled po
      then (Done (worker_fails ctx_error i po), fs, w) else (Done po, fs, w))"
| "pool_step cfg dflt src StopDispatch po fs w =
     (Done (if po_cancelled po then po\<lparr>po_queue := []\<rparr> else po), fs, w)"
| "pool_step cfg dflt src CancelParent po fs w = (Done (po\<lparr>po_cancelled := True, po_parent := True\<rparr>), fs, w)"

text \<open>The schedule ends before the pool has drained: the process stopped.\<close>

fun pool_run :: "RunnerConfig \<Rightarrow> (nat \<Rightarrow> int \<times> 'd) \<Rightarrow> (nat \<Rightarrow> 'd SourceRow list) \<Rightarrow> Choice list \<Rightarrow> Pool \<Rightarrow> (Pool, 'd CopyWorld) M" where
  "pool_run cfg dflt src [] po fs w =
     (if po_queue po = [] \<and> po_active po = [] then (Done po, fs, w) else (Crashed, fs, w))"
| "pool_run cfg dflt src (c # cs) po fs w =
     (if po_queue po = [] \<and> po_active po = [] then (Done po, fs, w)
      else mbind (pool_step cfg dflt src c po) (pool_run cfg dflt src cs) fs w)"

definition prepareSplitTable :: "nat \<Rightarrow> (unit, 'd CopyWorld) M" where
  "prepareSplitTable oid =
     mseq (calls [''connect target'', ''begin'', ''synchronous commit'', ''insert marker''])
       (mbind (mread (\<lambda>w. oid \<in> set (cw_marks w))) (\<lambda>marked.
          if marked then call id
          else mseq (calls [''read receipts'']) (mbind (mread (\<lambda>w. \<exists>r\<in>set (cw_receipts w). fst r = oid)) (\<lambda>receipts.
            if receipts then mfail (copy_error ''split table preparation marker is missing but committed chunks exist'')
            else mseq (calls [''truncate''])
              (call (\<lambda>w. w\<lparr>cw_marks := oid # cw_marks w, cw_rows := (cw_rows w)(oid := [])\<rparr>))))))"

definition byTable :: "CopyPart list \<Rightarrow> nat \<Rightarrow> CopyPart list" where
  "byTable parts oid = filter (\<lambda>p. ct_OID (cp_Table p) = oid) parts"

definition register_table :: "CopyPart list \<Rightarrow> nat \<Rightarrow> (unit, 'd CopyWorld) M" where
  "register_table parts oid = (let ps = byTable parts oid in
     mseq (UpsertTable (cp_Table (hd ps)) (length ps))
       (mseq (foreachM (\<lambda>p. UpsertPart oid (cp_ID p)) ps)
         (if length ps > 1 then prepareSplitTable oid else mreturn ())))"

fun all_completed :: "bool \<Rightarrow> nat \<Rightarrow> CopyPart list \<Rightarrow> (bool, 'd CopyWorld) M" where
  "all_completed cancelled oid [] = mreturn True"
| "all_completed cancelled oid (p # ps) = mbind (PartCompleted cancelled oid (cp_ID p)) (\<lambda>completed.
     mbind (all_completed cancelled oid ps) (\<lambda>rest. mreturn (completed \<and> rest)))"

definition finish_table :: "CopyPart list \<Rightarrow> bool \<Rightarrow> nat \<Rightarrow> (unit, 'd CopyWorld) M" where
  "finish_table parts cancelled oid = mbind (all_completed cancelled oid (byTable parts oid)) (\<lambda>all.
     if all then CompleteTable oid else mreturn ())"

text \<open>\<open>order\<close> and \<open>order'\<close>: the orders in which the two loops meet the tables of the map.\<close>

definition RunCopy :: "RunnerConfig \<Rightarrow> (nat \<Rightarrow> int \<times> 'd) \<Rightarrow> (nat \<Rightarrow> 'd SourceRow list) \<Rightarrow> CopyPart list \<Rightarrow>
    nat list \<Rightarrow> Choice list \<Rightarrow> nat list \<Rightarrow> (unit, 'd CopyWorld) M" where
  "RunCopy cfg dflt src parts order choices order' =
     (if rn_Snapshot cfg = [] then mfail (copy_error ''source, target, state, and snapshot are required'')
      else mseq (calls [''connect target'', ''synchronous commit'', ''create state'', ''read position'', ''wait for flush''])
        (mseq (foreachM (register_table parts) order)
          (mbind (pool_run cfg dflt src choices \<lparr>po_queue = LargestFirst parts, po_active = [],
              po_idle = nat (if rn_Workers cfg < 1 then 1 else rn_Workers cfg), po_first = None, po_cancelled = False, po_parent = False\<rparr>)
            (\<lambda>po. case po_first po of Some e \<Rightarrow> mfail e
                | None \<Rightarrow> foreachM (finish_table parts (po_parent po)) order'))))"

end
