(* ===== verification/CopyExact.thy ===== *)
theory CopyExact
  imports CopyRun
begin

text \<open>
  The invariant of the initial copy: what a target table holds is what its receipts say, through
  failed attempts, retries, unknown commits and restarts.
\<close>

section \<open>The steps only add\<close>

definition grows :: "'d CopyWorld \<Rightarrow> 'd CopyWorld \<Rightarrow> bool" where
  "grows w w' \<longleftrightarrow> set (cw_receipts w) \<subseteq> set (cw_receipts w') \<and> set (cw_marks w) \<subseteq> set (cw_marks w') \<and>
     (\<forall>k. cw_parts w k = Some True \<longrightarrow> cw_parts w' k = Some True) \<and>
     (\<forall>oid n. cw_tables w oid = Some (n, True) \<longrightarrow> (\<exists>n'. cw_tables w' oid = Some (n', True)))"

lemma grows_refl [simp]: "grows w w"
  by (simp add: grows_def)

lemma grows_trans: "grows w w' \<Longrightarrow> grows w' w'' \<Longrightarrow> grows w w''"
  unfolding grows_def by (meson subset_trans)

definition growing :: "('a, 'd CopyWorld) M \<Rightarrow> bool" where
  "growing m \<longleftrightarrow> (\<forall>fs w. grows w (snd (snd (m fs w))))"

named_theorems growing_intros

lemma growing_bind [growing_intros]: "growing m \<Longrightarrow> (\<And>x. growing (f x)) \<Longrightarrow> growing (mbind m f)"
  unfolding growing_def mbind_def
  by (auto split: prod.splits outcome.splits) (metis grows_trans snd_conv)+

lemma growing_basic [growing_intros]: "growing (mreturn x)" "growing (mfail e)" "growing (mread f)"
  by (simp_all add: growing_def mreturn_def mfail_def mread_def)

lemma growing_call [growing_intros]: "(\<And>w. grows w (effect w)) \<Longrightarrow> growing (call effect)"
  by (auto simp: growing_def call_def split: list.splits Fault.splits)

lemma growing_calls [growing_intros]: "growing (calls names)"
  by (induction names) (auto intro!: growing_intros)

lemma growing_foreach [growing_intros]: "(\<And>x. growing (f x)) \<Longrightarrow> growing (foreachM f xs)"
  by (induction xs) (auto intro!: growing_intros)

lemma growing_if [growing_intros]: "growing m \<Longrightarrow> growing n \<Longrightarrow> growing (if b then m else n)"
  by simp

lemma growing_store [growing_intros]:
  "growing (UpsertTable t n)" "growing (UpsertPart oid pid)" "growing (CompletePart oid pid)" "growing (CompleteTable oid)"
  "growing (PartCompleted c oid pid)"
  unfolding UpsertTable_def UpsertPart_def CompletePart_def CompleteTable_def PartCompleted_def
  by (auto intro!: growing_intros simp: grows_def split: option.splits)

lemma growing_copyPart [growing_intros]: "growing (copyPart dflt src p)"
  unfolding copyPart_def Let_def
  by (auto intro!: growing_intros simp: commit_part_def grows_def Let_def)

lemma growing_prepare [growing_intros]: "growing (prepareSplitTable oid)"
  unfolding prepareSplitTable_def by (auto intro!: growing_intros simp: grows_def)

lemma growing_register [growing_intros]: "growing (register_table parts oid)"
  unfolding register_table_def Let_def by (intro growing_intros)

lemma growing_finish [growing_intros]: "growing (finish_table parts c oid)"
proof -
  have "growing (all_completed c oid ps)" for ps
    by (induction ps) (auto intro!: growing_intros)
  then show ?thesis unfolding finish_table_def by (intro growing_intros) auto
qed

section \<open>The invariant\<close>

definition received :: "'d CopyWorld \<Rightarrow> nat \<Rightarrow> CopyPart list \<Rightarrow> CopyPart list" where
  "received w oid ps = filter (\<lambda>p. (oid, cp_ID p) \<in> set (cw_receipts w)) ps"

definition content :: "'d SourceRow list \<Rightarrow> CopyPart list \<Rightarrow> (int \<times> 'd) list" where
  "content rows ps = concat (map (\<lambda>p. map copied (selected p rows)) ps)"

text \<open>The target table is this copy's: it was truncated for it, or its one part is copied.\<close>

definition started :: "CopyPart list \<Rightarrow> 'd CopyWorld \<Rightarrow> nat \<Rightarrow> bool" where
  "started parts w oid \<longleftrightarrow> (let ps = byTable parts oid in
     if \<exists>p\<in>set ps. cp_Unsplit p then received w oid ps \<noteq> [] else oid \<in> set (cw_marks w) \<or> length ps = 1)"

text \<open>
  A table of several parts and a whole part are truncated; a table whose plan is one range part is
  not. Its part clears the keys of the range only, so of the rows the table held before the
  copy (\<open>before\<close>) the others stay.
\<close>

definition retained :: "CopyPart \<Rightarrow> (int \<times> 'd) list \<Rightarrow> (int \<times> 'd) list" where
  "retained p rows = (if columnList (ct_Columns (cp_Table p)) = [] then rows else clearCopiedRange p rows)"

definition leftover :: "CopyPart list \<Rightarrow> (int \<times> 'd) list \<Rightarrow> (int \<times> 'd) list" where
  "leftover ps rows = (case ps of [p] \<Rightarrow> if cp_Unsplit p then [] else retained p rows | _ \<Rightarrow> [])"

definition surplus :: "(nat \<Rightarrow> (int \<times> 'd) list) \<Rightarrow> 'd CopyWorld \<Rightarrow> nat \<Rightarrow> CopyPart list \<Rightarrow> (int \<times> 'd) list" where
  "surplus before w oid ps = (case ps of
     [p] \<Rightarrow> if cp_Unsplit p then [] else if (oid, cp_ID p) \<in> set (cw_receipts w) then retained p (before oid) else before oid
   | _ \<Rightarrow> [])"

lemma surplus_leftover: "received w oid ps = ps \<Longrightarrow> surplus before w oid ps = leftover ps (before oid)"
  by (auto simp: surplus_def leftover_def received_def split: list.splits if_splits)

lemma surplus_receipts: "cw_receipts w' = cw_receipts w \<Longrightarrow> surplus before w' = surplus before w"
  by (intro ext) (simp add: surplus_def split: list.split)

lemma surplus_truncated: "1 < length ps \<or> (\<exists>p\<in>set ps. cp_Unsplit p) \<Longrightarrow> surplus before w oid ps = []"
  by (auto simp: surplus_def split: list.splits)

definition copy_inv :: "(nat \<Rightarrow> 'd SourceRow list) \<Rightarrow> (nat \<Rightarrow> (int \<times> 'd) list) \<Rightarrow> CopyPart list \<Rightarrow> 'd CopyWorld \<Rightarrow> bool" where
  "copy_inv src before parts w \<longleftrightarrow> (\<forall>oid. let ps = byTable parts oid in
     (\<forall>p\<in>set ps. cw_parts w (oid, cp_ID p) = Some True \<longrightarrow> (oid, cp_ID p) \<in> set (cw_receipts w)) \<and>
     (if started parts w oid
      then mset (cw_rows w oid) = mset (surplus before w oid ps) + mset (content (src oid) (received w oid ps))
      else received w oid ps = []))"

text \<open>What the proofs need of a plan.\<close>

definition part_shape :: "CopyPart \<Rightarrow> bool" where
  "part_shape p \<longleftrightarrow> (if cp_Unsplit p then cp_Predicate p = Everything
     else ct_IntegerKey (cp_Table p) \<noteq> [] \<longrightarrow>
       (\<exists>a b. cp_Predicate p = KeyRange a b (cp_EndInclusive p) \<and> cp_Range p = Some (a, b)))"

definition plan_ok :: "(nat \<Rightarrow> int \<times> 'd) \<Rightarrow> (nat \<Rightarrow> 'd SourceRow list) \<Rightarrow> CopyPart list \<Rightarrow> bool" where
  "plan_ok dflt src parts \<longleftrightarrow> (\<forall>p\<in>set parts. part_shape p \<and>
     (columnList (ct_Columns (cp_Table p)) = [] \<longrightarrow> (\<forall>r\<in>set (src (ct_OID (cp_Table p))). copied r = dflt (ct_OID (cp_Table p)))) \<and>
     (let ps = byTable parts (ct_OID (cp_Table p)) in
       distinct (map cp_ID ps) \<and> (cp_Unsplit p \<longrightarrow> ps = [p]) \<and>
       (\<forall>r\<in>set (src (ct_OID (cp_Table p))). length (filter (\<lambda>p. selects (cp_Predicate p) r) ps) = 1)))"

lemma content_insert:
  assumes "distinct (map cp_ID ps)" "p \<in> set ps" "\<not> P (cp_ID p)"
  shows "mset (content rows (filter (\<lambda>q. cp_ID q = cp_ID p \<or> P (cp_ID q)) ps)) =
    mset (content rows (filter (\<lambda>q. P (cp_ID q)) ps)) + mset (map copied (selected p rows))"
  using assms
proof (induction ps)
  case (Cons q ps)
  show ?case
  proof (cases "q = p")
    case True
    then have "cp_ID p \<notin> cp_ID ` set ps" using Cons.prems(1) by simp
    then have "cp_ID x \<noteq> cp_ID p" if "x \<in> set ps" for x using imageI [OF that, of cp_ID] by auto
    then have "filter (\<lambda>q. cp_ID q = cp_ID p \<or> P (cp_ID q)) ps = filter (\<lambda>q. P (cp_ID q)) ps"
      by (intro filter_cong) auto
    with True Cons.prems(3) show ?thesis by (simp add: content_def)
  next
    case False
    then have "cp_ID q \<noteq> cp_ID p" using Cons.prems(1,2) by auto
    with Cons False show ?thesis by (auto simp: content_def)
  qed
qed simp

lemma received_commit:
  assumes "oid = ct_OID (cp_Table p)"
  shows "received (commit_part d rows p w) oid' ps =
    (if oid' = oid then filter (\<lambda>q. cp_ID q = cp_ID p \<or> (oid, cp_ID q) \<in> set (cw_receipts w)) ps else received w oid' ps)"
  using assms by (auto simp: received_def commit_part_def Let_def intro!: filter_cong)

lemma clear_other:
  assumes shape: "part_shape p" "\<not> cp_Unsplit p" and p: "p \<in> set ps" "distinct (map cp_ID ps)" "\<not> P (cp_ID p)"
    and once: "\<forall>r\<in>set rows. length (filter (\<lambda>p. selects (cp_Predicate p) r) ps) = 1"
    and held: "mset held = mset (content rows (filter (\<lambda>q. P (cp_ID q)) ps))"
  shows "clearCopiedRange p held = held"
proof (cases "ct_IntegerKey (cp_Table p) = [] \<or> cp_Range p = None")
  case True
  then show ?thesis by (auto simp: clearCopiedRange_def split: option.splits)
next
  case False
  then obtain a b where ab: "cp_Predicate p = KeyRange a b (cp_EndInclusive p)" "cp_Range p = Some (a, b)"
    using shape by (auto simp: part_shape_def)
  have "\<not> (a \<le> fst x \<and> (if cp_EndInclusive p then fst x \<le> b else fst x < b))" if x: "x \<in> set held" for x
  proof
    assume sel: "a \<le> fst x \<and> (if cp_EndInclusive p then fst x \<le> b else fst x < b)"
    have "x \<in> set (content rows (filter (\<lambda>q. P (cp_ID q)) ps))" using x held by (metis set_mset_mset)
    then obtain q r where q: "q \<in> set ps" "P (cp_ID q)" and r: "r \<in> set rows" "selects (cp_Predicate q) r" "x = copied r"
      by (auto simp: content_def selected_def)
    have "selects (cp_Predicate p) r" using sel unfolding r(3) by (cases "cp_EndInclusive p") (simp_all add: ab copied_def)
    with q r p have "p \<in> set (filter (\<lambda>p. selects (cp_Predicate p) r) ps)" "q \<in> set (filter (\<lambda>p. selects (cp_Predicate p) r) ps)"
      by simp_all
    moreover obtain y where "filter (\<lambda>p. selects (cp_Predicate p) r) ps = [y]"
      using once r(1) by (auto simp: length_Suc_conv)
    ultimately have "p = q" by simp
    with q(2) p(3) show False by simp
  qed
  with False ab show ?thesis
    by (cases "cp_EndInclusive p") (auto simp: clearCopiedRange_def filter_id_conv)
qed

lemma commit_inv:
  assumes ok: "plan_ok dflt src parts" and p: "p \<in> set parts" and oid: "oid = ct_OID (cp_Table p)"
    and inv: "copy_inv src before parts w" and new: "(oid, cp_ID p) \<notin> set (cw_receipts w)" and start: "\<not> cp_Unsplit p \<longrightarrow> started parts w oid"
  shows "copy_inv src before parts (commit_part (dflt oid) (src oid) p w)"
proof -
  let ?w = "commit_part (dflt oid) (src oid) p w" and ?ps = "byTable parts oid"
  let ?P = "\<lambda>i. (oid, i) \<in> set (cw_receipts w)"
  have mem: "p \<in> set ?ps" using p oid by (simp add: byTable_def)
  have plan: "part_shape p" "distinct (map cp_ID ?ps)" "cp_Unsplit p \<Longrightarrow> ?ps = [p]"
      "\<forall>r\<in>set (src oid). length (filter (\<lambda>p. selects (cp_Predicate p) r) ?ps) = 1"
      "columnList (ct_Columns (cp_Table p)) = [] \<Longrightarrow> \<forall>r\<in>set (src oid). copied r = dflt oid"
    using ok p oid unfolding plan_ok_def by (auto simp: Let_def)
  have unsplit: "(\<exists>q\<in>set ?ps. cp_Unsplit q) \<longleftrightarrow> cp_Unsplit p"
  proof
    assume "\<exists>q\<in>set ?ps. cp_Unsplit q"
    then obtain q where q: "q \<in> set ?ps" "cp_Unsplit q" by blast
    then have "byTable parts oid = [q]" using ok oid unfolding plan_ok_def by (auto simp: Let_def byTable_def)
    with mem q show "cp_Unsplit p" by simp
  qed (use mem in blast)
  have rows: "mset (part_rows (dflt oid) (src oid) p (cw_rows w oid)) = mset (surplus before ?w oid ?ps) +
      mset (content (src oid) (filter (\<lambda>q. cp_ID q = cp_ID p \<or> ?P (cp_ID q)) ?ps))"
  proof -
    have gen: "replicate (length (selected p (src oid))) (dflt oid) = map copied (selected p (src oid))"
      if "columnList (ct_Columns (cp_Table p)) = []"
    proof -
      have "\<forall>r\<in>set (selected p (src oid)). copied r = dflt oid" using plan(5) [OF that] by (simp add: selected_def)
      then have "map copied (selected p (src oid)) = map (\<lambda>_. dflt oid) (selected p (src oid))" by simp
      then show ?thesis by (simp add: map_replicate_const)
    qed
    consider "cp_Unsplit p" | "\<not> cp_Unsplit p" "?ps = [p]" | "\<not> cp_Unsplit p" "?ps \<noteq> [p]" by blast
    then show ?thesis
    proof cases
      case 1
      with plan(3) gen new show ?thesis by (simp add: part_rows_def content_def surplus_def)
    next
      case 2
      have "mset (cw_rows w oid) = mset (before oid)"
        using inv start 2 new by (auto simp: copy_inv_def Let_def received_def surplus_def content_def)
      then have "mset (retained p (cw_rows w oid)) = mset (retained p (before oid))"
        by (auto simp: retained_def clearCopiedRange_def split: option.splits)
      moreover have "surplus before ?w oid [p] = retained p (before oid)"
        using 2 oid by (simp add: surplus_def commit_part_def Let_def)
      ultimately show ?thesis
        using 2 gen by (auto simp: part_rows_def content_def retained_def)
    next
      case 3
      then have many: "1 < length ?ps" using mem by (cases ?ps rule: remdups_adj.cases) auto
      then have held: "mset (cw_rows w oid) = mset (content (src oid) (filter (\<lambda>q. ?P (cp_ID q)) ?ps))"
        using inv start 3 by (auto simp: copy_inv_def Let_def received_def surplus_truncated)
      have "clearCopiedRange p (cw_rows w oid) = cw_rows w oid"
        using clear_other [OF plan(1) 3(1) mem plan(2) new plan(4) held] .
      with 3 gen content_insert [OF plan(2) mem, of ?P "src oid"] new held show ?thesis
        by (simp add: part_rows_def surplus_truncated [OF disjI1 [OF many]])
    qed
  qed
  have started: "started parts ?w oid" "oid' \<noteq> oid \<Longrightarrow> started parts ?w oid' = started parts w oid'" for oid'
    using start mem unsplit
    by (auto simp: started_def Let_def received_commit [OF oid] filter_empty_conv) (auto simp: commit_part_def Let_def started_def)
  show ?thesis
    unfolding copy_inv_def
  proof
    fix oid'
    show "let ps = byTable parts oid' in
      (\<forall>p\<in>set ps. cw_parts ?w (oid', cp_ID p) = Some True \<longrightarrow> (oid', cp_ID p) \<in> set (cw_receipts ?w)) \<and>
      (if started parts ?w oid' then mset (cw_rows ?w oid') = mset (surplus before ?w oid' ps) + mset (content (src oid') (received ?w oid' ps))
       else received ?w oid' ps = [])"
    proof (cases "oid' = oid")
      case True
      with inv started(1) rows oid show ?thesis
        by (auto simp: Let_def received_commit [OF oid]) (auto simp: commit_part_def Let_def copy_inv_def)
    next
      case False
      have "surplus before ?w oid' ps = surplus before w oid' ps" for ps
        using False oid by (auto simp: surplus_def commit_part_def Let_def split: list.splits)
      with False inv started(2) oid show ?thesis
        by (auto simp: Let_def received_commit [OF oid] copy_inv_def) (auto simp: commit_part_def Let_def)
    qed
  qed
qed


section \<open>The steps keep the invariant\<close>

lemma inv_store:
  assumes "copy_inv src before parts w" "cw_rows w' = cw_rows w" "cw_receipts w' = cw_receipts w" "cw_marks w' = cw_marks w"
    "\<And>oid i. cw_parts w' (oid, i) = Some True \<Longrightarrow> cw_parts w (oid, i) = Some True \<or> (oid, i) \<in> set (cw_receipts w)"
  shows "copy_inv src before parts w'"
proof -
  have eq: "received w' = received w" "started parts w' = started parts w" "surplus before w' = surplus before w"
    using assms(3,4) surplus_receipts [OF assms(3)] by (simp_all add: received_def started_def fun_eq_iff)
  show ?thesis using assms(1,5) unfolding copy_inv_def Let_def eq assms(2,3) by blast
qed

definition recorded :: "CopyPart \<Rightarrow> 'd CopyWorld \<Rightarrow> bool" where
  "recorded p w \<longleftrightarrow> cw_parts w (ct_OID (cp_Table p), cp_ID p) = Some True"

lemma grows_recorded: "grows w w' \<Longrightarrow> recorded p w \<Longrightarrow> recorded p w'"
  by (simp add: grows_def recorded_def)

lemma grows_started: "grows w w' \<Longrightarrow> started parts w oid \<Longrightarrow> started parts w' oid"
  unfolding started_def received_def filter_empty_conv Let_def grows_def by (auto split: if_splits)

lemma complete_part_triple:
  "triple (\<lambda>w. copy_inv src before parts w \<and> (ct_OID (cp_Table p), cp_ID p) \<in> set (cw_receipts w))
     (CompletePart (ct_OID (cp_Table p)) (cp_ID p)) (\<lambda>_ w. copy_inv src before parts w \<and> recorded p w) (copy_inv src before parts)"
  unfolding CompletePart_def
proof (rule triple_bind [OF triple_read])
  fix x
  let ?P = "\<lambda>w. (copy_inv src before parts w \<and> (ct_OID (cp_Table p), cp_ID p) \<in> set (cw_receipts w)) \<and>
    x = (cw_parts w (ct_OID (cp_Table p), cp_ID p) \<noteq> None)"
  let ?e = "\<lambda>w. w\<lparr>cw_parts := (cw_parts w)((ct_OID (cp_Table p), cp_ID p) \<mapsto> True)\<rparr>"
  have step: "?P w \<Longrightarrow> copy_inv src before parts (?e w)" for w
    by (rule inv_store [where w = w]) (auto split: if_splits)
  have fail: "triple ?P (mseq (call id) (mfail (copy_error ''part does not exist''))) (\<lambda>_ w. copy_inv src before parts w \<and> recorded p w) (copy_inv src before parts)"
    by (rule triple_bind [where Q = "\<lambda>_. copy_inv src before parts"], rule triple_call) (auto intro: triple_fail)
  have set: "triple ?P (call ?e) (\<lambda>_ w. copy_inv src before parts w \<and> recorded p w) (copy_inv src before parts)"
    by (rule triple_call) (use step in \<open>auto simp: recorded_def\<close>)
  show "triple ?P (if x then call ?e else mseq (call id) (mfail (copy_error ''part does not exist'')))
      (\<lambda>_ w. copy_inv src before parts w \<and> recorded p w) (copy_inv src before parts)"
  proof (cases x)
    case True
    show ?thesis unfolding if_P [OF True] by (rule set)
  next
    case False
    show ?thesis unfolding if_not_P [OF False] by (rule fail)
  qed
qed

lemma copy_part_triple:
  assumes ok: "plan_ok dflt src parts" and p: "p \<in> set parts"
  shows "triple (\<lambda>w. copy_inv src before parts w \<and> (\<not> cp_Unsplit p \<longrightarrow> started parts w (ct_OID (cp_Table p))))
    (copyPart dflt src p) (\<lambda>_ w. copy_inv src before parts w \<and> recorded p w) (copy_inv src before parts)"
proof -
  let ?oid = "ct_OID (cp_Table p)" and ?I = "copy_inv src before parts"
  let ?P = "\<lambda>w. ?I w \<and> (\<not> cp_Unsplit p \<longrightarrow> started parts w ?oid)"
  let ?N = "\<lambda>w. ?P w \<and> (?oid, cp_ID p) \<notin> set (cw_receipts w)"
  let ?R = "\<lambda>w. ?I w \<and> (?oid, cp_ID p) \<in> set (cw_receipts w)"
  have commit: "triple ?N (call (commit_part (dflt ?oid) (src ?oid) p)) (\<lambda>_. ?R) ?I"
    by (rule triple_call) (use commit_inv [OF ok p refl] in \<open>auto simp: commit_part_def Let_def\<close>)
  have new: "triple ?N (mseq (calls names) (mseq (call (commit_part (dflt ?oid) (src ?oid) p)) (mseq (calls names') (CompletePart ?oid (cp_ID p)))))
      (\<lambda>_ w. ?I w \<and> recorded p w) ?I" for names names'
    by (intro triple_bind [OF triple_calls] triple_bind [OF commit] complete_part_triple) auto
  show ?thesis
    unfolding copyPart_def Let_def
  proof (intro triple_bind [OF triple_calls] triple_bind [OF triple_read])
    fix received
    show "triple (\<lambda>w. ?P w \<and> received = ((?oid, cp_ID p) \<in> set (cw_receipts w)))
      (if received then CompletePart ?oid (cp_ID p)
       else mseq (calls (part_calls p (length (selected p (src ?oid)))))
         (mseq (call (commit_part (dflt ?oid) (src ?oid) p)) (mseq (calls [''commit source'']) (CompletePart ?oid (cp_ID p)))))
      (\<lambda>_ w. ?I w \<and> recorded p w) ?I"
    proof (cases received)
      case True
      show ?thesis unfolding if_P [OF True] by (rule triple_weaken [OF complete_part_triple]) (use True in auto)
    next
      case False
      show ?thesis unfolding if_not_P [OF False] by (rule triple_weaken [OF new]) (use False in auto)
    qed
  qed auto
qed

lemma prepare_triple:
  assumes "1 < length (byTable parts oid)" "\<forall>p\<in>set (byTable parts oid). \<not> cp_Unsplit p"
  shows "triple (copy_inv src before parts) (prepareSplitTable oid) (\<lambda>_ w. copy_inv src before parts w \<and> started parts w oid) (copy_inv src before parts)"
proof -
  let ?I = "copy_inv src before parts"
  let ?e = "\<lambda>w. w\<lparr>cw_marks := oid # cw_marks w, cw_rows := (cw_rows w)(oid := [])\<rparr>"
  let ?N = "\<lambda>w. ?I w \<and> oid \<notin> set (cw_marks w)" and ?C = "\<lambda>w. ?I w \<and> oid \<notin> set (cw_marks w) \<and> (\<forall>r\<in>set (cw_receipts w). fst r \<noteq> oid)"
  have step: "?I (?e w)" if "?C w" for w
  proof -
    have "surplus before (?e w) = surplus before w" by (rule surplus_receipts) simp
    moreover have "received (?e w) = received w" by (simp add: received_def fun_eq_iff)
    moreover have "received w oid ps = []" for ps using that by (auto simp: received_def filter_empty_conv)
    moreover have "started parts (?e w) oid' = (oid' = oid \<or> started parts w oid')" for oid'
      using assms(2) by (auto simp: started_def Let_def received_def)
    ultimately show ?thesis
      using that surplus_truncated [OF disjI1, OF assms(1), of before w oid] unfolding copy_inv_def
      by (simp add: Let_def content_def)
  qed
  have mark: "triple ?C (call ?e) (\<lambda>_ w. ?I w \<and> started parts w oid) ?I"
    by (rule triple_call) (use step assms(2) in \<open>auto simp: started_def Let_def\<close>)
  have new: "triple ?N (mseq (calls names) (mbind (mread (\<lambda>w. \<exists>r\<in>set (cw_receipts w). fst r = oid)) (\<lambda>receipts.
      if receipts then mfail e else mseq (calls names') (call ?e)))) (\<lambda>_ w. ?I w \<and> started parts w oid) ?I" for names names' e
  proof (intro triple_bind [OF triple_calls] triple_bind [OF triple_read])
    fix receipts
    show "triple (\<lambda>w. ?N w \<and> receipts = (\<exists>r\<in>set (cw_receipts w). fst r = oid))
      (if receipts then mfail e else mseq (calls names') (call ?e)) (\<lambda>_ w. ?I w \<and> started parts w oid) ?I"
    proof (cases receipts)
      case False
      show ?thesis unfolding if_not_P [OF False]
        by (rule triple_weaken [OF triple_bind [OF triple_calls mark]]) (use False in auto)
    qed (auto intro: triple_fail)
  qed auto
  have old: "triple (\<lambda>w. ?I w \<and> oid \<in> set (cw_marks w)) (call id) (\<lambda>_ w. ?I w \<and> started parts w oid) ?I"
    by (rule triple_call) (use assms(2) in \<open>auto simp: started_def Let_def\<close>)
  show ?thesis
    unfolding prepareSplitTable_def
  proof (intro triple_bind [OF triple_calls] triple_bind [OF triple_read])
    fix marked
    show "triple (\<lambda>w. ?I w \<and> marked = (oid \<in> set (cw_marks w)))
      (if marked then call id else mseq (calls [''read receipts'']) (mbind (mread (\<lambda>w. \<exists>r\<in>set (cw_receipts w). fst r = oid)) (\<lambda>receipts.
        if receipts then mfail (copy_error ''split table preparation marker is missing but committed chunks exist'')
        else mseq (calls [''truncate'']) (call ?e)))) (\<lambda>_ w. ?I w \<and> started parts w oid) ?I"
      by (cases marked; simp only: if_True if_False simp_thms; intro triple_weaken [OF old] triple_weaken [OF new]; auto)
  qed auto
qed

end
