(* ===== verification/CopyProps.thy ===== *)
theory CopyProps
  imports CopyExact
begin

text \<open>
  The whole copy: registration, the worker pool and the completion of the tables, over any number
  of runs, and what a run that returns without error has done.
\<close>

section \<open>Accumulating what steps establish\<close>

lemma growing_step: "growing m \<Longrightarrow> m fs w = (r, fs', w') \<Longrightarrow> grows w w'"
  unfolding growing_def by (metis snd_conv)

lemma triple_grow:
  assumes "triple P m Q R" "growing m" "\<And>w w'. grows w w' \<Longrightarrow> G w \<Longrightarrow> G w'"
  shows "triple (\<lambda>w. P w \<and> G w) m (\<lambda>x w. Q x w \<and> G w) R"
proof (rule tripleI)
  fix fs w r fs' w' assume p: "P w \<and> G w" and run: "m fs w = (r, fs', w')"
  have "grows w w'" by (rule growing_step [OF assms(2) run])
  with p tripleD [OF assms(1) _ run] assms(3) show "case r of Done x \<Rightarrow> Q x w' \<and> G w' | _ \<Rightarrow> R w'"
    by (auto split: outcome.splits)
qed

lemma triple_foreach_all:
  assumes "\<And>x. triple P (f x) (\<lambda>_ w. P w \<and> F x w) R" "\<And>x. growing (f x)" "\<And>x w w'. grows w w' \<Longrightarrow> F x w \<Longrightarrow> F x w'"
    "\<And>w. P w \<Longrightarrow> R w"
  shows "triple P (foreachM f xs) (\<lambda>_ w. P w \<and> (\<forall>x\<in>set xs. F x w)) R"
proof (induction xs)
  case (Cons x xs)
  have "triple (\<lambda>w. P w \<and> F x w) (foreachM f xs) (\<lambda>_ w. (P w \<and> (\<forall>x\<in>set xs. F x w)) \<and> F x w) R"
    by (rule triple_grow [OF Cons.IH]) (auto intro!: growing_intros assms(2) intro: assms(3))
  then show ?case
    unfolding foreachM.simps
    by (intro triple_bind [OF assms(1)]) (auto elim: triple_weaken)
qed (auto intro: triple_return)

section \<open>Registration\<close>

definition ready :: "CopyPart list \<Rightarrow> nat \<Rightarrow> 'd CopyWorld \<Rightarrow> bool" where
  "ready parts oid w \<longleftrightarrow> (\<forall>p\<in>set (byTable parts oid). \<not> cp_Unsplit p \<longrightarrow> started parts w oid)"

lemma grows_ready: "grows w w' \<Longrightarrow> ready parts oid w \<Longrightarrow> ready parts oid w'"
  unfolding ready_def using grows_started by blast

lemma unsplit_alone:
  assumes "plan_ok dflt src parts" "p \<in> set (byTable parts oid)" "cp_Unsplit p"
  shows "byTable parts oid = [p]"
proof -
  have p: "p \<in> set parts" "ct_OID (cp_Table p) = oid" using assms(2) by (simp_all add: byTable_def)
  show ?thesis using assms(1) p(1) assms(3) unfolding plan_ok_def p(2) [symmetric] Let_def by blast
qed

lemma register_triple:
  assumes ok: "plan_ok dflt src parts"
  shows "triple (copy_inv src before parts) (register_table parts oid) (\<lambda>_ w. copy_inv src before parts w \<and> ready parts oid w) (copy_inv src before parts)"
proof -
  let ?I = "copy_inv src before parts" and ?ps = "byTable parts oid"
  have table: "triple ?I (UpsertTable t n) (\<lambda>_. ?I) ?I" for t n
    unfolding UpsertTable_def
    by (cases "ct_OID t = 0 \<or> ct_Schema t = [] \<or> ct_Name t = []")
      (auto intro: triple_fail intro!: triple_call elim!: inv_store)
  have part: "triple ?I (UpsertPart oid i) (\<lambda>_. ?I) ?I" for i
    unfolding UpsertPart_def
    by (cases "oid = 0") (auto intro: triple_fail intro!: triple_call elim!: inv_store split: option.splits if_splits)
  have last: "triple ?I (if length ?ps > 1 then prepareSplitTable oid else mreturn ()) (\<lambda>_ w. ?I w \<and> ready parts oid w) ?I"
  proof (cases "length ?ps > 1")
    case True
    have "\<forall>p\<in>set ?ps. \<not> cp_Unsplit p" using unsplit_alone [OF ok] True by fastforce
    from prepare_triple [OF True this] show ?thesis
      unfolding if_P [OF True] by (rule triple_weaken) (auto simp: ready_def)
  next
    case False
    have "ready parts oid w" for w :: "'a CopyWorld"
    proof (cases ?ps)
      case (Cons p ps)
      with False show ?thesis by (auto simp: ready_def started_def Let_def)
    qed (simp add: ready_def)
    then show ?thesis unfolding if_not_P [OF False] by (intro triple_return) blast
  qed
  show ?thesis
    unfolding register_table_def Let_def
    by (rule triple_bind [OF table], rule triple_bind [OF triple_foreach last]) (auto intro: part)
qed

section \<open>The pool\<close>

definition pool_inv :: "(nat \<Rightarrow> 'd SourceRow list) \<Rightarrow> (nat \<Rightarrow> (int \<times> 'd) list) \<Rightarrow> CopyPart list \<Rightarrow> Pool \<Rightarrow> 'd CopyWorld \<Rightarrow> bool" where
  "pool_inv src before parts po w \<longleftrightarrow> copy_inv src before parts w \<and> (\<forall>p\<in>set parts. ready parts (ct_OID (cp_Table p)) w) \<and>
     set (po_queue po) \<subseteq> set parts \<and> fst ` set (po_active po) \<subseteq> set parts \<and>
     (\<forall>p\<in>set parts. p \<in> set (po_queue po) \<or> p \<in> fst ` set (po_active po) \<or> po_cancelled po \<or> recorded p w) \<and>
     (po_cancelled po \<longrightarrow> po_first po \<noteq> None \<or> po_parent po)"

lemma pool_invD:
  assumes "pool_inv src before parts po w"
  shows "copy_inv src before parts w" "p \<in> set parts \<Longrightarrow> ready parts (ct_OID (cp_Table p)) w"
    "(p, n) \<in> set (po_active po) \<Longrightarrow> p \<in> set parts"
  using assms by (auto simp: pool_inv_def image_subset_iff)

lemma readyD: "ready parts (ct_OID (cp_Table p)) w \<Longrightarrow> p \<in> set parts \<Longrightarrow> \<not> cp_Unsplit p \<Longrightarrow> started parts w (ct_OID (cp_Table p))"
  unfolding ready_def byTable_def by auto

lemma set_remove_nth: "i < length xs \<Longrightarrow> set xs = insert (xs ! i) (set (remove_nth i xs))"
  by (metis (no_types, lifting) id_take_nth_drop list.simps(15) remove_nth_def set_append Un_insert_right)

lemma worker_fails_inv:
  assumes "pool_inv src before parts po w'" "i < length (po_active po)"
  shows "pool_inv src before parts (worker_fails e i po) w'"
  using assms set_remove_nth [OF assms(2)]
  by (auto simp: pool_inv_def worker_fails_def split: option.splits)

lemma pool_grows:
  assumes "pool_inv src before parts po w" "grows w w'" "copy_inv src before parts w'"
  shows "pool_inv src before parts po w'"
  unfolding pool_inv_def
proof (intro conjI ballI)
  fix p assume "p \<in> set parts"
  with assms(1) show "ready parts (ct_OID (cp_Table p)) w'" "p \<in> set (po_queue po) \<or> p \<in> fst ` set (po_active po) \<or> po_cancelled po \<or> recorded p w'"
    using grows_ready [OF assms(2)] grows_recorded [OF assms(2), of p] unfolding pool_inv_def by auto
qed (use assms(1,3) in \<open>simp_all add: pool_inv_def\<close>)

lemma pool_step_triple:
  assumes ok: "plan_ok dflt src parts"
  shows "triple (pool_inv src before parts po) (pool_step cfg dflt src c po) (pool_inv src before parts) (copy_inv src before parts)"
proof (rule tripleI)
  fix fs w r fs' w' assume inv: "pool_inv src before parts po w" and run: "pool_step cfg dflt src c po fs w = (r, fs', w')"
  show "case r of Done x \<Rightarrow> pool_inv src before parts x w' | _ \<Rightarrow> copy_inv src before parts w'"
  proof (cases c)
    case Dispatch
    then show ?thesis
    proof (cases "po_queue po = [] \<or> po_idle po = 0")
      case False
      then obtain p ps where "po_queue po = p # ps" by (cases "po_queue po") auto
      with False run Dispatch have "r = outcome.Done (po\<lparr>po_queue := ps, po_active := po_active po @ [(p, 1)], po_idle := po_idle po - 1\<rparr>) \<and> w' = w"
        by simp
      moreover have "pool_inv src before parts (po\<lparr>po_queue := ps, po_active := po_active po @ [(p, 1)], po_idle := po_idle po - 1\<rparr>) w"
        using inv \<open>po_queue po = p # ps\<close> unfolding pool_inv_def by simp blast
      ultimately show ?thesis by simp
    next
      case True
      with run Dispatch have "r = outcome.Done po \<and> w' = w" by auto
      with inv show ?thesis by simp
    qed
  next
    case (Attempt i)
    show ?thesis
    proof (cases "i < length (po_active po)")
      case True
      obtain p n where pn: "po_active po ! i = (p, n)" by force
      have mem: "(p, n) \<in> set (po_active po)" using True pn nth_mem by metis
      then have p: "p \<in> set parts" by (rule pool_invD(3) [OF inv])
      obtain r1 fs1 w1 where m: "copyPart dflt src p fs w = (r1, fs1, w1)" by (metis prod_cases3)
      have "copy_inv src before parts w \<and> (\<not> cp_Unsplit p \<longrightarrow> started parts w (ct_OID (cp_Table p)))"
        using pool_invD(1) [OF inv] readyD [OF pool_invD(2) [OF inv p] p] by blast
      note post = tripleD [OF copy_part_triple [OF ok p] this m]
      have grows: "grows w w1" by (rule growing_step [OF growing_copyPart m])
      have inv1: "pool_inv src before parts po w1" using pool_grows [OF inv grows] post by (cases r1) auto
      have cont: "pool_inv src before parts (po\<lparr>po_active := (po_active po)[i := (p, Suc n)]\<rparr>) w1"
      proof -
        have "fst ` set ((po_active po)[i := (p, Suc n)]) = fst ` set (po_active po)"
          using True pn by (metis fst_conv list_update_id map_update set_map)
        with inv1 show ?thesis by (simp add: pool_inv_def)
      qed
      have fin: "pool_inv src before parts (po\<lparr>po_active := remove_nth i (po_active po), po_idle := Suc (po_idle po)\<rparr>) w1" if "recorded p w1"
      proof -
        have "fst ` set (po_active po) = insert p (fst ` set (remove_nth i (po_active po)))"
          using set_remove_nth [OF True] pn by simp
        with inv1 that show ?thesis unfolding pool_inv_def by auto
      qed
      have failed: "pool_inv src before parts (worker_fails e i po) w1" for e by (rule worker_fails_inv [OF inv1 True])
      show ?thesis
      proof (cases r1)
        case (Done u)
        have "r = outcome.Done (po\<lparr>po_active := remove_nth i (po_active po), po_idle := Suc (po_idle po)\<rparr>) \<and> w' = w1"
          using run True pn m unfolding Attempt Done by simp
        with fin post Done show ?thesis by simp
      next
        case (Failed e)
        have "r = outcome.Done (if retryableConnectionError e \<and> n < attempts cfg then po\<lparr>po_active := (po_active po)[i := (p, Suc n)]\<rparr>
            else worker_fails e i po) \<and> w' = w1"
          using run True pn m unfolding Attempt Failed by (auto split: if_splits)
        with cont failed show ?thesis by simp
      next
        case Crashed
        have "r = outcome.Crashed \<and> w' = w1" using run True pn m unfolding Attempt Crashed by simp
        with post Crashed show ?thesis by simp
      qed
    next
      case False
      with run Attempt have "r = outcome.Done po \<and> w' = w" by auto
      with inv show ?thesis by simp
    qed
  next
    case (GiveUp i)
    with run have "w' = w \<and> (r = outcome.Done po \<or> i < length (po_active po) \<and> r = outcome.Done (worker_fails ctx_error i po))"
      by (auto split: if_splits)
    with inv worker_fails_inv [OF inv, of i ctx_error] show ?thesis by auto
  next
    case StopDispatch
    with run have "r = outcome.Done (if po_cancelled po then po\<lparr>po_queue := []\<rparr> else po) \<and> w' = w" by simp
    with inv show ?thesis unfolding pool_inv_def by (simp, blast)
  next
    case CancelParent
    with run have "r = outcome.Done (po\<lparr>po_cancelled := True, po_parent := True\<rparr>) \<and> w' = w" by simp
    with inv show ?thesis unfolding pool_inv_def by simp
  qed
qed

lemma pool_run_triple:
  assumes ok: "plan_ok dflt src parts"
  shows "triple (pool_inv src before parts po) (pool_run cfg dflt src cs po)
    (\<lambda>po w. pool_inv src before parts po w \<and> po_queue po = [] \<and> po_active po = []) (copy_inv src before parts)"
proof (induction cs arbitrary: po)
  case Nil
  then show ?case by (rule tripleI) (auto simp: pool_inv_def split: if_splits)
next
  case (Cons c cs)
  show ?case
  proof (rule tripleI)
    fix fs w r fs' w' assume inv: "pool_inv src before parts po w" and run: "pool_run cfg dflt src (c # cs) po fs w = (r, fs', w')"
    show "case r of Done x \<Rightarrow> pool_inv src before parts x w' \<and> po_queue x = [] \<and> po_active x = [] | _ \<Rightarrow> copy_inv src before parts w'"
    proof (cases "po_queue po = [] \<and> po_active po = []")
      case True
      with inv run show ?thesis by auto
    next
      case False
      then have "mbind (pool_step cfg dflt src c po) (pool_run cfg dflt src cs) fs w = (r, fs', w')" using run by auto
      from tripleD [OF triple_bind [OF pool_step_triple [OF ok] Cons.IH] inv this] show ?thesis .
    qed
  qed
qed

section \<open>Completing the tables\<close>

lemma all_completed_reads:
  assumes "all_completed c oid ps fs w = (r, fs', w')"
  shows "w' = w \<and> (\<forall>x. r = Done x \<longrightarrow> (ps \<noteq> [] \<longrightarrow> \<not> c) \<and> x = (\<forall>p\<in>set ps. cw_parts w (oid, cp_ID p) = Some True))"
  using assms
proof (induction ps arbitrary: fs r fs' w')
  case (Cons p ps)
  obtain r1 fs1 w1 where m: "PartCompleted c oid (cp_ID p) fs w = (r1, fs1, w1)" by (metis prod_cases3)
  then have part: "w1 = w" "\<And>x. r1 = Done x \<Longrightarrow> \<not> c \<and> x = (cw_parts w (oid, cp_ID p) = Some True)"
    by (auto simp: PartCompleted_def mfail_def mbind_def call_def mread_def split: if_splits list.splits Fault.splits)
  show ?case
  proof (cases r1)
    case (Done x)
    obtain r2 fs2 w2 where m2: "all_completed c oid ps fs1 w = (r2, fs2, w2)" by (metis prod_cases3)
    with Cons.IH [OF m2] Cons.prems m part Done show ?thesis
      by (cases r2) (auto simp: mbind_def mreturn_def)
  qed (use Cons.prems m part in \<open>auto simp: mbind_def\<close>)
qed (simp add: mreturn_def)

definition completed :: "CopyPart list \<Rightarrow> nat \<Rightarrow> 'd CopyWorld \<Rightarrow> bool" where
  "completed parts oid w \<longleftrightarrow> (\<forall>p\<in>set (byTable parts oid). recorded p w \<and> (\<exists>n. cw_tables w oid = Some (n, True)))"

lemma grows_completed: "grows w w' \<Longrightarrow> completed parts oid w \<Longrightarrow> completed parts oid w'"
  unfolding completed_def
proof (intro ballI conjI)
  fix p assume g: "grows w w'" and all: "\<forall>p\<in>set (byTable parts oid). recorded p w \<and> (\<exists>n. cw_tables w oid = Some (n, True))"
    and p: "p \<in> set (byTable parts oid)"
  from all p show "recorded p w'" using grows_recorded [OF g] by blast
  from all p obtain n where "cw_tables w oid = Some (n, True)" by blast
  with g show "\<exists>n. cw_tables w' oid = Some (n, True)" unfolding grows_def by blast
qed

lemma complete_table_triple:
  "triple (\<lambda>w. copy_inv src before parts w \<and> (\<forall>p\<in>set (byTable parts oid). recorded p w)) (CompleteTable oid)
     (\<lambda>_ w. copy_inv src before parts w \<and> completed parts oid w) (copy_inv src before parts)"
  unfolding CompleteTable_def
proof (rule triple_bind [OF triple_read])
  fix row
  let ?P = "\<lambda>w. (copy_inv src before parts w \<and> (\<forall>p\<in>set (byTable parts oid). recorded p w)) \<and> row = cw_tables w oid"
  show "triple ?P (case row of Some (partsTotal, _) \<Rightarrow> call (\<lambda>w. w\<lparr>cw_tables := (cw_tables w)(oid \<mapsto> (partsTotal, True))\<rparr>)
      | None \<Rightarrow> mseq (call id) (mfail (copy_error ''tables does not exist'')))
    (\<lambda>_ w. copy_inv src before parts w \<and> completed parts oid w) (copy_inv src before parts)"
  proof (cases row)
    case None
    show ?thesis unfolding None option.case
      by (rule triple_bind [where Q = "\<lambda>_. copy_inv src before parts"], rule triple_call) (auto intro: triple_fail)
  next
    case (Some x)
    obtain n b where x: "x = (n, b)" by force
    have inv: "copy_inv src before parts w \<Longrightarrow> copy_inv src before parts (w\<lparr>cw_tables := (cw_tables w)(oid \<mapsto> (n, True))\<rparr>)" for w :: "'a CopyWorld"
      by (rule inv_store [where w = w]) auto
    show ?thesis unfolding Some x option.case prod.case
      by (rule triple_call) (auto simp: inv completed_def recorded_def)
  qed
qed

lemma finish_triple:
  "triple (\<lambda>w. copy_inv src before parts w \<and> (\<forall>p\<in>set parts. c \<or> recorded p w)) (finish_table parts c oid)
     (\<lambda>_ w. (copy_inv src before parts w \<and> (\<forall>p\<in>set parts. c \<or> recorded p w)) \<and> completed parts oid w) (copy_inv src before parts)"
proof (rule tripleI)
  fix fs w r fs' w'
  assume inv: "copy_inv src before parts w \<and> (\<forall>p\<in>set parts. c \<or> recorded p w)" and run: "finish_table parts c oid fs w = (r, fs', w')"
  obtain r1 fs1 w1 where m: "all_completed c oid (byTable parts oid) fs w = (r1, fs1, w1)" by (metis prod_cases3)
  note reads = all_completed_reads [OF m]
  have grow: "grows w w'" by (rule growing_step [OF growing_finish run])
  show "case r of Done x \<Rightarrow> (copy_inv src before parts w' \<and> (\<forall>p\<in>set parts. c \<or> recorded p w')) \<and> completed parts oid w' | _ \<Rightarrow> copy_inv src before parts w'"
  proof (cases r1)
    case (Done x)
    have rec: "byTable parts oid \<noteq> [] \<Longrightarrow> \<not> c" "x = (\<forall>p\<in>set (byTable parts oid). recorded p w)"
      using reads Done by (auto simp: recorded_def byTable_def)
    have all: "\<forall>p\<in>set (byTable parts oid). recorded p w"
    proof (cases "byTable parts oid = []")
      case False
      have "set (byTable parts oid) \<subseteq> set parts" by (auto simp: byTable_def)
      with inv rec(1) [OF False] show ?thesis by blast
    qed simp
    then have "CompleteTable oid fs1 w = (r, fs', w')"
      using run m reads Done rec(2) by (simp add: finish_table_def mbind_def)
    from tripleD [OF complete_table_triple _ this] inv all grows_recorded [OF grow] show ?thesis
      by (cases r) auto
  qed (use run m reads inv in \<open>auto simp: finish_table_def mbind_def\<close>)
qed


section \<open>The run and its history\<close>

definition oids :: "CopyPart list \<Rightarrow> nat set" where
  "oids parts = (\<lambda>p. ct_OID (cp_Table p)) ` set parts"

lemma run_triple:
  assumes ok: "plan_ok dflt src parts" and orders: "oids parts \<subseteq> set order" "oids parts \<subseteq> set order'"
  shows "triple (copy_inv src before parts) (RunCopy cfg dflt src parts order choices order')
    (\<lambda>_ w. copy_inv src before parts w \<and> (\<forall>oid\<in>oids parts. completed parts oid w)) (copy_inv src before parts)"
proof (cases "rn_Snapshot cfg = []")
  case True
  then show ?thesis by (simp add: RunCopy_def triple_fail)
next
  case False
  let ?I = "copy_inv src before parts"
  let ?pool = "\<lparr>po_queue = LargestFirst parts, po_active = [], po_idle = nat (if rn_Workers cfg < 1 then 1 else rn_Workers cfg),
    po_first = None, po_cancelled = False, po_parent = False\<rparr>"
  have reg: "triple ?I (foreachM (register_table parts) order) (\<lambda>_ w. ?I w \<and> (\<forall>oid\<in>set order. ready parts oid w)) ?I"
    by (rule triple_foreach_all [OF register_triple [OF ok] growing_register grows_ready])
  have start: "pool_inv src before parts ?pool w" if "?I w \<and> (\<forall>oid\<in>set order. ready parts oid w)" for w
    using that orders(1) by (auto simp: pool_inv_def LargestFirst_def oids_def)
  have finish: "triple (\<lambda>w. pool_inv src before parts po w \<and> po_queue po = [] \<and> po_active po = [])
      (case po_first po of Some e \<Rightarrow> mfail e | None \<Rightarrow> foreachM (finish_table parts (po_parent po)) order')
      (\<lambda>_ w. ?I w \<and> (\<forall>oid\<in>oids parts. completed parts oid w)) ?I" for po
  proof (cases "po_first po")
    case None
    have "triple (\<lambda>w. ?I w \<and> (\<forall>p\<in>set parts. po_parent po \<or> recorded p w)) (foreachM (finish_table parts (po_parent po)) order')
        (\<lambda>_ w. (?I w \<and> (\<forall>p\<in>set parts. po_parent po \<or> recorded p w)) \<and> (\<forall>oid\<in>set order'. completed parts oid w)) ?I"
      by (rule triple_foreach_all [OF finish_triple growing_finish grows_completed]) auto
    then show ?thesis
      unfolding None option.case by (rule triple_weaken) (use None orders(2) in \<open>auto simp: pool_inv_def\<close>)
  qed (auto intro: triple_fail simp: pool_inv_def)
  show ?thesis
    unfolding RunCopy_def if_not_P [OF False]
    by (rule triple_bind [OF triple_calls triple_bind [OF reg triple_bind [OF triple_weaken [OF pool_run_triple [OF ok] start] finish]]]) auto
qed

text \<open>
  Runs of the same plan over the same snapshot, with any faults, schedules and numbers of workers;
  each may fail or stop anywhere. \<open>order\<close> lists the keys of the code's map of tables. \<open>before\<close> is what
  the target tables hold when the first run starts: any rows.
\<close>

inductive copy_reach :: "(nat \<Rightarrow> int \<times> 'd) \<Rightarrow> (nat \<Rightarrow> 'd SourceRow list) \<Rightarrow> (nat \<Rightarrow> (int \<times> 'd) list) \<Rightarrow> CopyPart list \<Rightarrow>
    'd CopyWorld \<Rightarrow> bool"
  for dflt src before parts where
  copy_start: "cw_receipts w = [] \<Longrightarrow> cw_marks w = [] \<Longrightarrow> cw_parts w = Map.empty \<Longrightarrow> cw_rows w = before \<Longrightarrow>
    copy_reach dflt src before parts w"
| copy_run: "copy_reach dflt src before parts w \<Longrightarrow> set order = oids parts \<Longrightarrow> set order' = oids parts \<Longrightarrow>
    RunCopy cfg dflt src parts order choices order' faults w = (r, rest, w') \<Longrightarrow> copy_reach dflt src before parts w'"

lemma start_inv:
  assumes "cw_receipts w = []" "cw_marks w = []" "cw_parts w = Map.empty" "cw_rows w = before"
  shows "copy_inv src before parts w"
proof -
  have "received w oid ps = []" for oid ps using assms(1) by (simp add: received_def)
  moreover have "cw_rows w oid = surplus before w oid (byTable parts oid)" if "started parts w oid" for oid
  proof -
    from that assms(2) \<open>\<And>oid ps. received w oid ps = []\<close> obtain p where p: "byTable parts oid = [p]" "\<not> cp_Unsplit p"
      by (auto simp: started_def Let_def length_Suc_conv split: if_splits)
    with assms show ?thesis by (simp add: surplus_def)
  qed
  ultimately show ?thesis using assms(3) by (simp add: copy_inv_def Let_def content_def)
qed

lemma reach_copy_inv: "copy_reach dflt src before parts w \<Longrightarrow> plan_ok dflt src parts \<Longrightarrow> copy_inv src before parts w"
proof (induction rule: copy_reach.induct)
  case (copy_start w)
  then show ?case by (intro start_inv)
next
  case (copy_run w order order' cfg choices faults r rest w')
  from tripleD [OF run_triple [OF copy_run(6), of order order'] _ copy_run(4)] copy_run show ?case
    by (cases r) auto
qed

section \<open>The plan of a set of tables\<close>

definition plan_tables :: "int \<Rightarrow> int \<Rightarrow> (CopyTable \<Rightarrow> Format) \<Rightarrow> CopyTable list \<Rightarrow> CopyPart list" where
  "plan_tables desiredBytes cap format ts = concat (map (\<lambda>t. Plan t desiredBytes cap (format t)) ts)"

text \<open>The tables as the inventory reads them, with the rows of the snapshot.\<close>

definition tables_ok :: "(nat \<Rightarrow> int \<times> 'd) \<Rightarrow> (nat \<Rightarrow> 'd SourceRow list) \<Rightarrow> int \<Rightarrow> CopyTable list \<Rightarrow> bool" where
  "tables_ok dflt src cap ts \<longleftrightarrow> distinct (map ct_OID ts) \<and> (\<forall>t\<in>set ts. inventoried t (src (ct_OID t)) \<and>
     0 \<le> ct_HeapBlocks t \<and> ct_HeapBlocks t + cap < 2 ^ 61 \<and>
     (columnList (ct_Columns t) = [] \<longrightarrow> (\<forall>r\<in>set (src (ct_OID t)). copied r = dflt (ct_OID t))))"


lemma plan_shape:
  assumes "p \<in> set (Plan t desiredBytes cap format)" "ct_IntegerKey t \<noteq> [] \<and> \<not> ct_Empty t \<longrightarrow> ct_HasKeyBounds t \<and> ct_KeyMin t \<le> ct_KeyMax t"
  shows "cp_Table p = t \<and> part_shape p \<and> (cp_Unsplit p \<longrightarrow> Plan t desiredBytes cap format = [p])"
proof -
  have key: "q \<in> set (key_parts t format width count i) \<Longrightarrow> cp_Table q = t \<and> part_shape q \<and> \<not> cp_Unsplit q" for q width count i
  proof (induction t format width count i rule: key_parts.induct)
    case (1 t format width count i)
    let ?stop = "i \<ge> count \<or> ct_KeyMin t + width * int i > ct_KeyMax t"
      and ?last = "i = count - 1 \<or> ct_KeyMin t + width * int i + width > ct_KeyMax t"
    consider ?stop | "\<not> ?stop" ?last | "\<not> ?stop" "\<not> ?last" by blast
    then show ?case
    proof cases
      case 3
      from 1(2) have "q \<in> set (key_parts t format width count (Suc i)) \<or> cp_Table q = t \<and> part_shape q \<and> \<not> cp_Unsplit q"
        using 3 by (subst (asm) key_parts.simps) (auto simp: Let_def part_shape_def)
      with 1(1) [OF refl refl 3] show ?thesis by blast
    qed (use 1(2) in \<open>subst (asm) key_parts.simps, auto simp: Let_def part_shape_def\<close>)+
  qed
  have block: "q \<in> set (block_parts t format width count start i) \<Longrightarrow> cp_Table q = t \<and> \<not> cp_Unsplit q" for q width count start i
  proof (induction t format width count start i rule: block_parts.induct)
    case (1 t format width count start i)
    show ?case
    proof (cases "start < ct_HeapBlocks t \<and> i < count")
      case True
      from 1(2) have "q \<in> set (block_parts t format width count (s64 (start + width)) (Suc i)) \<or> cp_Table q = t \<and> \<not> cp_Unsplit q"
        using True by (subst (asm) block_parts.simps) (auto simp: Let_def)
      with 1(1) [OF _ refl refl] True show ?thesis by blast
    qed (use 1(2) in \<open>subst (asm) block_parts.simps, simp\<close>)
  qed
  have whole: "cp_Table (whole_part t format) = t \<and> part_shape (whole_part t format)"
    by (simp add: whole_part_def part_shape_def)
  let ?cap = "if cap < 1 then 1 else cap"
  show ?thesis
  proof (cases "?cap = 1 \<or> desiredBytes \<le> 0 \<or> ct_Bytes t \<le> desiredBytes \<or> ct_Empty t")
    case True
    then have "Plan t desiredBytes cap format = [whole_part t format]" unfolding Plan_def Let_def by (rule if_P)
    with assms(1) whole show ?thesis by simp
  next
    case False
    note plan = Plan_def [of t desiredBytes cap format, unfolded Let_def if_not_P [OF False]]
    show ?thesis
    proof (cases "ct_IntegerKey t = []")
      case True
      with assms(1) block whole show ?thesis
        unfolding plan by (auto simp: part_shape_def split: if_splits)
    next
      case k: False
      with assms(2) False have "ct_IntegerKey t \<noteq> [] \<and> hasBounds t \<and> ct_KeyMax t \<ge> ct_KeyMin t" by (simp add: hasBounds_def)
      with assms(1) key show ?thesis unfolding plan by auto
    qed
  qed
qed

lemma plan_nonempty:
  assumes "ct_IntegerKey t \<noteq> [] \<and> \<not> ct_Empty t \<longrightarrow> ct_HasKeyBounds t \<and> ct_KeyMin t \<le> ct_KeyMax t"
  shows "Plan t desiredBytes cap format \<noteq> []"
proof -
  have "0 < part_count t desiredBytes c" for c by (simp add: part_count_def Let_def)
  moreover have "ct_KeyMin t \<le> ct_KeyMax t \<Longrightarrow> 0 < n \<Longrightarrow> key_parts t format width n 0 \<noteq> []" for width n
    by (subst key_parts.simps) (simp add: Let_def)
  moreover have "0 < n \<Longrightarrow> \<not> ct_HeapBlocks t < 2 \<Longrightarrow> block_parts t format width n 0 0 \<noteq> []" for width n
    by (subst block_parts.simps) (simp add: Let_def)
  ultimately show ?thesis by (auto simp: Plan_def Let_def)
qed

lemma byTable_plan:
  assumes "distinct (map ct_OID ts)" "t \<in> set ts" "\<And>t p. t \<in> set ts \<Longrightarrow> p \<in> set (f t) \<Longrightarrow> cp_Table p = t"
  shows "byTable (concat (map f ts)) (ct_OID t) = f t"
  using assms
proof (induction ts)
  case (Cons u ts)
  have u: "byTable (f u) oid = (if ct_OID u = oid then f u else [])" for oid
    using Cons.prems(3) [of u] by (auto simp: byTable_def filter_id_conv filter_empty_conv)
  have rest: "byTable (concat (map f ts)) (ct_OID u) = []"
  proof -
    have "ct_OID (cp_Table p) \<noteq> ct_OID u" if p: "p \<in> set (concat (map f ts))" for p
    proof -
      from p obtain t where t: "t \<in> set ts" "p \<in> set (f t)" by auto
      then have "cp_Table p = t" using Cons.prems(3) [of t p] by simp
      moreover have "ct_OID u \<notin> ct_OID ` set ts" using Cons.prems(1) by simp
      ultimately show ?thesis using imageI [OF t(1), of ct_OID] by metis
    qed
    then show ?thesis unfolding byTable_def filter_empty_conv by blast
  qed
  have app: "byTable (concat (map f (u # ts))) oid = byTable (f u) oid @ byTable (concat (map f ts)) oid" for oid
    by (simp add: byTable_def)
  show ?case
  proof (cases "t = u")
    case True
    with u rest show ?thesis unfolding app by simp
  next
    case False
    then have "t \<in> set ts" using Cons.prems(2) by simp
    then have "ct_OID u \<noteq> ct_OID t" using Cons.prems(1) by auto
    with u Cons.IH Cons.prems \<open>t \<in> set ts\<close> show ?thesis unfolding app by simp
  qed
qed simp

lemma plan_tables_ok:
  assumes ok: "tables_ok dflt src cap ts"
  shows "plan_ok dflt src (plan_tables desiredBytes cap format ts)"
    "t \<in> set ts \<Longrightarrow> byTable (plan_tables desiredBytes cap format ts) (ct_OID t) = Plan t desiredBytes cap (format t)"
proof -
  let ?plan = "\<lambda>t. Plan t desiredBytes cap (format t)" and ?parts = "plan_tables desiredBytes cap format ts"
  have keys: "ct_IntegerKey t \<noteq> [] \<and> \<not> ct_Empty t \<longrightarrow> ct_HasKeyBounds t \<and> ct_KeyMin t \<le> ct_KeyMax t" if "t \<in> set ts" for t
    using ok that by (auto simp: tables_ok_def inventoried_def)
  have shape: "cp_Table p = t \<and> part_shape p \<and> (cp_Unsplit p \<longrightarrow> ?plan t = [p])" if "t \<in> set ts" "p \<in> set (?plan t)" for t p
    using plan_shape [OF that(2) keys [OF that(1)]] .
  have tab: "byTable ?parts (ct_OID t) = ?plan t" if "t \<in> set ts" for t
    unfolding plan_tables_def using ok that shape by (intro byTable_plan) (auto simp: tables_ok_def)
  then show "t \<in> set ts \<Longrightarrow> byTable ?parts (ct_OID t) = ?plan t" .
  show "plan_ok dflt src ?parts"
    unfolding plan_ok_def
  proof
    fix p assume "p \<in> set ?parts"
    then obtain t where t: "t \<in> set ts" "p \<in> set (?plan t)" by (auto simp: plan_tables_def)
    note p = shape [OF t]
    have once: "length (filter (\<lambda>p. selects (cp_Predicate p) r) (?plan t)) = 1" if "r \<in> set (src (ct_OID t))" for r
      using plan_splits [OF _ that, of t cap desiredBytes "format t"] ok t(1) by (auto simp: tables_ok_def)
    have ids: "distinct (map cp_ID (?plan t))" by (rule plan_ids)
    show "part_shape p \<and> (columnList (ct_Columns (cp_Table p)) = [] \<longrightarrow>
        (\<forall>r\<in>set (src (ct_OID (cp_Table p))). copied r = dflt (ct_OID (cp_Table p)))) \<and>
      (let ps = byTable ?parts (ct_OID (cp_Table p)) in distinct (map cp_ID ps) \<and> (cp_Unsplit p \<longrightarrow> ps = [p]) \<and>
        (\<forall>r\<in>set (src (ct_OID (cp_Table p))). length (filter (\<lambda>p. selects (cp_Predicate p) r) ps) = 1))"
      using p ids once ok t(1) tab [OF t(1)] by (simp add: Let_def tables_ok_def)
  qed
qed


lemma content_all:
  assumes "\<forall>r\<in>set rows. length (filter (\<lambda>p. selects (cp_Predicate p) r) ps) = 1"
  shows "mset (content rows ps) = mset (map copied rows)"
  using assms
proof (induction rows)
  case (Cons r rows)
  have "mset (content (r # rows) ps) =
      replicate_mset (length (filter (\<lambda>p. selects (cp_Predicate p) r) ps)) (copied r) + mset (content rows ps)" for ps
    by (induction ps) (auto simp: content_def selected_def)
  with Cons show ?case by simp
qed (simp add: content_def selected_def)

section \<open>A concrete copy, for the witnesses\<close>

definition demo_table :: CopyTable where
  "demo_table = example_table\<lparr>ct_Columns := [\<lparr>cc_Name = ''id'', cc_TypeName = ''int8'', cc_BuiltIn = True, cc_Generated = False\<rparr>]\<rparr>"

definition demo_src :: "nat \<Rightarrow> int SourceRow list" where
  "demo_src oid = (if oid = 42 then [example_row 0 (- 5), example_row 1 4, example_row 9 11] else [])"

definition demo_parts :: "CopyPart list" where
  "demo_parts = plan_tables 300 2 (\<lambda>_. Binary) [demo_table]"

text \<open>The target holds a row that is not of the copy; the second attempt's commit succeeds but reports a lost connection.\<close>

definition demo_world :: "int CopyWorld" where
  "demo_world = \<lparr>cw_rows = (\<lambda>_. [(99, 99)]), cw_receipts = [], cw_marks = [], cw_tables = Map.empty, cw_parts = Map.empty\<rparr>"

definition demo_faults :: "Fault list" where
  "demo_faults = replicate 42 Fine @ [Fails \<lparr>ce_msg = ''commit'', ce_canceled = False, ce_pgCode = Some ''08006'', ce_safeToRetry = False\<rparr> True]"

definition demo_run :: "unit outcome \<times> Fault list \<times> int CopyWorld" where
  "demo_run = RunCopy \<lparr>rn_Snapshot = ''s'', rn_Workers = 2, rn_MaxAttempts = 3\<rparr> (\<lambda>_. (0, 0)) demo_src demo_parts [42]
     [Dispatch, Dispatch, Attempt 1, Attempt 0, Attempt 0] [42] demo_faults demo_world"

lemma demo_done: "demo_run = (Done (), [], snd (snd demo_run))"
  by (simp add: prod_eq_iff) (intro conjI; code_simp)

lemma demo_ok: "tables_ok (\<lambda>_. (0, 0)) demo_src 2 [demo_table]"
  by (auto simp: tables_ok_def inventoried_def demo_table_def example_table_def demo_src_def example_row_def columnList_def)

lemma demo_oids: "oids demo_parts = {42}"
  by code_simp

lemma demo_start: "copy_reach (\<lambda>_. (0, 0)) demo_src (\<lambda>_. [(99, 99)]) demo_parts demo_world"
  by (rule copy_start) (simp_all add: demo_world_def)

section \<open>What the copy guarantees\<close>

text \<open>C32: At every moment of the copy, through failed attempts, retries, commits with unknown outcome,
  crashes and restarts: a part the local store calls complete has its receipt on the target, and
  the rows of a table that was split are exactly those of its parts with a receipt, each once,
  from the moment it was truncated for the copy; before that it has no receipt.\<close>

theorem copy_matches_receipts:
  assumes "tables_ok dflt src cap ts" "copy_reach dflt src before (plan_tables desiredBytes cap format ts) w"
    "t \<in> set ts" "ps = Plan t desiredBytes cap (format t)" "1 < length ps"
  shows "(\<forall>p\<in>set ps. cw_parts w (ct_OID t, cp_ID p) = Some True \<longrightarrow> (ct_OID t, cp_ID p) \<in> set (cw_receipts w)) \<and>
    (if ct_OID t \<in> set (cw_marks w)
     then mset (cw_rows w (ct_OID t)) = mset (content (src (ct_OID t)) (received w (ct_OID t) ps))
     else received w (ct_OID t) ps = [])"
proof -
  let ?parts = "plan_tables desiredBytes cap format ts"
  have inv: "copy_inv src before ?parts w" by (rule reach_copy_inv [OF assms(2) plan_tables_ok(1) [OF assms(1)]])
  have tab: "byTable ?parts (ct_OID t) = ps" using plan_tables_ok(2) [OF assms(1,3)] assms(4) by simp
  have none: "surplus before w (ct_OID t) ps = []" by (rule surplus_truncated [OF disjI1 [OF assms(5)]])
  have "\<forall>p\<in>set ps. \<not> cp_Unsplit p"
    using unsplit_alone [OF plan_tables_ok(1) [OF assms(1)], of _ desiredBytes format "ct_OID t", unfolded tab] assms(5) by fastforce
  then have "started ?parts w (ct_OID t) \<longleftrightarrow> ct_OID t \<in> set (cw_marks w)"
    using assms(5) by (auto simp: started_def Let_def tab)
  with inv show ?thesis unfolding copy_inv_def Let_def
    by (metis tab none mset.simps(1) add_0)
qed

theorem copy_matches_receipts_witness:
  "mset (cw_rows (snd (snd demo_run)) 42) =
     mset (content (demo_src 42) (received (snd (snd demo_run)) 42 (Plan demo_table 300 2 Binary)))"
proof -
  have reach: "copy_reach (\<lambda>_. (0, 0)) demo_src (\<lambda>_. [(99, 99)]) (plan_tables 300 2 (\<lambda>_. Binary) [demo_table]) (snd (snd demo_run))"
    using copy_run [OF demo_start _ _ demo_done [unfolded demo_run_def]] demo_oids
    by (simp add: demo_parts_def demo_run_def)
  have split: "1 < length (Plan demo_table 300 2 Binary)" and marked: "42 \<in> set (cw_marks (snd (snd demo_run)))" by code_simp+
  have oid: "ct_OID demo_table = 42" by (simp add: demo_table_def example_table_def)
  from copy_matches_receipts [OF demo_ok reach _ refl split] marked show ?thesis by (simp add: oid)
qed

text \<open>C31: A run of the copy that returns without error has copied every table: the target table holds
  every row of the snapshot, none missing or twice, and the store calls all its parts and the table
  complete. This holds for every number of workers and every schedule, whatever earlier runs did or
  where they stopped, and whatever the target tables held before the copy. A table planned as a whole
  or as several parts holds nothing else. A table planned as one range part is never truncated: it
  keeps those of its old rows that the part does not clear (for a key range, the rows with other
  keys), and with the rows of the snapshot those are all it holds.\<close>

theorem copy_exactly_once:
  assumes "tables_ok dflt src cap ts" "parts = plan_tables desiredBytes cap format ts" "copy_reach dflt src before parts w"
    "set order = oids parts" "set order' = oids parts"
    "RunCopy cfg dflt src parts order choices order' faults w = (Done (), rest, w')"
  shows "\<forall>t\<in>set ts. mset (cw_rows w' (ct_OID t)) =
      mset (map copied (src (ct_OID t))) + mset (leftover (byTable parts (ct_OID t)) (before (ct_OID t))) \<and>
    (\<exists>n. cw_tables w' (ct_OID t) = Some (n, True)) \<and> (\<forall>p\<in>set (byTable parts (ct_OID t)). recorded p w')"
proof
  fix t assume t: "t \<in> set ts"
  let ?oid = "ct_OID t" and ?ps = "byTable parts (ct_OID t)"
  have ok: "plan_ok dflt src parts" unfolding assms(2) by (rule plan_tables_ok(1) [OF assms(1)])
  have inv: "copy_inv src before parts w" by (rule reach_copy_inv [OF assms(3) ok])
  have post: "copy_inv src before parts w'" "\<forall>oid\<in>oids parts. completed parts oid w'"
    using tripleD [OF run_triple [OF ok, of order order'] inv assms(6)] assms(4,5) by simp_all
  have plan: "?ps = Plan t desiredBytes cap (format t)"
    unfolding assms(2) by (rule plan_tables_ok(2) [OF assms(1) t])
  have "?ps \<noteq> []" unfolding plan by (rule plan_nonempty) (use assms(1) t in \<open>auto simp: tables_ok_def inventoried_def\<close>)
  then obtain p ps where ps: "?ps = p # ps" by (cases ?ps) auto
  then have "p \<in> set ?ps" by simp
  then have mem: "p \<in> set parts" "ct_OID (cp_Table p) = ?oid" by (simp_all add: byTable_def)
  then have "?oid \<in> oids parts" by (force simp: oids_def)
  with post(2) have rec: "\<forall>p\<in>set ?ps. recorded p w' \<and> (\<exists>n. cw_tables w' ?oid = Some (n, True))" by (simp add: completed_def)
  have "cw_parts w' (?oid, cp_ID q) = Some True" if "q \<in> set ?ps" for q
    using rec that by (auto simp: recorded_def byTable_def)
  then have received: "received w' ?oid ?ps = ?ps"
    using post(1) unfolding received_def filter_id_conv copy_inv_def Let_def by blast
  have "started parts w' ?oid"
    using post(1) received ps unfolding copy_inv_def Let_def by (metis list.distinct(1))
  then have "mset (cw_rows w' ?oid) = mset (surplus before w' ?oid ?ps) + mset (content (src ?oid) ?ps)"
    using post(1) received unfolding copy_inv_def Let_def by metis
  moreover have "mset (content (src ?oid) ?ps) = mset (map copied (src ?oid))"
    using ok mem unfolding plan_ok_def Let_def by (intro content_all) metis
  ultimately have "mset (cw_rows w' ?oid) = mset (map copied (src ?oid)) + mset (leftover ?ps (before ?oid))"
    using surplus_leftover [OF received, of before] by simp
  then show "mset (cw_rows w' ?oid) = mset (map copied (src ?oid)) + mset (leftover ?ps (before ?oid)) \<and> (\<exists>n. cw_tables w' ?oid = Some (n, True)) \<and>
      (\<forall>p\<in>set ?ps. recorded p w')"
    using rec ps by auto
qed

theorem copy_exactly_once_witness:
  "fst demo_run = Done () \<and> cw_rows demo_world 42 = [(99, 99)] \<and>
   mset (cw_rows (snd (snd demo_run)) 42) = {#(- 5, - 5), (4, 4), (11, 11)#}"
proof -
  have "fst demo_run = Done ()" by (subst demo_done) simp
  moreover have "leftover (byTable demo_parts 42) [(99, 99 :: int)] = []" by code_simp
  then have "mset (cw_rows (snd (snd demo_run)) 42) = mset (map copied (demo_src 42))"
    using copy_exactly_once [OF demo_ok demo_parts_def demo_start _ _ demo_done [unfolded demo_run_def]] demo_oids
    by (simp add: demo_run_def demo_table_def example_table_def)
  ultimately show ?thesis by (simp add: demo_world_def demo_src_def example_row_def copied_def)
qed

end
