(* ===== verification/ApplyReader.thy ===== *)
theory ApplyReader
  imports ReplayClaim SegmentReader
begin

text \<open>
  How the applier cuts the stored transactions into batches: \<^verbatim>\<open>internal/cdc/applier.go\<close>, its
  configuration, the limits of a claim window, the end position and \<^verbatim>\<open>applyFromReader\<close>. The
  reader is the list of what its \<^verbatim>\<open>Next\<close> returns until the end of file; a transaction put back
  (\<^verbatim>\<open>reader.pending\<close>) is the head of that list again.
\<close>

section \<open>Configuration and limits\<close>

definition ReplayWorkersMax :: int where
  "ReplayWorkersMax = 64"

definition ValidateReplayWorkers :: "int \<Rightarrow> unit res" where
  "ValidateReplayWorkers workers =
     (if workers < 1 then Inl (Err ''replay-workers must be positive'')
      else if workers > ReplayWorkersMax then Inl (Err ''replay-workers exceeds the maximum'')
      else Inr ())"

record ApplierConfig =
  af_ConnString :: string
  af_Directory :: string
  af_StreamID :: string
  af_StreamGeneration :: string
  af_HasDurable :: bool
  af_PollInterval :: int
  af_ReconnectDelay :: int
  af_ReplayWorkers :: int
  af_BatchMaxDataBytes :: int
  af_BatchMaxChanges :: int

definition applyBatchMaxTransactions :: int where
  "applyBatchMaxTransactions = 16384"

definition applyBatchDefaultChanges :: int where
  "applyBatchDefaultChanges = 131072"

definition applyBatchDefaultDataBytes :: int where
  "applyBatchDefaultDataBytes = 32 * 2 ^ 20"

definition replayWorkersPerClaimSlice :: int where
  "replayWorkersPerClaimSlice = 8"

definition NewApplier :: "ApplierConfig \<Rightarrow> ApplierConfig res" where
  "NewApplier c =
     (if af_ConnString c = [] \<or> af_Directory c = [] \<or> af_StreamID c = []
      then Inl (Err ''cdc: applier connection string, directory, and stream ID are required'')
      else if \<not> af_HasDurable c then Inl (Err ''cdc: applier durable watermark is required'')
      else let c = c\<lparr>af_StreamGeneration := (if af_StreamGeneration c = [] then af_StreamID c else af_StreamGeneration c),
               af_PollInterval := (if af_PollInterval c \<le> 0 then 100000000 else af_PollInterval c),
               af_ReconnectDelay := (if af_ReconnectDelay c \<le> 0 then 1000000000 else af_ReconnectDelay c)\<rparr> in
        if af_ReplayWorkers c < 0 \<or> af_BatchMaxDataBytes c < 0 \<or> af_BatchMaxChanges c < 0
        then Inl (Err ''cdc: replay workers and batch limits must not be negative'')
        else let c = c\<lparr>af_ReplayWorkers := (if af_ReplayWorkers c = 0 then 1 else af_ReplayWorkers c)\<rparr> in
          rbind (rwrap ''cdc'' (ValidateReplayWorkers (af_ReplayWorkers c))) (\<lambda>_.
            Inr (c\<lparr>af_BatchMaxDataBytes := (if af_BatchMaxDataBytes c = 0 then applyBatchDefaultDataBytes else af_BatchMaxDataBytes c),
              af_BatchMaxChanges := (if af_BatchMaxChanges c = 0 then applyBatchDefaultChanges else af_BatchMaxChanges c)\<rparr>)))"

definition replayClaimWindowSlices :: "int \<Rightarrow> int" where
  "replayClaimWindowSlices workers =
     (if workers < replayWorkersPerClaimSlice then 1
      else max 4 ((workers + replayWorkersPerClaimSlice - 1) div replayWorkersPerClaimSlice))"

definition replayClaimLaneCount :: "int \<Rightarrow> int" where
  "replayClaimLaneCount workers = (if workers \<le> 1 then 1 else min (max workers (workers * 4)) (max 32 workers))"

definition maxInt :: int where
  "maxInt = 2 ^ 63 - 1"

definition replayClaimWindowLimits :: "int \<Rightarrow> int \<Rightarrow> int \<Rightarrow> int \<times> int \<times> int" where
  "replayClaimWindowLimits workers changes dataBytes =
     (let slices = replayClaimWindowSlices workers;
          scale = (\<lambda>n. if n > maxInt div slices then maxInt else n * slices) in
      if slices > 1 then (scale applyBatchMaxTransactions, scale changes, scale dataBytes)
      else (applyBatchMaxTransactions, changes, dataBytes))"

section \<open>Sizes of a transaction\<close>

definition apply_tuple_bytes :: "Tuple option \<Rightarrow> nat" where
  "apply_tuple_bytes t = (case t of None \<Rightarrow> 0
     | Some t \<Rightarrow> sum_list (map (\<lambda>d. case dat_Data d of None \<Rightarrow> 0 | Some bs \<Rightarrow> length bs) t))"

definition transactionApplyDataBytes :: "Transaction \<Rightarrow> nat" where
  "transactionApplyDataBytes tx =
     sum_list (map (\<lambda>r. length (rel_Namespace r) + length (rel_Name r) +
       sum_list (map (\<lambda>c. length (col_Name c)) (rel_Columns r))) (tx_Relations tx)) +
     sum_list (map (\<lambda>c. apply_tuple_bytes (ch_Old c) + apply_tuple_bytes (ch_New c)) (tx_Changes tx))"

section \<open>The end position\<close>

text \<open>The cache of the resolved boundary: the request it was resolved for, and the boundary.\<close>

type_synonym EndPositionCache = "(LSN \<times> LSN) option"

definition resolveEndPosition :: "Disk \<Rightarrow> LSN \<Rightarrow> LSN \<Rightarrow> EndPositionCache \<Rightarrow> LSN res \<times> EndPositionCache" where
  "resolveEndPosition d requested durable cache =
     (case cache of
        Some (request, boundary) \<Rightarrow>
          if request = requested then (Inr boundary, cache)
          else (case NormalizeEndPosition d requested durable of
            Inl e \<Rightarrow> (Inl e, cache) | Inr r \<Rightarrow> (Inr (ep_Boundary r), Some (requested, ep_Boundary r)))
      | None \<Rightarrow> (case NormalizeEndPosition d requested durable of
            Inl e \<Rightarrow> (Inl e, cache) | Inr r \<Rightarrow> (Inr (ep_Boundary r), Some (requested, ep_Boundary r))))"

definition effectiveEndPosition :: "Disk \<Rightarrow> LSN option res \<Rightarrow> LSN \<Rightarrow> EndPositionCache \<Rightarrow> LSN option res \<times> EndPositionCache" where
  "effectiveEndPosition d requested durable cache = (case requested of
     Inl e \<Rightarrow> (Inl e, cache)
   | Inr None \<Rightarrow> (Inr None, cache)
   | Inr (Some request) \<Rightarrow>
       if durable < request then (Inr (Some request), cache)
       else (case resolveEndPosition d request durable cache of
         (Inl e, cache) \<Rightarrow> (Inl e, cache) | (Inr boundary, cache) \<Rightarrow> (Inr (Some boundary), cache)))"

section \<open>One pass over the reader\<close>

type_synonym Items = "Transaction res list"

datatype ApplyStep = ApplyIdle | ApplyBatch "Transaction list" "replayClaim option" | ApplySpilled Transaction | ApplyError error

record Window =
  wn_transactions :: int
  wn_changes :: int
  wn_bytes :: int

text \<open>
  A fresh window. \<open>endp i\<close> is what the end position is when the \<open>i\<close>-th unapplied transaction is
  looked at. An unreadable suffix stays in the reader.
\<close>

fun fresh_window :: "Window \<Rightarrow> (nat \<Rightarrow> LSN option res) \<Rightarrow> LSN \<Rightarrow> nat \<Rightarrow> Transaction list \<Rightarrow> int \<Rightarrow> int \<Rightarrow> Items \<Rightarrow> ApplyStep \<times> Items" where
  "fresh_window lim endp progress i batch changes bytes [] =
     (if batch = [] then ApplyIdle else ApplyBatch batch None, [])"
| "fresh_window lim endp progress i batch changes bytes (Inl e # rest) =
     (if batch = [] then ApplyError e else ApplyBatch batch None, Inl e # rest)"
| "fresh_window lim endp progress i batch changes bytes (Inr tx # rest) =
     (if tx_EndLSN tx \<le> progress then fresh_window lim endp progress i batch changes bytes rest
      else case endp i of
        Inl e \<Rightarrow> (ApplyError e, rest)
      | Inr end1 \<Rightarrow>
          if (case end1 of None \<Rightarrow> False | Some e \<Rightarrow> tx_EndLSN tx > e)
          then (if batch = [] then ApplyIdle else ApplyBatch batch None, rest)
          else if IsSpilled tx
          then (if batch = [] then (ApplySpilled tx, rest) else (ApplyBatch batch None, Inr tx # rest))
          else let txChanges = uint (ChangeCount tx); txBytes = int (transactionApplyDataBytes tx) in
            if batch \<noteq> [] \<and> (changes + txChanges > wn_changes lim \<or> bytes + txBytes > wn_bytes lim)
            then (ApplyBatch batch None, Inr tx # rest)
            else let batch = batch @ [tx]; changes = changes + txChanges; bytes = bytes + txBytes in
              if int (length batch) \<ge> wn_transactions lim \<or> changes \<ge> wn_changes lim \<or> bytes \<ge> wn_bytes lim
              then (ApplyBatch batch None, rest)
              else fresh_window lim endp progress (Suc i) batch changes bytes rest)"

text \<open>The window of an active claim: exactly the transactions up to its end.\<close>

fun claim_window :: "replayClaim \<Rightarrow> LSN \<Rightarrow> Transaction list \<Rightarrow> Items \<Rightarrow> ApplyStep \<times> Items" where
  "claim_window claim progress batch [] = (ApplyError (Err ''cdc: durable replay claim ends but retained input ended first''), [])"
| "claim_window claim progress batch (Inl e # rest) = (ApplyError e, Inl e # rest)"
| "claim_window claim progress batch (Inr tx # rest) =
     (if tx_EndLSN tx \<le> progress then claim_window claim progress batch rest
      else if tx_EndLSN tx > cl_EndLSN claim
      then (ApplyError (Err ''cdc: retained replay transaction ends beyond active claim''), rest)
      else if tx_EndLSN tx = cl_EndLSN claim then (ApplyBatch (batch @ [tx]) (Some claim), rest)
      else claim_window claim progress (batch @ [tx]) rest)"

definition window_limits :: "ApplierConfig \<Rightarrow> Window" where
  "window_limits c = (case replayClaimWindowLimits (af_ReplayWorkers c) (af_BatchMaxChanges c) (af_BatchMaxDataBytes c) of
     (t, ch, b) \<Rightarrow> \<lparr>wn_transactions = t, wn_changes = ch, wn_bytes = b\<rparr>)"

text \<open>\<open>generation\<close> is the applier's effective generation.\<close>

definition applyFromReader ::
  "ApplierConfig \<Rightarrow> string \<Rightarrow> replayClaim option \<Rightarrow> (nat \<Rightarrow> LSN option res) \<Rightarrow> LSN \<Rightarrow> Items \<Rightarrow> ApplyStep \<times> Items" where
  "applyFromReader c generation active endp progress items = (case active of
     Some claim \<Rightarrow>
       if cl_StreamID claim \<noteq> af_StreamID c \<or> cl_Generation claim \<noteq> af_StreamGeneration c \<or>
          cl_FenceGeneration claim \<noteq> generation \<or> cl_StartLSN claim \<noteq> progress
       then (ApplyError (Err ''cdc: active replay claim does not match target progress identity''), items)
       else claim_window claim progress [] items
   | None \<Rightarrow> fresh_window (window_limits c) endp progress 0 [] 0 0 items)"

end
