(* ===== verification/ApplyReaderProps.thy ===== *)
theory ApplyReaderProps
  imports ApplyReader
begin

text \<open>
  The batches of the applier: every unapplied transaction up to the end position once, in order,
  within the limits of the window; and a restart that finds a claim cuts the same batch again.
\<close>

section \<open>The limits\<close>

lemma scale_bounds:
  assumes "1 < slices" "0 \<le> n" "n \<le> maxInt"
  shows "n \<le> (if n > maxInt div slices then maxInt else n * slices) \<and>
    (if n > maxInt div slices then maxInt else n * slices) \<le> maxInt"
proof -
  have "n * 1 \<le> n * slices" using assms by (intro mult_left_mono) auto
  moreover have "n * slices \<le> maxInt" if "n \<le> maxInt div slices"
  proof -
    have "n * slices \<le> maxInt div slices * slices" using that assms by (intro mult_right_mono) auto
    also have "\<dots> \<le> maxInt" using assms(1) div_mult_mod_eq [of maxInt slices] pos_mod_sign [of slices maxInt] by linarith
    finally show ?thesis .
  qed
  ultimately show ?thesis using assms by simp
qed

lemma window_bounds:
  assumes "0 < af_BatchMaxChanges c" "af_BatchMaxChanges c \<le> maxInt" "0 < af_BatchMaxDataBytes c" "af_BatchMaxDataBytes c \<le> maxInt"
  shows "applyBatchMaxTransactions \<le> wn_transactions (window_limits c) \<and> wn_transactions (window_limits c) \<le> maxInt \<and>
    af_BatchMaxChanges c \<le> wn_changes (window_limits c) \<and> wn_changes (window_limits c) \<le> maxInt \<and>
    af_BatchMaxDataBytes c \<le> wn_bytes (window_limits c) \<and> wn_bytes (window_limits c) \<le> maxInt"
proof (cases "1 < replayClaimWindowSlices (af_ReplayWorkers c)")
  case True
  have "0 \<le> applyBatchMaxTransactions" "applyBatchMaxTransactions \<le> maxInt"
    by (simp_all add: applyBatchMaxTransactions_def maxInt_def)
  then show ?thesis
    using scale_bounds [OF True] assms True by (simp add: window_limits_def replayClaimWindowLimits_def Let_def)
next
  case False
  then show ?thesis
    using assms by (simp add: window_limits_def replayClaimWindowLimits_def applyBatchMaxTransactions_def maxInt_def)
qed

lemma NewApplier_limits:
  assumes "NewApplier c0 = Inr c"
  shows "0 < af_BatchMaxChanges c \<and> 0 < af_BatchMaxDataBytes c \<and> 1 \<le> af_ReplayWorkers c \<and> af_ReplayWorkers c \<le> 64"
  using assms
  by (auto simp: NewApplier_def Let_def res_simps ValidateReplayWorkers_def ReplayWorkersMax_def
      applyBatchDefaultChanges_def applyBatchDefaultDataBytes_def split: if_splits)

section \<open>One window\<close>

definition in_range :: "LSN option \<Rightarrow> Transaction \<Rightarrow> bool" where
  "in_range e tx \<longleftrightarrow> (case e of None \<Rightarrow> True | Some e \<Rightarrow> tx_EndLSN tx \<le> e)"

definition unapplied :: "LSN \<Rightarrow> Transaction list \<Rightarrow> Transaction list" where
  "unapplied progress = filter (\<lambda>tx. progress < tx_EndLSN tx)"

definition batch_changes :: "Transaction list \<Rightarrow> int" where
  "batch_changes b = sum_list (map (\<lambda>tx. uint (ChangeCount tx)) b)"

definition batch_bytes :: "Transaction list \<Rightarrow> int" where
  "batch_bytes b = sum_list (map (\<lambda>tx. int (transactionApplyDataBytes tx)) b)"

definition batch_fits :: "Window \<Rightarrow> Transaction list \<Rightarrow> bool" where
  "batch_fits lim b \<longleftrightarrow> b \<noteq> [] \<and> int (length b) \<le> wn_transactions lim \<and>
     (length b = 1 \<or> list_all (\<lambda>tx. \<not> IsSpilled tx) b \<and> batch_changes b \<le> wn_changes lim \<and> batch_bytes b \<le> wn_bytes lim)"

text \<open>A batch begun, which has room for more.\<close>

definition begun :: "Window \<Rightarrow> LSN option \<Rightarrow> Transaction list \<Rightarrow> bool" where
  "begun lim e b \<longleftrightarrow> (b \<noteq> [] \<longrightarrow> int (length b) < wn_transactions lim \<and> batch_changes b < wn_changes lim \<and> batch_bytes b < wn_bytes lim) \<and>
     list_all (\<lambda>tx. \<not> IsSpilled tx \<and> in_range e tx) b"

lemma batch_sums [simp]:
  "batch_changes [] = 0" "batch_bytes [] = 0"
  "batch_changes (b @ [tx]) = batch_changes b + uint (ChangeCount tx)"
  "batch_bytes (b @ [tx]) = batch_bytes b + int (transactionApplyDataBytes tx)"
  "batch_changes [tx] = uint (ChangeCount tx)" "batch_bytes [tx] = int (transactionApplyDataBytes tx)"
  by (simp_all add: batch_changes_def batch_bytes_def)

text \<open>What a pass leaves: the batch and the transactions behind it, less one that lies past the end.\<close>

fun step_ok :: "Window \<Rightarrow> LSN option \<Rightarrow> Transaction list \<Rightarrow> Transaction list \<Rightarrow> Transaction list \<Rightarrow> ApplyStep \<Rightarrow> bool" where
  "step_ok lim e batch todo left ApplyIdle = (batch = [] \<and> (case todo of [] \<Rightarrow> True | tx # _ \<Rightarrow> \<not> in_range e tx))"
| "step_ok lim e batch todo left (ApplyBatch b claim) = (claim = None \<and> batch_fits lim b \<and> list_all (in_range e) b \<and>
     (batch @ todo = b @ left \<or> (\<exists>tx. batch @ todo = b @ tx # left \<and> \<not> in_range e tx)))"
| "step_ok lim e batch todo left (ApplySpilled tx) = (batch = [] \<and> in_range e tx \<and> todo = tx # left)"
| "step_ok lim e batch todo left (ApplyError err) = False"

definition begun_post :: "Window \<Rightarrow> LSN option \<Rightarrow> LSN \<Rightarrow> Transaction list \<Rightarrow> Transaction list \<Rightarrow> ApplyStep \<times> Items \<Rightarrow> bool" where
  "begun_post lim e progress batch txs result \<longleftrightarrow> (\<exists>left. snd result = map Inr left \<and> suffix left txs \<and>
     step_ok lim e batch (unapplied progress txs) (unapplied progress left) (fst result))"

lemma begun_fits: "begun lim e b \<Longrightarrow> b \<noteq> [] \<Longrightarrow> batch_fits lim b \<and> list_all (in_range e) b"
  by (auto simp: begun_def batch_fits_def list_all_iff)

lemma begun_post_skip:
  "begun_post lim e progress batch txs r \<Longrightarrow> tx_EndLSN tx \<le> progress \<Longrightarrow> begun_post lim e progress batch (tx # txs) r"
proof -
  assume "begun_post lim e progress batch txs r" "tx_EndLSN tx \<le> progress"
  moreover from this(2) have "unapplied progress (tx # txs) = unapplied progress txs" by (simp add: unapplied_def)
  ultimately show ?thesis unfolding begun_post_def using suffix_ConsI by (elim exE conjE, intro exI conjI) auto
qed

lemma begun_extend: "step_ok lim e (batch @ [tx]) todo left st \<Longrightarrow> step_ok lim e batch (tx # todo) left st"
  by (cases st) auto

lemma fresh_window_post:
  assumes "1 \<le> wn_transactions lim" "begun lim e batch"
  shows "begun_post lim e progress batch txs
    (fresh_window lim (\<lambda>_. Inr e) progress i batch (batch_changes batch) (batch_bytes batch) (map Inr txs))"
  using assms(2)
proof (induction txs arbitrary: i batch)
  case Nil
  then show ?case using begun_fits [of lim e batch]
    by (cases "batch = []") (simp_all add: begun_post_def unapplied_def)
next
  case (Cons tx txs)
  let ?run = "fresh_window lim (\<lambda>_. Inr e) progress"
  show ?case
  proof (cases "tx_EndLSN tx \<le> progress")
    case True
    with begun_post_skip [OF Cons.IH [OF Cons.prems, of i] True] show ?thesis by simp
  next
    case due: False
    then have un: "unapplied progress (tx # txs) = tx # unapplied progress txs" by (simp add: unapplied_def)
    show ?thesis
    proof (cases "in_range e tx")
      case False
      then have "?run i batch (batch_changes batch) (batch_bytes batch) (map Inr (tx # txs)) =
          (if batch = [] then ApplyIdle else ApplyBatch batch None, map Inr txs)"
        using due by (auto simp: in_range_def split: option.splits)
      with False begun_fits [OF Cons.prems] un show ?thesis
        unfolding begun_post_def by (intro exI [of _ txs]) (auto simp: suffix_ConsI)
    next
      case within: True
      then have pass: "\<not> (case e of None \<Rightarrow> False | Some e \<Rightarrow> tx_EndLSN tx > e)" by (auto simp: in_range_def split: option.splits)
      show ?thesis
      proof (cases "IsSpilled tx")
        case True
        show ?thesis
        proof (cases "batch = []")
          case empty: True
          have "?run i batch (batch_changes batch) (batch_bytes batch) (map Inr (tx # txs)) = (ApplySpilled tx, map Inr txs)"
            using True due pass empty by simp
          with within un empty show ?thesis unfolding begun_post_def by (intro exI [of _ txs]) (auto simp: suffix_ConsI)
        next
          case False
          have "?run i batch (batch_changes batch) (batch_bytes batch) (map Inr (tx # txs)) = (ApplyBatch batch None, map Inr (tx # txs))"
            using True due pass False by simp
          with begun_fits [OF Cons.prems False] un show ?thesis
            unfolding begun_post_def by (intro exI [of _ "tx # txs"]) auto
        qed
      next
        case resident: False
        let ?full = "batch \<noteq> [] \<and> (batch_changes batch + uint (ChangeCount tx) > wn_changes lim \<or>
          batch_bytes batch + int (transactionApplyDataBytes tx) > wn_bytes lim)"
        let ?stop = "int (length (batch @ [tx])) \<ge> wn_transactions lim \<or> batch_changes (batch @ [tx]) \<ge> wn_changes lim \<or>
          batch_bytes (batch @ [tx]) \<ge> wn_bytes lim"
        have step: "?run i batch (batch_changes batch) (batch_bytes batch) (map Inr (tx # txs)) =
          (if ?full then (ApplyBatch batch None, map Inr (tx # txs))
           else if ?stop then (ApplyBatch (batch @ [tx]) None, map Inr txs)
           else ?run (Suc i) (batch @ [tx]) (batch_changes (batch @ [tx])) (batch_bytes (batch @ [tx])) (map Inr txs))"
          using due pass resident by (simp add: Let_def)
        show ?thesis
        proof (cases ?full)
          case True
          with begun_fits [OF Cons.prems] un show ?thesis
            unfolding step if_P [OF True] begun_post_def by (intro exI [of _ "tx # txs"]) auto
        next
          case room1: False
          show ?thesis
          proof (cases ?stop)
            case True
            have "batch_fits lim (batch @ [tx])"
              using Cons.prems room1 resident assms(1) by (cases "batch = []") (auto simp: batch_fits_def begun_def list_all_iff)
            moreover have "list_all (in_range e) (batch @ [tx])"
              using Cons.prems within by (auto simp: begun_def list_all_iff)
            ultimately show ?thesis
              unfolding step if_not_P [OF room1] if_P [OF True] begun_post_def un
              by (intro exI [of _ txs]) (auto simp: suffix_ConsI)
          next
            case False
            have "begun lim e (batch @ [tx])"
              using Cons.prems False resident within by (auto simp: begun_def list_all_iff)
            from Cons.IH [OF this, of "Suc i"] show ?thesis
              unfolding step if_not_P [OF room1] if_not_P [OF False] begun_post_def un
              by (elim exE conjE, intro exI conjI) (auto simp: suffix_ConsI begun_extend)
          qed
        qed
      qed
    qed
  qed
qed

lemma pass_post:
  assumes "1 \<le> wn_transactions (window_limits c)"
  shows "begun_post (window_limits c) e progress [] txs (applyFromReader c g None (\<lambda>_. Inr e) progress (map Inr txs))"
  using fresh_window_post [of "window_limits c" e "[]" progress txs 0] assms
  by (simp add: applyFromReader_def begun_def)

section \<open>All windows\<close>

text \<open>
  The loop of \<^verbatim>\<open>runConnection\<close> over what the reader holds, every pass applied: the batches in the
  order of their application. It stops where the applier waits or has reached the end.
\<close>

fun apply_loop :: "nat \<Rightarrow> ApplierConfig \<Rightarrow> string \<Rightarrow> LSN option \<Rightarrow> LSN \<Rightarrow> Items \<Rightarrow> Transaction list list" where
  "apply_loop 0 c g e progress items = []"
| "apply_loop (Suc n) c g e progress items =
     (if (case e of None \<Rightarrow> False | Some stop \<Rightarrow> progress \<ge> stop) then []
      else case applyFromReader c g None (\<lambda>_. Inr e) progress items of
        (ApplyBatch b _, rest) \<Rightarrow> b # apply_loop n c g e (tx_EndLSN (last b)) rest
      | (ApplySpilled tx, rest) \<Rightarrow> [tx] # apply_loop n c g e (tx_EndLSN tx) rest
      | _ \<Rightarrow> [])"

definition due_to :: "LSN option \<Rightarrow> LSN \<Rightarrow> Transaction list \<Rightarrow> Transaction list" where
  "due_to e progress txs = filter (in_range e) (unapplied progress txs)"

lemma due_none:
  assumes "sorted_wrt (<) (map tx_EndLSN (tx # txs))" "\<not> in_range e tx"
  shows "filter (in_range e) (tx # txs) = []"
  using assms by (auto simp: in_range_def filter_empty_conv split: option.splits)

lemma sorted_unapplied: "sorted_wrt (<) (map tx_EndLSN txs) \<Longrightarrow> sorted_wrt (<) (map tx_EndLSN (unapplied progress txs))"
  unfolding unapplied_def sorted_wrt_map by (rule sorted_wrt_filter)

lemma sorted_suffix: "suffix left txs \<Longrightarrow> sorted_wrt (<) (map tx_EndLSN txs) \<Longrightarrow> sorted_wrt (<) (map tx_EndLSN left)"
  by (auto simp: suffix_def sorted_wrt_append)

text \<open>After a batch, what is left to apply is what was left to apply before.\<close>

lemma unapplied_rest:
  assumes "sorted_wrt (<) (map tx_EndLSN txs)" "unapplied progress txs = b @ mid @ unapplied progress left" "b \<noteq> []"
  shows "unapplied (tx_EndLSN (last b)) left = unapplied progress left" "progress < tx_EndLSN (last b)"
proof -
  have sorted: "sorted_wrt (<) (map tx_EndLSN (b @ mid @ unapplied progress left))"
    using sorted_unapplied [OF assms(1), of progress] unfolding assms(2) .
  have "last b \<in> set (unapplied progress txs)" unfolding assms(2) using assms(3) by simp
  then show less: "progress < tx_EndLSN (last b)" by (simp add: unapplied_def)
  have "tx_EndLSN (last b) < tx_EndLSN tx" if "tx \<in> set (unapplied progress left)" for tx
    using sorted that assms(3) by (auto simp: sorted_wrt_append)
  then have "tx_EndLSN (last b) < tx_EndLSN tx \<longleftrightarrow> progress < tx_EndLSN tx" if "tx \<in> set left" for tx
    using that less by (auto simp: unapplied_def)
  then show "unapplied (tx_EndLSN (last b)) left = unapplied progress left"
    unfolding unapplied_def by (rule filter_cong [OF refl])
qed

lemma apply_loop_all:
  assumes "1 \<le> wn_transactions (window_limits c)" "sorted_wrt (<) (map tx_EndLSN txs)" "length (unapplied progress txs) < n"
  shows "concat (apply_loop n c g e progress (map Inr txs)) = due_to e progress txs \<and>
    (\<forall>b\<in>set (apply_loop n c g e progress (map Inr txs)). batch_fits (window_limits c) b)"
  using assms(2,3)
proof (induction n arbitrary: progress txs)
  case (Suc n)
  let ?pass = "applyFromReader c g None (\<lambda>_. Inr e) progress (map Inr txs)"
  obtain left where left: "snd ?pass = map Inr left" "suffix left txs"
    and post: "step_ok (window_limits c) e [] (unapplied progress txs) (unapplied progress left) (fst ?pass)"
    using pass_post [OF assms(1), of e progress txs g] unfolding begun_post_def by blast
  note sorted = sorted_suffix [OF left(2) Suc.prems(1)]
  show ?case
  proof (cases "case e of None \<Rightarrow> False | Some stop \<Rightarrow> progress \<ge> stop")
    case True
    then have "due_to e progress txs = []"
      by (auto simp: due_to_def unapplied_def in_range_def filter_empty_conv split: option.splits)
    with True show ?thesis by simp
  next
    case go: False
    show ?thesis
    proof (cases "fst ?pass")
      case ApplyIdle
      then have pass: "?pass = (ApplyIdle, map Inr left)" using left(1) by (simp add: prod_eq_iff)
      have "due_to e progress txs = []"
      proof (cases "unapplied progress txs")
        case (Cons tx us)
        with post ApplyIdle have "\<not> in_range e tx" by simp
        with due_none sorted_unapplied [OF Suc.prems(1), of progress] Cons show ?thesis unfolding due_to_def by metis
      qed (simp add: due_to_def)
      with go pass show ?thesis by simp
    next
      case (ApplyBatch b claim)
      then have pass: "?pass = (ApplyBatch b claim, map Inr left)" using left(1) by (simp add: prod_eq_iff)
      have fits: "batch_fits (window_limits c) b" "b \<noteq> []" "list_all (in_range e) b" using post ApplyBatch by (auto simp: batch_fits_def)
      obtain mid where mid: "unapplied progress txs = b @ mid @ unapplied progress left" "mid = [] \<or> (\<exists>tx. mid = [tx] \<and> \<not> in_range e tx)"
        using post ApplyBatch by (cases "unapplied progress txs = b @ unapplied progress left") auto
      note rest = unapplied_rest [OF Suc.prems(1) mid(1) fits(2)]
      have len: "length (unapplied (tx_EndLSN (last b)) left) < n"
        unfolding rest(1) using Suc.prems(2) mid(1) fits(2) by (cases b) auto
      have "filter (in_range e) b = b" using fits(3) by (simp add: list_all_iff filter_id_conv)
      moreover have "filter (in_range e) (mid @ unapplied progress left) = filter (in_range e) (unapplied progress left)"
        using mid(2)
      proof
        assume "\<exists>tx. mid = [tx] \<and> \<not> in_range e tx"
        then obtain tx where tx: "mid = [tx]" "\<not> in_range e tx" by blast
        have "sorted_wrt (<) (map tx_EndLSN (tx # unapplied progress left))"
          using sorted_unapplied [OF Suc.prems(1), of progress] unfolding mid(1) tx(1) by (simp add: sorted_wrt_append)
        from due_none [OF this tx(2)] tx(2) show ?thesis unfolding tx(1) by simp
      qed simp
      ultimately have "due_to e progress txs = b @ due_to e (tx_EndLSN (last b)) left"
        unfolding due_to_def rest(1) mid(1) filter_append [of _ b] by simp
      with Suc.IH [OF sorted len] go pass fits(1) show ?thesis by simp
    next
      case (ApplySpilled tx)
      then have pass: "?pass = (ApplySpilled tx, map Inr left)" using left(1) by (simp add: prod_eq_iff)
      have tx: "in_range e tx" "unapplied progress txs = [tx] @ [] @ unapplied progress left" using post ApplySpilled by auto
      note rest = unapplied_rest [OF Suc.prems(1) tx(2)]
      have len: "length (unapplied (tx_EndLSN tx) left) < n" using rest(1) Suc.prems(2) tx(2) by simp
      have "due_to e progress txs = [tx] @ due_to e (tx_EndLSN tx) left"
        using rest(1) tx unfolding due_to_def by simp
      moreover have "batch_fits (window_limits c) [tx]" using assms(1) by (simp add: batch_fits_def)
      ultimately show ?thesis using Suc.IH [OF sorted len] go pass by simp
    next
      case (ApplyError err)
      with post show ?thesis by simp
    qed
  qed
qed simp


section \<open>The window of a claim\<close>

lemma claim_window_exact:
  assumes "sorted_wrt (<) (map tx_EndLSN txs)" "\<exists>tx\<in>set txs. progress < tx_EndLSN tx \<and> tx_EndLSN tx = cl_EndLSN claim"
  shows "claim_window claim progress batch (map Inr txs) =
    (ApplyBatch (batch @ filter (\<lambda>tx. progress < tx_EndLSN tx \<and> tx_EndLSN tx \<le> cl_EndLSN claim) txs) (Some claim),
     map Inr (filter (\<lambda>tx. cl_EndLSN claim < tx_EndLSN tx) txs))"
  using assms
proof (induction txs arbitrary: batch)
  case (Cons tx txs)
  have after: "tx_EndLSN tx < tx_EndLSN u" if "u \<in> set txs" for u using Cons.prems(1) that by simp
  consider "tx_EndLSN tx \<le> progress" | "progress < tx_EndLSN tx" "tx_EndLSN tx = cl_EndLSN claim"
    | "progress < tx_EndLSN tx" "tx_EndLSN tx < cl_EndLSN claim" | "cl_EndLSN claim < tx_EndLSN tx" by fastforce
  then show ?case
  proof cases
    case 1
    then have "\<not> cl_EndLSN claim < tx_EndLSN tx" "\<exists>u\<in>set txs. progress < tx_EndLSN u \<and> tx_EndLSN u = cl_EndLSN claim"
      using Cons.prems(2) after by (auto intro: order.strict_implies_order order.trans)
    moreover have "\<not> progress < tx_EndLSN tx" using 1 by (simp add: not_less)
    ultimately show ?thesis using Cons.IH [of batch] Cons.prems(1) 1 by simp
  next
    case 2
    have "filter (\<lambda>u. progress < tx_EndLSN u \<and> tx_EndLSN u \<le> cl_EndLSN claim) txs = []"
      "filter (\<lambda>u. cl_EndLSN claim < tx_EndLSN u) txs = txs"
      using after 2(2) by (auto simp: filter_empty_conv filter_id_conv not_le)
    moreover have "\<not> cl_EndLSN claim \<le> progress" using 2 by (simp add: not_le)
    ultimately show ?thesis using 2 by simp
  next
    case 3
    then have "\<exists>u\<in>set txs. progress < tx_EndLSN u \<and> tx_EndLSN u = cl_EndLSN claim" using Cons.prems(2) by auto
    with Cons.IH [of "batch @ [tx]"] Cons.prems(1) 3 show ?thesis
      using less_imp_le [OF 3(2)] leD [OF less_imp_le [OF 3(1)]] not_le [of "tx_EndLSN tx" progress] less_not_sym [OF 3(2)] less_imp_neq [OF 3(2)] by simp
  next
    case 4
    have "tx_EndLSN u \<noteq> cl_EndLSN claim" if "u \<in> set (tx # txs)" for u
      using that 4 after [of u] less_trans [OF 4, of "tx_EndLSN u"] by auto
    with Cons.prems(2) have False by blast
    then show ?thesis ..
  qed
qed simp

lemma batch_is_range:
  assumes "sorted_wrt (<) (map tx_EndLSN txs)" "unapplied progress txs = b @ later" "b \<noteq> []"
  shows "filter (\<lambda>tx. progress < tx_EndLSN tx \<and> tx_EndLSN tx \<le> tx_EndLSN (last b)) txs = b"
proof -
  have "sorted_wrt (<) (map tx_EndLSN (b @ later))" using sorted_unapplied [OF assms(1), of progress] unfolding assms(2) .
  then have sorted: "sorted_wrt (<) (map tx_EndLSN b)" "\<forall>x\<in>set b. \<forall>y\<in>set later. tx_EndLSN x < tx_EndLSN y"
    by (simp_all add: sorted_wrt_append)
  have "\<forall>x\<in>set b. tx_EndLSN x \<le> tx_EndLSN (last b)"
    using sorted(1) assms(3)
  proof (induction b)
    case (Cons x b)
    then show ?case by (cases "b = []") (auto intro: order.strict_implies_order)
  qed simp
  moreover have "\<forall>y\<in>set later. \<not> tx_EndLSN y \<le> tx_EndLSN (last b)" using sorted(2) assms(3) by (simp add: not_le)
  ultimately have "filter (\<lambda>tx. tx_EndLSN tx \<le> tx_EndLSN (last b)) (unapplied progress txs) = b"
    unfolding assms(2) by (simp add: filter_empty_conv filter_id_conv)
  then show ?thesis unfolding unapplied_def filter_filter by (simp add: conj_commute)
qed

section \<open>What the applier reads\<close>

text \<open>C34: The batches the applier forms, pass after pass, are the stored transactions it has not applied,
  up to the end position, each once and in order, and enough passes reach the end. A batch that holds
  more than one transaction has no spilled one and stays within the window's limits of transactions, changes
  and bytes; these limits are at least the configured ones and do not overflow.\<close>

theorem apply_batches_in_order:
  assumes "NewApplier c0 = Inr c" "af_BatchMaxChanges c \<le> maxInt" "af_BatchMaxDataBytes c \<le> maxInt"
    "sorted_wrt (<) (map tx_EndLSN txs)" "length txs < n"
  shows "concat (apply_loop n c g e progress (map Inr txs)) = filter (\<lambda>tx. progress < tx_EndLSN tx \<and> in_range e tx) txs \<and>
    (\<forall>b\<in>set (apply_loop n c g e progress (map Inr txs)). batch_fits (window_limits c) b) \<and>
    af_BatchMaxChanges c \<le> wn_changes (window_limits c) \<and> wn_changes (window_limits c) \<le> maxInt \<and>
    af_BatchMaxDataBytes c \<le> wn_bytes (window_limits c) \<and> wn_bytes (window_limits c) \<le> maxInt"
proof -
  have limits: "1 \<le> wn_transactions (window_limits c)" "af_BatchMaxChanges c \<le> wn_changes (window_limits c)"
      "wn_changes (window_limits c) \<le> maxInt" "af_BatchMaxDataBytes c \<le> wn_bytes (window_limits c)" "wn_bytes (window_limits c) \<le> maxInt"
    using window_bounds [of c] NewApplier_limits [OF assms(1)] assms(2,3) by (simp_all add: applyBatchMaxTransactions_def)
  have "length (unapplied progress txs) < n"
    using assms(5) length_filter_le [of _ txs] unfolding unapplied_def by (rule le_less_trans [rotated])
  from apply_loop_all [OF limits(1) assms(4) this, of g e] limits(2-) show ?thesis
    by (simp add: due_to_def unapplied_def conj_commute)
qed

definition demo_tx :: "LSN \<Rightarrow> Transaction" where
  "demo_tx e = example_tx\<lparr>tx_CommitLSN := e - 10, tx_EndLSN := e\<rparr>"

definition demo_config :: ApplierConfig where
  "demo_config = \<lparr>af_ConnString = ''c'', af_Directory = ''d'', af_StreamID = ''s'', af_StreamGeneration = [], af_HasDurable = True,
     af_PollInterval = 0, af_ReconnectDelay = 0, af_ReplayWorkers = 0, af_BatchMaxDataBytes = 0, af_BatchMaxChanges = 5\<rparr>"

definition demo_applier :: ApplierConfig where
  "demo_applier = demo_config\<lparr>af_StreamGeneration := ''s'', af_PollInterval := 100000000, af_ReconnectDelay := 1000000000,
     af_ReplayWorkers := 1, af_BatchMaxDataBytes := 33554432\<rparr>"

lemma demo_new: "NewApplier demo_config = Inr demo_applier"
  by (simp add: NewApplier_def demo_config_def demo_applier_def ValidateReplayWorkers_def ReplayWorkersMax_def
      applyBatchDefaultDataBytes_def Let_def)

theorem apply_batches_in_order_witness:
  "concat (apply_loop 4 demo_applier ''s'' (Some 600) 300 (map Inr [demo_tx 300, demo_tx 500, demo_tx 700])) = [demo_tx 500]"
  using apply_batches_in_order [OF demo_new, of "[demo_tx 300, demo_tx 500, demo_tx 700]" 4 "''s''" "Some 600" 300]
  by (simp add: demo_applier_def demo_config_def maxInt_def demo_tx_def in_range_def)

text \<open>C35: A restart cuts the batch of an active claim again: after a fresh pass formed a batch and its claim was
  stored, a later pass that finds the claim, over whatever the reader then holds between the progress
  and the claim's end, forms the same batch, whatever the new configuration of workers and limits and the
  new end position; the transactions behind the claim stay in the reader.\<close>

theorem claim_window_reconstructed:
  assumes "NewApplier c0 = Inr c" "af_BatchMaxChanges c \<le> maxInt" "af_BatchMaxDataBytes c \<le> maxInt"
    "sorted_wrt (<) (map tx_EndLSN txs)" "applyFromReader c g None (\<lambda>_. Inr e) progress (map Inr txs) = (ApplyBatch b None, rest)"
    "sorted_wrt (<) (map tx_EndLSN txs')"
    "filter (\<lambda>tx. progress < tx_EndLSN tx \<and> tx_EndLSN tx \<le> tx_EndLSN (last b)) txs' =
     filter (\<lambda>tx. progress < tx_EndLSN tx \<and> tx_EndLSN tx \<le> tx_EndLSN (last b)) txs"
    "cl_StreamID claim = af_StreamID c'" "cl_Generation claim = af_StreamGeneration c'" "cl_FenceGeneration claim = g'"
    "cl_StartLSN claim = progress" "cl_EndLSN claim = tx_EndLSN (last b)"
  shows "applyFromReader c' g' (Some claim) endp progress (map Inr txs') =
    (ApplyBatch b (Some claim), map Inr (filter (\<lambda>tx. tx_EndLSN (last b) < tx_EndLSN tx) txs'))"
proof -
  have limits: "1 \<le> wn_transactions (window_limits c)"
    using window_bounds [of c] NewApplier_limits [OF assms(1)] assms(2,3) by (simp add: applyBatchMaxTransactions_def)
  obtain left where "step_ok (window_limits c) e [] (unapplied progress txs) (unapplied progress left) (ApplyBatch b None)"
    using pass_post [OF limits, of e progress txs g] unfolding begun_post_def assms(5) by auto
  then obtain later where b: "b \<noteq> []" "unapplied progress txs = b @ later" by (auto simp: batch_fits_def)
  note range = batch_is_range [OF assms(4) b(2,1)]
  have "last b \<in> set (filter (\<lambda>tx. progress < tx_EndLSN tx \<and> tx_EndLSN tx \<le> tx_EndLSN (last b)) txs')"
    unfolding assms(7) range using b(1) by simp
  then have "\<exists>tx\<in>set txs'. progress < tx_EndLSN tx \<and> tx_EndLSN tx = cl_EndLSN claim" using assms(12) by auto
  from claim_window_exact [OF assms(6) this, of "[]"] show ?thesis
    unfolding applyFromReader_def assms(12) assms(7) range using assms(8-11) by simp
qed

definition demo_claim :: replayClaim where
  "demo_claim = \<lparr>cl_ID = ''id'', cl_StreamID = ''s'', cl_Generation = ''s'', cl_StartGeneration = ''s'', cl_FenceGeneration = ''f'',
     cl_StartLSN = 300, cl_EndLSN = 700, cl_Digest = [], cl_CatalogDigest = [], cl_PlanVersion = 4, cl_LaneCount = 4, cl_Transactions = 2, cl_Changes = 4,
     cl_ExpectedWork = 1, cl_CreatedAt = zero_time, cl_WorkManifest = []\<rparr>"

lemma demo_pass:
  "applyFromReader demo_applier ''s'' None (\<lambda>_. Inr None) 300 (map Inr [demo_tx 300, demo_tx 500, demo_tx 700, demo_tx 900]) =
    (ApplyBatch [demo_tx 500, demo_tx 700] None, [Inr (demo_tx 900)])"
  by (simp add: applyFromReader_def window_limits_def replayClaimWindowLimits_def replayClaimWindowSlices_def replayWorkersPerClaimSlice_def
      applyBatchMaxTransactions_def demo_applier_def demo_config_def demo_tx_def example_tx_def IsSpilled_def ChangeCount_def u32_of_len_def
      transactionApplyDataBytes_def apply_tuple_bytes_def example_relation_def example_insert_def example_truncate_def Let_def)

theorem claim_window_reconstructed_witness:
  "applyFromReader (demo_applier\<lparr>af_ReplayWorkers := 16, af_BatchMaxChanges := 1\<rparr>) ''f'' (Some demo_claim) (\<lambda>_. Inr (Some 400)) 300
     (map Inr [demo_tx 500, demo_tx 700, demo_tx 900]) = (ApplyBatch [demo_tx 500, demo_tx 700] (Some demo_claim), [Inr (demo_tx 900)])"
  using claim_window_reconstructed [OF demo_new _ _ _ demo_pass, of "[demo_tx 500, demo_tx 700, demo_tx 900]" demo_claim
      "demo_applier\<lparr>af_ReplayWorkers := 16, af_BatchMaxChanges := 1\<rparr>" "''f''" "\<lambda>_. Inr (Some 400)"]
  by (simp add: demo_applier_def demo_config_def maxInt_def demo_claim_def) (simp add: demo_tx_def)

end
