(* ===== verification/ApplyStatements.thy ===== *)
theory ApplyStatements
  imports TargetRelation CodecStream
begin

text \<open>
  How the applier turns the changes of one relation into statements: \<^verbatim>\<open>internal/cdc/applier.go\<close>,
  from \<^verbatim>\<open>arrayParamForColumn\<close> and the COPY encodings to \<^verbatim>\<open>applyInserts\<close>, \<^verbatim>\<open>applyUpdates\<close> and
  \<^verbatim>\<open>applyDeletes\<close>.

  A \<open>Statement\<close> says what is executed and with which values; its SQL text is a function of the
  operation, the relation and the columns and is left out. The creation and the clearing of a stage
  and the COPY into it belong to the statement that consumes the stage. The functions that queue
  statements take the queue and return it extended. What the server answers to the inspection of a
  selective update is the parameter \<open>inspect\<close>, a function of everything queued before.
\<close>

section \<open>Values in bulk\<close>

definition be_bytes :: "nat \<Rightarrow> nat \<Rightarrow> bytes" where
  "be_bytes k n = rev (le_bytes k n)"

fun rmap :: "('a \<Rightarrow> 'b res) \<Rightarrow> 'a list \<Rightarrow> 'b list res" where
  "rmap f [] = Inr []"
| "rmap f (x # xs) = rbind (f x) (\<lambda>y. rbind (rmap f xs) (\<lambda>ys. Inr (y # ys)))"

fun rfold :: "('a \<Rightarrow> 'q \<Rightarrow> 'q res) \<Rightarrow> 'a list \<Rightarrow> 'q \<Rightarrow> 'q res" where
  "rfold f [] q = Inr q"
| "rfold f (x # xs) q = rbind (f x q) (rfold f xs)"

definition tuple_at :: "Tuple option \<Rightarrow> int \<Rightarrow> TupleDatum res" where
  "tuple_at tuple i = (case tuple of
     None \<Rightarrow> Inl (Err ''panic: nil pointer dereference'') | Some t \<Rightarrow> go_index t i)"

definition predicate_tuple :: "Change \<Rightarrow> Tuple option" where
  "predicate_tuple change = (case ch_Old change of None \<Rightarrow> ch_New change | Some old \<Rightarrow> Some old)"

text \<open>The first loop of \<^verbatim>\<open>arrayParamForColumn\<close>: the common format of the values and whether there is a NULL.\<close>

fun array_format :: "targetRelation \<Rightarrow> targetColumn \<Rightarrow> byte \<Rightarrow> TupleDatum list \<Rightarrow> byte \<Rightarrow> bool \<Rightarrow> (byte \<times> bool) option res" where
  "array_format r c kind [] format hasNull = Inr (Some (format, hasNull))"
| "array_format r c kind (d # ds) format hasNull = rbind (datumParamForColumn r c d kind) (\<lambda>_.
     if dat_Kind d = DatumNull then array_format r c kind ds format True
     else if format = DatumNull then array_format r c kind ds (dat_Kind d) hasNull
     else if format \<noteq> dat_Kind d then Inr None
     else array_format r c kind ds format hasNull)"

definition binary_field :: "TupleDatum \<Rightarrow> bytes" where
  "binary_field d = (if dat_Kind d = DatumNull then replicate 4 255
     else be_bytes 4 (length (dat_bytes d)) @ dat_bytes d)"

definition array_binary :: "u32 \<Rightarrow> bool \<Rightarrow> TupleDatum list \<Rightarrow> bytes" where
  "array_binary oid hasNull ds = be_bytes 4 1 @ be_bytes 4 (if hasNull then 1 else 0) @ be_bytes 4 (unat oid) @
     be_bytes 4 (length ds) @ be_bytes 4 1 @ concat (map binary_field ds)"

text \<open>Double quote 34, backslash 92, comma 44, braces 123 and 125.\<close>

definition array_element :: "TupleDatum \<Rightarrow> bytes" where
  "array_element d = (if dat_Kind d = DatumNull then bytes_of_string ''NULL''
     else [34] @ concat (map (\<lambda>v. if v = 92 \<or> v = 34 then [92, v] else [v]) (dat_bytes d)) @ [34])"

fun comma_separated :: "bytes list \<Rightarrow> bytes" where
  "comma_separated [] = []"
| "comma_separated [x] = x"
| "comma_separated (x # y # ys) = x @ [44] @ comma_separated (y # ys)"

definition array_text :: "TupleDatum list \<Rightarrow> bytes" where
  "array_text ds = [123] @ comma_separated (map array_element ds) @ [125]"

text \<open>\<open>Inr None\<close> is the result \<^verbatim>\<open>supported = false\<close>.\<close>

definition arrayParamForColumn :: "targetRelation \<Rightarrow> targetColumn \<Rightarrow> TupleDatum list \<Rightarrow> byte \<Rightarrow> rawParam option res" where
  "arrayParamForColumn r c ds kind =
     (if tc_arrayOID c = 0 \<or> ds = [] then Inr None
      else rbind (array_format r c kind ds DatumNull False) (\<lambda>fmt. case fmt of
        None \<Rightarrow> Inr None
      | Some (format, hasNull) \<Rightarrow>
          if format = DatumNull \<or> format = DatumBinary
          then Inr (Some \<lparr>rp_data = Some (array_binary (tc_oid c) hasNull ds), rp_oid = tc_arrayOID c, rp_format = 1, rp_isNull = False\<rparr>)
          else Inr (Some \<lparr>rp_data = Some (array_text ds), rp_oid = tc_arrayOID c, rp_format = 0, rp_isNull = False\<rparr>)))"

section \<open>COPY data\<close>

definition pgcopy_header :: bytes where
  "pgcopy_header = bytes_of_string ''PGCOPY'' @ [10, 255, 13, 10, 0] @ be_bytes 4 0 @ be_bytes 4 0"

definition pgcopy_trailer :: bytes where
  "pgcopy_trailer = [255, 255]"

fun copy_columns_supported :: "targetRelation \<Rightarrow> byte \<Rightarrow> Tuple option \<Rightarrow> targetColumn list \<Rightarrow> bool res" where
  "copy_columns_supported r kind tuple [] = Inr True"
| "copy_columns_supported r kind tuple (c # cs) = rbind (tuple_at tuple (tc_sourceIndex c)) (\<lambda>d.
     if dat_Kind d = DatumNull then copy_columns_supported r kind tuple cs
     else if dat_Kind d = DatumBinary
     then rbind (datumParamForColumn r c d kind) (\<lambda>_. copy_columns_supported r kind tuple cs)
     else Inr False)"

fun copy_rows_supported :: "targetRelation \<Rightarrow> Change list \<Rightarrow> bool res" where
  "copy_rows_supported r [] = Inr True"
| "copy_rows_supported r (ch # chs) = rbind (validateTuple r (ch_New ch) ChangeInsert) (\<lambda>_.
     rbind (copy_columns_supported r ChangeInsert (ch_New ch) (tr_columns r)) (\<lambda>ok.
     if ok then copy_rows_supported r chs else Inr False))"

definition copy_row :: "targetRelation \<Rightarrow> Change \<Rightarrow> bytes" where
  "copy_row r ch = be_bytes 2 (length (tr_columns r)) @
     concat (map (\<lambda>c. binary_field (the (ch_New ch) ! nat (tc_sourceIndex c))) (tr_columns r))"

definition binaryCopyData :: "targetRelation \<Rightarrow> Change list \<Rightarrow> bytes option res" where
  "binaryCopyData r changes = rbind (copy_rows_supported r changes) (\<lambda>ok.
     if ok then Inr (Some (pgcopy_header @ concat (map (copy_row r) changes) @ pgcopy_trailer)) else Inr None)"

text \<open>The values of a stage are those of its rows one after the other: \<^verbatim>\<open>values[row*len(columns)+i]\<close>.\<close>

definition stage_row :: "nat \<Rightarrow> TupleDatum list \<Rightarrow> nat \<Rightarrow> TupleDatum list" where
  "stage_row n values row = map (\<lambda>i. values ! (row * n + i)) [0..<n]"

definition stage_cells :: "targetColumn list \<Rightarrow> TupleDatum list \<Rightarrow> nat \<Rightarrow> (targetColumn \<times> TupleDatum) list" where
  "stage_cells columns values rowCount =
     concat (map (\<lambda>row. zip columns (stage_row (length columns) values row)) [0..<rowCount])"

fun binary_stage_supported :: "targetRelation \<Rightarrow> byte \<Rightarrow> (targetColumn \<times> TupleDatum) list \<Rightarrow> bool res" where
  "binary_stage_supported r kind [] = Inr True"
| "binary_stage_supported r kind ((c, d) # cells) =
     (if dat_Kind d = DatumNull then binary_stage_supported r kind cells
      else if dat_Kind d = DatumBinary
      then rbind (datumParamForColumn r c d kind) (\<lambda>_. binary_stage_supported r kind cells)
      else Inr False)"

definition binary_stage_row :: "targetColumn list \<Rightarrow> TupleDatum list \<Rightarrow> nat \<Rightarrow> bytes" where
  "binary_stage_row columns values row = be_bytes 2 (length columns + 1) @ be_bytes 4 8 @ be_bytes 8 row @
     concat (map binary_field (stage_row (length columns) values row))"

definition binaryCopyStageData :: "targetRelation \<Rightarrow> byte \<Rightarrow> targetColumn list \<Rightarrow> TupleDatum list \<Rightarrow> nat \<Rightarrow> bytes option res" where
  "binaryCopyStageData r kind columns values rowCount =
     (if length values \<noteq> rowCount * length columns
      then Inl (divergenceFor (Some r) kind ''binary stage has the wrong number of values'')
      else rbind (binary_stage_supported r kind (stage_cells columns values rowCount)) (\<lambda>ok.
        if ok then Inr (Some (pgcopy_header @ concat (map (binary_stage_row columns values) [0..<rowCount]) @ pgcopy_trailer))
        else Inr None))"

text \<open>The characters COPY escapes: backslash, tab, newline, carriage return, backspace, form feed, vertical tab.\<close>

definition text_copy_char :: "byte \<Rightarrow> bytes" where
  "text_copy_char ch = (if ch = 92 then [92, 92] else if ch = 9 then [92, 116] else if ch = 10 then [92, 110]
     else if ch = 13 then [92, 114] else if ch = 8 then [92, 98] else if ch = 12 then [92, 102]
     else if ch = 11 then [92, 118] else [ch])"

definition appendTextCopyValue :: "bytes \<Rightarrow> bytes \<Rightarrow> bytes" where
  "appendTextCopyValue dst v = dst @ concat (map text_copy_char v)"

text \<open>The tab and the value that follows it; \<^verbatim>\<open>\N\<close> is NULL.\<close>

definition text_cell :: "TupleDatum \<Rightarrow> bytes" where
  "text_cell d = (if dat_Kind d = DatumNull then [9, 92, 78] else appendTextCopyValue [9] (dat_bytes d))"

fun text_stage_supported :: "targetRelation \<Rightarrow> byte \<Rightarrow> (targetColumn \<times> TupleDatum) list \<Rightarrow> bool res" where
  "text_stage_supported r kind [] = Inr True"
| "text_stage_supported r kind ((c, d) # cells) = rbind (datumParamForColumn r c d kind) (\<lambda>_.
     if dat_Kind d = DatumNull \<or> dat_Kind d = DatumText then text_stage_supported r kind cells else Inr False)"

definition text_stage_row :: "targetColumn list \<Rightarrow> TupleDatum list \<Rightarrow> nat \<Rightarrow> bytes" where
  "text_stage_row columns values row = bytes_of_string (decimal row) @
     concat (map text_cell (stage_row (length columns) values row)) @ [10]"

definition textCopyStageData :: "targetRelation \<Rightarrow> byte \<Rightarrow> targetColumn list \<Rightarrow> TupleDatum list \<Rightarrow> nat \<Rightarrow> bytes option res" where
  "textCopyStageData r kind columns values rowCount =
     (if length values \<noteq> rowCount * length columns
      then Inl (divergenceFor (Some r) kind ''typed stage has the wrong number of values'')
      else rbind (text_stage_supported r kind (stage_cells columns values rowCount)) (\<lambda>ok.
        if ok then Inr (Some (concat (map (text_stage_row columns values) [0..<rowCount]))) else Inr None))"

definition textCopyStagePreferred :: "targetColumn list \<Rightarrow> bool" where
  "textCopyStagePreferred columns = list_ex (\<lambda>c. tc_oid c \<ge> 16384) columns"

definition minimumTextCopyStageRows :: nat where
  "minimumTextCopyStageRows = 64"

definition minimumBinaryCopyStageRows :: nat where
  "minimumBinaryCopyStageRows = 64"

definition loadBinaryCopyStage :: "targetRelation \<Rightarrow> byte \<Rightarrow> targetColumn list \<Rightarrow> TupleDatum list \<Rightarrow> nat \<Rightarrow> bytes option res" where
  "loadBinaryCopyStage r kind columns values rowCount =
     (if rowCount < minimumBinaryCopyStageRows \<or> columns = [] \<or> \<not> cap_binaryCopy (tr_capabilities r) then Inr None
      else binaryCopyStageData r kind columns values rowCount)"

definition loadTextCopyStage :: "targetRelation \<Rightarrow> byte \<Rightarrow> targetColumn list \<Rightarrow> TupleDatum list \<Rightarrow> nat \<Rightarrow> bytes option res" where
  "loadTextCopyStage r kind columns values rowCount =
     (if rowCount < minimumTextCopyStageRows \<or> columns = [] \<or> \<not> cap_textCopyStage (tr_capabilities r) \<or>
         \<not> textCopyStagePreferred columns then Inr None
      else textCopyStageData r kind columns values rowCount)"

section \<open>Statements\<close>

datatype StatementOp = InsertRows | UpsertRows | InspectRows "nat list" | UpdateRows "nat list" | UpdateRow
  | GeneratedUpdate | DeleteRows | DeleteRow | TruncateTables "targetRelation list" bool bool

datatype Transport = CopyData bytes | StageData bytes | Params "rawParam list"

record Statement =
  sm_op :: StatementOp
  sm_relation :: "targetRelation option"
  sm_identity :: "targetColumn list"
  sm_rows :: "Change list"
  sm_transport :: Transport
  sm_expectedRows :: int
  sm_expectedOrdinals :: nat
  sm_allowMissingRows :: bool

definition statement :: "StatementOp \<Rightarrow> targetRelation \<Rightarrow> targetColumn list \<Rightarrow> Change list \<Rightarrow> Transport \<Rightarrow> Statement" where
  "statement op r ident rows transport = \<lparr>sm_op = op, sm_relation = Some r, sm_identity = ident, sm_rows = rows,
     sm_transport = transport, sm_expectedRows = int (length rows), sm_expectedOrdinals = 0, sm_allowMissingRows = False\<rparr>"

definition returning_ordinals :: "Statement \<Rightarrow> Statement" where
  "returning_ordinals st = st\<lparr>sm_expectedOrdinals := length (sm_rows st)\<rparr>"

definition applyArrayChunkRows :: nat where
  "applyArrayChunkRows = 8192"

definition applySelectiveProbeChunkRows :: nat where
  "applySelectiveProbeChunkRows = 512"

definition insertChunkRows :: "nat \<Rightarrow> nat" where
  "insertChunkRows columnCount = (if columnCount = 0 then 1
     else let rows = 65535 div columnCount; rows = (if rows > 1000 then 1000 else rows) in if rows < 1 then 1 else rows)"

definition updateChunkRows :: "nat \<Rightarrow> nat" where
  "updateChunkRows parametersPerRow = (if parametersPerRow = 0 then 1
     else let rows = 65535 div parametersPerRow; rows = (if rows > 1000 then 1000 else rows) in if rows < 1 then 1 else rows)"

text \<open>\<^verbatim>\<open>for start := 0; start < len(xs); start += n\<close> with the slices \<^verbatim>\<open>xs[start:end]\<close>.\<close>

function chunks :: "nat \<Rightarrow> 'a list \<Rightarrow> 'a list list" where
  "chunks n xs = (if xs = [] \<or> n = 0 then [] else take n xs # chunks n (drop n xs))"
  by pat_completeness auto
termination by (relation "measure (\<lambda>(n, xs). length xs)") auto

declare chunks.simps [simp del]


section \<open>Inserts\<close>

definition applyInsertCopy :: "targetRelation \<Rightarrow> Change list \<Rightarrow> Statement option res" where
  "applyInsertCopy r changes =
     (if length changes < 256 \<or> tr_columns r = [] \<or> \<not> cap_binaryCopy (tr_capabilities r) then Inr None
      else rbind (binaryCopyData r changes) (\<lambda>data.
        Inr (map_option (\<lambda>d. statement InsertRows r [] changes (CopyData d)) data)))"

text \<open>The values of all rows, each row's tuple validated first.\<close>

definition row_cells :: "targetRelation \<Rightarrow> byte \<Rightarrow> Change list \<Rightarrow> TupleDatum list res" where
  "row_cells r kind changes = rbind (rmap (\<lambda>ch. rbind (validateTuple r (ch_New ch) kind) (\<lambda>_.
     rmap (\<lambda>c. tuple_at (ch_New ch) (tc_sourceIndex c)) (tr_columns r))) changes) (\<lambda>rows. Inr (concat rows))"

definition applyInsertTextStage :: "targetRelation \<Rightarrow> Change list \<Rightarrow> Statement option res" where
  "applyInsertTextStage r changes =
     (if length changes < minimumTextCopyStageRows \<or> \<not> cap_textCopyStage (tr_capabilities r) \<or>
         \<not> textCopyStagePreferred (tr_columns r) then Inr None
      else rbind (row_cells r ChangeInsert changes) (\<lambda>cells.
        rbind (loadTextCopyStage r ChangeInsert (tr_columns r) cells (length changes)) (\<lambda>data.
        Inr (map_option (\<lambda>d. statement InsertRows r [] changes (StageData d)) data))))"

text \<open>One array parameter for each column; \<open>None\<close> when a column does not support it.\<close>

fun new_arrays :: "targetRelation \<Rightarrow> byte \<Rightarrow> Change list \<Rightarrow> targetColumn list \<Rightarrow> rawParam list option res" where
  "new_arrays r kind changes [] = Inr (Some [])"
| "new_arrays r kind changes (c # cs) =
     rbind (rmap (\<lambda>ch. rbind (validateTuple r (ch_New ch) kind) (\<lambda>_. tuple_at (ch_New ch) (tc_sourceIndex c))) changes) (\<lambda>ds.
     rbind (arrayParamForColumn r c ds kind) (\<lambda>param. case param of
       None \<Rightarrow> Inr None
     | Some p \<Rightarrow> rbind (new_arrays r kind changes cs) (\<lambda>ps. Inr (map_option (Cons p) ps))))"

definition applyInsertArrayChunk :: "targetRelation \<Rightarrow> Change list \<Rightarrow> Statement option res" where
  "applyInsertArrayChunk r changes = rbind (new_arrays r ChangeInsert changes (tr_columns r)) (\<lambda>params.
     Inr (map_option (\<lambda>ps. statement InsertRows r [] changes (Params ps)) params))"

text \<open>The scalar parameters of a VALUES list.\<close>

definition new_scalars :: "targetRelation \<Rightarrow> byte \<Rightarrow> Change list \<Rightarrow> rawParam list res" where
  "new_scalars r kind changes = rbind (rmap (\<lambda>ch. rbind (validateTuple r (ch_New ch) kind) (\<lambda>_.
     rmap (\<lambda>c. rbind (tuple_at (ch_New ch) (tc_sourceIndex c)) (\<lambda>d. datumParamForColumn r c d kind)) (tr_columns r))) changes)
     (\<lambda>rows. Inr (concat rows))"

definition applyInsertChunk :: "targetRelation \<Rightarrow> Change list \<Rightarrow> Statement list \<Rightarrow> Statement list res" where
  "applyInsertChunk r changes q =
     (if tr_columns r = []
      then rfold (\<lambda>ch q. rbind (validateTuple r (ch_New ch) ChangeInsert) (\<lambda>_.
        Inr (q @ [statement InsertRows r [] [ch] (Params [])]))) changes q
      else rbind (new_scalars r ChangeInsert changes) (\<lambda>params.
        Inr (q @ [statement InsertRows r [] changes (Params params)])))"

text \<open>The transports are tried in turn until one supports the rows.\<close>

definition insert_array_rows :: "targetRelation \<Rightarrow> Change list \<Rightarrow> Statement list \<Rightarrow> Statement list res" where
  "insert_array_rows r changes q =
     (let by_values = rfold (applyInsertChunk r) (chunks (insertChunkRows (length (tr_columns r))) changes) q in
      if tr_columns r = [] then by_values
      else rbind (applyInsertTextStage r changes) (\<lambda>st. case st of Some s \<Rightarrow> Inr (q @ [s]) | None \<Rightarrow>
        rbind (applyInsertArrayChunk r changes) (\<lambda>st. case st of Some s \<Rightarrow> Inr (q @ [s]) | None \<Rightarrow> by_values)))"

definition applyInserts :: "targetRelation \<Rightarrow> Change list \<Rightarrow> Statement list \<Rightarrow> Statement list res" where
  "applyInserts r changes q = rbind (applyInsertCopy r changes) (\<lambda>st. case st of
     Some s \<Rightarrow> Inr (q @ [s])
   | None \<Rightarrow> rfold (insert_array_rows r) (chunks applyArrayChunkRows changes) q)"

section \<open>Upserts by primary key\<close>

definition applyPrimaryKeyUpsertBinaryStage :: "targetRelation \<Rightarrow> Change list \<Rightarrow> Statement option res" where
  "applyPrimaryKeyUpsertBinaryStage r changes = rbind (row_cells r ChangeUpdate changes) (\<lambda>cells.
     rbind (loadBinaryCopyStage r ChangeUpdate (tr_columns r) cells (length changes)) (\<lambda>data.
     Inr (map_option (\<lambda>d. statement UpsertRows r (primaryKeyColumns r) changes (StageData d)) data)))"

definition applyPrimaryKeyUpsertTextStage :: "targetRelation \<Rightarrow> Change list \<Rightarrow> Statement option res" where
  "applyPrimaryKeyUpsertTextStage r changes = rbind (row_cells r ChangeUpdate changes) (\<lambda>cells.
     rbind (loadTextCopyStage r ChangeUpdate (tr_columns r) cells (length changes)) (\<lambda>data.
     Inr (map_option (\<lambda>d. statement UpsertRows r (primaryKeyColumns r) changes (StageData d)) data)))"

definition applyPrimaryKeyUpsertArrayChunk :: "targetRelation \<Rightarrow> Change list \<Rightarrow> Statement option res" where
  "applyPrimaryKeyUpsertArrayChunk r changes = rbind (new_arrays r ChangeUpdate changes (tr_columns r)) (\<lambda>params.
     Inr (map_option (\<lambda>ps. statement UpsertRows r (primaryKeyColumns r) changes (Params ps)) params))"

definition applyPrimaryKeyUpsertValueChunk :: "targetRelation \<Rightarrow> Change list \<Rightarrow> Statement list \<Rightarrow> Statement list res" where
  "applyPrimaryKeyUpsertValueChunk r changes q = rbind (new_scalars r ChangeUpdate changes) (\<lambda>params.
     Inr (q @ [statement UpsertRows r (primaryKeyColumns r) changes (Params params)]))"

definition applyPrimaryKeyUpsertChunk :: "targetRelation \<Rightarrow> Change list \<Rightarrow> Statement list \<Rightarrow> Statement list res" where
  "applyPrimaryKeyUpsertChunk r changes q =
     (if changes = [] then Inr q
      else rbind (applyPrimaryKeyUpsertBinaryStage r changes) (\<lambda>st. case st of Some s \<Rightarrow> Inr (q @ [s]) | None \<Rightarrow>
        rbind (applyPrimaryKeyUpsertTextStage r changes) (\<lambda>st. case st of Some s \<Rightarrow> Inr (q @ [s]) | None \<Rightarrow>
        rbind (applyPrimaryKeyUpsertArrayChunk r changes) (\<lambda>st. case st of Some s \<Rightarrow> Inr (q @ [s]) | None \<Rightarrow>
        rfold (applyPrimaryKeyUpsertValueChunk r) (chunks (insertChunkRows (length (tr_columns r))) changes) q))))"

section \<open>Identities\<close>

text \<open>
  \<^verbatim>\<open>mappedColumns\<close> is nil only for a relation that was not loaded from the catalog; a loaded one
  without mapped columns has no writable columns either.
\<close>

definition predicateTargetColumns :: "targetRelation \<Rightarrow> targetColumn list" where
  "predicateTargetColumns r = (if tr_mappedColumns r \<noteq> [] then tr_mappedColumns r else tr_columns r)"

definition batchUpdateIdentityColumns :: "targetRelation \<Rightarrow> targetColumn list" where
  "batchUpdateIdentityColumns r =
     (if \<not> cap_keyedSetDML (tr_capabilities r) \<or> rel_ReplicaIdentity (tr_source r) = 102 then []
      else let keys = filter tc_key (predicateTargetColumns r) in
        if list_all tc_notNull keys then keys else [])"

fun identity_bytes :: "targetRelation \<Rightarrow> byte \<Rightarrow> Tuple option \<Rightarrow> targetColumn list \<Rightarrow> bytes res" where
  "identity_bytes r kind tuple [] = Inr []"
| "identity_bytes r kind tuple (c # cs) = rbind (tuple_at tuple (tc_sourceIndex c)) (\<lambda>d.
     if kind = ChangeDelete \<and> tc_primary c \<and> dat_Kind d = DatumNull
     then Inl (divergenceFor (Some r) kind ''primary key contains NULL'')
     else if dat_Kind d = DatumUnchangedToast
     then Inl (divergenceFor (Some r) kind ''replica identity contains unchanged TOAST'')
     else rbind (datumParamForColumn r c d kind) (\<lambda>_. rbind (identity_bytes r kind tuple cs) (\<lambda>rest.
       Inr (dat_Kind d # bytes_of_string (decimal (length (dat_bytes d)) @ '':'') @ dat_bytes d @ rest))))"

definition batchUpdateIdentityKey :: "targetRelation \<Rightarrow> targetColumn list \<Rightarrow> Change \<Rightarrow> bytes res" where
  "batchUpdateIdentityKey r ident change = rbind (validateTuple r (ch_New change) ChangeUpdate) (\<lambda>_.
     rbind (validateTuple r (predicate_tuple change) ChangeUpdate) (\<lambda>_.
     identity_bytes r ChangeUpdate (predicate_tuple change) ident))"

definition batchDeleteIdentityKey :: "targetRelation \<Rightarrow> targetColumn list \<Rightarrow> Change \<Rightarrow> bytes res" where
  "batchDeleteIdentityKey r ident change = rbind (validateTuple r (ch_Old change) ChangeDelete) (\<lambda>_.
     identity_bytes r ChangeDelete (ch_Old change) ident)"

text \<open>The columns an update assigns, by their index in \<^verbatim>\<open>relation.columns\<close>.\<close>

fun set_column_indexes :: "Change \<Rightarrow> nat \<Rightarrow> targetColumn list \<Rightarrow> nat list res" where
  "set_column_indexes change i [] = Inr []"
| "set_column_indexes change i (c # cs) = rbind (tuple_at (ch_New change) (tc_sourceIndex c)) (\<lambda>d.
     if dat_Kind d = DatumUnchangedToast then set_column_indexes change (Suc i) cs
     else if tc_key c
     then rbind (tuple_at (predicate_tuple change) (tc_sourceIndex c)) (\<lambda>old.
       if tupleDatumEqual d old then set_column_indexes change (Suc i) cs
       else rbind (set_column_indexes change (Suc i) cs) (\<lambda>is. Inr (i # is)))
     else rbind (set_column_indexes change (Suc i) cs) (\<lambda>is. Inr (i # is)))"

definition updateSetColumnIndexes :: "targetRelation \<Rightarrow> Change \<Rightarrow> nat list res" where
  "updateSetColumnIndexes r change = set_column_indexes change 0 (tr_columns r)"

definition updateSetColumnsBatchSafe :: "targetRelation \<Rightarrow> nat list \<Rightarrow> bool" where
  "updateSetColumnsBatchSafe r setColumns = list_all (\<lambda>i. \<not> tc_conflicting (tr_columns r ! i)) setColumns"

definition useSelectiveBitmap :: "targetRelation \<Rightarrow> bool" where
  "useSelectiveBitmap r =
     (if tr_heapBytes r < 2 ^ 30 then False
      else let totalBlocks = tr_heapBlocksRead r + tr_heapBlocksHit r in
        \<not> (totalBlocks \<ge> 1000000 \<and> tr_heapBlocksRead r \<le> totalBlocks div 100))"

definition useExactIdentityMembership :: "targetRelation \<Rightarrow> targetColumn list \<Rightarrow> bool" where
  "useExactIdentityMembership r ident \<longleftrightarrow> length ident = 1 \<and> useSelectiveBitmap r"


section \<open>Single updates and deletes\<close>

fun predicate_params :: "targetRelation \<Rightarrow> Tuple option \<Rightarrow> byte \<Rightarrow> targetColumn list \<Rightarrow> rawParam list res" where
  "predicate_params r tuple kind [] = Inr []"
| "predicate_params r tuple kind (c # cs) =
     (if rel_ReplicaIdentity (tr_source r) \<noteq> 102 \<and> \<not> tc_key c then predicate_params r tuple kind cs
      else rbind (tuple_at tuple (tc_sourceIndex c)) (\<lambda>d.
        if dat_Kind d = DatumUnchangedToast
        then Inl (divergenceFor (Some r) kind ''replica identity contains unchanged TOAST'')
        else rbind (datumParamForColumn r c d kind) (\<lambda>p. rbind (predicate_params r tuple kind cs) (\<lambda>ps. Inr (p # ps)))))"

definition appendPredicate :: "rawParam list \<Rightarrow> targetRelation \<Rightarrow> Tuple option \<Rightarrow> byte \<Rightarrow> rawParam list res" where
  "appendPredicate params r tuple kind = rbind (predicate_params r tuple kind (predicateTargetColumns r)) (\<lambda>ps.
     if ps = [] then Inl (divergenceFor (Some r) kind ''no replica identity columns are available'')
     else Inr (params @ ps))"

definition hasReplicaIdentityColumns :: "targetRelation \<Rightarrow> bool" where
  "hasReplicaIdentityColumns r =
     (if rel_ReplicaIdentity (tr_source r) = 102 then predicateTargetColumns r \<noteq> []
      else list_ex tc_key (predicateTargetColumns r))"

definition applyGeneratedOnlyUpdate :: "targetRelation \<Rightarrow> Change \<Rightarrow> Statement list \<Rightarrow> Statement list res" where
  "applyGeneratedOnlyUpdate r change q =
     (if \<not> hasReplicaIdentityColumns r then Inr q
      else if tr_generatedColumns r = []
      then Inl (divergenceFor (Some r) ChangeUpdate ''relation has no column available for a generated-only no-op'')
      else rbind (appendPredicate [] r (predicate_tuple change) ChangeUpdate) (\<lambda>params.
        Inr (q @ [statement GeneratedUpdate r [] [change] (Params params)])))"

fun set_params :: "targetRelation \<Rightarrow> Tuple option \<Rightarrow> targetColumn list \<Rightarrow> rawParam list res" where
  "set_params r tuple [] = Inr []"
| "set_params r tuple (c # cs) = rbind (tuple_at tuple (tc_sourceIndex c)) (\<lambda>d.
     if dat_Kind d = DatumUnchangedToast then set_params r tuple cs
     else rbind (datumParamForColumn r c d ChangeUpdate) (\<lambda>p. rbind (set_params r tuple cs) (\<lambda>ps. Inr (p # ps))))"

definition applyUpdate :: "targetRelation \<Rightarrow> Change \<Rightarrow> Statement list \<Rightarrow> Statement list res" where
  "applyUpdate r change q = rbind (validateTuple r (ch_New change) ChangeUpdate) (\<lambda>_.
     rbind (validateTuple r (predicate_tuple change) ChangeUpdate) (\<lambda>_.
     if tr_columns r = [] then applyGeneratedOnlyUpdate r change q
     else rbind (set_params r (ch_New change) (tr_columns r)) (\<lambda>sets.
       rbind (appendPredicate sets r (predicate_tuple change) ChangeUpdate) (\<lambda>params.
       Inr (q @ [statement UpdateRow r [] [change] (Params params)])))))"

fun primary_params :: "targetRelation \<Rightarrow> Tuple option \<Rightarrow> targetColumn list \<Rightarrow> rawParam list res" where
  "primary_params r tuple [] = Inr []"
| "primary_params r tuple (c # cs) = rbind (tuple_at tuple (tc_sourceIndex c)) (\<lambda>d.
     if dat_Kind d = DatumNull then Inl (divergenceFor (Some r) ChangeDelete ''primary key contains NULL'')
     else if dat_Kind d = DatumUnchangedToast then Inl (divergenceFor (Some r) ChangeDelete ''primary key contains unchanged TOAST'')
     else rbind (datumParamForColumn r c d ChangeDelete) (\<lambda>p. rbind (primary_params r tuple cs) (\<lambda>ps. Inr (p # ps))))"

definition applyDelete :: "targetRelation \<Rightarrow> Change \<Rightarrow> Statement list \<Rightarrow> Statement list res" where
  "applyDelete r change q = rbind (validateTuple r (ch_Old change) ChangeDelete) (\<lambda>_.
     case primaryKeyDeleteColumns r of
       Some primary \<Rightarrow> rbind (primary_params r (ch_Old change) primary) (\<lambda>params.
         Inr (q @ [(statement DeleteRow r primary [change] (Params params))\<lparr>sm_allowMissingRows := True\<rparr>]))
     | None \<Rightarrow> rbind (appendPredicate [] r (ch_Old change) ChangeDelete) (\<lambda>params.
         Inr (q @ [statement DeleteRow r [] [change] (Params params)])))"

section \<open>Batched updates\<close>

text \<open>The values of the assigned columns and of the identity, column by column.\<close>

definition update_column_values :: "targetRelation \<Rightarrow> targetColumn list \<Rightarrow> nat list \<Rightarrow> Change list \<Rightarrow> (targetColumn \<times> TupleDatum list) list res" where
  "update_column_values r ident setColumns changes =
     rbind (rmap (\<lambda>i. rbind (rmap (\<lambda>ch. tuple_at (ch_New ch) (tc_sourceIndex (tr_columns r ! i))) changes) (\<lambda>ds.
       Inr (tr_columns r ! i, ds))) setColumns) (\<lambda>sets.
     rbind (rmap (\<lambda>c. rbind (rmap (\<lambda>ch. tuple_at (predicate_tuple ch) (tc_sourceIndex c)) changes) (\<lambda>ds. Inr (c, ds))) ident) (\<lambda>keys.
     Inr (sets @ keys)))"

fun array_params :: "targetRelation \<Rightarrow> byte \<Rightarrow> (targetColumn \<times> TupleDatum list) list \<Rightarrow> rawParam list option res" where
  "array_params r kind [] = Inr (Some [])"
| "array_params r kind ((c, ds) # cols) = rbind (arrayParamForColumn r c ds kind) (\<lambda>param. case param of
     None \<Rightarrow> Inr None
   | Some p \<Rightarrow> rbind (array_params r kind cols) (\<lambda>ps. Inr (map_option (Cons p) ps)))"

definition identity_scalars :: "targetRelation \<Rightarrow> byte \<Rightarrow> targetColumn list \<Rightarrow> (Change \<Rightarrow> Tuple option) \<Rightarrow> Change list \<Rightarrow> rawParam list res" where
  "identity_scalars r kind ident key changes = rbind (rmap (\<lambda>ch.
     rmap (\<lambda>c. rbind (tuple_at (key ch) (tc_sourceIndex c)) (\<lambda>d. datumParamForColumn r c d kind)) ident) changes)
     (\<lambda>rows. Inr (concat rows))"

definition appendSelectiveIdentityScalarParams :: "rawParam list \<Rightarrow> targetRelation \<Rightarrow> targetColumn list \<Rightarrow> Change list \<Rightarrow> rawParam list res" where
  "appendSelectiveIdentityScalarParams params r ident changes =
     rbind (identity_scalars r ChangeUpdate ident predicate_tuple changes) (\<lambda>ps. Inr (params @ ps))"

definition appendDeleteIdentityScalarParams :: "rawParam list \<Rightarrow> targetRelation \<Rightarrow> targetColumn list \<Rightarrow> Change list \<Rightarrow> rawParam list res" where
  "appendDeleteIdentityScalarParams params r ident changes =
     rbind (identity_scalars r ChangeDelete ident ch_Old changes) (\<lambda>ps. Inr (params @ ps))"

definition update_array_params :: "targetRelation \<Rightarrow> targetColumn list \<Rightarrow> nat list \<Rightarrow> Change list \<Rightarrow> rawParam list option res" where
  "update_array_params r ident setColumns changes = rbind (update_column_values r ident setColumns changes) (\<lambda>cols.
     rbind (array_params r ChangeUpdate cols) (\<lambda>params. case params of
       None \<Rightarrow> Inr None
     | Some ps \<Rightarrow>
         if useExactIdentityMembership r ident
         then rbind (appendSelectiveIdentityScalarParams ps r ident changes) (\<lambda>ps. Inr (Some ps))
         else Inr (Some ps)))"

definition update_value_params :: "targetRelation \<Rightarrow> targetColumn list \<Rightarrow> nat list \<Rightarrow> Change list \<Rightarrow> rawParam list res" where
  "update_value_params r ident setColumns changes = rbind (rmap (\<lambda>ch.
     rbind (rmap (\<lambda>i. rbind (tuple_at (ch_New ch) (tc_sourceIndex (tr_columns r ! i))) (\<lambda>d.
       datumParamForColumn r (tr_columns r ! i) d ChangeUpdate)) setColumns) (\<lambda>sets.
     rbind (rmap (\<lambda>c. rbind (tuple_at (predicate_tuple ch) (tc_sourceIndex c)) (\<lambda>d.
       datumParamForColumn r c d ChangeUpdate)) ident) (\<lambda>keys. Inr (sets @ keys)))) changes) (\<lambda>rows. Inr (concat rows))"

definition applyUpdateTextStage :: "targetRelation \<Rightarrow> targetColumn list \<Rightarrow> nat list \<Rightarrow> Change list \<Rightarrow> Statement option res" where
  "applyUpdateTextStage r ident setColumns changes =
     (let stageColumns = map ((!) (tr_columns r)) setColumns @ ident in
      if length changes < minimumTextCopyStageRows \<or> \<not> cap_textCopyStage (tr_capabilities r) \<or>
         useExactIdentityMembership r ident \<or> \<not> textCopyStagePreferred stageColumns then Inr None
      else rbind (rmap (\<lambda>ch. rbind (rmap (\<lambda>i. tuple_at (ch_New ch) (tc_sourceIndex (tr_columns r ! i))) setColumns) (\<lambda>sets.
          rbind (rmap (\<lambda>c. tuple_at (predicate_tuple ch) (tc_sourceIndex c)) ident) (\<lambda>keys. Inr (sets @ keys)))) changes) (\<lambda>rows.
        rbind (loadTextCopyStage r ChangeUpdate stageColumns (concat rows) (length changes)) (\<lambda>data.
        Inr (map_option (\<lambda>d. returning_ordinals (statement (UpdateRows setColumns) r ident changes (StageData d))) data))))"

definition applyUpdateArrayChunk :: "targetRelation \<Rightarrow> targetColumn list \<Rightarrow> nat list \<Rightarrow> Change list \<Rightarrow> Statement option res" where
  "applyUpdateArrayChunk r ident setColumns changes = rbind (update_array_params r ident setColumns changes) (\<lambda>params.
     Inr (map_option (\<lambda>ps. returning_ordinals (statement (UpdateRows setColumns) r ident changes (Params ps))) params))"

definition applyUpdateValueChunk :: "targetRelation \<Rightarrow> targetColumn list \<Rightarrow> nat list \<Rightarrow> Change list \<Rightarrow> Statement list \<Rightarrow> Statement list res" where
  "applyUpdateValueChunk r ident setColumns changes q = rbind (update_value_params r ident setColumns changes) (\<lambda>params.
     Inr (q @ [returning_ordinals (statement (UpdateRows setColumns) r ident changes (Params params))]))"

definition applyUpdateChunk :: "targetRelation \<Rightarrow> targetColumn list \<Rightarrow> nat list \<Rightarrow> Change list \<Rightarrow> Statement list \<Rightarrow> Statement list res" where
  "applyUpdateChunk r ident setColumns changes q =
     rbind (applyUpdateTextStage r ident setColumns changes) (\<lambda>st. case st of Some s \<Rightarrow> Inr (q @ [s]) | None \<Rightarrow>
     rbind (applyUpdateArrayChunk r ident setColumns changes) (\<lambda>st. case st of Some s \<Rightarrow> Inr (q @ [s]) | None \<Rightarrow>
     rfold (applyUpdateValueChunk r ident setColumns) (chunks (updateChunkRows (length setColumns + length ident)) changes) q))"

section \<open>Selective updates\<close>

text \<open>
  What the server answers: the rows of a result, each a list of values in text form. The text of an
  ordinal is read by \<^verbatim>\<open>strconv.Atoi\<close>.
\<close>

definition digit_char :: "char \<Rightarrow> bool" where
  "digit_char ch \<longleftrightarrow> 48 \<le> (of_char ch :: nat) \<and> (of_char ch :: nat) \<le> 57"

definition digits_value :: "string \<Rightarrow> int" where
  "digits_value s = foldl (\<lambda>n ch. 10 * n + (of_char ch - 48)) 0 s"

definition Atoi :: "string \<Rightarrow> int option" where
  "Atoi s = (let neg = (s \<noteq> [] \<and> hd s = CHR ''-'');
                 ds = (if s \<noteq> [] \<and> (hd s = CHR ''-'' \<or> hd s = CHR ''+'') then tl s else s);
                 n = (if neg then - digits_value ds else digits_value ds) in
     if ds = [] \<or> \<not> list_all digit_char ds \<or> n < - (2 ^ 63) \<or> n \<ge> 2 ^ 63 then None else Some n)"

fun mask_flags :: "targetRelation \<Rightarrow> nat list \<Rightarrow> string list \<Rightarrow> nat list res" where
  "mask_flags r (i # is) (v # vs) =
     (if v = ''t'' then rbind (mask_flags r is vs) (\<lambda>m. Inr (i # m))
      else if v = ''f'' then mask_flags r is vs
      else Inl (divergenceFor (Some r) ChangeUpdate ''selective inspection returned an invalid difference flag''))"
| "mask_flags r _ _ = Inr []"

fun consume_masks :: "targetRelation \<Rightarrow> nat list \<Rightarrow> string list list \<Rightarrow> nat list option list \<Rightarrow> nat list list res" where
  "consume_masks r setColumns [] masks =
     (if list_all (\<lambda>m. m \<noteq> None) masks then Inr (map the masks)
      else Inl (divergenceFor (Some r) ChangeUpdate ''selective inspection did not match a source row''))"
| "consume_masks r setColumns (vs # rows) masks =
     (if length vs \<noteq> length setColumns + 1
      then Inl (divergenceFor (Some r) ChangeUpdate ''selective inspection returned the wrong number of columns'')
      else case Atoi (hd vs) of
        None \<Rightarrow> Inl (divergenceFor (Some r) ChangeUpdate ''selective inspection returned an invalid ordinal'')
      | Some i \<Rightarrow>
          if i < 0 \<or> i \<ge> int (length masks) \<or> masks ! nat i \<noteq> None
          then Inl (divergenceFor (Some r) ChangeUpdate ''selective inspection returned an invalid ordinal'')
          else rbind (mask_flags r setColumns (tl vs)) (\<lambda>m. consume_masks r setColumns rows (masks[nat i := Some m])))"

text \<open>The statements queued so far, the inspection last, and the rows the server returns for it.\<close>

type_synonym inspection = "Statement list \<Rightarrow> string list list res"

definition inspectSelectiveUpdateMasks ::
  "inspection \<Rightarrow> targetRelation \<Rightarrow> targetColumn list \<Rightarrow> nat list \<Rightarrow> Change list \<Rightarrow> Statement list \<Rightarrow> (nat list list \<times> Statement list) res" where
  "inspectSelectiveUpdateMasks inspect r ident setColumns changes q =
     rbind (update_array_params r ident setColumns changes) (\<lambda>params.
     rbind (case params of Some ps \<Rightarrow> Inr ps | None \<Rightarrow> update_value_params r ident setColumns changes) (\<lambda>ps.
     let q = q @ [returning_ordinals (statement (InspectRows setColumns) r ident changes (Params ps))] in
     rbind (inspect q) (\<lambda>rows.
     rbind (consume_masks r setColumns rows (replicate (length changes) None)) (\<lambda>masks. Inr (masks, q)))))"

definition selectiveChange :: "targetRelation \<Rightarrow> Change \<Rightarrow> nat list \<Rightarrow> Change" where
  "selectiveChange r change setColumns = (case ch_New change of None \<Rightarrow> change | Some new \<Rightarrow>
     change\<lparr>ch_Old := predicate_tuple change,
       ch_New := Some (foldl (\<lambda>t i. t[nat (tc_sourceIndex (tr_columns r ! i)) := new ! nat (tc_sourceIndex (tr_columns r ! i))])
         (replicate (length new) \<lparr>dat_Kind = DatumUnchangedToast, dat_Data = None\<rparr>) setColumns)\<rparr>)"

text \<open>How many of the next changes have the same mask and identities not seen before.\<close>

fun mask_group :: "targetRelation \<Rightarrow> targetColumn list \<Rightarrow> nat list \<Rightarrow> bytes list \<Rightarrow> nat \<Rightarrow> (Change \<times> nat list) list \<Rightarrow> nat res" where
  "mask_group r ident msk seen k [] = Inr 0"
| "mask_group r ident msk seen k ((ch, m) # rest) =
     (if k \<ge> applyArrayChunkRows \<or> m \<noteq> msk then Inr 0
      else rbind (batchUpdateIdentityKey r ident ch) (\<lambda>key.
        if key \<in> set seen then Inr 0
        else rbind (mask_group r ident msk (key # seen) (Suc k) rest) (\<lambda>n. Inr (Suc n))))"

function selective_loop :: "targetRelation \<Rightarrow> targetColumn list \<Rightarrow> (Change \<times> nat list) list \<Rightarrow> Statement list \<Rightarrow> Statement list res" where
  "selective_loop r ident [] q = Inr q"
| "selective_loop r ident ((ch, msk) # rest) q =
     (if msk = [] then selective_loop r ident rest q
      else if \<not> updateSetColumnsBatchSafe r msk
      then rbind (applyUpdate r (selectiveChange r ch msk) q) (selective_loop r ident rest)
      else rbind (batchUpdateIdentityKey r ident ch) (\<lambda>key.
        rbind (mask_group r ident msk [key] 1 rest) (\<lambda>n.
        let exact = map (\<lambda>(c, m). selectiveChange r c msk) ((ch, msk) # take n rest) in
        rbind (if length exact = 1 then applyUpdate r (hd exact) q else applyUpdateChunk r ident msk exact q)
          (selective_loop r ident (drop n rest)))))"
  by pat_completeness auto
termination by (relation "measure (\<lambda>(r, ident, rest, q). length rest)") auto

definition applySelectiveUpdateChunk ::
  "inspection \<Rightarrow> targetRelation \<Rightarrow> targetColumn list \<Rightarrow> nat list \<Rightarrow> Change list \<Rightarrow> Statement list \<Rightarrow> Statement list res" where
  "applySelectiveUpdateChunk inspect r ident setColumns changes q =
     rbind (inspectSelectiveUpdateMasks inspect r ident setColumns changes q) (\<lambda>(masks, q).
     selective_loop r ident (zip changes masks) q)"


section \<open>The updates of a run\<close>

text \<open>How many of the next changes assign the same columns to identities not seen before.\<close>

fun update_group :: "targetRelation \<Rightarrow> targetColumn list \<Rightarrow> nat list \<Rightarrow> nat \<Rightarrow> bytes list \<Rightarrow> nat \<Rightarrow> Change list \<Rightarrow> nat res" where
  "update_group r ident setColumns chunkRows seen k [] = Inr 0"
| "update_group r ident setColumns chunkRows seen k (ch # chs) =
     (if k \<ge> chunkRows then Inr 0
      else rbind (batchUpdateIdentityKey r ident ch) (\<lambda>key. rbind (updateSetColumnIndexes r ch) (\<lambda>candidate.
        if setColumns \<noteq> candidate \<or>
           (\<not> cap_selectiveUpdates (tr_capabilities r) \<and> \<not> updateSetColumnsBatchSafe r candidate) then Inr 0
        else if key \<in> set seen then Inr 0
        else rbind (update_group r ident setColumns chunkRows (key # seen) (Suc k) chs) (\<lambda>n. Inr (Suc n)))))"

definition update_chunk_rows :: "targetRelation \<Rightarrow> targetColumn list \<Rightarrow> nat list \<Rightarrow> nat" where
  "update_chunk_rows r ident setColumns =
     (let chunkRows = (if cap_selectiveUpdates (tr_capabilities r)
        then updateChunkRows (length setColumns + length ident) else applyArrayChunkRows) in
      if useExactIdentityMembership r ident \<and> chunkRows > applySelectiveProbeChunkRows
      then applySelectiveProbeChunkRows else chunkRows)"

definition queue_update_group ::
  "inspection \<Rightarrow> targetRelation \<Rightarrow> targetColumn list \<Rightarrow> nat list \<Rightarrow> Change list \<Rightarrow> Statement list \<Rightarrow> Statement list res" where
  "queue_update_group inspect r ident setColumns changes q =
     (if cap_selectiveUpdates (tr_capabilities r) then applySelectiveUpdateChunk inspect r ident setColumns changes q
      else if length changes = 1 then applyUpdate r (hd changes) q
      else applyUpdateChunk r ident setColumns changes q)"

function legacy_loop :: "inspection \<Rightarrow> targetRelation \<Rightarrow> targetColumn list \<Rightarrow> Change list \<Rightarrow> Statement list \<Rightarrow> Statement list res" where
  "legacy_loop inspect r ident [] q = Inr q"
| "legacy_loop inspect r ident (ch # chs) q =
     rbind (batchUpdateIdentityKey r ident ch) (\<lambda>key. rbind (updateSetColumnIndexes r ch) (\<lambda>setColumns.
     if \<not> cap_selectiveUpdates (tr_capabilities r) \<and> \<not> updateSetColumnsBatchSafe r setColumns
     then rbind (applyUpdate r ch q) (legacy_loop inspect r ident chs)
     else rbind (update_group r ident setColumns (update_chunk_rows r ident setColumns) [key] 1 chs) (\<lambda>n.
       rbind (queue_update_group inspect r ident setColumns (ch # take n chs) q) (legacy_loop inspect r ident (drop n chs)))))"
  by pat_completeness auto
termination by (relation "measure (\<lambda>(inspect, r, ident, chs, q). length chs)") auto

definition applyLegacyUpdates :: "inspection \<Rightarrow> targetRelation \<Rightarrow> Change list \<Rightarrow> Statement list \<Rightarrow> Statement list res" where
  "applyLegacyUpdates inspect r changes q = (let ident = batchUpdateIdentityColumns r in
     if length changes < 2 \<or> ident = [] \<or> tr_columns r = [] then rfold (applyUpdate r) changes q
     else legacy_loop inspect r ident changes q)"

text \<open>The changes that cannot be upserted, up to the first that can.\<close>

fun legacy_run :: "targetRelation \<Rightarrow> Change list \<Rightarrow> nat res" where
  "legacy_run r [] = Inr 0"
| "legacy_run r (ch # chs) = rbind (canPrimaryKeyUpsert (Some r) ch) (\<lambda>ok.
     if ok then Inr 0 else rbind (legacy_run r chs) (\<lambda>n. Inr (Suc n)))"

text \<open>The changes that can be upserted and whose keys have not been seen.\<close>

fun upsert_run :: "targetRelation \<Rightarrow> bytes list \<Rightarrow> nat \<Rightarrow> Change list \<Rightarrow> nat res" where
  "upsert_run r seen k [] = Inr 0"
| "upsert_run r seen k (ch # chs) =
     (if k \<ge> applyArrayChunkRows then Inr 0
      else rbind (canPrimaryKeyUpsert (Some r) ch) (\<lambda>ok.
        if \<not> ok then Inr 0
        else rbind (primaryKeyTupleKey r (ch_New ch)) (\<lambda>key.
          if key \<in> set seen then Inr 0
          else rbind (upsert_run r (key # seen) (Suc k) chs) (\<lambda>n. Inr (Suc n)))))"

function applyUpdates :: "inspection \<Rightarrow> targetRelation \<Rightarrow> Change list \<Rightarrow> Statement list \<Rightarrow> Statement list res" where
  "applyUpdates inspect r [] q = Inr q"
| "applyUpdates inspect r (ch # chs) q = rbind (canPrimaryKeyUpsert (Some r) ch) (\<lambda>ok.
     if \<not> ok
     then rbind (legacy_run r chs) (\<lambda>n.
       rbind (applyLegacyUpdates inspect r (ch # take n chs) q) (applyUpdates inspect r (drop n chs)))
     else rbind (primaryKeyTupleKey r (ch_New ch)) (\<lambda>key. rbind (upsert_run r [key] 1 chs) (\<lambda>n.
       rbind (applyPrimaryKeyUpsertChunk r (ch # take n chs) q) (applyUpdates inspect r (drop n chs)))))"
  by pat_completeness auto
termination by (relation "measure (\<lambda>(inspect, r, chs, q). length chs)") auto

section \<open>The deletes of a run\<close>

definition delete_column_values :: "targetColumn list \<Rightarrow> Change list \<Rightarrow> (targetColumn \<times> TupleDatum list) list res" where
  "delete_column_values ident changes = rmap (\<lambda>c.
     rbind (rmap (\<lambda>ch. tuple_at (ch_Old ch) (tc_sourceIndex c)) changes) (\<lambda>ds. Inr (c, ds))) ident"

definition delete_statement :: "targetRelation \<Rightarrow> targetColumn list \<Rightarrow> Change list \<Rightarrow> Transport \<Rightarrow> Statement" where
  "delete_statement r ident changes transport =
     (returning_ordinals (statement DeleteRows r ident changes transport))\<lparr>sm_allowMissingRows := deleteUsesTargetPrimaryKey r ident\<rparr>"

definition applyDeleteTextStage :: "targetRelation \<Rightarrow> targetColumn list \<Rightarrow> Change list \<Rightarrow> Statement option res" where
  "applyDeleteTextStage r ident changes =
     (if length changes < minimumTextCopyStageRows \<or> \<not> cap_textCopyStage (tr_capabilities r) \<or>
         useExactIdentityMembership r ident \<or> \<not> textCopyStagePreferred ident then Inr None
      else rbind (rmap (\<lambda>ch. rmap (\<lambda>c. tuple_at (ch_Old ch) (tc_sourceIndex c)) ident) changes) (\<lambda>rows.
        rbind (loadTextCopyStage r ChangeDelete ident (concat rows) (length changes)) (\<lambda>data.
        Inr (map_option (\<lambda>d. delete_statement r ident changes (StageData d)) data))))"

definition applyDeleteArrayChunk :: "targetRelation \<Rightarrow> targetColumn list \<Rightarrow> Change list \<Rightarrow> Statement option res" where
  "applyDeleteArrayChunk r ident changes = rbind (delete_column_values ident changes) (\<lambda>cols.
     rbind (array_params r ChangeDelete cols) (\<lambda>params. case params of
       None \<Rightarrow> Inr None
     | Some ps \<Rightarrow> rbind (if useExactIdentityMembership r ident \<and> \<not> deleteUsesTargetPrimaryKey r ident
         then appendDeleteIdentityScalarParams ps r ident changes else Inr ps) (\<lambda>ps.
       Inr (Some (delete_statement r ident changes (Params ps))))))"

definition applyDeleteValueChunk :: "targetRelation \<Rightarrow> targetColumn list \<Rightarrow> Change list \<Rightarrow> Statement list \<Rightarrow> Statement list res" where
  "applyDeleteValueChunk r ident changes q = rbind (appendDeleteIdentityScalarParams [] r ident changes) (\<lambda>params.
     Inr (q @ [delete_statement r ident changes (Params params)]))"

definition applyDeleteChunk :: "targetRelation \<Rightarrow> targetColumn list \<Rightarrow> Change list \<Rightarrow> Statement list \<Rightarrow> Statement list res" where
  "applyDeleteChunk r ident changes q =
     rbind (applyDeleteTextStage r ident changes) (\<lambda>st. case st of Some s \<Rightarrow> Inr (q @ [s]) | None \<Rightarrow>
     rbind (applyDeleteArrayChunk r ident changes) (\<lambda>st. case st of Some s \<Rightarrow> Inr (q @ [s]) | None \<Rightarrow>
     rfold (applyDeleteValueChunk r ident) (chunks (updateChunkRows (length ident)) changes) q))"

fun delete_group :: "targetRelation \<Rightarrow> targetColumn list \<Rightarrow> nat \<Rightarrow> bytes list \<Rightarrow> nat \<Rightarrow> Change list \<Rightarrow> nat res" where
  "delete_group r ident chunkRows seen k [] = Inr 0"
| "delete_group r ident chunkRows seen k (ch # chs) =
     (if k \<ge> chunkRows then Inr 0
      else rbind (batchDeleteIdentityKey r ident ch) (\<lambda>key.
        if key \<in> set seen then Inr 0
        else rbind (delete_group r ident chunkRows (key # seen) (Suc k) chs) (\<lambda>n. Inr (Suc n))))"

function delete_loop :: "targetRelation \<Rightarrow> targetColumn list \<Rightarrow> nat \<Rightarrow> Change list \<Rightarrow> Statement list \<Rightarrow> Statement list res" where
  "delete_loop r ident chunkRows [] q = Inr q"
| "delete_loop r ident chunkRows (ch # chs) q = rbind (batchDeleteIdentityKey r ident ch) (\<lambda>key.
     rbind (delete_group r ident chunkRows [key] 1 chs) (\<lambda>n.
     rbind (if n = 0 then applyDelete r ch q else applyDeleteChunk r ident (ch # take n chs) q)
       (delete_loop r ident chunkRows (drop n chs))))"
  by pat_completeness auto
termination by (relation "measure (\<lambda>(r, ident, chunkRows, chs, q). length chs)") auto

definition applyDeletes :: "targetRelation \<Rightarrow> Change list \<Rightarrow> Statement list \<Rightarrow> Statement list res" where
  "applyDeletes r changes q =
     (let ident = (case primaryKeyDeleteColumns r of Some primary \<Rightarrow> primary | None \<Rightarrow> batchUpdateIdentityColumns r) in
      if length changes < 2 \<or> ident = [] then rfold (applyDelete r) changes q
      else delete_loop r ident (if useExactIdentityMembership r ident then applySelectiveProbeChunkRows else applyArrayChunkRows) changes q)"

end
