(* ===== verification/ApplyLanes.thy ===== *)
theory ApplyLanes
  imports ApplyStatements ReplayPlan
begin

text \<open>
  The order in which the applier queues the changes of a batch: the cache of target relations, the
  steps of \<^verbatim>\<open>planRelationBatchedChanges\<close>, the runs of changes that share a statement, the serial and
  the spilled transaction (\<^verbatim>\<open>internal/cdc/applier.go\<close>), and the lanes of a parallel step with the
  coalescing of their updates (\<^verbatim>\<open>internal/cdc/replay_execute.go\<close>).

  The code tells target relations apart by their addresses. An address is the number of the load
  that made the relation; the loader, which queries the catalog, is a parameter.
\<close>

section \<open>Target relations and their cache\<close>

type_synonym resolution = "u32 \<Rightarrow> (nat \<times> targetRelation) option"

record targetRelationCache =
  tc_relations :: resolution
  tc_loads :: nat

definition newTargetRelationCache :: targetRelationCache where
  "newTargetRelationCache = \<lparr>tc_relations = (\<lambda>_. None), tc_loads = 0\<rparr>"

definition sameRelationDefinition :: "Relation \<Rightarrow> Relation \<Rightarrow> bool" where
  "sameRelationDefinition l r \<longleftrightarrow> rel_OID l = rel_OID r \<and> rel_Namespace l = rel_Namespace r \<and> rel_Name l = rel_Name r \<and>
     rel_ReplicaIdentity l = rel_ReplicaIdentity r \<and> rel_Columns l = rel_Columns r"

type_synonym loader = "nat \<Rightarrow> Relation \<Rightarrow> targetRelation res"

definition resolve :: "loader \<Rightarrow> targetRelationCache \<Rightarrow> Relation \<Rightarrow> ((nat \<times> targetRelation) \<times> targetRelationCache) res" where
  "resolve loader cache source =
     (let load = rbind (loader (tc_loads cache) source) (\<lambda>relation.
        let entry = (tc_loads cache, relation\<lparr>tr_source := source\<rparr>) in
        Inr (entry, \<lparr>tc_relations = (tc_relations cache)(rel_OID source \<mapsto> entry), tc_loads = Suc (tc_loads cache)\<rparr>)) in
      case tc_relations cache (rel_OID source) of
        Some (address, cached) \<Rightarrow>
          if sameRelationDefinition (tr_source cached) source then Inr ((address, cached), cache) else load
      | None \<Rightarrow> load)"

fun resolve_relations :: "loader \<Rightarrow> targetRelationCache \<Rightarrow> Relation list \<Rightarrow> resolution \<Rightarrow> (resolution \<times> targetRelationCache) res" where
  "resolve_relations loader cache [] relations = Inr (relations, cache)"
| "resolve_relations loader cache (source # sources) relations = rbind (resolve loader cache source) (\<lambda>(entry, cache).
     resolve_relations loader cache sources (relations(rel_OID (tr_source (snd entry)) \<mapsto> entry)))"

definition resolveTargetRelations :: "loader \<Rightarrow> targetRelationCache \<Rightarrow> Transaction \<Rightarrow> (resolution \<times> targetRelationCache) res" where
  "resolveTargetRelations loader cache tx = resolve_relations loader cache (tx_Relations tx) (\<lambda>_. None)"

fun resolve_batch :: "loader \<Rightarrow> targetRelationCache \<Rightarrow> Transaction list \<Rightarrow> (resolution list \<times> targetRelationCache) res" where
  "resolve_batch loader cache [] = Inr ([], cache)"
| "resolve_batch loader cache (tx # txs) = rbind (resolveTargetRelations loader cache tx) (\<lambda>(relations, cache).
     rbind (resolve_batch loader cache txs) (\<lambda>(rest, cache). Inr (relations # rest, cache)))"

section \<open>Runs of changes\<close>

text \<open>A change in the queue; the address is that of \<open>rbc_relation\<close>.\<close>

record queuedChange = relationBatchedChange +
  rbc_address :: nat

definition sameTruncateOptions :: "Change \<Rightarrow> Change \<Rightarrow> bool" where
  "sameTruncateOptions l r \<longleftrightarrow> ch_TruncateCascade l = ch_TruncateCascade r \<and>
     ch_TruncateRestartIdentity l = ch_TruncateRestartIdentity r"

fun truncate_relations :: "resolution \<Rightarrow> Change list \<Rightarrow> targetRelation list res" where
  "truncate_relations relations [] = Inr []"
| "truncate_relations relations (c # cs) = (case relations (ch_RelationOID c) of
     None \<Rightarrow> Inl (divergenceFor None ChangeTruncate ''required relation metadata is missing'')
   | Some (_, r) \<Rightarrow> rbind (truncate_relations relations cs) (\<lambda>rs. Inr (r # rs)))"

definition applyTruncates :: "resolution \<Rightarrow> Change list \<Rightarrow> Statement list \<Rightarrow> Statement list res" where
  "applyTruncates relations changes q = rbind (truncate_relations relations changes) (\<lambda>rs.
     Inr (q @ [\<lparr>sm_op = TruncateTables rs (ch_TruncateRestartIdentity (hd changes)) (ch_TruncateCascade (hd changes)),
       sm_relation = map_option snd (relations (ch_RelationOID (hd changes))), sm_identity = [], sm_rows = changes,
       sm_transport = Params [], sm_expectedRows = -1, sm_expectedOrdinals = 0, sm_allowMissingRows = False\<rparr>]))"

text \<open>\<^verbatim>\<open>end\<close> runs from \<^verbatim>\<open>start + 1\<close> while the change still belongs to the run of \<^verbatim>\<open>start\<close>.\<close>

function runs_by :: "('a \<Rightarrow> 'a \<Rightarrow> bool) \<Rightarrow> 'a list \<Rightarrow> 'a list list" where
  "runs_by share [] = []"
| "runs_by share (x # xs) = (x # takeWhile (share x) xs) # runs_by share (dropWhile (share x) xs)"
  by pat_completeness auto
termination by (relation "measure (\<lambda>(share, xs). length xs)") (auto simp: less_Suc_eq_le length_dropWhile_le)

definition queueRelationReplayRun :: "inspection \<Rightarrow> resolution list option \<Rightarrow> queuedChange list \<Rightarrow> Statement list \<Rightarrow> Statement list res" where
  "queueRelationReplayRun inspect relations run q = (case run of [] \<Rightarrow> Inr q | item # _ \<Rightarrow>
     let changes = map rbc_change run; kind = ch_Kind (rbc_change item) in
     case rbc_relation item of None \<Rightarrow> Inl (Err ''panic: nil pointer dereference'') | Some r \<Rightarrow>
       if kind = ChangeInsert then applyInserts r changes q
       else if kind = ChangeUpdate then applyUpdates inspect r changes q
       else if kind = ChangeDelete then applyDeletes r changes q
       else if kind = ChangeTruncate then (case relations of
           None \<Rightarrow> Inl (divergenceFor (Some r) ChangeTruncate ''truncate escaped its ordering barrier'')
         | Some rels \<Rightarrow> applyTruncates (rels ! rbc_transactionIndex item) changes q)
       else Inl (divergenceFor (Some r) kind ''unknown change kind''))"

definition same_kind :: "queuedChange \<Rightarrow> queuedChange \<Rightarrow> bool" where
  "same_kind l r \<longleftrightarrow> ch_Kind (rbc_change r) = ch_Kind (rbc_change l)"

definition orderedReplayItemsShareStatement :: "queuedChange \<Rightarrow> queuedChange \<Rightarrow> bool" where
  "orderedReplayItemsShareStatement l r \<longleftrightarrow>
     (if rbc_transactionIndex l \<noteq> rbc_transactionIndex r \<or> ch_Kind (rbc_change l) \<noteq> ch_Kind (rbc_change r) then False
      else if ch_Kind (rbc_change l) = ChangeTruncate then sameTruncateOptions (rbc_change l) (rbc_change r)
      else rbc_address l = rbc_address r)"

definition queueRelationReplayLane :: "inspection \<Rightarrow> queuedChange list \<Rightarrow> Statement list \<Rightarrow> Statement list res" where
  "queueRelationReplayLane inspect lane q = rfold (queueRelationReplayRun inspect None) (runs_by same_kind lane) q"

definition queueOrderedReplayStep :: "inspection \<Rightarrow> resolution list \<Rightarrow> queuedChange list \<Rightarrow> Statement list \<Rightarrow> Statement list res" where
  "queueOrderedReplayStep inspect relations items q =
     rfold (queueRelationReplayRun inspect (Some relations)) (runs_by orderedReplayItemsShareStatement items) q"

section \<open>The steps of a batch\<close>

record relationReplayStep =
  rs_ordered :: bool
  rs_items :: "queuedChange list"
  rs_lanes :: "queuedChange list list"
  rs_laneIndexes :: "nat \<Rightarrow> nat option"

text \<open>The lane of a relation: found by its address, or opened at the end.\<close>

definition add_to_lane :: "queuedChange \<Rightarrow> (nat \<Rightarrow> nat option) \<times> queuedChange list list \<Rightarrow> (nat \<Rightarrow> nat option) \<times> queuedChange list list" where
  "add_to_lane item = (\<lambda>(indexes, lanes). case indexes (rbc_address item) of
     Some i \<Rightarrow> (indexes, lanes[i := lanes ! i @ [item]])
   | None \<Rightarrow> (indexes(rbc_address item \<mapsto> length lanes), lanes @ [[item]]))"

definition empty_step :: "bool \<Rightarrow> relationReplayStep" where
  "empty_step ordered = \<lparr>rs_ordered = ordered, rs_items = [], rs_lanes = [], rs_laneIndexes = (\<lambda>_. None)\<rparr>"

definition current_step :: "bool \<Rightarrow> relationReplayStep list \<Rightarrow> relationReplayStep list \<times> relationReplayStep" where
  "current_step ordered steps =
     (if steps = [] \<or> rs_ordered (last steps) \<noteq> ordered then (steps, empty_step ordered) else (butlast steps, last steps))"

definition plan_item :: "queuedChange \<Rightarrow> relationReplayStep list \<Rightarrow> relationReplayStep list" where
  "plan_item item steps =
     (if \<not> (case rbc_relation item of None \<Rightarrow> False | Some r \<Rightarrow> cap_relationLane (tr_capabilities r)) \<or>
         ch_Kind (rbc_change item) = ChangeTruncate
      then case current_step True steps of (before, s) \<Rightarrow> before @ [s\<lparr>rs_items := rs_items s @ [item]\<rparr>]
      else case current_step False steps of (before, s) \<Rightarrow>
        case add_to_lane item (rs_laneIndexes s, rs_lanes s) of (indexes, lanes) \<Rightarrow>
          before @ [s\<lparr>rs_lanes := lanes, rs_laneIndexes := indexes\<rparr>])"

fun batch_plan_changes :: "resolution \<Rightarrow> nat \<Rightarrow> nat \<Rightarrow> Change list \<Rightarrow> relationReplayStep list \<Rightarrow> relationReplayStep list res" where
  "batch_plan_changes relations ti ci [] steps = Inr steps"
| "batch_plan_changes relations ti ci (c # cs) steps = (case relations (ch_RelationOID c) of
     None \<Rightarrow> Inl (divergenceFor None (ch_Kind c) ''required relation metadata is missing'')
   | Some (address, r) \<Rightarrow> batch_plan_changes relations ti (Suc ci) cs
       (plan_item \<lparr>rbc_transactionIndex = ti, rbc_changeIndex = ci, rbc_change = c, rbc_relation = Some r, rbc_address = address\<rparr> steps))"

fun batch_plan_transactions :: "resolution list \<Rightarrow> nat \<Rightarrow> Transaction list \<Rightarrow> relationReplayStep list \<Rightarrow> relationReplayStep list res" where
  "batch_plan_transactions relations ti [] steps = Inr steps"
| "batch_plan_transactions relations ti (tx # txs) steps =
     rbind (batch_plan_changes (relations ! ti) ti 0 (tx_Changes tx) steps) (batch_plan_transactions relations (Suc ti) txs)"

text \<open>\<open>Inr None\<close> is \<^verbatim>\<open>planned = false\<close>: a spilled transaction.\<close>

definition planRelationBatchedChanges :: "resolution list \<Rightarrow> Transaction list \<Rightarrow> relationReplayStep list option res" where
  "planRelationBatchedChanges relations txs =
     (if list_ex IsSpilled txs then Inr None
      else rbind (batch_plan_transactions relations 0 txs []) (\<lambda>steps. Inr (Some steps)))"

definition queue_step :: "inspection \<Rightarrow> resolution list \<Rightarrow> relationReplayStep \<Rightarrow> Statement list \<Rightarrow> Statement list res" where
  "queue_step inspect relations step q =
     (if rs_ordered step then queueOrderedReplayStep inspect relations (rs_items step) q
      else rfold (queueRelationReplayLane inspect) (rs_lanes step) q)"

definition queueRelationBatchedChanges :: "inspection \<Rightarrow> resolution list \<Rightarrow> Transaction list \<Rightarrow> Statement list \<Rightarrow> Statement list option res" where
  "queueRelationBatchedChanges inspect relations txs q = rbind (planRelationBatchedChanges relations txs) (\<lambda>planned. case planned of
     None \<Rightarrow> Inr None
   | Some steps \<Rightarrow> rbind (rfold (queue_step inspect relations) steps q) (\<lambda>q. Inr (Some q)))"

section \<open>One transaction\<close>

definition continues :: "Change \<Rightarrow> Change \<Rightarrow> bool" where
  "continues c d \<longleftrightarrow> (if ch_Kind c = ChangeTruncate then ch_Kind d = ChangeTruncate \<and> sameTruncateOptions d c
     else (ch_Kind c = ChangeInsert \<or> ch_Kind c = ChangeUpdate) \<and> ch_Kind d = ch_Kind c \<and> ch_RelationOID d = ch_RelationOID c)"

definition queue_run :: "inspection \<Rightarrow> resolution \<Rightarrow> Change list \<Rightarrow> Statement list \<Rightarrow> Statement list res" where
  "queue_run inspect relations run q = (let c = hd run in case relations (ch_RelationOID c) of
     None \<Rightarrow> Inl (divergenceFor None (ch_Kind c) ''required relation metadata is missing'')
   | Some (_, r) \<Rightarrow>
       if ch_Kind c = ChangeInsert then applyInserts r run q
       else if ch_Kind c = ChangeUpdate then applyUpdates inspect r run q
       else if ch_Kind c = ChangeDelete then applyDelete r c q
       else if ch_Kind c = ChangeTruncate then applyTruncates relations run q
       else Inl (divergenceFor (Some r) (ch_Kind c) ''unknown change kind''))"

text \<open>The pending changes of a spilled transaction, all inserts of one relation or all truncates.\<close>

definition spill_flush :: "resolution \<Rightarrow> Change list \<Rightarrow> Statement list \<Rightarrow> Statement list res" where
  "spill_flush relations pending q = (case pending of [] \<Rightarrow> Inr q | c # _ \<Rightarrow>
     if ch_Kind c = ChangeInsert
     then (case relations (ch_RelationOID c) of
         None \<Rightarrow> Inl (Err ''panic: nil pointer dereference'') | Some (_, r) \<Rightarrow> applyInserts r pending q)
     else if ch_Kind c = ChangeTruncate then applyTruncates relations pending q
     else Inr q)"

definition spill_change :: "resolution \<Rightarrow> Change \<Rightarrow> Change list \<times> Statement list \<Rightarrow> (Change list \<times> Statement list) res" where
  "spill_change relations c = (\<lambda>(pending, q). case relations (ch_RelationOID c) of
     None \<Rightarrow> Inl (divergenceFor None (ch_Kind c) ''required relation metadata is missing'')
   | Some (_, r) \<Rightarrow>
       if ch_Kind c = ChangeInsert
       then rbind (if pending \<noteq> [] \<and> (ch_Kind (hd pending) \<noteq> ChangeInsert \<or> ch_RelationOID (hd pending) \<noteq> ch_RelationOID c)
           then rbind (spill_flush relations pending q) (\<lambda>q. Inr ([], q)) else Inr (pending, q)) (\<lambda>(pending, q).
         if length pending + 1 \<ge> insertChunkRows (length (tr_columns r))
         then rbind (spill_flush relations (pending @ [c]) q) (\<lambda>q. Inr ([], q)) else Inr (pending @ [c], q))
       else if ch_Kind c = ChangeTruncate
       then rbind (if pending \<noteq> [] \<and> (ch_Kind (hd pending) \<noteq> ChangeTruncate \<or> \<not> sameTruncateOptions (hd pending) c)
           then rbind (spill_flush relations pending q) (\<lambda>q. Inr ([], q)) else Inr (pending, q)) (\<lambda>(pending, q).
         Inr (pending @ [c], q))
       else if ch_Kind c = ChangeUpdate
       then rbind (spill_flush relations pending q) (\<lambda>q. rbind (applyUpdate r c q) (\<lambda>q. Inr ([], q)))
       else if ch_Kind c = ChangeDelete
       then rbind (spill_flush relations pending q) (\<lambda>q. rbind (applyDelete r c q) (\<lambda>q. Inr ([], q)))
       else Inl (divergenceFor (Some r) (ch_Kind c) ''unknown change kind''))"

definition applySpilledChanges :: "resolution \<Rightarrow> Change list res \<Rightarrow> Statement list \<Rightarrow> Statement list res" where
  "applySpilledChanges relations changes q = rbind changes (\<lambda>cs.
     rbind (rfold (spill_change relations) cs ([], q)) (\<lambda>(pending, q). spill_flush relations pending q))"

definition queueTransactionChanges :: "inspection \<Rightarrow> resolution \<Rightarrow> Transaction \<Rightarrow> Statement list \<Rightarrow> Statement list res" where
  "queueTransactionChanges inspect relations tx q = (case tx_Spill tx of
     Some spill \<Rightarrow> applySpilledChanges relations (spill_forEachChange spill) q
   | None \<Rightarrow> rfold (queue_run inspect relations) (runs_by continues (tx_Changes tx)) q)"

section \<open>A batch in one target transaction\<close>

text \<open>What \<^verbatim>\<open>applyTransactionBatchWithWorkers\<close> queues when the batch is not a claim.\<close>

definition queue_batch :: "inspection \<Rightarrow> resolution list \<Rightarrow> Transaction list \<Rightarrow> Statement list \<Rightarrow> Statement list res" where
  "queue_batch inspect relations txs q = rbind (queueRelationBatchedChanges inspect relations txs q) (\<lambda>reordered. case reordered of
     Some q \<Rightarrow> Inr q
   | None \<Rightarrow> rfold (\<lambda>(rels, tx). queueTransactionChanges inspect rels tx) (zip relations txs) q)"

section \<open>The lanes of a parallel step\<close>

definition coalescibleReplayPrimaryKey :: "targetRelation \<Rightarrow> Change \<Rightarrow> bytes option res" where
  "coalescibleReplayPrimaryKey r c =
     (if primaryKeyColumns r = [] then Inr None
      else let keyed = (\<lambda>tuple. if tuple = None then Inr None else rbind (primaryKeyTupleKey r tuple) (\<lambda>key.
          Inr (Some (bytes_of_string (decimal (unat (rel_OID (tr_source r))) @ '':'') @ key)))) in
        if ch_Kind c = ChangeInsert then keyed (ch_New c)
        else if ch_Kind c = ChangeUpdate then (if canShardUpdateByPrimaryKey r c then keyed (ch_New c) else Inr None)
        else if ch_Kind c = ChangeDelete then (case primaryKeyDeleteColumns r of
            None \<Rightarrow> Inr None
          | Some columns \<Rightarrow> if sameTargetColumns (primaryKeyColumns r) columns then keyed (ch_Old c) else Inr None)
        else Inr None)"

definition supersedable :: "targetRelation \<Rightarrow> Change \<Rightarrow> bool res" where
  "supersedable r c = (if ch_Kind c \<noteq> ChangeUpdate \<or> \<not> cap_relationLane (tr_capabilities r) \<or>
     cap_crossKeyConflicts (tr_capabilities r) then Inr False else canPrimaryKeyUpsert (Some r) c)"

text \<open>The scan: which items are kept_items, and the newest update of each key that may still be superseded.\<close>

fun coalesce_scan :: "nat \<Rightarrow> queuedChange list \<Rightarrow> (bytes \<Rightarrow> nat option) \<Rightarrow> bool list \<Rightarrow> bool list res" where
  "coalesce_scan i [] latest keep = Inr keep"
| "coalesce_scan i (item # items) latest keep = (case rbc_relation item of
     None \<Rightarrow> Inl (Err ''cdc: replay lane contains missing relation or change'')
   | Some r \<Rightarrow> rbind (coalescibleReplayPrimaryKey r (rbc_change item)) (\<lambda>key. case key of
       None \<Rightarrow> coalesce_scan (Suc i) items (\<lambda>_. None) keep
     | Some k \<Rightarrow> rbind (supersedable r (rbc_change item)) (\<lambda>upsert.
         if \<not> upsert then coalesce_scan (Suc i) items (latest(k := None)) keep
         else coalesce_scan (Suc i) items (latest(k \<mapsto> i))
           (case latest k of Some previous \<Rightarrow> keep[previous := False] | None \<Rightarrow> keep))))"

definition coalesceReplayLaneUpdates :: "queuedChange list \<Rightarrow> queuedChange list res" where
  "coalesceReplayLaneUpdates items =
     (if length items < 2 then Inr items
      else rbind (coalesce_scan 0 items (\<lambda>_. None) (replicate (length items) True)) (\<lambda>keep.
        Inr (map fst (filter snd (zip items keep)))))"

definition queueParallelReplayLane :: "inspection \<Rightarrow> queuedChange list \<Rightarrow> Statement list \<Rightarrow> Statement list res" where
  "queueParallelReplayLane inspect items q = rbind (coalesceReplayLaneUpdates items) (\<lambda>items.
     rfold (queueRelationReplayLane inspect) (snd (fold add_to_lane items (\<lambda>_. None, []))) q)"

end
