(* ===== verification/ApplyRows.thy ===== *)
theory ApplyRows
  imports ApplyStatements
begin

text \<open>
  What the queued statements hold: every change once and in order, and in a statement of several
  rows no identity twice.
\<close>

section \<open>Keys of rows\<close>

definition key_values :: "targetColumn list \<Rightarrow> Tuple option \<Rightarrow> (byte \<times> bytes) list" where
  "key_values cs tuple = map (\<lambda>c. let d = the tuple ! nat (tc_sourceIndex c) in (dat_Kind d, dat_bytes d)) cs"

lemma decimal_digits: "ch \<in> set (decimal n) \<Longrightarrow> digit_char ch"
proof (induction n rule: decimal.induct)
  case (1 n)
  have "n mod 10 < 10" by simp
  moreover have "digit_char (char_of (48 + m) :: char)" if "m < 10" for m :: nat
    using that by (simp add: digit_char_def)
  ultimately show ?case using 1 decimal.simps [of n] by (auto split: if_splits)
qed

lemma digits_value_append: "digits_value (s @ [ch]) = 10 * digits_value s + (of_char ch - 48)"
  by (simp add: digits_value_def)

lemma digits_value_decimal: "digits_value (decimal n) = int n"
proof (induction n rule: decimal.induct)
  case (1 n)
  have digit: "(of_char (char_of (48 + m)) :: int) = 48 + int m" if "m < 10" for m :: nat
  proof -
    have "(of_char (char_of (48 + m) :: char) :: nat) = 48 + m" using that by simp
    then show ?thesis by (metis of_nat_of_char of_nat_add of_nat_numeral)
  qed
  show ?case
  proof (cases "n < 10")
    case True
    then show ?thesis using digit [of n] by (simp add: decimal.simps [of n] digits_value_def)
  next
    case False
    have "digits_value (decimal n) = 10 * int (n div 10) + int (n mod 10)"
      using False 1 digit [of "n mod 10"] by (simp add: decimal.simps [of n] digits_value_append)
    then show ?thesis by (metis of_nat_add of_nat_mult of_nat_numeral mult_div_mod_eq)
  qed
qed

lemma decimal_inj: "decimal m = decimal n \<Longrightarrow> m = n"
  by (metis digits_value_decimal of_nat_eq_iff)

lemma bytes_of_string_append [simp]: "bytes_of_string (s @ t) = bytes_of_string s @ bytes_of_string t"
  by (simp add: bytes_of_string_def)

lemma bytes_of_string_inj: "bytes_of_string s = bytes_of_string t \<Longrightarrow> s = t"
  by (metis string_of_bytes_of_string)

lemma decimal_bytes_range:
  assumes "b \<in> set (bytes_of_string (decimal n))"
  shows "48 \<le> unat b \<and> unat b \<le> 57"
proof -
  obtain ch where ch: "ch \<in> set (decimal n)" "b = word_of_nat (of_char ch)"
    using assms by (auto simp: bytes_of_string_def)
  then have "48 \<le> (of_char ch :: nat)" "(of_char ch :: nat) \<le> 57"
    using decimal_digits by (auto simp: digit_char_def)
  then show ?thesis by (simp add: ch(2) unat_of_nat)
qed

text \<open>A decimal number ends where the first byte that is not a digit stands.\<close>

lemma decimal_framed:
  assumes "bytes_of_string (decimal m) @ b # x = bytes_of_string (decimal n) @ b # y" "\<not> (48 \<le> unat b \<and> unat b \<le> 57)"
  shows "m = n \<and> x = y"
proof -
  let ?P = "\<lambda>v :: byte. 48 \<le> unat v \<and> unat v \<le> 57"
  have run: "takeWhile ?P (bytes_of_string (decimal k) @ b # z) = bytes_of_string (decimal k)" for k z
    using decimal_bytes_range [of _ k] assms(2) by (simp add: takeWhile_tail)
  have "bytes_of_string (decimal m) = bytes_of_string (decimal n)"
    using run [of m x] run [of n y] unfolding assms(1) by (rule subst)
  then show ?thesis using assms(1) bytes_of_string_inj decimal_inj by auto
qed

definition identity_wire :: "(byte \<times> bytes) list \<Rightarrow> bytes" where
  "identity_wire vs = concat (map (\<lambda>(k, b). k # bytes_of_string (decimal (length b)) @ 58 # b) vs)"

definition tuple_wire :: "(byte \<times> bytes) list \<Rightarrow> bytes" where
  "tuple_wire vs = concat (map (\<lambda>(k, b). k # 58 # bytes_of_string (decimal (length b)) @ 58 # b) vs)"

lemma colon_bytes_Cons [simp]: "bytes_of_string (CHR '':'' # s) = 58 # bytes_of_string s"
  by (simp add: bytes_of_string_def)

lemma bytes_of_string_Nil [simp]: "bytes_of_string [] = []"
  by (simp add: bytes_of_string_def)

lemma identity_wire_inj:
  "length vs = length ws \<Longrightarrow> identity_wire vs = identity_wire ws \<Longrightarrow> vs = ws"
proof (induction vs ws rule: list_induct2)
  case (Cons v vs w ws)
  obtain k b k' b' where vw: "v = (k, b)" "w = (k', b')" by (cases v, cases w)
  have eq: "k = k'" "bytes_of_string (decimal (length b)) @ 58 # b @ identity_wire vs =
      bytes_of_string (decimal (length b')) @ 58 # b' @ identity_wire ws"
    using Cons.prems by (simp_all add: identity_wire_def vw)
  from decimal_framed [OF eq(2)] have "length b = length b'" "b @ identity_wire vs = b' @ identity_wire ws" by auto
  then show ?case using Cons.IH eq(1) vw by simp
qed simp

lemma tuple_wire_inj:
  "length vs = length ws \<Longrightarrow> tuple_wire vs = tuple_wire ws \<Longrightarrow> vs = ws"
proof (induction vs ws rule: list_induct2)
  case (Cons v vs w ws)
  obtain k b k' b' where vw: "v = (k, b)" "w = (k', b')" by (cases v, cases w)
  have eq: "k = k'" "bytes_of_string (decimal (length b)) @ 58 # b @ tuple_wire vs =
      bytes_of_string (decimal (length b')) @ 58 # b' @ tuple_wire ws"
    using Cons.prems by (simp_all add: tuple_wire_def vw)
  from decimal_framed [OF eq(2)] have "length b = length b'" "b @ tuple_wire vs = b' @ tuple_wire ws" by auto
  then show ?case using Cons.IH eq(1) vw by simp
qed simp

lemma tuple_at_Inr [res_simps]: "tuple_at t i = Inr d \<longleftrightarrow> (\<exists>x. t = Some x \<and> in_range i x \<and> d = x ! nat i)"
  by (auto simp: tuple_at_def go_index_Inr split: option.splits)

lemma identity_bytes_wire: "identity_bytes r kind t cs = Inr key \<Longrightarrow> key = identity_wire (key_values cs t)"
  by (induction cs arbitrary: key) (auto simp: identity_wire_def key_values_def res_simps Let_def split: if_splits)

lemma tuple_key_wire: "tuple_key_parts t cs = Inr key \<Longrightarrow> key = tuple_wire (key_values cs (Some t))"
  by (induction cs arbitrary: key) (auto simp: tuple_wire_def key_values_def res_simps Let_def)

lemma key_values_length [simp]: "length (key_values cs t) = length cs"
  by (simp add: key_values_def)

lemma update_key_wire: "batchUpdateIdentityKey r ident ch = Inr key \<Longrightarrow> key = identity_wire (key_values ident (predicate_tuple ch))"
  by (auto simp: batchUpdateIdentityKey_def res_simps dest: identity_bytes_wire)

lemma delete_key_wire: "batchDeleteIdentityKey r ident ch = Inr key \<Longrightarrow> key = identity_wire (key_values ident (ch_Old ch))"
  by (auto simp: batchDeleteIdentityKey_def res_simps dest: identity_bytes_wire)

lemma upsert_key_wire: "primaryKeyTupleKey r t = Inr key \<Longrightarrow> key = tuple_wire (key_values (primaryKeyColumns r) t)"
  by (auto simp: primaryKeyTupleKey_def res_simps dest: tuple_key_wire)

lemma identity_wire_eq: "identity_wire (key_values cs t) = identity_wire (key_values cs u) \<longleftrightarrow> key_values cs t = key_values cs u"
  using identity_wire_inj by (metis key_values_length)

lemma tuple_wire_eq: "tuple_wire (key_values cs t) = tuple_wire (key_values cs u) \<longleftrightarrow> key_values cs t = key_values cs u"
  using tuple_wire_inj by (metis key_values_length)

section \<open>Statements that touch a row once\<close>

definition touched_key :: "Statement \<Rightarrow> Change \<Rightarrow> (byte \<times> bytes) list" where
  "touched_key st ch = key_values (sm_identity st)
     (if sm_op st = UpsertRows then ch_New ch else if sm_op st = DeleteRows then ch_Old ch else predicate_tuple ch)"

fun by_identity :: "StatementOp \<Rightarrow> bool" where
  "by_identity UpsertRows = True"
| "by_identity (InspectRows _) = True"
| "by_identity (UpdateRows _) = True"
| "by_identity DeleteRows = True"
| "by_identity _ = False"

definition touches_once :: "Statement \<Rightarrow> bool" where
  "touches_once st \<longleftrightarrow> (by_identity (sm_op st) \<longrightarrow> distinct (map (touched_key st) (sm_rows st)))"

fun transport_params :: "Transport \<Rightarrow> nat" where
  "transport_params (Params ps) = length ps"
| "transport_params _ = 0"

text \<open>PostgreSQL allows 1600 columns in a table and 65535 parameters in a statement.\<close>

definition narrow :: "targetRelation \<Rightarrow> bool" where
  "narrow r \<longleftrightarrow> length (tr_columns r) \<le> 1600 \<and> length (predicateTargetColumns r) \<le> 1600"

definition fits :: "Statement \<Rightarrow> bool" where
  "fits st \<longleftrightarrow> transport_params (sm_transport st) \<le> 65535"

text \<open>
  A relation is plain when its updates are not selective and it has a column to write: then every
  change is in exactly one statement.
\<close>

definition plain :: "targetRelation \<Rightarrow> bool" where
  "plain r \<longleftrightarrow> \<not> cap_selectiveUpdates (tr_capabilities r) \<and> tr_columns r \<noteq> []"

definition statement_ok :: "targetRelation \<Rightarrow> Statement \<Rightarrow> bool" where
  "statement_ok r st \<longleftrightarrow> sm_relation st = Some r \<and> touches_once st \<and> (narrow r \<longrightarrow> fits st)"

definition queues :: "targetRelation \<Rightarrow> Change list \<Rightarrow> Statement list \<Rightarrow> Statement list \<Rightarrow> bool" where
  "queues r cs q q' \<longleftrightarrow> (\<exists>ss. q' = q @ ss \<and> (plain r \<longrightarrow> concat (map sm_rows ss) = cs) \<and> (\<forall>s\<in>set ss. statement_ok r s))"

lemma queues_refl: "plain r \<longrightarrow> cs = [] \<Longrightarrow> queues r cs q q"
  by (auto simp: queues_def)

lemma queues_one: "statement_ok r s \<Longrightarrow> plain r \<longrightarrow> sm_rows s = cs \<Longrightarrow> queues r cs q (q @ [s])"
  by (auto simp: queues_def)

lemma queues_trans:
  assumes "queues r cs q q1" "queues r ds q1 q2"
  shows "queues r (cs @ ds) q q2"
proof -
  obtain ss where ss: "q1 = q @ ss" "plain r \<longrightarrow> concat (map sm_rows ss) = cs" "\<forall>s\<in>set ss. statement_ok r s"
    using assms(1) by (auto simp: queues_def)
  obtain ts where ts: "q2 = q1 @ ts" "plain r \<longrightarrow> concat (map sm_rows ts) = ds" "\<forall>s\<in>set ts. statement_ok r s"
    using assms(2) by (auto simp: queues_def)
  show ?thesis unfolding queues_def by (rule exI [of _ "ss @ ts"]) (use ss ts in auto)
qed

lemma queues_rfold:
  assumes "\<And>x q q'. x \<in> set xs \<Longrightarrow> f x q = Inr q' \<Longrightarrow> queues r (g x) q q'" "rfold f xs q = Inr q'"
  shows "queues r (concat (map g xs)) q q'"
  using assms
proof (induction xs arbitrary: q)
  case Nil
  then show ?case by (simp add: queues_refl)
next
  case (Cons x xs)
  obtain q1 where q1: "f x q = Inr q1" "rfold f xs q1 = Inr q'" using Cons.prems(2) by (auto simp: res_simps)
  have "queues r (concat (map g xs)) q1 q'" by (rule Cons.IH [OF Cons.prems(1) q1(2)]) auto
  then show ?case using queues_trans [OF Cons.prems(1) [OF _ q1(1)]] by simp
qed

lemma chunks_Cons: "xs \<noteq> [] \<Longrightarrow> n \<noteq> 0 \<Longrightarrow> chunks n xs = take n xs # chunks n (drop n xs)"
  by (subst chunks.simps) simp

lemma chunks_Nil [simp]: "chunks n [] = []" "chunks 0 xs = []"
  by (subst chunks.simps, simp)+

lemma concat_chunks: "0 < n \<Longrightarrow> concat (chunks n xs) = xs"
proof (induction n xs rule: chunks.induct)
  case (1 n xs)
  then show ?case by (cases "xs = []") (simp_all add: chunks_Cons)
qed

lemma length_chunks: "x \<in> set (chunks n xs) \<Longrightarrow> length x \<le> n"
proof (induction n xs rule: chunks.induct)
  case (1 n xs)
  then show ?case by (cases "xs = [] \<or> n = 0") (auto simp: chunks_Cons)
qed

lemma queues_chunks:
  assumes "\<And>x q q'. length x \<le> n \<Longrightarrow> f x q = Inr q' \<Longrightarrow> queues r x q q'" "rfold f (chunks n xs) q = Inr q'" "0 < n"
  shows "queues r xs q q'"
proof -
  have "queues r (concat (map (\<lambda>x. x) (chunks n xs))) q q'"
    by (rule queues_rfold [OF _ assms(2)]) (use assms(1) length_chunks in blast)
  then show ?thesis by (simp add: concat_chunks [OF assms(3)])
qed

lemma rmap_Inr: "rmap f xs = Inr ys \<Longrightarrow> length ys = length xs \<and> (\<forall>y\<in>set ys. \<exists>x\<in>set xs. f x = Inr y)"
  by (induction xs arbitrary: ys) (fastforce simp: res_simps)+

lemma length_concat_rows: "\<forall>x\<in>set xs. length x = n \<Longrightarrow> length (concat xs) = length xs * n"
  by (induction xs) auto

lemma row_chunk_bound: "n \<le> 65535 \<Longrightarrow> updateChunkRows n * n \<le> 65535"
proof (cases "n = 0")
  case False
  assume "n \<le> 65535"
  have "min (65535 div n) 1000 * n \<le> 65535 div n * n" by simp
  also have "\<dots> \<le> 65535" by simp
  finally have "min (65535 div n) 1000 * n \<le> 65535" .
  moreover have "1 \<le> 65535 div n" using \<open>n \<le> 65535\<close> False by (simp add: div_greater_zero_iff Suc_le_eq)
  ultimately show ?thesis using False by (auto simp: updateChunkRows_def Let_def min_def split: if_splits)
qed simp

lemma insert_chunk_rows: "insertChunkRows n = updateChunkRows n"
  by (simp add: insertChunkRows_def updateChunkRows_def)

lemma updateChunkRows_pos: "0 < updateChunkRows n"
  by (simp add: updateChunkRows_def Let_def)

lemma chunk_params:
  assumes "length rows \<le> updateChunkRows n" "n \<le> 65535"
  shows "length rows * n \<le> 65535"
  using mult_le_mono1 [OF assms(1), of n] row_chunk_bound [OF assms(2)] by linarith


section \<open>Inserts and upserts\<close>

lemma statement_fields [simp]:
  "sm_op (statement op r ident rows t) = op" "sm_relation (statement op r ident rows t) = Some r"
  "sm_identity (statement op r ident rows t) = ident" "sm_rows (statement op r ident rows t) = rows"
  "sm_transport (statement op r ident rows t) = t"
  by (simp_all add: statement_def)

lemma returning_ordinals_fields [simp]:
  "sm_op (returning_ordinals st) = sm_op st" "sm_relation (returning_ordinals st) = sm_relation st"
  "sm_identity (returning_ordinals st) = sm_identity st" "sm_rows (returning_ordinals st) = sm_rows st"
  "sm_transport (returning_ordinals st) = sm_transport st"
  by (simp_all add: returning_ordinals_def)

lemma new_arrays_length: "new_arrays r kind changes cs = Inr (Some ps) \<Longrightarrow> length ps = length cs"
  by (induction cs arbitrary: ps) (auto simp: res_simps split: option.splits)

lemma array_params_length: "array_params r kind cols = Inr (Some ps) \<Longrightarrow> length ps = length cols"
  by (induction cols arbitrary: ps) (auto simp: res_simps split: option.splits)

lemma rmap_rows_length:
  assumes "rmap f xs = Inr rows" "\<And>x y. x \<in> set xs \<Longrightarrow> f x = Inr y \<Longrightarrow> length y = n"
  shows "length (concat rows) = length xs * n"
  using rmap_Inr [OF assms(1)] assms(2) length_concat_rows [of rows n] by fastforce

lemma new_scalars_length:
  assumes "new_scalars r kind changes = Inr ps"
  shows "length ps = length changes * length (tr_columns r)"
proof -
  obtain rows where rows: "rmap (\<lambda>ch. rbind (validateTuple r (ch_New ch) kind) (\<lambda>_.
     rmap (\<lambda>c. rbind (tuple_at (ch_New ch) (tc_sourceIndex c)) (\<lambda>d. datumParamForColumn r c d kind)) (tr_columns r))) changes = Inr rows"
    "ps = concat rows"
    using assms by (auto simp: new_scalars_def rbind_eq_Inr)
  show ?thesis unfolding rows(2)
    by (rule rmap_rows_length [OF rows(1)]) (auto simp: rbind_eq_Inr dest: rmap_Inr)
qed

lemma insert_ok: "narrow r \<longrightarrow> transport_params t \<le> 65535 \<Longrightarrow> statement_ok r (statement InsertRows r ident rows t)"
  by (simp add: statement_ok_def touches_once_def fits_def)

lemma insert_copy_queued: "applyInsertCopy r changes = Inr (Some s) \<Longrightarrow> statement_ok r s \<and> sm_rows s = changes"
  by (auto simp: applyInsertCopy_def rbind_eq_Inr insert_ok split: if_splits)

lemma insert_stage_queued: "applyInsertTextStage r changes = Inr (Some s) \<Longrightarrow> statement_ok r s \<and> sm_rows s = changes"
  by (auto simp: applyInsertTextStage_def rbind_eq_Inr insert_ok split: if_splits)

lemma insert_array_queued: "applyInsertArrayChunk r changes = Inr (Some s) \<Longrightarrow> statement_ok r s \<and> sm_rows s = changes"
  by (auto simp: applyInsertArrayChunk_def rbind_eq_Inr narrow_def dest!: new_arrays_length intro!: insert_ok)

lemma insert_chunk_queued:
  assumes "length changes \<le> insertChunkRows (length (tr_columns r))" "applyInsertChunk r changes q = Inr q'"
  shows "queues r changes q q'"
proof (cases "tr_columns r = []")
  case True
  have "queues r (concat (map (\<lambda>ch. [ch]) changes)) q q'"
  proof (rule queues_rfold)
    show "rfold (\<lambda>ch q. rbind (validateTuple r (ch_New ch) ChangeInsert) (\<lambda>_.
        Inr (q @ [statement InsertRows r [] [ch] (Params [])]))) changes q = Inr q'"
      using assms(2) True by (simp add: applyInsertChunk_def)
  qed (auto simp: rbind_eq_Inr intro!: queues_one insert_ok)
  then show ?thesis by simp
next
  case False
  obtain ps where ps: "new_scalars r ChangeInsert changes = Inr ps" "q' = q @ [statement InsertRows r [] changes (Params ps)]"
    using assms(2) False by (auto simp: applyInsertChunk_def rbind_eq_Inr)
  show ?thesis unfolding ps(2)
    by (intro queues_one insert_ok)
      (use chunk_params [of changes "length (tr_columns r)"] assms(1) new_scalars_length [OF ps(1)]
        in \<open>auto simp: narrow_def insert_chunk_rows\<close>)
qed

lemma insert_values_queued:
  "rfold (applyInsertChunk r) (chunks (insertChunkRows (length (tr_columns r))) changes) q = Inr q' \<Longrightarrow> queues r changes q q'"
  by (rule queues_chunks [where f = "applyInsertChunk r"]) (auto simp: insert_chunk_rows updateChunkRows_pos intro: insert_chunk_queued)

text \<open>One transport is tried; when it does not support the rows, the next one is.\<close>

lemma try_queued:
  assumes "rbind m (\<lambda>st. case st of Some s \<Rightarrow> Inr (q @ [s]) | None \<Rightarrow> k) = Inr q'"
    and "\<And>s. m = Inr (Some s) \<Longrightarrow> statement_ok r s \<and> sm_rows s = rows" "k = Inr q' \<Longrightarrow> queues r rows q q'"
  shows "queues r rows q q'"
proof -
  obtain st where st: "m = Inr st" "(case st of Some s \<Rightarrow> Inr (q @ [s]) | None \<Rightarrow> k) = Inr q'"
    using assms(1) by (auto simp: rbind_eq_Inr)
  show ?thesis
  proof (cases st)
    case None
    with st assms(3) show ?thesis by simp
  next
    case (Some s)
    with st assms(2) show ?thesis by (auto intro: queues_one)
  qed
qed

lemma insert_array_rows_queued:
  assumes "insert_array_rows r changes q = Inr q'"
  shows "queues r changes q q'"
proof (cases "tr_columns r = []")
  case True
  then show ?thesis using assms by (intro insert_values_queued) (simp add: insert_array_rows_def)
next
  case False
  then show ?thesis using assms unfolding insert_array_rows_def Let_def if_not_P [OF False]
    by (elim try_queued) (auto intro: insert_values_queued dest: insert_stage_queued insert_array_queued)
qed

lemma inserts_queued:
  assumes "applyInserts r changes q = Inr q'"
  shows "queues r changes q q'"
proof (rule try_queued [OF assms [unfolded applyInserts_def] insert_copy_queued])
  assume "rfold (insert_array_rows r) (chunks applyArrayChunkRows changes) q = Inr q'"
  then show "queues r changes q q'"
    by (rule queues_chunks [rotated]) (auto simp: applyArrayChunkRows_def intro: insert_array_rows_queued)
qed

lemma upsert_ok:
  assumes "distinct (map (key_values (primaryKeyColumns r) \<circ> ch_New) rows)" "narrow r \<longrightarrow> transport_params t \<le> 65535"
  shows "statement_ok r (statement UpsertRows r (primaryKeyColumns r) rows t)"
  using assms by (simp add: statement_ok_def touches_once_def fits_def touched_key_def [abs_def] comp_def)

lemma upsert_values_queued:
  assumes "distinct (map (key_values (primaryKeyColumns r) \<circ> ch_New) rows)"
    "rfold (applyPrimaryKeyUpsertValueChunk r) (chunks (insertChunkRows (length (tr_columns r))) rows) q = Inr q'"
  shows "queues r rows q q'"
proof -
  let ?n = "insertChunkRows (length (tr_columns r))"
  have "queues r (concat (map (\<lambda>x. x) (chunks ?n rows))) q q'"
  proof (rule queues_rfold [OF _ assms(2)])
    fix x q q' assume x: "x \<in> set (chunks ?n rows)" "applyPrimaryKeyUpsertValueChunk r x q = Inr q'"
    obtain ps where ps: "new_scalars r ChangeUpdate x = Inr ps" "q' = q @ [statement UpsertRows r (primaryKeyColumns r) x (Params ps)]"
      using x(2) by (auto simp: applyPrimaryKeyUpsertValueChunk_def rbind_eq_Inr)
    have "distinct (map (key_values (primaryKeyColumns r) \<circ> ch_New) x)"
    proof -
      obtain as bs where "chunks ?n rows = as @ x # bs" using x(1) by (meson split_list)
      then have "rows = concat as @ x @ concat bs"
        using concat_chunks [of ?n rows] by (simp add: insert_chunk_rows updateChunkRows_pos)
      then show ?thesis using assms(1) by simp
    qed
    then show "queues r x q q'" unfolding ps(2)
      by (intro queues_one upsert_ok)
        (use chunk_params [of x "length (tr_columns r)"] length_chunks [OF x(1)] new_scalars_length [OF ps(1)]
          in \<open>auto simp: narrow_def insert_chunk_rows\<close>)
  qed
  then show ?thesis by (simp add: concat_chunks insert_chunk_rows updateChunkRows_pos)
qed

lemma upsert_stage_queued:
  assumes "distinct (map (key_values (primaryKeyColumns r) \<circ> ch_New) rows)"
  shows "applyPrimaryKeyUpsertBinaryStage r rows = Inr (Some s) \<Longrightarrow> statement_ok r s \<and> sm_rows s = rows"
    and "applyPrimaryKeyUpsertTextStage r rows = Inr (Some s) \<Longrightarrow> statement_ok r s \<and> sm_rows s = rows"
    and "applyPrimaryKeyUpsertArrayChunk r rows = Inr (Some s) \<Longrightarrow> statement_ok r s \<and> sm_rows s = rows"
  using assms
  by (auto simp: applyPrimaryKeyUpsertBinaryStage_def applyPrimaryKeyUpsertTextStage_def applyPrimaryKeyUpsertArrayChunk_def
      rbind_eq_Inr narrow_def dest!: new_arrays_length intro!: upsert_ok)

lemma upserts_queued:
  assumes "distinct (map (key_values (primaryKeyColumns r) \<circ> ch_New) rows)" "applyPrimaryKeyUpsertChunk r rows q = Inr q'"
  shows "queues r rows q q'"
proof (cases "rows = []")
  case True
  then show ?thesis using assms(2) by (simp add: applyPrimaryKeyUpsertChunk_def queues_refl)
next
  case False
  then show ?thesis using assms(2) unfolding applyPrimaryKeyUpsertChunk_def if_not_P [OF False]
    by (elim try_queued) (auto intro: upsert_values_queued [OF assms(1)] dest: upsert_stage_queued [OF assms(1)])
qed

section \<open>Updates\<close>

lemma predicate_params_length: "predicate_params r t kind cs = Inr ps \<Longrightarrow> length ps \<le> length cs"
proof (induction cs arbitrary: ps)
  case (Cons c cs)
  show ?case
    using Cons by (cases "rel_ReplicaIdentity (tr_source r) \<noteq> 102 \<and> \<not> tc_key c") (fastforce simp: res_simps split: if_splits)+
qed simp

lemma set_params_length: "set_params r t cs = Inr ps \<Longrightarrow> length ps \<le> length cs"
proof (induction cs arbitrary: ps)
  case (Cons c cs)
  then show ?case by (fastforce simp: res_simps split: if_splits)
qed simp

lemma primary_params_length: "primary_params r t cs = Inr ps \<Longrightarrow> length ps = length cs"
  by (induction cs arbitrary: ps) (auto simp: res_simps split: if_splits)

lemma appendPredicate_length:
  "appendPredicate ps r t kind = Inr qs \<Longrightarrow> length qs \<le> length ps + length (predicateTargetColumns r)"
  by (auto simp: appendPredicate_def rbind_eq_Inr split: if_splits dest!: predicate_params_length)

lemma single_ok:
  assumes "\<not> by_identity op" "narrow r \<longrightarrow> length ps \<le> 65535"
  shows "statement_ok r (statement op r ident [ch] (Params ps))"
  using assms by (simp add: statement_ok_def touches_once_def fits_def)

lemma update_queued:
  assumes "applyUpdate r ch q = Inr q'"
  shows "queues r [ch] q q'"
proof (cases "tr_columns r = []")
  case True
  then have gen: "applyGeneratedOnlyUpdate r ch q = Inr q'" using assms by (auto simp: applyUpdate_def rbind_eq_Inr)
  show ?thesis
  proof (cases "hasReplicaIdentityColumns r")
    case False
    then show ?thesis using gen True by (auto simp: applyGeneratedOnlyUpdate_def plain_def intro: queues_refl)
  next
    case has: True
    then obtain ps where ps: "appendPredicate [] r (predicate_tuple ch) ChangeUpdate = Inr ps"
        "q' = q @ [statement GeneratedUpdate r [] [ch] (Params ps)]"
      using gen by (auto simp: applyGeneratedOnlyUpdate_def rbind_eq_Inr split: if_splits)
    show ?thesis unfolding ps(2)
      by (intro queues_one single_ok) (use appendPredicate_length [OF ps(1)] in \<open>auto simp: narrow_def\<close>)
  qed
next
  case False
  then obtain sets ps where ps: "set_params r (ch_New ch) (tr_columns r) = Inr sets"
      "appendPredicate sets r (predicate_tuple ch) ChangeUpdate = Inr ps" "q' = q @ [statement UpdateRow r [] [ch] (Params ps)]"
    using assms by (auto simp: applyUpdate_def rbind_eq_Inr)
  show ?thesis unfolding ps(3)
    by (intro queues_one single_ok)
      (use appendPredicate_length [OF ps(2)] set_params_length [OF ps(1)] in \<open>auto simp: narrow_def\<close>)
qed

text \<open>The values of an update: assigned columns and identity.\<close>

definition few :: "targetRelation \<Rightarrow> targetColumn list \<Rightarrow> nat list \<Rightarrow> bool" where
  "few r ident setColumns \<longleftrightarrow> (narrow r \<longrightarrow> length ident + length setColumns \<le> 3200)"

definition probe_ok :: "targetRelation \<Rightarrow> targetColumn list \<Rightarrow> Change list \<Rightarrow> bool" where
  "probe_ok r ident rows \<longleftrightarrow> (useExactIdentityMembership r ident \<longrightarrow> length rows \<le> 512)"

lemma identity_scalars_length:
  assumes "identity_scalars r kind ident key rows = Inr ps"
  shows "length ps = length rows * length ident"
proof -
  obtain xs where xs: "rmap (\<lambda>ch. rmap (\<lambda>c. rbind (tuple_at (key ch) (tc_sourceIndex c)) (\<lambda>d. datumParamForColumn r c d kind)) ident) rows = Inr xs"
    "ps = concat xs"
    using assms by (auto simp: identity_scalars_def rbind_eq_Inr)
  show ?thesis unfolding xs(2) by (rule rmap_rows_length [OF xs(1)]) (auto dest: rmap_Inr)
qed

lemma update_array_params_length:
  assumes "update_array_params r ident setColumns rows = Inr (Some ps)" "few r ident setColumns" "probe_ok r ident rows" "narrow r"
  shows "length ps \<le> 65535"
proof -
  obtain cols ps1 where p: "update_column_values r ident setColumns rows = Inr cols" "array_params r ChangeUpdate cols = Inr (Some ps1)"
      "ps = ps1 \<or> useExactIdentityMembership r ident \<and> appendSelectiveIdentityScalarParams ps1 r ident rows = Inr ps"
    using assms(1) by (auto simp: update_array_params_def rbind_eq_Inr split: option.splits if_splits)
  have "length cols = length setColumns + length ident"
    using p(1) by (auto simp: update_column_values_def rbind_eq_Inr dest!: rmap_Inr)
  then have n: "length ps1 \<le> 3200" using array_params_length [OF p(2)] assms(2,4) by (simp add: few_def)
  show ?thesis
  proof (cases "ps = ps1")
    case False
    then obtain ks where "identity_scalars r ChangeUpdate ident predicate_tuple rows = Inr ks" "ps = ps1 @ ks"
      and e: "useExactIdentityMembership r ident"
      using p(3) by (auto simp: appendSelectiveIdentityScalarParams_def rbind_eq_Inr)
    then have "length ps = length ps1 + length rows * length ident" using identity_scalars_length by auto
    then show ?thesis using n e assms(3) by (simp add: probe_ok_def useExactIdentityMembership_def)
  qed (use n in simp)
qed

lemma update_value_params_length:
  assumes "update_value_params r ident setColumns rows = Inr ps"
  shows "length ps = length rows * (length setColumns + length ident)"
proof -
  obtain xs where xs: "rmap (\<lambda>ch.
     rbind (rmap (\<lambda>i. rbind (tuple_at (ch_New ch) (tc_sourceIndex (tr_columns r ! i))) (\<lambda>d.
       datumParamForColumn r (tr_columns r ! i) d ChangeUpdate)) setColumns) (\<lambda>sets.
     rbind (rmap (\<lambda>c. rbind (tuple_at (predicate_tuple ch) (tc_sourceIndex c)) (\<lambda>d.
       datumParamForColumn r c d ChangeUpdate)) ident) (\<lambda>keys. Inr (sets @ keys)))) rows = Inr xs" "ps = concat xs"
    using assms by (auto simp: update_value_params_def rbind_eq_Inr)
  show ?thesis unfolding xs(2) by (rule rmap_rows_length [OF xs(1)]) (auto simp: rbind_eq_Inr dest!: rmap_Inr)
qed

lemma rows_ok:
  assumes "op = UpdateRows m \<or> op = InspectRows m" "distinct (map (key_values ident \<circ> predicate_tuple) rows)"
    "narrow r \<longrightarrow> transport_params t \<le> 65535"
  shows "statement_ok r (returning_ordinals (statement op r ident rows t))"
proof -
  let ?s = "returning_ordinals (statement op r ident rows t)"
  have "touched_key ?s = key_values ident \<circ> predicate_tuple"
    using assms(1) by (auto simp: touched_key_def fun_eq_iff)
  then show ?thesis using assms by (auto simp: statement_ok_def touches_once_def fits_def)
qed

lemma distinct_part: "rows = as @ x @ bs \<Longrightarrow> distinct (map f rows) \<Longrightarrow> distinct (map f x)"
  by simp

lemma chunk_part:
  assumes "x \<in> set (chunks n rows)" "0 < n"
  obtains as bs where "rows = as @ x @ bs"
proof -
  obtain as bs where "chunks n rows = as @ x # bs" using assms(1) by (meson split_list)
  then have "rows = concat as @ x @ concat bs" using concat_chunks [of n rows] assms(2) by simp
  then show thesis by (rule that)
qed

lemma update_values_queued:
  assumes d: "distinct (map (key_values ident \<circ> predicate_tuple) rows)" and few: "few r ident setColumns"
    and run: "rfold (applyUpdateValueChunk r ident setColumns) (chunks (updateChunkRows (length setColumns + length ident)) rows) q = Inr q'"
  shows "queues r rows q q'"
proof -
  let ?n = "updateChunkRows (length setColumns + length ident)"
  have "queues r (concat (map (\<lambda>x. x) (chunks ?n rows))) q q'"
  proof (rule queues_rfold [OF _ run])
    fix x q q' assume x: "x \<in> set (chunks ?n rows)" "applyUpdateValueChunk r ident setColumns x q = Inr q'"
    obtain ps where ps: "update_value_params r ident setColumns x = Inr ps"
        "q' = q @ [returning_ordinals (statement (UpdateRows setColumns) r ident x (Params ps))]"
      using x(2) by (auto simp: applyUpdateValueChunk_def rbind_eq_Inr)
    obtain as bs where "rows = as @ x @ bs" using chunk_part [OF x(1) updateChunkRows_pos] .
    from distinct_part [OF this d] have "distinct (map (key_values ident \<circ> predicate_tuple) x)" .
    then show "queues r x q q'" unfolding ps(2)
      by (intro queues_one rows_ok)
        (use chunk_params [of x "length setColumns + length ident"] length_chunks [OF x(1)] update_value_params_length [OF ps(1)] few
          in \<open>auto simp: few_def\<close>)
  qed
  then show ?thesis by (simp add: concat_chunks updateChunkRows_pos)
qed

lemma update_chunk_queued:
  assumes "distinct (map (key_values ident \<circ> predicate_tuple) rows)" "few r ident setColumns" "probe_ok r ident rows"
    "applyUpdateChunk r ident setColumns rows q = Inr q'"
  shows "queues r rows q q'"
proof (rule try_queued [OF assms(4) [unfolded applyUpdateChunk_def]])
  show "statement_ok r s \<and> sm_rows s = rows" if "applyUpdateTextStage r ident setColumns rows = Inr (Some s)" for s
    using that assms(1) by (auto simp: applyUpdateTextStage_def rbind_eq_Inr Let_def intro!: rows_ok split: if_splits)
  assume run: "rbind (applyUpdateArrayChunk r ident setColumns rows) (\<lambda>st. case st of Some s \<Rightarrow> Inr (q @ [s]) | None \<Rightarrow>
     rfold (applyUpdateValueChunk r ident setColumns) (chunks (updateChunkRows (length setColumns + length ident)) rows) q) = Inr q'"
  show "queues r rows q q'"
  proof (rule try_queued [OF run])
    show "statement_ok r s \<and> sm_rows s = rows" if "applyUpdateArrayChunk r ident setColumns rows = Inr (Some s)" for s
      using that assms update_array_params_length
      by (auto simp: applyUpdateArrayChunk_def rbind_eq_Inr intro!: rows_ok)
  qed (rule update_values_queued [OF assms(1,2)])
qed


section \<open>Selective updates\<close>

lemma queues_selective: "cap_selectiveUpdates (tr_capabilities r) \<Longrightarrow> queues r ds q q' \<Longrightarrow> queues r cs q q'"
  by (auto simp: queues_def plain_def)

abbreviation update_key :: "targetColumn list \<Rightarrow> Change \<Rightarrow> bytes" where
  "update_key ident ch \<equiv> identity_wire (key_values ident (predicate_tuple ch))"

lemma distinct_update_keys:
  "distinct (map (update_key ident) rows) \<Longrightarrow> distinct (map (key_values ident \<circ> predicate_tuple) rows)"
  using distinct_map [of identity_wire "map (key_values ident \<circ> predicate_tuple) rows"] by (simp add: comp_def)

lemma mask_flags_length: "mask_flags r is vs = Inr m \<Longrightarrow> length m \<le> length is"
proof (induction r "is" vs arbitrary: m rule: mask_flags.induct)
  case (1 r i "is" v vs)
  then show ?case by (fastforce simp: rbind_eq_Inr split: if_splits)
qed auto

lemma consume_masks_length:
  assumes "consume_masks r setColumns rows ms = Inr masks" "\<forall>m. Some m \<in> set ms \<longrightarrow> length m \<le> length setColumns"
  shows "length masks = length ms \<and> (\<forall>m\<in>set masks. length m \<le> length setColumns)"
  using assms
proof (induction r setColumns rows ms rule: consume_masks.induct)
  case (1 r setColumns ms)
  then have "list_all (\<lambda>m. m \<noteq> None) ms" "masks = map the ms" by (auto split: if_splits)
  then show ?case using "1.prems"(2) by (fastforce simp: list_all_iff)
next
  case (2 r setColumns vs rows ms)
  obtain i m where i: "Atoi (hd vs) = Some i" "mask_flags r setColumns (tl vs) = Inr m"
      "consume_masks r setColumns rows (ms[nat i := Some m]) = Inr masks"
      "length vs = length setColumns + 1" "\<not> (i < 0 \<or> i \<ge> int (length ms) \<or> ms ! nat i \<noteq> None)"
    using "2.prems"(1) by (auto simp: rbind_eq_Inr split: if_splits option.splits)
  have "\<forall>m'. Some m' \<in> set (ms[nat i := Some m]) \<longrightarrow> length m' \<le> length setColumns"
    using "2.prems"(2) mask_flags_length [OF i(2)] set_update_subset_insert [of ms "nat i" "Some m"] by fastforce
  moreover have "\<not> length vs \<noteq> length setColumns + 1" using i(4) by simp
  ultimately show ?case using "2.IH" [OF _ i(1) i(5) i(3)] by simp
qed

lemma predicate_selectiveChange [simp]: "predicate_tuple (selectiveChange r ch m) = predicate_tuple ch"
  by (cases "ch_New ch"; cases "ch_Old ch") (auto simp: selectiveChange_def predicate_tuple_def)

lemma mask_group_keys:
  assumes "mask_group r ident msk seen k rest = Inr n"
  shows "n \<le> length rest \<and> distinct (map (update_key ident \<circ> fst) (take n rest)) \<and>
    (\<forall>x\<in>set (take n rest). update_key ident (fst x) \<notin> set seen)"
  using assms
proof (induction r ident msk seen k rest arbitrary: n rule: mask_group.induct)
  case (2 r ident msk seen k ch m rest)
  show ?case
  proof (cases "n = 0")
    case False
    then obtain key n' where s: "\<not> (k \<ge> applyArrayChunkRows \<or> m \<noteq> msk)" "batchUpdateIdentityKey r ident ch = Inr key"
        "key \<notin> set seen" "mask_group r ident msk (key # seen) (Suc k) rest = Inr n'" "n = Suc n'"
      using "2.prems" by (auto simp: rbind_eq_Inr split: if_splits)
    from "2.IH" [OF s(1,3,4)] update_key_wire [OF s(2)] s(3,5) show ?thesis by auto
  qed simp
qed simp

lemma selective_loop_queued:
  assumes "\<forall>(ch, m)\<in>set rows. length m \<le> length setColumns" "few r ident setColumns"
    "useExactIdentityMembership r ident \<longrightarrow> length rows \<le> 512" "cap_selectiveUpdates (tr_capabilities r)"
    "selective_loop r ident rows q = Inr q'"
  shows "queues r cs q q'"
  using assms
proof (induction r ident rows q rule: selective_loop.induct)
  case (1 r ident q)
  then show ?case by (simp add: queues_refl plain_def)
next
  case (2 r ident ch msk rest q)
  note sel = "2.prems"(4)
  have rest: "\<forall>(ch, m)\<in>set (drop n rest). length m \<le> length setColumns"
      "useExactIdentityMembership r ident \<longrightarrow> length (drop n rest) \<le> 512" for n
    using "2.prems"(1,3) by (auto dest: in_set_dropD)
  show ?case
  proof (cases "msk = []")
    case True
    then show ?thesis using "2.IH"(1) [OF True] rest [of 0] "2.prems"(2,4,5) by simp
  next
    case m: False
    show ?thesis
    proof (cases "updateSetColumnsBatchSafe r msk")
      case False
      then obtain q1 where q1: "applyUpdate r (selectiveChange r ch msk) q = Inr q1" "selective_loop r ident rest q1 = Inr q'"
        using "2.prems"(5) m by (auto simp: rbind_eq_Inr)
      have "queues r cs q1 q'" using "2.IH"(2) [OF m False _ "2.prems"(2) _ sel q1(2)] rest [of 0] by simp
      from queues_selective [OF sel queues_trans [OF update_queued [OF q1(1)] this]] show ?thesis .
    next
      case True
      obtain key n q1 where g: "batchUpdateIdentityKey r ident ch = Inr key" "mask_group r ident msk [key] 1 rest = Inr n"
        and q1: "(let exact = map (\<lambda>(c, m). selectiveChange r c msk) ((ch, msk) # take n rest) in
            if length exact = 1 then applyUpdate r (hd exact) q else applyUpdateChunk r ident msk exact q) = Inr q1"
          "selective_loop r ident (drop n rest) q1 = Inr q'"
        using "2.prems"(5) m True by (auto simp: rbind_eq_Inr Let_def)
      let ?exact = "map (\<lambda>(c, m). selectiveChange r c msk) ((ch, msk) # take n rest)"
      note keys = mask_group_keys [OF g(2)]
      have "map (update_key ident) ?exact = map (update_key ident \<circ> fst) ((ch, msk) # take n rest)" by auto
      moreover have "distinct (map (update_key ident \<circ> fst) ((ch, msk) # take n rest))"
        using keys update_key_wire [OF g(1)] by auto
      ultimately have d: "distinct (map (key_values ident \<circ> predicate_tuple) ?exact)"
        using distinct_update_keys [of ident ?exact] by metis
      have few: "few r ident msk" "probe_ok r ident ?exact"
        using "2.prems"(1-3) keys by (auto simp: few_def probe_ok_def)
      have "queues r ?exact q q1"
      proof (cases "length ?exact = 1")
        case one: True
        then have "applyUpdate r (hd ?exact) q = Inr q1" using q1(1) by (simp add: Let_def)
        from queues_selective [OF sel update_queued [OF this]] show ?thesis .
      next
        case False
        have "applyUpdateChunk r ident msk ?exact q = Inr q1" using q1(1) unfolding Let_def if_not_P [OF False] .
        then show ?thesis by (rule update_chunk_queued [OF d few])
      qed
      moreover have "queues r cs q1 q'"
        using "2.IH"(3) [OF m _ refl rest(1) "2.prems"(2) rest(2) sel q1(2)] True by simp
      ultimately show ?thesis using queues_selective [OF sel queues_trans] by blast
    qed
  qed
qed

lemma selective_chunk_queued:
  assumes d: "distinct (map (key_values ident \<circ> predicate_tuple) rows)" and few: "few r ident setColumns"
    and probe: "probe_ok r ident rows" and sel: "cap_selectiveUpdates (tr_capabilities r)"
    and size: "length rows \<le> updateChunkRows (length setColumns + length ident)"
    and run: "applySelectiveUpdateChunk inspect r ident setColumns rows q = Inr q'"
  shows "queues r rows q q'"
proof -
  obtain params ps answer masks q1 where p: "update_array_params r ident setColumns rows = Inr params"
      "(case params of Some ps \<Rightarrow> Inr ps | None \<Rightarrow> update_value_params r ident setColumns rows) = Inr ps"
      "q1 = q @ [returning_ordinals (statement (InspectRows setColumns) r ident rows (Params ps))]"
      "consume_masks r setColumns answer (replicate (length rows) None) = Inr masks"
      "selective_loop r ident (zip rows masks) q1 = Inr q'"
    using run by (auto simp: applySelectiveUpdateChunk_def inspectSelectiveUpdateMasks_def rbind_eq_Inr Let_def)
  have "length ps \<le> 65535" if "narrow r"
  proof (cases params)
    case None
    then show ?thesis
      using p(2) update_value_params_length chunk_params [OF size] few that by (simp add: few_def)
  next
    case (Some x)
    then show ?thesis using update_array_params_length [OF _ few probe that] p(1,2) by simp
  qed
  then have "queues r rows q q1" unfolding p(3) by (intro queues_one rows_ok d) auto
  moreover have "queues r rows q1 q'"
  proof (rule selective_loop_queued [OF _ few _ sel p(5)])
    have "\<forall>m\<in>set masks. length m \<le> length setColumns" using consume_masks_length [OF p(4)] by auto
    then show "\<forall>(ch, m)\<in>set (zip rows masks). length m \<le> length setColumns" by (auto dest: set_zip_rightD)
    show "useExactIdentityMembership r ident \<longrightarrow> length (zip rows masks) \<le> 512" using probe by (auto simp: probe_ok_def)
  qed
  ultimately show ?thesis using queues_selective [OF sel queues_trans] by blast
qed


section \<open>Runs of updates\<close>

lemma set_column_indexes_length: "set_column_indexes ch i cs = Inr is \<Longrightarrow> length is \<le> length cs"
proof (induction cs arbitrary: i "is")
  case (Cons c cs)
  obtain d where d: "tuple_at (ch_New ch) (tc_sourceIndex c) = Inr d"
    using Cons.prems by (auto simp: rbind_eq_Inr)
  obtain js where js: "set_column_indexes ch (Suc i) cs = Inr js" "is = js \<or> is = i # js"
    using Cons.prems by (auto simp: rbind_eq_Inr split: if_splits)
  from Cons.IH [OF js(1)] js(2) show ?case by auto
qed simp

lemma update_few:
  assumes "updateSetColumnIndexes r ch = Inr setColumns"
  shows "few r (batchUpdateIdentityColumns r) setColumns"
proof -
  have "length (batchUpdateIdentityColumns r) \<le> length (predicateTargetColumns r)"
    by (simp add: batchUpdateIdentityColumns_def Let_def)
  then show ?thesis
    using set_column_indexes_length assms by (fastforce simp: few_def narrow_def updateSetColumnIndexes_def)
qed

lemma update_group_keys:
  assumes "update_group r ident setColumns chunkRows seen k chs = Inr n"
  shows "n \<le> length chs \<and> k + n \<le> max k chunkRows \<and> distinct (map (update_key ident) (take n chs)) \<and>
    (\<forall>ch\<in>set (take n chs). update_key ident ch \<notin> set seen)"
  using assms
proof (induction r ident setColumns chunkRows seen k chs arbitrary: n rule: update_group.induct)
  case (2 r ident setColumns chunkRows seen k ch chs)
  show ?case
  proof (cases "n = 0")
    case False
    then obtain key candidate n' where s: "\<not> k \<ge> chunkRows" "batchUpdateIdentityKey r ident ch = Inr key"
        "updateSetColumnIndexes r ch = Inr candidate"
        "\<not> (setColumns \<noteq> candidate \<or> \<not> cap_selectiveUpdates (tr_capabilities r) \<and> \<not> updateSetColumnsBatchSafe r candidate)"
        "key \<notin> set seen" "update_group r ident setColumns chunkRows (key # seen) (Suc k) chs = Inr n'" "n = Suc n'"
      using "2.prems" by (auto simp: rbind_eq_Inr split: if_splits)
    from "2.IH" [OF s(1,4,5,6)] update_key_wire [OF s(2)] s(1,5,7) show ?thesis by auto
  qed simp
qed simp

lemma queue_update_group_queued:
  assumes d: "distinct (map (update_key ident) rows)" and few: "few r ident setColumns"
    and size: "length rows \<le> update_chunk_rows r ident setColumns"
    and run: "queue_update_group inspect r ident setColumns rows q = Inr q'"
  shows "queues r rows q q'"
proof -
  note distinct = distinct_update_keys [OF d]
  have probe: "probe_ok r ident rows"
    using size by (auto simp: probe_ok_def update_chunk_rows_def applySelectiveProbeChunkRows_def Let_def split: if_splits)
  show ?thesis
  proof (cases "cap_selectiveUpdates (tr_capabilities r)")
    case True
    have "length rows \<le> updateChunkRows (length setColumns + length ident)"
      using size True by (auto simp: update_chunk_rows_def Let_def split: if_splits)
    from selective_chunk_queued [OF distinct few probe True this] run True show ?thesis
      by (simp add: queue_update_group_def)
  next
    case False
    show ?thesis
    proof (cases "length rows = 1")
      case one: True
      then obtain ch where "rows = [ch]" by (auto simp: length_Suc_conv)
      then show ?thesis using run False update_queued by (simp add: queue_update_group_def)
    next
      case many: False
      with run False show ?thesis using update_chunk_queued [OF distinct few probe] by (simp add: queue_update_group_def)
    qed
  qed
qed

lemma legacy_loop_queued:
  assumes "ident = batchUpdateIdentityColumns r" "legacy_loop inspect r ident chs q = Inr q'"
  shows "queues r chs q q'"
  using assms
proof (induction inspect r ident chs q rule: legacy_loop.induct)
  case (1 inspect r ident q)
  then show ?case by (simp add: queues_refl)
next
  case (2 inspect r ident ch chs q)
  obtain key setColumns where k: "batchUpdateIdentityKey r ident ch = Inr key" "updateSetColumnIndexes r ch = Inr setColumns"
    using "2.prems"(2) by (auto simp: rbind_eq_Inr)
  show ?case
  proof (cases "\<not> cap_selectiveUpdates (tr_capabilities r) \<and> \<not> updateSetColumnsBatchSafe r setColumns")
    case True
    then obtain q1 where q1: "applyUpdate r ch q = Inr q1" "legacy_loop inspect r ident chs q1 = Inr q'"
      using "2.prems"(2) k by (auto simp: rbind_eq_Inr)
    show ?thesis
      using queues_trans [OF update_queued [OF q1(1)] "2.IH"(1) [OF True "2.prems"(1) q1(2)]] by simp
  next
    case False
    let ?n = "update_chunk_rows r ident setColumns"
    obtain n q1 where n: "update_group r ident setColumns ?n [key] 1 chs = Inr n"
        "queue_update_group inspect r ident setColumns (ch # take n chs) q = Inr q1"
        "legacy_loop inspect r ident (drop n chs) q1 = Inr q'"
      using "2.prems"(2) k False by (auto simp: rbind_eq_Inr split: if_splits)
    note keys = update_group_keys [OF n(1)]
    have "1 \<le> ?n"
      by (auto simp: update_chunk_rows_def Let_def Suc_le_eq updateChunkRows_pos applyArrayChunkRows_def applySelectiveProbeChunkRows_def)
    then have size: "length (ch # take n chs) \<le> ?n" using keys by (auto simp: max_def split: if_splits)
    have "distinct (map (update_key ident) (ch # take n chs))"
      using keys update_key_wire [OF k(1)] by auto
    from queue_update_group_queued [OF this _ size n(2)] update_few [OF k(2)] "2.prems"(1)
    have "queues r (ch # take n chs) q q1" by simp
    from queues_trans [OF this "2.IH"(2) [OF False "2.prems"(1) n(3)]] show ?thesis by simp
  qed
qed

lemma singles_queued:
  assumes "\<And>ch q q'. f ch q = Inr q' \<Longrightarrow> queues r [ch] q q'" "rfold f chs q = Inr q'"
  shows "queues r chs q q'"
  using queues_rfold [of chs f r "\<lambda>ch. [ch]"] assms by (simp add: concat_map_singleton)

lemma legacy_updates_queued:
  assumes "applyLegacyUpdates inspect r chs q = Inr q'"
  shows "queues r chs q q'"
  using assms unfolding applyLegacyUpdates_def Let_def
  by (auto split: if_splits intro: singles_queued [OF update_queued] legacy_loop_queued [OF refl])

abbreviation upsert_key :: "targetRelation \<Rightarrow> Change \<Rightarrow> bytes" where
  "upsert_key r ch \<equiv> tuple_wire (key_values (primaryKeyColumns r) (ch_New ch))"

lemma upsert_run_keys:
  assumes "upsert_run r seen k chs = Inr n"
  shows "n \<le> length chs \<and> k + n \<le> max k applyArrayChunkRows \<and> distinct (map (upsert_key r) (take n chs)) \<and>
    (\<forall>ch\<in>set (take n chs). upsert_key r ch \<notin> set seen)"
  using assms
proof (induction r seen k chs arbitrary: n rule: upsert_run.induct)
  case (2 r seen k ch chs)
  show ?case
  proof (cases "n = 0")
    case False
    then obtain key n' where s: "\<not> k \<ge> applyArrayChunkRows" "canPrimaryKeyUpsert (Some r) ch = Inr True"
        "primaryKeyTupleKey r (ch_New ch) = Inr key" "key \<notin> set seen" "upsert_run r (key # seen) (Suc k) chs = Inr n'" "n = Suc n'"
      using "2.prems" by (auto simp: rbind_eq_Inr split: if_splits)
    have "\<not> \<not> True" by simp
    from "2.IH" [OF s(1) this s(4,5)] upsert_key_wire [OF s(3)] s(1,4,6) show ?thesis by auto
  qed simp
qed simp

lemma distinct_upsert_keys:
  "distinct (map (upsert_key r) rows) \<Longrightarrow> distinct (map (key_values (primaryKeyColumns r) \<circ> ch_New) rows)"
  using distinct_map [of tuple_wire "map (key_values (primaryKeyColumns r) \<circ> ch_New) rows"] by (simp add: comp_def)

lemma updates_queued:
  assumes "applyUpdates inspect r chs q = Inr q'"
  shows "queues r chs q q'"
  using assms
proof (induction inspect r chs q rule: applyUpdates.induct)
  case (1 inspect r q)
  then show ?case by (simp add: queues_refl)
next
  case (2 inspect r ch chs q)
  obtain ok where ok: "canPrimaryKeyUpsert (Some r) ch = Inr ok" using "2.prems" by (auto simp: rbind_eq_Inr)
  show ?case
  proof (cases ok)
    case False
    then obtain n q1 where n: "legacy_run r chs = Inr n" "applyLegacyUpdates inspect r (ch # take n chs) q = Inr q1"
        "applyUpdates inspect r (drop n chs) q1 = Inr q'"
      using "2.prems" ok by (auto simp: rbind_eq_Inr)
    from queues_trans [OF legacy_updates_queued [OF n(2)] "2.IH"(1) [OF _ n(3)]] False show ?thesis by simp
  next
    case True
    then obtain key n q1 where n: "primaryKeyTupleKey r (ch_New ch) = Inr key" "upsert_run r [key] 1 chs = Inr n"
        "applyPrimaryKeyUpsertChunk r (ch # take n chs) q = Inr q1" "applyUpdates inspect r (drop n chs) q1 = Inr q'"
      using "2.prems" ok by (auto simp: rbind_eq_Inr)
    have "distinct (map (upsert_key r) (ch # take n chs))"
      using upsert_run_keys [OF n(2)] upsert_key_wire [OF n(1)] by auto
    from queues_trans [OF upserts_queued [OF distinct_upsert_keys [OF this] n(3)] "2.IH"(2) [OF _ n(4)]] True
    show ?thesis by simp
  qed
qed

section \<open>Runs of deletes\<close>

abbreviation delete_key :: "targetColumn list \<Rightarrow> Change \<Rightarrow> bytes" where
  "delete_key ident ch \<equiv> identity_wire (key_values ident (ch_Old ch))"

lemma delete_queued:
  assumes "applyDelete r ch q = Inr q'"
  shows "queues r [ch] q q'"
proof (cases "primaryKeyDeleteColumns r")
  case None
  then obtain ps where ps: "appendPredicate [] r (ch_Old ch) ChangeDelete = Inr ps" "q' = q @ [statement DeleteRow r [] [ch] (Params ps)]"
    using assms by (auto simp: applyDelete_def rbind_eq_Inr)
  show ?thesis unfolding ps(2)
    by (intro queues_one single_ok) (use appendPredicate_length [OF ps(1)] in \<open>auto simp: narrow_def\<close>)
next
  case (Some primary)
  then obtain ps where ps: "primary_params r (ch_Old ch) primary = Inr ps"
      "q' = q @ [(statement DeleteRow r primary [ch] (Params ps))\<lparr>sm_allowMissingRows := True\<rparr>]"
    using assms by (auto simp: applyDelete_def rbind_eq_Inr)
  have "length primary \<le> length (tr_columns r)"
    using primaryKeyDeleteColumns_primary [OF Some] by (simp add: primaryKeyColumns_def)
  then have "statement_ok r (statement DeleteRow r primary [ch] (Params ps))"
    using primary_params_length [OF ps(1)] by (intro single_ok) (auto simp: narrow_def)
  then show ?thesis unfolding ps(2)
    by (intro queues_one) (auto simp: statement_ok_def touches_once_def fits_def touched_key_def)
qed

lemma delete_ok:
  assumes "distinct (map (key_values ident \<circ> ch_Old) rows)" "narrow r \<longrightarrow> transport_params t \<le> 65535"
  shows "statement_ok r (delete_statement r ident rows t) \<and> sm_rows (delete_statement r ident rows t) = rows"
  using assms by (simp add: delete_statement_def statement_ok_def touches_once_def fits_def touched_key_def [abs_def] comp_def)

definition few_keys :: "targetRelation \<Rightarrow> targetColumn list \<Rightarrow> bool" where
  "few_keys r ident \<longleftrightarrow> (narrow r \<longrightarrow> length ident \<le> 1600)"

lemma delete_values_queued:
  assumes d: "distinct (map (key_values ident \<circ> ch_Old) rows)" and few: "few_keys r ident"
    and run: "rfold (applyDeleteValueChunk r ident) (chunks (updateChunkRows (length ident)) rows) q = Inr q'"
  shows "queues r rows q q'"
proof -
  let ?n = "updateChunkRows (length ident)"
  have "queues r (concat (map (\<lambda>x. x) (chunks ?n rows))) q q'"
  proof (rule queues_rfold [OF _ run])
    fix x q q' assume x: "x \<in> set (chunks ?n rows)" "applyDeleteValueChunk r ident x q = Inr q'"
    obtain ps where ps: "identity_scalars r ChangeDelete ident ch_Old x = Inr ps" "q' = q @ [delete_statement r ident x (Params ps)]"
      using x(2) by (auto simp: applyDeleteValueChunk_def appendDeleteIdentityScalarParams_def rbind_eq_Inr)
    obtain as bs where "rows = as @ x @ bs" using chunk_part [OF x(1) updateChunkRows_pos] .
    from distinct_part [OF this d] have "distinct (map (key_values ident \<circ> ch_Old) x)" .
    moreover have "narrow r \<longrightarrow> length ps \<le> 65535"
      using chunk_params [of x "length ident"] length_chunks [OF x(1)] identity_scalars_length [OF ps(1)] few by (auto simp: few_keys_def)
    ultimately show "queues r x q q'" unfolding ps(2) using delete_ok [of ident x r "Params ps"] by (auto intro: queues_one)
  qed
  then show ?thesis by (simp add: concat_chunks updateChunkRows_pos)
qed

lemma delete_chunk_queued:
  assumes d: "distinct (map (key_values ident \<circ> ch_Old) rows)" and few: "few_keys r ident" and probe: "probe_ok r ident rows"
    and run: "applyDeleteChunk r ident rows q = Inr q'"
  shows "queues r rows q q'"
proof (rule try_queued [OF run [unfolded applyDeleteChunk_def]])
  show "statement_ok r s \<and> sm_rows s = rows" if staged: "applyDeleteTextStage r ident rows = Inr (Some s)" for s
  proof -
    obtain data where "s = delete_statement r ident rows (StageData data)"
      using staged by (auto simp: applyDeleteTextStage_def rbind_eq_Inr split: if_splits)
    then show ?thesis using delete_ok [OF d] by simp
  qed
  assume run: "rbind (applyDeleteArrayChunk r ident rows) (\<lambda>st. case st of Some s \<Rightarrow> Inr (q @ [s]) | None \<Rightarrow>
     rfold (applyDeleteValueChunk r ident) (chunks (updateChunkRows (length ident)) rows) q) = Inr q'"
  show "queues r rows q q'"
  proof (rule try_queued [OF run])
    show "statement_ok r s \<and> sm_rows s = rows" if arrays: "applyDeleteArrayChunk r ident rows = Inr (Some s)" for s
    proof -
      let ?scalars = "useExactIdentityMembership r ident \<and> \<not> deleteUsesTargetPrimaryKey r ident"
      obtain cols ps1 ps where p: "delete_column_values ident rows = Inr cols" "array_params r ChangeDelete cols = Inr (Some ps1)"
          "(if ?scalars then appendDeleteIdentityScalarParams ps1 r ident rows else Inr ps1) = Inr ps"
          "s = delete_statement r ident rows (Params ps)"
        using arrays unfolding applyDeleteArrayChunk_def rbind_eq_Inr
        by (elim exE conjE) (split option.splits, auto simp: rbind_eq_Inr split del: if_split)
      have n: "length ps1 = length ident"
        using array_params_length [OF p(2)] p(1) by (auto simp: delete_column_values_def dest!: rmap_Inr)
      have "length ps \<le> 65535" if "narrow r"
      proof (cases "ps = ps1")
        case False
        then obtain ks where "identity_scalars r ChangeDelete ident ch_Old rows = Inr ks" "ps = ps1 @ ks"
          and e: "useExactIdentityMembership r ident"
          using p(3) by (auto simp: appendDeleteIdentityScalarParams_def rbind_eq_Inr split: if_splits)
        then have "length ps = length ps1 + length rows * length ident" using identity_scalars_length by auto
        then show ?thesis using n e probe by (simp add: probe_ok_def useExactIdentityMembership_def)
      qed (use n few that in \<open>simp add: few_keys_def\<close>)
      then show ?thesis unfolding p(4) by (intro delete_ok d) simp
    qed
  qed (rule delete_values_queued [OF d few])
qed

lemma delete_group_keys:
  assumes "delete_group r ident chunkRows seen k chs = Inr n"
  shows "n \<le> length chs \<and> k + n \<le> max k chunkRows \<and> distinct (map (delete_key ident) (take n chs)) \<and>
    (\<forall>ch\<in>set (take n chs). delete_key ident ch \<notin> set seen)"
  using assms
proof (induction r ident chunkRows seen k chs arbitrary: n rule: delete_group.induct)
  case (2 r ident chunkRows seen k ch chs)
  show ?case
  proof (cases "n = 0")
    case False
    then obtain key n' where s: "\<not> k \<ge> chunkRows" "batchDeleteIdentityKey r ident ch = Inr key"
        "key \<notin> set seen" "delete_group r ident chunkRows (key # seen) (Suc k) chs = Inr n'" "n = Suc n'"
      using "2.prems" by (auto simp: rbind_eq_Inr split: if_splits)
    from "2.IH" [OF s(1,3,4)] delete_key_wire [OF s(2)] s(1,3,5) show ?thesis by auto
  qed simp
qed simp

lemma distinct_delete_keys:
  "distinct (map (delete_key ident) rows) \<Longrightarrow> distinct (map (key_values ident \<circ> ch_Old) rows)"
  using distinct_map [of identity_wire "map (key_values ident \<circ> ch_Old) rows"] by (simp add: comp_def)

lemma delete_loop_queued:
  assumes "few_keys r ident" "0 < chunkRows" "useExactIdentityMembership r ident \<longrightarrow> chunkRows \<le> 512"
    "delete_loop r ident chunkRows chs q = Inr q'"
  shows "queues r chs q q'"
  using assms
proof (induction r ident chunkRows chs q rule: delete_loop.induct)
  case (1 r ident chunkRows q)
  then show ?case by (simp add: queues_refl)
next
  case (2 r ident chunkRows ch chs q)
  obtain key n q1 where n: "batchDeleteIdentityKey r ident ch = Inr key" "delete_group r ident chunkRows [key] 1 chs = Inr n"
      "(if n = 0 then applyDelete r ch q else applyDeleteChunk r ident (ch # take n chs) q) = Inr q1"
      "delete_loop r ident chunkRows (drop n chs) q1 = Inr q'"
    using "2.prems"(4) by (auto simp: rbind_eq_Inr)
  note keys = delete_group_keys [OF n(2)]
  have "queues r (ch # take n chs) q q1"
  proof (cases "n = 0")
    case True
    then show ?thesis using n(3) delete_queued by simp
  next
    case False
    have "distinct (map (delete_key ident) (ch # take n chs))" using keys delete_key_wire [OF n(1)] by auto
    moreover have "probe_ok r ident (ch # take n chs)" using keys "2.prems"(2,3) by (auto simp: probe_ok_def max_def split: if_splits)
    moreover have "applyDeleteChunk r ident (ch # take n chs) q = Inr q1" using n(3) False by simp
    ultimately show ?thesis using delete_chunk_queued [OF distinct_delete_keys "2.prems"(1)] by blast
  qed
  from queues_trans [OF this "2.IH" [OF "2.prems"(1-3) n(4)]] show ?case by simp
qed

lemma deletes_queued:
  assumes "applyDeletes r chs q = Inr q'"
  shows "queues r chs q q'"
proof -
  define ident where "ident = (case primaryKeyDeleteColumns r of Some primary \<Rightarrow> primary | None \<Rightarrow> batchUpdateIdentityColumns r)"
  have "length ident \<le> length (tr_columns r) \<or> length ident \<le> length (predicateTargetColumns r)"
    using primaryKeyDeleteColumns_primary [of r]
    by (auto simp: ident_def batchUpdateIdentityColumns_def Let_def primaryKeyColumns_def split: option.splits)
  then have "few_keys r ident" by (auto simp: few_keys_def narrow_def)
  note loop = delete_loop_queued [OF this]
  show ?thesis
  proof (cases "length chs < 2 \<or> ident = []")
    case True
    with assms have "rfold (applyDelete r) chs q = Inr q'"
      unfolding applyDeletes_def Let_def ident_def [symmetric] by simp
    then show ?thesis by (rule singles_queued [rotated]) (rule delete_queued)
  next
    case False
    with assms have "delete_loop r ident (if useExactIdentityMembership r ident then 512 else 8192) chs q = Inr q'"
      unfolding applyDeletes_def Let_def ident_def [symmetric] applySelectiveProbeChunkRows_def applyArrayChunkRows_def by simp
    then show ?thesis by (rule loop [rotated 2]) auto
  qed
qed

end
