(* ===== verification/ApplyOrder.thy ===== *)
theory ApplyOrder
  imports ApplyLanes ApplyRows
begin

text \<open>
  The order of the queued rows against the order of the source: a row may only move past rows of
  other relations, and an update may only be left out before one that overwrites it.
\<close>

section \<open>Rows of a queue\<close>

definition queued_rows :: "Statement list \<Rightarrow> Change list" where
  "queued_rows q = concat (map sm_rows q)"

lemma queued_rows_simps [simp]: "queued_rows [] = []" "queued_rows (q @ q') = queued_rows q @ queued_rows q'"
  "queued_rows [s] = sm_rows s"
  by (simp_all add: queued_rows_def)

definition sound :: "Statement \<Rightarrow> bool" where
  "sound st \<longleftrightarrow> touches_once st \<and> (case sm_relation st of None \<Rightarrow> True | Some r \<Rightarrow> narrow r \<longrightarrow> fits st)"

text \<open>\<open>extends ok cs q q'\<close>: sound statements are queued, and if \<open>ok\<close> their rows are \<open>cs\<close>.\<close>

definition extends :: "bool \<Rightarrow> Change list \<Rightarrow> Statement list \<Rightarrow> Statement list \<Rightarrow> bool" where
  "extends ok cs q q' \<longleftrightarrow> (ok \<longrightarrow> queued_rows q' = queued_rows q @ cs) \<and> (\<exists>ss. q' = q @ ss \<and> (\<forall>st\<in>set ss. sound st))"

lemma extends_refl: "extends ok [] q q"
  by (auto simp: extends_def)

lemma extends_trans: "extends ok cs q q1 \<Longrightarrow> extends ok ds q1 q2 \<Longrightarrow> extends ok (cs @ ds) q q2"
  by (auto simp: extends_def)

lemma queues_extends:
  assumes "queues r cs q q'" "ok \<longrightarrow> plain r"
  shows "extends ok cs q q'"
proof -
  obtain ss where "q' = q @ ss" "plain r \<longrightarrow> concat (map sm_rows ss) = cs" "\<forall>s\<in>set ss. statement_ok r s"
    using assms(1) by (auto simp: queues_def)
  then show ?thesis using assms(2) by (auto simp: extends_def queued_rows_def statement_ok_def sound_def)
qed

lemma extends_rfold:
  assumes "\<And>x q q'. x \<in> set xs \<Longrightarrow> f x q = Inr q' \<Longrightarrow> extends ok (g x) q q'" "rfold f xs q = Inr q'"
  shows "extends ok (concat (map g xs)) q q'"
  using assms
proof (induction xs arbitrary: q)
  case Nil
  then show ?case by (simp add: extends_refl)
next
  case (Cons x xs)
  obtain q1 where q1: "f x q = Inr q1" "rfold f xs q1 = Inr q'" using Cons.prems(2) by (auto simp: res_simps)
  have "extends ok (concat (map g xs)) q1 q'" by (rule Cons.IH [OF Cons.prems(1) q1(2)]) auto
  then show ?case using extends_trans [OF Cons.prems(1) [OF _ q1(1)]] by simp
qed

lemma truncates_extends: "applyTruncates relations cs q = Inr q' \<Longrightarrow> extends ok cs q q'"
  by (auto simp: applyTruncates_def rbind_eq_Inr extends_def sound_def touches_once_def fits_def split: option.splits)

lemma concat_runs_by: "concat (runs_by share xs) = xs"
  by (induction share xs rule: runs_by.induct) auto

section \<open>Runs, lanes and steps\<close>

definition plain_item :: "queuedChange \<Rightarrow> bool" where
  "plain_item item \<longleftrightarrow> (case rbc_relation item of None \<Rightarrow> True | Some r \<Rightarrow> plain r)"

lemma run_extends:
  assumes "queueRelationReplayRun inspect relations run q = Inr q'" "ok \<longrightarrow> (\<forall>x\<in>set run. plain_item x)"
  shows "extends ok (map rbc_change run) q q'"
proof (cases run)
  case Nil
  then show ?thesis using assms(1) by (simp add: queueRelationReplayRun_def extends_refl)
next
  case (Cons item rest)
  obtain r where r: "rbc_relation item = Some r" using assms(1) Cons by (auto simp: queueRelationReplayRun_def Let_def split: option.splits)
  have plain: "ok \<longrightarrow> plain r" using assms(2) Cons r by (simp add: plain_item_def)
  from assms(1) r have "applyInserts r (map rbc_change run) q = Inr q' \<or> applyUpdates inspect r (map rbc_change run) q = Inr q' \<or>
      applyDeletes r (map rbc_change run) q = Inr q' \<or> (\<exists>rels. applyTruncates rels (map rbc_change run) q = Inr q')"
    unfolding Cons queueRelationReplayRun_def list.case Let_def r option.case
    by (cases relations) (auto split: if_splits)
  then show ?thesis
    using queues_extends [OF inserts_queued plain] queues_extends [OF updates_queued plain]
      queues_extends [OF deletes_queued plain] truncates_extends by blast
qed

lemma runs_extend:
  assumes "rfold (queueRelationReplayRun inspect relations) (runs_by share items) q = Inr q'"
    "ok \<longrightarrow> (\<forall>x\<in>set items. plain_item x)"
  shows "extends ok (map rbc_change items) q q'"
proof -
  have sub: "set run \<subseteq> set items" if "run \<in> set (runs_by share items)" for run
    using that concat_runs_by [of share items] by (metis UN_upper set_concat)
  have "extends ok (concat (map (map rbc_change) (runs_by share items))) q q'"
    by (rule extends_rfold [OF run_extends assms(1)]) (use sub assms(2) in blast)+
  then show ?thesis by (simp add: concat_runs_by flip: map_concat)
qed

definition step_items :: "relationReplayStep \<Rightarrow> queuedChange list" where
  "step_items step = (if rs_ordered step then rs_items step else concat (rs_lanes step))"

lemma lanes_extend:
  assumes "rfold (queueRelationReplayLane inspect) lanes q = Inr q'" "ok \<longrightarrow> (\<forall>x\<in>set (concat lanes). plain_item x)"
  shows "extends ok (map rbc_change (concat lanes)) q q'"
proof -
  have "extends ok (concat (map (map rbc_change) lanes)) q q'"
    by (rule extends_rfold [OF _ assms(1)]) (use assms(2) in \<open>auto simp: queueRelationReplayLane_def intro: runs_extend\<close>)
  then show ?thesis by (simp add: map_concat)
qed

lemma step_extends:
  assumes "queue_step inspect relations step q = Inr q'" "ok \<longrightarrow> (\<forall>x\<in>set (step_items step). plain_item x)"
  shows "extends ok (map rbc_change (step_items step)) q q'"
proof (cases "rs_ordered step")
  case True
  then show ?thesis using assms runs_extend by (simp add: queue_step_def step_items_def queueOrderedReplayStep_def)
next
  case False
  then show ?thesis using assms lanes_extend by (simp add: queue_step_def step_items_def del: set_concat)
qed

lemma steps_extend:
  assumes "rfold (queue_step inspect relations) steps q = Inr q'" "ok \<longrightarrow> (\<forall>x\<in>set (concat (map step_items steps)). plain_item x)"
  shows "extends ok (map rbc_change (concat (map step_items steps))) q q'"
proof -
  have "extends ok (concat (map (\<lambda>s. map rbc_change (step_items s)) steps)) q q'"
    by (rule extends_rfold [OF step_extends assms(1)]) (use assms(2) in auto)
  then show ?thesis by (simp add: map_concat comp_def)
qed

section \<open>Moving a row\<close>

definition commutes :: "('a \<Rightarrow> 's \<Rightarrow> 's) \<Rightarrow> 'a \<Rightarrow> 'a \<Rightarrow> bool" where
  "commutes f x y \<longleftrightarrow> (\<forall>s. f x (f y s) = f y (f x s))"

lemma fold_past: "\<forall>y\<in>set ys. commutes f x y \<Longrightarrow> fold f ys (f x s) = f x (fold f ys s)"
proof (induction ys arbitrary: s)
  case (Cons y ys)
  have "f y (f x s) = f x (f y s)" using Cons.prems by (simp add: commutes_def)
  then show ?case using Cons by simp
qed simp

lemma fold_move: "\<forall>y\<in>set ys. commutes f x y \<Longrightarrow> fold f (xs @ [x] @ ys) s = fold f (xs @ ys @ [x]) s"
  by (simp add: fold_past)

text \<open>The table of a change.\<close>

abbreviation table_of :: "queuedChange \<Rightarrow> u32" where
  "table_of x \<equiv> ch_RelationOID (rbc_change x)"

text \<open>
  A relation's target may be loaded again within a batch: later changes of the table never have an
  older address, and an address belongs to one table.
\<close>

definition address_order :: "queuedChange \<Rightarrow> queuedChange \<Rightarrow> bool" where
  "address_order x y \<longleftrightarrow> (table_of x = table_of y \<longrightarrow> rbc_address x \<le> rbc_address y) \<and>
     (rbc_address x = rbc_address y \<longrightarrow> table_of x = table_of y)"

definition lanes_inv :: "(nat \<Rightarrow> nat option) \<Rightarrow> queuedChange list list \<Rightarrow> bool" where
  "lanes_inv indexes lanes \<longleftrightarrow>
     (\<forall>a i. indexes a = Some i \<longleftrightarrow> i < length lanes \<and> (\<exists>x\<in>set (lanes ! i). rbc_address x = a)) \<and>
     (\<forall>i<length lanes. \<forall>x\<in>set (lanes ! i). \<forall>y\<in>set (lanes ! i). rbc_address x = rbc_address y) \<and>
     (\<forall>i j. i < j \<and> j < length lanes \<longrightarrow>
        (\<forall>x\<in>set (lanes ! i). \<forall>y\<in>set (lanes ! j). table_of x = table_of y \<longrightarrow> rbc_address x < rbc_address y))"

lemma lanes_inv_empty: "lanes_inv (\<lambda>_. None) []"
  by (simp add: lanes_inv_def)

lemma add_to_lane_inv:
  assumes inv: "lanes_inv indexes lanes" and order: "\<forall>y\<in>set (concat lanes). address_order y item"
    and add: "add_to_lane item (indexes, lanes) = (indexes', lanes')"
  shows "lanes_inv indexes' lanes'"
    and "\<exists>xs ys. concat lanes = xs @ ys \<and> concat lanes' = xs @ [item] @ ys \<and> (\<forall>y\<in>set ys. table_of y \<noteq> table_of item)"
proof -
  note ix = inv [unfolded lanes_inv_def, THEN conjunct1, rule_format]
  note same = inv [unfolded lanes_inv_def, THEN conjunct2, THEN conjunct1, rule_format]
  note less = inv [unfolded lanes_inv_def, THEN conjunct2, THEN conjunct2, rule_format]
  have order': "address_order y item" if "i < length lanes" "y \<in> set (lanes ! i)" for i y
    using order that by (auto simp: in_set_conv_nth) (metis nth_mem)
  show "lanes_inv indexes' lanes'" and "\<exists>xs ys. concat lanes = xs @ ys \<and> concat lanes' = xs @ [item] @ ys \<and> (\<forall>y\<in>set ys. table_of y \<noteq> table_of item)"
  proof (atomize (full), cases "indexes (rbc_address item)")
    case None
    then have l: "indexes' = indexes(rbc_address item \<mapsto> length lanes)" "lanes' = lanes @ [[item]]"
      using add by (simp_all add: add_to_lane_def)
    have fresh: "rbc_address x \<noteq> rbc_address item" if "i < length lanes" "x \<in> set (lanes ! i)" for i x
      using None ix [of "rbc_address item" i] that by auto
    have "lanes_inv indexes' lanes'"
      unfolding lanes_inv_def
    proof (intro conjI allI impI ballI)
      show "indexes' a = Some i \<longleftrightarrow> i < length lanes' \<and> (\<exists>x\<in>set (lanes' ! i). rbc_address x = a)" for a i
        using ix [of a i] fresh [of i] unfolding l by (auto simp: nth_append less_Suc_eq)
      show "rbc_address x = rbc_address y" if "i < length lanes'" "x \<in> set (lanes' ! i)" "y \<in> set (lanes' ! i)" for i x y
        using that same [of i x y] unfolding l by (auto simp: nth_append less_Suc_eq split: if_splits)
      show "rbc_address x < rbc_address y" if "i < j \<and> j < length lanes'" "x \<in> set (lanes' ! i)" "y \<in> set (lanes' ! j)" "table_of x = table_of y" for i j x y
      proof (cases "j < length lanes")
        case True
        then show ?thesis using that less [of i j x y] unfolding l by (auto simp: nth_append)
      next
        case False
        then have "y = item" "x \<in> set (lanes ! i)" "i < length lanes" using that unfolding l by (auto simp: nth_append less_Suc_eq split: if_splits)
        then show ?thesis using order' [of i x] fresh [of i x] that(4) by (auto simp: address_order_def)
      qed
    qed
    then show "lanes_inv indexes' lanes' \<and> (\<exists>xs ys. concat lanes = xs @ ys \<and> concat lanes' = xs @ [item] @ ys \<and> (\<forall>y\<in>set ys. table_of y \<noteq> table_of item))"
      unfolding l by (intro conjI) (assumption, rule exI [of _ "concat lanes"], rule exI [of _ "[]"], simp)
  next
    case (Some i)
    then have l: "indexes' = indexes" "lanes' = lanes[i := lanes ! i @ [item]]"
      using add by (simp_all add: add_to_lane_def)
    obtain z where i: "i < length lanes" and z: "z \<in> set (lanes ! i)" "rbc_address z = rbc_address item"
      using ix [of "rbc_address item" i] Some by auto
    have zt: "table_of z = table_of item" using order' [OF i z(1)] z(2) by (auto simp: address_order_def)
    have later: "table_of y \<noteq> table_of item" if "i < j" "j < length lanes" "y \<in> set (lanes ! j)" for j y
    proof
      assume t: "table_of y = table_of item"
      from less [of i j z y] that z zt t have "rbc_address item < rbc_address y" by simp
      with order' [OF that(2,3)] t show False by (simp add: address_order_def)
    qed
    have "lanes_inv indexes' lanes'"
      unfolding lanes_inv_def
    proof (intro conjI allI impI ballI)
      have up: "set (lanes' ! k) = (if k = i then insert item (set (lanes ! k)) else set (lanes ! k))" if "k < length lanes" for k
        using that i unfolding l by (auto simp: nth_list_update)
      show "indexes' a = Some k \<longleftrightarrow> k < length lanes' \<and> (\<exists>x\<in>set (lanes' ! k). rbc_address x = a)" for a k
      proof (cases "k = i")
        case True
        then show ?thesis using ix [of a k] up [of k] i z unfolding l by auto
      next
        case False
        then show ?thesis using ix [of a k] unfolding l by auto
      qed
      show "rbc_address x = rbc_address y" if "k < length lanes'" "x \<in> set (lanes' ! k)" "y \<in> set (lanes' ! k)" for k x y
      proof (cases "k = i")
        case True
        have "rbc_address w = rbc_address item" if "w \<in> set (lanes' ! i)" for w
          using that up [OF i] same [OF i _ z(1), of w] z(2) by auto
        then show ?thesis using that(2,3) True by simp
      next
        case False
        then show ?thesis using that same [of k x y] unfolding l by simp
      qed
      show "rbc_address x < rbc_address y" if "j < k \<and> k < length lanes'" "x \<in> set (lanes' ! j)" "y \<in> set (lanes' ! k)" "table_of x = table_of y" for j k x y
      proof -
        have jk: "j < k" "k < length lanes" using that(1) unfolding l by auto
        show ?thesis
        proof (cases "x = item \<and> j = i")
          case True
          then have "y \<in> set (lanes ! k)" using up [of k] jk that(3) by auto
          then show ?thesis using less [of i k z y] jk True z zt that(4) by auto
        next
          case xo: False
          then have x: "x \<in> set (lanes ! j)" using up [of j] jk that(2) by (auto split: if_splits)
          show ?thesis
          proof (cases "y = item \<and> k = i")
            case True
            then show ?thesis using less [of j i x z] jk x z zt that(4) by auto
          next
            case False
            then have "y \<in> set (lanes ! k)" using up [of k] jk that(3) by (auto split: if_splits)
            then show ?thesis using less [of j k x y] jk x that(4) by auto
          qed
        qed
      qed
    qed
    moreover have "lanes = take i lanes @ lanes ! i # drop (Suc i) lanes" using i by (rule id_take_nth_drop)
    then have "concat lanes = (concat (take i lanes) @ lanes ! i) @ concat (drop (Suc i) lanes)"
      by (metis concat.simps(2) concat_append append.assoc)
    moreover have "concat lanes' = (concat (take i lanes) @ lanes ! i) @ [item] @ concat (drop (Suc i) lanes)"
      unfolding l using i by (simp add: upd_conv_take_nth_drop)
    moreover have "\<forall>y\<in>set (concat (drop (Suc i) lanes)). table_of y \<noteq> table_of item"
    proof
      fix y assume "y \<in> set (concat (drop (Suc i) lanes))"
      then obtain k where "k < length lanes - Suc i" "y \<in> set (lanes ! (Suc i + k))"
        by (auto simp: in_set_conv_nth) (metis nth_mem)
      then show "table_of y \<noteq> table_of item" using later [of "Suc i + k" y] by simp
    qed
    ultimately show "lanes_inv indexes' lanes' \<and> (\<exists>xs ys. concat lanes = xs @ ys \<and> concat lanes' = xs @ [item] @ ys \<and> (\<forall>y\<in>set ys. table_of y \<noteq> table_of item))"
      by blast
  qed
qed


section \<open>The steps of a batch keep the effect of the source order\<close>

definition lane_safe :: "queuedChange \<Rightarrow> bool" where
  "lane_safe x \<longleftrightarrow> (case rbc_relation x of None \<Rightarrow> False | Some r \<Rightarrow> cap_relationLane (tr_capabilities r)) \<and>
     ch_Kind (rbc_change x) \<noteq> ChangeTruncate"

text \<open>Changes of different tables that may be in one step commute.\<close>

definition tables_independent :: "(queuedChange \<Rightarrow> 's \<Rightarrow> 's) \<Rightarrow> queuedChange list \<Rightarrow> bool" where
  "tables_independent f items \<longleftrightarrow> (\<forall>x\<in>set items. \<forall>y\<in>set items.
     lane_safe x \<and> lane_safe y \<and> table_of x \<noteq> table_of y \<longrightarrow> commutes f x y)"

definition planned_items :: "relationReplayStep list \<Rightarrow> queuedChange list" where
  "planned_items steps = concat (map step_items steps)"

definition open_lanes :: "relationReplayStep \<Rightarrow> bool" where
  "open_lanes step \<longleftrightarrow> (\<not> rs_ordered step \<longrightarrow> lanes_inv (rs_laneIndexes step) (rs_lanes step) \<and> (\<forall>x\<in>set (concat (rs_lanes step)). lane_safe x))"

definition steps_inv :: "(queuedChange \<Rightarrow> 's \<Rightarrow> 's) \<Rightarrow> relationReplayStep list \<Rightarrow> queuedChange list \<Rightarrow> bool" where
  "steps_inv f steps src \<longleftrightarrow> (\<forall>s. fold f (planned_items steps) s = fold f src s) \<and>
     set (planned_items steps) = set src \<and> (steps \<noteq> [] \<longrightarrow> open_lanes (last steps))"

lemma current_step:
  assumes "current_step ordered steps = (before, step)" "steps \<noteq> [] \<longrightarrow> open_lanes (last steps)"
  shows "planned_items steps = planned_items before @ step_items step \<and> rs_ordered step = ordered \<and> open_lanes step"
proof (cases "steps = [] \<or> rs_ordered (last steps) \<noteq> ordered")
  case True
  then show ?thesis using assms(1)
    by (auto simp: current_step_def empty_step_def step_items_def open_lanes_def lanes_inv_empty)
next
  case False
  then have "steps = before @ [step]" "rs_ordered step = ordered" "open_lanes step"
    using assms by (auto simp: current_step_def)
  then show ?thesis by (simp add: planned_items_def)
qed

lemma plan_item_inv:
  assumes inv: "steps_inv f steps src" and order: "\<forall>y\<in>set src. address_order y item"
    and indep: "tables_independent f (src @ [item])"
  shows "steps_inv f (plan_item item steps) (src @ [item])"
proof -
  have eff: "fold f (planned_items steps) s = fold f src s" for s using inv by (simp add: steps_inv_def)
  have set: "set (planned_items steps) = set src" using inv by (simp add: steps_inv_def)
  have open_last: "steps \<noteq> [] \<longrightarrow> open_lanes (last steps)" using inv by (simp add: steps_inv_def)
  show ?thesis
  proof (cases "lane_safe item")
    case False
    obtain before step where c: "current_step True steps = (before, step)" by (cases "current_step True steps")
    note c' = current_step [OF c open_last]
    have p: "plan_item item steps = before @ [step\<lparr>rs_items := rs_items step @ [item]\<rparr>]"
      using False c by (auto simp: plan_item_def lane_safe_def split: option.splits)
    have "planned_items (plan_item item steps) = planned_items steps @ [item]"
      using c' by (simp add: p planned_items_def step_items_def)
    then show ?thesis using eff set c' by (simp add: steps_inv_def p open_lanes_def)
  next
    case True
    obtain before step where c: "current_step False steps = (before, step)" by (cases "current_step False steps")
    note c' = current_step [OF c open_last]
    obtain indexes lanes where a: "add_to_lane item (rs_laneIndexes step, rs_lanes step) = (indexes, lanes)"
      by (cases "add_to_lane item (rs_laneIndexes step, rs_lanes step)")
    have p: "plan_item item steps = before @ [step\<lparr>rs_lanes := lanes, rs_laneIndexes := indexes\<rparr>]"
      using True c a by (auto simp: plan_item_def lane_safe_def split: option.splits)
    have lanes: "lanes_inv (rs_laneIndexes step) (rs_lanes step)" "\<forall>x\<in>set (concat (rs_lanes step)). lane_safe x"
      using c' by (auto simp: open_lanes_def)
    have old: "planned_items steps = planned_items before @ concat (rs_lanes step)" using c' by (simp add: step_items_def)
    then have sub: "set (concat (rs_lanes step)) \<subseteq> set src" using set by auto
    then have "\<forall>y\<in>set (concat (rs_lanes step)). address_order y item" using order by blast
    note added = add_to_lane_inv [OF lanes(1) this a]
    obtain xs ys where xy: "concat (rs_lanes step) = xs @ ys" "concat lanes = xs @ [item] @ ys" "\<forall>y\<in>set ys. table_of y \<noteq> table_of item"
      using added(2) by blast
    have comm: "\<forall>y\<in>set ys. commutes f item y"
    proof
      fix y assume y: "y \<in> set ys"
      then have y': "y \<in> set (concat (rs_lanes step))" using xy(1) by simp
      then have "lane_safe y" "y \<in> set (src @ [item])" using lanes(2) sub by auto
      with indep True xy(3) y show "commutes f item y" by (auto simp: tables_independent_def)
    qed
    have new: "planned_items (plan_item item steps) = (planned_items before @ xs) @ [item] @ ys"
      using c' by (simp add: p planned_items_def step_items_def xy(2))
    have "fold f (planned_items (plan_item item steps)) s = fold f (src @ [item]) s" for s
      unfolding new fold_move [OF comm] using eff [of s] by (simp add: old xy(1))
    moreover have "set (planned_items (plan_item item steps)) = set (src @ [item])"
      using set by (auto simp: new old xy(1))
    moreover have "open_lanes (last (plan_item item steps))"
      using added(1) lanes(2) True by (auto simp: p open_lanes_def xy simp del: set_concat)
    ultimately show ?thesis by (simp add: steps_inv_def)
  qed
qed

section \<open>The items of a batch\<close>

definition queued_item :: "resolution \<Rightarrow> nat \<Rightarrow> nat \<Rightarrow> Change \<Rightarrow> queuedChange" where
  "queued_item relations ti ci c = \<lparr>rbc_transactionIndex = ti, rbc_changeIndex = ci, rbc_change = c,
     rbc_relation = map_option snd (relations (ch_RelationOID c)),
     rbc_address = (case relations (ch_RelationOID c) of Some (a, _) \<Rightarrow> a | None \<Rightarrow> 0)\<rparr>"

fun change_items :: "resolution \<Rightarrow> nat \<Rightarrow> nat \<Rightarrow> Change list \<Rightarrow> queuedChange list" where
  "change_items relations ti ci [] = []"
| "change_items relations ti ci (c # cs) = queued_item relations ti ci c # change_items relations ti (Suc ci) cs"

fun batch_items :: "resolution list \<Rightarrow> nat \<Rightarrow> Transaction list \<Rightarrow> queuedChange list" where
  "batch_items relations ti [] = []"
| "batch_items relations ti (tx # txs) = change_items (relations ! ti) ti 0 (tx_Changes tx) @ batch_items relations (Suc ti) txs"

lemma change_items_changes: "map rbc_change (change_items relations ti ci cs) = cs"
  by (induction cs arbitrary: ci) (auto simp: queued_item_def)

lemma batch_items_changes: "map rbc_change (batch_items relations ti txs) = concat (map tx_Changes txs)"
  by (induction txs arbitrary: ti) (auto simp: change_items_changes)

lemma batch_plan_changes_inv:
  assumes "steps_inv f steps src" "batch_plan_changes relations ti ci cs steps = Inr steps'"
    "sorted_wrt address_order (src @ change_items relations ti ci cs)" "tables_independent f (src @ change_items relations ti ci cs)"
  shows "steps_inv f steps' (src @ change_items relations ti ci cs)"
  using assms
proof (induction relations ti ci cs steps arbitrary: src rule: batch_plan_changes.induct)
  case (2 relations ti ci c cs steps)
  obtain a r where r: "relations (ch_RelationOID c) = Some (a, r)" using "2.prems"(2) by (auto split: option.splits)
  have item: "queued_item relations ti ci c = \<lparr>rbc_transactionIndex = ti, rbc_changeIndex = ci, rbc_change = c, rbc_relation = Some r, rbc_address = a\<rparr>"
    by (simp add: queued_item_def r)
  have "steps_inv f (plan_item (queued_item relations ti ci c) steps) (src @ [queued_item relations ti ci c])"
    using "2.prems" by (intro plan_item_inv) (auto simp: sorted_wrt_append tables_independent_def)
  from "2.IH" [OF r refl this [unfolded item]] "2.prems"(2-4) r item show ?case by simp
qed simp

lemma batch_plan_transactions_inv:
  assumes "steps_inv f steps src" "batch_plan_transactions relations ti txs steps = Inr steps'"
    "sorted_wrt address_order (src @ batch_items relations ti txs)" "tables_independent f (src @ batch_items relations ti txs)"
  shows "steps_inv f steps' (src @ batch_items relations ti txs)"
  using assms
proof (induction txs arbitrary: ti steps src)
  case (Cons tx txs)
  obtain s1 where s1: "batch_plan_changes (relations ! ti) ti 0 (tx_Changes tx) steps = Inr s1" "batch_plan_transactions relations (Suc ti) txs s1 = Inr steps'"
    using Cons.prems(2) by (auto simp: rbind_eq_Inr)
  have "steps_inv f s1 (src @ change_items (relations ! ti) ti 0 (tx_Changes tx))"
    by (rule batch_plan_changes_inv [OF Cons.prems(1) s1(1)])
      (use Cons.prems(3,4) in \<open>auto simp: sorted_wrt_append tables_independent_def\<close>)
  from Cons.IH [OF this s1(2)] Cons.prems(3,4) show ?case by simp
qed simp

section \<open>Addresses of the target relation cache\<close>

text \<open>
  \<open>cache_inv seen cache\<close>: \<open>seen\<close> holds the addresses handed out so far, with their tables; the cache
  holds the newest one of each table.
\<close>

definition cache_inv :: "(nat \<times> u32) set \<Rightarrow> targetRelationCache \<Rightarrow> bool" where
  "cache_inv seen cache \<longleftrightarrow> (\<forall>(a, oid)\<in>seen. a < tc_loads cache \<and> (\<exists>b r. tc_relations cache oid = Some (b, r) \<and> a \<le> b)) \<and>
     (\<forall>a oid oid'. (a, oid) \<in> seen \<and> (a, oid') \<in> seen \<longrightarrow> oid = oid') \<and>
     (\<forall>oid a r. tc_relations cache oid = Some (a, r) \<longrightarrow> (a, oid) \<in> seen \<and> rel_OID (tr_source r) = oid)"

lemma cache_inv_new: "cache_inv {} newTargetRelationCache"
  by (simp add: cache_inv_def newTargetRelationCache_def)

lemma resolve_inv:
  assumes inv: "cache_inv seen cache" and run: "resolve loader cache source = Inr ((a, r), cache')"
  shows "cache_inv (insert (a, rel_OID source) seen) cache' \<and> rel_OID (tr_source r) = rel_OID source \<and>
    (\<forall>b. (b, rel_OID source) \<in> seen \<longrightarrow> b \<le> a)"
proof -
  have seen: "a < tc_loads cache \<and> (\<exists>b r. tc_relations cache oid = Some (b, r) \<and> a \<le> b)" if "(a, oid) \<in> seen" for a oid
    using inv that by (auto simp: cache_inv_def)
  have fn: "oid = oid'" if "(a, oid) \<in> seen" "(a, oid') \<in> seen" for a oid oid'
    using inv that by (auto simp: cache_inv_def)
  have cached: "(a, oid) \<in> seen \<and> rel_OID (tr_source r) = oid" if "tc_relations cache oid = Some (a, r)" for oid a r
    using inv that by (auto simp: cache_inv_def)
  consider (hit) "tc_relations cache (rel_OID source) = Some (a, r)" "cache' = cache"
    | (load) r0 where "a = tc_loads cache" "r = r0\<lparr>tr_source := source\<rparr>"
        "cache' = \<lparr>tc_relations = (tc_relations cache)(rel_OID source \<mapsto> (a, r)), tc_loads = Suc (tc_loads cache)\<rparr>"
  proof (cases "\<exists>b x. tc_relations cache (rel_OID source) = Some (b, x) \<and> sameRelationDefinition (tr_source x) source")
    case True
    then obtain b x where "tc_relations cache (rel_OID source) = Some (b, x)" "sameRelationDefinition (tr_source x) source" by blast
    with run show thesis by (intro hit) (simp_all add: resolve_def Let_def)
  next
    case False
    then have "rbind (loader (tc_loads cache) source) (\<lambda>relation. let entry = (tc_loads cache, relation\<lparr>tr_source := source\<rparr>) in
        Inr (entry, \<lparr>tc_relations = (tc_relations cache)(rel_OID source \<mapsto> entry), tc_loads = Suc (tc_loads cache)\<rparr>)) = Inr ((a, r), cache')"
      using run unfolding resolve_def Let_def by (cases "tc_relations cache (rel_OID source)") auto
    then show thesis by (cases "loader (tc_loads cache) source") (use load in \<open>auto simp: Let_def\<close>)
  qed
  then show ?thesis
  proof cases
    case hit
    have "insert (a, rel_OID source) seen = seen" using cached [OF hit(1)] by auto
    then have "cache_inv (insert (a, rel_OID source) seen) cache'" using inv hit(2) by simp
    moreover have "b \<le> a" if "(b, rel_OID source) \<in> seen" for b using seen [OF that] hit(1) by auto
    moreover have "rel_OID (tr_source r) = rel_OID source" using cached [OF hit(1)] by blast
    ultimately show ?thesis by blast
  next
    case load
    have "cache_inv (insert (a, rel_OID source) seen) cache'"
      unfolding cache_inv_def
    proof (intro conjI ballI allI impI)
      fix x assume x: "x \<in> insert (a, rel_OID source) seen"
      show "case x of (a, oid) \<Rightarrow> a < tc_loads cache' \<and> (\<exists>b r. tc_relations cache' oid = Some (b, r) \<and> a \<le> b)"
        using x load seen by (fastforce simp: less_Suc_eq dest: less_imp_le)
    next
      fix b oid oid' assume "(b, oid) \<in> insert (a, rel_OID source) seen \<and> (b, oid') \<in> insert (a, rel_OID source) seen"
      then show "oid = oid'" using fn [of b oid oid'] seen [of b] load(1) by auto
    next
      fix oid b r' assume "tc_relations cache' oid = Some (b, r')"
      then show "(b, oid) \<in> insert (a, rel_OID source) seen" using load cached [of oid b r'] by (auto split: if_splits)
    next
      fix oid b r' assume "tc_relations cache' oid = Some (b, r')"
      then show "rel_OID (tr_source r') = oid" using load cached [of oid b r'] by (auto split: if_splits)
    qed
    moreover have "b \<le> a" if "(b, rel_OID source) \<in> seen" for b using seen [OF that] load(1) by simp
    ultimately show ?thesis using load by simp
  qed
qed

text \<open>\<open>resolved_inv old seen relations\<close>: the entries of \<open>relations\<close> are in \<open>seen\<close> and none is older than those in \<open>old\<close>.\<close>

definition resolved_inv :: "(nat \<times> u32) set \<Rightarrow> (nat \<times> u32) set \<Rightarrow> resolution \<Rightarrow> bool" where
  "resolved_inv old seen relations \<longleftrightarrow> (\<forall>oid a r. relations oid = Some (a, r) \<longrightarrow>
     (a, oid) \<in> seen \<and> (\<forall>b. (b, oid) \<in> old \<longrightarrow> b \<le> a))"

lemma resolved_inv_mono: "resolved_inv old seen relations \<Longrightarrow> seen \<subseteq> seen' \<Longrightarrow> old' \<subseteq> old \<Longrightarrow> resolved_inv old' seen' relations"
  by (fastforce simp: resolved_inv_def)

lemma resolve_relations_inv:
  assumes "cache_inv seen cache" "old \<subseteq> seen" "resolved_inv old seen relations"
    "resolve_relations loader cache sources relations = Inr (relations', cache')"
  shows "\<exists>seen'. seen \<subseteq> seen' \<and> cache_inv seen' cache' \<and> resolved_inv old seen' relations'"
  using assms
proof (induction sources arbitrary: seen cache relations)
  case Nil
  then show ?case by auto
next
  case (Cons source sources)
  obtain a r cache1 where r: "resolve loader cache source = Inr ((a, r), cache1)"
      "resolve_relations loader cache1 sources (relations(rel_OID (tr_source r) \<mapsto> (a, r))) = Inr (relations', cache')"
    using Cons.prems(4) by (auto simp: rbind_eq_Inr)
  note inv = resolve_inv [OF Cons.prems(1) r(1)]
  let ?seen = "insert (a, rel_OID source) seen"
  have "resolved_inv old ?seen (relations(rel_OID (tr_source r) \<mapsto> (a, r)))"
    using Cons.prems(2,3) inv by (auto simp: resolved_inv_def)
  from Cons.IH [OF _ _ this r(2)] inv Cons.prems(2) show ?case by blast
qed

fun resolutions_inv :: "(nat \<times> u32) set \<Rightarrow> resolution list \<Rightarrow> bool" where
  "resolutions_inv seen [] \<longleftrightarrow> True"
| "resolutions_inv seen (rels # rest) \<longleftrightarrow> (\<exists>seen'. seen \<subseteq> seen' \<and> resolved_inv seen seen' rels \<and>
     (\<forall>a oid oid'. (a, oid) \<in> seen' \<and> (a, oid') \<in> seen' \<longrightarrow> oid = oid') \<and> resolutions_inv seen' rest)"

lemma resolve_batch_inv:
  assumes "cache_inv seen cache" "resolve_batch loader cache txs = Inr (relations, cache')"
  shows "resolutions_inv seen relations \<and> length relations = length txs"
  using assms
proof (induction txs arbitrary: seen cache relations)
  case (Cons tx txs)
  obtain rels cache1 rest where r: "resolve_relations loader cache (tx_Relations tx) (\<lambda>_. None) = Inr (rels, cache1)"
      "resolve_batch loader cache1 txs = Inr (rest, cache')" "relations = rels # rest"
    using Cons.prems(2) by (auto simp: resolveTargetRelations_def rbind_eq_Inr)
  have "resolved_inv seen seen (\<lambda>_. None)" by (simp add: resolved_inv_def)
  from resolve_relations_inv [OF Cons.prems(1) order.refl this r(1)]
  obtain seen' where s: "seen \<subseteq> seen'" "cache_inv seen' cache1" "resolved_inv seen seen' rels" by blast
  have "\<forall>a oid oid'. (a, oid) \<in> seen' \<and> (a, oid') \<in> seen' \<longrightarrow> oid = oid'" using s(2) by (simp add: cache_inv_def)
  with Cons.IH [OF s(2) r(2)] s r(3) show ?case by auto
qed simp

lemma resolutions_at:
  assumes "resolutions_inv seen rels" "k < length rels"
  shows "\<exists>seen'. seen \<subseteq> seen' \<and> resolved_inv seen seen' (rels ! k) \<and>
    (\<forall>a oid oid'. (a, oid) \<in> seen' \<and> (a, oid') \<in> seen' \<longrightarrow> oid = oid')"
  using assms
proof (induction rels arbitrary: seen k)
  case (Cons y ys)
  then obtain s2 where s2: "seen \<subseteq> s2" "resolved_inv seen s2 y" "\<forall>a oid oid'. (a, oid) \<in> s2 \<and> (a, oid') \<in> s2 \<longrightarrow> oid = oid'" "resolutions_inv s2 ys"
    by auto
  show ?case
  proof (cases k)
    case 0
    then show ?thesis using s2 by auto
  next
    case (Suc k')
    then obtain s3 where "s2 \<subseteq> s3" "resolved_inv s2 s3 (ys ! k')" "\<forall>a oid oid'. (a, oid) \<in> s3 \<and> (a, oid') \<in> s3 \<longrightarrow> oid = oid'"
      using Cons.IH [OF s2(4), of k'] Cons.prems(2) by auto
    moreover have "resolved_inv seen s3 (ys ! k')" "seen \<subseteq> s3"
      using calculation(1,2) s2(1) resolved_inv_mono by blast+
    ultimately show ?thesis unfolding Suc nth_Cons_Suc by blast
  qed
qed simp

text \<open>Every later entry of a table is at least as new, and an address is of one table.\<close>

lemma resolutions_order:
  assumes "resolutions_inv seen rels" "i \<le> j" "j < length rels" "(rels ! i) o1 = Some (a, r)" "(rels ! j) o2 = Some (b, r')"
  shows "(o1 = o2 \<longrightarrow> a \<le> b) \<and> (a = b \<longrightarrow> o1 = o2)"
  using assms
proof (induction rels arbitrary: seen i j)
  case (Cons x xs)
  obtain seen' where s: "resolved_inv seen seen' x" "\<forall>a oid oid'. (a, oid) \<in> seen' \<and> (a, oid') \<in> seen' \<longrightarrow> oid = oid'"
      "resolutions_inv seen' xs"
    using Cons.prems(1) by auto
  show ?case
  proof (cases i)
    case (Suc i')
    then show ?thesis using Cons.IH [OF s(3), of i' "j - 1"] Cons.prems by auto
  next
    case 0
    then have a: "(a, o1) \<in> seen'" using Cons.prems(4) s(1) by (simp add: resolved_inv_def)
    show ?thesis
    proof (cases j)
      case j: 0
      then have "(b, o2) \<in> seen'" using Cons.prems(5) s(1) by (simp add: resolved_inv_def)
      then have "a = b \<longrightarrow> o1 = o2" using a s(2) by blast
      then show ?thesis using Cons.prems(4,5) 0 j by auto
    next
      case (Suc j')
      obtain seen'' where l: "seen' \<subseteq> seen''" "resolved_inv seen' seen'' (xs ! j')"
          "\<forall>a oid oid'. (a, oid) \<in> seen'' \<and> (a, oid') \<in> seen'' \<longrightarrow> oid = oid'"
        using resolutions_at [OF s(3), of j'] Cons.prems(3) Suc by auto
      have b: "(b, o2) \<in> seen''" "(c, o2) \<in> seen' \<Longrightarrow> c \<le> b" for c
        using l(2) Cons.prems(5) Suc by (auto simp: resolved_inv_def)
      have "a = b \<longrightarrow> o1 = o2" using a l(1,3) b(1) by blast
      then show ?thesis using b(2) a by blast
    qed
  qed
qed simp


section \<open>A batch\<close>

lemma batch_plan_changes_resolved:
  "batch_plan_changes relations ti ci cs steps = Inr steps' \<Longrightarrow> x \<in> set (change_items relations ti ci cs) \<Longrightarrow>
     \<exists>r. relations (table_of x) = Some (rbc_address x, r) \<and> rbc_relation x = Some r"
proof (induction relations ti ci cs steps rule: batch_plan_changes.induct)
  case (2 relations ti ci c cs steps)
  obtain a r where r: "relations (ch_RelationOID c) = Some (a, r)" using "2.prems"(1) by (auto split: option.splits)
  from "2.IH" [OF r refl] "2.prems" r show ?case by (auto simp: queued_item_def)
qed simp

lemma batch_resolved:
  assumes "batch_plan_transactions relations ti txs steps = Inr steps'" "x \<in> set (batch_items relations ti txs)"
  shows "\<exists>j r. ti \<le> j \<and> j < ti + length txs \<and> (relations ! j) (table_of x) = Some (rbc_address x, r) \<and> rbc_relation x = Some r"
  using assms
proof (induction txs arbitrary: ti steps)
  case (Cons tx txs)
  obtain s1 where s1: "batch_plan_changes (relations ! ti) ti 0 (tx_Changes tx) steps = Inr s1" "batch_plan_transactions relations (Suc ti) txs s1 = Inr steps'"
    using Cons.prems(1) by (auto simp: rbind_eq_Inr)
  show ?case
  proof (cases "x \<in> set (change_items (relations ! ti) ti 0 (tx_Changes tx))")
    case True
    then show ?thesis using batch_plan_changes_resolved [OF s1(1)] by (intro exI [of _ ti]) auto
  next
    case False
    then obtain j r where "Suc ti \<le> j" "j < Suc ti + length txs" "(relations ! j) (table_of x) = Some (rbc_address x, r)" "rbc_relation x = Some r"
      using Cons.IH [OF s1(2)] Cons.prems(2) by auto
    then show ?thesis by (intro exI [of _ j] exI [of _ r]) simp
  qed
qed simp

lemma entries_order:
  assumes "resolutions_inv seen relations" "i \<le> j" "j < length relations"
    "(relations ! i) (table_of x) = Some (rbc_address x, r)" "(relations ! j) (table_of y) = Some (rbc_address y, r')"
  shows "address_order x y"
  using resolutions_order [OF assms] by (simp add: address_order_def)

lemma batch_order:
  assumes "resolutions_inv seen relations" "ti + length txs \<le> length relations" "batch_plan_transactions relations ti txs steps = Inr steps'"
  shows "sorted_wrt address_order (batch_items relations ti txs)"
  using assms
proof (induction txs arbitrary: ti steps)
  case (Cons tx txs)
  obtain s1 where s1: "batch_plan_changes (relations ! ti) ti 0 (tx_Changes tx) steps = Inr s1" "batch_plan_transactions relations (Suc ti) txs s1 = Inr steps'"
    using Cons.prems(3) by (auto simp: rbind_eq_Inr)
  let ?items = "change_items (relations ! ti) ti 0 (tx_Changes tx)"
  have ti: "ti < length relations" using Cons.prems(2) by simp
  have one: "\<exists>r. (relations ! ti) (table_of x) = Some (rbc_address x, r)" if "x \<in> set ?items" for x
    using batch_plan_changes_resolved [OF s1(1) that] by blast
  have "address_order x y" if xy: "x \<in> set ?items" "y \<in> set ?items" for x y
    using one [OF xy(1)] one [OF xy(2)] entries_order [OF Cons.prems(1) order.refl ti] by blast
  then have "sorted_wrt address_order ?items" by (simp add: sorted_wrt_iff_nth_less)
  moreover have "address_order x y" if x: "x \<in> set ?items" and y: "y \<in> set (batch_items relations (Suc ti) txs)" for x y
  proof -
    obtain j r where j: "Suc ti \<le> j" "j < Suc ti + length txs" "(relations ! j) (table_of y) = Some (rbc_address y, r)"
      using batch_resolved [OF s1(2) y] by blast
    obtain r' where "(relations ! ti) (table_of x) = Some (rbc_address x, r')" using one [OF x] by blast
    from entries_order [OF Cons.prems(1) _ _ this j(3)] j(1,2) Cons.prems(2) show ?thesis by simp
  qed
  moreover have "sorted_wrt address_order (batch_items relations (Suc ti) txs)"
    by (rule Cons.IH [OF Cons.prems(1) _ s1(2)]) (use Cons.prems(2) in simp)
  ultimately show ?case by (auto simp: sorted_wrt_append)
qed simp

lemma batch_effect:
  assumes cache: "cache_inv seen cache" and res: "resolve_batch loader cache txs = Inr (relations, cache')"
    and run: "queueRelationBatchedChanges inspect relations txs q = Inr (Some q')"
    and indep: "tables_independent (\<lambda>x. f (rbc_change x)) (batch_items relations 0 txs)"
    and plain: "\<forall>x\<in>set (batch_items relations 0 txs). plain_item x"
  shows "fold f (queued_rows q') s = fold f (concat (map tx_Changes txs)) (fold f (queued_rows q) s)"
proof -
  obtain steps where steps: "batch_plan_transactions relations 0 txs [] = Inr steps" "rfold (queue_step inspect relations) steps q = Inr q'"
    using run by (auto simp: queueRelationBatchedChanges_def planRelationBatchedChanges_def rbind_eq_Inr split: if_splits option.splits)
  note rels = resolve_batch_inv [OF cache res]
  have "sorted_wrt address_order (batch_items relations 0 txs)"
    by (rule batch_order [OF _ _ steps(1)]) (use rels in auto)
  moreover have "steps_inv (\<lambda>x. f (rbc_change x)) [] []" by (simp add: steps_inv_def planned_items_def)
  ultimately have inv: "steps_inv (\<lambda>x. f (rbc_change x)) steps (batch_items relations 0 txs)"
    using batch_plan_transactions_inv [OF _ steps(1), of _ "[]"] indep by simp
  have "\<forall>x\<in>set (planned_items steps). plain_item x" using inv plain by (simp add: steps_inv_def)
  then have "extends True (map rbc_change (planned_items steps)) q q'"
    unfolding planned_items_def by (intro steps_extend [OF steps(2)]) simp
  then have "queued_rows q' = queued_rows q @ map rbc_change (planned_items steps)" by (simp add: extends_def)
  moreover have eff: "fold f (map rbc_change xs) t = fold (\<lambda>x. f (rbc_change x)) xs t" for xs t by (simp add: fold_map comp_def)
  have "fold f (map rbc_change (planned_items steps)) t = fold f (map rbc_change (batch_items relations 0 txs)) t" for t
    unfolding eff using inv by (simp add: steps_inv_def)
  ultimately show ?thesis by (simp add: batch_items_changes)
qed

lemma batch_sound:
  assumes "queueRelationBatchedChanges inspect relations txs [] = Inr (Some q)" "st \<in> set q"
  shows "sound st"
proof -
  obtain steps where "rfold (queue_step inspect relations) steps [] = Inr q"
    using assms(1) by (auto simp: queueRelationBatchedChanges_def rbind_eq_Inr split: option.splits)
  from steps_extend [OF this, of False] assms(2) show ?thesis by (auto simp: extends_def)
qed

section \<open>One transaction\<close>

lemma runs_by_run: "run \<in> set (runs_by share xs) \<Longrightarrow> \<exists>x ys. run = x # ys \<and> (\<forall>y\<in>set ys. share x y)"
  by (induction share xs rule: runs_by.induct) (auto dest: set_takeWhileD)

definition plain_relations :: "resolution \<Rightarrow> bool" where
  "plain_relations relations \<longleftrightarrow> (\<forall>oid a r. relations oid = Some (a, r) \<longrightarrow> plain r)"

lemma queue_run_extends:
  assumes "queue_run inspect relations (c # cs) q = Inr q'" "\<forall>d\<in>set cs. continues c d" "ok \<longrightarrow> plain_relations relations"
  shows "extends ok (c # cs) q q'"
proof -
  obtain a r where r: "relations (ch_RelationOID c) = Some (a, r)" using assms(1) by (auto simp: queue_run_def split: option.splits)
  then have plain: "ok \<longrightarrow> plain r" using assms(3) by (auto simp: plain_relations_def)
  have "cs = []" if "ch_Kind c = ChangeDelete" using assms(2) that by (cases cs) (auto simp: continues_def)
  moreover have "applyInserts r (c # cs) q = Inr q' \<or> applyUpdates inspect r (c # cs) q = Inr q' \<or>
      ch_Kind c = ChangeDelete \<and> applyDelete r c q = Inr q' \<or> applyTruncates relations (c # cs) q = Inr q'"
    using assms(1) r by (auto simp: queue_run_def split: if_splits)
  ultimately show ?thesis
    using queues_extends [OF inserts_queued plain] queues_extends [OF updates_queued plain]
      queues_extends [OF delete_queued plain] truncates_extends by blast
qed

lemma resident_extends:
  assumes "rfold (queue_run inspect relations) (runs_by continues cs) q = Inr q'" "ok \<longrightarrow> plain_relations relations"
  shows "extends ok cs q q'"
proof -
  have "extends ok (concat (map (\<lambda>run. run) (runs_by continues cs))) q q'"
    by (rule extends_rfold [OF _ assms(1)]) (use runs_by_run queue_run_extends assms(2) in blast)
  then show ?thesis by (simp add: concat_runs_by)
qed

text \<open>Only inserts and truncates wait.\<close>

definition waiting :: "Change list \<Rightarrow> bool" where
  "waiting pending \<longleftrightarrow> pending = [] \<or> ch_Kind (hd pending) = ChangeInsert \<or> ch_Kind (hd pending) = ChangeTruncate"

lemma spill_flush_extends:
  assumes "spill_flush relations pending q = Inr q'" "waiting pending" "ok \<longrightarrow> plain_relations relations"
  shows "extends ok pending q q'"
proof (cases pending)
  case Nil
  then show ?thesis using assms(1) by (simp add: spill_flush_def extends_refl)
next
  case (Cons c cs)
  consider (ins) a r where "relations (ch_RelationOID c) = Some (a, r)" "applyInserts r pending q = Inr q'"
    | (trunc) "applyTruncates relations pending q = Inr q'"
    using assms(1,2) Cons by (auto simp: spill_flush_def waiting_def split: if_splits option.splits)
  then show ?thesis
  proof cases
    case ins
    then show ?thesis using queues_extends [OF inserts_queued [OF ins(2)]] assms(3) by (auto simp: plain_relations_def)
  qed (rule truncates_extends)
qed

lemma spill_change_extends:
  assumes run: "spill_change relations c (pending, q) = Inr (pending', q')" and w: "waiting pending" and ok: "ok \<longrightarrow> plain_relations relations"
  shows "waiting pending' \<and> (\<exists>ds. extends ok ds q q' \<and> pending @ [c] = ds @ pending')"
proof -
  obtain a r where r: "relations (ch_RelationOID c) = Some (a, r)" using run by (auto simp: spill_change_def split: option.splits)
  have plain: "ok \<longrightarrow> plain r" using r ok by (auto simp: plain_relations_def)
  note flush = spill_flush_extends [OF _ w ok]
  have head: "waiting p1 \<and> (\<exists>ds. extends ok ds q q1 \<and> pending = ds @ p1) \<and> (p1 = [] \<or> \<not> b)"
    if "(if pending \<noteq> [] \<and> b then rbind (spill_flush relations pending q) (\<lambda>q. Inr ([], q)) else Inr (pending, q)) = Inr (p1, q1)" for b p1 q1
    using that flush w extends_refl [of ok q] by (auto simp: rbind_eq_Inr waiting_def split: if_splits)
  consider (ins) "ch_Kind c = ChangeInsert" | (trunc) "ch_Kind c = ChangeTruncate"
    | (one) q1 where "spill_flush relations pending q = Inr q1" "pending' = []" "applyUpdate r c q1 = Inr q' \<or> applyDelete r c q1 = Inr q'"
    using run r by (auto simp: spill_change_def rbind_eq_Inr split: if_splits)
  then show ?thesis
  proof cases
    case ins
    then obtain p1 q1 where p1: "(if pending \<noteq> [] \<and> (ch_Kind (hd pending) \<noteq> ChangeInsert \<or> ch_RelationOID (hd pending) \<noteq> ch_RelationOID c)
           then rbind (spill_flush relations pending q) (\<lambda>q. Inr ([], q)) else Inr (pending, q)) = Inr (p1, q1)"
        "(if length p1 + 1 \<ge> insertChunkRows (length (tr_columns r))
         then rbind (spill_flush relations (p1 @ [c]) q1) (\<lambda>q. Inr ([], q)) else Inr (p1 @ [c], q1)) = Inr (pending', q')"
      using run r by (auto simp: spill_change_def rbind_eq_Inr split del: if_split)
    note h = head [OF p1(1)]
    have w1: "waiting (p1 @ [c])" using h ins by (cases p1) (auto simp: waiting_def)
    consider (now) "spill_flush relations (p1 @ [c]) q1 = Inr q'" "pending' = []" | (later) "pending' = p1 @ [c]" "q' = q1"
      using p1(2) by (auto simp: rbind_eq_Inr split: if_splits)
    then show ?thesis
    proof cases
      case now
      from spill_flush_extends [OF now(1) w1 ok] h show ?thesis
        using extends_trans by (fastforce simp: now(2) waiting_def)
    qed (use h w1 in auto)
  next
    case trunc
    then obtain p1 where p1: "(if pending \<noteq> [] \<and> (ch_Kind (hd pending) \<noteq> ChangeTruncate \<or> \<not> sameTruncateOptions (hd pending) c)
           then rbind (spill_flush relations pending q) (\<lambda>q. Inr ([], q)) else Inr (pending, q)) = Inr (p1, q')" "pending' = p1 @ [c]"
      using run r by (auto simp: spill_change_def rbind_eq_Inr split del: if_split)
    from head [OF p1(1)] trunc p1(2) show ?thesis by (cases p1) (auto simp: waiting_def)
  next
    case one
    from one(3) have "extends ok [c] q1 q'"
      using queues_extends [OF update_queued plain] queues_extends [OF delete_queued plain] by blast
    with flush [OF one(1)] show ?thesis using extends_trans one(2) by (fastforce simp: waiting_def)
  qed
qed

lemma spilled_extends:
  assumes "applySpilledChanges relations (Inr cs) q = Inr q'" "ok \<longrightarrow> plain_relations relations"
  shows "extends ok cs q q'"
proof -
  have loop: "\<exists>ds. waiting p' \<and> extends ok ds q q1 \<and> p @ cs = ds @ p'"
    if "rfold (spill_change relations) cs (p, q) = Inr (p', q1)" "waiting p" for cs p q p' q1
    using that
  proof (induction cs arbitrary: p q)
    case Nil
    then show ?case using extends_refl [of ok q] by auto
  next
    case (Cons c cs)
    obtain p2 q2 where s: "spill_change relations c (p, q) = Inr (p2, q2)" "rfold (spill_change relations) cs (p2, q2) = Inr (p', q1)"
      using Cons.prems(1) by (auto simp: rbind_eq_Inr)
    from spill_change_extends [OF s(1) Cons.prems(2) assms(2)]
    obtain ds where ds: "waiting p2" "extends ok ds q q2" "p @ [c] = ds @ p2" by blast
    from Cons.IH [OF s(2) ds(1)] obtain es where es: "waiting p'" "extends ok es q2 q1" "p2 @ cs = es @ p'" by blast
    have "p @ c # cs = (ds @ es) @ p'" using ds(3) es(3) by (metis append.assoc append_Cons append_Nil)
    then show ?case using extends_trans [OF ds(2) es(2)] es(1) by blast
  qed
  obtain p q1 where l: "rfold (spill_change relations) cs ([], q) = Inr (p, q1)" "spill_flush relations p q1 = Inr q'"
    using assms(1) by (auto simp: applySpilledChanges_def rbind_eq_Inr)
  from loop [OF l(1)] obtain ds where "waiting p" "extends ok ds q q1" "cs = ds @ p" by (auto simp: waiting_def)
  then show ?thesis using extends_trans [OF _ spill_flush_extends [OF l(2) _ assms(2)]] by simp
qed

lemma transaction_extends:
  assumes "queueTransactionChanges inspect relations tx q = Inr q'" "ok \<longrightarrow> plain_relations relations"
  shows "\<exists>tx'. materializeChanges tx = Inr tx' \<and> extends ok (tx_Changes tx') q q'"
proof (cases "tx_Spill tx")
  case None
  then show ?thesis using assms resident_extends by (auto simp: queueTransactionChanges_def materializeChanges_def)
next
  case (Some spill)
  then obtain cs where cs: "spill_forEachChange spill = Inr cs" "applySpilledChanges relations (Inr cs) q = Inr q'"
    using assms(1) by (auto simp: queueTransactionChanges_def applySpilledChanges_def rbind_eq_Inr)
  then show ?thesis using Some spilled_extends [OF cs(2) assms(2)] by (simp add: materializeChanges_def)
qed

end
