(* ===== verification/ApplyCoalesce.thy ===== *)
theory ApplyCoalesce
  imports ApplyOrder
begin

text \<open>
  The coalescing of updates in a lane: an update that is left out is overwritten by a later one of
  the same row, and nothing between them touches that row.
\<close>

section \<open>Keys of items\<close>

definition item_key :: "queuedChange \<Rightarrow> bytes option" where
  "item_key x = (case rbc_relation x of None \<Rightarrow> None | Some r \<Rightarrow>
     (case coalescibleReplayPrimaryKey r (rbc_change x) of Inl _ \<Rightarrow> None | Inr key \<Rightarrow> key))"

definition whole_row :: "queuedChange \<Rightarrow> bool" where
  "whole_row x \<longleftrightarrow> (case rbc_relation x of None \<Rightarrow> False | Some r \<Rightarrow> supersedable r (rbc_change x) = Inr True)"

text \<open>An update of a whole row commutes with the changes of other rows and hides an earlier one of its row.\<close>

definition rows_independent :: "(queuedChange \<Rightarrow> 's \<Rightarrow> 's) \<Rightarrow> queuedChange list \<Rightarrow> bool" where
  "rows_independent f items \<longleftrightarrow> (\<forall>x\<in>set items. \<forall>y\<in>set items. \<forall>k l.
     whole_row x \<and> item_key x = Some k \<and> item_key y = Some l \<and> k \<noteq> l \<longrightarrow> commutes f x y)"

definition last_update_wins :: "(queuedChange \<Rightarrow> 's \<Rightarrow> 's) \<Rightarrow> queuedChange list \<Rightarrow> bool" where
  "last_update_wins f items \<longleftrightarrow> (\<forall>x\<in>set items. \<forall>y\<in>set items. \<forall>k s.
     item_key x = Some k \<and> item_key y = Some k \<and> whole_row x \<and> whole_row y \<longrightarrow> f y (f x s) = f y s)"

section \<open>The scan\<close>

definition kept_items :: "bool list \<Rightarrow> nat \<Rightarrow> nat list" where
  "kept_items keep i = filter (\<lambda>j. keep ! j) [0..<i]"

definition latest_inv :: "queuedChange list \<Rightarrow> nat \<Rightarrow> (bytes \<Rightarrow> nat option) \<Rightarrow> bool list \<Rightarrow> bool" where
  "latest_inv all i latest keep \<longleftrightarrow> (\<forall>k p. latest k = Some p \<longrightarrow>
     p < i \<and> keep ! p \<and> item_key (all ! p) = Some k \<and> whole_row (all ! p) \<and>
     (\<forall>j. p < j \<and> j < i \<longrightarrow> (\<exists>l. item_key (all ! j) = Some l \<and> l \<noteq> k)))"

definition scan_inv :: "(queuedChange \<Rightarrow> 's \<Rightarrow> 's) \<Rightarrow> queuedChange list \<Rightarrow> nat \<Rightarrow> (bytes \<Rightarrow> nat option) \<Rightarrow> bool list \<Rightarrow> bool" where
  "scan_inv f all i latest keep \<longleftrightarrow> length keep = length all \<and> i \<le> length all \<and>
     (\<forall>j. i \<le> j \<and> j < length all \<longrightarrow> keep ! j) \<and>
     (\<forall>s. fold f (map ((!) all) (kept_items keep i)) s = fold f (take i all) s) \<and> latest_inv all i latest keep"

lemma kept_items_Suc: "keep ! i \<Longrightarrow> kept_items keep (Suc i) = kept_items keep i @ [i]"
  by (simp add: kept_items_def)

lemma kept_items_split:
  assumes "p < i" "keep ! p"
  shows "kept_items keep i = kept_items keep p @ [p] @ filter (\<lambda>j. keep ! j) [Suc p..<i]"
proof -
  have "[0..<i] = [0..<p] @ [p] @ [Suc p..<i]"
    using assms(1) by (metis Suc_leI append_Cons append_Nil le_add_same_cancel1 less_imp_add_positive less_imp_le_nat upt_add_eq_append upt_conv_Cons zero_le)
  then show ?thesis using assms(2) by (simp add: kept_items_def)
qed

lemma kept_items_drop:
  assumes "p < i" "p < length keep"
  shows "kept_items (keep[p := False]) i = kept_items keep p @ filter (\<lambda>j. keep ! j) [Suc p..<i]"
proof -
  have "[0..<i] = [0..<p] @ [p] @ [Suc p..<i]"
    using assms(1) by (metis Suc_leI append_Cons append_Nil le_add_same_cancel1 less_imp_add_positive less_imp_le_nat upt_add_eq_append upt_conv_Cons zero_le)
  moreover have "filter (\<lambda>j. keep[p := False] ! j) [0..<p] = filter (\<lambda>j. keep ! j) [0..<p]"
    "filter (\<lambda>j. keep[p := False] ! j) [Suc p..<i] = filter (\<lambda>j. keep ! j) [Suc p..<i]"
    by (rule filter_cong; simp)+
  ultimately show ?thesis using assms by (simp add: kept_items_def)
qed

lemma coalesce_step:
  assumes inv: "scan_inv f all i latest keep" and i: "i < length all"
  shows "scan_inv f all (Suc i) (\<lambda>_. None) keep"
    and "item_key (all ! i) = Some k \<Longrightarrow> scan_inv f all (Suc i) (latest(k := None)) keep"
proof -
  have keep: "keep ! i" using inv i by (simp add: scan_inv_def)
  have eff: "fold f (map ((!) all) (kept_items keep (Suc i))) s = fold f (take (Suc i) all) s" for s
    using inv i by (simp add: scan_inv_def kept_items_Suc [OF keep] take_Suc_conv_app_nth)
  then show "scan_inv f all (Suc i) (\<lambda>_. None) keep"
    using inv i by (simp add: scan_inv_def latest_inv_def)
  assume key: "item_key (all ! i) = Some k"
  have latest: "latest_inv all i latest keep" using inv by (simp add: scan_inv_def)
  have "latest_inv all (Suc i) (latest(k := None)) keep"
    unfolding latest_inv_def
  proof (intro allI impI)
    fix l p assume l: "(latest(k := None)) l = Some p"
    then have "l \<noteq> k" "latest l = Some p" by (auto split: if_splits)
    with latest key show "p < Suc i \<and> keep ! p \<and> item_key (all ! p) = Some l \<and> whole_row (all ! p) \<and>
       (\<forall>j. p < j \<and> j < Suc i \<longrightarrow> (\<exists>k. item_key (all ! j) = Some k \<and> k \<noteq> l))"
      unfolding latest_inv_def by (metis less_Suc_eq)
  qed
  then show "scan_inv f all (Suc i) (latest(k := None)) keep"
    using inv i eff by (simp add: scan_inv_def)
qed

lemma scan_update:
  assumes inv: "scan_inv f all i latest keep" and i: "i < length all"
    and key: "item_key (all ! i) = Some k" and whole: "whole_row (all ! i)"
    and rows: "rows_independent f all" and wins: "last_update_wins f all"
    and keep': "keep' = (case latest k of Some p \<Rightarrow> keep[p := False] | None \<Rightarrow> keep)"
  shows "scan_inv f all (Suc i) (latest(k \<mapsto> i)) keep'"
proof -
  have old: "latest_inv all i latest keep" "length keep = length all" "\<forall>j. i \<le> j \<and> j < length all \<longrightarrow> keep ! j"
      "fold f (map ((!) all) (kept_items keep i)) s = fold f (take i all) s" for s
    using inv by (auto simp: scan_inv_def)
  have latest: "p < i \<and> keep ! p \<and> item_key (all ! p) = Some l \<and> whole_row (all ! p) \<and>
     (\<forall>j. p < j \<and> j < i \<longrightarrow> (\<exists>m. item_key (all ! j) = Some m \<and> m \<noteq> l))" if "latest l = Some p" for l p
    using old(1) that unfolding latest_inv_def by blast
  have upto: "keep' ! j \<longleftrightarrow> keep ! j \<and> latest k \<noteq> Some j" if "j < length all" for j
  proof (cases "latest k")
    case (Some p)
    then show ?thesis using that old(2) by (cases "j = p") (auto simp: keep')
  qed (simp add: keep')
  have ki: "keep' ! i" using upto [OF i] old(3) i latest [of k i] by auto
  have eff: "fold f (map ((!) all) (kept_items keep' (Suc i))) s = fold f (take (Suc i) all) s" for s
  proof (cases "latest k")
    case None
    then show ?thesis using ki old(4) i by (simp add: keep' kept_items_Suc take_Suc_conv_app_nth)
  next
    case (Some p)
    note p = latest [OF Some]
    have pl: "p < length keep" using p i old(2) by simp
    let ?ys = "map ((!) all) (filter (\<lambda>j. keep ! j) [Suc p..<i])" and ?xs = "map ((!) all) (kept_items keep p)"
    have comm: "\<forall>y\<in>set ?ys. commutes f (all ! p) y"
    proof
      fix y assume "y \<in> set ?ys"
      then obtain j where j: "p < j" "j < i" "y = all ! j" by (auto simp: Suc_le_eq)
      with p obtain m where m: "item_key y = Some m" "m \<noteq> k" by blast
      have "all ! p \<in> set all" "y \<in> set all" using p i j by auto
      with rows p m show "commutes f (all ! p) y" unfolding rows_independent_def by metis
    qed
    have hide: "f (all ! i) (f (all ! p) t) = f (all ! i) t" for t
      using wins p key whole i unfolding last_update_wins_def by (meson nth_mem order.strict_trans)
    have "fold f (map ((!) all) (kept_items keep' (Suc i))) s = fold f (?xs @ ?ys @ [all ! i]) s"
      using ki p pl by (simp add: kept_items_Suc) (simp add: keep' Some kept_items_drop)
    also have "\<dots> = fold f ((?xs @ ?ys @ [all ! p]) @ [all ! i]) s" by (simp add: hide)
    also have "\<dots> = fold f ((?xs @ [all ! p] @ ?ys) @ [all ! i]) s"
      unfolding fold_append comp_apply fold_move [OF comm, unfolded fold_append comp_apply] ..
    also have "\<dots> = fold f (map ((!) all) (kept_items keep i) @ [all ! i]) s"
      using kept_items_split [of p i keep] p by simp
    also have "\<dots> = fold f (take (Suc i) all) s" using old(4) i by (simp add: take_Suc_conv_app_nth)
    finally show ?thesis .
  qed
  have "latest_inv all (Suc i) (latest(k \<mapsto> i)) keep'"
    unfolding latest_inv_def
  proof (intro allI impI)
    fix l p assume l: "(latest(k \<mapsto> i)) l = Some p"
    show "p < Suc i \<and> keep' ! p \<and> item_key (all ! p) = Some l \<and> whole_row (all ! p) \<and>
       (\<forall>j. p < j \<and> j < Suc i \<longrightarrow> (\<exists>m. item_key (all ! j) = Some m \<and> m \<noteq> l))"
    proof (cases "l = k")
      case True
      then show ?thesis using l ki key whole by auto
    next
      case False
      then have lp: "latest l = Some p" using l by simp
      note p = latest [OF lp]
      have "latest k \<noteq> Some p" using p latest [of k p] False by auto
      then have "keep' ! p" using upto [of p] p i by auto
      moreover have "\<exists>m. item_key (all ! j) = Some m \<and> m \<noteq> l" if "p < j" "j < Suc i" for j
        using that p key False by (cases "j = i") auto
      ultimately show ?thesis using p by auto
    qed
  qed
  moreover have "\<forall>j. Suc i \<le> j \<and> j < length all \<longrightarrow> keep' ! j"
    using upto old(3) latest [of k] by fastforce
  ultimately show ?thesis using eff i old(2) by (auto simp: scan_inv_def keep' split: option.splits)
qed

lemma coalesce_scan_inv:
  assumes "coalesce_scan i items latest keep = Inr keep'" "items = drop i all" "scan_inv f all i latest keep"
    "rows_independent f all" "last_update_wins f all"
  shows "\<exists>latest'. scan_inv f all (length all) latest' keep'"
  using assms
proof (induction i items latest keep rule: coalesce_scan.induct)
  case (1 i latest keep)
  then have "i = length all" by (simp add: scan_inv_def)
  then show ?case using 1 by auto
next
  case (2 i item items latest keep)
  have i: "i < length all" "item = all ! i" "items = drop (Suc i) all"
    using "2.prems"(2) by (metis drop_all leI list.distinct(1)) (metis "2.prems"(2) nth_via_drop, metis "2.prems"(2) drop_Suc list.sel(3) tl_drop)
  obtain r where r: "rbc_relation item = Some r" using "2.prems"(1) by (auto split: option.splits)
  obtain key where key: "coalescibleReplayPrimaryKey r (rbc_change item) = Inr key"
    using "2.prems"(1) r by (auto simp: rbind_eq_Inr)
  show ?case
  proof (cases key)
    case None
    have run: "coalesce_scan (Suc i) items (\<lambda>_. None) keep = Inr keep'" using "2.prems"(1) r key None by simp
    from "2.IH"(1) [OF r run i(3) coalesce_step(1) [OF "2.prems"(3) i(1)] "2.prems"(4,5)] show ?thesis .
  next
    case (Some k)
    then have ik: "item_key (all ! i) = Some k" using r key i(2) by (simp add: item_key_def)
    obtain up where up: "supersedable r (rbc_change item) = Inr up" using "2.prems"(1) r key Some by (auto simp: rbind_eq_Inr)
    show ?thesis
    proof (cases up)
      case False
      have run: "coalesce_scan (Suc i) items (latest(k := None)) keep = Inr keep'" using "2.prems"(1) r key Some up False by simp
      have f: "\<not> up" using False by simp
      from "2.IH"(2) [OF r f run i(3) coalesce_step(2) [OF "2.prems"(3) i(1) ik] "2.prems"(4,5)] show ?thesis .
    next
      case True
      let ?keep = "case latest k of Some previous \<Rightarrow> keep[previous := False] | None \<Rightarrow> keep"
      have run: "coalesce_scan (Suc i) items (latest(k \<mapsto> i)) ?keep = Inr keep'" using "2.prems"(1) r key Some up True by simp
      have whole: "whole_row (all ! i)" using r up True i(2) by (simp add: whole_row_def)
      have f: "\<not> \<not> up" using True by simp
      from "2.IH"(3) [OF r f run i(3) scan_update [OF "2.prems"(3) i(1) ik whole "2.prems"(4,5) refl] "2.prems"(4,5)] show ?thesis .
    qed
  qed
qed

lemma coalesce_effect:
  assumes "coalesceReplayLaneUpdates items = Inr items'" "rows_independent f items" "last_update_wins f items"
  shows "fold f items' s = fold f items s \<and> subseq items' items"
proof (cases "length items < 2")
  case True
  then show ?thesis using assms(1) by (simp add: coalesceReplayLaneUpdates_def)
next
  case False
  then obtain keep where keep: "coalesce_scan 0 items (\<lambda>_. None) (replicate (length items) True) = Inr keep"
      "items' = map fst (filter snd (zip items keep))"
    using assms(1) by (auto simp: coalesceReplayLaneUpdates_def rbind_eq_Inr)
  have "scan_inv f items 0 (\<lambda>_. None) (replicate (length items) True)"
    by (simp add: scan_inv_def kept_items_def latest_inv_def)
  from coalesce_scan_inv [OF keep(1) _ this assms(2,3)]
  obtain latest where inv: "scan_inv f items (length items) latest keep" by auto
  then have len: "length keep = length items" by (simp add: scan_inv_def)
  have "zip items keep = map (\<lambda>j. (items ! j, keep ! j)) [0..<length items]"
    by (rule nth_equalityI) (auto simp: len)
  then have items': "items' = map ((!) items) (kept_items keep (length items))"
    by (simp add: keep(2) kept_items_def filter_map comp_def)
  moreover have "subseq (map ((!) items) (kept_items keep (length items))) (map ((!) items) [0..<length items])"
    unfolding kept_items_def by (intro subseq_map subseq_filter_left)
  ultimately show ?thesis using inv by (simp add: scan_inv_def map_nth)
qed

section \<open>The lane\<close>

lemma subseq_set: "subseq xs ys \<Longrightarrow> set xs \<subseteq> set ys"
  by (induction rule: list_emb.induct) auto

lemma subseq_sorted_wrt: "subseq xs ys \<Longrightarrow> sorted_wrt P ys \<Longrightarrow> sorted_wrt P xs"
  by (induction rule: list_emb.induct) (auto dest: subseq_set)

lemma grouped_effect:
  assumes "sorted_wrt address_order (src @ items)"
    and "\<forall>x\<in>set (src @ items). \<forall>y\<in>set (src @ items). table_of x \<noteq> table_of y \<longrightarrow> commutes f x y"
    and "lanes_inv indexes lanes" "\<And>s. fold f (concat lanes) s = fold f src s" "set (concat lanes) = set src"
    and "fold add_to_lane items (indexes, lanes) = (indexes', lanes')"
  shows "fold f (concat lanes') s = fold f (src @ items) s \<and> set (concat lanes') = set (src @ items)"
  using assms
proof (induction items arbitrary: src indexes lanes s)
  case Nil
  then show ?case by simp
next
  case (Cons x xs)
  obtain indexes1 lanes1 where a: "add_to_lane x (indexes, lanes) = (indexes1, lanes1)" by (cases "add_to_lane x (indexes, lanes)")
  have "\<forall>y\<in>set (concat lanes). address_order y x" unfolding Cons.prems(5) using Cons.prems(1) by (auto simp: sorted_wrt_append)
  note added = add_to_lane_inv [OF Cons.prems(3) this a]
  obtain as bs where ab: "concat lanes = as @ bs" "concat lanes1 = as @ [x] @ bs" "\<forall>y\<in>set bs. table_of y \<noteq> table_of x"
    using added(2) by blast
  have "set bs \<subseteq> set src" using ab(1) Cons.prems(5) by auto
  have comm: "\<forall>y\<in>set bs. commutes f x y"
  proof
    fix y assume y: "y \<in> set bs"
    then have "y \<in> set (src @ x # xs)" "table_of x \<noteq> table_of y" using \<open>set bs \<subseteq> set src\<close> ab(3) by auto
    moreover have "x \<in> set (src @ x # xs)" by simp
    ultimately show "commutes f x y" using Cons.prems(2) by blast
  qed
  have eff: "fold f (concat lanes1) t = fold f (src @ [x]) t" for t
    unfolding ab(2) fold_move [OF comm] using Cons.prems(4) [of t] by (simp add: ab(1))
  have "set (concat lanes1) = set (src @ [x])" using Cons.prems(5) by (auto simp: ab simp del: set_concat)
  from Cons.IH [OF _ _ added(1) eff this] Cons.prems(1,2,6) a show ?case by simp
qed

lemma parallel_effect:
  assumes run: "queueParallelReplayLane inspect items q = Inr q'" and order: "sorted_wrt address_order items"
    and tables: "\<forall>x\<in>set items. \<forall>y\<in>set items. table_of x \<noteq> table_of y \<longrightarrow> commutes (\<lambda>x. f (rbc_change x)) x y"
    and rows: "rows_independent (\<lambda>x. f (rbc_change x)) items" and wins: "last_update_wins (\<lambda>x. f (rbc_change x)) items"
    and plain: "\<forall>x\<in>set items. plain_item x"
  shows "fold f (queued_rows q') s = fold f (map rbc_change items) (fold f (queued_rows q) s)"
proof -
  let ?f = "\<lambda>x. f (rbc_change x)"
  obtain items' where c: "coalesceReplayLaneUpdates items = Inr items'"
      "rfold (queueRelationReplayLane inspect) (snd (fold add_to_lane items' (\<lambda>_. None, []))) q = Inr q'"
    using run by (auto simp: queueParallelReplayLane_def rbind_eq_Inr)
  have co: "fold ?f items' t = fold ?f items t" "subseq items' items" for t
    using coalesce_effect [OF c(1) rows wins] by auto
  have sub: "set items' \<subseteq> set items" using co(2) by (rule subseq_set)
  obtain indexes lanes where l: "fold add_to_lane items' (\<lambda>_. None, []) = (indexes, lanes)" by (cases "fold add_to_lane items' (\<lambda>_. None, [])")
  have "sorted_wrt address_order items'" using co(2) order by (rule subseq_sorted_wrt)
  then have g: "fold ?f (concat lanes) t = fold ?f items' t" "set (concat lanes) = set items'" for t
    using grouped_effect [of "[]" items' ?f "\<lambda>_. None" "[]" indexes lanes t] tables sub l lanes_inv_empty by auto
  have "extends True (map rbc_change (concat lanes)) q q'"
    using c(2) l g(2) plain sub by (intro lanes_extend) auto
  then have rows: "queued_rows q' = queued_rows q @ map rbc_change (concat lanes)" by (simp add: extends_def)
  have eff: "fold f (map rbc_change xs) t = fold ?f xs t" for xs t by (simp add: fold_map comp_def)
  show ?thesis unfolding rows fold_append comp_apply eff g(1) co(1) ..
qed

text \<open>The items of a lane are some of the batch, in its order.\<close>

lemma resolved_item:
  assumes "x \<in> set (batch_items relations ti txs)" "rbc_relation x \<noteq> None"
  shows "\<exists>j r. ti \<le> j \<and> j < ti + length txs \<and> (relations ! j) (table_of x) = Some (rbc_address x, r)"
  using assms
proof (induction txs arbitrary: ti)
  case (Cons tx txs)
  have one: "\<exists>r. rels (table_of x) = Some (rbc_address x, r)" if "x \<in> set (change_items rels ti ci cs)" for rels ci cs
    using that Cons.prems(2) by (induction cs arbitrary: ci) (auto simp: queued_item_def split: option.splits)
  show ?case
  proof (cases "x \<in> set (batch_items relations (Suc ti) txs)")
    case True
    from Cons.IH [OF this Cons.prems(2)] obtain j r where "Suc ti \<le> j" "j < Suc ti + length txs"
        "(relations ! j) (table_of x) = Some (rbc_address x, r)" by blast
    then show ?thesis by (intro exI [of _ j] exI [of _ r]) simp
  next
    case False
    then have "x \<in> set (change_items (relations ! ti) ti 0 (tx_Changes tx))" using Cons.prems(1) by simp
    from one [OF this] obtain r where "(relations ! ti) (table_of x) = Some (rbc_address x, r)" by blast
    then show ?thesis by (intro exI [of _ ti] exI [of _ r]) simp
  qed
qed simp

lemma sorted_wrt_total: "(\<And>x y. x \<in> set xs \<Longrightarrow> y \<in> set xs \<Longrightarrow> P x y) \<Longrightarrow> sorted_wrt P xs"
  by (induction xs) auto

lemma resolved_items_order:
  assumes "resolutions_inv seen relations" "ti + length txs \<le> length relations"
  shows "sorted_wrt address_order (filter (\<lambda>x. rbc_relation x \<noteq> None) (batch_items relations ti txs))"
  using assms
proof (induction txs arbitrary: ti)
  case (Cons tx txs)
  let ?P = "\<lambda>x :: queuedChange. rbc_relation x \<noteq> None"
  let ?items = "change_items (relations ! ti) ti 0 (tx_Changes tx)"
  have ti: "ti < length relations" using Cons.prems(2) by simp
  have one: "\<exists>r. (relations ! ti) (table_of x) = Some (rbc_address x, r)" if "x \<in> set (filter ?P ?items)" for x
    using that resolved_item [of x relations ti "[tx]"] by (auto simp: le_Suc_eq less_Suc_eq_le)
  have "address_order x y" if xy: "x \<in> set (filter ?P ?items)" "y \<in> set (filter ?P ?items)" for x y
    using one [OF xy(1)] one [OF xy(2)] entries_order [OF Cons.prems(1) order.refl ti] by blast
  then have "sorted_wrt address_order (filter ?P ?items)" by (rule sorted_wrt_total)
  moreover have "address_order x y"
    if x: "x \<in> set (filter ?P ?items)" and y: "y \<in> set (filter ?P (batch_items relations (Suc ti) txs))" for x y
  proof -
    obtain j r where j: "Suc ti \<le> j" "j < Suc ti + length txs" "(relations ! j) (table_of y) = Some (rbc_address y, r)"
      using resolved_item [of y relations "Suc ti" txs] y by auto
    obtain r' where "(relations ! ti) (table_of x) = Some (rbc_address x, r')" using one [OF x] by blast
    from entries_order [OF Cons.prems(1) _ _ this j(3)] j(1,2) Cons.prems(2) show ?thesis by simp
  qed
  moreover have "sorted_wrt address_order (filter ?P (batch_items relations (Suc ti) txs))"
    by (rule Cons.IH [OF Cons.prems(1)]) (use Cons.prems(2) in simp)
  ultimately show ?case by (simp add: sorted_wrt_append)
qed simp

text \<open>The cache after any number of earlier transactions.\<close>

lemma resolved_cache_inv:
  assumes "cache_inv seen cache" "resolve_batch loader cache txs = Inr (relations, cache')"
  shows "\<exists>seen'. cache_inv seen' cache'"
  using assms
proof (induction txs arbitrary: seen cache relations)
  case (Cons tx txs)
  obtain rels cache1 rest where r: "resolve_relations loader cache (tx_Relations tx) (\<lambda>_. None) = Inr (rels, cache1)"
      "resolve_batch loader cache1 txs = Inr (rest, cache')"
    using Cons.prems(2) by (auto simp: rbind_eq_Inr resolveTargetRelations_def)
  have "resolved_inv seen seen (\<lambda>_. None)" by (simp add: resolved_inv_def)
  from resolve_relations_inv [OF Cons.prems(1) order.refl this r(1)] Cons.IH [OF _ r(2)] show ?case by blast
qed auto

lemma plain_batch_items:
  assumes "\<forall>rels\<in>set relations. plain_relations rels" "ti + length txs \<le> length relations" "x \<in> set (batch_items relations ti txs)"
  shows "plain_item x"
  using assms(2,3)
proof (induction txs arbitrary: ti)
  case (Cons tx txs)
  have "relations ! ti \<in> set relations" using Cons.prems(1) by simp
  then have "plain_relations (relations ! ti)" using assms(1) by blast
  then have "\<forall>y\<in>set (change_items (relations ! ti) ti ci cs). plain_item y" for ci cs
    by (induction cs arbitrary: ci) (auto simp: plain_item_def queued_item_def plain_relations_def split: option.splits)
  then show ?case using Cons.IH [of "Suc ti"] Cons.prems by auto
qed simp

lemma materialize_resident:
  "\<not> list_ex IsSpilled txs \<Longrightarrow> rmap materializeChanges txs = Inr txs"
  by (induction txs) (auto simp: materializeChanges_def IsSpilled_def)

lemma transactions_extend:
  assumes "rfold (\<lambda>(rels, tx). queueTransactionChanges inspect rels tx) (zip relations txs) q = Inr q'"
    and "\<forall>rels\<in>set relations. plain_relations rels" "length relations = length txs"
  shows "\<exists>txs'. rmap materializeChanges txs = Inr txs' \<and> extends True (concat (map tx_Changes txs')) q q'"
  using assms
proof (induction txs arbitrary: relations q)
  case (Cons tx txs)
  then obtain rels rest where r: "relations = rels # rest" by (cases relations) auto
  obtain q1 where q1: "queueTransactionChanges inspect rels tx q = Inr q1"
      "rfold (\<lambda>(rels, tx). queueTransactionChanges inspect rels tx) (zip rest txs) q1 = Inr q'"
    using Cons.prems(1) by (auto simp: r rbind_eq_Inr)
  obtain tx' where tx': "materializeChanges tx = Inr tx'" "extends True (tx_Changes tx') q q1"
    using transaction_extends [OF q1(1), of True] Cons.prems(2) r by auto
  obtain txs' where "rmap materializeChanges txs = Inr txs'" "extends True (concat (map tx_Changes txs')) q1 q'"
    using Cons.IH [OF q1(2)] Cons.prems(2,3) r by auto
  with tx' show ?case by (auto intro: extends_trans)
qed (simp add: extends_refl)

lemma queue_batch_effect:
  assumes cache: "cache_inv seen cache" and res: "resolve_batch loader cache txs = Inr (relations, cache')"
    and run: "queue_batch inspect relations txs q = Inr q'"
    and indep: "tables_independent (\<lambda>x. f (rbc_change x)) (batch_items relations 0 txs)"
    and plain: "\<forall>rels\<in>set relations. plain_relations rels"
  shows "\<exists>txs'. rmap materializeChanges txs = Inr txs' \<and>
    fold f (queued_rows q') s = fold f (concat (map tx_Changes txs')) (fold f (queued_rows q) s)"
proof -
  have len: "length relations = length txs" using resolve_batch_inv [OF cache res] by simp
  obtain r where r: "queueRelationBatchedChanges inspect relations txs q = Inr r" using run by (auto simp: queue_batch_def rbind_eq_Inr)
  show ?thesis
  proof (cases r)
    case None
    then have "rfold (\<lambda>(rels, tx). queueTransactionChanges inspect rels tx) (zip relations txs) q = Inr q'"
      using run r by (simp add: queue_batch_def)
    from transactions_extend [OF this plain len] show ?thesis by (auto simp: extends_def)
  next
    case (Some q1)
    then have q': "queueRelationBatchedChanges inspect relations txs q = Inr (Some q')" using run r by (simp add: queue_batch_def)
    then have "\<not> list_ex IsSpilled txs"
      by (auto simp: queueRelationBatchedChanges_def planRelationBatchedChanges_def split: if_splits)
    moreover have "\<forall>x\<in>set (batch_items relations 0 txs). plain_item x"
      using plain_batch_items [OF plain, of 0 txs] len by simp
    ultimately show ?thesis using batch_effect [OF cache res q' indep] materialize_resident by blast
  qed
qed

lemma lane_effect:
  assumes cache: "cache_inv seen cache" and res: "resolve_batch loader cache txs = Inr (relations, cache')"
    and run: "queueParallelReplayLane inspect (filter lane (batch_items relations 0 txs)) q = Inr q'"
    and resolved: "\<forall>x\<in>set (filter lane (batch_items relations 0 txs)). rbc_relation x \<noteq> None \<and> plain_item x"
    and tables: "\<forall>x\<in>set (filter lane (batch_items relations 0 txs)). \<forall>y\<in>set (filter lane (batch_items relations 0 txs)).
      table_of x \<noteq> table_of y \<longrightarrow> commutes (\<lambda>x. f (rbc_change x)) x y"
    and rows: "rows_independent (\<lambda>x. f (rbc_change x)) (filter lane (batch_items relations 0 txs))"
    and wins: "last_update_wins (\<lambda>x. f (rbc_change x)) (filter lane (batch_items relations 0 txs))"
  shows "fold f (queued_rows q') s = fold f (map rbc_change (filter lane (batch_items relations 0 txs))) (fold f (queued_rows q) s)"
proof (rule parallel_effect [OF run _ tables rows wins])
  let ?all = "batch_items relations 0 txs" and ?P = "\<lambda>x :: queuedChange. rbc_relation x \<noteq> None"
  have "filter lane ?all = filter lane (filter ?P ?all)"
    unfolding filter_filter by (rule filter_cong) (use resolved in auto)
  moreover have "sorted_wrt address_order (filter ?P ?all)"
    by (rule resolved_items_order) (use resolve_batch_inv [OF cache res] in auto)
  ultimately show "sorted_wrt address_order (filter lane ?all)"
    using subseq_sorted_wrt [OF subseq_filter_left] by metis
qed (use resolved in auto)

end
