(* ===== verification/ApplyProps.thy ===== *)
theory ApplyProps
  imports ApplyCoalesce ReplayKeys
begin

text \<open>
  What holds of the statements the applier queues. For plain relations (no selective updates, at least
  one column to write) they replay the source; for all relations each touches a row once; and the case in
  which a batch of selective updates rejects a transaction the source accepted.
\<close>

section \<open>An example target\<close>

text \<open>
  Two tables \<^verbatim>\<open>shop\<close> with different OIDs; a target is a map from the table and the key to the row.
  Inserts and updates put the new row at its key.
\<close>

definition lane_source :: "u32 \<Rightarrow> Relation" where
  "lane_source oid = shop_source\<lparr>rel_OID := oid\<rparr>"

definition lane_target :: targetRelation where
  "lane_target = shop_target\<lparr>tr_capabilities := (tr_capabilities shop_target)\<lparr>cap_selectiveUpdates := False\<rparr>\<rparr>"

definition lane_loader :: loader where
  "lane_loader n source = Inr (lane_target\<lparr>tr_source := source\<rparr>)"

definition lane_row :: "byte \<Rightarrow> byte \<Rightarrow> Tuple" where
  "lane_row k v = [\<lparr>dat_Kind = DatumText, dat_Data = Some [k]\<rparr>, \<lparr>dat_Kind = DatumText, dat_Data = Some [v]\<rparr>]"

definition lane_insert :: "u32 \<Rightarrow> byte \<Rightarrow> Change" where
  "lane_insert oid k = (shop_insert k)\<lparr>ch_RelationOID := oid\<rparr>"

definition lane_update :: "byte \<Rightarrow> byte \<Rightarrow> Change" where
  "lane_update k v = (shop_update k k)\<lparr>ch_Old := None, ch_New := Some (lane_row k v)\<rparr>"

definition lane_tx :: "Change list \<Rightarrow> Transaction" where
  "lane_tx changes = \<lparr>tx_CommitLSN = 256, tx_EndLSN = 264, tx_CommitTime = \<lparr>t_Unix = 1700000000, t_Nanosecond = 0\<rparr>,
     tx_Relations = [lane_source 16400, lane_source 16401], tx_Changes = changes, tx_Spill = None\<rparr>"

definition put_row :: "Change \<Rightarrow> (u32 \<times> bytes \<Rightarrow> Tuple option) \<Rightarrow> (u32 \<times> bytes \<Rightarrow> Tuple option)" where
  "put_row c s = (case ch_New c of None \<Rightarrow> s | Some t \<Rightarrow> s((ch_RelationOID c, dat_bytes (t ! 0)) \<mapsto> t))"

definition lane_entry :: "u32 \<Rightarrow> nat \<Rightarrow> nat \<times> targetRelation" where
  "lane_entry oid n = (n, lane_target\<lparr>tr_source := lane_source oid\<rparr>)"

definition lane_cache :: targetRelationCache where
  "lane_cache = \<lparr>tc_relations = [16400 \<mapsto> lane_entry 16400 0, 16401 \<mapsto> lane_entry 16401 1], tc_loads = 2\<rparr>"

definition lane_relations :: resolution where
  "lane_relations = [16400 \<mapsto> lane_entry 16400 0, 16401 \<mapsto> lane_entry 16401 1]"

lemma lane_resolve_new: "resolve_batch lane_loader newTargetRelationCache [lane_tx cs] = Inr ([lane_relations], lane_cache)"
  by (simp add: resolveTargetRelations_def resolve_def newTargetRelationCache_def lane_tx_def lane_loader_def Let_def
      lane_source_def lane_cache_def lane_entry_def lane_relations_def)

lemma lane_resolve: "resolve_batch lane_loader lane_cache [lane_tx cs] = Inr ([lane_relations], lane_cache)"
  by (simp add: resolveTargetRelations_def resolve_def lane_tx_def Let_def lane_source_def lane_cache_def
      lane_entry_def lane_relations_def sameRelationDefinition_def)

section \<open>Batched replay\<close>

text \<open>C36: A batch replays the source. The transactions of a batch are planned into steps, the changes
  grouped by relation into lanes, the lanes cut into statements; a batch with a spilled transaction is
  queued transaction by transaction, reading the spill files. Replaying the queued rows in their order
  leaves the target as replaying the changes of the transactions in commit order does. \<open>f\<close> is any effect
  of a change for which changes of different tables that may share a step commute; the cache may hold
  targets of earlier transactions and targets may be loaded again within the batch. The relations of
  the batch are \<open>plain\<close>: their updates are not selective and they have at least one column to write
  (an update of a selective relation is queued as an inspection, and then with only the columns that
  differ on the target, or not at all).\<close>

theorem batch_replay_equals_source:
  assumes "resolve_batch loader newTargetRelationCache earlier = Inr (old, cache)"
    and "resolve_batch loader cache txs = Inr (relations, cache')"
    and "queue_batch inspect relations txs [] = Inr q"
    and "tables_independent (\<lambda>x. f (rbc_change x)) (batch_items relations 0 txs)"
    and "\<forall>rels\<in>set relations. plain_relations rels"
  shows "\<exists>txs'. rmap materializeChanges txs = Inr txs' \<and>
    fold f (queued_rows q) s = fold f (concat (map tx_Changes txs')) s"
proof -
  obtain seen where "cache_inv seen cache" using resolved_cache_inv [OF cache_inv_new assms(1)] by blast
  from queue_batch_effect [OF this assms(2-5)] show ?thesis by simp
qed

definition lane_mixed :: "Transaction list" where
  "lane_mixed = [lane_tx [lane_insert 16400 49, lane_insert 16401 49, lane_insert 16400 50]]"

definition no_inspection :: inspection where
  "no_inspection q = Inl (Err ''no inspection'')"

lemma lane_item: "queued_item lane_relations ti ci (lane_insert 16400 k) = \<lparr>rbc_transactionIndex = ti, rbc_changeIndex = ci,
     rbc_change = lane_insert 16400 k, rbc_relation = Some (snd (lane_entry 16400 0)), rbc_address = 0\<rparr>"
  "queued_item lane_relations ti ci (lane_insert 16401 k) = \<lparr>rbc_transactionIndex = ti, rbc_changeIndex = ci,
     rbc_change = lane_insert 16401 k, rbc_relation = Some (snd (lane_entry 16401 1)), rbc_address = 1\<rparr>"
  by (simp_all add: queued_item_def lane_relations_def lane_entry_def lane_insert_def)

lemma lane_insert_rows:
  assumes "set ks \<subseteq> {49, 50}" "length ks \<le> 2" "ks \<noteq> []"
  shows "\<exists>st. applyInserts (lane_target\<lparr>tr_source := lane_source oid\<rparr>) (map (lane_insert oid) ks) q = Inr (q @ [st]) \<and>
    sm_rows st = map (lane_insert oid) ks"
  using assms
  by (cases ks rule: list.exhaust; simp; cases "tl ks" rule: list.exhaust)
    (auto simp: applyInserts_def applyInsertCopy_def applyArrayChunkRows_def chunks.simps insert_array_rows_def Let_def
      lane_target_def lane_source_def shop_target_def shop_source_def applyInsertTextStage_def minimumTextCopyStageRows_def
      applyInsertArrayChunk_def lane_insert_def shop_insert_def shop_row_def shop_id_def shop_note_def validateTuple_def
      tuple_at_def go_index_def in_range_def arrayParamForColumn_def datumParamForColumn_def statement_def)

lemma lane_kinds: "ch_Kind (lane_insert oid k) = ChangeInsert" "ch_RelationOID (lane_insert oid k) = oid"
  "cap_relationLane (tr_capabilities (snd (lane_entry oid n)))" "plain (snd (lane_entry oid n))"
  by (simp_all add: lane_insert_def shop_insert_def lane_entry_def lane_target_def shop_target_def plain_def)

lemma lane_new: "ch_New (lane_insert oid k) = Some (shop_row k)" "ch_New (lane_update k v) = Some (lane_row k v)"
  by (simp_all add: lane_insert_def shop_insert_def lane_update_def)

lemma lane_mixed_run:
  obtains q where "queueRelationBatchedChanges no_inspection [lane_relations] lane_mixed [] = Inr (Some q)"
    "queued_rows q = [lane_insert 16400 49, lane_insert 16400 50, lane_insert 16401 49]" "length q = 2"
proof -
  let ?i = "\<lambda>oid n ci k. \<lparr>rbc_transactionIndex = 0, rbc_changeIndex = ci, rbc_change = lane_insert oid k,
     rbc_relation = Some (snd (lane_entry oid n)), rbc_address = n\<rparr> :: queuedChange"
  have entries: "lane_relations 16400 = Some (0, snd (lane_entry 16400 0))" "lane_relations 16401 = Some (1, snd (lane_entry 16401 1))"
    by (simp_all add: lane_relations_def lane_entry_def)
  have plan: "planRelationBatchedChanges [lane_relations] lane_mixed = Inr (Some [\<lparr>rs_ordered = False, rs_items = [],
      rs_lanes = [[?i 16400 0 0 49, ?i 16400 0 2 50], [?i 16401 1 1 49]], rs_laneIndexes = [0 \<mapsto> 0, Suc 0 \<mapsto> 1]\<rparr>])"
    by (simp add: planRelationBatchedChanges_def lane_mixed_def lane_tx_def IsSpilled_def lane_kinds entries plan_item_def
        current_step_def empty_step_def add_to_lane_def)
  obtain s1 where s1: "applyInserts (snd (lane_entry 16400 0)) [lane_insert 16400 49, lane_insert 16400 50] [] = Inr [s1]"
      "sm_rows s1 = [lane_insert 16400 49, lane_insert 16400 50]"
    using lane_insert_rows [of "[49, 50]" 16400 "[]"] by (auto simp: lane_entry_def)
  obtain s2 where s2: "applyInserts (snd (lane_entry 16401 1)) [lane_insert 16401 49] [s1] = Inr [s1, s2]"
      "sm_rows s2 = [lane_insert 16401 49]"
    using lane_insert_rows [of "[49]" 16401 "[s1]"] by (auto simp: lane_entry_def)
  have "queueRelationBatchedChanges no_inspection [lane_relations] lane_mixed [] = Inr (Some [s1, s2])"
    using s1(1) s2(1) unfolding queueRelationBatchedChanges_def plan
    by (simp add: queue_step_def queueRelationReplayLane_def same_kind_def lane_kinds queueRelationReplayRun_def)
  then show ?thesis using that s1(2) s2(2) by (simp add: queued_rows_def)
qed

lemma put_row_commutes:
  "ch_New (rbc_change x) = Some t \<Longrightarrow> ch_New (rbc_change y) = Some u \<Longrightarrow>
     table_of x \<noteq> table_of y \<or> dat_bytes (t ! 0) \<noteq> dat_bytes (u ! 0) \<Longrightarrow> commutes (\<lambda>x. put_row (rbc_change x)) x y"
  by (auto simp: commutes_def put_row_def fun_upd_twist)

lemma put_row_independent: "\<forall>x\<in>set items. ch_New (rbc_change x) \<noteq> None \<Longrightarrow> tables_independent (\<lambda>x. put_row (rbc_change x)) items"
  unfolding tables_independent_def by (blast intro: put_row_commutes)

lemma lane_plain: "plain_relations lane_relations"
  using lane_kinds(4) by (auto simp: plain_relations_def lane_relations_def lane_entry_def split: if_splits)

lemma batch_replay_equals_source_witness:
  "\<exists>q. queue_batch no_inspection [lane_relations] lane_mixed [] = Inr q \<and>
     queued_rows q \<noteq> concat (map tx_Changes lane_mixed) \<and>
     fold put_row (queued_rows q) (\<lambda>_. None) = fold put_row (concat (map tx_Changes lane_mixed)) (\<lambda>_. None)"
proof -
  obtain q where q: "queueRelationBatchedChanges no_inspection [lane_relations] lane_mixed [] = Inr (Some q)"
      "queued_rows q = [lane_insert 16400 49, lane_insert 16400 50, lane_insert 16401 49]"
    by (rule lane_mixed_run)
  have items: "batch_items [lane_relations] 0 lane_mixed = [queued_item lane_relations 0 0 (lane_insert 16400 49),
      queued_item lane_relations 0 1 (lane_insert 16401 49), queued_item lane_relations 0 2 (lane_insert 16400 50)]"
    by (simp add: lane_mixed_def lane_tx_def eval_nat_numeral)
  have indep: "tables_independent (\<lambda>x. put_row (rbc_change x)) (batch_items [lane_relations] 0 lane_mixed)"
    unfolding items by (rule put_row_independent) (simp add: lane_item lane_new)
  have plain: "\<forall>rels\<in>set [lane_relations]. plain_relations rels" using lane_plain by simp
  have res: "resolve_batch lane_loader lane_cache lane_mixed = Inr ([lane_relations], lane_cache)"
    unfolding lane_mixed_def by (rule lane_resolve)
  have run: "queue_batch no_inspection [lane_relations] lane_mixed [] = Inr q" using q(1) by (simp add: queue_batch_def)
  have "rmap materializeChanges lane_mixed = Inr lane_mixed" by (simp add: materializeChanges_def lane_mixed_def lane_tx_def)
  moreover have "queued_rows q \<noteq> concat (map tx_Changes lane_mixed)"
    by (simp add: q(2) lane_mixed_def lane_tx_def lane_insert_def shop_insert_def)
  ultimately show ?thesis
    using batch_replay_equals_source [OF lane_resolve_new res run indep plain, of "\<lambda>_. None"] run by auto
qed

section \<open>Statements\<close>

definition lane_twice :: "Transaction list" where
  "lane_twice = [lane_tx [lane_update 49 97, lane_update 50 97, lane_update 49 98]]"

abbreviation lane_rel :: targetRelation where
  "lane_rel \<equiv> snd (lane_entry 16400 0)"

lemma lane_rel: "tr_columns lane_rel = [shop_id, shop_note]" "primaryKeyColumns lane_rel = [shop_id]"
  "rel_OID (tr_source lane_rel) = 16400" "rel_Columns (tr_source lane_rel) = rel_Columns shop_source"
  "tr_capabilities lane_rel = (tr_capabilities shop_target)\<lparr>cap_selectiveUpdates := False\<rparr>"
  by (simp_all add: lane_entry_def lane_target_def shop_target_def primaryKeyColumns_def lane_source_def shop_id_def shop_note_def)

lemma lane_update_kinds: "ch_Kind (lane_update k v) = ChangeUpdate" "ch_RelationOID (lane_update k v) = 16400"
  "ch_Old (lane_update k v) = None"
  by (simp_all add: lane_update_def shop_update_def)

definition lane_key :: "byte \<Rightarrow> bytes" where
  "lane_key k = DatumText # bytes_of_string ('':'' @ decimal 1 @ '':'') @ [k]"

lemma lane_key_eq [simp]: "lane_key k = lane_key l \<longleftrightarrow> k = l"
  by (simp add: lane_key_def)

lemma lane_primary: "primaryKeyTupleKey lane_rel (Some (lane_row k v)) = Inr (lane_key k)"
  "primaryKeyTupleKey lane_rel (Some (shop_row k)) = Inr (lane_key k)"
  by (simp_all add: primaryKeyTupleKey_def lane_rel lane_row_def shop_row_def validateTuple_def shop_source_def shop_id_def
      go_index_def in_range_def dat_bytes_def lane_key_def)

lemma lane_upsertable: "canPrimaryKeyUpsert (Some lane_rel) (lane_update k v) = Inr True"
  by (simp add: canPrimaryKeyUpsert_def canPrimaryKeyUpsertForPlan_def lane_new lane_rel lane_update_kinds lane_row_def
      shop_source_def shop_target_def shop_id_def shop_note_def go_index_def in_range_def)

lemma lane_chunk:
  assumes "length us \<le> 2" "us \<noteq> []"
  shows "\<exists>st. applyPrimaryKeyUpsertChunk lane_rel (map (\<lambda>(k, v). lane_update k v) us) q = Inr (q @ [st]) \<and>
    sm_rows st = map (\<lambda>(k, v). lane_update k v) us \<and> sm_op st = UpsertRows \<and> sm_relation st = Some lane_rel"
  using assms
  by (cases us rule: list.exhaust; simp; cases "tl us" rule: list.exhaust)
    (auto simp: applyPrimaryKeyUpsertChunk_def applyPrimaryKeyUpsertBinaryStage_def applyPrimaryKeyUpsertTextStage_def
      row_cells_def loadBinaryCopyStage_def loadTextCopyStage_def minimumTextCopyStageRows_def minimumBinaryCopyStageRows_def
      applyPrimaryKeyUpsertArrayChunk_def lane_rel lane_new lane_row_def shop_source_def shop_id_def shop_note_def validateTuple_def
      tuple_at_def go_index_def in_range_def arrayParamForColumn_def datumParamForColumn_def statement_def)

lemma lane_twice_run:
  obtains s1 s2 where "queueRelationBatchedChanges no_inspection [lane_relations] lane_twice [] = Inr (Some [s1, s2])"
    "sm_relation s1 = Some lane_rel" "sm_relation s2 = Some lane_rel" "sm_op s1 = UpsertRows" "sm_op s2 = UpsertRows"
proof -
  have entry: "lane_relations 16400 = Some (0, lane_rel)" by (simp add: lane_relations_def lane_entry_def)
  obtain ss where plan: "planRelationBatchedChanges [lane_relations] lane_twice = Inr (Some [ss])" "rs_ordered ss = False"
      "map (map rbc_change) (rs_lanes ss) = [[lane_update 49 97, lane_update 50 97, lane_update 49 98]]"
      "map (map rbc_relation) (rs_lanes ss) = [[Some lane_rel, Some lane_rel, Some lane_rel]]"
    by (simp add: planRelationBatchedChanges_def lane_twice_def lane_tx_def IsSpilled_def lane_kinds lane_update_kinds entry
        plan_item_def current_step_def empty_step_def add_to_lane_def)
  then obtain x y z where items: "rs_lanes ss = [[x, y, z]]" "rbc_change x = lane_update 49 97" "rbc_change y = lane_update 50 97"
      "rbc_change z = lane_update 49 98" "rbc_relation x = Some lane_rel"
    by (auto simp: map_eq_Cons_conv)
  obtain s1 where s1: "applyPrimaryKeyUpsertChunk lane_rel [lane_update 49 97, lane_update 50 97] [] = Inr [s1]"
      "sm_op s1 = UpsertRows" "sm_relation s1 = Some lane_rel"
    using lane_chunk [of "[(49, 97), (50, 97)]" "[]"] by auto
  obtain s2 where s2: "applyPrimaryKeyUpsertChunk lane_rel [lane_update 49 98] [s1] = Inr [s1, s2]"
      "sm_op s2 = UpsertRows" "sm_relation s2 = Some lane_rel"
    using lane_chunk [of "[(49, 98)]" "[s1]"] by auto
  have "applyUpdates no_inspection lane_rel [lane_update 49 97, lane_update 50 97, lane_update 49 98] [] = Inr [s1, s2]"
    using s1(1) s2(1) by (simp add: lane_upsertable lane_new lane_primary applyArrayChunkRows_def)
  then have "queueRelationBatchedChanges no_inspection [lane_relations] lane_twice [] = Inr (Some [s1, s2])"
    unfolding queueRelationBatchedChanges_def plan
    by (simp add: queue_step_def plan(2) items queueRelationReplayLane_def same_kind_def lane_update_kinds queueRelationReplayRun_def)
  then show ?thesis using that s1 s2 by blast
qed

text \<open>C38: Each statement touches a row at most once. Of the statements queued for a batch, those that
  find rows by an identity (upserts, inspections, bulk updates and deletes) never hold two changes with
  the same identity, so the result does not depend on the order in which the server visits the rows,
  and a statement for a table with at most 1600 columns has at most 65535 parameters.\<close>

theorem bulk_statements_touch_rows_once:
  assumes "queueRelationBatchedChanges inspect relations txs [] = Inr (Some q)" and "st \<in> set q"
    and "sm_relation st = Some r" and "narrow r"
  shows "touches_once st \<and> fits st"
  using batch_sound [OF assms(1,2)] assms(3,4) by (simp add: sound_def)

lemma bulk_statements_touch_rows_once_witness:
  "\<exists>q. queueRelationBatchedChanges no_inspection [lane_relations] lane_twice [] = Inr (Some q) \<and>
     (\<forall>st\<in>set q. sm_op st = UpsertRows \<and> touches_once st \<and> fits st)"
proof -
  obtain s1 s2 where q: "queueRelationBatchedChanges no_inspection [lane_relations] lane_twice [] = Inr (Some [s1, s2])"
      "sm_relation s1 = Some (snd (lane_entry 16400 0))" "sm_relation s2 = Some (snd (lane_entry 16400 0))"
      "sm_op s1 = UpsertRows" "sm_op s2 = UpsertRows"
    by (rule lane_twice_run)
  have "narrow (snd (lane_entry 16400 0))"
    by (simp add: narrow_def lane_entry_def lane_target_def shop_target_def predicateTargetColumns_def)
  then show ?thesis
    using bulk_statements_touch_rows_once [OF q(1), of s1] bulk_statements_touch_rows_once [OF q(1), of s2] q by auto
qed

section \<open>One transaction\<close>

text \<open>C39: A transaction of plain relations is queued whole and in order. Whatever way its changes are
  held, in memory or in a spill file, the rows of the statements are its changes in the order of the
  source: no change is lost, repeated or moved when inserts wait for a full chunk, truncates for their
  run, and updates are grouped by the columns they assign. This is for relations without selective
  updates and with at least one column to write: the rows of a group of selective updates are queued twice, for
  the inspection and for the updates it asks for, and a change of a relation without columns may queue nothing.\<close>

theorem transaction_queued_in_order:
  assumes "queueTransactionChanges inspect relations tx q = Inr q'" and "plain_relations relations"
  shows "\<exists>tx'. materializeChanges tx = Inr tx' \<and> queued_rows q' = queued_rows q @ tx_Changes tx'"
  using transaction_extends [OF assms(1), of True] assms(2) by (auto simp: extends_def)

lemma transaction_queued_in_order_witness:
  "\<exists>q. queueTransactionChanges no_inspection lane_relations (lane_tx [lane_insert 16400 49, lane_insert 16400 50]) [] = Inr q \<and>
     queued_rows q = [lane_insert 16400 49, lane_insert 16400 50]"
proof -
  let ?tx = "lane_tx [lane_insert 16400 49, lane_insert 16400 50]"
  obtain st where "applyInserts lane_rel [lane_insert 16400 49, lane_insert 16400 50] [] = Inr [st]"
    using lane_insert_rows [of "[49, 50]" 16400 "[]"] by (auto simp: lane_entry_def)
  moreover have "lane_relations 16400 = Some (0, lane_rel)" by (simp add: lane_relations_def lane_entry_def)
  ultimately have q: "queueTransactionChanges no_inspection lane_relations ?tx [] = Inr [st]"
    by (simp add: queueTransactionChanges_def lane_tx_def continues_def lane_kinds queue_run_def)
  from transaction_queued_in_order [OF q lane_plain] q show ?thesis
    by (auto simp: materializeChanges_def lane_tx_def)
qed

section \<open>Parallel lanes\<close>

text \<open>C37: A lane may leave out superseded updates. A parallel lane drops an update when a later one
  overwrites the same row and groups the rest by relation; replaying what is queued leaves the target as
  replaying all of the lane's changes in order does. \<open>f\<close> is any effect of a change for which changes of
  different tables commute, an update of a whole row commutes with changes of rows with another key, and
  an update of a whole row hides an earlier one of the same row. Every change of the lane is of a plain
  relation, one without selective updates and with at least one column to write.\<close>

theorem lane_coalescing_equals_source:
  assumes "resolve_batch loader newTargetRelationCache earlier = Inr (old, cache)"
    and "resolve_batch loader cache txs = Inr (relations, cache')"
    and "items = filter lane (batch_items relations 0 txs)"
    and "queueParallelReplayLane inspect items [] = Inr q"
    and "\<forall>x\<in>set items. rbc_relation x \<noteq> None \<and> plain_item x"
    and "\<forall>x\<in>set items. \<forall>y\<in>set items. table_of x \<noteq> table_of y \<longrightarrow> commutes (\<lambda>x. f (rbc_change x)) x y"
    and "rows_independent (\<lambda>x. f (rbc_change x)) items" and "last_update_wins (\<lambda>x. f (rbc_change x)) items"
  shows "fold f (queued_rows q) s = fold f (map rbc_change items) s"
proof -
  obtain seen where "cache_inv seen cache" using resolved_cache_inv [OF cache_inv_new assms(1)] by blast
  from lane_effect [OF this assms(2) assms(4-8) [unfolded assms(3)]] show ?thesis by (simp add: assms(3))
qed

definition lane_superseded :: "Transaction list" where
  "lane_superseded = [lane_tx [lane_update 49 97, lane_insert 16400 50, lane_insert 16401 51, lane_update 49 98]]"

definition of_shop :: "queuedChange \<Rightarrow> bool" where
  "of_shop x \<longleftrightarrow> table_of x = 16400"

definition lane_shop_items :: "queuedChange list" where
  "lane_shop_items = [queued_item lane_relations 0 0 (lane_update 49 97), queued_item lane_relations 0 1 (lane_insert 16400 50),
     queued_item lane_relations 0 3 (lane_update 49 98)]"

lemma lane_shop_items: "lane_shop_items = filter of_shop (batch_items [lane_relations] 0 lane_superseded)"
  by (simp add: lane_superseded_def lane_tx_def eval_nat_numeral lane_shop_items_def of_shop_def queued_item_def
      lane_kinds lane_update_kinds)

lemma lane_update_item: "queued_item lane_relations ti ci (lane_update k v) = \<lparr>rbc_transactionIndex = ti, rbc_changeIndex = ci,
     rbc_change = lane_update k v, rbc_relation = Some lane_rel, rbc_address = 0\<rparr>"
  by (simp add: queued_item_def lane_relations_def lane_entry_def lane_update_kinds)

lemma lane_coalescible:
  "coalescibleReplayPrimaryKey lane_rel (lane_update k v) =
     Inr (Some (bytes_of_string (decimal (unat (16400 :: u32)) @ '':'') @ lane_key k))"
  "coalescibleReplayPrimaryKey lane_rel (lane_insert 16400 k) =
     Inr (Some (bytes_of_string (decimal (unat (16400 :: u32)) @ '':'') @ lane_key k))"
  "supersedable lane_rel (lane_update k v) = Inr True" "supersedable lane_rel (lane_insert 16400 k) = Inr False"
proof -
  have shard: "canShardUpdateByPrimaryKey lane_rel (lane_update k v)"
    by (simp add: canShardUpdateByPrimaryKey_def lane_new lane_rel lane_update_kinds lane_row_def shop_source_def
        datum_present_def shop_id_def in_range_def primaryKeyDeleteColumns_def shop_target_def)
  show "coalescibleReplayPrimaryKey lane_rel (lane_update k v) =
      Inr (Some (bytes_of_string (decimal (unat (16400 :: u32)) @ '':'') @ lane_key k))"
    using shard by (simp add: coalescibleReplayPrimaryKey_def lane_rel lane_update_kinds lane_new lane_primary)
  show "coalescibleReplayPrimaryKey lane_rel (lane_insert 16400 k) =
      Inr (Some (bytes_of_string (decimal (unat (16400 :: u32)) @ '':'') @ lane_key k))"
    by (simp add: coalescibleReplayPrimaryKey_def lane_rel lane_kinds lane_new lane_primary)
  show "supersedable lane_rel (lane_update k v) = Inr True" "supersedable lane_rel (lane_insert 16400 k) = Inr False"
    by (simp_all add: supersedable_def lane_update_kinds lane_kinds lane_rel shop_target_def lane_upsertable)
qed

lemma lane_shop_scan:
  assumes "rbc_relation x = Some lane_rel" "rbc_relation y = Some lane_rel" "rbc_relation z = Some lane_rel"
    "rbc_change x = lane_update k v" "rbc_change y = lane_insert 16400 l" "rbc_change z = lane_update k w" "k \<noteq> l"
  shows "coalesceReplayLaneUpdates [x, y, z] = Inr [y, z]"
proof -
  have "coalesce_scan 0 [x, y, z] (\<lambda>_. None) [True, True, True] = Inr [False, True, True]"
    using assms(7) by (simp only: coalesce_scan.simps assms(1-6) lane_coalescible option.case rbind.simps not_True_eq_False if_False
      not_False_eq_True if_True) simp
  then show ?thesis by (simp add: coalesceReplayLaneUpdates_def numeral_3_eq_3)
qed

lemma lane_shop_run:
  obtains q where "queueParallelReplayLane no_inspection lane_shop_items [] = Inr q"
    "queued_rows q = [lane_insert 16400 50, lane_update 49 98]"
proof -
  let ?y = "queued_item lane_relations 0 1 (lane_insert 16400 50)" and ?z = "queued_item lane_relations 0 3 (lane_update 49 98)"
  have co: "coalesceReplayLaneUpdates lane_shop_items = Inr [?y, ?z]"
    unfolding lane_shop_items_def by (rule lane_shop_scan [of _ _ _ 49 97 50 98]) (simp_all add: queued_item_def lane_relations_def lane_entry_def lane_kinds lane_update_kinds)
  obtain s1 where s1: "applyInserts lane_rel [lane_insert 16400 50] [] = Inr [s1]" "sm_rows s1 = [lane_insert 16400 50]"
    using lane_insert_rows [of "[50]" 16400 "[]"] by (auto simp: lane_entry_def)
  obtain s2 where s2: "applyPrimaryKeyUpsertChunk lane_rel [lane_update 49 98] [s1] = Inr [s1, s2]" "sm_rows s2 = [lane_update 49 98]"
    using lane_chunk [of "[(49, 98)]" "[s1]"] by auto
  have "applyUpdates no_inspection lane_rel [lane_update 49 98] [s1] = Inr [s1, s2]"
    using s2(1) by (simp add: lane_upsertable lane_new lane_primary)
  then have "queueParallelReplayLane no_inspection lane_shop_items [] = Inr [s1, s2]"
    using s1(1) by (simp add: queueParallelReplayLane_def co add_to_lane_def lane_item lane_update_item
        queueRelationReplayLane_def same_kind_def lane_kinds lane_update_kinds queueRelationReplayRun_def)
  then show ?thesis using that s1(2) s2(2) by (simp add: queued_rows_def)
qed

lemma lane_rows:
  assumes "x \<in> set lane_shop_items"
  shows "table_of x = 16400 \<and> rbc_relation x = Some lane_rel \<and>
    (\<exists>k t. ch_New (rbc_change x) = Some t \<and> dat_bytes (t ! 0) = [k] \<and>
       item_key x = Some (bytes_of_string (decimal (unat (16400 :: u32)) @ '':'') @ lane_key k))"
proof -
  consider ti ci k v where "x = queued_item lane_relations ti ci (lane_update k v)"
    | ti ci k where "x = queued_item lane_relations ti ci (lane_insert 16400 k)"
    using assms by (auto simp: lane_shop_items_def)
  then show ?thesis
    by cases (simp_all add: lane_update_item lane_item item_key_def lane_coalescible lane_kinds lane_update_kinds lane_new
      lane_row_def shop_row_def dat_bytes_def)
qed

lemma lane_coalescing_equals_source_witness:
  "\<exists>q. queueParallelReplayLane no_inspection lane_shop_items [] = Inr q \<and> length (queued_rows q) < length lane_shop_items \<and>
     fold put_row (queued_rows q) (\<lambda>_. None) = fold put_row (map rbc_change lane_shop_items) (\<lambda>_. None)"
proof -
  obtain q where q: "queueParallelReplayLane no_inspection lane_shop_items [] = Inr q"
      "queued_rows q = [lane_insert 16400 50, lane_update 49 98]"
    by (rule lane_shop_run)
  have "plain lane_rel" by (rule lane_kinds(4))
  then have resolved: "\<forall>x\<in>set lane_shop_items. rbc_relation x \<noteq> None \<and> plain_item x"
    using lane_rows by (auto simp: plain_item_def)
  have tables: "\<forall>x\<in>set lane_shop_items. \<forall>y\<in>set lane_shop_items. table_of x \<noteq> table_of y \<longrightarrow> commutes (\<lambda>x. put_row (rbc_change x)) x y"
    using lane_rows by simp
  have rows: "rows_independent (\<lambda>x. put_row (rbc_change x)) lane_shop_items"
    unfolding rows_independent_def
  proof (intro ballI allI impI; elim conjE)
    fix x y k l
    assume "x \<in> set lane_shop_items" "y \<in> set lane_shop_items" "item_key x = Some k" "item_key y = Some l" "k \<noteq> l"
    then show "commutes (\<lambda>x. put_row (rbc_change x)) x y"
      using lane_rows [of x] lane_rows [of y] put_row_commutes [of x _ y] by force
  qed
  have wins: "last_update_wins (\<lambda>x. put_row (rbc_change x)) lane_shop_items"
    unfolding last_update_wins_def
  proof (intro ballI allI impI; elim conjE)
    fix x y k and s :: "u32 \<times> bytes \<Rightarrow> Tuple option"
    assume "x \<in> set lane_shop_items" "y \<in> set lane_shop_items" "item_key x = Some k" "item_key y = Some k"
    then show "put_row (rbc_change y) (put_row (rbc_change x) s) = put_row (rbc_change y) s"
      using lane_rows [of x] lane_rows [of y] by (auto simp: put_row_def)
  qed
  have res: "resolve_batch lane_loader lane_cache lane_superseded = Inr ([lane_relations], lane_cache)"
    unfolding lane_superseded_def by (rule lane_resolve)
  from lane_coalescing_equals_source [OF lane_resolve_new res lane_shop_items q(1) resolved tables rows wins] q
  show ?thesis by (simp add: lane_shop_items_def)
qed

section \<open>Chained moves of a key\<close>

text \<open>
  The rows of a table by the values of their identity columns. On the source an update finds the row
  of its old identity and leaves it with the new one, which no other row has. The target answers an
  inspection with the ordinals of the rows it finds, and a flag for each inspected column.
\<close>

fun source_updates :: "targetColumn list \<Rightarrow> Change list \<Rightarrow> (byte \<times> bytes) list set \<Rightarrow> (byte \<times> bytes) list set option" where
  "source_updates ident [] keys = Some keys"
| "source_updates ident (c # cs) keys =
     (let old = key_values ident (predicate_tuple c); new = key_values ident (ch_New c) in
      if old \<in> keys \<and> (new = old \<or> new \<notin> keys) then source_updates ident cs (insert new (keys - {old})) else None)"

definition table_inspection :: "targetRelation \<Rightarrow> (byte \<times> bytes) list set \<Rightarrow> inspection \<Rightarrow> bool" where
  "table_inspection r keys inspect \<longleftrightarrow> (\<forall>st cols. sm_relation st = Some r \<longrightarrow> sm_op st = InspectRows cols \<longrightarrow>
     (\<exists>flags. (\<forall>i. length (flags i) = length cols \<and> set (flags i) \<subseteq> {''t'', ''f''}) \<and>
       inspect [st] = Inr (map (\<lambda>i. decimal i # flags i)
         (filter (\<lambda>i. touched_key st (sm_rows st ! i) \<in> keys) [0..<length (sm_rows st)]))))"

abbreviation unmatched :: "targetRelation \<Rightarrow> error" where
  "unmatched r \<equiv> divergenceFor (Some r) ChangeUpdate ''selective inspection did not match a source row''"

lemma mask_flags_total: "set vs \<subseteq> {''t'', ''f''} \<Longrightarrow> \<exists>m. mask_flags r is vs = Inr m"
proof (induction vs arbitrary: "is")
  case (Cons v vs)
  then obtain m where "mask_flags r (tl is) vs = Inr m" by (metis insert_subset list.simps(15))
  with Cons.prems show ?case by (cases "is") auto
qed simp

text \<open>Of two rows the first is found and the second is not.\<close>

lemma second_unmatched:
  assumes "length flags = length cols" "set flags \<subseteq> {''t'', ''f''}"
  shows "consume_masks r cols [decimal 0 # flags] (replicate 2 None) = Inl (unmatched r)"
proof -
  have zero: "decimal 0 = ''0''" by code_simp
  obtain m where "mask_flags r cols flags = Inr m" using mask_flags_total [OF assms(2)] by blast
  with assms(1) show ?thesis
    by (simp add: zero Atoi_def digit_char_def digits_value_def numeral_2_eq_2)
qed

lemma two_rows_chunk:
  assumes "cap_selectiveUpdates (tr_capabilities r)" "narrow r" "updateSetColumnIndexes r ch = Inr cols"
    "batchUpdateIdentityColumns r \<noteq> []"
  shows "1 < update_chunk_rows r (batchUpdateIdentityColumns r) cols"
proof -
  let ?n = "length cols + length (batchUpdateIdentityColumns r)"
  have "?n \<le> 3200" "0 < ?n" using update_few [OF assms(3)] assms(2,4) by (simp_all add: few_def)
  then have "20 \<le> 65535 div ?n" using div_le_mono2 [of ?n 3200 65535] by simp
  with \<open>0 < ?n\<close> have "1 < updateChunkRows ?n" unfolding updateChunkRows_def Let_def by auto
  then show ?thesis using assms(1) by (simp add: update_chunk_rows_def Let_def applySelectiveProbeChunkRows_def)
qed

text \<open>C40: A batch of selective updates rejects a row that moves twice. A transaction in memory begins
  with a run of two updates of a relation with selective updates and at most 1600 columns (PostgreSQL's limit): the
  first changes the identity of a row, the second finds its row by that new identity; both assign the
  same columns, neither can be an upsert, and their values can be encoded. The source executed both on
  the rows \<open>keys\<close>, the target has the same rows and answers its inspections truthfully. The replay
  inspects both updates at once, before the first is applied; the row of the second is not there yet,
  and the replay of the transaction ends in a divergence error. (Two updates that assign different
  columns are inspected one at a time.)\<close>

theorem chained_key_move_diverges:
  assumes "tx_Spill tx = None" and "tx_Changes tx = u # v # rest" and "rest = [] \<or> \<not> continues u (hd rest)"
    and "ch_Kind u = ChangeUpdate" and "ch_Kind v = ChangeUpdate" and "ch_RelationOID v = ch_RelationOID u"
    and "relations (ch_RelationOID u) = Some (n, r)" and "cap_selectiveUpdates (tr_capabilities r)"
    and "tr_columns r \<noteq> []" and "narrow r" and "ident = batchUpdateIdentityColumns r"
    and "canPrimaryKeyUpsert (Some r) u = Inr False" and "canPrimaryKeyUpsert (Some r) v = Inr False"
    and "batchUpdateIdentityKey r ident u = Inr key" and "batchUpdateIdentityKey r ident v = Inr key'"
    and "updateSetColumnIndexes r u = Inr cols" and "updateSetColumnIndexes r v = Inr cols"
    and "update_array_params r ident cols [u, v] = Inr arrays"
    and "(case arrays of Some ps \<Rightarrow> Inr ps | None \<Rightarrow> update_value_params r ident cols [u, v]) = Inr params"
    and "source_updates ident [u, v] keys = Some keys'"
    and "key_values ident (ch_New u) \<noteq> key_values ident (predicate_tuple u)"
    and "key_values ident (predicate_tuple v) = key_values ident (ch_New u)"
    and "table_inspection r keys inspect"
  shows "queueTransactionChanges inspect relations tx [] =
    Inl (divergenceFor (Some r) ChangeUpdate ''selective inspection did not match a source row'')"
proof -
  let ?st = "returning_ordinals (statement (InspectRows cols) r ident [u, v] (Params params))"
  let ?found = "\<lambda>i. touched_key ?st (sm_rows ?st ! i) \<in> keys"
  have "key_values ident (predicate_tuple u) \<in> keys" "key_values ident (predicate_tuple v) \<notin> keys"
    using assms(20-22) by (auto simp: Let_def split: if_splits)
  then have "filter ?found [0..<length (sm_rows ?st)] = [0]"
    by (simp add: touched_key_def numeral_2_eq_2)
  moreover obtain flags where "length (flags 0) = length cols" "set (flags (0::nat)) \<subseteq> {''t'', ''f''}"
      "inspect [?st] = Inr (map (\<lambda>i. decimal i # flags i) (filter ?found [0..<length (sm_rows ?st)]))"
    using assms(23)[unfolded table_inspection_def, rule_format, of ?st cols] by auto
  ultimately have answer: "inspect [?st] = Inr [decimal 0 # flags 0]"
    and masks: "consume_masks r cols [decimal 0 # flags 0] (replicate (length [u, v]) None) = Inl (unmatched r)"
    using second_unmatched by (simp_all add: numeral_2_eq_2)
  have chunk: "applySelectiveUpdateChunk inspect r ident cols [u, v] [] = Inl (unmatched r)"
    unfolding applySelectiveUpdateChunk_def inspectSelectiveUpdateMasks_def assms(18) rbind.simps assms(19) Let_def
      append_Nil answer masks ..
  have "key_values ident (predicate_tuple v) \<noteq> key_values ident (predicate_tuple u)" using assms(21,22) by simp
  then have "key' \<noteq> key"
    using update_key_wire [OF assms(14)] update_key_wire [OF assms(15)] by (simp add: identity_wire_eq)
  moreover have ident: "ident \<noteq> []" using assms(21) by (auto simp: key_values_def)
  moreover have "1 < update_chunk_rows r ident cols"
    using two_rows_chunk [OF assms(8,10,16) ident [unfolded assms(11)]] unfolding assms(11) .
  ultimately have "applyUpdates inspect r [u, v] [] = Inl (unmatched r)"
    using chunk assms(8,9,12-17) by (simp add: applyLegacyUpdates_def queue_update_group_def flip: assms(11))
  moreover have "takeWhile (continues u) rest = []" using assms(3) by (cases rest) auto
  moreover have "continues u v" using assms(4-6) by (simp add: continues_def)
  ultimately show ?thesis
    using assms(1,2,4,7) by (simp add: queueTransactionChanges_def queue_run_def)
qed

text \<open>The table \<^verbatim>\<open>shop\<close> has the row 1; the source moves it to 2 and then to 3.\<close>

definition key_server :: "(byte \<times> bytes) list list \<Rightarrow> inspection" where
  "key_server keys q = (case q of
     [st] \<Rightarrow> (case sm_op st of
         InspectRows cols \<Rightarrow> Inr (map (\<lambda>i. decimal i # map (\<lambda>_. ''t'') cols)
           (filter (\<lambda>i. touched_key st (sm_rows st ! i) \<in> set keys) [0..<length (sm_rows st)]))
       | _ \<Rightarrow> Inl (Err ''not an inspection''))
   | _ \<Rightarrow> Inl (Err ''not an inspection''))"

lemma key_server: "table_inspection r (set keys) (key_server keys)"
  unfolding table_inspection_def
proof (intro allI impI)
  fix st :: Statement and cols assume "sm_op st = InspectRows cols"
  then show "\<exists>flags. (\<forall>i. length (flags i) = length cols \<and> set (flags i) \<subseteq> {''t'', ''f''}) \<and>
      key_server keys [st] = Inr (map (\<lambda>i. decimal i # flags i)
        (filter (\<lambda>i. touched_key st (sm_rows st ! i) \<in> set keys) [0..<length (sm_rows st)]))"
    by (intro exI [of _ "\<lambda>_. map (\<lambda>_. ''t'') cols"]) (auto simp: key_server_def)
qed

definition chained_tx :: Transaction where
  "chained_tx = lane_tx [shop_update 49 50, shop_update 50 51, shop_insert 52]"

definition selective_relations :: resolution where
  "selective_relations = [16400 \<mapsto> (0, shop_target)]"

lemma shop_change: "ch_Kind (shop_update a b) = ChangeUpdate" "ch_RelationOID (shop_update a b) = 16400"
  "ch_New (shop_update a b) = Some (shop_row b)" "ch_Old (shop_update a b) = Some (shop_row a)"
  "predicate_tuple (shop_update a b) = Some (shop_row a)" "dat_bytes (shop_row a ! 0) = [a]"
  by (simp_all add: shop_update_def predicate_tuple_def shop_row_def dat_bytes_def)

lemma shop_rel: "tr_columns shop_target = [shop_id, shop_note]" "rel_Columns (tr_source shop_target) = rel_Columns shop_source"
  "length (rel_Columns shop_source) = 2" "batchUpdateIdentityColumns shop_target = [shop_id]"
  "tc_sourceIndex shop_id = 0" "tc_sourceIndex shop_note = 1" "tc_key shop_id" "\<not> tc_key shop_note"
  "cap_selectiveUpdates (tr_capabilities shop_target)" "cap_keyedSetDML (tr_capabilities shop_target)"
  by (simp_all add: shop_target_def shop_source_def shop_id_def shop_note_def batchUpdateIdentityColumns_def predicateTargetColumns_def)

lemma shop_tuple: "length (shop_row a) = 2" "go_index (shop_row a) 0 = Inr \<lparr>dat_Kind = DatumText, dat_Data = Some [a]\<rparr>"
  "go_index (shop_row a) 1 = Inr \<lparr>dat_Kind = DatumText, dat_Data = Some [120]\<rparr>"
  by (simp_all add: shop_row_def go_index_def in_range_def)

lemma shop_not_upsertable: "a \<noteq> b \<Longrightarrow> canPrimaryKeyUpsert (Some shop_target) (shop_update a b) = Inr False"
  by (simp add: canPrimaryKeyUpsert_def canPrimaryKeyUpsertForPlan_def shop_change shop_rel shop_tuple shop_primary
      tupleDatumEqual_def dat_bytes_def)

lemma shop_set_columns: "a \<noteq> b \<Longrightarrow> updateSetColumnIndexes shop_target (shop_update a b) = Inr [0, 1]"
  by (simp add: updateSetColumnIndexes_def shop_rel shop_change tuple_at_def shop_tuple tupleDatumEqual_def dat_bytes_def)

lemma shop_identity: "batchUpdateIdentityKey shop_target [shop_id] (shop_update a b) =
    Inr (DatumText # bytes_of_string (decimal 1 @ '':'') @ [a])"
  by (simp add: batchUpdateIdentityKey_def validateTuple_def shop_change shop_rel shop_tuple tuple_at_def dat_bytes_def
      datumParamForColumn_def)

lemma shop_values: "\<exists>ps. update_value_params shop_target [shop_id] [0, 1] [shop_update a b, shop_update c d] = Inr ps"
  by (simp add: update_value_params_def shop_rel shop_change shop_tuple tuple_at_def datumParamForColumn_def)

lemma shop_arrays: "\<exists>ps. update_array_params shop_target [shop_id] [0, 1] [shop_update a b, shop_update c d] = Inr ps"
  by (simp add: update_array_params_def update_column_values_def shop_rel shop_change shop_tuple tuple_at_def
      arrayParamForColumn_def datumParamForColumn_def useExactIdentityMembership_def useSelectiveBitmap_def
      shop_target_def shop_id_def shop_note_def)

lemma shop_key: "key_values [shop_id] (Some (shop_row a)) = [(DatumText, [a])]"
  by (simp add: key_values_def shop_rel shop_row_def dat_bytes_def)

lemma chained_key_move_diverges_witness:
  "source_updates [shop_id] [shop_update 49 50, shop_update 50 51] {[(DatumText, [49])]} = Some {[(DatumText, [51])]} \<and>
   queueTransactionChanges (key_server [[(DatumText, [49])]]) selective_relations chained_tx [] =
     Inl (divergenceFor (Some shop_target) ChangeUpdate ''selective inspection did not match a source row'')"
proof -
  let ?u = "shop_update 49 50" and ?v = "shop_update 50 51"
  have source: "source_updates [shop_id] [?u, ?v] {[(DatumText, [49])]} = Some {[(DatumText, [51])]}"
    by (simp add: shop_change shop_key)
  obtain ps where ps: "update_array_params shop_target [shop_id] [0, 1] [?u, ?v] = Inr ps" using shop_arrays by blast
  obtain vs where vs: "(case ps of Some xs \<Rightarrow> Inr xs | None \<Rightarrow> update_value_params shop_target [shop_id] [0, 1] [?u, ?v]) = Inr vs"
    using shop_values [of 49 50 50 51] by (cases ps) auto
  have changes: "tx_Spill chained_tx = None" "tx_Changes chained_tx = ?u # ?v # [shop_insert 52]"
      "[shop_insert 52] = [] \<or> \<not> continues ?u (hd [shop_insert 52])" "selective_relations (ch_RelationOID ?u) = Some (0, shop_target)"
    by (simp_all add: chained_tx_def lane_tx_def continues_def shop_change selective_relations_def shop_insert_def)
  have shape: "tr_columns shop_target \<noteq> []" "narrow shop_target" "[shop_id] = batchUpdateIdentityColumns shop_target"
      "ch_RelationOID ?v = ch_RelationOID ?u"
    by (simp_all add: shop_rel shop_change narrow_def predicateTargetColumns_def)
      (simp add: shop_target_def)
  have upsert: "canPrimaryKeyUpsert (Some shop_target) ?u = Inr False" "canPrimaryKeyUpsert (Some shop_target) ?v = Inr False"
      "updateSetColumnIndexes shop_target ?u = Inr [0, 1]" "updateSetColumnIndexes shop_target ?v = Inr [0, 1]"
    by (simp_all add: shop_not_upsertable shop_set_columns)
  have keys: "key_values [shop_id] (ch_New ?u) \<noteq> key_values [shop_id] (predicate_tuple ?u)"
      "key_values [shop_id] (predicate_tuple ?v) = key_values [shop_id] (ch_New ?u)"
    by (simp_all add: shop_change shop_key)
  have server: "table_inspection shop_target {[(DatumText, [49])]} (key_server [[(DatumText, [49])]])"
    using key_server [of shop_target "[[(DatumText, [49])]]"] by simp
  note move = chained_key_move_diverges [where relations = selective_relations, OF changes(1-3) shop_change(1) [of 49 50] shop_change(1) [of 50 51]
    shape(4) changes(4) shop_rel(9) shape(1-3) upsert(1,2) shop_identity [of 49 50] shop_identity [of 50 51] upsert(3,4) ps vs source keys server]
  show ?thesis using source move by simp
qed

end
