(* ===== verification/Spec2Isabelle.thy ===== *)
theory Spec2Isabelle
  imports SegmentReader ReplayPlanProps ReplayRunProps PGDecoderProps CdcPipelineProps MaintenanceProps CopyProps ApplyReaderProps ApplyProps
begin

text \<open>
  pgmigrate moves a PostgreSQL database to another server while it is being written. An initial copy
  transfers a snapshot of the tables. From the snapshot on, logical replication captures every
  committed transaction into segment files; an applier replays them on the target, prunes the
  segments it no longer needs, and stops at the end position of the cutover. This development models
  the parts that decide whether the target ends up equal to the source, and proves that they do what
  they promise.

  \<^bold>\<open>How the parts interact.\<close> The receiver decodes the replication stream into transactions and puts
  them into a bounded channel; the persister takes them out, appends them to the segment writer, syncs,
  and publishes the durable watermark; the receiver reports that watermark to the source, which then
  forgets what lies before it. The applier reads the segments through the segment reader up to the
  watermark, cuts the transactions into batches, and has each batch planned into steps and lanes. A plan
  is stored on the target as a claim with one row per work, executed by concurrent sessions, and
  finalized into the progress row. The pruner removes the segments before the progress. The copy runs
  against the snapshot with its own receipts and the local store.

  \<^bold>\<open>Conventions.\<close> A Go error is the left side of \<open>'a res\<close>, wrapped errors keep their chain
  (\<open>Prelude\<close>). Structs are records, nil-able fields options, fixed-width integers words; \<^verbatim>\<open>int\<close> counters are
  \<open>nat\<close> or \<open>int\<close> with the wrap-around written out where the code could reach it. A goroutine's
  choice, the network, the clock and failing system calls are inputs: event lists (\<open>Receiver\<close>), fault
  records (\<open>SegmentWriter\<close>, \<open>Maintenance\<close>, \<open>PGDecoder\<close>), transaction faults (\<open>ReplayStore\<close>), scripts of faults
  for programs that make many calls (\<open>Effects\<close>), and schedules (\<open>ReplayExecute\<close>, \<open>CopyRun\<close>). Every property
  quantifies over all of them.

  \<^bold>\<open>Transactions and their format\<close> (\<^verbatim>\<open>internal/cdc/model.go\<close>, \<^verbatim>\<open>codec.go\<close>, \<^verbatim>\<open>codec_stream.go\<close>, \<^verbatim>\<open>spill.go\<close>)
  \<^item> \<open>Model\<close>: relations, tuples, changes, transactions, spills.
  \<^item> \<open>Codec\<close>, \<open>CodecDecode\<close>: size computation, encoder and slice decoder; encoding and decoding are inverse
    to each other in both directions, up to the nil values the format cannot hold.
  \<^item> \<open>CodecStream\<close>: the bounded reader's decoder, the writing encoder and the spill operations; a spilled
    transaction is written with the bytes of a resident one and read back in order.

  \<^bold>\<open>Segments\<close> (\<^verbatim>\<open>segment.go\<close>, \<^verbatim>\<open>reader.go\<close>, \<^verbatim>\<open>end_position.go\<close>, \<^verbatim>\<open>maintenance.go\<close>)
  \<^item> \<open>Frames\<close>: length, CRC-32C and payload, and the scan of a file that stops at a torn tail.
  \<^item> \<open>SegmentDir\<close>: file names, listing, recovery. A \<open>Disk\<close> is an association list of files; each file knows
    how many of its bytes are synced, and a crash keeps those and any prefix of the rest.
  \<^item> \<open>SegmentWriter\<close>: the writer with every operation, every system call of which may fail.
  \<^item> \<open>SegmentDurability\<close>: the writer's invariant (\<open>writer_inv\<close>) over all histories (\<open>writer_reach\<close>), each append
    refining an append to the abstract log, and recovery after a crash. The histories have every failing call
    but two, which \<open>safe_faults\<close> leaves out because the code does not survive them: the \<^verbatim>\<open>Truncate\<close> of a
    roll-back, whose error \<^verbatim>\<open>rollbackFrameLocked\<close> ignores, and the reopening of a segment after a failed rename.
  \<^item> \<open>SegmentReader\<close>: the reader, and the resolution of an end position. Reading to the end takes at most
    one turn for each stored byte and one more for each file: \<open>read_fuel\<close>, which \<open>read_fuel_enough\<close> shows.
  \<^item> \<open>Maintenance\<close>, \<open>MaintenanceProps\<close>: the pruner and its interplay with writer, reader and recovery.

  \<^bold>\<open>Capture\<close> (\<^verbatim>\<open>pgoutput.go\<close>, \<^verbatim>\<open>receiver.go\<close>, \<^verbatim>\<open>retry.go\<close>, \<^verbatim>\<open>persister.go\<close>)
  \<^item> \<open>PGDecoder\<close>, \<open>PGDecoderProps\<close>: the decoder's state machine over \<open>pglogrepl\<close>'s messages (its parser is the
    parameter \<open>parse\<close>), with a reference decoder without spills that it refines.
  \<^item> \<open>Receiver\<close>: configuration, session loop, feedback, delivery and reconnection, error classes.
  \<^item> \<open>Persister\<close>: the loop's branches. \<open>CdcPipeline\<close>, \<open>CdcPipelineProps\<close>: source, receiver, channel, persister and
    writer as one transition system (\<open>cdc_reach\<close>) with its invariant.

  \<^bold>\<open>Replay\<close> (\<^verbatim>\<open>applier.go\<close>, \<^verbatim>\<open>replay_plan.go\<close>, \<^verbatim>\<open>replay_claim.go\<close>, \<^verbatim>\<open>replay_execute.go\<close>, \<^verbatim>\<open>progress_identity.go\<close>)
  \<^item> \<open>ApplyReader\<close>, \<open>ApplyReaderProps\<close>: the windows that cut the stored transactions into batches. The reader is
    the list of what its \<^verbatim>\<open>Next\<close> returns; a transaction put back is its head again; the loop's
    bound is one turn for each transaction and one more.
  \<^item> \<open>Hashing\<close>, \<open>TargetRelation\<close>: SHA-256 and the key hashes, target relations with their key helpers.
  \<^item> \<open>ReplayClaim\<close>, \<open>UnionFind\<close>, \<open>ReplayPlan\<close>, \<open>ReplayLanes\<close>, \<open>ReplayBuild\<close>: claims and manifests, the components of
    transactions that share keys (\<open>uf_find\<close> takes the number of nodes as its bound, longer than any path),
    lanes, steps and the plan. \<open>ReplayPlanCorrect\<close>, \<open>ReplayPlanTotal\<close>, \<open>ReplayKeys\<close>, \<open>ReplayPlanProps\<close>: what a
    plan guarantees and that there always is one.
  \<^item> \<open>ReplayStore\<close>: the claim, work, identity and progress tables as the record \<open>ReplayDB\<close>, one definition for
    each operation, every SQL statement as its effect. \<open>ReplayDirect\<close>: a transaction or a batch replayed without a
    claim, in one target transaction that also moves the progress. \<open>ReplayHistory\<close>, \<open>ReplayOnce\<close>, \<open>ReplayOnceProps\<close>:
    histories of all these operations under faults, exactly-once replay, and what the progress row counts.
  \<^item> \<open>ReplayExecute\<close>, \<open>ReplayAccept\<close>, \<open>ReplayRun\<close>, \<open>ReplayRunProps\<close>: the executor's checks, its scheduling, and
    completion of a batch, also of one that an earlier run left half done.
  \<^item> \<open>ApplyStatements\<close>, \<open>ApplyRows\<close>: the statements queued for a run of changes: their rows, identities, transport
    and values, the chunks they are cut into, and that a bulk statement never has the same row twice.
  \<^item> \<open>ApplyLanes\<close>, \<open>ApplyOrder\<close>, \<open>ApplyCoalesce\<close>, \<open>ApplyProps\<close>: the relation cache, the plan of a batch into steps and
    lanes, serial and spilled transactions, the lanes of a parallel step and their superseded updates.
    What is queued has the effect of the source for \<open>plain\<close> relations: those without selective updates and
    with at least one column to write. For selective updates the statements are modelled too (the
    server's answer to an inspection is the parameter \<open>inspect\<close>); their theorem is the one that shows
    where they differ from the source, \<open>chained_key_move_diverges\<close>.

  \<^bold>\<open>Initial copy\<close> (\<^verbatim>\<open>internal/copy/copy.go\<close>, \<^verbatim>\<open>internal/state/records.go\<close>)
  \<^item> \<open>CopyPlan\<close>: tables, parts and their 64-bit bounds. \<open>CopyRun\<close>: registration, worker pool, the copy of a part,
    its receipt and the local records. \<open>CopyExact\<close>, \<open>CopyProps\<close>: the invariant over any number of runs, from
    any rows in the target tables. \<open>leftover\<close> is what stays of these rows: nothing for a table planned as a whole
    or as several parts, which is truncated, and for a table planned as one range part, which
    \<^verbatim>\<open>Run\<close> never truncates, the rows outside the range.

  \<^bold>\<open>Hypotheses.\<close> They state what other programs guarantee: the source's commits come in LSN order with
  increasing end positions, the parser returns what the protocol allows, the inventory reads the
  catalog (\<open>inventoried\<close>, \<open>tables_ok\<close>), the first copy run finds no receipts (\<open>copy_start\<close>), the works of a
  step commute on the target where the planner has proved them independent. Each is discharged in a
  witness on concrete values.

  \<^bold>\<open>Bounds of the model.\<close> The order of retries after a lost commit is that of the store's row locks; a
  rotation whose rename fails and whose reopen fails too is not followed further, nor is a roll-back whose
  truncate fails; a batch replayed without a claim ends after the progress it starts from; the executor compares
  the changes of a lane by value where the code compares pointers; histories of the
  archive with a prune whose directory sync failed go on through a restart.

  \<^bold>\<open>Not modelled.\<close> SQL text and what PostgreSQL does with it; command line, configuration files, HTTP
  controller, status, metrics, verification reports, tuning advice, preflight findings and schema
  restore, which are input, output and catalog queries around the core; test support.
\<close>

end
